(* ===== verification/Rurge_Glob.thy ===== *)
theory Rurge_Glob
  imports Rurge_Prelude
begin

text \<open>
  The wildcard matcher of \<^verbatim>\<open>crates/rurge-config/src/glob.rs\<close>: the reading of a pattern into
  tokens (\<open>glob_new\<close>), the matching loop with its single remembered star
  (\<open>glob_loop\<close>), and the declarative meaning of a token list (\<open>tok_lang\<close>) that the loop is
  shown to decide.
\<close>

section \<open>Model\<close>

record glob_options =
  case_insensitive :: bool
  classes :: bool

datatype glob_error = GlobError string

datatype tok = Lit char | AnyRun | One | Class bool "(char \<times> char) list"

record glob =
  g_source :: string
  g_toks :: "tok list"
  g_ci :: bool

definition fold_case :: "bool \<Rightarrow> char \<Rightarrow> char" where
  "fold_case ci c = (if ci then to_ascii_lowercase_char c else c)"

text \<open>
  The inner loop over a character class, at the first character after \<open>[\<close> and the
  negation: \<open>None\<close> when the text ends before the class is closed, otherwise its ranges and
  what follows the closing bracket.
\<close>

fun class_loop :: "bool \<Rightarrow> (char \<times> char) list \<Rightarrow> string \<Rightarrow> ((char \<times> char) list \<times> string) option" where
  "class_loop ci ranges [] = None"
| "class_loop ci ranges (lo # cs) =
     (if lo = CHR '']'' \<and> ranges \<noteq> [] then Some (ranges, cs)
      else (case cs of
              dash # hi # rest \<Rightarrow>
                if dash = CHR ''-'' \<and> hi \<noteq> CHR '']''
                then class_loop ci (ranges @ [(fold_case ci lo, fold_case ci hi)]) rest
                else class_loop ci (ranges @ [(fold_case ci lo, fold_case ci lo)]) cs
            | _ \<Rightarrow> class_loop ci (ranges @ [(fold_case ci lo, fold_case ci lo)]) cs))"

definition class_negate :: "string \<Rightarrow> bool" where
  "class_negate cs = (case cs of [] \<Rightarrow> False | c # _ \<Rightarrow> c = CHR ''!'' \<or> c = CHR ''^'')"

lemma class_loop_shorter:
  "class_loop ci ranges cs = Some (rs, rest) \<Longrightarrow> length rest < length cs"
  by (induction ci ranges cs rule: class_loop.induct)
     (force split: if_splits list.splits)+

function glob_new_loop :: "string \<Rightarrow> glob_options \<Rightarrow> string \<Rightarrow> tok list \<Rightarrow> glob_error + tok list" where
  "glob_new_loop pattern opts [] toks = Inr toks"
| "glob_new_loop pattern opts (c # cs) toks =
     (if c = CHR ''*'' then
        glob_new_loop pattern opts cs
          (if toks \<noteq> [] \<and> last toks = AnyRun then toks else toks @ [AnyRun])
      else if c = CHR ''?'' then glob_new_loop pattern opts cs (toks @ [One])
      else if c = CHR ''['' \<and> classes opts then
        (case class_loop (case_insensitive opts) [] (if class_negate cs then tl cs else cs) of
           None \<Rightarrow> Inl (GlobError (''unterminated character class in `'' @ pattern @ ''`''))
         | Some (ranges, rest) \<Rightarrow>
             glob_new_loop pattern opts rest (toks @ [Class (class_negate cs) ranges]))
      else glob_new_loop pattern opts cs (toks @ [Lit (fold_case (case_insensitive opts) c)]))"
  by pat_completeness auto
termination
proof (relation "measure (\<lambda>(_, _, cs, _). length cs)", goal_cases)
  case (4 pattern opts c cs toks x ranges rest)
  then have "length rest < length (if class_negate cs then tl cs else cs)"
    using class_loop_shorter by metis
  then show ?case by (auto split: if_splits)
qed auto

definition glob_new :: "string \<Rightarrow> glob_options \<Rightarrow> glob_error + glob" where
  "glob_new pattern opts =
     map_sum id (\<lambda>toks. \<lparr>g_source = pattern, g_toks = toks, g_ci = case_insensitive opts\<rparr>)
       (glob_new_loop pattern opts pattern [])"

definition has_wildcards :: "glob \<Rightarrow> bool" where
  "has_wildcards g \<longleftrightarrow> list_ex (\<lambda>t. case t of Lit _ \<Rightarrow> False | _ \<Rightarrow> True) (g_toks g)"

fun tok_matches :: "tok \<Rightarrow> char \<Rightarrow> bool" where
  "tok_matches (Lit l) c \<longleftrightarrow> l = c"
| "tok_matches One c \<longleftrightarrow> True"
| "tok_matches (Class negate ranges) c \<longleftrightarrow> list_ex (\<lambda>(a, b). a \<le> c \<and> c \<le> b) ranges \<noteq> negate"
| "tok_matches AnyRun c \<longleftrightarrow> False"

text \<open>
  The loop of \<open>Glob::matches\<close>: \<open>si\<close> and \<open>pi\<close> are the positions in the text and in the
  tokens, \<open>star\<close> the last star taken and where in the text it stands. \<open>None\<close> is the early
  \<open>return false\<close>, \<open>Some pi\<close> the position the loop ends with.
\<close>

function glob_loop :: "tok list \<Rightarrow> string \<Rightarrow> nat \<Rightarrow> nat \<Rightarrow> (nat \<times> nat) option \<Rightarrow> nat option" where
  "glob_loop toks input si pi star =
     (if si < length input then
        if pi < length toks \<and> tok_matches (toks ! pi) (input ! si)
        then glob_loop toks input (si + 1) (pi + 1) star
        else if pi < length toks \<and> toks ! pi = AnyRun
        then glob_loop toks input si (pi + 1) (Some (pi, si))
        else (case star of
                Some (sp, ss) \<Rightarrow> glob_loop toks input (ss + 1) (sp + 1) (Some (sp, ss + 1))
              | None \<Rightarrow> None)
      else Some pi)"
  by pat_completeness auto
termination
  by (relation "measures
        [\<lambda>(toks, input, si, pi, star). case star of None \<Rightarrow> 0 | Some (sp, ss) \<Rightarrow> if sp < pi then 0 else 1,
         \<lambda>(toks, input, si, pi, star). case star of None \<Rightarrow> Suc (length toks) | Some (sp, ss) \<Rightarrow> length toks - sp,
         \<lambda>(toks, input, si, pi, star). case star of None \<Rightarrow> 0 | Some (sp, ss) \<Rightarrow> length input - ss,
         \<lambda>(toks, input, si, pi, star). length input - si]")
     (auto split: option.splits)

declare glob_loop.simps [simp del]

definition glob_matches :: "glob \<Rightarrow> string \<Rightarrow> bool" where
  "glob_matches g s =
     (case glob_loop (g_toks g) (map (fold_case (g_ci g)) s) 0 0 None of
        None \<Rightarrow> False
      | Some pi \<Rightarrow> dropWhile (\<lambda>t. t = AnyRun) (drop pi (g_toks g)) = [])"

section \<open>What a token list means\<close>

fun tok_lang :: "tok list \<Rightarrow> string \<Rightarrow> bool" where
  "tok_lang [] cs \<longleftrightarrow> cs = []"
| "tok_lang (AnyRun # ts) [] \<longleftrightarrow> tok_lang ts []"
| "tok_lang (AnyRun # ts) (c # cs) \<longleftrightarrow> tok_lang ts (c # cs) \<or> tok_lang (AnyRun # ts) cs"
| "tok_lang (t # ts) [] \<longleftrightarrow> False"
| "tok_lang (t # ts) (c # cs) \<longleftrightarrow> tok_matches t c \<and> tok_lang ts cs"

lemma tok_lang_star: "tok_lang (AnyRun # ts) cs \<longleftrightarrow> (\<exists>k\<le>length cs. tok_lang ts (drop k cs))"
proof (induction cs)
  case Nil
  then show ?case by simp
next
  case (Cons c cs)
  have "(\<exists>k\<le>length (c # cs). tok_lang ts (drop k (c # cs))) \<longleftrightarrow>
        tok_lang ts (c # cs) \<or> (\<exists>k\<le>length cs. tok_lang ts (drop k cs))"
    by (metis Suc_le_mono drop0 drop_Suc_Cons length_Cons not0_implies_Suc zero_le)
  with Cons show ?case by simp
qed

lemma tok_lang_plain_Cons:
  "t \<noteq> AnyRun \<Longrightarrow> tok_lang (t # ts) cs \<longleftrightarrow> (\<exists>d ds. cs = d # ds \<and> tok_matches t d \<and> tok_lang ts ds)"
  by (cases t; cases cs) auto

lemma tok_lang_Nil_text: "tok_lang ts [] \<longleftrightarrow> dropWhile (\<lambda>t. t = AnyRun) ts = []"
proof (induction ts)
  case (Cons t ts)
  then show ?case by (cases t) auto
qed simp

lemma tok_matches_not_AnyRun: "tok_matches t c \<Longrightarrow> t \<noteq> AnyRun"
  by auto

text \<open>A star-free segment consumes exactly one character per token.\<close>

lemma tok_lang_segment:
  "AnyRun \<notin> set seg \<Longrightarrow> tok_lang (seg @ ts) cs \<Longrightarrow>
     length seg \<le> length cs \<and> tok_lang ts (drop (length seg) cs)"
proof (induction seg arbitrary: cs)
  case (Cons t seg)
  then obtain d ds where "cs = d # ds" "tok_lang (seg @ ts) ds"
    by (auto simp: tok_lang_plain_Cons)
  with Cons show ?case by auto
qed simp

section \<open>The loop decides the language\<close>

text \<open>What holds of the positions each time the loop is entered.\<close>

definition glob_inv :: "tok list \<Rightarrow> string \<Rightarrow> nat \<Rightarrow> nat \<Rightarrow> (nat \<times> nat) option \<Rightarrow> bool" where
  "glob_inv toks input si pi star \<longleftrightarrow>
     si \<le> length input \<and> pi \<le> length toks \<and>
     (case star of None \<Rightarrow> True
      | Some (sp, ss) \<Rightarrow> sp < pi \<and> ss \<le> si \<and> pi - (sp + 1) = si - ss \<and>
          AnyRun \<notin> set (take (pi - (sp + 1)) (drop (sp + 1) toks)))"

text \<open>What the loop has still to decide: the rest here, or the rest of the remembered star further on.\<close>

definition glob_goal :: "tok list \<Rightarrow> string \<Rightarrow> nat \<Rightarrow> nat \<Rightarrow> (nat \<times> nat) option \<Rightarrow> bool" where
  "glob_goal toks input si pi star \<longleftrightarrow>
     tok_lang (drop pi toks) (drop si input) \<or>
     (case star of None \<Rightarrow> False
      | Some (sp, ss) \<Rightarrow> \<exists>k. ss < k \<and> k \<le> length input \<and> tok_lang (drop (sp + 1) toks) (drop k input))"

lemma star_split:
  assumes "glob_inv toks input si pi (Some (sp, ss))"
    and "tok_lang (drop (sp + 1) toks) (drop k input)"
  shows "si - ss \<le> length input - k \<and> tok_lang (drop pi toks) (drop (k + (si - ss)) input)"
proof -
  let ?n = "pi - (sp + 1)"
  let ?seg = "take ?n (drop (sp + 1) toks)"
  have seg: "AnyRun \<notin> set ?seg" "length ?seg = ?n" "?n = si - ss"
    using assms(1) by (auto simp: glob_inv_def)
  have "sp < pi" using assms(1) by (simp add: glob_inv_def)
  then have "?n + (sp + 1) = pi" by simp
  then have "drop ?n (drop (sp + 1) toks) = drop pi toks"
    by (simp only: drop_drop)
  then have "drop (sp + 1) toks = ?seg @ drop pi toks"
    by (metis append_take_drop_id)
  with assms(2) have "tok_lang (?seg @ drop pi toks) (drop k input)" by simp
  from tok_lang_segment[OF seg(1) this] seg show ?thesis
    by (simp add: add.commute)
qed

lemma glob_goal_end:
  assumes "glob_inv toks input si pi star" "\<not> si < length input"
  shows "glob_goal toks input si pi star \<longleftrightarrow> dropWhile (\<lambda>t. t = AnyRun) (drop pi toks) = []"
proof -
  have si: "si = length input" using assms by (auto simp: glob_inv_def)
  have "\<not> (ss < k \<and> k \<le> length input \<and> tok_lang (drop (sp + 1) toks) (drop k input))"
    if "star = Some (sp, ss)" for sp ss k
    using star_split[of toks input si pi sp ss k] assms(1) that si by (auto simp: glob_inv_def)
  then show ?thesis
    using si by (auto simp: glob_goal_def tok_lang_Nil_text split: option.splits)
qed

lemma glob_goal_char:
  assumes "si < length input" "pi < length toks" "tok_matches (toks ! pi) (input ! si)"
    and "glob_inv toks input si pi star"
  shows "glob_goal toks input si pi star = glob_goal toks input (si + 1) (pi + 1) star"
    and "glob_inv toks input (si + 1) (pi + 1) star"
proof -
  have d: "drop pi toks = toks ! pi # drop (pi + 1) toks"
      "drop si input = input ! si # drop (si + 1) input"
    using assms by (auto simp: Cons_nth_drop_Suc)
  have n: "toks ! pi \<noteq> AnyRun" using assms(3) by (rule tok_matches_not_AnyRun)
  show "glob_goal toks input si pi star = glob_goal toks input (si + 1) (pi + 1) star"
    using assms(3) n by (simp add: glob_goal_def d tok_lang_plain_Cons)
  show "glob_inv toks input (si + 1) (pi + 1) star"
  proof (cases star)
    case (Some p)
    then obtain sp ss where p: "star = Some (sp, ss)" by (cases p) auto
    with assms(4) have i: "sp < pi" "ss \<le> si" "pi - (sp + 1) = si - ss"
        "AnyRun \<notin> set (take (pi - (sp + 1)) (drop (sp + 1) toks))"
      by (auto simp: glob_inv_def)
    have "pi + 1 - (sp + 1) = Suc (pi - (sp + 1))" using i(1) by simp
    moreover have "take (Suc (pi - (sp + 1))) (drop (sp + 1) toks) =
        take (pi - (sp + 1)) (drop (sp + 1) toks) @ [toks ! pi]"
      using i(1) assms(2) by (simp add: take_Suc_conv_app_nth)
    ultimately show ?thesis using assms i n p by (auto simp: glob_inv_def)
  qed (use assms in \<open>auto simp: glob_inv_def\<close>)
qed

lemma glob_goal_star:
  assumes "si < length input" "pi < length toks" "toks ! pi = AnyRun"
    and "glob_inv toks input si pi star"
  shows "glob_goal toks input si pi star = glob_goal toks input si (pi + 1) (Some (pi, si))"
    and "glob_inv toks input si (pi + 1) (Some (pi, si))"
proof -
  have d: "drop pi toks = AnyRun # drop (pi + 1) toks"
    using assms by (metis Cons_nth_drop_Suc Suc_eq_plus1)
  have here: "tok_lang (drop pi toks) (drop j input) \<longleftrightarrow>
      (\<exists>k. j \<le> k \<and> k \<le> length input \<and> tok_lang (drop (pi + 1) toks) (drop k input))"
    if "j \<le> length input" for j
  proof -
    have "(\<exists>k\<le>length input - j. tok_lang (drop (pi + 1) toks) (drop (k + j) input)) \<longleftrightarrow>
      (\<exists>k. j \<le> k \<and> k \<le> length input \<and> tok_lang (drop (pi + 1) toks) (drop k input))"
    proof (intro iffI; clarify)
      fix k assume "k \<le> length input - j" "tok_lang (drop (pi + 1) toks) (drop (k + j) input)"
      with that show "\<exists>k. j \<le> k \<and> k \<le> length input \<and> tok_lang (drop (pi + 1) toks) (drop k input)"
        by (intro exI[of _ "k + j"]) auto
    next
      fix k assume "j \<le> k" "k \<le> length input" "tok_lang (drop (pi + 1) toks) (drop k input)"
      then show "\<exists>k\<le>length input - j. tok_lang (drop (pi + 1) toks) (drop (k + j) input)"
        by (intro exI[of _ "k - j"]) auto
    qed
    then show ?thesis by (simp add: d tok_lang_star)
  qed
  have old: "tok_lang (drop pi toks) (drop si input)"
    if s: "star = Some (sp, ss)" and k: "ss < k" "k \<le> length input"
      and l: "tok_lang (drop (sp + 1) toks) (drop k input)" for sp ss k
  proof -
    from star_split[of toks input si pi sp ss k] assms(4) s l
    have a: "si - ss \<le> length input - k" "tok_lang (drop pi toks) (drop (k + (si - ss)) input)"
      by auto
    have "k + (si - ss) \<le> length input" "si \<le> k + (si - ss)"
      using a(1) k assms(4) s by (auto simp: glob_inv_def)
    with a(2) here[of "k + (si - ss)"] here[of si] show ?thesis
      using assms(1) by auto
  qed
  show "glob_goal toks input si pi star = glob_goal toks input si (pi + 1) (Some (pi, si))"
  proof -
    have "glob_goal toks input si pi star = tok_lang (drop pi toks) (drop si input)"
      using old by (auto simp: glob_goal_def split: option.splits)
    also have "\<dots> = glob_goal toks input si (pi + 1) (Some (pi, si))"
      using here[of si] assms(1) by (auto simp: glob_goal_def le_less)
    finally show ?thesis .
  qed
  show "glob_inv toks input si (pi + 1) (Some (pi, si))"
    using assms by (auto simp: glob_inv_def)
qed

lemma glob_goal_back:
  assumes "si < length input"
    and "\<not> (pi < length toks \<and> tok_matches (toks ! pi) (input ! si))"
    and "\<not> (pi < length toks \<and> toks ! pi = AnyRun)"
    and inv: "glob_inv toks input si pi star"
  shows "star = None \<Longrightarrow> \<not> glob_goal toks input si pi star"
    and "star = Some (sp, ss) \<Longrightarrow>
      glob_goal toks input si pi star = glob_goal toks input (ss + 1) (sp + 1) (Some (sp, ss + 1)) \<and>
      glob_inv toks input (ss + 1) (sp + 1) (Some (sp, ss + 1))"
proof -
  have no: "\<not> tok_lang (drop pi toks) (drop si input)"
  proof (cases "pi < length toks")
    case True
    then have "drop pi toks = toks ! pi # drop (pi + 1) toks"
        "drop si input = input ! si # drop (si + 1) input"
      using assms by (auto simp: Cons_nth_drop_Suc)
    with True assms(2,3) show ?thesis by (simp add: tok_lang_plain_Cons)
  qed (use assms(1) in auto)
  then show "star = None \<Longrightarrow> \<not> glob_goal toks input si pi star"
    by (simp add: glob_goal_def)
  assume s: "star = Some (sp, ss)"
  have ss: "ss < length input" using inv s assms(1) by (auto simp: glob_inv_def)
  have "(\<exists>k. ss < k \<and> k \<le> length input \<and> tok_lang (drop (sp + 1) toks) (drop k input)) \<longleftrightarrow>
      tok_lang (drop (sp + 1) toks) (drop (ss + 1) input) \<or>
      (\<exists>k. ss + 1 < k \<and> k \<le> length input \<and> tok_lang (drop (sp + 1) toks) (drop k input))"
    using ss by (metis Suc_eq_plus1 Suc_leI Suc_lessD Suc_lessI lessI)
  then show "glob_goal toks input si pi star = glob_goal toks input (ss + 1) (sp + 1) (Some (sp, ss + 1)) \<and>
      glob_inv toks input (ss + 1) (sp + 1) (Some (sp, ss + 1))"
    using no s ss inv by (auto simp: glob_goal_def glob_inv_def)
qed

lemma glob_loop_decides:
  "glob_inv toks input si pi star \<Longrightarrow>
   (case glob_loop toks input si pi star of None \<Rightarrow> False
    | Some pi' \<Rightarrow> dropWhile (\<lambda>t. t = AnyRun) (drop pi' toks) = []) = glob_goal toks input si pi star"
proof (induction toks input si pi star rule: glob_loop.induct)
  case (1 toks input si pi star)
  note unfold = glob_loop.simps[of toks input si pi star]
  consider (end_text) "\<not> si < length input"
    | (char_step) "si < length input" "pi < length toks" "tok_matches (toks ! pi) (input ! si)"
    | (star_step) "si < length input" "pi < length toks" "toks ! pi = AnyRun"
        "\<not> (pi < length toks \<and> tok_matches (toks ! pi) (input ! si))"
    | (backtrack) "si < length input" "\<not> (pi < length toks \<and> tok_matches (toks ! pi) (input ! si))"
        "\<not> (pi < length toks \<and> toks ! pi = AnyRun)"
    by blast
  then show ?case
  proof cases
    case end_text
    then show ?thesis using glob_goal_end[OF "1.prems"] by (simp add: unfold)
  next
    case char_step
    then show ?thesis using "1.IH"(1) glob_goal_char[OF char_step "1.prems"] by (simp add: unfold)
  next
    case star_step
    then show ?thesis using "1.IH"(2) glob_goal_star[OF star_step(1-3) "1.prems"] by (simp add: unfold)
  next
    case backtrack
    show ?thesis
    proof (cases star)
      case None
      have "glob_loop toks input si pi star = None"
        using backtrack None by (subst unfold) auto
      then show ?thesis using None glob_goal_back(1)[OF backtrack "1.prems"] by simp
    next
      case (Some p)
      then obtain sp ss where s: "star = Some (sp, ss)" by (cases p) auto
      have "glob_loop toks input si pi star = glob_loop toks input (ss + 1) (sp + 1) (Some (sp, ss + 1))"
        using backtrack s by (subst unfold) auto
      then show ?thesis
        using "1.IH"(3)[OF backtrack s, of sp ss] glob_goal_back(2)[OF backtrack "1.prems" s] s
        by simp
    qed
  qed
qed

text \<open>
  C14. The matching loop of \<open>Glob::matches\<close>, with its one remembered star and its
  backtracking by one character, answers exactly what the pattern means: \<open>*\<close> stands for any
  run of characters, every other token for one character it accepts.
\<close>

theorem glob_matches_iff:
  "glob_matches g s \<longleftrightarrow> tok_lang (g_toks g) (map (fold_case (g_ci g)) s)"
proof -
  have "glob_inv (g_toks g) (map (fold_case (g_ci g)) s) 0 0 None" by (simp add: glob_inv_def)
  from glob_loop_decides[OF this] show ?thesis
    by (simp add: glob_matches_def glob_goal_def)
qed

end
