(* ===== verification/Rurge_Types.thy ===== *)
theory Rurge_Types
  imports Rurge_Prelude Rurge_Glob
begin

text \<open>
  The data every layer shares: host names (\<^verbatim>\<open>types.rs\<close>), sessions (\<^verbatim>\<open>session.rs\<close>), the network
  the machine is on and the expressions over it (\<^verbatim>\<open>network.rs\<close>, \<^verbatim>\<open>policy.rs\<close>), the built-in
  policies (\<^verbatim>\<open>policy.rs\<close>), all of \<^verbatim>\<open>crates/rurge-config/src\<close>; and, as a record of functions,
  the third-party crates the rule engine calls. The textual form of IP addresses is the
  one \<^verbatim>\<open>std::net\<close> parses.
\<close>

section \<open>IP addresses as text (std::net)\<close>

definition digit_of :: "nat \<Rightarrow> char \<Rightarrow> nat option" where
  "digit_of radix c =
     (let n = (if is_ascii_digit c then Some (code c - 48)
               else if 97 \<le> code c \<and> code c \<le> 102 then Some (code c - 87)
               else if 65 \<le> code c \<and> code c \<le> 70 then Some (code c - 55) else None)
      in case n of None \<Rightarrow> None | Some d \<Rightarrow> if d < radix then Some d else None)"

definition read_number :: "nat \<Rightarrow> nat \<Rightarrow> bool \<Rightarrow> nat \<Rightarrow> string \<Rightarrow> (nat \<times> string) option" where
  "read_number radix max_digits allow_zero_prefix bound s =
     (let ds = takeWhile (\<lambda>c. digit_of radix c \<noteq> None) s;
          v = foldl (\<lambda>a c. a * radix + the (digit_of radix c)) 0 ds
      in if ds = [] \<or> max_digits < length ds then None
         else if \<not> allow_zero_prefix \<and> hd ds = CHR ''0'' \<and> 1 < length ds then None
         else if v < bound then Some (v, drop (length ds) s) else None)"

definition read_separator :: "char \<Rightarrow> nat \<Rightarrow> (string \<Rightarrow> ('a \<times> string) option) \<Rightarrow> string \<Rightarrow> ('a \<times> string) option" where
  "read_separator sep i f s =
     (if 0 < i then (case s of [] \<Rightarrow> None | c # cs \<Rightarrow> if c = sep then f cs else None) else f s)"

fun read_octets :: "nat \<Rightarrow> nat \<Rightarrow> string \<Rightarrow> (nat list \<times> string) option" where
  "read_octets i 0 s = Some ([], s)"
| "read_octets i (Suc n) s =
     (case read_separator (CHR ''.'') i (read_number 10 3 False 256) s of
        None \<Rightarrow> None
      | Some (v, s') \<Rightarrow>
          (case read_octets (i + 1) n s' of
             None \<Rightarrow> None
           | Some (vs, rest) \<Rightarrow> Some (v # vs, rest)))"

definition read_ipv4_addr :: "string \<Rightarrow> (nat list \<times> string) option" where
  "read_ipv4_addr = read_octets 0 4"

text \<open>The groups of an IPv6 address; the flag says that an embedded IPv4 address ended them.\<close>

fun read_groups :: "nat \<Rightarrow> nat \<Rightarrow> string \<Rightarrow> nat list \<times> bool \<times> string" where
  "read_groups i 0 s = ([], False, s)"
| "read_groups i (Suc left) s =
     (case (if 0 < left then read_separator (CHR '':'') i read_ipv4_addr s else None) of
        Some (os, rest) \<Rightarrow>
          ([os ! 0 * 256 + os ! 1, os ! 2 * 256 + os ! 3], True, rest)
      | None \<Rightarrow>
          (case read_separator (CHR '':'') i (read_number 16 4 True 65536) s of
             None \<Rightarrow> ([], False, s)
           | Some (g, rest) \<Rightarrow>
               (case read_groups (i + 1) left rest of (gs, e, rest') \<Rightarrow> (g # gs, e, rest'))))"

definition read_ipv6_addr :: "string \<Rightarrow> (nat list \<times> string) option" where
  "read_ipv6_addr s =
     (case read_groups 0 8 s of
        (head, head_ipv4, rest) \<Rightarrow>
          if length head = 8 then Some (head, rest)
          else if head_ipv4 then None
          else (case strip_prefix ''::'' rest of
                  None \<Rightarrow> None
                | Some rest' \<Rightarrow>
                    (case read_groups 0 (8 - (length head + 1)) rest' of
                       (tail, _, rest'') \<Rightarrow>
                         Some (head @ replicate (8 - length head - length tail) 0 @ tail, rest''))))"

definition groups_value :: "nat \<Rightarrow> nat list \<Rightarrow> nat" where
  "groups_value base = foldl (\<lambda>a g. a * base + g) 0"

definition parse_ipv4 :: "string \<Rightarrow> ipv4_addr option" where
  "parse_ipv4 s =
     (if 15 < length s then None
      else case read_ipv4_addr s of
             Some (os, []) \<Rightarrow> Some (of_nat (groups_value 256 os))
           | _ \<Rightarrow> None)"

definition parse_ipv6 :: "string \<Rightarrow> ipv6_addr option" where
  "parse_ipv6 s =
     (case read_ipv6_addr s of
        Some (gs, []) \<Rightarrow> Some (of_nat (groups_value 65536 gs))
      | _ \<Rightarrow> None)"

definition parse_ip :: "string \<Rightarrow> ip_addr option" where
  "parse_ip s =
     (case read_ipv4_addr s of
        Some (os, rest) \<Rightarrow> if rest = [] then Some (V4 (of_nat (groups_value 256 os))) else None
      | None \<Rightarrow> map_option V6 (parse_ipv6 s))"

text \<open>\<open>IpAddr::to_canonical\<close>: an IPv4-mapped IPv6 address is the IPv4 address.\<close>

fun to_canonical :: "ip_addr \<Rightarrow> ip_addr" where
  "to_canonical (V4 a) = V4 a"
| "to_canonical (V6 a) =
     (if drop_bit 32 a = 0xFFFF then V4 (ucast a) else V6 a)"

section \<open>Networks and third-party crates\<close>

type_synonym ipv4_net = "ipv4_addr \<times> nat"
type_synonym ipv6_net = "ipv6_addr \<times> nat"

datatype ip_net = Net4 ipv4_net | Net6 ipv6_net

text \<open>
  A \<open>PrefixMap\<close> of the crate \<open>prefix_trie\<close> is the sequence of the insertions that made it:
  what its methods return is a function of that sequence. The crates \<open>ipnet\<close>,
  \<open>prefix_trie\<close> and \<open>fancy_regex\<close> are parameters; what is relied on of them is stated
  where it is used.
\<close>

type_synonym 'n prefix_map = "('n \<times> u32) list"

record ext =
  ext_parse_net4 :: "string \<Rightarrow> ipv4_net option"
  ext_parse_net6 :: "string \<Rightarrow> ipv6_net option"
  ext_parse_net :: "string \<Rightarrow> ip_net option"
  ext_net4_contains :: "ipv4_net \<Rightarrow> ipv4_addr \<Rightarrow> bool"
  ext_net6_contains :: "ipv6_net \<Rightarrow> ipv6_addr \<Rightarrow> bool"
  ext_net_contains :: "ip_net \<Rightarrow> ip_addr \<Rightarrow> bool"
  ext_net4_trunc :: "ipv4_net \<Rightarrow> ipv4_net"
  ext_net6_trunc :: "ipv6_net \<Rightarrow> ipv6_net"
  ext_pm4_get :: "ipv4_net prefix_map \<Rightarrow> ipv4_net \<Rightarrow> u32 option"
  ext_pm6_get :: "ipv6_net prefix_map \<Rightarrow> ipv6_net \<Rightarrow> u32 option"
  ext_pm4_get_lpm :: "ipv4_net prefix_map \<Rightarrow> ipv4_net \<Rightarrow> (ipv4_net \<times> u32) option"
  ext_pm6_get_lpm :: "ipv6_net prefix_map \<Rightarrow> ipv6_net \<Rightarrow> (ipv6_net \<times> u32) option"
  ext_regex_new :: "string \<Rightarrow> string option"
  ext_regex_is_match :: "string \<Rightarrow> string \<Rightarrow> bool option"

section \<open>Host names\<close>

datatype host_name = HDomain string | HIp ip_addr

definition host_name_parse :: "string \<Rightarrow> host_name" where
  "host_name_parse s =
     (let s = trim s;
          bare = (case strip_prefix ''['' s of
                    None \<Rightarrow> s
                  | Some x \<Rightarrow> (case strip_suffix '']'' x of None \<Rightarrow> s | Some y \<Rightarrow> y))
      in case parse_ip bare of
           Some ip \<Rightarrow> HIp ip
         | None \<Rightarrow> HDomain (to_ascii_lowercase (trim_end_matches (CHR ''.'') bare)))"

fun is_simple :: "host_name \<Rightarrow> bool" where
  "is_simple (HDomain d) = (CHR ''.'' \<notin> set d)"
| "is_simple (HIp _) = False"

fun as_domain :: "host_name \<Rightarrow> string option" where
  "as_domain (HDomain d) = Some d"
| "as_domain (HIp _) = None"

fun as_ip :: "host_name \<Rightarrow> ip_addr option" where
  "as_ip (HIp ip) = Some ip"
| "as_ip (HDomain _) = None"

fun canonical :: "host_name \<Rightarrow> host_name" where
  "canonical (HIp ip) = HIp (to_canonical ip)"
| "canonical name = name"

definition is_control :: "char \<Rightarrow> bool" where
  "is_control c \<longleftrightarrow> code c < 32 \<or> (127 \<le> code c \<and> code c < 160)"

definition from_wire :: "string \<Rightarrow> host_name option" where
  "from_wire s =
     (if list_ex (\<lambda>c. is_control c \<or> is_whitespace c) s then None
      else case host_name_parse s of
             HDomain d \<Rightarrow> if d = [] then None else Some (HDomain d)
           | host \<Rightarrow> Some host)"

section \<open>The network now, and the subnet expressions\<close>

datatype net_kind = NkWifi | NkWired | NkOther

record primary =
  pr_interface :: string
  pr_kind :: net_kind
  pr_routers :: "ip_addr list"

record wifi_link =
  wl_interface :: string
  wl_ssid :: "string option"
  wl_bssid :: "string option"

record network_facts =
  nf_primary :: "primary option"
  nf_wifi :: "wifi_link option"

definition network_facts_default :: network_facts where
  "network_facts_default = \<lparr>nf_primary = None, nf_wifi = None\<rparr>"

datatype net_type = NtWifi | NtWired | NtCellular

datatype subnet_expr =
    Ssid glob | Bssid glob | Router ip_addr | NetTypeIs net_type | Mccmnc string | Bare string

definition ssid_glob :: glob_options where
  "ssid_glob = \<lparr>case_insensitive = False, classes = False\<rparr>"

definition subnet_matches :: "subnet_expr \<Rightarrow> network_facts \<Rightarrow> bool \<Rightarrow> bool" where
  "subnet_matches e facts wifi_always_match =
     (let primary = nf_primary facts;
          wifi = (case nf_wifi facts of
                    None \<Rightarrow> None
                  | Some link \<Rightarrow>
                      if wifi_always_match \<or>
                         (case primary of None \<Rightarrow> False | Some p \<Rightarrow> pr_interface p = wl_interface link)
                      then Some link else None);
          ssid = Option.bind wifi wl_ssid;
          bssid = Option.bind wifi wl_bssid;
          routers = (case primary of None \<Rightarrow> [] | Some p \<Rightarrow> pr_routers p)
      in case e of
           Ssid g \<Rightarrow> (case ssid of None \<Rightarrow> False | Some x \<Rightarrow> glob_matches g x)
         | Bssid g \<Rightarrow> (case bssid of None \<Rightarrow> False | Some x \<Rightarrow> glob_matches g x)
         | Router ip \<Rightarrow> ip \<in> set routers
         | NetTypeIs NtWifi \<Rightarrow> (case primary of None \<Rightarrow> False | Some p \<Rightarrow> pr_kind p = NkWifi)
         | NetTypeIs NtWired \<Rightarrow> (case primary of None \<Rightarrow> False | Some p \<Rightarrow> pr_kind p = NkWired)
         | NetTypeIs NtCellular \<Rightarrow> False
         | Mccmnc _ \<Rightarrow> False
         | Bare t \<Rightarrow>
             if CHR ''*'' \<in> set t \<or> CHR ''?'' \<in> set t then
               (case ssid of
                  None \<Rightarrow> False
                | Some x \<Rightarrow> (case glob_new t ssid_glob of Inl _ \<Rightarrow> False | Inr g \<Rightarrow> glob_matches g x))
             else ssid = Some t \<or>
                  (case bssid of None \<Rightarrow> False | Some b \<Rightarrow> eq_ignore_ascii_case b t) \<or>
                  (case parse_ip t of None \<Rightarrow> False | Some ip \<Rightarrow> ip \<in> set routers))"

section \<open>Built-in policies\<close>

datatype builtin =
    Direct | Reject | RejectDrop | RejectNoDrop | RejectTinyGif
  | Cellular | CellularOnly | Hybrid | NoHybrid

definition builtin_names :: "(string \<times> builtin) list" where
  "builtin_names =
     [(''DIRECT'', Direct), (''REJECT'', Reject), (''REJECT-DROP'', RejectDrop),
      (''REJECT-NO-DROP'', RejectNoDrop), (''REJECT-TINYGIF'', RejectTinyGif),
      (''CELLULAR'', Cellular), (''CELLULAR-ONLY'', CellularOnly), (''HYBRID'', Hybrid),
      (''NO-HYBRID'', NoHybrid)]"

definition builtin_parse :: "string \<Rightarrow> builtin option" where
  "builtin_parse name = map_option snd (List.find (\<lambda>(k, _). k = name) builtin_names)"

definition builtin_name :: "builtin \<Rightarrow> string" where
  "builtin_name b =
     (case List.find (\<lambda>(_, v). v = b) builtin_names of None \<Rightarrow> ''DIRECT'' | Some (k, _) \<Rightarrow> k)"

fun is_reject :: "builtin \<Rightarrow> bool" where
  "is_reject Reject = True"
| "is_reject RejectDrop = True"
| "is_reject RejectNoDrop = True"
| "is_reject RejectTinyGif = True"
| "is_reject _ = False"

fun is_ios_only :: "builtin \<Rightarrow> bool" where
  "is_ios_only Cellular = True"
| "is_ios_only CellularOnly = True"
| "is_ios_only Hybrid = True"
| "is_ios_only NoHybrid = True"
| "is_ios_only _ = False"

lemma builtin_parse_name: "builtin_parse (builtin_name b) = Some b"
  by (cases b) (simp_all add: builtin_parse_def builtin_name_def builtin_names_def)

section \<open>Sessions\<close>

datatype hostname_type = HtIPv4 | HtIPv6 | HtDomain | HtSimple

datatype protocol_kind =
    PkHttp | PkHttps | PkTcp | PkUdp | PkQuic | PkStun | PkMtProto
  | PkDoh | PkDoh3 | PkDoq | PkDot | PkDns

definition protocol_parse :: "string \<Rightarrow> protocol_kind option" where
  "protocol_parse s =
     map_of [(''HTTP'', PkHttp), (''HTTPS'', PkHttps), (''TCP'', PkTcp), (''UDP'', PkUdp),
             (''QUIC'', PkQuic), (''STUN'', PkStun), (''MTProto'', PkMtProto), (''DOH'', PkDoh),
             (''DOH3'', PkDoh3), (''DOQ'', PkDoq), (''DOT'', PkDot), (''DNS'', PkDns)] s"

datatype listener_kind = LkHttp | LkSocks5 | LkTun | LkForward | LkInternal

datatype transport = Tcp | Udp

datatype pre_match_layer = Dns | Syn

record process_info =
  pi_pid :: "u32 option"
  pi_name :: string
  pi_path :: "string option"

record device_info =
  di_name :: "string option"
  di_mac :: "string option"

record session_info =
  s_src :: socket_addr
  s_in_port :: u16
  s_local :: "socket_addr option"
  s_listener :: listener_kind
  s_dst_host :: host_name
  s_dst_port :: u16
  s_transport :: transport
  s_protocol :: "protocol_kind option"
  s_sni :: "string option"
  s_http_host :: "string option"
  s_user_agent :: "string option"
  s_url :: "string option"
  s_process :: "process_info option"
  s_device :: "device_info option"

definition session_tcp :: "host_name \<Rightarrow> u16 \<Rightarrow> session_info" where
  "session_tcp dst_host dst_port =
     \<lparr>s_src = \<lparr>sa_ip = V4 0x7F000001, sa_port = 0\<rparr>, s_in_port = 0, s_local = None,
      s_listener = LkHttp, s_dst_host = dst_host, s_dst_port = dst_port, s_transport = Tcp,
      s_protocol = None, s_sni = None, s_http_host = None, s_user_agent = None, s_url = None,
      s_process = None, s_device = None\<rparr>"

definition session_udp :: "host_name \<Rightarrow> u16 \<Rightarrow> session_info" where
  "session_udp dst_host dst_port = (session_tcp dst_host dst_port)\<lparr>s_transport := Udp\<rparr>"

fun hostname_type_of :: "host_name \<Rightarrow> hostname_type" where
  "hostname_type_of (HIp (V4 _)) = HtIPv4"
| "hostname_type_of (HIp (V6 _)) = HtIPv6"
| "hostname_type_of (HDomain d) = (if CHR ''.'' \<notin> set d then HtSimple else HtDomain)"

section \<open>Facts about names off the network\<close>

lemma trim_end_matches_last:
  "trim_end_matches c s \<noteq> [] \<Longrightarrow> last (trim_end_matches c s) \<noteq> c"
  using hd_dropWhile[of "\<lambda>x. x = c" "rev s"]
  by (auto simp: trim_end_matches_def drop_end_while_def last_rev)

lemma set_trim_end_matches: "set (trim_end_matches c s) \<subseteq> set s"
  by (auto simp: trim_end_matches_def drop_end_while_def dest: set_dropWhileD)

lemma set_strip:
  "strip_prefix p s = Some x \<Longrightarrow> set x \<subseteq> set s" "strip_suffix p s = Some x \<Longrightarrow> set x \<subseteq> set s"
  by (auto simp: strip_prefix_def strip_suffix_def split: if_splits dest: in_set_dropD in_set_takeD)

lemma set_trim: "set (trim s) \<subseteq> set s"
  by (auto simp: trim_def trim_start_def trim_end_def drop_end_while_def dest!: set_dropWhileD)

text \<open>What the rules are given as a name: lower case, no dot at its end, not empty.\<close>

definition domain_normal :: "string \<Rightarrow> bool" where
  "domain_normal d \<longleftrightarrow> d \<noteq> [] \<and> last d \<noteq> CHR ''.'' \<and> list_all (\<lambda>c. \<not> is_ascii_upper c) d"

lemma host_name_parse_normal:
  assumes "host_name_parse s = HDomain d" "d \<noteq> []"
  shows "domain_normal d"
proof -
  obtain b where d: "d = to_ascii_lowercase (trim_end_matches (CHR ''.'') b)"
    using assms(1) by (auto simp: host_name_parse_def Let_def split: option.splits)
  with assms(2) have ne: "trim_end_matches (CHR ''.'') b \<noteq> []" by auto
  have "last d = to_ascii_lowercase_char (last (trim_end_matches (CHR ''.'') b))"
    using ne by (simp add: d to_ascii_lowercase_def last_map)
  moreover have "\<not> is_ascii_alphabetic (CHR ''.'')"
    by (simp add: is_ascii_alphabetic_def is_ascii_upper_def is_ascii_lower_def code_def)
  ultimately have "last d \<noteq> CHR ''.''"
    using trim_end_matches_last[OF ne] by (metis to_ascii_lowercase_char_eq_iff)
  then show ?thesis
    using assms(2) by (simp add: domain_normal_def d to_ascii_lowercase_def list_all_iff)
qed

end
