(* ===== verification/Rurge_Value.thy ===== *)
theory Rurge_Value
  imports Rurge_Prelude
begin

text \<open>
  The cutting of a line into items, \<^verbatim>\<open>crates/rurge-config/src/value.rs\<close>: the two passes of
  \<open>item_spans\<close>, the reading of one item as a value or a parameter (\<open>read_field\<close>), the
  quotes (\<open>wholly_quoted\<close>, \<open>partner\<close>, \<open>unescape\<close>), and from \<^verbatim>\<open>policy.rs\<close> the way a value is
  written so that it reads back (\<open>param_value\<close>, \<open>quoted\<close>). The comments of a line are cut by
  \<open>strip_inline_comment\<close> of \<^verbatim>\<open>text/mod.rs\<close>.

  Positions are counted in characters. The full-width comma that \<open>item_spans\<close> also cuts at
  when \<open>wide\<close> is set is U+FF0C, outside the characters of this model, so the parameter
  \<open>wide\<close> is left out: \<open>item_spans text\<close> is both \<open>item_spans(text, false)\<close> and
  \<open>item_spans(text, true)\<close>.
\<close>

section \<open>Model\<close>

datatype mark = Comma nat nat | Open | Close | Eq nat

record item_span =
  span_start :: nat
  span_end :: nat
  span_sep_end :: nat
  span_eq :: "nat option"

text \<open>The first pass: quotes, and the marks outside them.\<close>

fun marks_from :: "nat \<Rightarrow> bool \<Rightarrow> bool \<Rightarrow> char option \<Rightarrow> string \<Rightarrow> mark list" where
  "marks_from i at_start seen_eq quote [] = []"
| "marks_from i at_start seen_eq (Some q) (c # cs) =
     (if q = CHR 0x22 \<and> c = CHR 0x5C then marks_from (i + 2) at_start seen_eq (Some q) (tl cs)
      else if c = q then marks_from (i + 1) at_start seen_eq None cs
      else marks_from (i + 1) at_start seen_eq (Some q) cs)"
| "marks_from i at_start seen_eq None (c # cs) =
     (if at_start \<and> is_whitespace c then marks_from (i + 1) at_start seen_eq None cs
      else if at_start \<and> (c = CHR 0x22 \<or> c = CHR 0x27)
      then marks_from (i + 1) False seen_eq (Some c) cs
      else if c = CHR '','' then Comma i 1 # marks_from (i + 1) True False None cs
      else if c = CHR ''('' then Open # marks_from (i + 1) True False None cs
      else if c = CHR '')'' then Close # marks_from (i + 1) False seen_eq None cs
      else if c = CHR ''='' \<and> \<not> seen_eq then Eq i # marks_from (i + 1) True True None cs
      else marks_from (i + 1) False seen_eq None cs)"

text \<open>The pairing of the parentheses on a stack of mark numbers.\<close>

fun pair_loop :: "nat \<Rightarrow> nat list \<Rightarrow> bool list \<Rightarrow> mark list \<Rightarrow> bool list" where
  "pair_loop k opened paired [] = paired"
| "pair_loop k opened paired (Open # ms) = pair_loop (k + 1) (k # opened) paired ms"
| "pair_loop k opened paired (Close # ms) =
     (case opened of
        [] \<Rightarrow> pair_loop (k + 1) [] paired ms
      | o' # os \<Rightarrow> pair_loop (k + 1) os (paired[o' := True, k := True]) ms)"
| "pair_loop k opened paired (Comma at w # ms) = pair_loop (k + 1) opened paired ms"
| "pair_loop k opened paired (Eq at # ms) = pair_loop (k + 1) opened paired ms"

text \<open>The second pass: the cuts. The last component is what the loop leaves for the last item.\<close>

fun spans_loop :: "bool list \<Rightarrow> nat \<Rightarrow> nat \<Rightarrow> nat \<Rightarrow> nat option \<Rightarrow> mark list \<Rightarrow>
    item_span list \<times> nat \<times> nat option" where
  "spans_loop paired k depth start eq [] = ([], start, eq)"
| "spans_loop paired k depth start eq (Open # ms) =
     spans_loop paired (k + 1) (if paired ! k then depth + 1 else depth) start eq ms"
| "spans_loop paired k depth start eq (Close # ms) =
     spans_loop paired (k + 1) (if paired ! k then depth - 1 else depth) start eq ms"
| "spans_loop paired k depth start eq (Eq at # ms) =
     spans_loop paired (k + 1) depth start (if depth = 0 \<and> eq = None then Some at else eq) ms"
| "spans_loop paired k depth start eq (Comma at width # ms) =
     (if depth = 0 then
        (case spans_loop paired (k + 1) depth (at + width) None ms of
           (spans, rest) \<Rightarrow>
             (\<lparr>span_start = start, span_end = at, span_sep_end = at + width, span_eq = eq\<rparr> # spans, rest))
      else spans_loop paired (k + 1) depth start eq ms)"

definition item_spans :: "string \<Rightarrow> item_span list" where
  "item_spans text =
     (let marks = marks_from 0 True False None text;
          paired = pair_loop 0 [] (replicate (length marks) False) marks
      in case spans_loop paired 0 0 0 None marks of
           (spans, start, eq) \<Rightarrow>
             spans @ [\<lparr>span_start = start, span_end = length text,
                       span_sep_end = length text, span_eq = eq\<rparr>])"

definition slice :: "'a list \<Rightarrow> nat \<Rightarrow> nat \<Rightarrow> 'a list" where
  "slice xs a b = take (b - a) (drop a xs)"

definition split_items :: "string \<Rightarrow> string list" where
  "split_items text = map (\<lambda>sp. slice text (span_start sp) (span_end sp)) (item_spans text)"

text \<open>Quotes. \<open>partner\<close> starts behind the quote that opens the text.\<close>

fun partner_from :: "nat \<Rightarrow> char \<Rightarrow> string \<Rightarrow> nat option" where
  "partner_from i quote [] = None"
| "partner_from i quote (c # cs) =
     (if quote = CHR 0x22 \<and> c = CHR 0x5C then partner_from (i + 2) quote (tl cs)
      else if c = quote then Some i
      else partner_from (i + 1) quote cs)"

definition partner :: "string \<Rightarrow> char \<Rightarrow> nat option" where
  "partner text quote = partner_from 1 quote (tl text)"

fun unescape :: "string \<Rightarrow> string" where
  "unescape [] = []"
| "unescape (c # cs) =
     (if c = CHR 0x5C then
        (case cs of
           [] \<Rightarrow> [CHR 0x5C]
         | d # ds \<Rightarrow>
             if d = CHR 0x22 then CHR 0x22 # unescape ds
             else if d = CHR 0x5C then CHR 0x5C # unescape ds
             else CHR 0x5C # d # unescape ds)
      else c # unescape cs)"

definition wholly_quoted :: "string \<Rightarrow> string option" where
  "wholly_quoted text =
     (case text of
        [] \<Rightarrow> None
      | quote # _ \<Rightarrow>
          if quote = CHR 0x22 \<or> quote = CHR 0x27 then
            (case partner text quote of
               None \<Rightarrow> None
             | Some at \<Rightarrow>
                 if at \<noteq> length text - 1 then None
                 else let inner = slice text 1 (length text - 1)
                      in Some (if quote = CHR 0x22 then unescape inner else inner))
          else None)"

definition unquote :: "string \<Rightarrow> string" where
  "unquote text = (case wholly_quoted text of Some t \<Rightarrow> t | None \<Rightarrow> text)"

record field =
  f_text :: string
  f_param :: "(string \<times> string) option"

definition read_field :: "string \<Rightarrow> nat option \<Rightarrow> field option" where
  "read_field item eq =
     (let trimmed = trim item in
      if trimmed = [] then None
      else case wholly_quoted trimmed of
             Some inner \<Rightarrow>
               if inner \<noteq> [] then Some \<lparr>f_text = inner, f_param = None\<rparr> else None
           | None \<Rightarrow>
               (case eq of
                  Some at \<Rightarrow>
                    let key = trim (take at item) in
                    if key \<noteq> [] then
                      let raw = trim (drop (at + 1) item) in
                      (case wholly_quoted raw of
                         Some value \<Rightarrow>
                           Some \<lparr>f_text = key @ ''='' @ value, f_param = Some (key, value)\<rparr>
                       | None \<Rightarrow> Some \<lparr>f_text = trimmed, f_param = Some (key, raw)\<rparr>)
                    else Some \<lparr>f_text = trimmed, f_param = None\<rparr>
                | None \<Rightarrow> Some \<lparr>f_text = trimmed, f_param = None\<rparr>))"

definition split_fields :: "string \<Rightarrow> field list" where
  "split_fields text =
     List.map_filter
       (\<lambda>sp. read_field (slice text (span_start sp) (span_end sp))
               (map_option (\<lambda>at. at - span_start sp) (span_eq sp)))
       (item_spans text)"

definition split_list :: "string \<Rightarrow> string list" where
  "split_list text = map f_text (split_fields text)"

text \<open>Writing a value (\<^verbatim>\<open>policy.rs\<close>).\<close>

definition replace_char :: "char \<Rightarrow> string \<Rightarrow> string \<Rightarrow> string" where
  "replace_char c r s = concat (map (\<lambda>x. if x = c then r else [x]) s)"

definition quoted :: "string \<Rightarrow> string" where
  "quoted value =
     [CHR 0x22] @ replace_char CHR 0x22 [CHR 0x5C, CHR 0x22]
                     (replace_char CHR 0x5C [CHR 0x5C, CHR 0x5C] value) @ [CHR 0x22]"

definition param_value :: "string \<Rightarrow> string" where
  "param_value value =
     (if value \<noteq> [] \<and> trim value = value \<and>
         \<not> list_ex (\<lambda>c. c \<in> set [CHR '','', CHR 0x22, CHR 0x27, CHR ''('', CHR '')'', CHR 0x5C]) value
      then value else quoted value)"

definition leaves_open :: "string \<Rightarrow> bool" where
  "leaves_open item \<longleftrightarrow> length (split_items (item @ '','')) = 1"

text \<open>
  Comments. The loop of \<open>strip_inline_comment\<close> runs over the text from position \<open>i\<close>; it
  returns the position where a comment starts, if one does.
\<close>

function comment_at :: "string \<Rightarrow> bool \<Rightarrow> nat \<Rightarrow> nat option" where
  "comment_at line in_quotes i =
     (if i < length line then
        let c = line ! i;
            get = (\<lambda>j. if j < length line then Some (line ! j) else None) in
        if in_quotes then
          if c = CHR 0x5C then comment_at line True (i + 2)
          else comment_at line (c \<noteq> CHR 0x22) (i + 1)
        else if c = CHR 0x22 then comment_at line True (i + 1)
        else if i > 0 \<and> is_ascii_whitespace (line ! (i - 1)) \<and>
                (c = CHR '';'' \<or>
                 (c = CHR ''#'' \<and> get (i + 1) \<noteq> Some (CHR ''!'')) \<or>
                 (c = CHR ''/'' \<and> get (i + 1) = Some (CHR ''/'') \<and> get (i + 2) \<noteq> Some (CHR ''!'')))
        then Some i
        else comment_at line False (i + 1)
      else None)"
  by pat_completeness auto
termination
  by (relation "measure (\<lambda>(line, _, i). length line - i)") auto

declare comment_at.simps [simp del]

definition strip_inline_comment :: "string \<Rightarrow> string" where
  "strip_inline_comment line =
     (case comment_at line False 0 of None \<Rightarrow> line | Some i \<Rightarrow> trim_end (take i line))"

section \<open>Trimming\<close>

lemma dropWhile_hd_id: "s = [] \<or> \<not> P (hd s) \<Longrightarrow> dropWhile P s = s"
  by (cases s) auto

lemma trim_id: "s = [] \<or> (\<not> is_whitespace (hd s) \<and> \<not> is_whitespace (last s)) \<Longrightarrow> trim s = s"
  by (auto simp: trim_def trim_start_def trim_end_def drop_end_while_def dropWhile_hd_id hd_rev)

lemma trim_fixed_ends:
  assumes "trim s = s" "s \<noteq> []"
  shows "\<not> is_whitespace (hd s)" "\<not> is_whitespace (last s)"
proof -
  have e: "rev (dropWhile is_whitespace (rev (dropWhile is_whitespace s))) = s"
    using assms(1) by (simp add: trim_def trim_start_def trim_end_def drop_end_while_def)
  have "length s \<le> length (dropWhile is_whitespace s)"
    using e by (metis length_dropWhile_le length_rev)
  then have start: "dropWhile is_whitespace s = s"
    by (metis le_less_linear length_dropWhile_le nle_le suffix_dropWhile suffix_length_suffix suffix_order.eq_iff)
  then show "\<not> is_whitespace (hd s)" by (metis assms(2) hd_dropWhile)
  have "dropWhile is_whitespace (rev s) = rev s"
    using e start by (metis rev_rev_ident)
  then show "\<not> is_whitespace (last s)" by (metis assms(2) hd_dropWhile hd_rev rev_is_Nil_conv)
qed

section \<open>The items of a line are the line\<close>

text \<open>Every comma and every \<open>=\<close> noted by the first pass stands where the note says, in order.\<close>

fun marks_ok :: "string \<Rightarrow> nat \<Rightarrow> mark list \<Rightarrow> bool" where
  "marks_ok text lo [] = True"
| "marks_ok text lo (Comma at w # ms) \<longleftrightarrow>
     lo \<le> at \<and> at < length text \<and> text ! at = CHR '','' \<and> w = 1 \<and> marks_ok text (at + 1) ms"
| "marks_ok text lo (Eq at # ms) \<longleftrightarrow>
     lo \<le> at \<and> at < length text \<and> text ! at = CHR ''='' \<and> marks_ok text (at + 1) ms"
| "marks_ok text lo (Open # ms) \<longleftrightarrow> marks_ok text lo ms"
| "marks_ok text lo (Close # ms) \<longleftrightarrow> marks_ok text lo ms"

lemma marks_ok_mono: "marks_ok text hi ms \<Longrightarrow> lo \<le> hi \<Longrightarrow> marks_ok text lo ms"
  by (induction "text" hi ms rule: marks_ok.induct) auto

lemma drop_eq_ConsD:
  "drop i text = c # cs \<Longrightarrow> i < length text \<and> text ! i = c \<and> drop (Suc i) text = cs"
  by (metis Cons_nth_drop_Suc drop_all leI list.inject list.simps(3))

lemma marks_from_ok: "drop i text = cs \<Longrightarrow> marks_ok text i (marks_from i at_start seen_eq quote cs)"
proof (induction i at_start seen_eq quote cs rule: marks_from.induct)
  case (2 i at_start seen_eq q c cs)
  have "drop (Suc i) text = cs" using drop_eq_ConsD[OF "2.prems"] by simp
  moreover from this have "drop (Suc (Suc i)) text = tl cs"
    by (metis drop_Suc tl_drop)
  ultimately show ?case using "2.IH" by (auto intro: marks_ok_mono)
next
  case (3 i at_start seen_eq c cs)
  have d: "i < length text" "text ! i = c" "drop (Suc i) text = cs"
    using drop_eq_ConsD[OF "3.prems"] by auto
  have m: "marks_ok text (Suc i) ms \<Longrightarrow> marks_ok text i ms" for ms
    by (erule marks_ok_mono) simp
  show ?case using "3.IH" d by (simp add: m)
qed simp

lemma slice_join:
  "start \<le> at \<Longrightarrow> at < length text \<Longrightarrow> slice text start at @ text ! at # drop (Suc at) text = drop start text"
proof -
  assume a: "start \<le> at" "at < length text"
  have "drop start text = take (at - start) (drop start text) @ drop (at - start) (drop start text)"
    by (rule append_take_drop_id[symmetric])
  also have "drop (at - start) (drop start text) = text ! at # drop (Suc at) text"
    using a by (simp add: Cons_nth_drop_Suc)
  finally show ?thesis by (simp add: slice_def)
qed

lemma join_with_Cons: "ws \<noteq> [] \<Longrightarrow> join_with c (w # ws) = w @ c # join_with c ws"
  by (cases ws) auto

lemma spans_loop_join:
  "marks_ok text lo ms \<Longrightarrow> start \<le> lo \<Longrightarrow> start \<le> length text \<Longrightarrow>
   spans_loop paired k depth start eq ms = (spans, start', eq') \<Longrightarrow>
   start' \<le> length text \<and>
   join_with (CHR '','') (map (\<lambda>sp. slice text (span_start sp) (span_end sp)) spans @ [drop start' text]) =
     drop start text"
proof (induction paired k depth start eq ms arbitrary: lo spans rule: spans_loop.induct)
  case (5 paired k depth start eq at width ms)
  show ?case
  proof (cases "depth = 0")
    case True
    obtain spans2 where r: "spans_loop paired (k + 1) depth (at + width) None ms = (spans2, start', eq')"
        "spans = \<lparr>span_start = start, span_end = at, span_sep_end = at + width, span_eq = eq\<rparr> # spans2"
      using "5.prems"(4) True by (auto split: prod.splits)
    from "5.prems"(1,2) have m: "start \<le> at" "at < length text" "text ! at = CHR '',''" "width = 1"
        "marks_ok text (at + 1) ms" by auto
    from "5.IH"(1)[OF True m(5), of spans2] r m(2,4)
    have "start' \<le> length text \<and>
      join_with (CHR '','') (map (\<lambda>sp. slice text (span_start sp) (span_end sp)) spans2 @ [drop start' text]) =
        drop (Suc at) text" by simp
    then show ?thesis using slice_join[OF m(1,2)] m(3) r(2) by (simp add: join_with_Cons)
  next
    case False
    with 5 show ?thesis by (auto intro: marks_ok_mono)
  qed
qed (auto simp: Let_def intro: marks_ok_mono)

text \<open>
  Cutting a line into items loses nothing and adds nothing: the items as they stand in
  the line, joined by the commas they were cut at, are the line, whatever quotes and
  parentheses it has, paired or not.
\<close>

theorem split_items_join: "join_with (CHR '','') (split_items text) = text"
proof -
  let ?ms = "marks_from 0 True False None text"
  let ?p = "pair_loop 0 [] (replicate (length ?ms) False) ?ms"
  obtain spans start eq where r: "spans_loop ?p 0 0 0 None ?ms = (spans, start, eq)"
    using prod_cases3 by blast
  have "marks_ok text 0 ?ms" by (rule marks_from_ok) simp
  from spans_loop_join[OF this _ _ r] show ?thesis
    using r by (simp add: split_items_def item_spans_def Let_def slice_def)
qed

section \<open>Quoting and unquoting\<close>

fun esc :: "string \<Rightarrow> string" where
  "esc [] = []"
| "esc (c # cs) =
     (if c = CHR 0x5C \<or> c = CHR 0x22 then CHR 0x5C # c # esc cs else c # esc cs)"

lemma quoted_esc: "quoted v = CHR 0x22 # esc v @ [CHR 0x22]"
proof -
  have "replace_char CHR 0x22 [CHR 0x5C, CHR 0x22] (replace_char CHR 0x5C [CHR 0x5C, CHR 0x5C] v) = esc v"
    by (induction v) (auto simp: replace_char_def)
  then show ?thesis by (simp add: quoted_def)
qed

lemma partner_from_esc: "partner_from i CHR 0x22 (esc v @ CHR 0x22 # rest) = Some (i + length (esc v))"
  by (induction v arbitrary: i) auto

lemma unescape_esc: "unescape (esc v) = v"
  by (induction v) auto

lemma wholly_quoted_quoted: "wholly_quoted (quoted v) = Some v"
  by (simp add: wholly_quoted_def quoted_esc partner_def partner_from_esc slice_def unescape_esc)

lemma wholly_quoted_plain: "s = [] \<or> hd s \<notin> {CHR 0x22, CHR 0x27} \<Longrightarrow> wholly_quoted s = None"
  by (cases s) (auto simp: wholly_quoted_def)

lemma marks_from_esc:
  "marks_from i a e (Some CHR 0x22) (esc v @ CHR 0x22 # rest) =
   marks_from (i + length (esc v) + 1) a e None rest"
  by (induction v arbitrary: i) auto

lemma marks_from_plain:
  "\<forall>c\<in>set v. c \<notin> {CHR '','', CHR ''('', CHR '')''} \<Longrightarrow> \<not> a \<or> v = [] \<or> (\<not> is_whitespace (hd v) \<and> hd v \<notin> {CHR 0x22, CHR 0x27}) \<Longrightarrow>
   marks_from i a True None v = []"
  by (induction v arbitrary: i a) auto

text \<open>The names parameters have: letters, digits and hyphens.\<close>

definition key_name :: "string \<Rightarrow> bool" where
  "key_name k \<longleftrightarrow> k \<noteq> [] \<and> list_all (\<lambda>c. is_ascii_alphanumeric c \<or> c = CHR ''-'') k"

lemma key_char:
  assumes "is_ascii_alphanumeric c \<or> c = CHR ''-''"
  shows "\<not> is_whitespace c" "c \<notin> {CHR '','', CHR ''('', CHR '')'', CHR ''='', CHR 0x22, CHR 0x27}"
  using assms
  by (auto simp: is_ascii_alphanumeric_def is_ascii_alphabetic_def is_ascii_upper_def
      is_ascii_lower_def is_ascii_digit_def is_whitespace_def code_def)

lemma marks_from_key:
  "list_all (\<lambda>c. is_ascii_alphanumeric c \<or> c = CHR ''-'') k \<Longrightarrow> k \<noteq> [] \<or> \<not> a \<Longrightarrow>
   marks_from i a False None (k @ CHR ''='' # rest) =
   Eq (i + length k) # marks_from (i + length k + 1) True True None rest"
proof (induction k arbitrary: i a)
  case (Cons c k)
  then have "marks_from i a False None ((c # k) @ CHR ''='' # rest) =
      marks_from (i + 1) False False None (k @ CHR ''='' # rest)"
    using key_char[of c] by simp
  also have "\<dots> = Eq (i + 1 + length k) # marks_from (i + 1 + length k + 1) True True None rest"
    using Cons.prems by (intro Cons.IH) auto
  finally show ?case by simp
qed simp

lemma param_value_cases:
  obtains (plain) "param_value v = v" "v \<noteq> []" "trim v = v"
      "\<forall>c\<in>set v. c \<notin> {CHR '','', CHR 0x22, CHR 0x27, CHR ''('', CHR '')'', CHR 0x5C}"
  | (quot) "param_value v = quoted v"
proof (cases "v \<noteq> [] \<and> trim v = v \<and>
    \<not> list_ex (\<lambda>c. c \<in> set [CHR '','', CHR 0x22, CHR 0x27, CHR ''('', CHR '')'', CHR 0x5C]) v")
  case True
  then have "param_value v = v" unfolding param_value_def by (rule if_P)
  with True show ?thesis by (intro plain) (simp_all only: list_ex_iff list.set, blast+)
next
  case False
  then have "param_value v = quoted v" unfolding param_value_def by (rule if_not_P)
  then show ?thesis by (rule quot)
qed

lemma marks_param_value: "marks_from i True True None (param_value v) = []"
proof (cases v rule: param_value_cases)
  case plain
  have h: "\<not> is_whitespace (hd v)" "hd v \<in> set v" using trim_fixed_ends plain by auto
  have "hd v \<notin> {CHR 0x22, CHR 0x27}" using h(2) plain(4) by blast
  moreover have "\<forall>c\<in>set v. c \<notin> {CHR '','', CHR ''('', CHR '')''}" using plain(4) by blast
  ultimately show ?thesis using plain(1) h(1) by (simp only:) (blast intro: marks_from_plain)
next
  case quot
  then show ?thesis using marks_from_esc[of "i + 1" False True v "[]"]
    by (simp add: quoted_esc is_whitespace_def code_def)
qed

lemma param_value_ends:
  "param_value v \<noteq> []" "\<not> is_whitespace (hd (param_value v))" "\<not> is_whitespace (last (param_value v))"
  by (cases v rule: param_value_cases;
      use trim_fixed_ends[of v] in \<open>auto simp: quoted_esc is_whitespace_def code_def\<close>)+

lemma wholly_quoted_param_value:
  "(case wholly_quoted (param_value v) of Some w \<Rightarrow> w | None \<Rightarrow> param_value v) = v"
proof (cases v rule: param_value_cases)
  case plain
  have "hd v \<in> set v" using plain by simp
  then have "hd v \<notin> {CHR 0x22, CHR 0x27}" using plain(4) by blast
  then have "wholly_quoted v = None" by (intro wholly_quoted_plain) simp
  then show ?thesis by (simp add: plain(1))
qed (simp add: wholly_quoted_quoted)

text \<open>
  A parameter that is written as \<open>key=param_value(v)\<close> reads back as that key with
  exactly the value \<open>v\<close>, whatever characters \<open>v\<close> has: commas, quotes, backslashes,
  parentheses, blanks at its ends, or none at all.
\<close>

theorem param_value_reads_back:
  assumes "key_name k"
  shows "\<exists>t. split_fields (k @ ''='' @ param_value v) = [\<lparr>f_text = t, f_param = Some (k, v)\<rparr>]"
proof -
  let ?t = "k @ ''='' @ param_value v"
  have k: "k \<noteq> []" "\<not> is_whitespace (hd k)" "\<not> is_whitespace (last k)"
      "hd k \<notin> {CHR 0x22, CHR 0x27}"
    using assms key_char unfolding key_name_def list_all_iff
    by (metis hd_in_set last_in_set insertCI)+
  have marks: "marks_from 0 True False None ?t = [Eq (length k)]"
    using assms marks_from_key[of k True 0 "param_value v"] marks_param_value[of "length k + 1" v]
    by (simp add: key_name_def)
  have spans: "item_spans ?t = [\<lparr>span_start = 0, span_end = length ?t, span_sep_end = length ?t,
      span_eq = Some (length k)\<rparr>]"
    by (simp only: item_spans_def marks Let_def) simp
  have trim_t: "trim ?t = ?t" using k param_value_ends[of v] by (intro trim_id) auto
  have trim_k: "trim k = k" using k by (intro trim_id) auto
  have trim_v: "trim (param_value v) = param_value v" using param_value_ends by (intro trim_id) auto
  have "wholly_quoted ?t = None" using k by (intro wholly_quoted_plain) auto
  then have "\<exists>t. read_field ?t (Some (length k)) = Some \<lparr>f_text = t, f_param = Some (k, v)\<rparr>"
    using k trim_t trim_k trim_v wholly_quoted_param_value[of v]
    by (cases "wholly_quoted (param_value v)") (auto simp: read_field_def Let_def)
  moreover have "split_fields ?t =
      (case read_field ?t (Some (length k)) of None \<Rightarrow> [] | Some f \<Rightarrow> [f])"
    unfolding split_fields_def spans by (auto simp: slice_def List.map_filter_def split: option.splits)
  ultimately show ?thesis by auto
qed

theorem param_value_reads_back_witness:
  "key_name ''password'' \<and>
   (\<exists>t. split_fields (''password='' @ param_value ''a,b'') =
      [\<lparr>f_text = t, f_param = Some (''password'', ''a,b'')\<rparr>])"
proof -
  have k: "key_name ''password''" by code_simp
  from param_value_reads_back[OF k, of "''a,b''"] k show ?thesis by simp
qed

end
