(* ===== verification/Rurge_Rule.thy ===== *)
theory Rurge_Rule
  imports Rurge_Types Rurge_Value
begin

text \<open>
  The lines of \<open>[Rule]\<close>, \<^verbatim>\<open>crates/rurge-config/src/rule.rs\<close>: port expressions, references to
  sets, rule kinds with their nested sub-rules, parameters, policies, and the parser
  (\<open>parse_rule\<close>, \<open>parse_subrule\<close> and the mutually recursive \<open>parse_kind\<close>,
  \<open>parse_logical_value\<close>, \<open>parse_subrule_depth\<close>). \<^verbatim>\<open>reach.rs\<close> gives what the text of a line
  may name, \<^verbatim>\<open>redact.rs\<close> how a URL is shown, \<^verbatim>\<open>policy.rs\<close> the reading of a subnet expression.

  Paths are those of a Unix host: a path is absolute when it starts with a slash.
  Positions in the profile (\<open>Span\<close>) are not modelled. The compilation of a regular
  expression, \<open>dialect::translate\<close> followed by \<open>fancy_regex::Regex::new\<close>, is the parameter
  \<^const>\<open>ext_regex_new\<close>: \<open>None\<close>, or the message of the error.
\<close>

section \<open>Diagnostics\<close>

record parse_error =
  pe_code :: string
  pe_message :: string
  pe_hint :: "string option"

definition parse_error_new :: "string \<Rightarrow> string \<Rightarrow> parse_error" where
  "parse_error_new c m = \<lparr>pe_code = c, pe_message = m, pe_hint = None\<rparr>"

definition with_hint :: "parse_error \<Rightarrow> string \<Rightarrow> parse_error" where
  "with_hint e h = e\<lparr>pe_hint := Some h\<rparr>"

abbreviation E_SYNTAX :: string where "E_SYNTAX \<equiv> ''E0001''"
abbreviation E_INVALID_RULE_VALUE :: string where "E_INVALID_RULE_VALUE \<equiv> ''E0011''"
abbreviation E_UNKNOWN_RULE_TYPE :: string where "E_UNKNOWN_RULE_TYPE \<equiv> ''E0012''"
abbreviation E_NOT_ALLOWED_HERE :: string where "E_NOT_ALLOWED_HERE \<equiv> ''E0014''"
abbreviation E_NESTING_TOO_DEEP :: string where "E_NESTING_TOO_DEEP \<equiv> ''E0015''"
abbreviation W_REMOTE_LOCAL_ACCESS :: string where "W_REMOTE_LOCAL_ACCESS \<equiv> ''W0033''"

section \<open>Reach\<close>

datatype reach = Anywhere | ManagedCopy | Nowhere

record refusal =
  rf_message :: string
  rf_hint :: string

fun set_refusal :: "reach \<Rightarrow> refusal option" where
  "set_refusal Anywhere = None"
| "set_refusal ManagedCopy = Some
     \<lparr>rf_message = ''the downloaded copy of a managed profile cannot name a local file as a set'',
      rf_hint = ''name the set by a URL instead''\<rparr>"
| "set_refusal Nowhere = Some
     \<lparr>rf_message = ''a downloaded file cannot name a local file as a set'',
      rf_hint = ''write the line in the local profile to use a local set''\<rparr>"

record parse_ctx =
  pc_inline_rulesets :: "string list"
  pc_base_dir :: string
  pc_reach :: reach

section \<open>Port expressions\<close>

datatype port_expr =
    PSingle u16 | PRange u16 u16 | PGt u16 | PLt u16 | PGe u16 | PLe u16

definition port_parse :: "string \<Rightarrow> port_expr option" where
  "port_parse s0 =
     (let s = trim s0; num = (\<lambda>x. parse_u16 (trim x)) in
      case strip_prefix ''>='' s of Some v \<Rightarrow> map_option PGe (num v) | None \<Rightarrow>
      (case strip_prefix ''<='' s of Some v \<Rightarrow> map_option PLe (num v) | None \<Rightarrow>
      (case strip_prefix ''>'' s of Some v \<Rightarrow> map_option PGt (num v) | None \<Rightarrow>
      (case strip_prefix ''<'' s of Some v \<Rightarrow> map_option PLt (num v) | None \<Rightarrow>
      (case split_once (CHR ''-'') s of
         Some (x, y) \<Rightarrow>
           (case num x of None \<Rightarrow> None | Some a \<Rightarrow>
           (case num y of None \<Rightarrow> None | Some b \<Rightarrow>
              if a \<le> b then Some (PRange a b) else None))
       | None \<Rightarrow> map_option PSingle (num s))))))"

fun port_matches :: "port_expr \<Rightarrow> u16 \<Rightarrow> bool" where
  "port_matches (PSingle p) port \<longleftrightarrow> port = p"
| "port_matches (PRange a b) port \<longleftrightarrow> a \<le> port \<and> port \<le> b"
| "port_matches (PGt p) port \<longleftrightarrow> p < port"
| "port_matches (PLt p) port \<longleftrightarrow> port < p"
| "port_matches (PGe p) port \<longleftrightarrow> p \<le> port"
| "port_matches (PLe p) port \<longleftrightarrow> port \<le> p"

section \<open>References to sets\<close>

datatype internal_set = SystemSet | LanSet

datatype resource_ref =
    RInternal internal_set | RInline string | RFile string | RUrl string

definition path_join :: "string \<Rightarrow> string \<Rightarrow> string" where
  "path_join base p =
     (if starts_with ''/'' p then p
      else if base = [] \<or> last base = CHR ''/'' then base @ p else base @ ''/'' @ p)"

definition resource_parse_external :: "string \<Rightarrow> parse_ctx \<Rightarrow> parse_error + resource_ref" where
  "resource_parse_external raw0 ctx =
     (let raw = trim raw0; lower = to_ascii_lowercase raw in
      if starts_with ''http://'' lower \<or> starts_with ''https://'' lower then Inr (RUrl raw)
      else case set_refusal (pc_reach ctx) of
             Some r \<Rightarrow> Inl (with_hint (parse_error_new W_REMOTE_LOCAL_ACCESS (rf_message r)) (rf_hint r))
           | None \<Rightarrow>
               Inr (RFile (if starts_with ''/'' raw then raw else path_join (pc_base_dir ctx) raw)))"

text \<open>The least of the inline sets that differ from the name only in case is taken.\<close>

definition resource_parse :: "string \<Rightarrow> parse_ctx \<Rightarrow> parse_error + resource_ref" where
  "resource_parse raw0 ctx =
     (let raw = trim raw0 in
      if raw = ''SYSTEM'' then Inr (RInternal SystemSet)
      else if raw = ''LAN'' then Inr (RInternal LanSet)
      else if raw \<in> set (pc_inline_rulesets ctx) then Inr (RInline raw)
      else case sort (filter (\<lambda>n. eq_ignore_ascii_case n raw) (pc_inline_rulesets ctx)) of
             name # _ \<Rightarrow> Inr (RInline name)
           | [] \<Rightarrow> resource_parse_external raw ctx)"

text \<open>A URL as the views show it, without its user name and password.\<close>

definition last_at :: "string \<Rightarrow> nat option" where
  "last_at item =
     (case rsplit_once (CHR ''@'') item of None \<Rightarrow> None | Some (a, _) \<Rightarrow> Some (length a))"

definition url_without_credentials :: "string \<Rightarrow> string" where
  "url_without_credentials url =
     (case last_at url of
        None \<Rightarrow> url
      | Some at \<Rightarrow>
          let rest = drop (at + 1) url;
              scheme = (case str_find ''://'' (take at url) of
                          None \<Rightarrow> None
                        | Some i \<Rightarrow>
                            let sc = take i url in
                            if list_all (\<lambda>c. is_ascii_alphanumeric c \<or> c \<in> set ''+-.'') sc
                            then Some sc else None)
          in (case scheme of
                Some sc \<Rightarrow> sc @ ''://***@'' @ rest
              | None \<Rightarrow> ''***@'' @ rest))"

definition shown_url :: "string \<Rightarrow> string" where
  "shown_url url =
     (case str_find ''://'' url of
        None \<Rightarrow> url
      | Some i \<Rightarrow>
          let start = i + 3;
              authority = take start url @ takeWhile (\<lambda>c. c \<notin> set ''/?#'') (drop start url)
          in url_without_credentials authority @ drop (length authority) url)"

section \<open>Rule kinds\<close>

text \<open>A regular expression compares by its source, which is what is kept of it.\<close>

type_synonym pattern = string

datatype process_pattern = PName glob | PPath glob | PPrefix string

datatype rule_kind =
    KDomain string | KDomainSuffix string | KDomainKeyword string | KDomainWildcard glob
  | KDomainSet resource_ref | KIpCidr ipv4_net | KIpCidr6 ipv6_net | KGeoIp string
  | KGeoIpUnknown | KIpAsn u32 | KIpAsnUnknown | KUserAgent glob | KUrlRegex pattern
  | KProcessName process_pattern | KDestPort port_expr | KSrcPort port_expr | KInPort port_expr
  | KSrcIp ip_net | KDeviceName glob | KMacAddress string | KProtocol protocol_kind
  | KHostnameType hostname_type | KSubnet subnet_expr | KCellularRadio string
  | KCellularCarrier string | KAnd "sub_rule list" | KOr "sub_rule list" | KNot sub_rule
  | KScript string | KRuleSet resource_ref | KFinal
and sub_rule =
  SubRule (sub_kind: rule_kind) (sub_no_resolve: bool) (sub_extended_matching: bool)
    (sub_unknown: "string list") (sub_raw: string)

fun type_name :: "rule_kind \<Rightarrow> string" where
  "type_name (KDomain _) = ''DOMAIN''"
| "type_name (KDomainSuffix _) = ''DOMAIN-SUFFIX''"
| "type_name (KDomainKeyword _) = ''DOMAIN-KEYWORD''"
| "type_name (KDomainWildcard _) = ''DOMAIN-WILDCARD''"
| "type_name (KDomainSet _) = ''DOMAIN-SET''"
| "type_name (KIpCidr _) = ''IP-CIDR''"
| "type_name (KIpCidr6 _) = ''IP-CIDR6''"
| "type_name (KGeoIp _) = ''GEOIP''"
| "type_name KGeoIpUnknown = ''GEOIP''"
| "type_name (KIpAsn _) = ''IP-ASN''"
| "type_name KIpAsnUnknown = ''IP-ASN''"
| "type_name (KUserAgent _) = ''USER-AGENT''"
| "type_name (KUrlRegex _) = ''URL-REGEX''"
| "type_name (KProcessName _) = ''PROCESS-NAME''"
| "type_name (KDestPort _) = ''DEST-PORT''"
| "type_name (KSrcPort _) = ''SRC-PORT''"
| "type_name (KInPort _) = ''IN-PORT''"
| "type_name (KSrcIp _) = ''SRC-IP''"
| "type_name (KDeviceName _) = ''DEVICE-NAME''"
| "type_name (KMacAddress _) = ''MAC-ADDRESS''"
| "type_name (KProtocol _) = ''PROTOCOL''"
| "type_name (KHostnameType _) = ''HOSTNAME-TYPE''"
| "type_name (KSubnet _) = ''SUBNET''"
| "type_name (KCellularRadio _) = ''CELLULAR-RADIO''"
| "type_name (KCellularCarrier _) = ''CELLULAR-CARRIER''"
| "type_name (KAnd _) = ''AND''"
| "type_name (KOr _) = ''OR''"
| "type_name (KNot _) = ''NOT''"
| "type_name (KScript _) = ''SCRIPT''"
| "type_name (KRuleSet _) = ''RULE-SET''"
| "type_name KFinal = ''FINAL''"

lemma size_sub_kind [termination_simp]: "size (sub_kind s) < Suc (size s)"
  by (cases s) simp

lemma size_sub_kind_list [termination_simp]:
  "s \<in> set subs \<Longrightarrow> size (sub_kind s) < Suc (size_list size subs)"
proof (induction subs)
  case (Cons a subs)
  then show ?case using size_sub_kind[of s] by auto
qed simp

fun supports_pre_matching :: "rule_kind \<Rightarrow> bool" where
  "supports_pre_matching (KDomain _) = True"
| "supports_pre_matching (KDomainSuffix _) = True"
| "supports_pre_matching (KDomainKeyword _) = True"
| "supports_pre_matching (KDomainWildcard _) = True"
| "supports_pre_matching (KDomainSet _) = True"
| "supports_pre_matching (KIpCidr _) = True"
| "supports_pre_matching (KIpCidr6 _) = True"
| "supports_pre_matching (KGeoIp _) = True"
| "supports_pre_matching KGeoIpUnknown = True"
| "supports_pre_matching (KIpAsn _) = True"
| "supports_pre_matching KIpAsnUnknown = True"
| "supports_pre_matching (KSrcIp _) = True"
| "supports_pre_matching (KDestPort _) = True"
| "supports_pre_matching (KSrcPort _) = True"
| "supports_pre_matching (KSubnet _) = True"
| "supports_pre_matching (KCellularRadio _) = True"
| "supports_pre_matching (KCellularCarrier _) = True"
| "supports_pre_matching (KRuleSet _) = True"
| "supports_pre_matching (KAnd subs) = list_all (\<lambda>s. supports_pre_matching (sub_kind s)) subs"
| "supports_pre_matching (KOr subs) = list_all (\<lambda>s. supports_pre_matching (sub_kind s)) subs"
| "supports_pre_matching (KNot sub) = supports_pre_matching (sub_kind sub)"
| "supports_pre_matching _ = False"

definition is_ip_based :: "rule_kind \<Rightarrow> bool" where
  "is_ip_based k =
     (case k of KIpCidr _ \<Rightarrow> True | KIpCidr6 _ \<Rightarrow> True | KGeoIp _ \<Rightarrow> True | KGeoIpUnknown \<Rightarrow> True
      | KIpAsn _ \<Rightarrow> True | KIpAsnUnknown \<Rightarrow> True | _ \<Rightarrow> False)"

text \<open>The line as the views show it.\<close>

fun set_urls :: "rule_kind \<Rightarrow> string list" where
  "set_urls (KDomainSet (RUrl url)) = [url]"
| "set_urls (KRuleSet (RUrl url)) = [url]"
| "set_urls (KAnd subs) = concat (map (\<lambda>s. set_urls (sub_kind s)) subs)"
| "set_urls (KOr subs) = concat (map (\<lambda>s. set_urls (sub_kind s)) subs)"
| "set_urls (KNot sub) = set_urls (sub_kind sub)"
| "set_urls _ = []"

text \<open>\<open>str::replace\<close> of a pattern that is not empty.\<close>

function replace_str :: "string \<Rightarrow> string \<Rightarrow> string \<Rightarrow> string" where
  "replace_str p r s =
     (case s of [] \<Rightarrow> []
      | c # cs \<Rightarrow>
          if p \<noteq> [] \<and> starts_with p s then r @ replace_str p r (drop (length p) s)
          else c # replace_str p r cs)"
  by pat_completeness auto
termination
  by (relation "measure (\<lambda>(p, r, s). length s)") auto

declare replace_str.simps [simp del]

definition shown_line :: "string \<Rightarrow> rule_kind \<Rightarrow> string" where
  "shown_line raw kind =
     fold (\<lambda>url shown. let hidden = shown_url url in
             if hidden \<noteq> url then replace_str url hidden shown else shown)
          (set_urls kind) raw"

section \<open>Parameters and policies\<close>

record rule_params =
  rp_no_resolve :: bool
  rp_dns_failed :: bool
  rp_extended_matching :: bool
  rp_pre_matching :: bool
  rp_requires_resolve :: bool
  rp_notification_text :: "string option"
  rp_notification_interval :: "u32 option"
  rp_update_interval :: "int option"
  rp_always_capture :: "string option"
  rp_unknown :: "string list"

definition rule_params_default :: rule_params where
  "rule_params_default =
     \<lparr>rp_no_resolve = False, rp_dns_failed = False, rp_extended_matching = False,
      rp_pre_matching = False, rp_requires_resolve = False, rp_notification_text = None,
      rp_notification_interval = None, rp_update_interval = None, rp_always_capture = None,
      rp_unknown = []\<rparr>"

text \<open>\<open>str::parse\<close> of an \<open>i64\<close>.\<close>

definition parse_i64 :: "string \<Rightarrow> int option" where
  "parse_i64 s =
     (case s of
        [] \<Rightarrow> None
      | c # cs \<Rightarrow>
          if c = CHR ''-'' then
            (if cs = [] then None
             else case digits_value 0 cs of None \<Rightarrow> None
                  | Some n \<Rightarrow> if n \<le> 2 ^ 63 then Some (- int n) else None)
          else map_option int (parse_uint (2 ^ 63) s))"

definition param_step :: "field \<Rightarrow> rule_params \<Rightarrow> rule_params" where
  "param_step f p =
     (let (k0, v) = (case f_param f of Some (k, v) \<Rightarrow> (k, Some v) | None \<Rightarrow> (f_text f, None));
          k = to_ascii_lowercase k0;
          unknown = p\<lparr>rp_unknown := rp_unknown p @ [f_text f]\<rparr> in
      case v of
        None \<Rightarrow>
          if k = ''no-resolve'' then p\<lparr>rp_no_resolve := True\<rparr>
          else if k = ''dns-failed'' then p\<lparr>rp_dns_failed := True\<rparr>
          else if k = ''extended-matching'' then p\<lparr>rp_extended_matching := True\<rparr>
          else if k = ''pre-matching'' then p\<lparr>rp_pre_matching := True\<rparr>
          else if k = ''requires-resolve'' then p\<lparr>rp_requires_resolve := True\<rparr>
          else unknown
      | Some v \<Rightarrow>
          if k = ''notification-text'' then p\<lparr>rp_notification_text := Some v\<rparr>
          else if k = ''notification-interval'' \<and> parse_u32 (trim v) \<noteq> None
          then p\<lparr>rp_notification_interval := parse_u32 (trim v)\<rparr>
          else if k = ''update-interval'' \<and> parse_i64 (trim v) \<noteq> None
          then p\<lparr>rp_update_interval := parse_i64 (trim v)\<rparr>
          else if k = ''always-capture'' then p\<lparr>rp_always_capture := Some v\<rparr>
          else unknown)"

definition rule_params_parse :: "field list \<Rightarrow> rule_params" where
  "rule_params_parse flds = fold param_step flds rule_params_default"

datatype policy_ref = PBuiltin builtin | PNamed string | PDevice string

definition policy_ref_parse :: "string \<Rightarrow> policy_ref" where
  "policy_ref_parse s0 =
     (let s = trim s0 in
      case builtin_parse s of
        Some b \<Rightarrow> PBuiltin b
      | None \<Rightarrow>
          (case strip_prefix ''DEVICE:'' s of
             Some d \<Rightarrow> PDevice (trim d)
           | None \<Rightarrow> PNamed s))"

fun policy_ref_name :: "policy_ref \<Rightarrow> string" where
  "policy_ref_name (PBuiltin b) = builtin_name b"
| "policy_ref_name (PNamed n) = n"
| "policy_ref_name (PDevice d) = ''DEVICE:'' @ d"

definition is_reject_policy :: "policy_ref \<Rightarrow> bool" where
  "is_reject_policy p = (case p of PBuiltin b \<Rightarrow> is_reject b | _ \<Rightarrow> False)"

record rule =
  r_kind :: rule_kind
  r_policy :: policy_ref
  r_params :: rule_params
  r_raw :: string

section \<open>The parser\<close>

definition invalid :: "string \<Rightarrow> string \<Rightarrow> string \<Rightarrow> parse_error" where
  "invalid ty value why =
     parse_error_new E_INVALID_RULE_VALUE (ty @ '': invalid value `'' @ value @ ''`: '' @ why)"

definition not_allowed_here :: "string \<Rightarrow> string \<Rightarrow> parse_error" where
  "not_allowed_here message hint = with_hint (parse_error_new E_NOT_ALLOWED_HERE message) hint"

fun glob_error_text :: "glob_error \<Rightarrow> string" where
  "glob_error_text (GlobError m) = ''invalid glob pattern: '' @ m"

definition glob_of :: "string \<Rightarrow> bool \<Rightarrow> bool \<Rightarrow> string + glob" where
  "glob_of value ci cls =
     map_sum glob_error_text id (glob_new value \<lparr>case_insensitive = ci, classes = cls\<rparr>)"

definition process_pattern_of :: "string \<Rightarrow> string + process_pattern" where
  "process_pattern_of value =
     (let is_path = starts_with ''/'' value \<or> starts_with [CHR 0x5C, CHR 0x5C] value \<or>
            (case value of a # b # c # _ \<Rightarrow>
               is_ascii_alphabetic a \<and> b = CHR '':'' \<and> (c = CHR 0x5C \<or> c = CHR ''/'')
             | _ \<Rightarrow> False) in
      if \<not> is_path then map_sum id PName (glob_of value False False)
      else if 1 < length value \<and> (last value = CHR ''/'' \<or> last value = CHR 0x5C)
      then Inr (PPrefix value)
      else map_sum id PPath (glob_of value False False))"

definition split_on_any :: "char list \<Rightarrow> string \<Rightarrow> string list" where
  "split_on_any cs s = split_on (hd cs) (map (\<lambda>c. if c \<in> set cs then hd cs else c) s)"

definition parse_mac :: "string \<Rightarrow> string option" where
  "parse_mac value =
     (let parts = split_on_any [CHR '':'', CHR ''-''] value in
      if length parts \<noteq> 6 \<or> \<not> list_all (\<lambda>p. length p = 2 \<and> list_all is_ascii_hexdigit p) parts
      then None
      else Some (join_with (CHR '':'') (map to_ascii_uppercase parts)))"

definition is_unknown :: "string \<Rightarrow> bool" where
  "is_unknown value \<longleftrightarrow> eq_ignore_ascii_case (trim value) ''UNKNOWN''"

definition strip_prefix_ci :: "string \<Rightarrow> string \<Rightarrow> string option" where
  "strip_prefix_ci s p =
     (if length p \<le> length s \<and> eq_ignore_ascii_case (take (length p) s) p
      then Some (drop (length p) s) else None)"

definition quotable :: "string \<Rightarrow> bool" where
  "quotable value \<longleftrightarrow>
     length value \<le> 64 \<and> \<not> list_ex is_whitespace value \<and> CHR ''='' \<notin> set value"

definition subnet_parse :: "string \<Rightarrow> parse_error + subnet_expr" where
  "subnet_parse s0 =
     (let s = trim s0;
          bad = (\<lambda>what. Inl (parse_error_new E_INVALID_RULE_VALUE
                   (if quotable s \<and> \<not> str_contains ''://'' s \<and> CHR ''@'' \<notin> set s
                    then ''invalid subnet expression `'' @ s @ ''`: '' @ what
                    else ''invalid subnet expression: '' @ what)));
          globbed = (\<lambda>con v ci. case glob_of v ci False of Inl e \<Rightarrow> bad e | Inr g \<Rightarrow> Inr (con g)) in
      case strip_prefix_ci s ''SSID:'' of Some v \<Rightarrow> globbed Ssid v False | None \<Rightarrow>
      (case strip_prefix_ci s ''BSSID:'' of Some v \<Rightarrow> globbed Bssid v True | None \<Rightarrow>
      (case strip_prefix_ci s ''ROUTER:'' of
         Some v \<Rightarrow> (case parse_ip v of None \<Rightarrow> bad ''expected an IP address'' | Some ip \<Rightarrow> Inr (Router ip))
       | None \<Rightarrow>
      (case strip_prefix_ci s ''TYPE:'' of
         Some v \<Rightarrow>
           let u = to_ascii_uppercase v in
           if u = ''WIFI'' then Inr (NetTypeIs NtWifi)
           else if u = ''WIRED'' then Inr (NetTypeIs NtWired)
           else if u = ''CELLULAR'' then Inr (NetTypeIs NtCellular)
           else bad ''expected WIFI, WIRED or CELLULAR''
       | None \<Rightarrow>
      (case strip_prefix_ci s ''MCCMNC:'' of
         Some v \<Rightarrow>
           if v = [] \<or> \<not> list_all is_ascii_digit v then bad ''expected MCC+MNC digits''
           else Inr (Mccmnc v)
       | None \<Rightarrow> if s = [] then bad ''empty'' else Inr (Bare s))))))"

definition quotable_type :: "string \<Rightarrow> string option" where
  "quotable_type ty =
     (if ty \<noteq> [] \<and> length ty \<le> 32 \<and> list_all (\<lambda>c. is_ascii_alphanumeric c \<or> c = CHR ''-'') ty
      then Some ty else None)"

definition of_type :: "string \<Rightarrow> string \<Rightarrow> string" where
  "of_type ty what = (case quotable_type ty of Some t \<Rightarrow> t @ '': '' @ what | None \<Rightarrow> what)"

definition ok_or :: "'e \<Rightarrow> 'a option \<Rightarrow> 'e + 'a" where
  "ok_or e x = (case x of None \<Rightarrow> Inl e | Some a \<Rightarrow> Inr a)"

definition MAX_LOGICAL_DEPTH :: nat where
  "MAX_LOGICAL_DEPTH = 10"

text \<open>The arms of \<open>parse_kind\<close> for the kinds with no sub-rules.\<close>

definition parse_leaf_kind :: "ext \<Rightarrow> string \<Rightarrow> string \<Rightarrow> parse_ctx \<Rightarrow> parse_error + rule_kind" where
  "parse_leaf_kind x ty value ctx =
     (let bad = invalid ty value;
          globbed = (\<lambda>con ci cls. map_sum bad con (glob_of value ci cls));
          port = (\<lambda>con. map_sum id con (ok_or (bad ''expected a port expression'') (port_parse value))) in
      if ty = ''DOMAIN'' then
        Inr (KDomain (to_ascii_lowercase (trim_end_matches (CHR ''.'') value)))
      else if ty = ''DOMAIN-SUFFIX'' then
        Inr (KDomainSuffix (to_ascii_lowercase (trim_matches (CHR ''.'') value)))
      else if ty = ''DOMAIN-KEYWORD'' then Inr (KDomainKeyword (to_ascii_lowercase value))
      else if ty = ''DOMAIN-WILDCARD'' then globbed KDomainWildcard True True
      else if ty = ''DOMAIN-SET'' then map_sum id KDomainSet (resource_parse_external value ctx)
      else if ty = ''IP-CIDR'' then
        map_sum id KIpCidr (ok_or (bad ''expected IPv4 CIDR'')
          (case ext_parse_net4 x value of
             Some n \<Rightarrow> Some n
           | None \<Rightarrow> map_option (\<lambda>ip. (ip, 32)) (parse_ipv4 value)))
      else if ty = ''IP-CIDR6'' then
        map_sum id KIpCidr6 (ok_or (bad ''expected IPv6 CIDR'')
          (case ext_parse_net6 x value of
             Some n \<Rightarrow> Some n
           | None \<Rightarrow> map_option (\<lambda>ip. (ip, 128)) (parse_ipv6 value)))
      else if ty = ''GEOIP'' then
        if is_unknown value then Inr KGeoIpUnknown
        else if value = [] \<or> \<not> list_all is_ascii_alphabetic value
        then Inl (bad ''expected an ISO country code'')
        else Inr (KGeoIp (to_ascii_uppercase value))
      else if ty = ''IP-ASN'' then
        if is_unknown value then Inr KIpAsnUnknown
        else let digits = (case strip_prefix ''AS'' value of
                             Some d \<Rightarrow> d
                           | None \<Rightarrow> (case strip_prefix ''as'' value of Some d \<Rightarrow> d | None \<Rightarrow> value))
             in map_sum id KIpAsn (ok_or (bad ''expected a decimal ASN'') (parse_u32 digits))
      else if ty = ''USER-AGENT'' then globbed KUserAgent False False
      else if ty = ''URL-REGEX'' then
        (case ext_regex_new x value of None \<Rightarrow> Inr (KUrlRegex value) | Some e \<Rightarrow> Inl (bad e))
      else if ty = ''PROCESS-NAME'' then map_sum bad KProcessName (process_pattern_of value)
      else if ty = ''DEST-PORT'' then port KDestPort
      else if ty = ''SRC-PORT'' then port KSrcPort
      else if ty = ''IN-PORT'' then port KInPort
      else if ty = ''SRC-IP'' then
        map_sum id KSrcIp (ok_or (bad ''expected an IP address or CIDR'')
          (case ext_parse_net x value of
             Some n \<Rightarrow> Some n
           | None \<Rightarrow> map_option (\<lambda>ip. case ip of V4 a \<Rightarrow> Net4 (a, 32) | V6 a \<Rightarrow> Net6 (a, 128))
                       (parse_ip value)))
      else if ty = ''DEVICE-NAME'' then globbed KDeviceName False False
      else if ty = ''MAC-ADDRESS'' then
        map_sum id KMacAddress (ok_or (bad ''expected a MAC address'') (parse_mac value))
      else if ty = ''PROTOCOL'' then
        map_sum id KProtocol
          (ok_or (bad ''unknown protocol keyword (case-sensitive)'') (protocol_parse value))
      else if ty = ''HOSTNAME-TYPE'' then
        map_sum id KHostnameType
          (ok_or (bad ''expected IPv4, IPv6, DOMAIN or SIMPLE (case-sensitive)'')
             (map_of [(''IPv4'', HtIPv4), (''IPv6'', HtIPv6), (''DOMAIN'', HtDomain), (''SIMPLE'', HtSimple)]
                value))
      else if ty = ''SUBNET'' then map_sum id KSubnet (subnet_parse value)
      else if ty = ''CELLULAR-RADIO'' then Inr (KCellularRadio value)
      else if ty = ''CELLULAR-CARRIER'' then Inr (KCellularCarrier value)
      else if ty = ''SCRIPT'' then Inr (KScript value)
      else if ty = ''RULE-SET'' then map_sum id KRuleSet (resource_parse value ctx)
      else Inl (parse_error_new E_UNKNOWN_RULE_TYPE
             (''unknown rule type'' @
              (case quotable_type ty of None \<Rightarrow> '''' | Some t \<Rightarrow> '' `'' @ t @ ''`''))))"

text \<open>The flags of a sub-rule, read from the fields after its value.\<close>

fun sub_flags :: "sub_rule \<Rightarrow> string list \<Rightarrow> parse_error + sub_rule" where
  "sub_flags sub [] = Inr sub"
| "sub_flags sub (flag # flags) =
     (let f = to_ascii_lowercase flag in
      case sub of SubRule k nr em un raw \<Rightarrow>
        if f = ''no-resolve'' then sub_flags (SubRule k True em un raw) flags
        else if f = ''extended-matching'' then sub_flags (SubRule k nr True un raw) flags
        else if f = ''pre-matching'' then
          Inl (not_allowed_here ''pre-matching is only allowed on top-level rules''
                 ''put `pre-matching` on the top-level rule instead of the sub-rule'')
        else sub_flags (SubRule k nr em (un @ [flag]) raw) flags)"

definition unwrap_parens :: "string \<Rightarrow> string option" where
  "unwrap_parens s = Option.bind (strip_prefix ''('' s) (strip_suffix '')'')"

definition parse_rank :: "nat \<Rightarrow> nat" where
  "parse_rank d = (if d \<le> MAX_LOGICAL_DEPTH then 2 * (MAX_LOGICAL_DEPTH + 1 - d) else 0)"

function (sequential) parse_kind :: "ext \<Rightarrow> parse_ctx \<Rightarrow> nat \<Rightarrow> string \<Rightarrow> string \<Rightarrow> parse_error + rule_kind"
  and parse_logical_value :: "ext \<Rightarrow> parse_ctx \<Rightarrow> nat \<Rightarrow> string \<Rightarrow> parse_error + sub_rule list"
  and parse_subs :: "ext \<Rightarrow> parse_ctx \<Rightarrow> nat \<Rightarrow> string list \<Rightarrow> parse_error + sub_rule list"
  and parse_subrule_depth :: "ext \<Rightarrow> parse_ctx \<Rightarrow> nat \<Rightarrow> string \<Rightarrow> parse_error + sub_rule"
where
  "parse_kind x ctx depth ty value =
     (if ty = ''AND'' \<or> ty = ''OR'' \<or> ty = ''NOT'' then
        (case parse_logical_value x ctx depth value of
           Inl e \<Rightarrow> Inl e
         | Inr subs \<Rightarrow>
             if ty = ''AND'' then Inr (KAnd subs)
             else if ty = ''OR'' then Inr (KOr subs)
             else (case subs of
                     [sub] \<Rightarrow> Inr (KNot sub)
                   | _ \<Rightarrow> Inl (parse_error_new E_SYNTAX ''NOT takes exactly one sub-rule'')))
      else parse_leaf_kind x ty value ctx)"
| "parse_logical_value x ctx depth value =
     (if MAX_LOGICAL_DEPTH < depth then
        Inl (parse_error_new E_NESTING_TOO_DEEP ''logical rules nested deeper than 10'')
      else case unwrap_parens (trim value) of
             None \<Rightarrow> Inl (parse_error_new E_SYNTAX ''logical rule value must be wrapped in parentheses'')
           | Some inner \<Rightarrow>
               (case parse_subs x ctx depth (split_list inner) of
                  Inl e \<Rightarrow> Inl e
                | Inr subs \<Rightarrow>
                    if subs = [] then Inl (parse_error_new E_SYNTAX ''logical rule needs at least one sub-rule'')
                    else Inr subs))"
| "parse_subs x ctx depth [] = Inr []"
| "parse_subs x ctx depth (item # items) =
     (case unwrap_parens item of
        None \<Rightarrow> Inl (parse_error_new E_SYNTAX
                  (''sub-rule `'' @ item @ ''` must be wrapped in parentheses''))
      | Some sub \<Rightarrow>
          (case parse_subrule_depth x ctx (depth + 1) sub of
             Inl e \<Rightarrow> Inl e
           | Inr s \<Rightarrow>
               (case parse_subs x ctx depth items of
                  Inl e \<Rightarrow> Inl e
                | Inr ss \<Rightarrow> Inr (s # ss))))"
| "parse_subrule_depth x ctx depth raw =
     (case split_list raw of
        [] \<Rightarrow> Inl (parse_error_new E_SYNTAX ''empty sub-rule'')
      | ty0 # flds \<Rightarrow>
          let ty = to_ascii_uppercase ty0 in
          if ty = ''FINAL'' then
            Inl (not_allowed_here ''FINAL is not allowed as a sub-rule or inside a rule set''
                   ''use `FINAL` only as a top-level rule in `[Rule]`'')
          else case flds of
                 [] \<Rightarrow> Inl (parse_error_new E_SYNTAX (of_type ty ''missing value''))
               | value # flags \<Rightarrow>
                   (case parse_kind x ctx depth ty value of
                      Inl e \<Rightarrow> Inl e
                    | Inr kind \<Rightarrow>
                        sub_flags (SubRule kind False False [] (shown_line (trim raw) kind)) flags))"
  by pat_completeness auto
termination
  by (relation "inv_image (less_than <*lex*> less_than <*lex*> less_than)
        (\<lambda>a. case a of
           Inl (Inl (x, ctx, d, ty, v)) \<Rightarrow> (parse_rank d + (if d \<le> MAX_LOGICAL_DEPTH then 1 else 0), 1, 0)
         | Inl (Inr (x, ctx, d, v)) \<Rightarrow> (parse_rank d + (if d \<le> MAX_LOGICAL_DEPTH then 1 else 0), 0, 0)
         | Inr (Inl (x, ctx, d, its)) \<Rightarrow> (parse_rank d, 3, length its)
         | Inr (Inr (x, ctx, d, r)) \<Rightarrow> (parse_rank d + (if d \<le> MAX_LOGICAL_DEPTH then 1 else 0), 2, 0))")
     (auto simp: parse_rank_def MAX_LOGICAL_DEPTH_def)

declare parse_kind.simps [simp del] parse_logical_value.simps [simp del]
  parse_subrule_depth.simps [simp del]

definition parse_subrule :: "ext \<Rightarrow> parse_ctx \<Rightarrow> string \<Rightarrow> parse_error + sub_rule" where
  "parse_subrule x ctx raw = parse_subrule_depth x ctx 1 raw"

definition parse_rule :: "ext \<Rightarrow> parse_ctx \<Rightarrow> string \<Rightarrow> parse_error + rule" where
  "parse_rule x ctx raw =
     (case split_fields raw of
        [] \<Rightarrow> Inl (parse_error_new E_SYNTAX ''empty rule'')
      | ty0 # flds \<Rightarrow>
          let ty = to_ascii_uppercase (f_text ty0);
              read = (if ty = ''FINAL'' then Inr (KFinal, flds)
                      else case flds of
                             [] \<Rightarrow> Inl (parse_error_new E_SYNTAX (of_type ty ''missing value''))
                           | value # rest \<Rightarrow> map_sum id (\<lambda>k. (k, rest)) (parse_kind x ctx 1 ty (f_text value))) in
          case read of
            Inl e \<Rightarrow> Inl e
          | Inr (kind, []) \<Rightarrow> Inl (parse_error_new E_SYNTAX (of_type ty ''missing policy''))
          | Inr (kind, pol # rest) \<Rightarrow>
              let policy = policy_ref_parse (f_text pol);
                  params = rule_params_parse rest in
              if rp_pre_matching params \<and> \<not> is_reject_policy policy then
                Inl (not_allowed_here ''pre-matching requires a REJECT-family policy''
                       ''give the rule a REJECT policy, or remove `pre-matching`'')
              else if rp_pre_matching params \<and> \<not> supports_pre_matching kind then
                Inl (not_allowed_here (ty @ '' does not support pre-matching'')
                       ''remove `pre-matching`: the Surge manual allows it only on domain, IP, port, SUBNET, CELLULAR and set rules, and on logical rules made of them'')
              else Inr \<lparr>r_kind = kind, r_policy = policy, r_params = params,
                        r_raw = shown_line (trim raw) kind\<rparr>)"

end
