(* ===== verification/Rurge_Ip_Index.thy ===== *)
theory Rurge_Ip_Index
  imports Rurge_Types
begin

text \<open>
  The longest-prefix index over two prefix tries, \<^verbatim>\<open>crates/rurge-rules/src/ip_index.rs\<close>. The
  crates \<open>ipnet\<close> and \<open>prefix_trie\<close> are parameters: the locale \<open>prefix_trie\<close> holds what
  their documentation promises, \<open>ext_laws\<close> asks it of both tries of an \<^typ>\<open>ext\<close>, and
  \<open>ext_ref\<close> is an instance that keeps the promises, for evaluation.
\<close>

section \<open>Model\<close>

record ip_index =
  ix_v4 :: "ipv4_net prefix_map"
  ix_v6 :: "ipv6_net prefix_map"
  ix_len :: nat

definition ip_index_default :: ip_index where
  "ip_index_default = \<lparr>ix_v4 = [], ix_v6 = [], ix_len = 0\<rparr>"

definition add_v4 :: "ext \<Rightarrow> ipv4_net \<Rightarrow> u32 \<Rightarrow> ip_index \<Rightarrow> ip_index" where
  "add_v4 x net0 entry idx =
     (let net = ext_net4_trunc x net0;
          inserted = idx\<lparr>ix_v4 := ix_v4 idx @ [(net, entry)],
                         ix_len := (if ext_pm4_get x (ix_v4 idx) net = None then ix_len idx + 1
                                    else ix_len idx)\<rparr>
      in case ext_pm4_get x (ix_v4 idx) net of
           Some existing \<Rightarrow> if existing \<le> entry then idx else inserted
         | None \<Rightarrow> inserted)"

definition add_v6 :: "ext \<Rightarrow> ipv6_net \<Rightarrow> u32 \<Rightarrow> ip_index \<Rightarrow> ip_index" where
  "add_v6 x net0 entry idx =
     (let net = ext_net6_trunc x net0;
          inserted = idx\<lparr>ix_v6 := ix_v6 idx @ [(net, entry)],
                         ix_len := (if ext_pm6_get x (ix_v6 idx) net = None then ix_len idx + 1
                                    else ix_len idx)\<rparr>
      in case ext_pm6_get x (ix_v6 idx) net of
           Some existing \<Rightarrow> if existing \<le> entry then idx else inserted
         | None \<Rightarrow> inserted)"

fun add_net :: "ext \<Rightarrow> ip_net \<Rightarrow> u32 \<Rightarrow> ip_index \<Rightarrow> ip_index" where
  "add_net x (Net4 n) entry idx = add_v4 x n entry idx"
| "add_net x (Net6 n) entry idx = add_v6 x n entry idx"

definition ip_index_is_empty :: "ip_index \<Rightarrow> bool" where
  "ip_index_is_empty idx \<longleftrightarrow> ix_len idx = 0"

definition lookup_v4 :: "ext \<Rightarrow> ip_index \<Rightarrow> ipv4_addr \<Rightarrow> u32 option" where
  "lookup_v4 x idx ip = map_option snd (ext_pm4_get_lpm x (ix_v4 idx) (ip, 32))"

definition lookup_v6 :: "ext \<Rightarrow> ip_index \<Rightarrow> ipv6_addr \<Rightarrow> u32 option" where
  "lookup_v6 x idx ip = map_option snd (ext_pm6_get_lpm x (ix_v6 idx) (ip, 128))"

fun ip_lookup :: "ext \<Rightarrow> ip_index \<Rightarrow> ip_addr \<Rightarrow> u32 option" where
  "ip_lookup x idx (V4 a) = lookup_v4 x idx a"
| "ip_lookup x idx (V6 a) = lookup_v6 x idx a"

section \<open>What the trie crates promise\<close>

text \<open>Adding a network to a trie, keeping the least entry: what \<open>add_v4\<close> and \<open>add_v6\<close> share.\<close>

definition trie_add ::
    "('n \<Rightarrow> 'n) \<Rightarrow> ('n prefix_map \<Rightarrow> 'n \<Rightarrow> u32 option) \<Rightarrow> 'n prefix_map \<Rightarrow> 'n \<times> u32 \<Rightarrow> 'n prefix_map" where
  "trie_add tr get m ne =
     (case get m (tr (fst ne)) of
        Some existing \<Rightarrow> if existing \<le> snd ne then m else m @ [(tr (fst ne), snd ne)]
      | None \<Rightarrow> m @ [(tr (fst ne), snd ne)])"

locale prefix_trie =
  fixes tr :: "'n \<Rightarrow> 'n" and contains :: "'n \<Rightarrow> 'a \<Rightarrow> bool" and plen :: "'n \<Rightarrow> nat" and host :: "'a \<Rightarrow> 'n"
    and get :: "'n prefix_map \<Rightarrow> 'n \<Rightarrow> u32 option"
    and get_lpm :: "'n prefix_map \<Rightarrow> 'n \<Rightarrow> ('n \<times> u32) option"
  assumes tr_tr [simp]: "tr (tr n) = tr n"
    and contains_tr [simp]: "contains (tr n) a \<longleftrightarrow> contains n a"
    and plen_tr [simp]: "plen (tr n) = plen n"
    and same_net: "contains n a \<Longrightarrow> contains n' a \<Longrightarrow> plen n = plen n' \<Longrightarrow> tr n = tr n'"
    and get_Nil [simp]: "get [] n = None"
    and get_insert: "get (m @ [(tr p, e)]) (tr q) = (if tr q = tr p then Some e else get m (tr q))"
    and lpm_Some: "\<forall>(p, e)\<in>set m. tr p = p \<Longrightarrow> get_lpm m (host a) = Some (p, e) \<Longrightarrow>
      tr p = p \<and> get m p = Some e \<and> contains p a \<and>
      (\<forall>q. get m (tr q) \<noteq> None \<longrightarrow> contains q a \<longrightarrow> plen q \<le> plen p)"
    and lpm_None: "\<forall>(p, e)\<in>set m. tr p = p \<Longrightarrow> get_lpm m (host a) = None \<Longrightarrow>
      get m (tr q) = None \<or> \<not> contains q a"
begin

text \<open>The trie holds every network added, with the least of its entries.\<close>

definition holds :: "('n \<times> u32) list \<Rightarrow> 'n prefix_map \<Rightarrow> bool" where
  "holds adds m \<longleftrightarrow>
     (\<forall>(p, e)\<in>set m. tr p = p) \<and>
     (\<forall>q. case get m (tr q) of
        None \<Rightarrow> \<forall>(p, e)\<in>set adds. tr p \<noteq> tr q
      | Some e \<Rightarrow> (\<exists>p. (p, e) \<in> set adds \<and> tr p = tr q) \<and>
          (\<forall>(p, e')\<in>set adds. tr p = tr q \<longrightarrow> e \<le> e'))"

lemma holds_add:
  assumes "holds adds m"
  shows "holds (adds @ [(p, e)]) (trie_add tr get m (p, e))"
proof -
  have at: "case get m (tr q) of
        None \<Rightarrow> \<forall>(p, e)\<in>set adds. tr p \<noteq> tr q
      | Some e \<Rightarrow> (\<exists>p. (p, e) \<in> set adds \<and> tr p = tr q) \<and>
          (\<forall>(p, e')\<in>set adds. tr p = tr q \<longrightarrow> e \<le> e')" for q
    using assms by (simp add: holds_def)
  have gets: "get (trie_add tr get m (p, e)) (tr q) =
      (if tr q = tr p then (case get m (tr p) of None \<Rightarrow> Some e | Some e' \<Rightarrow> Some (min e' e))
       else get m (tr q))" for q
    by (auto simp: trie_add_def get_insert min_def split: option.splits)
  have "case get (trie_add tr get m (p, e)) (tr q) of
        None \<Rightarrow> \<forall>(p', e')\<in>set (adds @ [(p, e)]). tr p' \<noteq> tr q
      | Some d \<Rightarrow> (\<exists>p'. (p', d) \<in> set (adds @ [(p, e)]) \<and> tr p' = tr q) \<and>
          (\<forall>(p', e')\<in>set (adds @ [(p, e)]). tr p' = tr q \<longrightarrow> d \<le> e')" for q
  proof (cases "tr q = tr p")
    case True
    then show ?thesis
      using at[of p] unfolding gets by (cases "get m (tr p)") (fastforce simp: min_def)+
  next
    case False
    then show ?thesis using at[of q] unfolding gets by (cases "get m (tr q)") auto
  qed
  moreover have "\<forall>(p', e')\<in>set (trie_add tr get m (p, e)). tr p' = p'"
    using assms by (auto simp: holds_def trie_add_def split: option.splits)
  ultimately show ?thesis by (simp add: holds_def)
qed

lemma holds_all: "holds adds (foldl (trie_add tr get) [] adds)"
proof (induction adds rule: rev_induct)
  case Nil
  then show ?case by (simp add: holds_def)
next
  case (snoc ne adds)
  then show ?case using holds_add[of adds "foldl (trie_add tr get) [] adds" "fst ne" "snd ne"] by simp
qed

lemma longest_match:
  "case get_lpm (foldl (trie_add tr get) [] adds) (host a) of
     None \<Rightarrow> \<forall>p e. (p, e) \<in> set adds \<longrightarrow> \<not> contains p a
   | Some (n, e) \<Rightarrow> (\<exists>p. (p, e) \<in> set adds \<and> contains p a \<and>
       (\<forall>q e'. (q, e') \<in> set adds \<and> contains q a \<longrightarrow> plen q \<le> plen p \<and> (plen q = plen p \<longrightarrow> e \<le> e')))"
proof -
  let ?m = "foldl (trie_add tr get) [] adds"
  have trs: "\<forall>(p, e)\<in>set ?m. tr p = p" using holds_all[of adds] by (simp add: holds_def)
  have at: "case get ?m (tr q) of
        None \<Rightarrow> \<forall>(p, e)\<in>set adds. tr p \<noteq> tr q
      | Some e \<Rightarrow> (\<exists>p. (p, e) \<in> set adds \<and> tr p = tr q) \<and>
          (\<forall>(p, e')\<in>set adds. tr p = tr q \<longrightarrow> e \<le> e')" for q
    using holds_all[of adds] by (simp add: holds_def)
  have held: "get ?m (tr q) \<noteq> None" if "(q, e) \<in> set adds" for q e
    using at[of q] that by (auto split: option.splits)
  show ?thesis
  proof (cases "get_lpm ?m (host a)")
    case None
    have "\<not> contains q a" if "(q, e) \<in> set adds" for q e
      using lpm_None[OF trs None, of q] held[OF that] by blast
    with None show ?thesis by auto
  next
    case (Some ne)
    obtain n e where ne: "ne = (n, e)" by (cases ne)
    from lpm_Some[OF trs Some[unfolded ne]] have n: "tr n = n" "get ?m n = Some e" "contains n a"
      and long: "\<And>q. get ?m (tr q) \<noteq> None \<Longrightarrow> contains q a \<Longrightarrow> plen q \<le> plen n" by auto
    from at[of n] n obtain p where p: "(p, e) \<in> set adds" "tr p = n"
      and least: "\<And>q e'. (q, e') \<in> set adds \<Longrightarrow> tr q = n \<Longrightarrow> e \<le> e'" by auto
    have pn: "plen p = plen n" "contains p a" using p(2) n(3) plen_tr[of p] contains_tr[of p a] by auto
    have "plen q \<le> plen p \<and> (plen q = plen p \<longrightarrow> e \<le> e')" if "(q, e') \<in> set adds" "contains q a" for q e'
      using long[OF held[OF that(1)] that(2)] least[OF that(1)] same_net[OF that(2) n(3)] n(1) pn by auto
    then show ?thesis using Some ne p(1) pn by auto
  qed
qed

end

text \<open>The promises for both families, of the crates an \<^typ>\<open>ext\<close> stands for.\<close>

locale ext_laws =
  fixes x :: ext
  assumes trie4: "prefix_trie (ext_net4_trunc x) (ext_net4_contains x) snd (\<lambda>a. (a, 32)) (ext_pm4_get x) (ext_pm4_get_lpm x)"
    and trie6: "prefix_trie (ext_net6_trunc x) (ext_net6_contains x) snd (\<lambda>a. (a, 128)) (ext_pm6_get x) (ext_pm6_get_lpm x)"

sublocale ext_laws \<subseteq> v4: prefix_trie "ext_net4_trunc x" "ext_net4_contains x" snd "\<lambda>a. (a, 32)" "ext_pm4_get x" "ext_pm4_get_lpm x"
  by (rule trie4)

sublocale ext_laws \<subseteq> v6: prefix_trie "ext_net6_trunc x" "ext_net6_contains x" snd "\<lambda>a. (a, 128)" "ext_pm6_get x" "ext_pm6_get_lpm x"
  by (rule trie6)

section \<open>An instance of the crates\<close>

definition ref_contains :: "'w::len word \<times> nat \<Rightarrow> 'w word \<Rightarrow> bool" where
  "ref_contains n ip \<longleftrightarrow>
     drop_bit (LENGTH('w) - snd n) (fst n) = drop_bit (LENGTH('w) - snd n) ip"

definition ref_trunc :: "'w::len word \<times> nat \<Rightarrow> 'w word \<times> nat" where
  "ref_trunc n =
     (push_bit (LENGTH('w) - snd n) (drop_bit (LENGTH('w) - snd n) (fst n)), snd n)"

definition ref_get :: "('n \<times> u32) list \<Rightarrow> 'n \<Rightarrow> u32 option" where
  "ref_get m n = map_of (rev m) n"

definition longer :: "('a \<times> nat) \<times> u32 \<Rightarrow> ('a \<times> nat) \<times> u32 \<Rightarrow> ('a \<times> nat) \<times> u32" where
  "longer b c = (if snd (fst b) < snd (fst c) then c else b)"

definition ref_lpm :: "(('w::len word \<times> nat) \<times> u32) list \<Rightarrow> 'w word \<times> nat \<Rightarrow> (('w word \<times> nat) \<times> u32) option" where
  "ref_lpm m h =
     (case filter (\<lambda>c. ref_contains (fst c) (fst h)) (rev m) of
        [] \<Rightarrow> None
      | c # cs \<Rightarrow> Some (foldl longer c cs))"

definition ref_net :: "nat \<Rightarrow> (string \<Rightarrow> 'a option) \<Rightarrow> string \<Rightarrow> ('a \<times> nat) option" where
  "ref_net width addr s =
     (case split_once (CHR ''/'') s of
        None \<Rightarrow> None
      | Some (a, l) \<Rightarrow>
          (case (addr a, parse_uint (width + 1) l) of
             (Some ip, Some len) \<Rightarrow> Some (ip, len)
           | _ \<Rightarrow> None))"

definition ext_ref :: ext where
  "ext_ref =
     \<lparr>ext_parse_net4 = ref_net 32 parse_ipv4, ext_parse_net6 = ref_net 128 parse_ipv6,
      ext_parse_net = (\<lambda>s. case ref_net 32 parse_ipv4 s of
                            Some n \<Rightarrow> Some (Net4 n)
                          | None \<Rightarrow> map_option Net6 (ref_net 128 parse_ipv6 s)),
      ext_net4_contains = ref_contains, ext_net6_contains = ref_contains,
      ext_net_contains = (\<lambda>n ip. case (n, ip) of
                                   (Net4 m, V4 a) \<Rightarrow> ref_contains m a
                                 | (Net6 m, V6 a) \<Rightarrow> ref_contains m a
                                 | _ \<Rightarrow> False),
      ext_net4_trunc = ref_trunc, ext_net6_trunc = ref_trunc,
      ext_pm4_get = ref_get, ext_pm6_get = ref_get,
      ext_pm4_get_lpm = ref_lpm, ext_pm6_get_lpm = ref_lpm,
      ext_regex_new = (\<lambda>_. None),
      ext_regex_is_match = (\<lambda>p s. Some (str_contains p s))\<rparr>"

lemma drop_push_bit: "drop_bit n (push_bit n (drop_bit n w)) = drop_bit n (w :: 'w::len word)"
  by (rule bit_word_eqI) (auto simp: bit_simps dest: bit_imp_le_length)

lemma foldl_longer:
  "foldl longer c cs \<in> set (c # cs) \<and> (\<forall>d\<in>set (c # cs). snd (fst d) \<le> snd (fst (foldl longer c cs)))"
proof (induction cs arbitrary: c)
  case (Cons d cs)
  show ?case using Cons.IH[of "longer c d"] by (auto simp: longer_def split: if_splits)
qed simp

lemma foldl_longer_first:
  assumes "\<forall>p\<in>set (c # cs). \<forall>q\<in>set (c # cs). snd (fst p) = snd (fst q) \<longrightarrow> fst p = fst q"
  shows "map_of (c # cs) (fst (foldl longer c cs)) = Some (snd (foldl longer c cs))"
  using assms
proof (induction cs arbitrary: c)
  case (Cons d cs)
  show ?case
  proof (cases "snd (fst c) < snd (fst d)")
    case True
    then have "foldl longer c (d # cs) = foldl longer d cs" by (simp add: longer_def)
    moreover have "snd (fst d) \<le> snd (fst (foldl longer d cs))" using foldl_longer[of d cs] by simp
    then have "fst (foldl longer d cs) \<noteq> fst c" using True by (metis not_less)
    moreover have "map_of (d # cs) (fst (foldl longer d cs)) = Some (snd (foldl longer d cs))"
      by (rule Cons.IH) (use Cons.prems in auto)
    ultimately show ?thesis by (cases c) auto
  next
    case False
    then have l: "foldl longer c (d # cs) = foldl longer c cs" by (simp add: longer_def)
    have ih: "map_of (c # cs) (fst (foldl longer c cs)) = Some (snd (foldl longer c cs))"
      by (rule Cons.IH) (use Cons.prems in auto)
    show ?thesis
    proof (cases "fst (foldl longer c cs) = fst c")
      case True
      then have "map_of (c # d # cs) (fst (foldl longer c cs)) = map_of (c # cs) (fst (foldl longer c cs))"
        by (cases c) auto
      with ih l show ?thesis by simp
    next
      case ne: False
      have "fst (foldl longer c cs) \<noteq> fst d"
      proof
        assume eq: "fst (foldl longer c cs) = fst d"
        have "snd (fst c) \<le> snd (fst (foldl longer c cs))" using foldl_longer[of c cs] by auto
        with eq False have len: "snd (fst c) = snd (fst d)" by (metis le_antisym not_less)
        have "c \<in> set (c # d # cs)" "d \<in> set (c # d # cs)" by simp_all
        with Cons.prems len have "fst c = fst d" by blast
        with eq ne show False by simp
      qed
      then have "map_of (c # d # cs) (fst (foldl longer c cs)) = map_of (c # cs) (fst (foldl longer c cs))"
        using ne by (cases c, cases d) auto
      with ih l show ?thesis by simp
    qed
  qed
qed (auto)

lemma ref_same_net:
  "ref_contains n a \<Longrightarrow> ref_contains n' a \<Longrightarrow> snd n = snd n' \<Longrightarrow> ref_trunc n = ref_trunc n'"
  by (simp add: ref_contains_def ref_trunc_def)

lemma map_of_filter_key:
  "P k \<Longrightarrow> map_of (filter (\<lambda>c. P (fst c)) m) k = map_of m k"
  by (induction m) auto

lemma ref_trie: "prefix_trie ref_trunc ref_contains snd (\<lambda>a. (a :: 'w::len word, l)) ref_get ref_lpm"
proof (unfold_locales, goal_cases)
  case (6 m p e q)
  then show ?case by (auto simp: ref_get_def)
next
  case (7 m a p e)
  let ?cs = "filter (\<lambda>c. ref_contains (fst c) a) (rev m)"
  from 7(2) obtain c cs where cs: "?cs = c # cs" and pe: "(p, e) = foldl longer c cs"
    by (auto simp: ref_lpm_def split: list.splits)
  have trs: "ref_trunc (fst d) = fst d \<and> ref_contains (fst d) a" if "d \<in> set (c # cs)" for d
    using that 7(1) unfolding cs[symmetric] by auto
  have "\<forall>d\<in>set (c # cs). \<forall>d'\<in>set (c # cs). snd (fst d) = snd (fst d') \<longrightarrow> fst d = fst d'"
    using trs ref_same_net by metis
  from foldl_longer_first[OF this] have "map_of ?cs p = Some e" unfolding cs pe[symmetric] by simp
  moreover have p: "ref_trunc p = p \<and> ref_contains p a" using trs[of "(p, e)"] foldl_longer[of c cs] unfolding pe[symmetric] by simp
  ultimately have "ref_get m p = Some e"
    using map_of_filter_key[of "\<lambda>n. ref_contains n a" p "rev m"] by (simp add: ref_get_def)
  moreover have "snd q \<le> snd p" if "ref_get m (ref_trunc q) \<noteq> None" "ref_contains q a" for q
  proof -
    from that(1) obtain e' where "ref_get m (ref_trunc q) = Some e'" by (auto simp del: split_paired_All)
    from map_of_SomeD[OF this[unfolded ref_get_def]] have "(ref_trunc q, e') \<in> set ?cs"
      using that(2) by (simp add: ref_contains_def ref_trunc_def drop_push_bit)
    then have "snd (fst (ref_trunc q, e')) \<le> snd (fst (foldl longer c cs))"
      using foldl_longer[of c cs] unfolding cs by blast
    then show ?thesis unfolding pe[symmetric] by (simp add: ref_trunc_def)
  qed
  ultimately show ?case using p by blast
next
  case (8 m a q)
  have "(ref_trunc q, e) \<notin> set m" if "ref_contains q a" for e
  proof
    assume "(ref_trunc q, e) \<in> set m"
    then have "(ref_trunc q, e) \<in> set (filter (\<lambda>c. ref_contains (fst c) a) (rev m))"
      using that by (simp add: ref_contains_def ref_trunc_def drop_push_bit)
    moreover have "filter (\<lambda>c. ref_contains (fst c) a) (rev m) = []"
      using 8(2) by (auto simp: ref_lpm_def split: list.splits)
    ultimately show False by (metis empty_iff empty_set)
  qed
  then show ?case unfolding ref_get_def
    by (cases "map_of (rev m) (ref_trunc q)") (auto dest: map_of_SomeD)
qed (auto simp: ref_trunc_def ref_contains_def ref_get_def drop_push_bit)

interpretation ext_ref: ext_laws ext_ref
  using ref_trie[of 32] ref_trie[of 128] by (simp add: ext_laws_def ext_ref_def)

section \<open>What the index answers\<close>

definition net_contains :: "ext \<Rightarrow> ip_net \<Rightarrow> ip_addr \<Rightarrow> bool" where
  "net_contains x n ip =
     (case (n, ip) of
        (Net4 m, V4 a) \<Rightarrow> ext_net4_contains x m a
      | (Net6 m, V6 a) \<Rightarrow> ext_net6_contains x m a
      | _ \<Rightarrow> False)"

fun prefix_len :: "ip_net \<Rightarrow> nat" where
  "prefix_len (Net4 n) = snd n"
| "prefix_len (Net6 n) = snd n"

definition index_adds :: "ext \<Rightarrow> (ip_net \<times> u32) list \<Rightarrow> ip_index" where
  "index_adds x adds = foldl (\<lambda>idx (n, e). add_net x n e idx) ip_index_default adds"

definition nets4 :: "(ip_net \<times> u32) list \<Rightarrow> (ipv4_net \<times> u32) list" where
  "nets4 adds = concat (map (\<lambda>(n, e). case n of Net4 m \<Rightarrow> [(m, e)] | Net6 _ \<Rightarrow> []) adds)"

definition nets6 :: "(ip_net \<times> u32) list \<Rightarrow> (ipv6_net \<times> u32) list" where
  "nets6 adds = concat (map (\<lambda>(n, e). case n of Net6 m \<Rightarrow> [(m, e)] | Net4 _ \<Rightarrow> []) adds)"

lemma ix_add:
  "ix_v4 (add_v4 x n e idx) = trie_add (ext_net4_trunc x) (ext_pm4_get x) (ix_v4 idx) (n, e)"
  "ix_v6 (add_v4 x n e idx) = ix_v6 idx"
  "ix_v6 (add_v6 x m e idx) = trie_add (ext_net6_trunc x) (ext_pm6_get x) (ix_v6 idx) (m, e)"
  "ix_v4 (add_v6 x m e idx) = ix_v4 idx"
  by (auto simp: add_v4_def add_v6_def trie_add_def Let_def split: option.splits)

lemma ix_adds:
  "ix_v4 (index_adds x adds) = foldl (trie_add (ext_net4_trunc x) (ext_pm4_get x)) [] (nets4 adds) \<and>
   ix_v6 (index_adds x adds) = foldl (trie_add (ext_net6_trunc x) (ext_pm6_get x)) [] (nets6 adds)"
proof (induction adds rule: rev_induct)
  case (snoc ne adds)
  then show ?case
    by (cases ne rule: prod.exhaust; cases "fst ne"; simp add: index_adds_def nets4_def nets6_def ix_add)
qed (simp add: index_adds_def nets4_def nets6_def ip_index_default_def)

lemma set_nets:
  "(m, e) \<in> set (nets4 adds) \<longleftrightarrow> (Net4 m, e) \<in> set adds"
  "(k, e) \<in> set (nets6 adds) \<longleftrightarrow> (Net6 k, e) \<in> set adds"
proof -
  show "(m, e) \<in> set (nets4 adds) \<longleftrightarrow> (Net4 m, e) \<in> set adds"
    by (induction adds) (auto simp: nets4_def simp del: split_paired_Ex split_paired_All split: ip_net.splits)
  show "(k, e) \<in> set (nets6 adds) \<longleftrightarrow> (Net6 k, e) \<in> set adds"
    by (induction adds) (auto simp: nets6_def simp del: split_paired_Ex split_paired_All split: ip_net.splits)
qed

text \<open>
  C12. The index answers what a scan of the added networks would: nothing when none of them
  contains the address, and otherwise the entry of a longest one that does, the least entry
  where the same network was added several times. What the trie crates promise is assumed.
\<close>

theorem ip_lookup_correct:
  assumes "ext_laws x"
  shows "case ip_lookup x (index_adds x adds) ip of
      None \<Rightarrow> \<forall>(n, e)\<in>set adds. \<not> net_contains x n ip
    | Some e \<Rightarrow> \<exists>n. (n, e) \<in> set adds \<and> net_contains x n ip \<and>
        (\<forall>(n', e')\<in>set adds. net_contains x n' ip \<longrightarrow>
           prefix_len n' \<le> prefix_len n \<and> (prefix_len n' = prefix_len n \<longrightarrow> e \<le> e'))"
proof (cases ip)
  case (V4 a)
  have sel: "net_contains x n (V4 a) \<longleftrightarrow> (\<exists>m. n = Net4 m \<and> ext_net4_contains x m a)" for n
    by (simp add: net_contains_def split: ip_net.splits)
  show ?thesis
    using prefix_trie.longest_match[OF ext_laws.trie4[OF assms], of "nets4 adds" a]
    unfolding V4 ip_lookup.simps lookup_v4_def ix_adds[THEN conjunct1] sel set_nets
    by (cases "ext_pm4_get_lpm x (foldl (trie_add (ext_net4_trunc x) (ext_pm4_get x)) [] (nets4 adds)) (a, 32)")
       (force simp del: split_paired_Ex split_paired_All)+
next
  case (V6 a)
  have sel: "net_contains x n (V6 a) \<longleftrightarrow> (\<exists>m. n = Net6 m \<and> ext_net6_contains x m a)" for n
    by (simp add: net_contains_def split: ip_net.splits)
  show ?thesis
    using prefix_trie.longest_match[OF ext_laws.trie6[OF assms], of "nets6 adds" a]
    unfolding V6 ip_lookup.simps lookup_v6_def ix_adds[THEN conjunct2] sel set_nets
    by (cases "ext_pm6_get_lpm x (foldl (trie_add (ext_net6_trunc x) (ext_pm6_get x)) [] (nets6 adds)) (a, 128)")
       (force simp del: split_paired_Ex split_paired_All)+
qed

theorem ip_lookup_correct_witness:
  "ext_laws ext_ref \<and>
   ip_lookup ext_ref (index_adds ext_ref [(Net4 (0x0A000000, 8), 3), (Net4 (0x0A010000, 16), 5)])
     (V4 0x0A010203) = Some 5 \<and>
   net_contains ext_ref (Net4 (0x0A010000, 16)) (V4 0x0A010203)"
proof -
  let ?adds = "[(Net4 (0x0A000000, 8), 3), (Net4 (0x0A010000, 16), 5)]"
  have l: "ip_lookup ext_ref (index_adds ext_ref ?adds) (V4 0x0A010203) = Some 5" by code_simp
  from ip_lookup_correct[OF ext_ref.ext_laws_axioms, of ?adds "V4 0x0A010203"] l
  show ?thesis by (auto simp: ext_ref.ext_laws_axioms)
qed

end
