(* ===== verification/Rurge_Rule_Facts.thy ===== *)
theory Rurge_Rule_Facts
  imports Rurge_Rule Rurge_Ip_Index
begin

text \<open>
  What the parser of rules guarantees: the contract \<open>kind_property\<close> carries a property of
  the kinds without sub-rules to every kind the mutually recursive parser returns; it is
  interpreted for "names no local file" and for "well formed". The nesting bound has its own
  induction, and \<open>parse_rule\<close> is shown to keep what the engine relies on.
\<close>

section \<open>Properties of rule kinds\<close>

fun is_file :: "resource_ref \<Rightarrow> bool" where
  "is_file (RFile _) = True"
| "is_file _ = False"

text \<open>Whether a kind, or a sub-rule nested in it at any depth, refers to a local file.\<close>

fun names_file :: "rule_kind \<Rightarrow> bool" where
  "names_file (KDomainSet r) = is_file r"
| "names_file (KRuleSet r) = is_file r"
| "names_file (KAnd subs) = list_ex (\<lambda>s. names_file (sub_kind s)) subs"
| "names_file (KOr subs) = list_ex (\<lambda>s. names_file (sub_kind s)) subs"
| "names_file (KNot sub) = names_file (sub_kind sub)"
| "names_file _ = False"

text \<open>No FINAL, every logical rule has a sub-rule.\<close>

fun kind_wf :: "rule_kind \<Rightarrow> bool" where
  "kind_wf KFinal = False"
| "kind_wf (KAnd subs) = (subs \<noteq> [] \<and> list_all (\<lambda>s. kind_wf (sub_kind s)) subs)"
| "kind_wf (KOr subs) = (subs \<noteq> [] \<and> list_all (\<lambda>s. kind_wf (sub_kind s)) subs)"
| "kind_wf (KNot sub) = kind_wf (sub_kind sub)"
| "kind_wf _ = True"

fun kind_depth :: "rule_kind \<Rightarrow> nat" where
  "kind_depth (KAnd subs) = Suc (foldr max (map (\<lambda>s. kind_depth (sub_kind s)) subs) 0)"
| "kind_depth (KOr subs) = Suc (foldr max (map (\<lambda>s. kind_depth (sub_kind s)) subs) 0)"
| "kind_depth (KNot sub) = Suc (kind_depth (sub_kind sub))"
| "kind_depth _ = 0"

lemma foldr_max_le: "(\<forall>n\<in>set ns. n \<le> b) \<Longrightarrow> foldr max ns 0 \<le> (b::nat)"
  by (induction ns) auto

lemma sub_flags_kind: "sub_flags s fl = Inr s' \<Longrightarrow> sub_kind s' = sub_kind s"
  by (induction s fl rule: sub_flags.induct) (auto simp: Let_def split: sub_rule.splits if_splits)

lemma ok_or_Inr: "ok_or e r = Inr y \<longleftrightarrow> r = Some y"
  by (cases r) (auto simp: ok_or_def)

section \<open>From the leaves to every kind\<close>

locale kind_property =
  fixes x :: ext and ctx :: parse_ctx and Q :: "rule_kind \<Rightarrow> bool"
  assumes leaf: "parse_leaf_kind x ty v ctx = Inr k \<Longrightarrow> Q k"
    and conj: "subs \<noteq> [] \<Longrightarrow> list_all (\<lambda>s. Q (sub_kind s)) subs \<Longrightarrow> Q (KAnd subs)"
    and disj: "subs \<noteq> [] \<Longrightarrow> list_all (\<lambda>s. Q (sub_kind s)) subs \<Longrightarrow> Q (KOr subs)"
    and neg: "Q (sub_kind s) \<Longrightarrow> Q (KNot s)"
begin

lemma parsed_step:
  "parse_kind x' ctx' d ty v = Inr k \<Longrightarrow> x' = x \<Longrightarrow> ctx' = ctx \<Longrightarrow> Q k"
  "parse_logical_value x' ctx' d v = Inr subs \<Longrightarrow> x' = x \<Longrightarrow> ctx' = ctx \<Longrightarrow>
     subs \<noteq> [] \<and> list_all (\<lambda>s. Q (sub_kind s)) subs"
  "parse_subs x' ctx' d items = Inr subs \<Longrightarrow> x' = x \<Longrightarrow> ctx' = ctx \<Longrightarrow>
     list_all (\<lambda>s. Q (sub_kind s)) subs"
  "parse_subrule_depth x' ctx' d raw = Inr s \<Longrightarrow> x' = x \<Longrightarrow> ctx' = ctx \<Longrightarrow> Q (sub_kind s)"
proof (induction x' ctx' d ty v and x' ctx' d v and x' ctx' d items and x' ctx' d raw
    arbitrary: k and subs and subs and s
    rule: parse_kind_parse_logical_value_parse_subs_parse_subrule_depth.induct)
  case (1 x' ctx' d ty v)
  then show ?case
    by (auto simp: parse_kind.simps[of x ctx] split: if_splits sum.splits list.splits
        intro: leaf conj disj neg)
next
  case (2 x' ctx' d v)
  then show ?case
    by (auto simp: parse_logical_value.simps[of x ctx] split: if_splits sum.splits option.splits)
next
  case (4 x' ctx' d item items)
  then show ?case by (auto split: option.splits sum.splits)
next
  case (5 x' ctx' d raw)
  then show ?case
    by (auto simp: parse_subrule_depth.simps[of x ctx] Let_def split: list.splits if_splits sum.splits
        dest: sub_flags_kind)
qed auto

lemmas parsed_kind = parsed_step(1) [OF _ refl refl]
lemmas parsed_subrule = parsed_step(4) [OF _ refl refl]

end

lemma parse_leaf_kind_cases:
  assumes "parse_leaf_kind x ty v ctx = Inr k"
  shows "kind_wf k" "names_file k \<Longrightarrow> pc_reach ctx = Anywhere" "kind_depth k = 0"
proof -
  have ext: "is_file r \<Longrightarrow> pc_reach ctx = Anywhere" if "resource_parse_external v' ctx = Inr r" for v' r
    using that by (cases "pc_reach ctx") (auto simp: resource_parse_external_def Let_def split: if_splits)
  have any: "is_file r \<Longrightarrow> pc_reach ctx = Anywhere" if "resource_parse v ctx = Inr r" for r
    using that ext by (auto simp: resource_parse_def Let_def split: if_splits list.splits)
  show "kind_wf k" "kind_depth k = 0" "names_file k \<Longrightarrow> pc_reach ctx = Anywhere"
    using assms ext any unfolding parse_leaf_kind_def Let_def
    by (auto simp: map_sum_Inr ok_or_Inr split: if_splits option.splits)
qed

interpretation no_file: kind_property x ctx "\<lambda>k. pc_reach ctx = Anywhere \<or> \<not> names_file k" for x ctx
  by unfold_locales (auto simp: list_all_iff list_ex_iff dest: parse_leaf_kind_cases(2))

interpretation well_formed: kind_property x ctx kind_wf for x ctx
  by unfold_locales (auto dest: parse_leaf_kind_cases(1))

lemma parsed_depth:
  "parse_kind x ctx d ty v = Inr k \<Longrightarrow> kind_depth k \<le> Suc MAX_LOGICAL_DEPTH - d"
  "parse_logical_value x ctx d v = Inr subs \<Longrightarrow> d \<le> MAX_LOGICAL_DEPTH \<and>
     (\<forall>s\<in>set subs. kind_depth (sub_kind s) \<le> MAX_LOGICAL_DEPTH - d)"
  "parse_subs x ctx d items = Inr subs \<Longrightarrow>
     \<forall>s\<in>set subs. kind_depth (sub_kind s) \<le> MAX_LOGICAL_DEPTH - d"
  "parse_subrule_depth x ctx d raw = Inr s \<Longrightarrow> kind_depth (sub_kind s) \<le> Suc MAX_LOGICAL_DEPTH - d"
proof (induction x ctx d ty v and x ctx d v and x ctx d items and x ctx d raw
    arbitrary: k and subs and subs and s
    rule: parse_kind_parse_logical_value_parse_subs_parse_subrule_depth.induct)
  case (1 x ctx d ty v)
  show ?case
  proof (cases "ty = ''AND'' \<or> ty = ''OR'' \<or> ty = ''NOT''")
    case True
    with "1.prems" obtain subs where p: "parse_logical_value x ctx d v = Inr subs"
      and k: "k = KAnd subs \<or> k = KOr subs \<or> (\<exists>s. subs = [s] \<and> k = KNot s)"
      by (auto simp: parse_kind.simps[of x ctx] split: sum.splits if_splits list.splits)
    from "1.IH"[OF True p] have d: "d \<le> MAX_LOGICAL_DEPTH"
      and b: "\<forall>s\<in>set subs. kind_depth (sub_kind s) \<le> MAX_LOGICAL_DEPTH - d" by auto
    then have "foldr max (map (\<lambda>s. kind_depth (sub_kind s)) subs) 0 \<le> MAX_LOGICAL_DEPTH - d"
      by (intro foldr_max_le) auto
    with k d b show ?thesis by auto
  next
    case False
    with "1.prems" show ?thesis
      by (auto simp: parse_kind.simps[of x ctx] dest: parse_leaf_kind_cases(3))
  qed
next
  case (2 x ctx d v)
  then show ?case
    by (auto simp: parse_logical_value.simps[of x ctx] split: if_splits sum.splits option.splits)
next
  case (4 x ctx d item items)
  then show ?case by (fastforce split: option.splits sum.splits)
next
  case (5 x ctx d raw)
  then show ?case
    by (auto simp: parse_subrule_depth.simps[of x ctx] Let_def split: list.splits if_splits sum.splits
        dest: sub_flags_kind)
qed auto

section \<open>What a parsed rule is\<close>

lemma parse_rule_cases:
  assumes "parse_rule x ctx raw = Inr r"
  shows "(\<exists>ty v. parse_kind x ctx 1 ty v = Inr (r_kind r)) \<or> r_kind r = KFinal"
    and "rp_pre_matching (r_params r) \<Longrightarrow> is_reject_policy (r_policy r) \<and> supports_pre_matching (r_kind r)"
proof -
  show "(\<exists>ty v. parse_kind x ctx 1 ty v = Inr (r_kind r)) \<or> r_kind r = KFinal"
    using assms
    by (auto simp: parse_rule_def Let_def map_sum_Inr split: list.splits if_splits sum.splits) blast+
  show "rp_pre_matching (r_params r) \<Longrightarrow> is_reject_policy (r_policy r) \<and> supports_pre_matching (r_kind r)"
    using assms
    by (auto simp: parse_rule_def Let_def map_sum_Inr split: list.splits if_splits sum.splits)
qed

text \<open>
  C13. A line of downloaded text, whether of a managed profile's copy or of a remote include,
  never makes a rule that refers to a file of this machine: not itself, and not in a sub-rule
  nested in it at any depth.
\<close>

theorem downloaded_rule_names_no_file:
  assumes "parse_rule x ctx raw = Inr r" and "pc_reach ctx \<noteq> Anywhere"
  shows "\<not> names_file (r_kind r)"
  using parse_rule_cases(1)[OF assms(1)] no_file.parsed_kind assms(2) by fastforce

text \<open>
  A rule flagged \<open>pre-matching\<close> that the parser accepts has a policy of the REJECT family
  and a kind the flag is allowed on, sub-rules included.
\<close>

theorem pre_matching_rule_rejects:
  assumes "parse_rule x ctx raw = Inr r" and "rp_pre_matching (r_params r)"
  shows "is_reject_policy (r_policy r) \<and> supports_pre_matching (r_kind r)"
  using parse_rule_cases(2)[OF assms] .

text \<open>
  A rule the parser accepts nests logical rules at most ten deep, has no FINAL below its
  top and no logical rule without sub-rules. With the total definition of the parser this is
  why neither parsing nor evaluating a hostile line runs away.
\<close>

theorem parsed_rule_bounded:
  assumes "parse_rule x ctx raw = Inr r"
  shows "kind_depth (r_kind r) \<le> MAX_LOGICAL_DEPTH \<and> (r_kind r = KFinal \<or> kind_wf (r_kind r))"
  using parse_rule_cases(1)[OF assms] parsed_depth(1)[of x ctx 1 _ _ "r_kind r"]
    well_formed.parsed_kind[of x ctx 1 _ _ "r_kind r"]
  by auto

section \<open>A line read\<close>

lemmas parse_eval = split_fields_def item_spans_def slice_def read_field_def trim_def trim_start_def trim_end_def
  drop_end_while_def wholly_quoted_def map_filter_def is_whitespace_def code_def Let_def split_list_def
  to_ascii_uppercase_def to_ascii_uppercase_char_def is_ascii_lower_def
  to_ascii_lowercase_def to_ascii_lowercase_char_def is_ascii_upper_def

definition plain_field :: "string \<Rightarrow> field" where
  "plain_field t = \<lparr>f_text = t, f_param = None\<rparr>"

lemma demo_fields:
  "split_fields ''NOT,((DOMAIN,a)),REJECT,pre-matching'' =
     map plain_field [''NOT'', ''((DOMAIN,a))'', ''REJECT'', ''pre-matching'']"
  "split_fields ''(DOMAIN,a)'' = map plain_field [''(DOMAIN,a)'']"
  "split_fields ''DOMAIN,a'' = map plain_field [''DOMAIN'', ''a'']"
  by (simp_all add: parse_eval plain_field_def)

lemma demo_leaf: "parse_leaf_kind x ''DOMAIN'' ''a'' ctx = Inr (KDomain ''a'')"
  by (simp add: parse_leaf_kind_def trim_end_matches_def parse_eval)

lemma demo_kind:
  "parse_kind x ctx 1 ''NOT'' ''((DOMAIN,a))'' = Inr (KNot (SubRule (KDomain ''a'') False False [] ''DOMAIN,a''))"
  by (simp add: parse_kind.simps parse_logical_value.simps parse_subrule_depth.simps split_list_def demo_fields
      demo_leaf plain_field_def MAX_LOGICAL_DEPTH_def unwrap_parens_def strip_prefix_def strip_suffix_def
      starts_with_def ends_with_def shown_line_def trim_def trim_start_def trim_end_def drop_end_while_def
      is_whitespace_def code_def to_ascii_uppercase_def to_ascii_uppercase_char_def is_ascii_lower_def Let_def)

definition demo_ctx :: parse_ctx where
  "demo_ctx = \<lparr>pc_inline_rulesets = [], pc_base_dir = '''', pc_reach = Nowhere\<rparr>"

definition demo_rule :: rule where
  "demo_rule =
     \<lparr>r_kind = KNot (SubRule (KDomain ''a'') False False [] ''DOMAIN,a''), r_policy = PBuiltin Reject,
      r_params = rule_params_default\<lparr>rp_pre_matching := True\<rparr>, r_raw = ''NOT,((DOMAIN,a)),REJECT,pre-matching''\<rparr>"

lemma demo_parse: "parse_rule ext_ref demo_ctx ''NOT,((DOMAIN,a)),REJECT,pre-matching'' = Inr demo_rule"
proof -
  have p: "rule_params_parse [plain_field ''pre-matching''] = rule_params_default\<lparr>rp_pre_matching := True\<rparr>"
    by (simp add: rule_params_parse_def param_step_def plain_field_def parse_eval)
  have q: "policy_ref_parse ''REJECT'' = PBuiltin Reject"
    by (simp add: policy_ref_parse_def builtin_parse_def builtin_names_def parse_eval)
  have u: "to_ascii_uppercase ''NOT'' = ''NOT''" "trim ''NOT,((DOMAIN,a)),REJECT,pre-matching'' = ''NOT,((DOMAIN,a)),REJECT,pre-matching''"
    by (simp_all add: parse_eval)
  show ?thesis
    using demo_kind[of ext_ref demo_ctx]
    by (simp add: parse_rule_def demo_fields Let_def p q u plain_field_def[of "''NOT''"] plain_field_def[of "''((DOMAIN,a))''"]
        plain_field_def[of "''REJECT''"] is_reject_policy_def shown_line_def demo_rule_def)
qed

theorem downloaded_rule_names_no_file_witness:
  "parse_rule ext_ref demo_ctx ''NOT,((DOMAIN,a)),REJECT,pre-matching'' = Inr demo_rule \<and>
   pc_reach demo_ctx \<noteq> Anywhere \<and> \<not> names_file (r_kind demo_rule)"
proof -
  have "pc_reach demo_ctx \<noteq> Anywhere" by (simp add: demo_ctx_def)
  then show ?thesis using downloaded_rule_names_no_file[OF demo_parse] demo_parse by blast
qed

theorem pre_matching_rule_rejects_witness:
  "parse_rule ext_ref demo_ctx ''NOT,((DOMAIN,a)),REJECT,pre-matching'' = Inr demo_rule \<and>
   rp_pre_matching (r_params demo_rule) \<and> supports_pre_matching (r_kind demo_rule)"
proof -
  have "rp_pre_matching (r_params demo_rule)" by (simp add: demo_rule_def)
  then show ?thesis using pre_matching_rule_rejects[OF demo_parse] demo_parse by blast
qed

theorem parsed_rule_bounded_witness:
  "parse_rule ext_ref demo_ctx ''NOT,((DOMAIN,a)),REJECT,pre-matching'' = Inr demo_rule \<and>
   kind_depth (r_kind demo_rule) \<le> MAX_LOGICAL_DEPTH \<and> kind_wf (r_kind demo_rule)"
  using parsed_rule_bounded[OF demo_parse] demo_parse by (auto simp: demo_rule_def)

end
