(* ===== verification/Rurge_Matcher.thy ===== *)
theory Rurge_Matcher
  imports Rurge_Rule
begin

text \<open>
  Per-rule matching, \<^verbatim>\<open>crates/rurge-rules/src/matcher.rs\<close>: the context of one evaluation, the
  compiled matchers and their evaluation. A set is reached through a handle, and evaluating
  one is a call the matchers are parametrised by, as they are by \<open>SetMatch\<close> in the code; the
  sets themselves are in the theory of the compiled sets.
\<close>

section \<open>The context of an evaluation\<close>

datatype verdict = Match | NoMatch | NeedsResolve | NeedsProcess | NeedsConnection

definition verdict_of :: "bool \<Rightarrow> verdict" where
  "verdict_of b = (if b then Match else NoMatch)"

record resolved_addrs =
  ra_v4 :: "ipv4_addr list"
  ra_v6 :: "ipv6_addr list"

datatype 'a geo_result = NotLoaded | Unknown | Known 'a

record geo_lookup =
  geo_country :: "ip_addr \<Rightarrow> (u8 \<times> u8) geo_result"
  geo_asn :: "ip_addr \<Rightarrow> u32 geo_result"

definition no_geo :: geo_lookup where
  "no_geo = \<lparr>geo_country = (\<lambda>_. NotLoaded), geo_asn = (\<lambda>_. NotLoaded)\<rparr>"

record sub_rule_hit =
  srh_set :: string
  srh_entry :: string

datatype process_state = NotAsked | Asked "process_info option"

record eval_ctx =
  ec_resolved :: "resolved_addrs option"
  ec_process :: process_state
  ec_notes :: "string list"
  ec_sub_hit :: "sub_rule_hit option"
  ec_before_connection :: bool
  ec_geo :: geo_lookup
  ec_network :: "(network_facts \<times> bool) option"
  ec_country_cache :: "(ip_addr \<times> (u8 \<times> u8) geo_result) option"
  ec_asn_cache :: "(ip_addr \<times> u32 geo_result) option"
  ec_set_depth :: nat

definition eval_ctx_new :: "geo_lookup \<Rightarrow> eval_ctx" where
  "eval_ctx_new geo =
     \<lparr>ec_resolved = None, ec_process = NotAsked, ec_notes = [], ec_sub_hit = None,
      ec_before_connection = False, ec_geo = geo, ec_network = None, ec_country_cache = None,
      ec_asn_cache = None, ec_set_depth = 0\<rparr>"

definition with_network :: "geo_lookup \<Rightarrow> network_facts \<Rightarrow> bool \<Rightarrow> eval_ctx" where
  "with_network geo facts wifi_always_match =
     (eval_ctx_new geo)\<lparr>ec_network := Some (facts, wifi_always_match)\<rparr>"

definition ctx_country :: "ip_addr \<Rightarrow> eval_ctx \<Rightarrow> (u8 \<times> u8) geo_result \<times> eval_ctx" where
  "ctx_country ip ctx =
     (case ec_country_cache ctx of
        Some (cached_ip, cc) \<Rightarrow>
          if cached_ip = ip then (cc, ctx)
          else let cc = geo_country (ec_geo ctx) ip in (cc, ctx\<lparr>ec_country_cache := Some (ip, cc)\<rparr>)
      | None \<Rightarrow> let cc = geo_country (ec_geo ctx) ip in (cc, ctx\<lparr>ec_country_cache := Some (ip, cc)\<rparr>))"

definition ctx_asn :: "ip_addr \<Rightarrow> eval_ctx \<Rightarrow> u32 geo_result \<times> eval_ctx" where
  "ctx_asn ip ctx =
     (case ec_asn_cache ctx of
        Some (cached_ip, asn) \<Rightarrow>
          if cached_ip = ip then (asn, ctx)
          else let asn = geo_asn (ec_geo ctx) ip in (asn, ctx\<lparr>ec_asn_cache := Some (ip, asn)\<rparr>)
      | None \<Rightarrow> let asn = geo_asn (ec_geo ctx) ip in (asn, ctx\<lparr>ec_asn_cache := Some (ip, asn)\<rparr>))"

text \<open>What the branches of a logical rule leave of the hit found on entry.\<close>

definition in_branches :: "(eval_ctx \<Rightarrow> verdict \<times> eval_ctx) \<Rightarrow> eval_ctx \<Rightarrow> verdict \<times> eval_ctx" where
  "in_branches ev ctx =
     (let found = ec_sub_hit ctx in
      case ev (ctx\<lparr>ec_sub_hit := None\<rparr>) of
        (verdict, ctx') \<Rightarrow>
          (verdict,
           if verdict \<noteq> Match \<or> ec_sub_hit ctx' = None then ctx'\<lparr>ec_sub_hit := found\<rparr> else ctx'))"

section \<open>Matchers\<close>

type_synonym set_handle = nat

datatype matcher =
    MDomain string | MDomainSuffix string | MDomainKeyword string | MDomainWildcard glob
  | MIpCidr ipv4_net | MIpCidr6 ipv6_net | MGeoIp "u8 \<times> u8" | MGeoIpUnknown | MIpAsn u32
  | MIpAsnUnknown | MUserAgent glob | MUrlRegex pattern | MProcessName process_pattern
  | MDestPort port_expr | MSrcPort port_expr | MInPort port_expr | MSrcIp ip_net
  | MProtocol protocol_kind | MHostnameType hostname_type | MSubnet subnet_expr
  | MAnd "compiled_sub list" | MOr "compiled_sub list" | MNot compiled_sub
  | MSet set_handle | MUnsupported string | MNever | MFinal
and compiled_sub =
  CompiledSub (cs_matcher: matcher) (cs_no_resolve: bool) (cs_extended: bool) (cs_raw: string)

datatype set_kind = RuleSetKind | DomainSetKind

text \<open>A set is looked up while a profile is compiled; the lookup gives its handle.\<close>

type_synonym set_lookup = "resource_ref \<Rightarrow> set_kind \<Rightarrow> set_handle"

definition normalize_process_path_for :: "bool \<Rightarrow> string \<Rightarrow> string" where
  "normalize_process_path_for windows path =
     (if windows then to_ascii_lowercase (map (\<lambda>c. if c = CHR ''/'' then CHR 0x5C else c) path)
      else path)"

definition compile_process_pattern :: "bool \<Rightarrow> process_pattern \<Rightarrow> process_pattern" where
  "compile_process_pattern windows p =
     (case p of
        PPath g \<Rightarrow>
          (case glob_new (normalize_process_path_for windows (g_source g))
                  \<lparr>case_insensitive = windows, classes = False\<rparr> of
             Inl _ \<Rightarrow> PPath g | Inr g' \<Rightarrow> PPath g')
      | PName g \<Rightarrow>
          if windows then
            (case glob_new (g_source g) \<lparr>case_insensitive = True, classes = False\<rparr> of
               Inl _ \<Rightarrow> PName g | Inr g' \<Rightarrow> PName g')
          else PName g
      | PPrefix s \<Rightarrow> PPrefix s)"

definition process_matches_for :: "bool \<Rightarrow> process_pattern \<Rightarrow> process_info \<Rightarrow> bool" where
  "process_matches_for windows pattern p =
     (case pattern of
        PName g \<Rightarrow> glob_matches g (pi_name p)
      | PPath g \<Rightarrow>
          (case pi_path p of
             None \<Rightarrow> False
           | Some path \<Rightarrow> glob_matches g (normalize_process_path_for windows path))
      | PPrefix pre \<Rightarrow>
          (case pi_path p of
             None \<Rightarrow> False
           | Some path \<Rightarrow> starts_with (normalize_process_path_for windows pre)
                            (normalize_process_path_for windows path)))"

definition byte_uppercase :: "u8 \<Rightarrow> u8" where
  "byte_uppercase b = (if 97 \<le> b \<and> b \<le> 122 then b - 32 else b)"

fun compile :: "bool \<Rightarrow> set_lookup \<Rightarrow> rule_kind \<Rightarrow> matcher"
  and compile_subrule :: "bool \<Rightarrow> set_lookup \<Rightarrow> sub_rule \<Rightarrow> compiled_sub"
where
  "compile win sets (KDomain d) = MDomain (to_ascii_lowercase d)"
| "compile win sets (KDomainSuffix d) =
     MDomainSuffix (to_ascii_lowercase (trim_start_matches (CHR ''.'') d))"
| "compile win sets (KDomainKeyword k) = MDomainKeyword (to_ascii_lowercase k)"
| "compile win sets (KDomainWildcard g) = MDomainWildcard g"
| "compile win sets (KDomainSet r) = MSet (sets r DomainSetKind)"
| "compile win sets (KIpCidr n) = MIpCidr n"
| "compile win sets (KIpCidr6 n) = MIpCidr6 n"
| "compile win sets (KGeoIp c) =
     (case as_bytes (trim c) of
        [b0, b1] \<Rightarrow> MGeoIp (byte_uppercase b0, byte_uppercase b1)
      | _ \<Rightarrow> MNever)"
| "compile win sets KGeoIpUnknown = MGeoIpUnknown"
| "compile win sets (KIpAsn n) = MIpAsn n"
| "compile win sets KIpAsnUnknown = MIpAsnUnknown"
| "compile win sets (KUserAgent g) = MUserAgent g"
| "compile win sets (KUrlRegex p) = MUrlRegex p"
| "compile win sets (KProcessName p) = MProcessName (compile_process_pattern win p)"
| "compile win sets (KDestPort p) = MDestPort p"
| "compile win sets (KSrcPort p) = MSrcPort p"
| "compile win sets (KInPort p) = MInPort p"
| "compile win sets (KSrcIp n) = MSrcIp n"
| "compile win sets (KDeviceName _) = MUnsupported ''DEVICE-NAME''"
| "compile win sets (KMacAddress _) = MUnsupported ''MAC-ADDRESS''"
| "compile win sets (KProtocol p) = MProtocol p"
| "compile win sets (KHostnameType t) = MHostnameType t"
| "compile win sets (KSubnet e) = MSubnet e"
| "compile win sets (KCellularRadio _) = MNever"
| "compile win sets (KCellularCarrier _) = MNever"
| "compile win sets (KAnd subs) = MAnd (map (compile_subrule win sets) subs)"
| "compile win sets (KOr subs) = MOr (map (compile_subrule win sets) subs)"
| "compile win sets (KNot sub) = MNot (compile_subrule win sets sub)"
| "compile win sets (KScript _) = MUnsupported ''SCRIPT''"
| "compile win sets (KRuleSet r) = MSet (sets r RuleSetKind)"
| "compile win sets KFinal = MFinal"
| "compile_subrule win sets (SubRule k nr em un raw) = CompiledSub (compile win sets k) nr em raw"

section \<open>Evaluation\<close>

fun needs_the_connection :: "matcher \<Rightarrow> bool" where
  "needs_the_connection (MDestPort _) = True"
| "needs_the_connection (MSrcPort _) = True"
| "needs_the_connection (MInPort _) = True"
| "needs_the_connection (MProtocol _) = True"
| "needs_the_connection (MUserAgent _) = True"
| "needs_the_connection (MUrlRegex _) = True"
| "needs_the_connection _ = False"

definition still_needs :: "bool \<Rightarrow> bool \<Rightarrow> bool \<Rightarrow> verdict option" where
  "still_needs connection process resolve =
     (if connection then Some NeedsConnection
      else if process then Some NeedsProcess
      else if resolve then Some NeedsResolve
      else None)"

definition option_list :: "'a option \<Rightarrow> 'a list" where
  "option_list x = (case x of None \<Rightarrow> [] | Some a \<Rightarrow> [a])"

definition domain_targets :: "session_info \<Rightarrow> bool \<Rightarrow> string list" where
  "domain_targets s extended =
     option_list (as_domain (s_dst_host s)) @
     (if extended then option_list (s_sni s) else []) @
     (if extended then option_list (s_http_host s) else [])"

definition is_suffix :: "string \<Rightarrow> string \<Rightarrow> bool" where
  "is_suffix host sfx \<longleftrightarrow>
     host = sfx \<or>
     (length sfx < length host \<and> ends_with sfx host \<and>
      host ! (length host - length sfx - 1) = CHR ''.'')"

datatype family = FamV4 | FamV6 | FamAny

definition target_ip :: "session_info \<Rightarrow> eval_ctx \<Rightarrow> bool \<Rightarrow> family \<Rightarrow> verdict + ip_addr" where
  "target_ip s ctx no_resolve family =
     (case as_ip (s_dst_host s) of
        Some ip \<Rightarrow>
          let ok = (case family of FamV4 \<Rightarrow> is_ipv4 ip | FamV6 \<Rightarrow> is_ipv6 ip | FamAny \<Rightarrow> True)
          in if ok then Inr ip else Inl NoMatch
      | None \<Rightarrow>
          if ec_before_connection ctx then Inl NeedsConnection
          else case ec_resolved ctx of
                 None \<Rightarrow> Inl (if no_resolve then NoMatch else NeedsResolve)
               | Some r \<Rightarrow>
                   let v4 = (case ra_v4 r of [] \<Rightarrow> None | a # _ \<Rightarrow> Some (V4 a));
                       v6 = (case ra_v6 r of [] \<Rightarrow> None | a # _ \<Rightarrow> Some (V6 a));
                       pick = (case family of
                                 FamV4 \<Rightarrow> v4
                               | FamV6 \<Rightarrow> v6
                               | FamAny \<Rightarrow> (case v4 of None \<Rightarrow> v6 | Some a \<Rightarrow> Some a))
                   in ok_or NoMatch pick)"

definition replace_url_host :: "string \<Rightarrow> string \<Rightarrow> string option" where
  "replace_url_host url host =
     (case str_find ''://'' url of
        None \<Rightarrow> None
      | Some i \<Rightarrow>
          let scheme_end = i + 3;
              rest = drop scheme_end url;
              auth_end = (case str_find ''/'' rest of None \<Rightarrow> length rest | Some j \<Rightarrow> j);
              authority = take auth_end rest;
              port = (case rsplit_once (CHR '':'') authority of
                        None \<Rightarrow> None
                      | Some (_, p) \<Rightarrow> if p \<noteq> [] \<and> list_all is_ascii_digit p then Some p else None)
          in Some (take scheme_end url @ host @
                   (case port of None \<Rightarrow> [] | Some p \<Rightarrow> CHR '':'' # p) @ drop auth_end rest))"

text \<open>What a matcher is evaluated in: the crates and the system the program was built for.\<close>

record eval_env =
  ee_ext :: ext
  ee_windows :: bool

definition regex_hits :: "eval_env \<Rightarrow> pattern \<Rightarrow> string \<Rightarrow> bool" where
  "regex_hits env p s = (ext_regex_is_match (ee_ext env) p s = Some True)"

definition url_regex_hits :: "eval_env \<Rightarrow> pattern \<Rightarrow> session_info \<Rightarrow> bool \<Rightarrow> bool" where
  "url_regex_hits env p s extended =
     (case s_url s of
        None \<Rightarrow> False
      | Some url \<Rightarrow>
          regex_hits env p url \<or>
          (extended \<and>
           list_ex (\<lambda>host. case replace_url_host url host of None \<Rightarrow> False | Some u \<Rightarrow> regex_hits env p u)
             (option_list (s_sni s) @ option_list (s_http_host s))))"

record set_verdict =
  sv_verdict :: verdict
  sv_entry :: "string option"

text \<open>\<open>SetMatch\<close>: the name of a set and its evaluation.\<close>

record set_match =
  sm_name :: string
  sm_eval :: "session_info \<Rightarrow> eval_ctx \<Rightarrow> bool \<Rightarrow> bool \<Rightarrow> set_verdict \<times> eval_ctx"

definition MAX_NESTING :: nat where
  "MAX_NESTING = 8"

text \<open>The arms of \<open>Matcher::eval\<close> for the matchers that evaluate no other.\<close>

definition by_ip :: "(ip_addr \<Rightarrow> eval_ctx \<Rightarrow> bool \<times> eval_ctx) \<Rightarrow> session_info \<Rightarrow> eval_ctx \<Rightarrow> bool \<Rightarrow> family \<Rightarrow>
    verdict \<times> eval_ctx" where
  "by_ip test s ctx no_resolve fam =
     (case target_ip s ctx no_resolve fam of
        Inr ip \<Rightarrow> (case test ip ctx of (b, ctx') \<Rightarrow> (verdict_of b, ctx'))
      | Inl v \<Rightarrow> (v, ctx))"

definition eval_leaf :: "eval_env \<Rightarrow> matcher \<Rightarrow> session_info \<Rightarrow> eval_ctx \<Rightarrow> bool \<Rightarrow> bool \<Rightarrow> verdict \<times> eval_ctx" where
  "eval_leaf env m s ctx no_resolve extended =
     (let pure = (\<lambda>b. (verdict_of b, ctx));
          targets = domain_targets s extended in
      case m of
        MDomain d \<Rightarrow> pure (list_ex (\<lambda>h. h = d) targets)
      | MDomainSuffix d \<Rightarrow> pure (list_ex (\<lambda>h. is_suffix h d) targets)
      | MDomainKeyword k \<Rightarrow> pure (list_ex (str_contains k) targets)
      | MDomainWildcard g \<Rightarrow> pure (list_ex (glob_matches g) targets)
      | MIpCidr net \<Rightarrow>
          by_ip (\<lambda>ip c. (case ip of V4 a \<Rightarrow> ext_net4_contains (ee_ext env) net a | V6 _ \<Rightarrow> False, c))
            s ctx no_resolve FamV4
      | MIpCidr6 net \<Rightarrow>
          by_ip (\<lambda>ip c. (case ip of V6 a \<Rightarrow> ext_net6_contains (ee_ext env) net a | V4 _ \<Rightarrow> False, c))
            s ctx no_resolve FamV6
      | MGeoIp cc \<Rightarrow>
          by_ip (\<lambda>ip c. map_prod (\<lambda>r. r = Known cc) id (ctx_country ip c)) s ctx no_resolve FamAny
      | MGeoIpUnknown \<Rightarrow>
          by_ip (\<lambda>ip c. map_prod (\<lambda>r. r = Unknown) id (ctx_country ip c)) s ctx no_resolve FamAny
      | MIpAsn asn \<Rightarrow>
          by_ip (\<lambda>ip c. map_prod (\<lambda>r. r = Known asn) id (ctx_asn ip c)) s ctx no_resolve FamAny
      | MIpAsnUnknown \<Rightarrow>
          by_ip (\<lambda>ip c. map_prod (\<lambda>r. r = Unknown) id (ctx_asn ip c)) s ctx no_resolve FamAny
      | MUserAgent g \<Rightarrow> pure (case s_user_agent s of None \<Rightarrow> False | Some ua \<Rightarrow> glob_matches g ua)
      | MUrlRegex p \<Rightarrow> pure (url_regex_hits env p s extended)
      | MProcessName pp \<Rightarrow>
          (case (s_process s, ec_process ctx) of
             (Some given, _) \<Rightarrow> pure (process_matches_for (ee_windows env) pp given)
           | (None, NotAsked) \<Rightarrow> (NeedsProcess, ctx)
           | (None, Asked found) \<Rightarrow>
               pure (case found of None \<Rightarrow> False | Some p \<Rightarrow> process_matches_for (ee_windows env) pp p))
      | MDestPort p \<Rightarrow> pure (port_matches p (s_dst_port s))
      | MSrcPort p \<Rightarrow> pure (port_matches p (sa_port (s_src s)))
      | MInPort p \<Rightarrow> pure (port_matches p (s_in_port s))
      | MSrcIp net \<Rightarrow> pure (ext_net_contains (ee_ext env) net (sa_ip (s_src s)))
      | MProtocol k \<Rightarrow>
          pure (s_protocol s = Some k \<or> (k = PkTcp \<and> s_transport s = Tcp) \<or>
                (k = PkUdp \<and> s_transport s = Udp))
      | MHostnameType t \<Rightarrow> pure (hostname_type_of (s_dst_host s) = t)
      | MSubnet e \<Rightarrow>
          pure (case ec_network ctx of None \<Rightarrow> False | Some (facts, always) \<Rightarrow> subnet_matches e facts always)
      | MUnsupported kind \<Rightarrow>
          (NoMatch, ctx\<lparr>ec_notes := ec_notes ctx @
             [kind @ '' rules are not supported in this version; treated as no match'']\<rparr>)
      | MFinal \<Rightarrow> (Match, ctx)
      | _ \<Rightarrow> (NoMatch, ctx))"

definition eval_set :: "set_match \<Rightarrow> session_info \<Rightarrow> eval_ctx \<Rightarrow> bool \<Rightarrow> bool \<Rightarrow> verdict \<times> eval_ctx" where
  "eval_set st s ctx no_resolve extended =
     (if MAX_NESTING \<le> ec_set_depth ctx then (NoMatch, ctx)
      else case sm_eval st s (ctx\<lparr>ec_set_depth := ec_set_depth ctx + 1\<rparr>) no_resolve extended of
             (v, ctx1) \<Rightarrow>
               let ctx2 = ctx1\<lparr>ec_set_depth := ec_set_depth ctx1 - 1\<rparr> in
               (sv_verdict v,
                if sv_verdict v = Match
                then ctx2\<lparr>ec_sub_hit := Some \<lparr>srh_set = sm_name st,
                            srh_entry = (case sv_entry v of None \<Rightarrow> '''' | Some e \<Rightarrow> e)\<rparr>\<rparr>
                else ctx2))"

text \<open>The check \<open>Matcher::eval\<close> starts with.\<close>

definition before_connection :: "matcher \<Rightarrow> eval_ctx \<Rightarrow> verdict \<times> eval_ctx \<Rightarrow> verdict \<times> eval_ctx" where
  "before_connection m ctx r =
     (if ec_before_connection ctx \<and> needs_the_connection m then (NeedsConnection, ctx) else r)"

text \<open>
  The loops of AND and OR over the evaluations of their branches. They carry what the branches
  still need: the connection, the process, the resolution.
\<close>

fun and_loop :: "(eval_ctx \<Rightarrow> verdict \<times> eval_ctx) list \<Rightarrow> bool \<Rightarrow> bool \<Rightarrow> bool \<Rightarrow> eval_ctx \<Rightarrow>
    verdict \<times> eval_ctx" where
  "and_loop [] nc np nr ctx = (case still_needs nc np nr of None \<Rightarrow> Match | Some v \<Rightarrow> v, ctx)"
| "and_loop (ev # evs) nc np nr ctx =
     (case ev ctx of
        (v, ctx') \<Rightarrow>
          if v = NoMatch then (NoMatch, ctx')
          else and_loop evs (nc \<or> v = NeedsConnection) (np \<or> v = NeedsProcess) (nr \<or> v = NeedsResolve) ctx')"

fun or_loop :: "(eval_ctx \<Rightarrow> verdict \<times> eval_ctx) list \<Rightarrow> bool \<Rightarrow> bool \<Rightarrow> bool \<Rightarrow> eval_ctx \<Rightarrow>
    verdict \<times> eval_ctx" where
  "or_loop [] nc np nr ctx = (case still_needs nc np nr of None \<Rightarrow> NoMatch | Some v \<Rightarrow> v, ctx)"
| "or_loop (ev # evs) nc np nr ctx =
     (case ev ctx of
        (v, ctx') \<Rightarrow>
          if v = Match then (Match, ctx')
          else or_loop evs (nc \<or> v = NeedsConnection) (np \<or> v = NeedsProcess) (nr \<or> v = NeedsResolve) ctx')"

definition not_arm :: "(eval_ctx \<Rightarrow> verdict \<times> eval_ctx) \<Rightarrow> eval_ctx \<Rightarrow> verdict \<times> eval_ctx" where
  "not_arm ev ctx =
     (let found = ec_sub_hit ctx in
      case ev (ctx\<lparr>ec_sub_hit := None\<rparr>) of
        (verdict, ctx') \<Rightarrow>
          ((case verdict of Match \<Rightarrow> NoMatch | NoMatch \<Rightarrow> Match | v \<Rightarrow> v), ctx'\<lparr>ec_sub_hit := found\<rparr>))"

definition leaf_arm :: "eval_env \<Rightarrow> session_info \<Rightarrow> matcher \<Rightarrow> eval_ctx \<Rightarrow> bool \<Rightarrow> bool \<Rightarrow> verdict \<times> eval_ctx" where
  "leaf_arm env s m ctx no_resolve extended =
     before_connection m ctx (eval_leaf env m s ctx no_resolve extended)"

text \<open>\<open>Matcher::eval\<close>; the check it starts with holds of none of the first four arms.\<close>

primrec eval :: "eval_env \<Rightarrow> (set_handle \<Rightarrow> set_match) \<Rightarrow> session_info \<Rightarrow> matcher \<Rightarrow> eval_ctx \<Rightarrow> bool \<Rightarrow> bool \<Rightarrow>
      verdict \<times> eval_ctx"
  and eval_sub :: "eval_env \<Rightarrow> (set_handle \<Rightarrow> set_match) \<Rightarrow> session_info \<Rightarrow> compiled_sub \<Rightarrow> eval_ctx \<Rightarrow>
      verdict \<times> eval_ctx"
where
  "eval env sets s (MAnd subs) =
     (\<lambda>ctx no_resolve extended. in_branches (and_loop (map (eval_sub env sets s) subs) False False False) ctx)"
| "eval env sets s (MOr subs) =
     (\<lambda>ctx no_resolve extended. in_branches (or_loop (map (eval_sub env sets s) subs) False False False) ctx)"
| "eval env sets s (MNot sub) = (\<lambda>ctx no_resolve extended. not_arm (eval_sub env sets s sub) ctx)"
| "eval env sets s (MSet h) = eval_set (sets h) s"
| "eval env sets s (MDomain d) = leaf_arm env s (MDomain d)"
| "eval env sets s (MDomainSuffix d) = leaf_arm env s (MDomainSuffix d)"
| "eval env sets s (MDomainKeyword k) = leaf_arm env s (MDomainKeyword k)"
| "eval env sets s (MDomainWildcard g) = leaf_arm env s (MDomainWildcard g)"
| "eval env sets s (MIpCidr n4) = leaf_arm env s (MIpCidr n4)"
| "eval env sets s (MIpCidr6 n6) = leaf_arm env s (MIpCidr6 n6)"
| "eval env sets s (MGeoIp cc) = leaf_arm env s (MGeoIp cc)"
| "eval env sets s (MGeoIpUnknown) = leaf_arm env s (MGeoIpUnknown)"
| "eval env sets s (MIpAsn asn) = leaf_arm env s (MIpAsn asn)"
| "eval env sets s (MIpAsnUnknown) = leaf_arm env s (MIpAsnUnknown)"
| "eval env sets s (MUserAgent g) = leaf_arm env s (MUserAgent g)"
| "eval env sets s (MUrlRegex p) = leaf_arm env s (MUrlRegex p)"
| "eval env sets s (MProcessName pp) = leaf_arm env s (MProcessName pp)"
| "eval env sets s (MDestPort e) = leaf_arm env s (MDestPort e)"
| "eval env sets s (MSrcPort e) = leaf_arm env s (MSrcPort e)"
| "eval env sets s (MInPort e) = leaf_arm env s (MInPort e)"
| "eval env sets s (MSrcIp net) = leaf_arm env s (MSrcIp net)"
| "eval env sets s (MProtocol k) = leaf_arm env s (MProtocol k)"
| "eval env sets s (MHostnameType t) = leaf_arm env s (MHostnameType t)"
| "eval env sets s (MSubnet sn) = leaf_arm env s (MSubnet sn)"
| "eval env sets s (MUnsupported kind) = leaf_arm env s (MUnsupported kind)"
| "eval env sets s (MNever) = leaf_arm env s (MNever)"
| "eval env sets s (MFinal) = leaf_arm env s (MFinal)"
| "eval_sub env sets s (CompiledSub m nr ex raw) = (\<lambda>ctx. eval env sets s m ctx nr ex)"

end
