(* ===== verification/Rurge_Set_Format.thy ===== *)
theory Rurge_Set_Format
  imports Rurge_Rule_Facts Rurge_Ip_Index Rurge_Matcher
begin

text \<open>
  The text formats of rule sets and domain sets and the built-in sets,
  \<^verbatim>\<open>crates/rurge-rules/src/set_format.rs\<close>. A byte order mark is no character of the model, so
  the line that strips one is not.
\<close>

section \<open>Model\<close>

definition MAX_ENTRIES :: nat where
  "MAX_ENTRIES = 1000000"

definition MAX_SKIPPED_REASONS :: nat where
  "MAX_SKIPPED_REASONS = 20"

definition set_keyword :: "set_kind \<Rightarrow> string" where
  "set_keyword k = (case k of RuleSetKind \<Rightarrow> ''RULE-SET'' | DomainSetKind \<Rightarrow> ''DOMAIN-SET'')"

datatype set_line = SLRule sub_rule | SLDomain string bool

record parsed_set =
  ps_lines :: "set_line list"
  ps_skipped :: "(nat \<times> string) list"
  ps_skipped_total :: nat
  ps_truncated :: nat
  ps_unknown_params :: nat
  ps_first_unknown :: "nat option"

definition parsed_set_default :: parsed_set where
  "parsed_set_default =
     \<lparr>ps_lines = [], ps_skipped = [], ps_skipped_total = 0, ps_truncated = 0,
      ps_unknown_params = 0, ps_first_unknown = None\<rparr>"

text \<open>\<open>str::lines\<close>: a line feed, with a carriage return ahead of it or not, ends a line.\<close>

definition str_lines :: "string \<Rightarrow> string list" where
  "str_lines s =
     (let ps = split_on (CHR 0x0A) s;
          strip = (\<lambda>l. case strip_suffix [CHR 0x0D] l of None \<Rightarrow> l | Some l' \<Rightarrow> l')
      in map strip (butlast ps) @ (if last ps = [] then [] else [last ps]))"

definition split_inclusive :: "char \<Rightarrow> string \<Rightarrow> string list" where
  "split_inclusive c s =
     (let ps = split_on c s in map (\<lambda>l. l @ [c]) (butlast ps) @ (if last ps = [] then [] else [last ps]))"

function carries_unknown_param :: "sub_rule \<Rightarrow> bool" where
  "carries_unknown_param sub \<longleftrightarrow>
     sub_unknown sub \<noteq> [] \<or>
     (case sub_kind sub of
        KAnd subs \<Rightarrow> list_ex carries_unknown_param subs
      | KOr subs \<Rightarrow> list_ex carries_unknown_param subs
      | KNot inner \<Rightarrow> carries_unknown_param inner
      | _ \<Rightarrow> False)"
  by pat_completeness auto
termination
proof (relation "measure size", goal_cases)
  case (2 sub subs z)
  then have "size z \<le> size_list size subs" by (simp add: size_list_estimation')
  then show ?case using 2 by (cases sub) auto
next
  case (3 sub subs z)
  then have "size z \<le> size_list size subs" by (simp add: size_list_estimation')
  then show ?case using 3 by (cases sub) auto
next
  case (4 sub inner)
  then show ?case by (cases sub) auto
qed simp

declare carries_unknown_param.simps [simp del]

definition is_comment :: "set_kind \<Rightarrow> string \<Rightarrow> bool" where
  "is_comment kind line \<longleftrightarrow>
     starts_with ''#'' line \<or> starts_with ''//'' line \<or>
     (kind = RuleSetKind \<and> starts_with '';'' line)"

definition parse_rule_line :: "ext \<Rightarrow> parse_ctx \<Rightarrow> string \<Rightarrow> string + set_line" where
  "parse_rule_line x ctx line = map_sum pe_message SLRule (parse_subrule x ctx line)"

definition parse_domain_line :: "string \<Rightarrow> string + set_line" where
  "parse_domain_line line =
     (let ns = (case strip_prefix ''.'' line of Some rest \<Rightarrow> (rest, True) | None \<Rightarrow> (line, False));
          name = to_ascii_lowercase (trim_end_matches (CHR ''.'') (fst ns));
          valid = (name \<noteq> [] \<and>
                   list_all (\<lambda>b. is_ascii_alphanumeric b \<or> b = CHR ''.'' \<or> b = CHR ''-'' \<or> b = CHR ''_'') name \<and>
                   \<not> starts_with ''.'' name \<and> \<not> str_contains ''..'' name)
      in if valid then Inr (SLDomain name (snd ns)) else Inl ''invalid DOMAIN-SET line'')"

text \<open>One turn of the loop: the line and its number from 0.\<close>

definition set_line_step :: "ext \<Rightarrow> set_kind \<Rightarrow> parse_ctx \<Rightarrow> nat \<Rightarrow> parsed_set \<Rightarrow> nat \<times> string \<Rightarrow> parsed_set" where
  "set_line_step x kind ctx limit out ir =
     (let line = trim (snd ir) in
      if line = [] \<or> is_comment kind line then out
      else case (case kind of
                   RuleSetKind \<Rightarrow> parse_rule_line x ctx (strip_inline_comment line)
                 | DomainSetKind \<Rightarrow> parse_domain_line line) of
             Inr l \<Rightarrow>
               if length (ps_lines out) < limit then
                 let out1 = (case l of
                               SLRule sub \<Rightarrow>
                                 if carries_unknown_param sub then
                                   out\<lparr>ps_unknown_params := ps_unknown_params out + 1,
                                       ps_first_unknown :=
                                         (case ps_first_unknown out of
                                            None \<Rightarrow> Some (fst ir + 1) | Some n \<Rightarrow> Some n)\<rparr>
                                 else out
                             | SLDomain _ _ \<Rightarrow> out)
                 in out1\<lparr>ps_lines := ps_lines out1 @ [l]\<rparr>
               else out\<lparr>ps_truncated := ps_truncated out + 1\<rparr>
           | Inl reason \<Rightarrow>
               let out1 = out\<lparr>ps_skipped_total := ps_skipped_total out + 1\<rparr> in
               if length (ps_skipped out1) < MAX_SKIPPED_REASONS
               then out1\<lparr>ps_skipped := ps_skipped out1 @ [(fst ir + 1, reason)]\<rparr> else out1)"

definition parse_set_with_limit :: "ext \<Rightarrow> set_kind \<Rightarrow> string \<Rightarrow> parse_ctx \<Rightarrow> nat \<Rightarrow> parsed_set" where
  "parse_set_with_limit x kind content ctx limit =
     foldl (set_line_step x kind ctx limit) parsed_set_default (enumerate 0 (str_lines content))"

definition parse_set :: "ext \<Rightarrow> set_kind \<Rightarrow> string \<Rightarrow> parse_ctx \<Rightarrow> parsed_set" where
  "parse_set x kind content ctx = parse_set_with_limit x kind content ctx MAX_ENTRIES"

section \<open>The built-in sets\<close>

definition text_of_lines :: "string list \<Rightarrow> string" where
  "text_of_lines ls = concat (map (\<lambda>l. l @ [CHR 0x0A]) ls)"

definition SYSTEM_SET :: string where
  "SYSTEM_SET = text_of_lines
     [''DOMAIN,api.smoot.apple.com'',
      ''DOMAIN,captive.apple.com'',
      ''DOMAIN,xp.apple.com'',
      ''DOMAIN,configuration.apple.com'',
      ''DOMAIN,guzzoni.apple.com'',
      ''DOMAIN,smp-device-content.apple.com'',
      ''DOMAIN,aod.itunes.apple.com'',
      ''DOMAIN,mesu.apple.com'',
      ''DOMAIN,api.smoot.apple.cn'',
      ''DOMAIN,gs-loc.apple.com'',
      ''DOMAIN,mvod.itunes.apple.com'',
      ''DOMAIN,streamingaudio.itunes.apple.com'',
      ''DOMAIN-SUFFIX,ess.apple.com'',
      ''DOMAIN-SUFFIX,push-apple.com.akadns.net'',
      ''DOMAIN-SUFFIX,push.apple.com'',
      ''DOMAIN-SUFFIX,lcdn-locator.apple.com'',
      ''DOMAIN-SUFFIX,lcdn-registration.apple.com'',
      ''DOMAIN-SUFFIX,ls.apple.com'',
      ''PROCESS-NAME,trustd'',
      ''PROCESS-NAME,netbiosd'']"

definition LAN_SET :: string where
  "LAN_SET = text_of_lines
     [''DOMAIN-SUFFIX,local'',
      ''IP-CIDR,0.0.0.0/8'',
      ''IP-CIDR,10.0.0.0/8'',
      ''IP-CIDR,100.64.0.0/10'',
      ''IP-CIDR,127.0.0.0/8'',
      ''IP-CIDR,169.254.0.0/16'',
      ''IP-CIDR,172.16.0.0/12'',
      ''IP-CIDR,192.0.0.0/24'',
      ''IP-CIDR,192.0.2.0/24'',
      ''IP-CIDR,192.168.0.0/16'',
      ''IP-CIDR,224.0.0.0/4'',
      ''IP-CIDR6,::1/128'',
      ''IP-CIDR6,fc00::/7'',
      ''IP-CIDR6,fe80::/10'']"

fun internal_set_text :: "internal_set \<Rightarrow> string" where
  "internal_set_text SystemSet = SYSTEM_SET"
| "internal_set_text LanSet = LAN_SET"

definition names_a_process :: "string \<Rightarrow> bool" where
  "names_a_process line \<longleftrightarrow> starts_with ''PROCESS-NAME,'' line"

definition internal_set_source :: "internal_set \<Rightarrow> bool \<Rightarrow> string" where
  "internal_set_source st macos =
     (let content = internal_set_text st in
      if macos \<or> \<not> list_ex names_a_process (str_lines content) then content
      else concat (filter (\<lambda>l. \<not> names_a_process l) (split_inclusive (CHR 0x0A) content)))"

section \<open>Bounds\<close>

text \<open>The counts of a parse: what is kept and what is reported is bounded, and no line is lost.\<close>

definition readable :: "set_kind \<Rightarrow> string \<Rightarrow> bool" where
  "readable kind raw \<longleftrightarrow> trim raw \<noteq> [] \<and> \<not> is_comment kind (trim raw)"

lemma set_line_step_counts:
  fixes out :: parsed_set
  defines "tallied \<equiv> \<lambda>p. length (ps_lines p) + ps_truncated p + ps_skipped_total p"
  shows "tallied (set_line_step x kind ctx limit out ir) = tallied out + (if readable kind (snd ir) then 1 else 0)"
    and "length (ps_lines out) \<le> limit \<Longrightarrow> length (ps_lines (set_line_step x kind ctx limit out ir)) \<le> limit"
    and "length (ps_skipped out) = min (ps_skipped_total out) MAX_SKIPPED_REASONS \<Longrightarrow>
      length (ps_skipped (set_line_step x kind ctx limit out ir)) =
        min (ps_skipped_total (set_line_step x kind ctx limit out ir)) MAX_SKIPPED_REASONS"
    and "(0 < ps_truncated out \<longrightarrow> length (ps_lines out) = limit) \<Longrightarrow> length (ps_lines out) \<le> limit \<Longrightarrow>
      0 < ps_truncated (set_line_step x kind ctx limit out ir) \<longrightarrow>
        length (ps_lines (set_line_step x kind ctx limit out ir)) = limit"
  by (auto simp: set_line_step_def tallied_def readable_def Let_def split: sum.splits set_line.splits)

text \<open>
  Reading a set file, whatever its text: the set holds at most \<open>limit\<close> lines, at most 20
  reasons are kept and exactly the first of them are, every line that is neither blank nor a
  comment is in the set, counted as truncated or counted as skipped, and one is truncated only
  when the set is full.
\<close>

theorem parse_set_bounded:
  shows "let p = parse_set_with_limit x kind content ctx limit in
    length (ps_lines p) \<le> limit \<and>
    length (ps_skipped p) = min (ps_skipped_total p) MAX_SKIPPED_REASONS \<and>
    (ps_truncated p = 0 \<or> length (ps_lines p) = limit) \<and>
    length (ps_lines p) + ps_truncated p + ps_skipped_total p =
      length (filter (readable kind) (str_lines content))"
proof -
  have "let p = foldl (set_line_step x kind ctx limit) parsed_set_default irs in
    length (ps_lines p) \<le> limit \<and>
    length (ps_skipped p) = min (ps_skipped_total p) MAX_SKIPPED_REASONS \<and>
    (0 < ps_truncated p \<longrightarrow> length (ps_lines p) = limit) \<and>
    length (ps_lines p) + ps_truncated p + ps_skipped_total p = length (filter (readable kind) (map snd irs))"
    for irs
  proof (induction irs rule: rev_induct)
    case Nil
    then show ?case by (simp add: parsed_set_default_def)
  next
    case (snoc ir irs)
    then show ?case using set_line_step_counts[where x = x and kind = kind and ctx = ctx and limit = limit and ir = ir] by (simp add: Let_def)
  qed
  from this[of "enumerate 0 (str_lines content)"] show ?thesis
    by (auto simp: parse_set_with_limit_def Let_def)
qed

end
