(* ===== verification/Rurge_Domain_Index.thy ===== *)
theory Rurge_Domain_Index
  imports Rurge_Prelude "HOL-Library.Product_Lexorder"
begin

text \<open>
  The exact and suffix index over reversed labels, \<^verbatim>\<open>crates/rurge-rules/src/domain_index.rs\<close>: the
  builder, the sorted arrays it makes, and the lookup that binary-searches every
  label-boundary prefix of the reversed host. \<open>slice::binary_search_by\<close> is the loop of the
  standard library. The index is shown to answer what a scan of the added names would.
\<close>

section \<open>Model\<close>

definition NO_ENTRY :: u32 where
  "NO_ENTRY = 0xFFFFFFFF"

datatype domain_match_kind = Exact | Suffix

record domain_hit =
  dh_entry :: u32
  dh_kind :: domain_match_kind

record domain_index =
  di_keys :: "string list"
  di_exact :: "u32 list"
  di_suffix :: "u32 list"

type_synonym domain_item = "string \<times> u32 \<times> domain_match_kind"

definition domain_index_default :: domain_index where
  "domain_index_default = \<lparr>di_keys = [], di_exact = [], di_suffix = []\<rparr>"

text \<open>The name as the index reads it.\<close>

definition label_name :: "string \<Rightarrow> string" where
  "label_name domain = to_ascii_lowercase (trim_matches (CHR ''.'') (trim domain))"

definition reverse_labels :: "string \<Rightarrow> string option" where
  "reverse_labels domain =
     (let d = label_name domain in
      if d = [] then None else Some (join_with (CHR ''.'') (rev (split_on (CHR ''.'') d))))"

definition add_exact :: "string \<Rightarrow> u32 \<Rightarrow> domain_item list \<Rightarrow> domain_item list" where
  "add_exact domain entry items =
     (case reverse_labels domain of None \<Rightarrow> items | Some k \<Rightarrow> items @ [(k, entry, Exact)])"

definition add_suffix :: "string \<Rightarrow> u32 \<Rightarrow> domain_item list \<Rightarrow> domain_item list" where
  "add_suffix domain entry items =
     (case reverse_labels domain of None \<Rightarrow> items | Some k \<Rightarrow> items @ [(k, entry, Suffix)])"

text \<open>One turn of the loop of \<open>build\<close>.\<close>

definition set_last :: "u32 \<Rightarrow> u32 list \<Rightarrow> u32 list" where
  "set_last entry slots =
     (let i = length slots - 1 in
      if slots ! i = NO_ENTRY \<or> entry < slots ! i then slots[i := entry] else slots)"

definition build_step :: "domain_index \<Rightarrow> domain_item \<Rightarrow> domain_index" where
  "build_step idx item =
     (case item of (key, entry, kind) \<Rightarrow>
        let same = (di_keys idx \<noteq> [] \<and> last (di_keys idx) = key);
            idx1 = (if same then idx
                    else \<lparr>di_keys = di_keys idx @ [key], di_exact = di_exact idx @ [NO_ENTRY],
                          di_suffix = di_suffix idx @ [NO_ENTRY]\<rparr>) in
        case kind of
          Exact \<Rightarrow> idx1\<lparr>di_exact := set_last entry (di_exact idx1)\<rparr>
        | Suffix \<Rightarrow> idx1\<lparr>di_suffix := set_last entry (di_suffix idx1)\<rparr>)"

definition build_index :: "domain_item list \<Rightarrow> domain_index" where
  "build_index items =
     foldl build_step domain_index_default (sort_key (\<lambda>(k, e, _). (k, e)) items)"

text \<open>\<open>binary_search_by\<close>.\<close>

function search_loop :: "string list \<Rightarrow> string \<Rightarrow> nat \<Rightarrow> nat \<Rightarrow> nat" where
  "search_loop xs key base sz =
     (if 1 < sz then
        let half = sz div 2; mid = base + half
        in search_loop xs key (if key < xs ! mid then base else mid) (sz - half)
      else base)"
  by pat_completeness auto
termination
  by (relation "measure (\<lambda>(xs, key, base, sz). sz)") auto

declare search_loop.simps [simp del]

definition index_slot :: "domain_index \<Rightarrow> string \<Rightarrow> nat option" where
  "index_slot idx key =
     (let xs = di_keys idx in
      if xs = [] then None
      else let base = search_loop xs key 0 (length xs) in
           if xs ! base = key then Some base else None)"

definition consider_slot :: "domain_hit option \<Rightarrow> u32 \<times> domain_match_kind \<Rightarrow> domain_hit option" where
  "consider_slot best c =
     (case c of (entry, kind) \<Rightarrow>
        if entry \<noteq> NO_ENTRY \<and> (case best of None \<Rightarrow> True | Some b \<Rightarrow> entry < dh_entry b)
        then Some \<lparr>dh_entry = entry, dh_kind = kind\<rparr> else best)"

text \<open>The slots \<open>lookup\<close> considers, in its order.\<close>

definition considered :: "domain_index \<Rightarrow> string \<Rightarrow> (u32 \<times> domain_match_kind) list" where
  "considered idx full =
     concat (map (\<lambda>i. if full ! i = CHR ''.'' then
                        (case index_slot idx (take i full) of
                           None \<Rightarrow> [] | Some s \<Rightarrow> [(di_suffix idx ! s, Suffix)])
                      else []) [0..<length full]) @
     (case index_slot idx full of
        None \<Rightarrow> []
      | Some s \<Rightarrow> [(di_suffix idx ! s, Suffix), (di_exact idx ! s, Exact)])"

definition domain_lookup :: "domain_index \<Rightarrow> string \<Rightarrow> domain_hit option" where
  "domain_lookup idx host =
     (case reverse_labels host of
        None \<Rightarrow> None
      | Some full \<Rightarrow> foldl consider_slot None (considered idx full))"

definition index_is_empty :: "domain_index \<Rightarrow> bool" where
  "index_is_empty idx \<longleftrightarrow> di_keys idx = []"

definition index_matches :: "domain_index \<Rightarrow> string \<Rightarrow> bool" where
  "index_matches idx host \<longleftrightarrow> domain_lookup idx host \<noteq> None"

section \<open>Binary search\<close>

lemma search_loop_correct:
  "sorted_wrt (<) xs \<Longrightarrow> base + sz \<le> length xs \<Longrightarrow> 0 < sz \<Longrightarrow>
   base \<le> search_loop xs key base sz \<and> search_loop xs key base sz < base + sz \<and>
   (\<forall>j. base \<le> j \<and> j < base + sz \<and> xs ! j = key \<longrightarrow> search_loop xs key base sz = j)"
proof (induction xs key base sz rule: search_loop.induct)
  case (1 xs key base sz)
  show ?case
  proof (cases "1 < sz")
    case False
    then have "sz = 1" using "1.prems"(3) by simp
    then show ?thesis by (subst (1 2 3) search_loop.simps) auto
  next
    case True
    let ?mid = "base + sz div 2"
    let ?b = "if key < xs ! ?mid then base else ?mid"
    have half: "0 < sz div 2" "sz div 2 < sz" using True by auto
    have eq: "search_loop xs key base sz = search_loop xs key ?b (sz - sz div 2)"
      using True by (subst search_loop.simps) (simp add: Let_def)
    have b: "?b + (sz - sz div 2) \<le> length xs" "0 < sz - sz div 2"
      using "1.prems" half by (auto split: if_splits)
    note IH = "1.IH"[OF True refl refl "1.prems"(1) b]
    have inb: "?b \<le> j \<and> j < ?b + (sz - sz div 2)"
      if j: "base \<le> j" "j < base + sz" "xs ! j = key" for j
    proof (cases "key < xs ! ?mid")
      case True
      have "j < ?mid"
      proof (rule ccontr)
        assume "\<not> j < ?mid"
        then have "xs ! ?mid \<le> xs ! j"
          using "1.prems"(1,2) j by (cases "?mid = j") (auto simp: sorted_wrt_iff_nth_less intro!: less_imp_le)
        with True j show False by simp
      qed
      then show ?thesis using True j by auto
    next
      case False
      have "?mid \<le> j"
      proof (rule ccontr)
        assume "\<not> ?mid \<le> j"
        then have "xs ! j < xs ! ?mid"
          using "1.prems"(1,2) half by (auto simp: sorted_wrt_iff_nth_less)
        with False j show False by simp
      qed
      then show ?thesis using False j by auto
    qed
    have "base \<le> ?b" "?b + (sz - sz div 2) \<le> base + sz" using half by auto
    with IH have "base \<le> search_loop xs key base sz \<and> search_loop xs key base sz < base + sz"
      unfolding eq by (meson le_trans less_le_trans)
    moreover have "search_loop xs key base sz = j" if "base \<le> j \<and> j < base + sz \<and> xs ! j = key" for j
      using IH inb[of j] that unfolding eq by blast
    ultimately show ?thesis by blast
  qed
qed

lemma index_slot_iff:
  assumes "sorted_wrt (<) (di_keys idx)"
  shows "index_slot idx key = Some j \<longleftrightarrow> j < length (di_keys idx) \<and> di_keys idx ! j = key"
proof (cases "di_keys idx = []")
  case False
  then have n: "0 + length (di_keys idx) \<le> length (di_keys idx)" "0 < length (di_keys idx)" by auto
  from search_loop_correct[OF assms n, of key] False show ?thesis
    by (auto simp: index_slot_def Let_def)
qed (simp add: index_slot_def)

section \<open>What the builder makes\<close>

lemma NO_ENTRY_max [simp]: "e \<le> NO_ENTRY"
proof -
  have "NO_ENTRY = (- 1 :: u32)" by (simp add: NO_ENTRY_def)
  then show ?thesis using word_order.extremum[of e] by simp
qed

text \<open>The least entry of a key and a kind, or \<^const>\<open>NO_ENTRY\<close>.\<close>

fun least_entry :: "domain_match_kind \<Rightarrow> string \<Rightarrow> domain_item list \<Rightarrow> u32" where
  "least_entry kd k [] = NO_ENTRY"
| "least_entry kd k ((k', e, kd') # items) =
     (if k' = k \<and> kd' = kd then min e (least_entry kd k items) else least_entry kd k items)"

lemma least_entry_snoc:
  "least_entry kd k (items @ [(k', e, kd')]) =
     (if k' = k \<and> kd' = kd then min (least_entry kd k items) e else least_entry kd k items)"
  by (induction items) (auto simp: min.assoc min_absorb1 min_absorb2)

lemma least_entry_le: "(k, e, kd) \<in> set items \<Longrightarrow> least_entry kd k items \<le> e"
  by (induction items) (auto simp: min_le_iff_disj)

lemma least_entry_in: "least_entry kd k items = NO_ENTRY \<or> (k, least_entry kd k items, kd) \<in> set items"
proof (induction items)
  case (Cons i items)
  then show ?case by (cases i) (auto simp: min_def)
qed simp

lemma least_entry_fresh: "k \<notin> fst ` set items \<Longrightarrow> least_entry kd k items = NO_ENTRY"
  by (induction items) force+

definition index_of :: "domain_item list \<Rightarrow> domain_index \<Rightarrow> bool" where
  "index_of items idx \<longleftrightarrow>
     sorted_wrt (<) (di_keys idx) \<and> set (di_keys idx) = fst ` set items \<and>
     di_exact idx = map (\<lambda>k. least_entry Exact k items) (di_keys idx) \<and>
     di_suffix idx = map (\<lambda>k. least_entry Suffix k items) (di_keys idx)"

lemma set_last_snoc: "set_last e (xs @ [v]) = xs @ [min v e]"
proof -
  have "v = NO_ENTRY \<Longrightarrow> min v e = e" using NO_ENTRY_max[of e] by (simp add: min_absorb2)
  moreover have "e < v \<Longrightarrow> min v e = e" "\<not> e < v \<Longrightarrow> min v e = v" by (auto simp: min_def)
  ultimately show ?thesis by (auto simp: set_last_def Let_def nth_append)
qed

lemma build_step_index_of:
  assumes "index_of items idx" and "\<forall>k'\<in>fst ` set items. k' \<le> k"
  shows "index_of (items @ [(k, e, kd)]) (build_step idx (k, e, kd))"
proof -
  have sorted: "sorted_wrt (<) (di_keys idx)" and keys: "set (di_keys idx) = fst ` set items"
    and ex: "di_exact idx = map (\<lambda>k. least_entry Exact k items) (di_keys idx)"
    and su: "di_suffix idx = map (\<lambda>k. least_entry Suffix k items) (di_keys idx)"
    using assms(1) by (auto simp: index_of_def)
  show ?thesis
  proof (cases "k \<in> set (di_keys idx)")
    case True
    then obtain ks where ks: "di_keys idx = ks @ [k]"
    proof -
      obtain ks l where kl: "di_keys idx = ks @ [l]" using True by (metis empty_iff empty_set rev_exhaust)
      have "l \<in> set (di_keys idx)" using kl by simp
      then have "l \<le> k" using assms(2) keys by blast
      then have "l = k" using True sorted kl by (auto simp: sorted_wrt_append)
      then show ?thesis using kl that by blast
    qed
    then have "k \<notin> set ks" using sorted by (auto simp: sorted_wrt_append)
    then show ?thesis
      using sorted keys ex su ks True
      by (cases kd)
         (auto simp: index_of_def build_step_def Let_def least_entry_snoc set_last_snoc
               intro!: map_cong)
  next
    case False
    then have fresh: "least_entry kd' k items = NO_ENTRY" for kd'
      using keys by (intro least_entry_fresh) simp
    have less: "\<forall>k'\<in>set (di_keys idx). k' < k"
      using assms(2) keys False by (metis le_less)
    have "\<not> (di_keys idx \<noteq> [] \<and> last (di_keys idx) = k)" using False last_in_set by metis
    then show ?thesis
      using sorted keys ex su less fresh False
      by (cases kd)
         (auto simp: index_of_def build_step_def Let_def least_entry_snoc set_last_snoc sorted_wrt_append
               intro!: map_cong)
  qed
qed

lemma build_loop_index_of:
  "sorted (map (\<lambda>(k, e, _). (k, e)) items) \<Longrightarrow>
   index_of items (foldl build_step domain_index_default items)"
proof (induction items rule: rev_induct)
  case Nil
  then show ?case by (simp add: index_of_def domain_index_default_def)
next
  case (snoc i items)
  obtain k e kd where i: "i = (k, e, kd)" by (cases i) auto
  have "\<forall>k'\<in>fst ` set items. k' \<le> k"
    using snoc.prems i by (fastforce simp: sorted_append less_eq_prod_def)
  with snoc show ?case using build_step_index_of i by (auto simp: sorted_append)
qed

lemma least_entry_cong: "set items = set items' \<Longrightarrow> least_entry kd k items = least_entry kd k items'"
  by (metis NO_ENTRY_max antisym least_entry_in least_entry_le)

lemma build_index_of: "index_of items (build_index items)"
proof -
  let ?s = "sort_key (\<lambda>(k, e, _). (k, e)) items"
  have "index_of ?s (build_index items)"
    unfolding build_index_def by (rule build_loop_index_of) (rule sorted_sort_key)
  moreover have "least_entry kd k ?s = least_entry kd k items" for kd k
    by (rule least_entry_cong) simp
  ultimately show ?thesis by (simp add: index_of_def)
qed

section \<open>What the lookup finds\<close>

text \<open>An added key covers a reversed host: it is the host, or for a suffix it ends at a label boundary.\<close>

definition key_covers :: "domain_match_kind \<Rightarrow> string \<Rightarrow> string \<Rightarrow> bool" where
  "key_covers kd k full \<longleftrightarrow> k = full \<or> (kd = Suffix \<and> (\<exists>r. full = k @ CHR ''.'' # r))"

lemma boundary_prefix:
  "(\<exists>r. full = k @ CHR ''.'' # r) \<longleftrightarrow> (\<exists>i<length full. full ! i = CHR ''.'' \<and> k = take i full)"
  by (metis append_eq_conv_conj id_take_nth_drop length_append length_Cons less_add_Suc1 nth_append_length
      add_Suc_right)

lemma index_of_slot:
  assumes "index_of items idx"
  shows "index_slot idx k = Some s \<Longrightarrow>
      di_exact idx ! s = least_entry Exact k items \<and> di_suffix idx ! s = least_entry Suffix k items"
    and "index_slot idx k = None \<longleftrightarrow> k \<notin> fst ` set items"
proof -
  have sorted: "sorted_wrt (<) (di_keys idx)" using assms by (simp add: index_of_def)
  show "index_slot idx k = Some s \<Longrightarrow>
      di_exact idx ! s = least_entry Exact k items \<and> di_suffix idx ! s = least_entry Suffix k items"
    using assms index_slot_iff[OF sorted] by (auto simp: index_of_def)
  have "index_slot idx k = None \<longleftrightarrow> k \<notin> set (di_keys idx)"
    using index_slot_iff[OF sorted, of k] by (metis in_set_conv_nth not_None_eq)
  then show "index_slot idx k = None \<longleftrightarrow> k \<notin> fst ` set items"
    using assms by (simp add: index_of_def)
qed

lemma set_concat_if:
  "set (concat (map (\<lambda>i. if P i then if Q i then [f i] else [] else []) is)) =
     {f i | i. i \<in> set is \<and> P i \<and> Q i}"
  by (induction "is") auto

lemma ex_match_kind: "(\<exists>kd. P kd) \<longleftrightarrow> P Exact \<or> P Suffix"
proof
  assume "\<exists>kd. P kd"
  then obtain kd where "P kd" ..
  then show "P Exact \<or> P Suffix" by (cases kd) auto
qed auto

lemma both_kinds:
  "{(g kd k, kd) | kd k. P kd k} = {(g Exact k, Exact) | k. P Exact k} \<union> {(g Suffix k, Suffix) | k. P Suffix k}"
  unfolding ex_match_kind by (rule Collect_disj_eq)

lemma set_considered:
  assumes "index_of items idx"
  shows "set (considered idx full) =
    {(least_entry kd k items, kd) | kd k. k \<in> fst ` set items \<and> key_covers kd k full}"
proof -
  have suf: "(case index_slot idx k of None \<Rightarrow> [] | Some s \<Rightarrow> [(di_suffix idx ! s, Suffix)]) =
      (if k \<in> fst ` set items then [(least_entry Suffix k items, Suffix)] else [])" for k
    using index_of_slot[OF assms, of k] by (auto split: option.splits)
  have ful: "(case index_slot idx full of None \<Rightarrow> []
      | Some s \<Rightarrow> [(di_suffix idx ! s, Suffix), (di_exact idx ! s, Exact)]) =
      (if full \<in> fst ` set items
       then [(least_entry Suffix full items, Suffix), (least_entry Exact full items, Exact)] else [])"
    using index_of_slot[OF assms, of full] by (auto split: option.splits)
  have pre: "set (concat (map (\<lambda>i. if full ! i = CHR ''.'' then
        (if take i full \<in> fst ` set items then [(least_entry Suffix (take i full) items, Suffix)] else [])
      else []) [0..<length full])) =
    {(least_entry Suffix k items, Suffix) | k. k \<in> fst ` set items \<and>
        (\<exists>i<length full. full ! i = CHR ''.'' \<and> k = take i full)}"
    unfolding set_concat_if atLeast_upt[symmetric] atLeastLessThan_iff lessThan_iff
    by (rule Collect_cong) metis
  show ?thesis
    unfolding considered_def suf ful set_append pre both_kinds key_covers_def boundary_prefix by auto
qed

lemma foldl_consider_slot:
  "(case foldl consider_slot best cs of
      None \<Rightarrow> best = None \<and> (\<forall>(e, kd)\<in>set cs. e = NO_ENTRY)
    | Some h \<Rightarrow> (best = Some h \<or> ((dh_entry h, dh_kind h) \<in> set cs \<and> dh_entry h \<noteq> NO_ENTRY)) \<and>
        (\<forall>b. best = Some b \<longrightarrow> dh_entry h \<le> dh_entry b) \<and> (\<forall>(e, kd)\<in>set cs. dh_entry h \<le> e))"
proof (induction cs arbitrary: best)
  case Nil
  then show ?case by (auto split: option.splits)
next
  case (Cons c cs)
  obtain e kd where c: "c = (e, kd)" by (cases c)
  have step: "consider_slot best c = Some h \<Longrightarrow> dh_entry h \<le> e" for h
    by (auto simp: consider_slot_def c split: if_splits option.splits)
  show ?case
    using Cons.IH[of "consider_slot best c"] step
    by (fastforce simp: consider_slot_def c split: option.splits if_splits)
qed

definition names_covers :: "domain_match_kind \<Rightarrow> string \<Rightarrow> string \<Rightarrow> bool" where
  "names_covers kd d host \<longleftrightarrow>
     label_name d \<noteq> [] \<and>
     (label_name d = label_name host \<or>
      (kd = Suffix \<and> ends_with (CHR ''.'' # label_name d) (label_name host)))"

lemma join_with_append:
  "a \<noteq> [] \<Longrightarrow> b \<noteq> [] \<Longrightarrow> join_with c (a @ b) = join_with c a @ c # join_with c b"
  by (induction c a rule: join_with.induct) (auto simp: neq_Nil_conv)

lemma reversed_join:
  "split_on (CHR ''.'') (join_with (CHR ''.'') (rev (split_on (CHR ''.'') d))) = rev (split_on (CHR ''.'') d)"
  by (rule split_join_with) (auto dest: split_on_pieces)

lemma reversed_boundary:
  assumes "rd = join_with (CHR ''.'') (rev (split_on (CHR ''.'') d))"
    and "rh = join_with (CHR ''.'') (rev (split_on (CHR ''.'') h))"
  shows "rd = rh \<longleftrightarrow> d = h" and "(\<exists>r. rh = rd @ CHR ''.'' # r) \<longleftrightarrow> (\<exists>p. h = p @ CHR ''.'' # d)"
proof -
  show "rd = rh \<longleftrightarrow> d = h" using assms by (metis join_split_on reversed_join rev_rev_ident)
  show "(\<exists>r. rh = rd @ CHR ''.'' # r) \<longleftrightarrow> (\<exists>p. h = p @ CHR ''.'' # d)"
  proof
    assume "\<exists>r. rh = rd @ CHR ''.'' # r"
    then obtain r where "rev (split_on (CHR ''.'') h) = rev (split_on (CHR ''.'') d) @ split_on (CHR ''.'') r"
      using assms by (metis reversed_join split_on_append)
    then have "split_on (CHR ''.'') h = rev (split_on (CHR ''.'') r) @ split_on (CHR ''.'') d"
      by (metis rev_append rev_rev_ident)
    then have "h = join_with (CHR ''.'') (rev (split_on (CHR ''.'') r)) @ CHR ''.'' # d"
      using join_with_append[of "rev (split_on (CHR ''.'') r)" "split_on (CHR ''.'') d" "CHR ''.''"]
      by (metis join_split_on rev_is_Nil_conv split_on_not_Nil)
    then show "\<exists>p. h = p @ CHR ''.'' # d" by blast
  next
    assume "\<exists>p. h = p @ CHR ''.'' # d"
    then obtain p where "split_on (CHR ''.'') h = split_on (CHR ''.'') p @ split_on (CHR ''.'') d"
      by (metis split_on_append)
    then have "rh = join_with (CHR ''.'') (rev (split_on (CHR ''.'') d) @ rev (split_on (CHR ''.'') p))"
      using assms(2) by simp
    also have "\<dots> = rd @ CHR ''.'' # join_with (CHR ''.'') (rev (split_on (CHR ''.'') p))"
      unfolding assms(1) by (rule join_with_append) simp_all
    finally show "\<exists>r. rh = rd @ CHR ''.'' # r" by blast
  qed
qed

lemma key_covers_names:
  assumes "reverse_labels d = Some k" "reverse_labels host = Some full"
  shows "key_covers kd k full \<longleftrightarrow> names_covers kd d host"
proof -
  have e: "ends_with (CHR ''.'' # x) y \<longleftrightarrow> (\<exists>p. y = p @ CHR ''.'' # x)" for x y
    by (simp add: ends_with_suffix suffix_def)
  have "label_name d \<noteq> []"
      "k = join_with (CHR ''.'') (rev (split_on (CHR ''.'') (label_name d)))"
      "full = join_with (CHR ''.'') (rev (split_on (CHR ''.'') (label_name host)))"
    using assms by (auto simp: reverse_labels_def Let_def split: if_splits)
  then show ?thesis
    using reversed_boundary[of k "label_name d" full "label_name host"]
    by (simp add: key_covers_def names_covers_def e)
qed

text \<open>The names as they are given to the builder, one after the other.\<close>

fun add_all :: "(domain_match_kind \<times> string \<times> u32) list \<Rightarrow> domain_item list \<Rightarrow> domain_item list" where
  "add_all [] items = items"
| "add_all ((Exact, d, e) # adds) items = add_all adds (add_exact d e items)"
| "add_all ((Suffix, d, e) # adds) items = add_all adds (add_suffix d e items)"

lemma set_add_all:
  "set (add_all adds items) =
     set items \<union> {(k, e, kd). \<exists>d. (kd, d, e) \<in> set adds \<and> reverse_labels d = Some k}"
  by (induction adds items rule: add_all.induct)
     (auto simp: add_exact_def add_suffix_def split: option.splits)

lemma lookup_items:
  assumes "index_of items idx" "reverse_labels host = Some full" "\<forall>(k, e, kd)\<in>set items. e \<noteq> NO_ENTRY"
  shows "case domain_lookup idx host of
      None \<Rightarrow> \<forall>(k, e, kd)\<in>set items. \<not> key_covers kd k full
    | Some h \<Rightarrow> (\<exists>k. (k, dh_entry h, dh_kind h) \<in> set items \<and> key_covers (dh_kind h) k full) \<and>
        (\<forall>(k, e, kd)\<in>set items. key_covers kd k full \<longrightarrow> dh_entry h \<le> e)"
proof -
  note cons = set_considered[OF assms(1), of full]
  have cand: "(least_entry kd k items, kd) \<in> set (considered idx full)" "least_entry kd k items \<le> e"
      "least_entry kd k items \<noteq> NO_ENTRY"
    if "(k, e, kd) \<in> set items" "key_covers kd k full" for k e kd
  proof -
    have "k \<in> fst ` set items" using that(1) by force
    then show "(least_entry kd k items, kd) \<in> set (considered idx full)"
      unfolding cons using that(2) by blast
    show le: "least_entry kd k items \<le> e" using that(1) by (rule least_entry_le)
    show "least_entry kd k items \<noteq> NO_ENTRY"
      using le that(1) assms(3) NO_ENTRY_max[of e] by (auto dest: antisym)
  qed
  show ?thesis
  proof (cases "domain_lookup idx host")
    case None
    then have "\<forall>(e, kd)\<in>set (considered idx full). e = NO_ENTRY"
      using foldl_consider_slot[of None "considered idx full"] assms(2) by (simp add: domain_lookup_def)
    then have "\<not> key_covers kd k full" if "(k, e, kd) \<in> set items" for k e kd
      using cand[OF that] by blast
    then show ?thesis using None by auto
  next
    case (Some h)
    then have h: "(dh_entry h, dh_kind h) \<in> set (considered idx full)" "dh_entry h \<noteq> NO_ENTRY"
        "\<forall>(e, kd)\<in>set (considered idx full). dh_entry h \<le> e"
      using foldl_consider_slot[of None "considered idx full"] assms(2) by (simp_all add: domain_lookup_def)
    from h(1,2) obtain k where "dh_entry h = least_entry (dh_kind h) k items" "key_covers (dh_kind h) k full"
        "(k, dh_entry h, dh_kind h) \<in> set items"
      unfolding cons using least_entry_in by (smt (verit) Pair_inject mem_Collect_eq)
    moreover have "dh_entry h \<le> e" if "(k, e, kd) \<in> set items" "key_covers kd k full" for k e kd
      using cand(1,2)[OF that] h(3) by (auto intro: order_trans)
    ultimately show ?thesis using Some by auto
  qed
qed

text \<open>
  C11. The index finds a host exactly when one of the added names covers it, exactly or as a
  suffix at a label boundary, and the hit it reports is one of those names, with the least
  entry number of all of them.
\<close>

theorem domain_lookup_correct:
  assumes "\<forall>(kd, d, e)\<in>set adds. e \<noteq> NO_ENTRY"
  shows "case domain_lookup (build_index (add_all adds [])) host of
      None \<Rightarrow> \<forall>(kd, d, e)\<in>set adds. \<not> names_covers kd d host
    | Some h \<Rightarrow> (\<exists>d. (dh_kind h, d, dh_entry h) \<in> set adds \<and> names_covers (dh_kind h) d host) \<and>
        (\<forall>(kd, d, e)\<in>set adds. names_covers kd d host \<longrightarrow> dh_entry h \<le> e)"
proof (cases "reverse_labels host")
  case None
  then have "label_name host = []" by (auto simp: reverse_labels_def Let_def split: if_splits)
  then have "\<not> names_covers kd d host" for kd d by (auto simp: names_covers_def ends_with_def)
  with None show ?thesis by (simp add: domain_lookup_def)
next
  case (Some full)
  let ?items = "add_all adds []"
  have covers: "names_covers kd d host \<longleftrightarrow> (\<exists>k. reverse_labels d = Some k \<and> key_covers kd k full)" for kd d
    using key_covers_names[OF _ Some]
    by (cases "reverse_labels d") (auto simp: names_covers_def reverse_labels_def Let_def split: if_splits)
  have "\<forall>(k, e, kd)\<in>set ?items. e \<noteq> NO_ENTRY" using assms by (fastforce simp: set_add_all)
  note look = lookup_items[OF build_index_of Some this]
  have items: "(k, e, kd) \<in> set ?items \<longleftrightarrow> (\<exists>d. (kd, d, e) \<in> set adds \<and> reverse_labels d = Some k)" for k e kd
    by (simp add: set_add_all)
  show ?thesis
  proof (cases "domain_lookup (build_index ?items) host")
    case None
    then have "\<not> key_covers kd k full" if "(k, e, kd) \<in> set ?items" for k e kd using look that by auto
    then show ?thesis using None by (auto simp: covers items)
  next
    case (Some h)
    then have "\<exists>k. (k, dh_entry h, dh_kind h) \<in> set ?items \<and> key_covers (dh_kind h) k full"
        and "\<And>k e kd. (k, e, kd) \<in> set ?items \<Longrightarrow> key_covers kd k full \<Longrightarrow> dh_entry h \<le> e"
      using look by auto
    then show ?thesis using Some by (auto simp: covers items)
  qed
qed

theorem domain_lookup_correct_witness:
  "NO_ENTRY \<notin> (snd \<circ> snd) ` set [(Exact, ''www.a.com'', 1), (Suffix, ''a.com'', (0::u32))] \<and>
   domain_lookup (build_index (add_all [(Exact, ''www.a.com'', 1), (Suffix, ''a.com'', 0)] [])) ''www.A.com'' =
     Some \<lparr>dh_entry = 0, dh_kind = Suffix\<rparr> \<and>
   names_covers Suffix ''a.com'' ''www.A.com''"
proof -
  let ?adds = "[(Exact, ''www.a.com'', 1), (Suffix, ''a.com'', (0::u32))]"
  have h: "\<forall>(kd, d, e)\<in>set ?adds. e \<noteq> NO_ENTRY" by code_simp
  have l: "domain_lookup (build_index (add_all ?adds [])) ''www.A.com'' =
     Some \<lparr>dh_entry = 0, dh_kind = Suffix\<rparr>" by code_simp
  from domain_lookup_correct[OF h, of "''www.A.com''"] l show ?thesis
    by (auto simp: NO_ENTRY_def)
qed

end
