(* ===== verification/Rurge_Set.thy ===== *)
theory Rurge_Set
  imports Rurge_Set_Format Rurge_Domain_Index
begin

text \<open>
  A compiled set, \<^verbatim>\<open>crates/rurge-rules/src/set.rs\<close>: how it is made of the lines of a set file and
  how it is evaluated, and the knot that ties matchers and sets. The handles of the sets are
  numbers and a store maps them to what they hold; an evaluation reads one store, which is
  what a handle swapped in the middle of one could show differently.
\<close>

section \<open>Model\<close>

record compiled_set =
  cset_name :: string
  cset_kind :: set_kind
  cset_needs_dns :: bool
  cset_version :: u64
  cset_extended :: bool
  cset_domains :: domain_index
  cset_ips :: ip_index
  cset_ips_resolve :: bool
  cset_asns :: "(u32 \<times> u32) list"
  cset_asns_resolve :: bool
  cset_linear :: "(u32 \<times> compiled_sub) list"
  cset_entries :: "string list"

definition is_domain_rule :: "rule_kind \<Rightarrow> bool" where
  "is_domain_rule k =
     (case k of KDomain _ \<Rightarrow> True | KDomainSuffix _ \<Rightarrow> True | KDomainKeyword _ \<Rightarrow> True
      | KDomainWildcard _ \<Rightarrow> True | KDomainSet _ \<Rightarrow> True | _ \<Rightarrow> False)"

definition compiled_set_empty :: "string \<Rightarrow> set_kind \<Rightarrow> compiled_set" where
  "compiled_set_empty name kind =
     \<lparr>cset_name = name, cset_kind = kind, cset_needs_dns = False, cset_version = 0,
      cset_extended = False, cset_domains = domain_index_default, cset_ips = ip_index_default,
      cset_ips_resolve = False, cset_asns = [], cset_asns_resolve = False, cset_linear = [],
      cset_entries = []\<rparr>"

text \<open>What the loop of \<open>CompiledSet::compile\<close> fills.\<close>

record set_builder =
  sb_domains :: "domain_item list"
  sb_ips :: ip_index
  sb_linear :: "(u32 \<times> compiled_sub) list"
  sb_entries :: "string list"
  sb_needs_dns :: bool
  sb_ips_resolve :: bool
  sb_asns :: "(u32 \<times> u32) list"
  sb_asns_resolve :: bool

definition set_builder_new :: set_builder where
  "set_builder_new =
     \<lparr>sb_domains = [], sb_ips = ip_index_default, sb_linear = [], sb_entries = [],
      sb_needs_dns = False, sb_ips_resolve = False, sb_asns = [], sb_asns_resolve = False\<rparr>"

definition set_extended :: "set_line list \<Rightarrow> bool" where
  "set_extended lines =
     list_ex (\<lambda>line. case line of
                       SLRule sub \<Rightarrow> sub_extended_matching sub \<and> is_domain_rule (sub_kind sub)
                     | SLDomain _ _ \<Rightarrow> False) lines"

definition linear_needs_dns :: "rule_kind \<Rightarrow> bool" where
  "linear_needs_dns k =
     (case k of KGeoIp _ \<Rightarrow> True | KGeoIpUnknown \<Rightarrow> True | KIpAsnUnknown \<Rightarrow> True | KRuleSet _ \<Rightarrow> True
      | KDomainSet _ \<Rightarrow> True | KAnd _ \<Rightarrow> True | KOr _ \<Rightarrow> True | KNot _ \<Rightarrow> True | _ \<Rightarrow> False)"

definition extend_rule :: "compiled_sub \<Rightarrow> compiled_sub" where
  "extend_rule r = (case r of CompiledSub m nr ex raw \<Rightarrow> CompiledSub m nr True raw)"

definition set_add_line ::
    "ext \<Rightarrow> bool \<Rightarrow> set_lookup \<Rightarrow> bool \<Rightarrow> set_builder \<Rightarrow> nat \<times> set_line \<Rightarrow> set_builder" where
  "set_add_line x win sets extended b il =
     (let i = (of_nat (fst il) :: u32) in
      case snd il of
        SLDomain name sfx \<Rightarrow>
          if sfx then b\<lparr>sb_domains := add_suffix name i (sb_domains b),
                        sb_entries := sb_entries b @ [CHR ''.'' # name]\<rparr>
          else b\<lparr>sb_domains := add_exact name i (sb_domains b), sb_entries := sb_entries b @ [name]\<rparr>
      | SLRule sub \<Rightarrow>
          let b = b\<lparr>sb_entries := sb_entries b @ [sub_raw sub]\<rparr>;
              resolves = \<not> sub_no_resolve sub in
          (case sub_kind sub of
             KDomain d \<Rightarrow> b\<lparr>sb_domains := add_exact d i (sb_domains b)\<rparr>
           | KDomainSuffix d \<Rightarrow> b\<lparr>sb_domains := add_suffix d i (sb_domains b)\<rparr>
           | KIpCidr net \<Rightarrow>
               b\<lparr>sb_ips := add_v4 x net i (sb_ips b),
                 sb_needs_dns := sb_needs_dns b \<or> resolves,
                 sb_ips_resolve := sb_ips_resolve b \<or> resolves\<rparr>
           | KIpCidr6 net \<Rightarrow>
               b\<lparr>sb_ips := add_v6 x net i (sb_ips b),
                 sb_needs_dns := sb_needs_dns b \<or> resolves,
                 sb_ips_resolve := sb_ips_resolve b \<or> resolves\<rparr>
           | KIpAsn asn \<Rightarrow>
               b\<lparr>sb_asns := (if map_of (sb_asns b) asn = None then sb_asns b @ [(asn, i)] else sb_asns b),
                 sb_needs_dns := sb_needs_dns b \<or> resolves,
                 sb_asns_resolve := sb_asns_resolve b \<or> resolves\<rparr>
           | other \<Rightarrow>
               let rule = compile_subrule win sets sub;
                   rule = (if extended \<and> is_domain_rule (sub_kind sub) then extend_rule rule else rule)
               in b\<lparr>sb_needs_dns := sb_needs_dns b \<or> (resolves \<and> linear_needs_dns other),
                    sb_linear := sb_linear b @ [(i, rule)]\<rparr>))"

definition compiled_set_compile ::
    "ext \<Rightarrow> bool \<Rightarrow> string \<Rightarrow> set_kind \<Rightarrow> parsed_set \<Rightarrow> set_lookup \<Rightarrow> u64 \<Rightarrow> compiled_set" where
  "compiled_set_compile x win name kind parsed sets version =
     (let extended = set_extended (ps_lines parsed);
          b = foldl (set_add_line x win sets extended) set_builder_new (enumerate 0 (ps_lines parsed))
      in \<lparr>cset_name = name, cset_kind = kind, cset_needs_dns = sb_needs_dns b,
          cset_version = version, cset_extended = extended, cset_domains = build_index (sb_domains b),
          cset_ips = sb_ips b, cset_ips_resolve = sb_ips_resolve b, cset_asns = sb_asns b,
          cset_asns_resolve = sb_asns_resolve b, cset_linear = sb_linear b,
          cset_entries = sb_entries b\<rparr>)"

definition set_entry :: "compiled_set \<Rightarrow> u32 \<Rightarrow> string" where
  "set_entry c i = (if unat i < length (cset_entries c) then cset_entries c ! unat i else '''')"

definition set_hit :: "compiled_set \<Rightarrow> u32 \<Rightarrow> set_verdict" where
  "set_hit c i = \<lparr>sv_verdict = Match, sv_entry = Some (set_entry c i)\<rparr>"

section \<open>Evaluation\<close>

text \<open>The names the domain index of a set is asked, in order.\<close>

definition set_targets :: "compiled_set \<Rightarrow> session_info \<Rightarrow> bool \<Rightarrow> string list" where
  "set_targets c s extended =
     option_list (as_domain (s_dst_host s)) @
     (if extended \<or> cset_extended c then option_list (s_sni s) @ option_list (s_http_host s) else [])"

fun lookup_first :: "domain_index \<Rightarrow> string list \<Rightarrow> domain_hit option" where
  "lookup_first idx [] = None"
| "lookup_first idx (t # ts) =
     (case domain_lookup idx t of Some h \<Rightarrow> Some h | None \<Rightarrow> lookup_first idx ts)"

text \<open>
  The phases of the evaluation after the domain index. Each has found a hit or goes on with
  what the lines so far still need: the connection, the process, the resolution.
\<close>

type_synonym needs = "bool \<times> bool \<times> bool"

fun linear_loop :: "((u32 \<times> (eval_ctx \<Rightarrow> verdict \<times> eval_ctx)) list) \<Rightarrow> needs \<Rightarrow> eval_ctx \<Rightarrow>
    (u32 + needs) \<times> eval_ctx" where
  "linear_loop [] nd ctx = (Inr nd, ctx)"
| "linear_loop ((i, ev) # evs) (nc, np, nr) ctx =
     (case ev ctx of
        (v, ctx') \<Rightarrow>
          if v = Match then (Inl i, ctx')
          else linear_loop evs (nc \<or> v = NeedsConnection, np \<or> v = NeedsProcess, nr \<or> v = NeedsResolve) ctx')"

definition needs_err :: "needs \<Rightarrow> verdict \<Rightarrow> needs" where
  "needs_err nd v =
     (case nd of (nc, np, nr) \<Rightarrow> (nc \<or> v = NeedsConnection, np, nr \<or> v = NeedsResolve))"

definition asn_phase :: "compiled_set \<Rightarrow> session_info \<Rightarrow> bool \<Rightarrow> needs \<Rightarrow> eval_ctx \<Rightarrow> (u32 + needs) \<times> eval_ctx" where
  "asn_phase c s no_resolve nd ctx =
     (if cset_asns c = [] then (Inr nd, ctx)
      else case target_ip s ctx (no_resolve \<or> \<not> cset_asns_resolve c) FamAny of
             Inr ip \<Rightarrow>
               (case ctx_asn ip ctx of
                  (Known asn, ctx') \<Rightarrow>
                    (case map_of (cset_asns c) asn of Some i \<Rightarrow> (Inl i, ctx') | None \<Rightarrow> (Inr nd, ctx'))
                | (_, ctx') \<Rightarrow> (Inr nd, ctx'))
           | Inl v \<Rightarrow> (Inr (needs_err nd v), ctx))"

definition ip_family :: "ext \<Rightarrow> compiled_set \<Rightarrow> session_info \<Rightarrow> eval_ctx \<Rightarrow> bool \<Rightarrow> family \<Rightarrow> needs \<Rightarrow> u32 + needs" where
  "ip_family x c s ctx no_resolve fam nd =
     (case target_ip s ctx (no_resolve \<or> \<not> cset_ips_resolve c) fam of
        Inr ip \<Rightarrow> (case ip_lookup x (cset_ips c) ip of Some i \<Rightarrow> Inl i | None \<Rightarrow> Inr nd)
      | Inl v \<Rightarrow> Inr (needs_err nd v))"

definition ip_phase :: "ext \<Rightarrow> compiled_set \<Rightarrow> session_info \<Rightarrow> eval_ctx \<Rightarrow> bool \<Rightarrow> needs \<Rightarrow> u32 + needs" where
  "ip_phase x c s ctx no_resolve nd =
     (if ip_index_is_empty (cset_ips c) then Inr nd
      else case ip_family x c s ctx no_resolve FamV4 nd of
             Inl i \<Rightarrow> Inl i
           | Inr nd' \<Rightarrow> ip_family x c s ctx no_resolve FamV6 nd')"

definition needs_verdict :: "needs \<Rightarrow> set_verdict" where
  "needs_verdict nd =
     (case nd of (nc, np, nr) \<Rightarrow>
        \<lparr>sv_verdict = (case still_needs nc np nr of None \<Rightarrow> NoMatch | Some v \<Rightarrow> v), sv_entry = None\<rparr>)"

definition linear_evs :: "eval_env \<Rightarrow> (set_handle \<Rightarrow> set_match) \<Rightarrow> compiled_set \<Rightarrow> session_info \<Rightarrow> bool \<Rightarrow> bool \<Rightarrow>
    (u32 \<times> (eval_ctx \<Rightarrow> verdict \<times> eval_ctx)) list" where
  "linear_evs env sets c s no_resolve extended =
     map (\<lambda>(i, rule). (i, \<lambda>ctx. eval env sets s (cs_matcher rule) ctx
            (no_resolve \<or> cs_no_resolve rule) (extended \<or> cs_extended rule)))
       (cset_linear c)"

definition compiled_set_eval ::
    "eval_env \<Rightarrow> (set_handle \<Rightarrow> set_match) \<Rightarrow> compiled_set \<Rightarrow> session_info \<Rightarrow> eval_ctx \<Rightarrow> bool \<Rightarrow> bool \<Rightarrow>
     set_verdict \<times> eval_ctx" where
  "compiled_set_eval env sets c s ctx no_resolve extended =
     (case (if index_is_empty (cset_domains c) then None
            else lookup_first (cset_domains c) (set_targets c s extended)) of
        Some h \<Rightarrow> (set_hit c (dh_entry h), ctx)
      | None \<Rightarrow>
          (case linear_loop (linear_evs env sets c s no_resolve extended) (False, False, False) ctx of
             (Inl i, ctx1) \<Rightarrow> (set_hit c i, ctx1)
           | (Inr nd, ctx1) \<Rightarrow>
               (case asn_phase c s no_resolve nd ctx1 of
                  (Inl i, ctx2) \<Rightarrow> (set_hit c i, ctx2)
                | (Inr nd', ctx2) \<Rightarrow>
                    (case ip_phase (ee_ext env) c s ctx2 no_resolve nd' of
                       Inl i \<Rightarrow> (set_hit c i, ctx2)
                     | Inr nd'' \<Rightarrow> (needs_verdict nd'', ctx2)))))"

section \<open>The knot of matchers and sets\<close>

type_synonym set_store = "set_handle \<Rightarrow> compiled_set"

text \<open>
  Evaluating the set of a handle runs matchers that may evaluate sets again. The number is how
  often that is unfolded; \<open>bottom\<close> is what an evaluation nested deeper would be answered. The
  context counts the nesting and stops at \<^const>\<open>MAX_NESTING\<close>, so that with as many unfoldings
  the bottom is never asked.
\<close>

fun set_calls :: "eval_env \<Rightarrow> (set_handle \<Rightarrow> set_match) \<Rightarrow> set_store \<Rightarrow> nat \<Rightarrow> set_handle \<Rightarrow> set_match" where
  "set_calls env bottom store 0 = bottom"
| "set_calls env bottom store (Suc n) =
     (\<lambda>h. \<lparr>sm_name = cset_name (store h),
           sm_eval = (\<lambda>s ctx nr ex.
             compiled_set_eval env (set_calls env bottom store n) (store h) s ctx nr ex)\<rparr>)"

definition set_bottom :: "set_handle \<Rightarrow> set_match" where
  "set_bottom h =
     \<lparr>sm_name = '''', sm_eval = (\<lambda>s ctx nr ex. (\<lparr>sv_verdict = NoMatch, sv_entry = None\<rparr>, ctx))\<rparr>"

definition matcher_eval :: "eval_env \<Rightarrow> set_store \<Rightarrow> session_info \<Rightarrow> matcher \<Rightarrow> eval_ctx \<Rightarrow> bool \<Rightarrow> bool \<Rightarrow>
    verdict \<times> eval_ctx" where
  "matcher_eval env store = eval env (set_calls env set_bottom store MAX_NESTING)"

end
