(* ===== verification/Rurge_Eval_Facts.thy ===== *)
theory Rurge_Eval_Facts
  imports Rurge_Set
begin

text \<open>
  What every evaluation guarantees, sets included. The locale \<open>set_contract\<close> is what a matcher
  may rely on of a set it refers to; inside it the guarantee is carried to every matcher, and
  it is interpreted on the compiled sets at every level of their nesting. Two more inductions
  follow the same path: that the nesting limit makes the recursion end where the model's
  unfolding does, and that a verdict reached before the connection exists is final.
\<close>

section \<open>What an evaluation keeps\<close>

definition coherent :: "eval_ctx \<Rightarrow> bool" where
  "coherent ctx \<longleftrightarrow>
     (\<forall>ip r. ec_country_cache ctx = Some (ip, r) \<longrightarrow> r = geo_country (ec_geo ctx) ip) \<and>
     (\<forall>ip r. ec_asn_cache ctx = Some (ip, r) \<longrightarrow> r = geo_asn (ec_geo ctx) ip)"

text \<open>All but the hit, the caches and the notes, which only grow, is as it was.\<close>

definition keeps :: "eval_ctx \<Rightarrow> eval_ctx \<Rightarrow> bool" where
  "keeps ctx ctx' \<longleftrightarrow>
     ec_resolved ctx' = ec_resolved ctx \<and> ec_process ctx' = ec_process ctx \<and>
     ec_before_connection ctx' = ec_before_connection ctx \<and> ec_geo ctx' = ec_geo ctx \<and>
     ec_network ctx' = ec_network ctx \<and> ec_set_depth ctx' = ec_set_depth ctx \<and>
     (\<exists>ns. ec_notes ctx' = ec_notes ctx @ ns) \<and> (coherent ctx \<longrightarrow> coherent ctx')"

lemma coherent_updates [simp]:
  "coherent (ctx\<lparr>ec_sub_hit := h\<rparr>) \<longleftrightarrow> coherent ctx" "coherent (ctx\<lparr>ec_set_depth := d\<rparr>) \<longleftrightarrow> coherent ctx"
  by (simp_all add: coherent_def)

lemma keeps_refl [simp]: "keeps ctx ctx"
  by (simp add: keeps_def)

lemma keeps_trans: "keeps a b \<Longrightarrow> keeps b c \<Longrightarrow> keeps a c"
  by (auto simp: keeps_def)

lemma keeps_sub_hit [simp]:
  "keeps (a\<lparr>ec_sub_hit := h\<rparr>) b \<longleftrightarrow> keeps a b" "keeps a (b\<lparr>ec_sub_hit := h\<rparr>) \<longleftrightarrow> keeps a b"
  by (simp_all add: keeps_def coherent_def)

lemma keeps_ctx_country: "keeps ctx (snd (ctx_country ip ctx))"
  by (auto simp: keeps_def coherent_def ctx_country_def Let_def split: option.splits)

lemma keeps_ctx_asn: "keeps ctx (snd (ctx_asn ip ctx))"
  by (auto simp: keeps_def coherent_def ctx_asn_def Let_def split: option.splits)

lemma ctx_country_sub_hit [simp]: "ec_sub_hit (snd (ctx_country ip ctx)) = ec_sub_hit ctx"
  by (auto simp: ctx_country_def Let_def split: option.splits)

lemma ctx_asn_sub_hit [simp]: "ec_sub_hit (snd (ctx_asn ip ctx)) = ec_sub_hit ctx"
  by (auto simp: ctx_asn_def Let_def split: option.splits)

lemma ctx_geo_coherent:
  assumes "coherent ctx"
  shows "fst (ctx_country ip ctx) = geo_country (ec_geo ctx) ip" "fst (ctx_asn ip ctx) = geo_asn (ec_geo ctx) ip"
  using assms by (auto simp: coherent_def ctx_country_def ctx_asn_def Let_def split: option.splits)

text \<open>A verdict asks only for what the context does not have.\<close>

definition answerable :: "session_info \<Rightarrow> eval_ctx \<Rightarrow> verdict \<Rightarrow> bool" where
  "answerable s ctx v \<longleftrightarrow>
     (case v of
        NeedsConnection \<Rightarrow> ec_before_connection ctx
      | NeedsProcess \<Rightarrow> s_process s = None \<and> ec_process ctx = NotAsked
      | NeedsResolve \<Rightarrow> \<not> ec_before_connection ctx \<and> ec_resolved ctx = None \<and> as_ip (s_dst_host s) = None
      | _ \<Rightarrow> True)"

lemma answerable_keeps: "keeps ctx ctx' \<Longrightarrow> answerable s ctx' v \<longleftrightarrow> answerable s ctx v"
  by (simp add: answerable_def keeps_def split: verdict.splits)

lemma answerable_definite [simp]: "answerable s ctx Match" "answerable s ctx NoMatch"
  "answerable s ctx (verdict_of b)"
  by (simp_all add: answerable_def verdict_of_def)

text \<open>The guarantee of an evaluation; that of a loop, which may leave a hit behind.\<close>

definition loop_behaved :: "session_info \<Rightarrow> (eval_ctx \<Rightarrow> verdict \<times> eval_ctx) \<Rightarrow> bool" where
  "loop_behaved s ev \<longleftrightarrow> (\<forall>ctx. keeps ctx (snd (ev ctx)) \<and> answerable s ctx (fst (ev ctx)))"

definition well_behaved :: "session_info \<Rightarrow> (eval_ctx \<Rightarrow> verdict \<times> eval_ctx) \<Rightarrow> bool" where
  "well_behaved s ev \<longleftrightarrow>
     loop_behaved s ev \<and>
     (\<forall>ctx. fst (ev ctx) \<noteq> Match \<longrightarrow> ec_sub_hit (snd (ev ctx)) = ec_sub_hit ctx)"

lemma loop_behavedD:
  assumes "loop_behaved s ev" "ev ctx = (v, ctx')"
  shows "keeps ctx ctx'" "answerable s ctx v"
  using assms unfolding loop_behaved_def by (metis fst_conv snd_conv)+

lemma well_behavedD:
  assumes "well_behaved s ev" "ev ctx = (v, ctx')"
  shows "keeps ctx ctx'" "answerable s ctx v" "v \<noteq> Match \<Longrightarrow> ec_sub_hit ctx' = ec_sub_hit ctx"
  using assms loop_behavedD[of s ev ctx v ctx'] unfolding well_behaved_def by (metis fst_conv snd_conv)+

lemma still_needs_answerable:
  assumes "nc \<Longrightarrow> answerable s ctx NeedsConnection" "np \<Longrightarrow> answerable s ctx NeedsProcess"
    "nr \<Longrightarrow> answerable s ctx NeedsResolve" "answerable s ctx d"
  shows "answerable s ctx (case still_needs nc np nr of None \<Rightarrow> d | Some v \<Rightarrow> v)"
  using assms by (simp add: still_needs_def)

definition flags_ok :: "session_info \<Rightarrow> eval_ctx \<Rightarrow> bool \<Rightarrow> bool \<Rightarrow> bool \<Rightarrow> bool" where
  "flags_ok s ctx nc np nr \<longleftrightarrow>
     (nc \<longrightarrow> answerable s ctx NeedsConnection) \<and> (np \<longrightarrow> answerable s ctx NeedsProcess) \<and>
     (nr \<longrightarrow> answerable s ctx NeedsResolve)"

lemma flags_ok_step:
  "flags_ok s ctx nc np nr \<Longrightarrow> answerable s ctx v \<Longrightarrow> keeps ctx ctx' \<Longrightarrow>
   flags_ok s ctx' (nc \<or> v = NeedsConnection) (np \<or> v = NeedsProcess) (nr \<or> v = NeedsResolve)"
  by (auto simp: flags_ok_def answerable_keeps)

lemma loop_step:
  assumes "\<forall>ev\<in>set evs. loop_behaved s ev" "flags_ok s ctx nc np nr"
  shows "keeps ctx (snd (and_loop evs nc np nr ctx)) \<and> answerable s ctx (fst (and_loop evs nc np nr ctx)) \<and>
    keeps ctx (snd (or_loop evs nc np nr ctx)) \<and> answerable s ctx (fst (or_loop evs nc np nr ctx))"
  using assms
proof (induction evs arbitrary: nc np nr ctx)
  case (Cons ev evs)
  obtain v ctx' where ev: "ev ctx = (v, ctx')" by (cases "ev ctx")
  have "loop_behaved s ev" using Cons.prems(1) by simp
  note k = loop_behavedD[of s ev ctx v ctx', OF this ev]
  note fl = flags_ok_step[OF Cons.prems(2) k(2) k(1)]
  show ?case
    using Cons.IH[OF _ fl] Cons.prems(1) k ev answerable_keeps[OF k(1)] by (auto intro: keeps_trans)
qed (auto simp: flags_ok_def intro: still_needs_answerable)

lemma loops_behaved:
  assumes "\<forall>ev\<in>set evs. well_behaved s ev"
  shows "loop_behaved s (and_loop evs False False False)" "loop_behaved s (or_loop evs False False False)"
  using assms loop_step[of evs s _ False False False] by (auto simp: loop_behaved_def well_behaved_def flags_ok_def)

lemma answerable_sub_hit [simp]: "answerable s (ctx\<lparr>ec_sub_hit := h\<rparr>) v \<longleftrightarrow> answerable s ctx v"
  by (simp add: answerable_def split: verdict.splits)

lemma in_branches_behaved:
  assumes "loop_behaved s ev"
  shows "well_behaved s (in_branches ev)"
proof -
  have "keeps ctx (snd (in_branches ev ctx)) \<and> answerable s ctx (fst (in_branches ev ctx)) \<and>
      (fst (in_branches ev ctx) \<noteq> Match \<longrightarrow> ec_sub_hit (snd (in_branches ev ctx)) = ec_sub_hit ctx)" for ctx
  proof -
    obtain v ctx' where ev: "ev (ctx\<lparr>ec_sub_hit := None\<rparr>) = (v, ctx')" by fastforce
    from loop_behavedD[OF assms ev] ev show ?thesis by (simp add: in_branches_def Let_def)
  qed
  then show ?thesis by (simp add: well_behaved_def loop_behaved_def)
qed

lemma not_arm_behaved:
  assumes "loop_behaved s ev"
  shows "well_behaved s (not_arm ev)"
proof -
  have "keeps ctx (snd (not_arm ev ctx)) \<and> answerable s ctx (fst (not_arm ev ctx)) \<and>
      ec_sub_hit (snd (not_arm ev ctx)) = ec_sub_hit ctx" for ctx
  proof -
    obtain v ctx' where ev: "ev (ctx\<lparr>ec_sub_hit := None\<rparr>) = (v, ctx')" by fastforce
    from loop_behavedD[OF assms ev] ev show ?thesis by (cases v) (simp_all add: not_arm_def Let_def)
  qed
  then show ?thesis by (simp add: well_behaved_def loop_behaved_def)
qed

lemma target_ip_answerable: "target_ip s ctx nr fam = Inl v \<Longrightarrow> answerable s ctx v"
  by (auto simp: target_ip_def answerable_def ok_or_def Let_def split: option.splits if_splits)

lemma by_ip_behaved:
  assumes "\<And>ip ctx. keeps ctx (snd (test ip ctx)) \<and> ec_sub_hit (snd (test ip ctx)) = ec_sub_hit ctx"
  shows "well_behaved s (\<lambda>ctx. by_ip test s ctx nr fam)"
proof -
  have "keeps ctx (snd (by_ip test s ctx nr fam)) \<and> answerable s ctx (fst (by_ip test s ctx nr fam)) \<and>
      ec_sub_hit (snd (by_ip test s ctx nr fam)) = ec_sub_hit ctx" for ctx
  proof (cases "target_ip s ctx nr fam")
    case (Inl v)
    then show ?thesis by (simp add: by_ip_def target_ip_answerable)
  next
    case (Inr ip)
    then show ?thesis using assms[of ctx ip] by (cases "test ip ctx") (simp add: by_ip_def)
  qed
  then show ?thesis by (simp add: well_behaved_def loop_behaved_def)
qed

lemma pure_behaved: "well_behaved s (\<lambda>ctx. (verdict_of (f ctx), ctx))"
  by (simp add: well_behaved_def loop_behaved_def)

lemma process_behaved: "well_behaved s (\<lambda>ctx. eval_leaf env (MProcessName pp) s ctx nr ex)"
proof -
  have "answerable s ctx NeedsProcess" if "s_process s = None" "ec_process ctx = NotAsked" for ctx
    using that by (simp add: answerable_def)
  then show ?thesis
    by (auto simp: well_behaved_def loop_behaved_def eval_leaf_def Let_def split: option.splits process_state.splits)
qed

lemma note_behaved: "well_behaved s (\<lambda>ctx. eval_leaf env (MUnsupported k) s ctx nr ex)"
  by (auto simp: well_behaved_def loop_behaved_def eval_leaf_def Let_def keeps_def coherent_def)

lemma leaf_behaved: "well_behaved s (\<lambda>ctx. eval_leaf env m s ctx nr ex)"
proof (cases m)
  case (MProcessName pp)
  then show ?thesis using process_behaved by simp
next
  case (MUnsupported k)
  then show ?thesis using note_behaved by simp
qed (simp_all add: eval_leaf_def pure_behaved by_ip_behaved keeps_ctx_country keeps_ctx_asn
      well_behaved_def[of s "\<lambda>ctx. (Match, ctx)"] loop_behaved_def[of s "\<lambda>ctx. (Match, ctx)"]
      well_behaved_def[of s "\<lambda>ctx. (NoMatch, ctx)"] loop_behaved_def[of s "\<lambda>ctx. (NoMatch, ctx)"])

lemma leaf_arm_behaved: "well_behaved s (\<lambda>ctx. leaf_arm env s m ctx nr ex)"
  using leaf_behaved[of s env m nr ex]
  by (auto simp: leaf_arm_def before_connection_def well_behaved_def loop_behaved_def answerable_def)

section \<open>The contract of a set\<close>

definition as_eval :: "set_match \<Rightarrow> session_info \<Rightarrow> bool \<Rightarrow> bool \<Rightarrow> eval_ctx \<Rightarrow> verdict \<times> eval_ctx" where
  "as_eval st s nr ex = (\<lambda>ctx. map_prod sv_verdict id (sm_eval st s ctx nr ex))"

locale set_contract =
  fixes sets :: "set_handle \<Rightarrow> set_match"
  assumes set_behaved: "well_behaved s (as_eval (sets h) s nr ex)"
begin

lemma eval_set_behaved: "well_behaved s (\<lambda>ctx. eval_set (sets h) s ctx nr ex)"
proof -
  have "keeps ctx (snd (eval_set (sets h) s ctx nr ex)) \<and> answerable s ctx (fst (eval_set (sets h) s ctx nr ex)) \<and>
      (fst (eval_set (sets h) s ctx nr ex) \<noteq> Match \<longrightarrow>
         ec_sub_hit (snd (eval_set (sets h) s ctx nr ex)) = ec_sub_hit ctx)" for ctx
  proof -
    let ?c = "ctx\<lparr>ec_set_depth := ec_set_depth ctx + 1\<rparr>"
    obtain v ctx' where ev: "sm_eval (sets h) s ?c nr ex = (v, ctx')" by fastforce
    then have "as_eval (sets h) s nr ex ?c = (sv_verdict v, ctx')" by (simp add: as_eval_def)
    note wb = well_behavedD[OF set_behaved this]
    have "keeps ctx (ctx'\<lparr>ec_set_depth := ec_set_depth ctx' - 1\<rparr>)"
      using wb(1) by (simp add: keeps_def)
    moreover have "answerable s ctx (sv_verdict v)"
      using wb(2) by (simp add: answerable_def split: verdict.splits)
    ultimately show ?thesis using wb(3) ev by (auto simp: eval_set_def Let_def)
  qed
  then show ?thesis by (simp add: well_behaved_def loop_behaved_def)
qed

lemma eval_behaved:
  "well_behaved s (\<lambda>ctx. eval env sets s m ctx nr ex)"
  "well_behaved s (eval_sub env sets s sub)"
proof (induction m and sub arbitrary: nr ex and)
  case (MAnd subs)
  then show ?case using in_branches_behaved[OF loops_behaved(1)[of "map (eval_sub env sets s) subs"]] by simp
next
  case (MOr subs)
  then show ?case using in_branches_behaved[OF loops_behaved(2)[of "map (eval_sub env sets s) subs"]] by simp
next
  case (MNot sub)
  then show ?case using not_arm_behaved[of s "eval_sub env sets s sub"] by (simp add: well_behaved_def)
qed (simp_all add: eval_set_behaved leaf_arm_behaved)

end

section \<open>The compiled sets keep the contract\<close>

definition needs_ok :: "session_info \<Rightarrow> eval_ctx \<Rightarrow> needs \<Rightarrow> bool" where
  "needs_ok s ctx nd = (case nd of (nc, np, nr) \<Rightarrow> flags_ok s ctx nc np nr)"

lemma needs_ok_keeps: "keeps ctx ctx' \<Longrightarrow> needs_ok s ctx' nd \<longleftrightarrow> needs_ok s ctx nd"
  by (simp add: needs_ok_def flags_ok_def answerable_keeps split: prod.splits)

lemma needs_ok_err: "needs_ok s ctx nd \<Longrightarrow> answerable s ctx v \<Longrightarrow> needs_ok s ctx (needs_err nd v)"
  by (auto simp: needs_ok_def needs_err_def flags_ok_def split: prod.splits)

lemma needs_verdict_ok:
  "needs_ok s ctx nd \<Longrightarrow> answerable s ctx (sv_verdict (needs_verdict nd))"
  by (auto simp: needs_ok_def needs_verdict_def flags_ok_def intro: still_needs_answerable split: prod.splits)

text \<open>What a phase of a set's evaluation guarantees.\<close>

definition phase_behaved :: "session_info \<Rightarrow> eval_ctx \<Rightarrow> (u32 + needs) \<times> eval_ctx \<Rightarrow> bool" where
  "phase_behaved s ctx r \<longleftrightarrow>
     keeps ctx (snd r) \<and>
     (\<forall>nd. fst r = Inr nd \<longrightarrow> needs_ok s ctx nd \<and> ec_sub_hit (snd r) = ec_sub_hit ctx)"

lemma linear_loop_behaved:
  "\<forall>(i, ev)\<in>set evs. well_behaved s ev \<Longrightarrow> needs_ok s ctx nd \<Longrightarrow> phase_behaved s ctx (linear_loop evs nd ctx)"
proof (induction evs nd ctx rule: linear_loop.induct)
  case (2 i ev evs nc np nr ctx)
  obtain v ctx' where ev: "ev ctx = (v, ctx')" by (cases "ev ctx")
  have "well_behaved s ev" using "2.prems"(1) by simp
  note wb = well_behavedD[of s ev ctx v ctx', OF this ev]
  have nd: "needs_ok s ctx' (nc \<or> v = NeedsConnection, np \<or> v = NeedsProcess, nr \<or> v = NeedsResolve)"
    using flags_ok_step[OF _ wb(2) wb(1)] "2.prems"(2) by (simp add: needs_ok_def)
  show ?case
  proof (cases "v = Match")
    case False
    from "2.IH"[OF ev[symmetric] False _ nd] "2.prems"(1) wb False ev show ?thesis
      by (auto simp: phase_behaved_def needs_ok_keeps intro: keeps_trans)
  qed (use ev wb in \<open>simp add: phase_behaved_def\<close>)
qed (simp add: phase_behaved_def)

lemma asn_phase_behaved: "needs_ok s ctx nd \<Longrightarrow> phase_behaved s ctx (asn_phase c s nr nd ctx)"
proof -
  assume nd: "needs_ok s ctx nd"
  show ?thesis
  proof (cases "target_ip s ctx (nr \<or> \<not> cset_asns_resolve c) FamAny")
    case (Inl v)
    have "needs_ok s ctx (needs_err nd v)" using nd target_ip_answerable[OF Inl] by (rule needs_ok_err)
    then show ?thesis using nd Inl by (auto simp: asn_phase_def phase_behaved_def)
  next
    case (Inr ip)
    obtain g ctx' where g: "ctx_asn ip ctx = (g, ctx')" by (cases "ctx_asn ip ctx")
    then show ?thesis using Inr nd keeps_ctx_asn[of ctx ip] ctx_asn_sub_hit[of ip ctx]
      by (auto simp: asn_phase_def phase_behaved_def split: geo_result.splits option.splits)
  qed
qed

lemma ip_phase_behaved: "needs_ok s ctx nd \<Longrightarrow> ip_phase x c s ctx nr nd = Inr nd' \<Longrightarrow> needs_ok s ctx nd'"
proof -
  have fam: "needs_ok s ctx n'" if "needs_ok s ctx n" "ip_family x c s ctx nr f n = Inr n'" for f n n'
    using that by (auto simp: ip_family_def needs_ok_err target_ip_answerable split: sum.splits option.splits)
  assume "needs_ok s ctx nd" "ip_phase x c s ctx nr nd = Inr nd'"
  then show "needs_ok s ctx nd'" using fam unfolding ip_phase_def by (metis (no_types, lifting) sum.case_eq_if sum.disc(1) sum.collapse(2) sum.inject(2) Inl_Inr_False)
qed

context set_contract
begin

lemma linear_evs_behaved: "\<forall>(i, ev)\<in>set (linear_evs env sets c s nr ex). well_behaved s ev"
  using eval_behaved(1) by (auto simp: linear_evs_def)

lemma compiled_set_behaved:
  "well_behaved s (\<lambda>ctx. map_prod sv_verdict id (compiled_set_eval env sets c s ctx nr ex))"
proof -
  let ?evs = "linear_evs env sets c s nr ex"
  note evs = linear_evs_behaved[of env c s nr ex]
  have "keeps ctx (snd r) \<and> answerable s ctx (sv_verdict (fst r)) \<and>
      (sv_verdict (fst r) \<noteq> Match \<longrightarrow> ec_sub_hit (snd r) = ec_sub_hit ctx)"
    if r: "r = compiled_set_eval env sets c s ctx nr ex" for ctx r
  proof (cases "if index_is_empty (cset_domains c) then None
            else lookup_first (cset_domains c) (set_targets c s ex)")
    case (Some h)
    then show ?thesis by (simp add: r compiled_set_eval_def set_hit_def)
  next
    case None
    obtain r1 ctx1 where l: "linear_loop ?evs (False, False, False) ctx = (r1, ctx1)" by fastforce
    have "phase_behaved s ctx (r1, ctx1)"
      using linear_loop_behaved[OF evs, of ctx "(False, False, False)"] l by (simp add: needs_ok_def flags_ok_def)
    then have k1: "keeps ctx ctx1" and n1: "\<And>nd. r1 = Inr nd \<Longrightarrow> needs_ok s ctx nd \<and> ec_sub_hit ctx1 = ec_sub_hit ctx"
      by (auto simp: phase_behaved_def)
    show ?thesis
    proof (cases r1)
      case (Inl i)
      then show ?thesis using None l k1 by (simp add: r compiled_set_eval_def set_hit_def)
    next
      case (Inr nd)
      obtain r2 ctx2 where a: "asn_phase c s nr nd ctx1 = (r2, ctx2)" by fastforce
      have "phase_behaved s ctx1 (r2, ctx2)"
        using asn_phase_behaved[of s ctx1 nd c nr] n1[OF Inr] needs_ok_keeps[OF k1] a by simp
      then have k2: "keeps ctx1 ctx2" and n2: "\<And>nd. r2 = Inr nd \<Longrightarrow> needs_ok s ctx1 nd \<and> ec_sub_hit ctx2 = ec_sub_hit ctx1"
        by (auto simp: phase_behaved_def)
      note k = keeps_trans[OF k1 k2]
      have ph: "needs_ok s ctx nd''" if "r2 = Inr nd'" "ip_phase (ee_ext env) c s ctx2 nr nd' = Inr nd''" for nd' nd''
        using ip_phase_behaved[OF _ that(2)] n2[OF that(1)] needs_ok_keeps[OF k2] needs_ok_keeps[OF k1] by simp
      show ?thesis
        using None l Inr a k ph n1[OF Inr] n2
        by (auto simp: r compiled_set_eval_def set_hit_def needs_verdict_ok split: sum.splits)
    qed
  qed
  then show ?thesis by (simp add: well_behaved_def loop_behaved_def)
qed

end

lemma set_bottom_contract: "set_contract set_bottom"
  by unfold_locales (simp add: as_eval_def set_bottom_def well_behaved_def loop_behaved_def)

lemma set_calls_contract: "set_contract bottom \<Longrightarrow> set_contract (set_calls env bottom store n)"
proof (induction n)
  case (Suc n)
  then have below: "set_contract (set_calls env bottom store n)" by simp
  show ?case
    using set_contract.compiled_set_behaved[OF below]
    by unfold_locales (simp add: as_eval_def)
qed simp

interpretation nested: set_contract "set_calls env set_bottom store n" for env store n
  by (rule set_calls_contract[OF set_bottom_contract])

section \<open>The nesting limit ends the recursion\<close>

text \<open>Two evaluations that do the same in a context nested \<open>d\<close> sets deep.\<close>

definition same_at :: "nat \<Rightarrow> (eval_ctx \<Rightarrow> 'r) \<Rightarrow> (eval_ctx \<Rightarrow> 'r) \<Rightarrow> bool" where
  "same_at d ev ev' \<longleftrightarrow> (\<forall>ctx. ec_set_depth ctx = d \<longrightarrow> ev ctx = ev' ctx)"

lemma loops_same:
  assumes "list_all2 (same_at d) evs evs'" "\<forall>ev\<in>set evs. well_behaved s ev" "ec_set_depth ctx = d"
  shows "and_loop evs nc np nr ctx = and_loop evs' nc np nr ctx \<and> or_loop evs nc np nr ctx = or_loop evs' nc np nr ctx"
  using assms
proof (induction evs evs' arbitrary: nc np nr ctx rule: list_all2_induct)
  case (Cons ev evs ev' evs')
  obtain v ctx' where ev: "ev ctx = (v, ctx')" by (cases "ev ctx")
  then have ev': "ev' ctx = (v, ctx')" using Cons.hyps(1) Cons.prems(2) by (auto simp: same_at_def)
  have "well_behaved s ev" using Cons.prems(1) by simp
  from well_behavedD(1)[OF this ev] Cons.prems(2) have "ec_set_depth ctx' = d" by (simp add: keeps_def)
  then show ?case using Cons.IH Cons.prems(1) ev ev' by simp
qed simp

lemma linear_loop_same:
  assumes "list_all2 (\<lambda>(i, ev) (i', ev'). i' = i \<and> same_at d ev ev') evs evs'"
    "\<forall>(i, ev)\<in>set evs. well_behaved s ev" "ec_set_depth ctx = d"
  shows "linear_loop evs nd ctx = linear_loop evs' nd ctx"
  using assms
proof (induction evs evs' arbitrary: nd ctx rule: list_all2_induct)
  case (Cons p evs p' evs')
  obtain i ev ev' where p: "p = (i, ev)" "p' = (i, ev')" using Cons.hyps(1) by (cases p, cases p') auto
  obtain v ctx' where ev: "ev ctx = (v, ctx')" by (cases "ev ctx")
  then have ev': "ev' ctx = (v, ctx')" using Cons.hyps(1) Cons.prems(2) p by (auto simp: same_at_def)
  have "well_behaved s ev" using Cons.prems(1) p by simp
  from well_behavedD(1)[OF this ev] Cons.prems(2) have "ec_set_depth ctx' = d" by (simp add: keeps_def)
  then show ?case using Cons.IH Cons.prems(1) ev ev' p by (cases nd) simp
qed simp

locale set_agreement = set_contract sets for sets :: "set_handle \<Rightarrow> set_match" +
  fixes sets' :: "set_handle \<Rightarrow> set_match" and d :: nat
  assumes calls_agree: "d < MAX_NESTING \<Longrightarrow> sm_name (sets' h) = sm_name (sets h) \<and>
      same_at (Suc d) (\<lambda>ctx. sm_eval (sets h) s ctx nr ex) (\<lambda>ctx. sm_eval (sets' h) s ctx nr ex)"
begin

lemma eval_same:
  "same_at d (\<lambda>ctx. eval env sets s m ctx nr ex) (\<lambda>ctx. eval env sets' s m ctx nr ex)"
  "same_at d (eval_sub env sets s sub) (eval_sub env sets' s sub)"
proof (induction m and sub arbitrary: nr ex and)
  case (MAnd subs)
  have "list_all2 (same_at d) (map (eval_sub env sets s) subs) (map (eval_sub env sets' s) subs)"
    using MAnd by (simp add: list_all2_conv_all_nth)
  from loops_same[OF this, of s] show ?case
    using eval_behaved(2) by (simp add: same_at_def in_branches_def)
next
  case (MOr subs)
  have "list_all2 (same_at d) (map (eval_sub env sets s) subs) (map (eval_sub env sets' s) subs)"
    using MOr by (simp add: list_all2_conv_all_nth)
  from loops_same[OF this, of s] show ?case
    using eval_behaved(2) by (simp add: same_at_def in_branches_def)
next
  case (MNot sub)
  then show ?case by (simp add: same_at_def not_arm_def)
next
  case (MSet h)
  then show ?case using calls_agree[of h s nr ex] by (auto simp: same_at_def eval_set_def Let_def not_le split: prod.splits)
qed (simp_all add: same_at_def)

lemma compiled_set_same:
  assumes "ec_set_depth ctx = d"
  shows "compiled_set_eval env sets c s ctx nr ex = compiled_set_eval env sets' c s ctx nr ex"
proof -
  have "list_all2 (\<lambda>(i, ev) (i', ev'). i' = i \<and> same_at d ev ev')
      (linear_evs env sets c s nr ex) (linear_evs env sets' c s nr ex)"
    using eval_same(1) by (auto simp: list_all2_conv_all_nth linear_evs_def split: prod.splits)
  note same = linear_loop_same[OF this linear_evs_behaved assms]
  show ?thesis unfolding compiled_set_eval_def same ..
qed

end

lemma set_calls_agree:
  "MAX_NESTING \<le> d + n \<Longrightarrow> MAX_NESTING \<le> d + n' \<Longrightarrow>
   set_agreement (set_calls env set_bottom store n) (set_calls env bottom store n') d"
proof (induction n arbitrary: n' d)
  case 0
  then show ?case
    using nested.set_contract_axioms[of env store 0] by (simp add: set_agreement_def set_agreement_axioms_def)
next
  case (Suc n)
  have "sm_name (set_calls env bottom store n' h) = sm_name (set_calls env set_bottom store (Suc n) h) \<and>
      same_at (Suc d) (\<lambda>ctx. sm_eval (set_calls env set_bottom store (Suc n) h) s ctx nr ex)
        (\<lambda>ctx. sm_eval (set_calls env bottom store n' h) s ctx nr ex)" if "d < MAX_NESTING" for h s nr ex
  proof -
    from that Suc.prems(2) obtain k where k: "n' = Suc k" by (cases n') auto
    have "set_agreement (set_calls env set_bottom store n) (set_calls env bottom store k) (Suc d)"
      using Suc.prems k by (intro Suc.IH) auto
    from set_agreement.compiled_set_same[OF this] show ?thesis by (simp add: k same_at_def)
  qed
  then show ?case using nested.set_contract_axioms[of env store "Suc n"]
    unfolding set_agreement_def set_agreement_axioms_def by blast
qed

section \<open>A verdict before the connection is final\<close>

text \<open>
  The context of a DNS query and one of the connection that follows it: the same databases and
  network, at the same depth, but anything may have become known of the connection, its
  addresses and its process.
\<close>

definition ahead :: "eval_ctx \<Rightarrow> eval_ctx \<Rightarrow> bool" where
  "ahead ctx ctx' \<longleftrightarrow>
     ec_before_connection ctx \<and> ec_geo ctx' = ec_geo ctx \<and> ec_network ctx' = ec_network ctx \<and>
     ec_set_depth ctx' = ec_set_depth ctx \<and> coherent ctx \<and> coherent ctx' \<and>
     (ec_process ctx = NotAsked \<or> ec_process ctx' = ec_process ctx)"

text \<open>The session of the query and that of the connection: the same but for ports, transport and request.\<close>

definition same_query :: "session_info \<Rightarrow> session_info \<Rightarrow> bool" where
  "same_query s s' \<longleftrightarrow>
     s_dst_host s' = s_dst_host s \<and> s_sni s' = s_sni s \<and> s_http_host s' = s_http_host s \<and>
     sa_ip (s_src s') = sa_ip (s_src s) \<and> s_process s' = s_process s"

definition foretells :: "(eval_ctx \<Rightarrow> verdict \<times> eval_ctx) \<Rightarrow> (eval_ctx \<Rightarrow> verdict \<times> eval_ctx) \<Rightarrow> bool" where
  "foretells ev ev' \<longleftrightarrow>
     (\<forall>ctx ctx'. ahead ctx ctx' \<longrightarrow>
        (fst (ev ctx) = Match \<longrightarrow> fst (ev' ctx') = Match) \<and> (fst (ev ctx) = NoMatch \<longrightarrow> fst (ev' ctx') = NoMatch))"

lemma ahead_keeps: "ahead a b \<Longrightarrow> keeps a a' \<Longrightarrow> keeps b b' \<Longrightarrow> ahead a' b'"
  by (auto simp: ahead_def keeps_def)

lemma ahead_sub_hit [simp]:
  "ahead (a\<lparr>ec_sub_hit := h\<rparr>) b \<longleftrightarrow> ahead a b" "ahead a (b\<lparr>ec_sub_hit := h\<rparr>) \<longleftrightarrow> ahead a b"
  by (simp_all add: ahead_def)

lemma foretellsD:
  assumes "foretells ev ev'" "ahead ctx ctx'" "ev ctx = (v, c)" "ev' ctx' = (v', c')"
  shows "v = Match \<Longrightarrow> v' = Match" "v = NoMatch \<Longrightarrow> v' = NoMatch"
  using assms unfolding foretells_def by (metis fst_conv)+

lemma and_loop_Match: "fst (and_loop evs nc np nr ctx) = Match \<Longrightarrow> \<not> nc \<and> \<not> np \<and> \<not> nr"
  by (induction evs nc np nr ctx rule: and_loop.induct)
     (auto simp: still_needs_def split: if_splits prod.splits)

lemma or_loop_NoMatch: "fst (or_loop evs nc np nr ctx) = NoMatch \<Longrightarrow> \<not> nc \<and> \<not> np \<and> \<not> nr"
  by (induction evs nc np nr ctx rule: or_loop.induct)
     (auto simp: still_needs_def split: if_splits prod.splits)

lemma and_loop_foretells:
  assumes "list_all2 (\<lambda>ev ev'. foretells ev ev' \<and> well_behaved s ev \<and> well_behaved s' ev') evs evs'" "ahead ctx ctx'"
  shows "fst (and_loop evs nc np nr ctx) = NoMatch \<Longrightarrow> fst (and_loop evs' nc' np' nr' ctx') = NoMatch"
    and "fst (and_loop evs nc np nr ctx) = Match \<Longrightarrow> fst (and_loop evs' False False False ctx') = Match"
proof -
  have "(fst (and_loop evs nc np nr ctx) = NoMatch \<longrightarrow> fst (and_loop evs' nc' np' nr' ctx') = NoMatch) \<and>
    (fst (and_loop evs nc np nr ctx) = Match \<longrightarrow> fst (and_loop evs' False False False ctx') = Match)"
    using assms
  proof (induction evs evs' arbitrary: nc np nr nc' np' nr' ctx ctx' rule: list_all2_induct)
    case (Cons ev evs ev' evs')
    obtain v c v' c' where e: "ev ctx = (v, c)" "ev' ctx' = (v', c')" by fastforce
    have wb: "well_behaved s ev" "well_behaved s' ev'" "foretells ev ev'" using Cons.hyps(1) by auto
    have "ahead c c'"
      using ahead_keeps[OF Cons.prems] well_behavedD(1)[OF wb(1) e(1)] well_behavedD(1)[OF wb(2) e(2)] by blast
    note ih = Cons.IH[OF this] and fo = foretellsD[OF wb(3) Cons.prems e]
    show ?case
    proof (cases v)
      case Match
      then show ?thesis using ih fo e by simp
    next
      case NoMatch
      then show ?thesis using fo e by simp
    qed (use ih and_loop_Match[of evs] e in fastforce)+
  qed (simp add: still_needs_def)
  then show "fst (and_loop evs nc np nr ctx) = NoMatch \<Longrightarrow> fst (and_loop evs' nc' np' nr' ctx') = NoMatch"
    "fst (and_loop evs nc np nr ctx) = Match \<Longrightarrow> fst (and_loop evs' False False False ctx') = Match" by auto
qed

lemma or_loop_foretells:
  assumes "list_all2 (\<lambda>ev ev'. foretells ev ev' \<and> well_behaved s ev \<and> well_behaved s' ev') evs evs'" "ahead ctx ctx'"
  shows "fst (or_loop evs nc np nr ctx) = Match \<Longrightarrow> fst (or_loop evs' nc' np' nr' ctx') = Match"
    and "fst (or_loop evs nc np nr ctx) = NoMatch \<Longrightarrow> fst (or_loop evs' False False False ctx') = NoMatch"
proof -
  have "(fst (or_loop evs nc np nr ctx) = Match \<longrightarrow> fst (or_loop evs' nc' np' nr' ctx') = Match) \<and>
    (fst (or_loop evs nc np nr ctx) = NoMatch \<longrightarrow> fst (or_loop evs' False False False ctx') = NoMatch)"
    using assms
  proof (induction evs evs' arbitrary: nc np nr nc' np' nr' ctx ctx' rule: list_all2_induct)
    case (Cons ev evs ev' evs')
    obtain v c v' c' where e: "ev ctx = (v, c)" "ev' ctx' = (v', c')" by fastforce
    have wb: "well_behaved s ev" "well_behaved s' ev'" "foretells ev ev'" using Cons.hyps(1) by auto
    have "ahead c c'"
      using ahead_keeps[OF Cons.prems] well_behavedD(1)[OF wb(1) e(1)] well_behavedD(1)[OF wb(2) e(2)] by blast
    note ih = Cons.IH[OF this] and fo = foretellsD[OF wb(3) Cons.prems e]
    show ?case
    proof (cases v)
      case NoMatch
      then show ?thesis using ih fo e by simp
    next
      case Match
      then show ?thesis using fo e by simp
    qed (use ih or_loop_NoMatch[of evs] e in fastforce)+
  qed (simp add: still_needs_def)
  then show "fst (or_loop evs nc np nr ctx) = Match \<Longrightarrow> fst (or_loop evs' nc' np' nr' ctx') = Match"
    "fst (or_loop evs nc np nr ctx) = NoMatch \<Longrightarrow> fst (or_loop evs' False False False ctx') = NoMatch" by auto
qed

lemma in_branches_foretells: "foretells ev ev' \<Longrightarrow> foretells (in_branches ev) (in_branches ev')"
  by (auto simp: foretells_def in_branches_def Let_def split: prod.splits) (metis ahead_sub_hit fst_conv)+

lemma fst_not_arm:
  "fst (not_arm ev ctx) =
     (case fst (ev (ctx\<lparr>ec_sub_hit := None\<rparr>)) of Match \<Rightarrow> NoMatch | NoMatch \<Rightarrow> Match | v \<Rightarrow> v)"
  by (simp add: not_arm_def Let_def split: prod.splits)

lemma not_arm_foretells: "foretells ev ev' \<Longrightarrow> foretells (not_arm ev) (not_arm ev')"
proof -
  assume f: "foretells ev ev'"
  have "(fst (not_arm ev ctx) = Match \<longrightarrow> fst (not_arm ev' ctx') = Match) \<and>
      (fst (not_arm ev ctx) = NoMatch \<longrightarrow> fst (not_arm ev' ctx') = NoMatch)" if "ahead ctx ctx'" for ctx ctx'
  proof -
    have "ahead (ctx\<lparr>ec_sub_hit := None\<rparr>) (ctx'\<lparr>ec_sub_hit := None\<rparr>)" using that by simp
    with f have "(fst (ev (ctx\<lparr>ec_sub_hit := None\<rparr>)) = Match \<longrightarrow> fst (ev' (ctx'\<lparr>ec_sub_hit := None\<rparr>)) = Match) \<and>
        (fst (ev (ctx\<lparr>ec_sub_hit := None\<rparr>)) = NoMatch \<longrightarrow> fst (ev' (ctx'\<lparr>ec_sub_hit := None\<rparr>)) = NoMatch)"
      unfolding foretells_def by blast
    then show ?thesis unfolding fst_not_arm by (cases "fst (ev (ctx\<lparr>ec_sub_hit := None\<rparr>))") simp_all
  qed
  then show ?thesis by (simp add: foretells_def)
qed

lemma target_ip_ahead:
  assumes "ahead ctx ctx'" "same_query s s'" "target_ip s ctx nr fam \<noteq> Inl NeedsConnection"
  shows "target_ip s' ctx' nr' fam = target_ip s ctx nr fam"
  using assms by (auto simp: target_ip_def ahead_def same_query_def split: option.splits)

lemma target_ip_before: "ahead ctx ctx' \<Longrightarrow> target_ip s ctx nr fam \<noteq> Inl Match"
  by (auto simp: target_ip_def ahead_def Let_def split: option.splits)

lemma by_ip_foretells:
  assumes q: "same_query s s'" and test: "\<And>ctx ctx' ip. ahead ctx ctx' \<Longrightarrow> fst (test ip ctx') = fst (test ip ctx)"
  shows "foretells (\<lambda>ctx. by_ip test s ctx nr fam) (\<lambda>ctx. by_ip test s' ctx nr' fam)"
proof -
  have "fst (by_ip test s' ctx' nr' fam) = fst (by_ip test s ctx nr fam)"
    if a: "ahead ctx ctx'" and d: "fst (by_ip test s ctx nr fam) \<noteq> NeedsConnection" for ctx ctx'
  proof (cases "target_ip s ctx nr fam")
    case (Inl v)
    then have "v \<noteq> NeedsConnection" using d by (auto simp: by_ip_def)
    then show ?thesis using target_ip_ahead[OF a q, of nr fam nr'] Inl by (simp add: by_ip_def)
  next
    case (Inr ip)
    then show ?thesis using target_ip_ahead[OF a q, of nr fam nr'] test[OF a, of ip]
      by (simp add: by_ip_def case_prod_beta)
  qed
  then show ?thesis by (simp add: foretells_def)
qed

lemma pure_foretells:
  "(\<And>ctx ctx'. ahead ctx ctx' \<Longrightarrow> f' ctx' = f ctx) \<Longrightarrow>
   foretells (\<lambda>ctx. (verdict_of (f ctx), ctx)) (\<lambda>ctx. (verdict_of (f' ctx), ctx))"
  by (simp add: foretells_def)

lemma geo_ahead:
  assumes "ahead ctx ctx'"
  shows "fst (ctx_country ip ctx') = fst (ctx_country ip ctx)" "fst (ctx_asn ip ctx') = fst (ctx_asn ip ctx)"
  using assms by (simp_all add: ahead_def ctx_geo_coherent)

lemma leaf_arm_foretells:
  assumes "same_query s s'"
  shows "foretells (\<lambda>ctx. leaf_arm env s m ctx nr ex) (\<lambda>ctx. leaf_arm env s' m ctx nr' ex)"
proof (cases "needs_the_connection m")
  case True
  then show ?thesis by (auto simp: foretells_def leaf_arm_def before_connection_def ahead_def)
next
  case False
  have targets: "domain_targets s' ex = domain_targets s ex" using assms by (simp add: domain_targets_def same_query_def)
  note q = assms[unfolded same_query_def]
  have arm: "leaf_arm env s m ctx nr ex = eval_leaf env m s ctx nr ex" "leaf_arm env s' m ctx nr' ex = eval_leaf env m s' ctx nr' ex" for ctx
    using False by (simp_all add: leaf_arm_def before_connection_def)
  show ?thesis
    unfolding arm
  proof (cases m)
    case (MProcessName pp)
    then show "foretells (\<lambda>ctx. eval_leaf env m s ctx nr ex) (\<lambda>ctx. eval_leaf env m s' ctx nr' ex)"
      using q by (auto simp: eval_leaf_def foretells_def Let_def ahead_def split: option.splits process_state.splits)
  next
    case (MSubnet e)
    then show "foretells (\<lambda>ctx. eval_leaf env m s ctx nr ex) (\<lambda>ctx. eval_leaf env m s' ctx nr' ex)"
      by (auto simp: eval_leaf_def foretells_def Let_def ahead_def)
  qed (use False q in \<open>simp_all add: eval_leaf_def targets pure_foretells by_ip_foretells[OF assms] geo_ahead
         foretells_def[of "\<lambda>ctx. (NoMatch, _ ctx)"] foretells_def[of "\<lambda>ctx. (Match, ctx)"]\<close>)
qed

abbreviation no_needs :: needs where
  "no_needs \<equiv> (False, False, False)"

lemma linear_loop_needs: "fst (linear_loop evs nd ctx) = Inr no_needs \<Longrightarrow> nd = no_needs"
  by (induction evs nd ctx rule: linear_loop.induct) (auto split: if_splits prod.splits)

lemma linear_loop_foretells:
  assumes "list_all2 (\<lambda>(i, ev) (i', ev'). foretells ev ev' \<and> well_behaved s ev \<and> well_behaved s' ev') evs evs'"
    "ahead ctx ctx'"
  shows "(\<exists>i. fst (linear_loop evs nd ctx) = Inl i) \<longrightarrow> (\<exists>i. fst (linear_loop evs' nd' ctx') = Inl i)" (is ?A)
    and "fst (linear_loop evs nd ctx) = Inr no_needs \<longrightarrow> fst (linear_loop evs' no_needs ctx') = Inr no_needs" (is ?B)
proof -
  have "?A \<and> ?B"
    using assms
  proof (induction evs evs' arbitrary: nd nd' ctx ctx' rule: list_all2_induct)
    case (Cons p evs p' evs')
    obtain i ev i' ev' where p: "p = (i, ev)" "p' = (i', ev')" by (cases p, cases p')
    obtain v c v' c' where e: "ev ctx = (v, c)" "ev' ctx' = (v', c')" by fastforce
    have wb: "well_behaved s ev" "well_behaved s' ev'" "foretells ev ev'" using Cons.hyps(1) p by auto
    have "ahead c c'"
      using ahead_keeps[OF Cons.prems] well_behavedD(1)[OF wb(1) e(1)] well_behavedD(1)[OF wb(2) e(2)] by blast
    note ih = Cons.IH[OF this] and fo = foretellsD[OF wb(3) Cons.prems e]
    obtain nc np nr nc' np' nr' where nd: "nd = (nc, np, nr)" "nd' = (nc', np', nr')" by (cases nd, cases nd') auto
    show ?case
    proof (cases v)
      case Match
      then show ?thesis using fo e p nd by simp
    next
      case NoMatch
      then show ?thesis using ih fo e p nd by auto
    qed (use ih linear_loop_needs[of evs] e p nd in fastforce)+
  qed simp
  then show ?A ?B by auto
qed

lemma needs_err_none: "needs_err nd v = no_needs \<longleftrightarrow> nd = no_needs \<and> v \<noteq> NeedsConnection \<and> v \<noteq> NeedsResolve"
  by (auto simp: needs_err_def split: prod.splits)

lemma asn_phase_foretells:
  assumes "ahead ctx ctx'" "same_query s s'"
  shows "fst (asn_phase c s nr nd ctx) = Inl i \<Longrightarrow> fst (asn_phase c s' nr' nd' ctx') = Inl i" (is "?A \<Longrightarrow> ?A'")
    and "fst (asn_phase c s nr nd ctx) = Inr no_needs \<Longrightarrow>
      nd = no_needs \<and> fst (asn_phase c s' nr' no_needs ctx') = Inr no_needs" (is "?B \<Longrightarrow> ?B'")
proof -
  note t = target_ip_ahead[OF assms, of "nr \<or> \<not> cset_asns_resolve c" FamAny "nr' \<or> \<not> cset_asns_resolve c"]
  have "(?A \<longrightarrow> ?A') \<and> (?B \<longrightarrow> ?B')"
  proof (cases "target_ip s ctx (nr \<or> \<not> cset_asns_resolve c) FamAny")
    case (Inl v)
    then show ?thesis using t by (auto simp: asn_phase_def needs_err_none split: sum.splits)
  next
    case (Inr ip)
    obtain g c1 c2 where "ctx_asn ip ctx = (g, c1)" "ctx_asn ip ctx' = (g, c2)"
      using geo_ahead(2)[OF assms(1), of ip] by (metis prod.collapse)
    then show ?thesis using Inr t by (auto simp: asn_phase_def split: geo_result.splits option.splits)
  qed
  then show "?A \<Longrightarrow> ?A'" "?B \<Longrightarrow> ?B'" by auto
qed

lemma ip_family_foretells:
  assumes "ahead ctx ctx'" "same_query s s'"
  shows "ip_family x c s ctx nr fam nd = Inl i \<Longrightarrow> ip_family x c s' ctx' nr' fam nd' = Inl i" (is "?A \<Longrightarrow> ?A'")
    and "ip_family x c s ctx nr fam nd = Inr no_needs \<Longrightarrow>
      nd = no_needs \<and> ip_family x c s' ctx' nr' fam no_needs = Inr no_needs" (is "?B \<Longrightarrow> ?B'")
proof -
  note t = target_ip_ahead[OF assms, of "nr \<or> \<not> cset_ips_resolve c" fam "nr' \<or> \<not> cset_ips_resolve c"]
  have "(?A \<longrightarrow> ?A') \<and> (?B \<longrightarrow> ?B')"
    by (cases "target_ip s ctx (nr \<or> \<not> cset_ips_resolve c) fam")
       (use t in \<open>auto simp: ip_family_def needs_err_none split: option.splits\<close>)
  then show "?A \<Longrightarrow> ?A'" "?B \<Longrightarrow> ?B'" by auto
qed

lemma ip_phase_foretells:
  assumes "ahead ctx ctx'" "same_query s s'"
  shows "ip_phase x c s ctx nr nd = Inl i \<Longrightarrow> \<exists>j. ip_phase x c s' ctx' nr' nd' = Inl j" (is "?A \<Longrightarrow> ?A'")
    and "ip_phase x c s ctx nr nd = Inr no_needs \<Longrightarrow>
      nd = no_needs \<and> ip_phase x c s' ctx' nr' no_needs = Inr no_needs" (is "?B \<Longrightarrow> ?B'")
proof -
  note f = ip_family_foretells[OF assms, of x c nr]
  have "(?A \<longrightarrow> ?A') \<and> (?B \<longrightarrow> ?B')"
  proof (cases "ip_index_is_empty (cset_ips c)")
    case False
    show ?thesis
    proof (cases "ip_family x c s ctx nr FamV4 nd")
      case (Inl i')
      then show ?thesis using f(1)[OF Inl] False by (simp add: ip_phase_def)
    next
      case (Inr n1)
      have "?A'" if "ip_family x c s ctx nr FamV6 n1 = Inl i"
        using f(1)[OF that] False by (simp add: ip_phase_def split: sum.splits)
      moreover have "?B'" if "ip_family x c s ctx nr FamV6 n1 = Inr no_needs"
        using f(2)[OF that] f(2)[of FamV4 nd] Inr False by (simp add: ip_phase_def)
      ultimately show ?thesis using Inr False by (simp add: ip_phase_def)
    qed
  qed (simp add: ip_phase_def)
  then show "?A \<Longrightarrow> ?A'" "?B \<Longrightarrow> ?B'" by auto
qed

lemma needs_verdict_cases:
  "sv_verdict (needs_verdict nd) \<noteq> Match" "sv_verdict (needs_verdict nd) = NoMatch \<longleftrightarrow> nd = no_needs"
  by (auto simp: needs_verdict_def still_needs_def split: prod.splits)

text \<open>The phases of a set in one: a hit, or what is still needed.\<close>

lemma compiled_set_verdict:
  fixes env sets c s ctx nr ex
  defines "r \<equiv> compiled_set_eval env sets c s ctx nr ex"
    and "named \<equiv> (if index_is_empty (cset_domains c) then None
                  else lookup_first (cset_domains c) (set_targets c s ex))"
    and "l \<equiv> linear_loop (linear_evs env sets c s nr ex) no_needs ctx"
  defines "a \<equiv> \<lambda>nd. asn_phase c s nr nd (snd l)"
  defines "p \<equiv> \<lambda>nd nd'. ip_phase (ee_ext env) c s (snd (a nd)) nr nd'"
  shows "sv_verdict (fst r) = Match \<longleftrightarrow>
      named \<noteq> None \<or> (\<exists>i. fst l = Inl i) \<or> (\<exists>nd i. fst l = Inr nd \<and> fst (a nd) = Inl i) \<or>
      (\<exists>nd nd' i. fst l = Inr nd \<and> fst (a nd) = Inr nd' \<and> p nd nd' = Inl i)"
    and "sv_verdict (fst r) = NoMatch \<longleftrightarrow>
      named = None \<and> (\<exists>nd nd'. fst l = Inr nd \<and> fst (a nd) = Inr nd' \<and> p nd nd' = Inr no_needs)"
proof -
  have "(sv_verdict (fst r) = Match \<longleftrightarrow>
      named \<noteq> None \<or> (\<exists>i. fst l = Inl i) \<or> (\<exists>nd i. fst l = Inr nd \<and> fst (a nd) = Inl i) \<or>
      (\<exists>nd nd' i. fst l = Inr nd \<and> fst (a nd) = Inr nd' \<and> p nd nd' = Inl i)) \<and>
    (sv_verdict (fst r) = NoMatch \<longleftrightarrow>
      named = None \<and> (\<exists>nd nd'. fst l = Inr nd \<and> fst (a nd) = Inr nd' \<and> p nd nd' = Inr no_needs))"
  proof (cases named)
    case (Some h)
    then show ?thesis unfolding r_def compiled_set_eval_def named_def[symmetric] by (simp add: set_hit_def)
  next
    case None
    note r = r_def[unfolded compiled_set_eval_def named_def[symmetric] l_def[symmetric]]
    obtain r1 c1 where l: "l = (r1, c1)" by (cases l)
    show ?thesis
    proof (cases r1)
      case (Inl i)
      then show ?thesis unfolding r using None l by (simp add: set_hit_def)
    next
      case (Inr nd)
      obtain r2 c2 where a2: "asn_phase c s nr nd c1 = (r2, c2)" by fastforce
      show ?thesis
      proof (cases r2)
        case (Inl i)
        then show ?thesis unfolding r a_def using None l Inr a2 by (simp add: set_hit_def)
      next
        case (Inr nd')
        then show ?thesis unfolding r a_def p_def using None l \<open>r1 = Inr nd\<close> a2 needs_verdict_cases
          by (cases "ip_phase (ee_ext env) c s c2 nr nd'")
             (simp_all add: set_hit_def del: split_paired_Ex split_paired_All)
      qed
    qed
  qed
  then show "sv_verdict (fst r) = Match \<longleftrightarrow>
      named \<noteq> None \<or> (\<exists>i. fst l = Inl i) \<or> (\<exists>nd i. fst l = Inr nd \<and> fst (a nd) = Inl i) \<or>
      (\<exists>nd nd' i. fst l = Inr nd \<and> fst (a nd) = Inr nd' \<and> p nd nd' = Inl i)"
    and "sv_verdict (fst r) = NoMatch \<longleftrightarrow>
      named = None \<and> (\<exists>nd nd'. fst l = Inr nd \<and> fst (a nd) = Inr nd' \<and> p nd nd' = Inr no_needs)" by auto
qed

locale set_prophecy = set_contract sets for sets :: "set_handle \<Rightarrow> set_match" +
  fixes s :: session_info and s' :: session_info
  assumes query: "same_query s s'"
    and set_foretells: "foretells (as_eval (sets h) s nr ex) (as_eval (sets h) s' nr' ex)"
begin

lemma eval_set_foretells:
  "foretells (\<lambda>ctx. eval_set (sets h) s ctx nr ex) (\<lambda>ctx. eval_set (sets h) s' ctx nr' ex)"
proof -
  have "(fst (eval_set (sets h) s ctx nr ex) = Match \<longrightarrow> fst (eval_set (sets h) s' ctx' nr' ex) = Match) \<and>
      (fst (eval_set (sets h) s ctx nr ex) = NoMatch \<longrightarrow> fst (eval_set (sets h) s' ctx' nr' ex) = NoMatch)"
    if a: "ahead ctx ctx'" for ctx ctx'
  proof -
    let ?c = "ctx\<lparr>ec_set_depth := ec_set_depth ctx + 1\<rparr>" and ?c' = "ctx'\<lparr>ec_set_depth := ec_set_depth ctx' + 1\<rparr>"
    have "ahead ?c ?c'" "ec_set_depth ctx' = ec_set_depth ctx" using a by (simp_all add: ahead_def)
    moreover obtain v c v' c' where "sm_eval (sets h) s ?c nr ex = (v, c)" "sm_eval (sets h) s' ?c' nr' ex = (v', c')"
      by fastforce
    ultimately show ?thesis
      using foretellsD[OF set_foretells, of ?c ?c' h nr ex "sv_verdict v" c nr' "sv_verdict v'" c']
      by (simp add: eval_set_def Let_def as_eval_def)
  qed
  then show ?thesis by (simp add: foretells_def)
qed

lemma eval_foretells:
  "foretells (\<lambda>ctx. eval env sets s m ctx nr ex) (\<lambda>ctx. eval env sets s' m ctx nr' ex)"
  "foretells (eval_sub env sets s sub) (eval_sub env sets s' sub)"
proof (induction m and sub arbitrary: nr nr' ex and)
  case (MAnd subs)
  have "list_all2 (\<lambda>ev ev'. foretells ev ev' \<and> well_behaved s ev \<and> well_behaved s' ev')
      (map (eval_sub env sets s) subs) (map (eval_sub env sets s') subs)"
    using MAnd eval_behaved(2) by (simp add: list_all2_conv_all_nth)
  from and_loop_foretells[OF this] have "foretells (and_loop (map (eval_sub env sets s) subs) False False False)
      (and_loop (map (eval_sub env sets s') subs) False False False)"
    by (simp add: foretells_def)
  from in_branches_foretells[OF this] show ?case by simp
next
  case (MOr subs)
  have "list_all2 (\<lambda>ev ev'. foretells ev ev' \<and> well_behaved s ev \<and> well_behaved s' ev')
      (map (eval_sub env sets s) subs) (map (eval_sub env sets s') subs)"
    using MOr eval_behaved(2) by (simp add: list_all2_conv_all_nth)
  from or_loop_foretells[OF this] have "foretells (or_loop (map (eval_sub env sets s) subs) False False False)
      (or_loop (map (eval_sub env sets s') subs) False False False)"
    by (simp add: foretells_def)
  from in_branches_foretells[OF this] show ?case by simp
next
  case (MNot sub)
  then show ?case using not_arm_foretells by simp
qed (simp_all add: eval_set_foretells leaf_arm_foretells[OF query])

lemma compiled_set_foretells:
  "foretells (\<lambda>ctx. map_prod sv_verdict id (compiled_set_eval env sets c s ctx nr ex))
     (\<lambda>ctx. map_prod sv_verdict id (compiled_set_eval env sets c s' ctx nr' ex))"
proof -
  have targets: "set_targets c s' ex = set_targets c s ex" using query by (simp add: set_targets_def same_query_def)
  have "(sv_verdict (fst (compiled_set_eval env sets c s ctx nr ex)) = Match \<longrightarrow>
       sv_verdict (fst (compiled_set_eval env sets c s' ctx' nr' ex)) = Match) \<and>
     (sv_verdict (fst (compiled_set_eval env sets c s ctx nr ex)) = NoMatch \<longrightarrow>
       sv_verdict (fst (compiled_set_eval env sets c s' ctx' nr' ex)) = NoMatch)"
    if a: "ahead ctx ctx'" for ctx ctx'
  proof -
    let ?l = "linear_loop (linear_evs env sets c s nr ex) no_needs ctx"
    let ?l' = "linear_loop (linear_evs env sets c s' nr' ex) no_needs ctx'"
    have ev: "list_all2 (\<lambda>(i, ev) (i', ev'). foretells ev ev' \<and> well_behaved s ev \<and> well_behaved s' ev')
        (linear_evs env sets c s nr ex) (linear_evs env sets c s' nr' ex)"
      using eval_foretells(1) eval_behaved(1)
      by (auto simp: linear_evs_def list_all2_conv_all_nth split: prod.splits)
    have "phase_behaved s ctx ?l" "phase_behaved s' ctx' ?l'"
      using linear_loop_behaved[OF linear_evs_behaved] by (simp_all add: needs_ok_def flags_ok_def)
    then have a1: "ahead (snd ?l) (snd ?l')" using ahead_keeps[OF a] by (simp add: phase_behaved_def)
    have a2: "ahead (snd (asn_phase c s nr nd (snd ?l))) (snd (asn_phase c s' nr' nd' (snd ?l')))" for nd nd'
    proof -
      have "keeps ctx0 (snd (asn_phase c s0 nr0 nd0 ctx0))" for ctx0 s0 nr0 nd0
        using keeps_ctx_asn[of ctx0]
        by (auto simp: asn_phase_def split: sum.splits geo_result.splits option.splits prod.splits)
           (metis snd_conv)+
      then show ?thesis using ahead_keeps[OF a1] by blast
    qed
    note lin = linear_loop_foretells(1)[OF ev a, of no_needs no_needs] linear_loop_foretells(2)[OF ev a, of no_needs]
    have asn: "\<exists>j. fst (asn_phase c s' nr' nd' (snd ?l')) = Inl j"
      if "fst (asn_phase c s nr nd (snd ?l)) = Inl i" for nd nd' i
      using asn_phase_foretells(1)[OF a1 query that] by blast
    have ip: "\<exists>j. ip_phase (ee_ext env) c s' (snd (asn_phase c s' nr' nd' (snd ?l'))) nr' k' = Inl j"
      if "ip_phase (ee_ext env) c s (snd (asn_phase c s nr nd (snd ?l))) nr k = Inl i" for nd nd' k k' i
      using ip_phase_foretells(1)[OF a2 query that] .
    have "sv_verdict (fst (compiled_set_eval env sets c s' ctx' nr' ex)) = Match"
      if "sv_verdict (fst (compiled_set_eval env sets c s ctx nr ex)) = Match"
      using that lin(1) asn ip unfolding compiled_set_verdict(1) targets by (metis sum.exhaust)
    moreover have "sv_verdict (fst (compiled_set_eval env sets c s' ctx' nr' ex)) = NoMatch"
      if "sv_verdict (fst (compiled_set_eval env sets c s ctx nr ex)) = NoMatch"
    proof -
      from that obtain nd nd' where *: "fst ?l = Inr nd" "fst (asn_phase c s nr nd (snd ?l)) = Inr nd'"
        "ip_phase (ee_ext env) c s (snd (asn_phase c s nr nd (snd ?l))) nr nd' = Inr no_needs"
        unfolding compiled_set_verdict(2) by blast
      note ip' = ip_phase_foretells(2)[OF a2 query *(3)]
      note asn' = asn_phase_foretells(2)[OF a1 query, of c nr nd] 
      from ip' * have "nd = no_needs" using asn' by simp
      with ip' asn' * lin(2) that show ?thesis unfolding compiled_set_verdict(2) targets by metis
    qed
    ultimately show ?thesis by blast
  qed
  then show ?thesis by (simp add: foretells_def)
qed

end

lemma set_calls_prophecy:
  "same_query s s' \<Longrightarrow> set_prophecy (set_calls env set_bottom store n) s s'"
proof (induction n)
  case 0
  then show ?case
    using set_bottom_contract
    by (simp add: set_prophecy_def set_prophecy_axioms_def) (simp add: foretells_def as_eval_def set_bottom_def)
next
  case (Suc n)
  then have "set_prophecy (set_calls env set_bottom store n) s s'" by simp
  from set_prophecy.compiled_set_foretells[OF this] show ?case
    using Suc.prems nested.set_contract_axioms[of env store "Suc n"]
    by (simp add: set_prophecy_def set_prophecy_axioms_def as_eval_def)
qed

interpretation unrolled: set_agreement "set_calls env set_bottom store MAX_NESTING"
    "set_calls env bottom store (MAX_NESTING + k)" 0 for env store bottom k
  by (rule set_calls_agree) simp_all

interpretation layered: set_prophecy "set_calls env set_bottom store MAX_NESTING" s s for env store s
  by (rule set_calls_prophecy) (simp add: same_query_def)

section \<open>Properties of an evaluation\<close>

text \<open>
  C3. Evaluating a rule never runs away, not even when hot-reloaded sets refer to each other in
  a cycle: with the nesting limit of the context, eight unfoldings of the sets are all of
  them. More would give the same verdict and the same context, whatever is answered below.
\<close>

theorem set_nesting_ends:
  assumes "ec_set_depth ctx = 0"
  shows "eval env (set_calls env bottom store (MAX_NESTING + k)) s m ctx nr ex = matcher_eval env store s m ctx nr ex"
proof -
  from unrolled.eval_same(1) have "same_at 0 (\<lambda>ctx. eval env (set_calls env set_bottom store MAX_NESTING) s m ctx nr ex)
      (\<lambda>ctx. eval env (set_calls env bottom store (MAX_NESTING + k)) s m ctx nr ex)" .
  then show ?thesis using assms by (simp add: same_at_def matcher_eval_def)
qed

definition looping_store :: set_store where
  "looping_store h = (compiled_set_empty ''loop'' RuleSetKind)
     \<lparr>cset_linear := [(0, CompiledSub (MSet (1 - h)) False False ''RULE-SET,other'')]\<rparr>"

definition env_ref :: eval_env where
  "env_ref = \<lparr>ee_ext = ext_ref, ee_windows = False\<rparr>"

definition bottom_match :: "set_handle \<Rightarrow> set_match" where
  "bottom_match h =
     \<lparr>sm_name = '''', sm_eval = (\<lambda>s ctx nr ex. (\<lparr>sv_verdict = Match, sv_entry = None\<rparr>, ctx))\<rparr>"

theorem set_nesting_ends_witness:
  "ec_set_depth (eval_ctx_new no_geo) = 0 \<and>
   fst (eval env_ref (set_calls env_ref bottom_match looping_store (MAX_NESTING + 3))
      (session_tcp (HDomain ''a.com'') 443) (MSet 0) (eval_ctx_new no_geo) False False) = NoMatch"
proof -
  have "fst (matcher_eval env_ref looping_store
      (session_tcp (HDomain ''a.com'') 443) (MSet 0) (eval_ctx_new no_geo) False False) = NoMatch"
    by code_simp
  moreover have "ec_set_depth (eval_ctx_new no_geo) = 0" by (simp add: eval_ctx_new_def)
  ultimately show ?thesis by (simp only: set_nesting_ends simp_thms)
qed

text \<open>
  C4. What an evaluation leaves of its context, sets included: everything but the hit, the
  caches and the notes is as it was, the notes only grow and the caches keep agreeing with the
  databases; the hit changes only if the rule matched; and the verdict asks for the
  connection, the process or the addresses only when the context does not have them.
\<close>

theorem evaluation_contract:
  "let r = matcher_eval env store s m ctx nr ex in
     keeps ctx (snd r) \<and> answerable s ctx (fst r) \<and>
     (fst r = Match \<or> ec_sub_hit (snd r) = ec_sub_hit ctx)"
  using nested.eval_behaved(1)[of s env env store MAX_NESTING m nr ex]
  unfolding matcher_eval_def well_behaved_def loop_behaved_def by (auto simp: Let_def)

text \<open>
  C2. A verdict reached before the connection exists is final for the connections of
  \<^const>\<open>same_query\<close>, those to the same destination host, from the same client address, with the same
  TLS server name, Host and carried process: the rule says the same of such a connection,
  whatever its ports, transport, protocol, URL and user agent are, whatever addresses are found for
  its name, whatever the process finder answers if it had not been asked, and whether or not
  the rule may resolve. (A rule with \<open>extended-matching\<close> goes by the server name and the Host too, so that it
  may say something else once one of them is read.)
\<close>

theorem verdict_before_connection_final:
  assumes "ahead ctx ctx'" and "same_query s s'"
    and "fst (matcher_eval env store s m ctx nr ex) \<in> {Match, NoMatch}"
  shows "fst (matcher_eval env store s' m ctx' nr' ex) = fst (matcher_eval env store s m ctx nr ex)"
  using set_prophecy.eval_foretells(1)[OF set_calls_prophecy[OF assms(2)], of env env store MAX_NESTING m nr ex nr'] assms(1,3)
  by (auto simp: foretells_def matcher_eval_def)

theorem verdict_before_connection_final_witness:
  "ahead ((eval_ctx_new no_geo)\<lparr>ec_before_connection := True\<rparr>) (eval_ctx_new no_geo) \<and>
   same_query (session_udp (HDomain ''ads.com'') 53) (session_tcp (HDomain ''ads.com'') 443) \<and>
   fst (matcher_eval env_ref looping_store (session_tcp (HDomain ''ads.com'') 443)
     (MOr [CompiledSub (MDestPort (PSingle 80)) False False '''', CompiledSub (MDomain ''ads.com'') False False ''''])
     (eval_ctx_new no_geo) False False) = Match"
proof -
  let ?m = "MOr [CompiledSub (MDestPort (PSingle 80)) False False '''', CompiledSub (MDomain ''ads.com'') False False '''']"
  let ?c = "(eval_ctx_new no_geo)\<lparr>ec_before_connection := True\<rparr>" and ?s = "session_udp (HDomain ''ads.com'') 53"
  have a: "ahead ?c (eval_ctx_new no_geo)" by (simp add: ahead_def eval_ctx_new_def coherent_def)
  have q: "same_query ?s (session_tcp (HDomain ''ads.com'') 443)"
    by (simp add: same_query_def session_udp_def session_tcp_def)
  have v: "fst (matcher_eval env_ref looping_store ?s ?m ?c True False) = Match" by code_simp
  from verdict_before_connection_final[OF a q, of env_ref looping_store ?m True False False] v a q
  show ?thesis by simp
qed

end
