(* ===== verification/Rurge_Engine.thy ===== *)
theory Rurge_Engine
  imports Rurge_Eval_Facts
begin

text \<open>
  The rule engine, \<^verbatim>\<open>crates/rurge-rules/src/engine.rs\<close> and \<^verbatim>\<open>pre_matching.rs\<close>: building the table of
  rules from a profile, the evaluation of a session with resolution and process lookup on
  demand, and the pre-matching layer. The resolver and the process finder are arguments; an
  evaluation returns, besides its decision, the engine with its counters and the list of the
  questions it asked them. Elapsed times are left out of the trace.
\<close>

section \<open>Model\<close>

datatype resolve_error = Timeout | EmptyAnswer | Failed string

fun resolve_error_text :: "resolve_error \<Rightarrow> string" where
  "resolve_error_text Timeout = ''timeout''"
| "resolve_error_text EmptyAnswer = ''empty answer''"
| "resolve_error_text (Failed s) = s"

type_synonym lazy_resolver = "string \<Rightarrow> resolve_error + resolved_addrs"
type_synonym lazy_process = "process_info option"

definition no_resolve_resolver :: lazy_resolver where
  "no_resolve_resolver host = Inl (Failed ''DNS disabled'')"

definition fixed_resolver :: "resolved_addrs \<Rightarrow> lazy_resolver" where
  "fixed_resolver addrs host = Inr addrs"

definition no_process :: lazy_process where
  "no_process = None"

datatype outbound_mode = ModeDirect | ModeProxy policy_ref | ModeRule

record compiled_rule =
  cr_index :: nat
  cr_matcher :: matcher
  cr_policy :: policy_ref
  cr_params :: rule_params
  cr_raw :: string
  cr_hits :: u64
  cr_warned :: bool

datatype outcome = OPolicy policy_ref | ODnsFailed

datatype reason =
    ROutboundModeDirect | ROutboundModeProxy | RRule | RFinal | RDnsFailedFallback | RDnsFailed | RPreMatching

fun reason_str :: "reason \<Rightarrow> string" where
  "reason_str ROutboundModeDirect = ''outbound-mode-direct''"
| "reason_str ROutboundModeProxy = ''outbound-mode-proxy''"
| "reason_str RRule = ''rule''"
| "reason_str RFinal = ''final''"
| "reason_str RDnsFailedFallback = ''dns-failed-fallback''"
| "reason_str RDnsFailed = ''dns-failed''"
| "reason_str RPreMatching = ''pre-matching''"

record decision =
  d_outcome :: outcome
  d_reason :: reason
  d_matched :: "nat option"
  d_sub_rule :: "sub_rule_hit option"
  d_resolved :: "resolved_addrs option"
  d_notes :: "string list"

definition decision_bypass :: "policy_ref \<Rightarrow> reason \<Rightarrow> decision" where
  "decision_bypass policy rs =
     \<lparr>d_outcome = OPolicy policy, d_reason = rs, d_matched = None, d_sub_rule = None,
      d_resolved = None, d_notes = []\<rparr>"

definition decision_policy :: "decision \<Rightarrow> policy_ref option" where
  "decision_policy d = (case d_outcome d of OPolicy p \<Rightarrow> Some p | ODnsFailed \<Rightarrow> None)"

fun verdict_name :: "verdict \<Rightarrow> string" where
  "verdict_name Match = ''match''"
| "verdict_name NoMatch = ''no-match''"
| "verdict_name NeedsResolve = ''needs-resolve''"
| "verdict_name NeedsProcess = ''needs-process''"
| "verdict_name NeedsConnection = ''needs-connection''"

record trace_step =
  ts_rule :: nat
  ts_verdict :: string

text \<open>What the engine reads of the profile.\<close>

record config =
  cfg_rules :: "rule list"
  cfg_subnet_exp_wifi_always_match :: bool

definition is_final :: "rule \<Rightarrow> bool" where
  "is_final r \<longleftrightarrow> r_kind r = KFinal"

definition first_final :: "config \<Rightarrow> nat option" where
  "first_final cfg = position is_final (cfg_rules cfg)"

definition effective_final :: "config \<Rightarrow> nat option" where
  "effective_final cfg =
     map_option (\<lambda>i. length (cfg_rules cfg) - 1 - i) (position is_final (rev (cfg_rules cfg)))"

record rule_engine =
  eng_rules :: "compiled_rule list"
  eng_final_pos :: nat
  eng_geo :: geo_lookup
  eng_network :: network_facts
  eng_wifi_always_match :: bool
  eng_pre :: "nat list"

definition compile_rule :: "bool \<Rightarrow> set_lookup \<Rightarrow> nat \<times> rule \<Rightarrow> compiled_rule" where
  "compile_rule win sets ir =
     \<lparr>cr_index = fst ir, cr_matcher = compile win sets (r_kind (snd ir)), cr_policy = r_policy (snd ir),
      cr_params = r_params (snd ir), cr_raw = r_raw (snd ir), cr_hits = 0, cr_warned = False\<rparr>"

definition pre_extract :: "compiled_rule list \<Rightarrow> nat list" where
  "pre_extract rules = map fst (filter (\<lambda>(_, r). rp_pre_matching (cr_params r)) (enumerate 0 rules))"

definition build :: "bool \<Rightarrow> config \<Rightarrow> set_lookup \<Rightarrow> geo_lookup \<Rightarrow> string + rule_engine" where
  "build win cfg sets geo =
     (case (first_final cfg, effective_final cfg) of
        (Some first, Some lst) \<Rightarrow>
          let kept = enumerate 0 (take first (cfg_rules cfg)) @ [(lst, cfg_rules cfg ! lst)];
              rules = map (compile_rule win sets) kept
          in Inr \<lparr>eng_rules = rules, eng_final_pos = length rules - 1, eng_geo = geo,
                  eng_network = network_facts_default,
                  eng_wifi_always_match = cfg_subnet_exp_wifi_always_match cfg,
                  eng_pre = pre_extract rules\<rparr>
      | _ \<Rightarrow> Inl ''the [Rule] section has no FINAL rule'')"

definition engine_with_network :: "network_facts \<Rightarrow> rule_engine \<Rightarrow> rule_engine" where
  "engine_with_network facts e = e\<lparr>eng_network := facts\<rparr>"

definition final_rule :: "rule_engine \<Rightarrow> compiled_rule" where
  "final_rule e = eng_rules e ! eng_final_pos e"

text \<open>The counters of a rule: its hits wrap, its warning is given once.\<close>

definition add_hit :: "nat \<Rightarrow> rule_engine \<Rightarrow> rule_engine" where
  "add_hit pos e =
     e\<lparr>eng_rules := (eng_rules e)[pos := (eng_rules e ! pos)\<lparr>cr_hits := cr_hits (eng_rules e ! pos) + 1\<rparr>]\<rparr>"

text \<open>The state of one evaluation: the engine, the context, the notes, the trace, the questions asked.\<close>

datatype question = AskProcess | AskResolve string

record run_state =
  rs_engine :: rule_engine
  rs_ctx :: eval_ctx
  rs_notes :: "string list"
  rs_trace :: "trace_step list"
  rs_asked :: "question list"

definition collect_notes :: "nat \<Rightarrow> run_state \<Rightarrow> run_state" where
  "collect_notes pos st =
     (let e = rs_engine st; ctx = rs_ctx st; rule = eng_rules e ! pos in
      if ec_notes ctx = [] then st
      else let e' = e\<lparr>eng_rules := (eng_rules e)[pos := rule\<lparr>cr_warned := True\<rparr>]\<rparr>;
               ctx' = ctx\<lparr>ec_notes := []\<rparr> in
           if cr_warned rule then st\<lparr>rs_engine := e', rs_ctx := ctx'\<rparr>
           else st\<lparr>rs_engine := e', rs_ctx := ctx', rs_notes := rs_notes st @ ec_notes ctx\<rparr>)"

definition push_trace :: "nat \<Rightarrow> string \<Rightarrow> run_state \<Rightarrow> run_state" where
  "push_trace i v st = st\<lparr>rs_trace := rs_trace st @ [\<lparr>ts_rule = i, ts_verdict = v\<rparr>]\<rparr>"

definition eval_rule :: "eval_env \<Rightarrow> set_store \<Rightarrow> compiled_rule \<Rightarrow> session_info \<Rightarrow> eval_ctx \<Rightarrow> verdict \<times> eval_ctx" where
  "eval_rule env store rule s ctx =
     matcher_eval env store s (cr_matcher rule) ctx (rp_no_resolve (cr_params rule))
       (rp_extended_matching (cr_params rule))"

definition pre_matches :: "eval_env \<Rightarrow> set_store \<Rightarrow> compiled_rule \<Rightarrow> session_info \<Rightarrow> eval_ctx \<Rightarrow> bool \<times> eval_ctx" where
  "pre_matches env store rule s ctx =
     (case matcher_eval env store s (cr_matcher rule) ctx True (rp_extended_matching (cr_params rule)) of
        (verdict, ctx') \<Rightarrow>
          (verdict = Match \<and> (case cr_policy rule of PBuiltin b \<Rightarrow> is_reject b | _ \<Rightarrow> False), ctx'))"

fun pre_pass :: "eval_env \<Rightarrow> set_store \<Rightarrow> session_info \<Rightarrow> nat list \<Rightarrow> run_state \<Rightarrow> decision option \<times> run_state" where
  "pre_pass env store s [] st = (None, st)"
| "pre_pass env store s (pos # poss) st =
     (let rule = eng_rules (rs_engine st) ! pos in
      case pre_matches env store rule s ((rs_ctx st)\<lparr>ec_sub_hit := None\<rparr>) of
        (matched, ctx) \<Rightarrow>
          let st1 = collect_notes pos (st\<lparr>rs_ctx := ctx\<rparr>) in
          if \<not> matched then pre_pass env store s poss st1
          else let st2 = push_trace (cr_index rule) ''pre-match'' st1;
                   st3 = st2\<lparr>rs_engine := add_hit pos (rs_engine st2)\<rparr> in
               (Some \<lparr>d_outcome = OPolicy (cr_policy rule), d_reason = RPreMatching,
                      d_matched = Some (cr_index rule), d_sub_rule = ec_sub_hit (rs_ctx st3),
                      d_resolved = None, d_notes = rs_notes st3\<rparr>,
                st3\<lparr>rs_ctx := (rs_ctx st3)\<lparr>ec_sub_hit := None\<rparr>, rs_notes := []\<rparr>))"

definition dns_failed :: "compiled_rule \<Rightarrow> run_state \<Rightarrow> decision \<times> run_state" where
  "dns_failed rule st =
     (let f = final_rule (rs_engine st) in
      if rp_dns_failed (cr_params f)
      then (\<lparr>d_outcome = OPolicy (cr_policy f), d_reason = RDnsFailedFallback, d_matched = Some (cr_index f),
             d_sub_rule = None, d_resolved = ec_resolved (rs_ctx st), d_notes = rs_notes st\<rparr>,
            st\<lparr>rs_engine := add_hit (eng_final_pos (rs_engine st)) (rs_engine st)\<rparr>)
      else (\<lparr>d_outcome = ODnsFailed, d_reason = RDnsFailed, d_matched = Some (cr_index rule),
             d_sub_rule = None, d_resolved = None, d_notes = rs_notes st\<rparr>, st))"

text \<open>
  One rule of the loop of \<open>run\<close>: its verdict, after the process and then the addresses were
  asked for if it needs them, or the failure of the resolution.
\<close>

definition ask_process :: "lazy_process \<Rightarrow> run_state \<Rightarrow> run_state" where
  "ask_process process st =
     st\<lparr>rs_ctx := (rs_ctx st)\<lparr>ec_process := Asked process\<rparr>, rs_asked := rs_asked st @ [AskProcess]\<rparr>"

definition dst_name :: "session_info \<Rightarrow> string" where
  "dst_name s = (case as_domain (s_dst_host s) of None \<Rightarrow> '''' | Some d \<Rightarrow> d)"

definition eval_in_run :: "eval_env \<Rightarrow> set_store \<Rightarrow> session_info \<Rightarrow> compiled_rule \<Rightarrow> run_state \<Rightarrow> verdict \<times> run_state" where
  "eval_in_run env store s rule st =
     (case eval_rule env store rule s (rs_ctx st) of (v, ctx) \<Rightarrow> (v, st\<lparr>rs_ctx := ctx\<rparr>))"

definition needing_process :: "eval_env \<Rightarrow> set_store \<Rightarrow> lazy_process \<Rightarrow> session_info \<Rightarrow> compiled_rule \<Rightarrow>
    verdict \<times> run_state \<Rightarrow> verdict \<times> run_state" where
  "needing_process env store process s rule r =
     (case r of (v, st) \<Rightarrow>
        if v = NeedsProcess then eval_in_run env store s rule (ask_process process st) else (v, st))"

definition needing_resolve :: "eval_env \<Rightarrow> set_store \<Rightarrow> lazy_resolver \<Rightarrow> session_info \<Rightarrow> compiled_rule \<Rightarrow>
    verdict \<times> run_state \<Rightarrow> (resolve_error + verdict) \<times> run_state" where
  "needing_resolve env store resolver s rule r =
     (case r of (v, st) \<Rightarrow>
        if v = NeedsResolve then
          let host = dst_name s; st1 = st\<lparr>rs_asked := rs_asked st @ [AskResolve host]\<rparr> in
          (case resolver host of
             Inr addrs \<Rightarrow>
               map_prod Inr id
                 (eval_in_run env store s rule (st1\<lparr>rs_ctx := (rs_ctx st1)\<lparr>ec_resolved := Some addrs\<rparr>\<rparr>))
           | Inl e \<Rightarrow> (Inl e, st1))
        else (Inr v, st))"

definition rule_verdict ::
    "eval_env \<Rightarrow> set_store \<Rightarrow> lazy_resolver \<Rightarrow> lazy_process \<Rightarrow> session_info \<Rightarrow> compiled_rule \<Rightarrow> run_state \<Rightarrow>
     (resolve_error + verdict) \<times> run_state" where
  "rule_verdict env store resolver process s rule st =
     needing_resolve env store resolver s rule
       (needing_process env store process s rule
          (eval_in_run env store s rule (st\<lparr>rs_ctx := (rs_ctx st)\<lparr>ec_sub_hit := None\<rparr>\<rparr>)))"

fun run_rules ::
    "eval_env \<Rightarrow> set_store \<Rightarrow> lazy_resolver \<Rightarrow> lazy_process \<Rightarrow> session_info \<Rightarrow> nat list \<Rightarrow> run_state \<Rightarrow>
     decision \<times> run_state" where
  "run_rules env store resolver process s [] st =
     (let f = final_rule (rs_engine st) in
      (\<lparr>d_outcome = OPolicy (cr_policy f), d_reason = RFinal, d_matched = Some (cr_index f),
        d_sub_rule = None, d_resolved = ec_resolved (rs_ctx st), d_notes = rs_notes st\<rparr>, st))"
| "run_rules env store resolver process s (pos # poss) st =
     (let rule = eng_rules (rs_engine st) ! pos in
      case rule_verdict env store resolver process s rule st of
        (Inl e, st1) \<Rightarrow>
          let st2 = collect_notes pos (st1\<lparr>rs_notes := rs_notes st1 @
                      [''DNS lookup for '' @ dst_name s @ '' failed: '' @ resolve_error_text e]\<rparr>)
          in dns_failed rule (push_trace (cr_index rule) ''dns-failed'' st2)
      | (Inr verdict, st1) \<Rightarrow>
          let st2 = push_trace (cr_index rule) (verdict_name verdict) (collect_notes pos st1) in
          if verdict = Match then
            let st3 = st2\<lparr>rs_engine := add_hit pos (rs_engine st2)\<rparr> in
            (\<lparr>d_outcome = OPolicy (cr_policy rule),
              d_reason = (if pos = eng_final_pos (rs_engine st3) then RFinal else RRule),
              d_matched = Some (cr_index rule), d_sub_rule = ec_sub_hit (rs_ctx st3),
              d_resolved = ec_resolved (rs_ctx st3), d_notes = rs_notes st3\<rparr>, st3)
          else run_rules env store resolver process s poss st2)"

definition run_start :: "rule_engine \<Rightarrow> run_state" where
  "run_start e =
     \<lparr>rs_engine = e, rs_ctx = with_network (eng_geo e) (eng_network e) (eng_wifi_always_match e),
      rs_notes = [], rs_trace = [], rs_asked = []\<rparr>"

definition run :: "eval_env \<Rightarrow> set_store \<Rightarrow> rule_engine \<Rightarrow> session_info \<Rightarrow> outbound_mode \<Rightarrow> lazy_resolver \<Rightarrow>
    lazy_process \<Rightarrow> decision \<times> run_state" where
  "run env store e s mode resolver process =
     (case mode of
        ModeDirect \<Rightarrow> (decision_bypass (PBuiltin Direct) ROutboundModeDirect, run_start e)
      | ModeProxy p \<Rightarrow> (decision_bypass p ROutboundModeProxy, run_start e)
      | ModeRule \<Rightarrow>
          (case pre_pass env store s (eng_pre e) (run_start e) of
             (Some d, st) \<Rightarrow> (d, st)
           | (None, st) \<Rightarrow> run_rules env store resolver process s [0..<length (eng_rules e)] st))"

definition evaluate :: "eval_env \<Rightarrow> set_store \<Rightarrow> rule_engine \<Rightarrow> session_info \<Rightarrow> outbound_mode \<Rightarrow> lazy_resolver \<Rightarrow>
    decision \<times> run_state" where
  "evaluate env store e s mode resolver = run env store e s mode resolver no_process"

definition evaluate_with_process :: "eval_env \<Rightarrow> set_store \<Rightarrow> rule_engine \<Rightarrow> session_info \<Rightarrow> outbound_mode \<Rightarrow>
    lazy_resolver \<Rightarrow> lazy_process \<Rightarrow> decision \<times> run_state" where
  "evaluate_with_process env store e s mode resolver process = run env store e s mode resolver process"

definition evaluate_traced :: "eval_env \<Rightarrow> set_store \<Rightarrow> rule_engine \<Rightarrow> session_info \<Rightarrow> outbound_mode \<Rightarrow>
    lazy_resolver \<Rightarrow> decision \<times> trace_step list" where
  "evaluate_traced env store e s mode resolver =
     map_prod id rs_trace (run env store e s mode resolver no_process)"

text \<open>The pre-matching layer.\<close>

record pre_match_hit =
  pm_rule :: nat
  pm_policy :: policy_ref
  pm_sub_rule :: "sub_rule_hit option"

fun first_pre_loop :: "eval_env \<Rightarrow> set_store \<Rightarrow> rule_engine \<Rightarrow> session_info \<Rightarrow> nat list \<Rightarrow> eval_ctx \<Rightarrow>
    (nat \<times> sub_rule_hit option) option" where
  "first_pre_loop env store e s [] ctx = None"
| "first_pre_loop env store e s (pos # poss) ctx =
     (case pre_matches env store (eng_rules e ! pos) s (ctx\<lparr>ec_sub_hit := None\<rparr>) of
        (matched, ctx') \<Rightarrow>
          if matched then Some (pos, ec_sub_hit ctx')
          else first_pre_loop env store e s poss (ctx'\<lparr>ec_notes := []\<rparr>))"

definition first_pre_hit :: "eval_env \<Rightarrow> set_store \<Rightarrow> rule_engine \<Rightarrow> session_info \<Rightarrow> pre_match_layer \<Rightarrow>
    (nat \<times> sub_rule_hit option) option" where
  "first_pre_hit env store e s layer =
     first_pre_loop env store e s (eng_pre e)
       ((with_network (eng_geo e) (eng_network e) (eng_wifi_always_match e))
          \<lparr>ec_before_connection := (layer = Dns)\<rparr>)"

definition pre_match :: "eval_env \<Rightarrow> set_store \<Rightarrow> rule_engine \<Rightarrow> session_info \<Rightarrow> pre_match_layer \<Rightarrow>
    pre_match_hit option \<times> rule_engine" where
  "pre_match env store e s layer =
     (case first_pre_hit env store e s layer of
        None \<Rightarrow> (None, e)
      | Some (pos, sub) \<Rightarrow>
          (Some \<lparr>pm_rule = cr_index (eng_rules e ! pos), pm_policy = cr_policy (eng_rules e ! pos),
                 pm_sub_rule = sub\<rparr>,
           add_hit pos e))"

definition pre_refuses :: "eval_env \<Rightarrow> set_store \<Rightarrow> rule_engine \<Rightarrow> session_info \<Rightarrow> bool" where
  "pre_refuses env store e s \<longleftrightarrow> first_pre_hit env store e s Syn \<noteq> None"

end
