(* ===== verification/Rurge_Engine_Facts.thy ===== *)
theory Rurge_Engine_Facts
  imports Rurge_Engine
begin

text \<open>
  The properties of the rule engine: the table it builds, how a session is decided, what is asked
  of the resolver and the process finder, what is counted, and that the two layers of
  pre-matching agree.
\<close>

section \<open>What stays of the engine\<close>

text \<open>A rule without its counters.\<close>

definition rule_static :: "compiled_rule \<Rightarrow> nat \<times> matcher \<times> policy_ref \<times> rule_params" where
  "rule_static r = (cr_index r, cr_matcher r, cr_policy r, cr_params r)"

definition same_table :: "rule_engine \<Rightarrow> rule_engine \<Rightarrow> bool" where
  "same_table e e' \<longleftrightarrow>
     map rule_static (eng_rules e') = map rule_static (eng_rules e) \<and>
     eng_final_pos e' = eng_final_pos e"

lemma same_table_refl [simp]: "same_table e e"
  by (simp add: same_table_def)

lemma same_table_trans: "same_table a b \<Longrightarrow> same_table b c \<Longrightarrow> same_table a c"
  by (simp add: same_table_def)

lemma same_table_length: "same_table e e' \<Longrightarrow> length (eng_rules e') = length (eng_rules e)"
  unfolding same_table_def by (metis length_map)

lemma same_table_nth:
  assumes "same_table e e'" "pos < length (eng_rules e)"
  shows "cr_index (eng_rules e' ! pos) = cr_index (eng_rules e ! pos)"
    "cr_matcher (eng_rules e' ! pos) = cr_matcher (eng_rules e ! pos)"
    "cr_policy (eng_rules e' ! pos) = cr_policy (eng_rules e ! pos)"
    "cr_params (eng_rules e' ! pos) = cr_params (eng_rules e ! pos)"
proof -
  have "rule_static (eng_rules e' ! pos) = rule_static (eng_rules e ! pos)"
    using assms same_table_length[OF assms(1)] unfolding same_table_def by (metis nth_map)
  then show "cr_index (eng_rules e' ! pos) = cr_index (eng_rules e ! pos)"
    "cr_matcher (eng_rules e' ! pos) = cr_matcher (eng_rules e ! pos)"
    "cr_policy (eng_rules e' ! pos) = cr_policy (eng_rules e ! pos)"
    "cr_params (eng_rules e' ! pos) = cr_params (eng_rules e ! pos)"
    by (simp_all add: rule_static_def)
qed

lemma map_update_same: "f y = f (xs ! i) \<Longrightarrow> map f (xs[i := y]) = map f xs"
  by (metis list_update_id map_update)

definition hits_of :: "rule_engine \<Rightarrow> u64 list" where
  "hits_of e = map cr_hits (eng_rules e)"

lemma add_hit_table [simp]: "same_table e (add_hit pos e)"
  by (simp add: same_table_def add_hit_def map_update_same rule_static_def)

lemma hits_add_hit: "hits_of (add_hit pos e) = (hits_of e)[pos := hits_of e ! pos + 1]"
  if "pos < length (eng_rules e)"
  using that by (simp add: hits_of_def add_hit_def map_update)

lemma collect_notes_keeps [simp]:
  "same_table (rs_engine st) (rs_engine (collect_notes pos st))"
  "hits_of (rs_engine (collect_notes pos st)) = hits_of (rs_engine st)"
  "rs_asked (collect_notes pos st) = rs_asked st"
  "rs_trace (collect_notes pos st) = rs_trace st"
  "ec_process (rs_ctx (collect_notes pos st)) = ec_process (rs_ctx st)"
  "ec_resolved (rs_ctx (collect_notes pos st)) = ec_resolved (rs_ctx st)"
  "ec_before_connection (rs_ctx (collect_notes pos st)) = ec_before_connection (rs_ctx st)"
  by (auto simp: collect_notes_def Let_def same_table_def hits_of_def map_update_same rule_static_def)

lemma collect_notes_table: "same_table e (rs_engine st) \<Longrightarrow> same_table e (rs_engine (collect_notes pos st))"
  using same_table_trans collect_notes_keeps(1) by blast

lemma push_trace_keeps [simp]:
  "rs_engine (push_trace i v st) = rs_engine st" "rs_ctx (push_trace i v st) = rs_ctx st"
  "rs_asked (push_trace i v st) = rs_asked st"
  "rs_trace (push_trace i v st) = rs_trace st @ [\<lparr>ts_rule = i, ts_verdict = v\<rparr>]"
  by (simp_all add: push_trace_def)

section \<open>The verdict on one rule\<close>

lemma eval_rule_contract:
  assumes "eval_rule env store rule s ctx = (v, ctx')"
  shows "keeps ctx ctx'" "answerable s ctx v" "v \<noteq> Match \<Longrightarrow> ec_sub_hit ctx' = ec_sub_hit ctx"
  using well_behavedD[OF nested.eval_behaved(1), of env env store MAX_NESTING s "cr_matcher rule" ctx
      "rp_no_resolve (cr_params rule)" "rp_extended_matching (cr_params rule)" v ctx'] assms
  by (simp_all add: eval_rule_def matcher_eval_def)

text \<open>What is known in the evaluation of a session that has its connection, and what was asked for it.\<close>

definition may_ask :: "session_info \<Rightarrow> question set" where
  "may_ask s =
     (if s_process s = None then {AskProcess} else {}) \<union>
     (case s_dst_host s of HDomain d \<Rightarrow> {AskResolve d} | HIp _ \<Rightarrow> {})"

definition asked_ok :: "session_info \<Rightarrow> run_state \<Rightarrow> bool" where
  "asked_ok s st \<longleftrightarrow>
     distinct (rs_asked st) \<and> set (rs_asked st) \<subseteq> may_ask s \<and> \<not> ec_before_connection (rs_ctx st) \<and>
     (AskProcess \<in> set (rs_asked st) \<longrightarrow> ec_process (rs_ctx st) \<noteq> NotAsked) \<and>
     ((\<exists>h. AskResolve h \<in> set (rs_asked st)) \<longrightarrow> ec_resolved (rs_ctx st) \<noteq> None)"

lemma asked_ok_ctx:
  "asked_ok s st \<Longrightarrow> keeps (rs_ctx st) ctx \<Longrightarrow> asked_ok s (st\<lparr>rs_ctx := ctx\<rparr>)"
  by (simp add: asked_ok_def keeps_def)

lemma asked_ok_collect [simp]: "asked_ok s (collect_notes pos st) \<longleftrightarrow> asked_ok s st"
  by (simp add: asked_ok_def)

lemma asked_ok_trace [simp]:
  "asked_ok s (push_trace i v st) \<longleftrightarrow> asked_ok s st" "asked_ok s (st\<lparr>rs_engine := e\<rparr>) \<longleftrightarrow> asked_ok s st"
  by (simp_all add: asked_ok_def push_trace_def)

text \<open>One evaluation of a rule inside a run.\<close>

definition same_run :: "run_state \<Rightarrow> run_state \<Rightarrow> bool" where
  "same_run st st' \<longleftrightarrow>
     rs_engine st' = rs_engine st \<and> rs_trace st' = rs_trace st \<and> rs_notes st' = rs_notes st"

lemma same_run_trans: "same_run a b \<Longrightarrow> same_run b c \<Longrightarrow> same_run a c"
  by (simp add: same_run_def)

lemma eval_in_run_facts:
  assumes "asked_ok s st" "eval_in_run env store s rule st = (v, st')"
  shows "asked_ok s st'" "same_run st st'" "v \<noteq> NeedsConnection"
    "v = NeedsProcess \<Longrightarrow> s_process s = None \<and> ec_process (rs_ctx st') = NotAsked"
    "v = NeedsResolve \<Longrightarrow> as_ip (s_dst_host s) = None \<and> ec_resolved (rs_ctx st') = None"
    "ec_resolved (rs_ctx st') = ec_resolved (rs_ctx st)"
proof -
  obtain ctx where e: "eval_rule env store rule s (rs_ctx st) = (v, ctx)" and st': "st' = st\<lparr>rs_ctx := ctx\<rparr>"
    using assms(2) by (auto simp: eval_in_run_def split: prod.splits)
  note k = eval_rule_contract[OF e]
  show "asked_ok s st'" unfolding st' using assms(1) k(1) by (rule asked_ok_ctx)
  show "same_run st st'" by (simp add: st' same_run_def)
  show "v \<noteq> NeedsConnection" using k(2) assms(1) by (auto simp: answerable_def asked_ok_def)
  show "v = NeedsProcess \<Longrightarrow> s_process s = None \<and> ec_process (rs_ctx st') = NotAsked"
    "v = NeedsResolve \<Longrightarrow> as_ip (s_dst_host s) = None \<and> ec_resolved (rs_ctx st') = None"
    "ec_resolved (rs_ctx st') = ec_resolved (rs_ctx st)"
    using k(1,2) by (auto simp: answerable_def keeps_def st')
qed

lemma ask_process_ok:
  assumes "asked_ok s st" "s_process s = None" "ec_process (rs_ctx st) = NotAsked"
  shows "asked_ok s (ask_process p st)" "same_run st (ask_process p st)"
  using assms by (auto simp: asked_ok_def ask_process_def may_ask_def same_run_def)

lemma needing_process_facts:
  assumes "asked_ok s st0" "eval_in_run env store s rule st0 = (v1, st1)"
    "needing_process env store process s rule (v1, st1) = (v, st)"
  shows "asked_ok s st" "same_run st0 st" "v \<noteq> NeedsConnection"
    "v = NeedsResolve \<Longrightarrow> as_ip (s_dst_host s) = None \<and> ec_resolved (rs_ctx st) = None"
proof -
  note f1 = eval_in_run_facts[OF assms(1,2)]
  have "asked_ok s st \<and> same_run st0 st \<and> v \<noteq> NeedsConnection \<and>
    (v = NeedsResolve \<longrightarrow> as_ip (s_dst_host s) = None \<and> ec_resolved (rs_ctx st) = None)"
  proof (cases "v1 = NeedsProcess")
    case True
    note a = ask_process_ok[OF f1(1)] and e = assms(3)[unfolded needing_process_def]
    have ok: "asked_ok s (ask_process process st1)" "same_run st1 (ask_process process st1)" using a f1(4)[OF True] by auto
    from eval_in_run_facts[OF ok(1)] e True same_run_trans[OF same_run_trans[OF f1(2) ok(2)]] show ?thesis by auto
  next
    case False
    then show ?thesis using f1 assms(3) by (auto simp: needing_process_def)
  qed
  then show "asked_ok s st" "same_run st0 st" "v \<noteq> NeedsConnection"
    "v = NeedsResolve \<Longrightarrow> as_ip (s_dst_host s) = None \<and> ec_resolved (rs_ctx st) = None" by auto
qed

lemma dst_name_resolve: "as_ip (s_dst_host s) = None \<Longrightarrow> AskResolve (dst_name s) \<in> may_ask s"
  by (cases "s_dst_host s") (auto simp: may_ask_def dst_name_def)

lemma ask_resolve_ok:
  assumes "asked_ok s st" "as_ip (s_dst_host s) = None" "ec_resolved (rs_ctx st) = None"
  shows "distinct (rs_asked st @ [AskResolve (dst_name s)])" "set (rs_asked st @ [AskResolve (dst_name s)]) \<subseteq> may_ask s"
    "asked_ok s (st\<lparr>rs_asked := rs_asked st @ [AskResolve (dst_name s)], rs_ctx := (rs_ctx st)\<lparr>ec_resolved := Some a\<rparr>\<rparr>)"
  using assms dst_name_resolve[OF assms(2)] by (auto simp: asked_ok_def)

lemma needing_resolve_facts:
  assumes "asked_ok s st" "v = NeedsResolve \<Longrightarrow> as_ip (s_dst_host s) = None \<and> ec_resolved (rs_ctx st) = None"
    "v \<noteq> NeedsConnection" "needing_resolve env store resolver s rule (v, st) = (r, st')"
  shows "same_run st st'" "distinct (rs_asked st')" "set (rs_asked st') \<subseteq> may_ask s"
    "r = Inr w \<Longrightarrow> asked_ok s st' \<and> w \<noteq> NeedsConnection \<and> w \<noteq> NeedsResolve"
    "r = Inl e \<Longrightarrow> resolver (dst_name s) = Inl e \<and> as_ip (s_dst_host s) = None"
proof -
  have "same_run st st' \<and> distinct (rs_asked st') \<and> set (rs_asked st') \<subseteq> may_ask s \<and>
    (\<forall>v. r = Inr v \<longrightarrow> asked_ok s st' \<and> v \<noteq> NeedsConnection \<and> v \<noteq> NeedsResolve) \<and>
    (\<forall>e. r = Inl e \<longrightarrow> resolver (dst_name s) = Inl e \<and> as_ip (s_dst_host s) = None)"
  proof (cases "v = NeedsResolve")
    case False
    then show ?thesis using assms by (auto simp: needing_resolve_def same_run_def asked_ok_def)
  next
    case True
    note ask = ask_resolve_ok[of s st]
    show ?thesis
    proof (cases "resolver (dst_name s)")
      case (Inl e)
      then show ?thesis
        using assms True ask(1,2) by (auto simp: needing_resolve_def same_run_def)
    next
      case (Inr a)
      let ?st = "st\<lparr>rs_asked := rs_asked st @ [AskResolve (dst_name s)], rs_ctx := (rs_ctx st)\<lparr>ec_resolved := Some a\<rparr>\<rparr>"
      obtain w st2 where e: "eval_in_run env store s rule ?st = (w, st2)" by fastforce
      have "asked_ok s ?st" using ask(3) assms(1,2) True by blast
      note f = eval_in_run_facts[OF this e]
      have "w \<noteq> NeedsResolve" using f(5,6) by auto
      moreover have "r = Inr w" "st' = st2" using assms(4) True Inr e by (auto simp: needing_resolve_def)
      ultimately show ?thesis using f(1-3) by (auto simp: same_run_def asked_ok_def)
    qed
  qed
  then show "same_run st st'" "distinct (rs_asked st')" "set (rs_asked st') \<subseteq> may_ask s"
    "r = Inr w \<Longrightarrow> asked_ok s st' \<and> w \<noteq> NeedsConnection \<and> w \<noteq> NeedsResolve"
    "r = Inl e \<Longrightarrow> resolver (dst_name s) = Inl e \<and> as_ip (s_dst_host s) = None" by auto
qed

lemma rule_verdict_facts:
  assumes "asked_ok s st" "rule_verdict env store resolver process s rule st = (r, st')"
  shows "same_run st st'" "distinct (rs_asked st')" "set (rs_asked st') \<subseteq> may_ask s"
    "r = Inr w \<Longrightarrow> asked_ok s st' \<and> w \<noteq> NeedsConnection \<and> w \<noteq> NeedsResolve"
    "r = Inl e \<Longrightarrow> resolver (dst_name s) = Inl e \<and> as_ip (s_dst_host s) = None"
proof -
  let ?st0 = "st\<lparr>rs_ctx := (rs_ctx st)\<lparr>ec_sub_hit := None\<rparr>\<rparr>"
  have ok0: "asked_ok s ?st0" using assms(1) by (simp add: asked_ok_def)
  obtain v1 st1 where e1: "eval_in_run env store s rule ?st0 = (v1, st1)" by fastforce
  obtain v2 st2 where e2: "needing_process env store process s rule (v1, st1) = (v2, st2)" by fastforce
  note f2 = needing_process_facts[OF ok0 e1 e2]
  have "needing_resolve env store resolver s rule (v2, st2) = (r, st')" using assms(2) e1 e2 by (simp add: rule_verdict_def)
  note f3 = needing_resolve_facts[OF f2(1) f2(4) f2(3) this]
  show "same_run st st'" using f2(2) f3(1) by (simp add: same_run_def)
  show "distinct (rs_asked st')" "set (rs_asked st') \<subseteq> may_ask s"
    "r = Inr w \<Longrightarrow> asked_ok s st' \<and> w \<noteq> NeedsConnection \<and> w \<noteq> NeedsResolve"
    "r = Inl e \<Longrightarrow> resolver (dst_name s) = Inl e \<and> as_ip (s_dst_host s) = None"
    using f3(2-5) by auto
qed

section \<open>A whole evaluation\<close>

definition table_ok :: "rule_engine \<Rightarrow> bool" where
  "table_ok e \<longleftrightarrow>
     eng_rules e \<noteq> [] \<and> eng_final_pos e = length (eng_rules e) - 1 \<and>
     cr_matcher (last (eng_rules e)) = MFinal"

text \<open>The decision of the rule at a position, and what is counted for it.\<close>

definition match_at :: "rule_engine \<Rightarrow> nat \<Rightarrow> decision \<Rightarrow> u64 list \<Rightarrow> string \<Rightarrow> bool" where
  "match_at e j d hits v \<longleftrightarrow>
     v = ''match'' \<and> d_outcome d = OPolicy (cr_policy (eng_rules e ! j)) \<and>
     d_matched d = Some (cr_index (eng_rules e ! j)) \<and>
     d_reason d = (if j = eng_final_pos e then RFinal else RRule) \<and>
     hits = (hits_of e)[j := hits_of e ! j + 1]"

text \<open>The decision when the resolution a rule needed failed.\<close>

definition failed_at :: "rule_engine \<Rightarrow> nat \<Rightarrow> decision \<Rightarrow> u64 list \<Rightarrow> string \<Rightarrow> bool" where
  "failed_at e j d hits v \<longleftrightarrow>
     v = ''dns-failed'' \<and> d_sub_rule d = None \<and>
     (if rp_dns_failed (cr_params (final_rule e)) then
        d_outcome d = OPolicy (cr_policy (final_rule e)) \<and> d_reason d = RDnsFailedFallback \<and>
        d_matched d = Some (cr_index (final_rule e)) \<and>
        hits = (hits_of e)[eng_final_pos e := hits_of e ! eng_final_pos e + 1]
      else
        d_outcome d = ODnsFailed \<and> d_reason d = RDnsFailed \<and>
        d_matched d = Some (cr_index (eng_rules e ! j)) \<and> hits = hits_of e)"

text \<open>
  The rules from position \<open>k\<close> on decided: those before some \<open>j\<close> were looked at, in order, and did
  not match, and \<open>j\<close> matched or needed a resolution that failed.
\<close>

definition decided_from :: "rule_engine \<Rightarrow> lazy_resolver \<Rightarrow> session_info \<Rightarrow> nat \<Rightarrow> trace_step list \<Rightarrow> decision \<times> run_state \<Rightarrow> bool" where
  "decided_from e resolver s k tr0 r \<longleftrightarrow>
     (\<exists>j ts v. k \<le> j \<and> j < length (eng_rules e) \<and>
        rs_trace (snd r) = tr0 @ ts @ [\<lparr>ts_rule = cr_index (eng_rules e ! j), ts_verdict = v\<rparr>] \<and>
        map ts_rule ts = map (\<lambda>i. cr_index (eng_rules e ! i)) [k..<j] \<and>
        ''match'' \<notin> ts_verdict ` set ts \<and>
        (match_at e j (fst r) (hits_of (rs_engine (snd r))) v \<or>
         failed_at e j (fst r) (hits_of (rs_engine (snd r))) v \<and>
           (\<exists>err. resolver (dst_name s) = Inl err) \<and> as_ip (s_dst_host s) = None))"

lemma final_always_matches:
  "cr_matcher rule = MFinal \<Longrightarrow> fst (rule_verdict env store resolver process s rule st) = Inr Match"
  by (simp add: rule_verdict_def eval_in_run_def eval_rule_def matcher_eval_def leaf_arm_def before_connection_def
      eval_leaf_def needing_process_def needing_resolve_def Let_def)

lemma verdict_name_match: "verdict_name v = ''match'' \<longleftrightarrow> v = Match"
  by (cases v) simp_all

lemma dns_failed_facts:
  assumes "same_table e (rs_engine st)" "hits_of (rs_engine st) = hits_of e" "table_ok e" "j < length (eng_rules e)"
    "dns_failed (eng_rules (rs_engine st) ! j) st = (d, st')"
  shows "failed_at e j d (hits_of (rs_engine st')) ''dns-failed''" "rs_trace st' = rs_trace st"
    "rs_asked st' = rs_asked st" "same_table e (rs_engine st')"
proof -
  have pos: "eng_final_pos e < length (eng_rules e)" using assms(3) by (simp add: table_ok_def)
  have fp: "eng_final_pos (rs_engine st) = eng_final_pos e" using assms(1) by (simp add: same_table_def)
  note n = same_table_nth[OF assms(1)] and h = hits_add_hit[of "eng_final_pos e" "rs_engine st"]
  have "failed_at e j d (hits_of (rs_engine st')) ''dns-failed'' \<and> rs_trace st' = rs_trace st \<and>
      rs_asked st' = rs_asked st \<and> same_table e (rs_engine st')"
    using assms(2,5) n(1)[OF assms(4)] n(1,3,4)[OF pos] h same_table_length[OF assms(1)] pos
    by (auto simp: dns_failed_def failed_at_def final_rule_def Let_def fp
        intro: same_table_trans[OF assms(1)] assms(1) split: if_splits)
  then show "failed_at e j d (hits_of (rs_engine st')) ''dns-failed''" "rs_trace st' = rs_trace st"
    "rs_asked st' = rs_asked st" "same_table e (rs_engine st')" by auto
qed

lemma decided_from_step:
  assumes "decided_from e resolver s (Suc k) (tr0 @ [\<lparr>ts_rule = cr_index (eng_rules e ! k), ts_verdict = v\<rparr>]) r" "v \<noteq> ''match''"
  shows "decided_from e resolver s k tr0 r"
proof -
  from assms(1) obtain j ts w where j: "Suc k \<le> j" "j < length (eng_rules e)"
      "rs_trace (snd r) = (tr0 @ [\<lparr>ts_rule = cr_index (eng_rules e ! k), ts_verdict = v\<rparr>]) @ ts @ [\<lparr>ts_rule = cr_index (eng_rules e ! j), ts_verdict = w\<rparr>]"
      "map ts_rule ts = map (\<lambda>i. cr_index (eng_rules e ! i)) [Suc k..<j]" "''match'' \<notin> ts_verdict ` set ts"
      "match_at e j (fst r) (hits_of (rs_engine (snd r))) w \<or>
         failed_at e j (fst r) (hits_of (rs_engine (snd r))) w \<and>
           (\<exists>err. resolver (dst_name s) = Inl err) \<and> as_ip (s_dst_host s) = None"
    unfolding decided_from_def by blast
  have "map ts_rule (\<lparr>ts_rule = cr_index (eng_rules e ! k), ts_verdict = v\<rparr> # ts) =
      map (\<lambda>i. cr_index (eng_rules e ! i)) [k..<j]"
    using j(1,4) by (simp add: upt_conv_Cons)
  moreover have "''match'' \<notin> ts_verdict ` set (\<lparr>ts_rule = cr_index (eng_rules e ! k), ts_verdict = v\<rparr> # ts)"
    using j(5) assms(2) by simp
  ultimately show ?thesis unfolding decided_from_def using j(1-3,6)
    by (intro exI[of _ j] exI[of _ "\<lparr>ts_rule = cr_index (eng_rules e ! k), ts_verdict = v\<rparr> # ts"] exI[of _ w]) auto
qed

lemma run_rules_decides:
  assumes "table_ok e" "asked_ok s st" "same_table e (rs_engine st)" "hits_of (rs_engine st) = hits_of e"
    "k < length (eng_rules e)" "poss = [k..<length (eng_rules e)]"
    "run_rules env store resolver process s poss st = r"
  shows "decided_from e resolver s k (rs_trace st) r \<and>
     distinct (rs_asked (snd r)) \<and> set (rs_asked (snd r)) \<subseteq> may_ask s \<and> same_table e (rs_engine (snd r))"
  using assms
proof (induction poss arbitrary: st k)
  case Nil
  have "[k..<length (eng_rules e)] \<noteq> []" using Nil.prems(5) by (auto simp: upt_eq_Nil_conv)
  with Nil.prems(6) show ?case by simp
next
  case (Cons pos poss)
  have pos: "pos = k" "poss = [Suc k..<length (eng_rules e)]"
    using Cons.prems(5,6) by (simp_all add: upt_conv_Cons)
  let ?rule = "eng_rules (rs_engine st) ! k"
  note n = same_table_nth[OF Cons.prems(3) Cons.prems(5)]
  obtain w st1 where v: "rule_verdict env store resolver process s ?rule st = (w, st1)" by fastforce
  note f = rule_verdict_facts[OF Cons.prems(2) v]
  have eng: "rs_engine st1 = rs_engine st" "rs_trace st1 = rs_trace st" using f(1) by (simp_all add: same_run_def)
  show ?case
  proof (cases w)
    case (Inl err)
    let ?st2 = "push_trace (cr_index ?rule) ''dns-failed'' (collect_notes k (st1\<lparr>rs_notes := rs_notes st1 @
        [''DNS lookup for '' @ dst_name s @ '' failed: '' @ resolve_error_text err]\<rparr>))"
    have r: "dns_failed ?rule ?st2 = r" using Cons.prems(7) v Inl pos(1) by (simp add: Let_def)
    have tab: "same_table e (rs_engine ?st2)" "hits_of (rs_engine ?st2) = hits_of e"
      using Cons.prems(3,4) eng by (simp_all add: collect_notes_table)
    have rule: "cr_index ?rule = cr_index (eng_rules e ! k)" "final_rule (rs_engine ?st2) = final_rule (rs_engine ?st2)"
      using n(1) by simp_all
    obtain d st3 where d: "r = (d, st3)" by (cases r)
    have "dns_failed (eng_rules (rs_engine ?st2) ! k) ?st2 = (d', st') \<longleftrightarrow> dns_failed ?rule ?st2 = (d', st')" for d' st'
      using same_table_nth(1)[OF tab(1) Cons.prems(5)] n(1) by (simp add: dns_failed_def Let_def)
    note df = dns_failed_facts[OF tab Cons.prems(1,5) this[THEN iffD2, OF r[unfolded d]]]
    have "decided_from e resolver s k (rs_trace st) r"
      unfolding decided_from_def
      using df(1,2) f(5)[OF Inl] eng(2) n(1) Cons.prems(5) d
      by (intro exI[of _ k] exI[of _ "[]"] exI[of _ "''dns-failed''"]) auto
    then show ?thesis using df(3,4) f(2,3) d by simp
  next
    case (Inr verdict)
    let ?st2 = "push_trace (cr_index ?rule) (verdict_name verdict) (collect_notes k st1)"
    have ok: "asked_ok s ?st2" using f(4)[OF Inr] by simp
    have tab: "same_table e (rs_engine ?st2)" "hits_of (rs_engine ?st2) = hits_of e"
      using Cons.prems(3,4) eng by (simp_all add: collect_notes_table)
    have tr: "rs_trace ?st2 = rs_trace st @ [\<lparr>ts_rule = cr_index (eng_rules e ! k), ts_verdict = verdict_name verdict\<rparr>]"
      using eng(2) n(1) by simp
    show ?thesis
    proof (cases "verdict = Match")
      case True
      let ?st3 = "?st2\<lparr>rs_engine := add_hit k (rs_engine ?st2)\<rparr>"
      have st3: "snd r = ?st3" using Cons.prems(7) v Inr pos(1) True by (auto simp: Let_def)
      have "match_at e k (fst r) (hits_of (rs_engine ?st3)) ''match''"
        using Cons.prems(7) v Inr pos(1) True n tab hits_add_hit[of k "rs_engine ?st2"] same_table_length[OF tab(1)] Cons.prems(5)
        by (auto simp: match_at_def Let_def same_table_def add_hit_def)
      then have "decided_from e resolver s k (rs_trace st) r"
        unfolding decided_from_def
        using tr True Cons.prems(5) st3
        by (intro exI[of _ k] exI[of _ "[]"] exI[of _ "''match''"]) auto
      then show ?thesis using ok st3 same_table_trans[OF tab(1) add_hit_table] by (simp add: asked_ok_def)
    next
      case False
      have r: "run_rules env store resolver process s poss ?st2 = r" using Cons.prems(7) v Inr pos(1) False by (simp add: Let_def)
      have "Suc k < length (eng_rules e)"
      proof (rule ccontr)
        assume "\<not> Suc k < length (eng_rules e)"
        then have "k = length (eng_rules e) - 1" using Cons.prems(5) by simp
        then have "eng_rules e ! k = last (eng_rules e)" using Cons.prems(1) by (simp add: table_ok_def last_conv_nth)
        then have "cr_matcher ?rule = MFinal" using Cons.prems(1) n(2) by (simp add: table_ok_def)
        from final_always_matches[OF this, of env store resolver process s st] v Inr False show False by simp
      qed
      from Cons.IH[OF Cons.prems(1) ok tab this pos(2) r] show ?thesis
        using decided_from_step[of e resolver s k "rs_trace st" "verdict_name verdict" r] tr False
        by (simp add: verdict_name_match)
    qed
  qed
qed

section \<open>The pre-matching layers\<close>

lemma pre_matches_keeps:
  assumes "pre_matches env store rule s ctx = (b, ctx')"
  shows "keeps ctx ctx'"
  using well_behavedD(1)[OF nested.eval_behaved(1), of env env store MAX_NESTING s "cr_matcher rule" ctx True
      "rp_extended_matching (cr_params rule)"] assms
  by (auto simp: pre_matches_def matcher_eval_def split: prod.splits)

lemma pre_matches_same_table:
  "same_table e e' \<Longrightarrow> pos < length (eng_rules e) \<Longrightarrow>
   pre_matches env store (eng_rules e' ! pos) s ctx = pre_matches env store (eng_rules e ! pos) s ctx"
  using same_table_nth[of e e' pos] by (simp add: pre_matches_def)

lemma collect_notes_ctx: "rs_ctx (collect_notes pos st) = (rs_ctx st)\<lparr>ec_notes := []\<rparr>"
  by (auto simp: collect_notes_def Let_def)

text \<open>The pre-matching pass of an evaluation and the pre-match of a connection judge alike.\<close>

definition pre_decision :: "rule_engine \<Rightarrow> nat \<times> sub_rule_hit option \<Rightarrow> decision \<Rightarrow> bool" where
  "pre_decision e h d \<longleftrightarrow>
     d_outcome d = OPolicy (cr_policy (eng_rules e ! fst h)) \<and> d_reason d = RPreMatching \<and>
     d_matched d = Some (cr_index (eng_rules e ! fst h)) \<and> d_sub_rule d = snd h \<and> d_resolved d = None"

lemma pre_pass_first:
  assumes "same_table e (rs_engine st)" "\<forall>pos\<in>set poss. pos < length (eng_rules e)"
    "hits_of (rs_engine st) = hits_of e" "pre_pass env store s poss st = (r, st')"
  shows "same_table e (rs_engine st') \<and> rs_asked st' = rs_asked st \<and>
    (case first_pre_loop env store e s poss (rs_ctx st) of
       None \<Rightarrow> r = None \<and> rs_trace st' = rs_trace st \<and> hits_of (rs_engine st') = hits_of e \<and>
         (asked_ok s st \<longrightarrow> asked_ok s st')
     | Some h \<Rightarrow> (\<exists>d. r = Some d \<and> pre_decision e h d) \<and>
         hits_of (rs_engine st') = (hits_of e)[fst h := hits_of e ! fst h + 1])"
  using assms
proof (induction poss arbitrary: st)
  case Nil
  then show ?case by simp
next
  case (Cons pos poss)
  have pos: "pos < length (eng_rules e)" using Cons.prems(2) by simp
  note n = same_table_nth[OF Cons.prems(1) pos]
  obtain b ctx where pm: "pre_matches env store (eng_rules e ! pos) s ((rs_ctx st)\<lparr>ec_sub_hit := None\<rparr>) = (b, ctx)" by fastforce
  note pm' = pm[folded pre_matches_same_table[OF Cons.prems(1) pos]]
  let ?st1 = "collect_notes pos (st\<lparr>rs_ctx := ctx\<rparr>)"
  have tab: "same_table e (rs_engine ?st1)" "hits_of (rs_engine ?st1) = hits_of e"
    using Cons.prems(1,3) by (simp_all add: collect_notes_table)
  show ?case
  proof (cases b)
    case True
    have "hits_of (add_hit pos (rs_engine ?st1)) = (hits_of e)[pos := hits_of e ! pos + 1]"
      using hits_add_hit[of pos "rs_engine ?st1"] same_table_length[OF tab(1)] pos tab(2) by simp
    then show ?thesis
      using Cons.prems(4) pm pm' True n same_table_trans[OF tab(1) add_hit_table]
      by (auto simp: pre_decision_def Let_def collect_notes_ctx)
  next
    case False
    have step: "pre_pass env store s poss ?st1 = (r, st')" using Cons.prems(4) pm' False by (simp add: Let_def)
    have ok: "asked_ok s st \<longrightarrow> asked_ok s ?st1"
      using asked_ok_ctx[of s st ctx] pre_matches_keeps[OF pm] by simp
    have "first_pre_loop env store e s (pos # poss) (rs_ctx st) = first_pre_loop env store e s poss (rs_ctx ?st1)"
      using pm False by (simp add: collect_notes_ctx)
    then show ?thesis
      using Cons.IH[OF tab(1) _ tab(2) step] Cons.prems(2) ok by (auto split: option.splits)
  qed
qed

lemma first_pre_loop_hit:
  "first_pre_loop env store e s poss ctx = Some (pos, sub) \<Longrightarrow>
   pos \<in> set poss \<and> is_reject_policy (cr_policy (eng_rules e ! pos))"
  by (induction poss arbitrary: ctx)
     (auto simp: pre_matches_def is_reject_policy_def split: prod.splits if_splits policy_ref.splits)

lemma ahead_notes: "ahead a b \<Longrightarrow> ahead (a\<lparr>ec_notes := n\<rparr>) (b\<lparr>ec_notes := n'\<rparr>)"
proof -
  have "coherent (c\<lparr>ec_notes := m\<rparr>) = coherent c" for c m by (simp add: coherent_def)
  then show "ahead a b \<Longrightarrow> ahead (a\<lparr>ec_notes := n\<rparr>) (b\<lparr>ec_notes := n'\<rparr>)" by (simp add: ahead_def)
qed

lemma pre_matches_foretold:
  assumes "same_query s s'" "ahead ctx ctx'" "pre_matches env store rule s ctx = (True, c)"
  shows "fst (pre_matches env store rule s' ctx') = True"
proof -
  let ?ev = "\<lambda>s ctx. matcher_eval env store s (cr_matcher rule) ctx True (rp_extended_matching (cr_params rule))"
  have "foretells (?ev s) (?ev s')"
    unfolding matcher_eval_def by (rule set_prophecy.eval_foretells(1)[OF set_calls_prophecy[OF assms(1)]])
  moreover have "fst (?ev s ctx) = Match" using assms(3) by (simp add: pre_matches_def split: prod.splits)
  ultimately have "fst (?ev s' ctx') = Match" using assms(2) by (simp add: foretells_def)
  then show ?thesis using assms(3) by (simp add: pre_matches_def case_prod_beta)
qed

lemma first_pre_loop_foretold:
  assumes "same_query s s'" "ahead ctx ctx'" "first_pre_loop env store e s poss ctx \<noteq> None"
  shows "first_pre_loop env store e s' poss ctx' \<noteq> None"
  using assms(2,3)
proof (induction poss arbitrary: ctx ctx')
  case (Cons pos poss)
  let ?c = "ctx\<lparr>ec_sub_hit := None\<rparr>" and ?c' = "ctx'\<lparr>ec_sub_hit := None\<rparr>"
  obtain b c where pm: "pre_matches env store (eng_rules e ! pos) s ?c = (b, c)" by fastforce
  obtain b' c' where pm': "pre_matches env store (eng_rules e ! pos) s' ?c' = (b', c')" by fastforce
  have a: "ahead ?c ?c'" using Cons.prems(1) by simp
  have "ahead (c\<lparr>ec_notes := []\<rparr>) (c'\<lparr>ec_notes := []\<rparr>)"
    using ahead_notes[OF ahead_keeps[OF a pre_matches_keeps[OF pm] pre_matches_keeps[OF pm']]] .
  from Cons.IH[OF this] show ?case
    using Cons.prems(2) pm pm' pre_matches_foretold[OF assms(1) a, of env store "eng_rules e ! pos" c] by (cases b) auto
qed simp

section \<open>Building the table\<close>

lemma effective_final_Some:
  "effective_final cfg = Some l \<Longrightarrow> l < length (cfg_rules cfg) \<and> is_final (cfg_rules cfg ! l) \<and>
     (\<forall>j<length (cfg_rules cfg). l < j \<longrightarrow> \<not> is_final (cfg_rules cfg ! j))"
proof -
  assume "effective_final cfg = Some l"
  then obtain i where i: "position is_final (rev (cfg_rules cfg)) = Some i" "l = length (cfg_rules cfg) - 1 - i"
    by (auto simp: effective_final_def)
  then have *: "i < length (cfg_rules cfg)" "is_final (rev (cfg_rules cfg) ! i)" "\<And>j. j < i \<Longrightarrow> \<not> is_final (rev (cfg_rules cfg) ! j)"
    by (auto simp: position_Some)
  have "\<not> is_final (cfg_rules cfg ! j)" if "j < length (cfg_rules cfg)" "l < j" for j
    using *(3)[of "length (cfg_rules cfg) - 1 - j"] that i(2) *(1) by (auto simp: rev_nth)
  then show ?thesis using * i(2) by (auto simp: rev_nth)
qed

lemma compile_final: "compile win sets k = MFinal \<longleftrightarrow> k = KFinal"
  by (cases k) (auto split: list.splits)

lemma final_exists: "first_final cfg = None \<longleftrightarrow> effective_final cfg = None"
  by (simp add: first_final_def effective_final_def position_None)

lemma pre_extract_set: "set (pre_extract rules) = {p. p < length rules \<and> rp_pre_matching (cr_params (rules ! p))}"
  by (auto simp: pre_extract_def in_set_enumerate_eq image_iff) 

lemma sorted_pre_extract: "sorted_wrt (<) (pre_extract rules)"
proof -
  have "sorted_wrt (\<lambda>a b. fst a < fst b) (enumerate n rules)" for n
    by (simp add: sorted_wrt_iff_nth_less nth_enumerate_eq)
  then show ?thesis unfolding pre_extract_def
    by (simp add: sorted_wrt_map sorted_wrt_filter)
qed

section \<open>Properties of the engine\<close>

text \<open>The invariant of an engine: FINAL ends its table, the pre-matching positions are in it.\<close>

definition engine_ok :: "rule_engine \<Rightarrow> bool" where
  "engine_ok e \<longleftrightarrow> table_ok e \<and> eng_pre e = pre_extract (eng_rules e)"

lemma engine_ok_pre: "engine_ok e \<Longrightarrow> \<forall>pos\<in>set (eng_pre e). pos < length (eng_rules e)"
  by (simp add: engine_ok_def pre_extract_set)

lemma run_start_ok: "asked_ok s (run_start e)" "rs_engine (run_start e) = e" "rs_trace (run_start e) = []"
  "rs_asked (run_start e) = []"
  "first_pre_loop env store e s (eng_pre e) (rs_ctx (run_start e)) = first_pre_hit env store e s Syn"
  by (simp_all add: asked_ok_def run_start_def with_network_def eval_ctx_new_def first_pre_hit_def)

lemma run_cases:
  assumes "engine_ok e" and "run env store e s ModeRule resolver process = r"
  shows "case first_pre_hit env store e s Syn of
      Some h \<Rightarrow> pre_decision e h (fst r) \<and> rs_asked (snd r) = [] \<and>
        hits_of (rs_engine (snd r)) = (hits_of e)[fst h := hits_of e ! fst h + 1]
    | None \<Rightarrow> decided_from e resolver s 0 [] r"
    and "distinct (rs_asked (snd r)) \<and> set (rs_asked (snd r)) \<subseteq> may_ask s \<and> same_table e (rs_engine (snd r))"
proof -
  obtain p st where p: "pre_pass env store s (eng_pre e) (run_start e) = (p, st)" by fastforce
  note f = pre_pass_first[OF _ engine_ok_pre[OF assms(1)] _ p, unfolded run_start_ok, simplified]
  have len: "0 < length (eng_rules e)" using assms(1) by (simp add: engine_ok_def table_ok_def)
  have both: "(case first_pre_hit env store e s Syn of
      Some h \<Rightarrow> pre_decision e h (fst r) \<and> rs_asked (snd r) = [] \<and>
        hits_of (rs_engine (snd r)) = (hits_of e)[fst h := hits_of e ! fst h + 1]
    | None \<Rightarrow> decided_from e resolver s 0 [] r) \<and>
    distinct (rs_asked (snd r)) \<and> set (rs_asked (snd r)) \<subseteq> may_ask s \<and> same_table e (rs_engine (snd r))"
  proof (cases "first_pre_hit env store e s Syn")
    case None
    with f have st: "p = None" "asked_ok s st" "same_table e (rs_engine st)" "hits_of (rs_engine st) = hits_of e" "rs_trace st = []"
      using run_start_ok(1)[of s e] by auto
    have "run_rules env store resolver process s [0..<length (eng_rules e)] st = r"
      using assms(2) p st(1) by (simp add: run_def)
    from run_rules_decides[OF _ st(2-4) len refl this] assms(1) None st(5) show ?thesis by (simp add: engine_ok_def)
  next
    case (Some h)
    with f obtain d where "p = Some d" "pre_decision e h d" by auto
    then show ?thesis using assms(2) p f Some by (auto simp: run_def)
  qed
  then show "case first_pre_hit env store e s Syn of
      Some h \<Rightarrow> pre_decision e h (fst r) \<and> rs_asked (snd r) = [] \<and>
        hits_of (rs_engine (snd r)) = (hits_of e)[fst h := hits_of e ! fst h + 1]
    | None \<Rightarrow> decided_from e resolver s 0 [] r" ..
  from both show "distinct (rs_asked (snd r)) \<and> set (rs_asked (snd r)) \<subseteq> may_ask s \<and> same_table e (rs_engine (snd r))" ..
qed

lemma dns_hit_foretold:
  assumes "same_query s s'" and "fst (pre_match env store e s Dns) \<noteq> None"
  shows "first_pre_hit env store e s' Syn \<noteq> None"
proof -
  let ?c = "with_network (eng_geo e) (eng_network e) (eng_wifi_always_match e)"
  have "ahead (?c\<lparr>ec_before_connection := True\<rparr>) (?c\<lparr>ec_before_connection := False\<rparr>)"
    by (simp add: ahead_def coherent_def with_network_def eval_ctx_new_def)
  moreover have "first_pre_loop env store e s (eng_pre e) (?c\<lparr>ec_before_connection := True\<rparr>) \<noteq> None"
    using assms(2) by (auto simp: pre_match_def first_pre_hit_def split: option.splits)
  ultimately show ?thesis
    using first_pre_loop_foretold[OF assms(1)] by (simp add: first_pre_hit_def)
qed

text \<open>
  C1. What is refused is refused: when the pre-match of a DNS query refuses it, the pre-match of
  a connection that follows refuses it too, \<open>pre_refuses\<close> says so without counting, and so does its
  evaluation in rule mode, which decides it by a pre-matching rule. The connection is one of
  \<^const>\<open>same_query\<close>: to the same destination host, from the same client address, with the TLS server
  name and the Host that the query had (neither is read when a connection is opened) and the process
  it carried, if it carried one. Its ports, its transport, its protocol, its URL and user agent
  and the answers of the resolver and the process finder may be any.
\<close>

theorem dns_refusal_holds:
  assumes "engine_ok e" and "same_query s s'" and "fst (pre_match env store e s Dns) \<noteq> None"
  shows "pre_refuses env store e s' \<and> fst (pre_match env store e s' Syn) \<noteq> None \<and>
    d_reason (fst (run env store e s' ModeRule resolver process)) = RPreMatching"
  using dns_hit_foretold[OF assms(2,3)]
    run_cases(1)[OF assms(1) refl, where env = env and store = store and s = s' and resolver = resolver and process = process]
  by (auto simp: pre_refuses_def pre_match_def pre_decision_def split: option.splits)

text \<open>
  C6. An evaluation asks for the process at most once and resolves at most once, only the name
  the session is for, and never for an address or for a process the session already carries.
\<close>

theorem run_asks_once:
  assumes "engine_ok e"
  shows "distinct (rs_asked (snd (run env store e s mode resolver process))) \<and>
    set (rs_asked (snd (run env store e s mode resolver process))) \<subseteq> may_ask s"
  using run_cases(2)[OF assms refl, where env = env and store = store and s = s and resolver = resolver and process = process]
  by (cases mode) (auto simp: run_def run_start_def split: prod.splits option.splits)

text \<open>
  The invariant of an engine, that FINAL ends its table and that the pre-matching positions
  are those of its flagged rules, is kept by every evaluation and every pre-match; only
  counters change.
\<close>

theorem engine_invariant:
  assumes "engine_ok e"
  shows "engine_ok (snd (pre_match env store e s layer)) \<and> same_table e (snd (pre_match env store e s layer)) \<and>
    same_table e (rs_engine (snd (run env store e s mode resolver process)))"
proof -
  have "table_ok e'" if "same_table e e'" for e'
  proof -
    have "eng_rules e \<noteq> []" using assms by (simp add: engine_ok_def table_ok_def)
    moreover have "cr_matcher (last (eng_rules e')) = cr_matcher (last (eng_rules e))"
      using calculation same_table_nth(2)[OF that, of "length (eng_rules e) - 1"] same_table_length[OF that]
      by (metis diff_less last_conv_nth length_0_conv length_greater_0_conv zero_less_one)
    moreover have "eng_rules e' \<noteq> []" "eng_final_pos e' = eng_final_pos e"
      using calculation(1) that same_table_length[OF that] by (auto simp: same_table_def)
    ultimately show ?thesis using assms same_table_length[OF that] by (simp add: engine_ok_def table_ok_def)
  qed
  moreover have "pre_extract (eng_rules (add_hit pos e)) = pre_extract (eng_rules e)" for pos
  proof -
    have "map (\<lambda>r. rp_pre_matching (cr_params r)) (eng_rules (add_hit pos e)) = map (\<lambda>r. rp_pre_matching (cr_params r)) (eng_rules e)"
      by (simp add: add_hit_def map_update_same)
    moreover have "pre_extract rs = map fst (filter snd (enumerate 0 (map (\<lambda>r. rp_pre_matching (cr_params r)) rs)))" for rs
      by (simp add: pre_extract_def enumerate_map_upt zip_map2 filter_map comp_def split_def enumerate_eq_zip)
    ultimately show ?thesis by simp
  qed
  ultimately have "engine_ok (add_hit pos e)" for pos
    using assms by (simp add: engine_ok_def) (simp add: add_hit_def)
  moreover have "same_table e (rs_engine (snd (run env store e s mode resolver process)))"
    using run_cases(2)[OF assms refl, where env = env and store = store and s = s and resolver = resolver and process = process] by (cases mode) (auto simp: run_def run_start_def)
  ultimately show ?thesis using assms by (auto simp: pre_match_def split: option.splits)
qed

text \<open>
  C7. Building an engine fails exactly when the profile has no FINAL. Otherwise the table is the
  rules written before the first FINAL (a FINAL with none before it), in order, each compiled, and
  then the last FINAL (one with none behind it), which is the one that gives the policy and the
  parameters; nothing is counted yet, and the engine has its invariant.
\<close>

theorem build_correct:
  "case build win cfg sets geo of
     Inl _ \<Rightarrow> list_all (\<lambda>r. r_kind r \<noteq> KFinal) (cfg_rules cfg)
   | Inr e \<Rightarrow> \<exists>first lst.
       first < length (cfg_rules cfg) \<and> r_kind (cfg_rules cfg ! first) = KFinal \<and>
       list_all (\<lambda>r. r_kind r \<noteq> KFinal) (take first (cfg_rules cfg)) \<and>
       lst < length (cfg_rules cfg) \<and> r_kind (cfg_rules cfg ! lst) = KFinal \<and>
       list_all (\<lambda>r. r_kind r \<noteq> KFinal) (drop (Suc lst) (cfg_rules cfg)) \<and>
       map cr_index (eng_rules e) = [0..<first] @ [lst] \<and>
       map cr_matcher (eng_rules e) = map (compile win sets \<circ> r_kind) (take first (cfg_rules cfg)) @ [MFinal] \<and>
       map cr_policy (eng_rules e) = map r_policy (take first (cfg_rules cfg) @ [cfg_rules cfg ! lst]) \<and>
       map cr_params (eng_rules e) = map r_params (take first (cfg_rules cfg) @ [cfg_rules cfg ! lst]) \<and>
       MFinal \<notin> set (map cr_matcher (butlast (eng_rules e))) \<and>
       hits_of e = replicate (Suc first) 0 \<and> engine_ok e"
proof (cases "first_final cfg")
  case None
  then have "list_all (\<lambda>r. r_kind r \<noteq> KFinal) (cfg_rules cfg)"
    by (simp add: first_final_def position_None is_final_def list_all_iff)
  then show ?thesis using None by (simp add: build_def)
next
  case (Some first)
  then obtain lst where l: "effective_final cfg = Some lst" using final_exists[of cfg] by fastforce
  have first: "first < length (cfg_rules cfg)" "\<And>j. j < first \<Longrightarrow> r_kind (cfg_rules cfg ! j) \<noteq> KFinal"
    "r_kind (cfg_rules cfg ! first) = KFinal"
    using Some by (auto simp: first_final_def position_Some is_final_def)
  have fin: "r_kind (cfg_rules cfg ! lst) = KFinal" "lst < length (cfg_rules cfg)"
    "list_all (\<lambda>r. r_kind r \<noteq> KFinal) (drop (Suc lst) (cfg_rules cfg))"
    using effective_final_Some[OF l] by (auto simp: is_final_def list_all_length)
  let ?rs = "map (compile_rule win sets) (enumerate 0 (take first (cfg_rules cfg)) @ [(lst, cfg_rules cfg ! lst)])"
  obtain e where e: "build win cfg sets geo = Inr e" and rs: "eng_rules e = ?rs" "eng_final_pos e = length ?rs - 1" "eng_pre e = pre_extract ?rs"
    using Some l by (simp add: build_def Let_def)
  have snds: "map (f \<circ> snd) (enumerate n xs) = map f xs" for f :: "rule \<Rightarrow> 'b" and n xs
    by (metis map_map map_snd_enumerate)
  have kinds: "r \<in> set (take first (cfg_rules cfg)) \<Longrightarrow> r_kind r \<noteq> KFinal" for r
    using first by (auto simp: in_set_conv_nth)
  then have none: "list_all (\<lambda>r. r_kind r \<noteq> KFinal) (take first (cfg_rules cfg))" by (simp add: list_all_iff)
  have idx: "map cr_index (eng_rules e) = [0..<first] @ [lst]"
    using first(1) by (simp add: rs compile_rule_def comp_def map_fst_enumerate[unfolded comp_def])
  have mat: "map cr_matcher (eng_rules e) = map (compile win sets \<circ> r_kind) (take first (cfg_rules cfg)) @ [MFinal]"
    using snds[of "compile win sets \<circ> r_kind" 0 "take first (cfg_rules cfg)"] fin(1)
    by (simp add: rs compile_rule_def comp_def)
  have pol: "map cr_policy (eng_rules e) = map r_policy (take first (cfg_rules cfg) @ [cfg_rules cfg ! lst])"
    "map cr_params (eng_rules e) = map r_params (take first (cfg_rules cfg) @ [cfg_rules cfg ! lst])"
    using snds[of r_policy 0 "take first (cfg_rules cfg)"] snds[of r_params 0 "take first (cfg_rules cfg)"]
    by (simp_all add: rs compile_rule_def comp_def)
  have hits: "hits_of e = replicate (Suc first) 0"
    using first(1) by (simp add: hits_of_def rs compile_rule_def comp_def map_replicate_const replicate_append_same)
  have "MFinal \<notin> set (map cr_matcher (butlast (eng_rules e)))"
    using kinds by (auto simp: map_butlast mat image_iff compile_final) (metis compile_final)
  moreover have "engine_ok e"
    using rs fin(1) by (simp add: engine_ok_def table_ok_def compile_rule_def)
  ultimately show ?thesis
    unfolding e sum.case using first(1,3) none fin idx mat pol hits by (intro exI[of _ first] exI[of _ lst] conjI)
qed

text \<open>
  A pre-match only ever refuses: the rule it reports was flagged \<open>pre-matching\<close> and its
  policy is of the REJECT family, at either layer and whatever the engine holds.
\<close>

theorem pre_match_only_rejects:
  assumes "engine_ok e" and "fst (pre_match env store e s layer) = Some h"
  shows "is_reject_policy (pm_policy h) \<and>
    (\<exists>rule\<in>set (eng_rules e). rp_pre_matching (cr_params rule) \<and> cr_index rule = pm_rule h \<and> cr_policy rule = pm_policy h)"
proof -
  obtain pos sub where hit: "first_pre_loop env store e s (eng_pre e)
       ((with_network (eng_geo e) (eng_network e) (eng_wifi_always_match e))\<lparr>ec_before_connection := (layer = Dns)\<rparr>) = Some (pos, sub)"
     and h: "pm_rule h = cr_index (eng_rules e ! pos)" "pm_policy h = cr_policy (eng_rules e ! pos)"
    using assms(2) by (auto simp: pre_match_def first_pre_hit_def split: option.splits)
  from first_pre_loop_hit[OF hit] have p: "pos \<in> set (eng_pre e)" "is_reject_policy (cr_policy (eng_rules e ! pos))" by auto
  then have "pos < length (eng_rules e)" "rp_pre_matching (cr_params (eng_rules e ! pos))"
    using assms(1) by (auto simp: engine_ok_def pre_extract_set)
  then show ?thesis using p h by (intro conjI bexI[of _ "eng_rules e ! pos"]) simp_all
qed

section \<open>An engine at work\<close>

definition mk_rule :: "rule_kind \<Rightarrow> policy_ref \<Rightarrow> bool \<Rightarrow> rule" where
  "mk_rule k p pre = \<lparr>r_kind = k, r_policy = p, r_params = rule_params_default\<lparr>rp_pre_matching := pre\<rparr>, r_raw = ''''\<rparr>"

definition curl_glob :: glob where
  "curl_glob = \<lparr>g_source = ''curl'', g_toks = [Lit (CHR ''c''), Lit (CHR ''u''), Lit (CHR ''r''), Lit (CHR ''l'')], g_ci = False\<rparr>"

text \<open>\<open>OR,((AND,((IP-CIDR,1.0.0.0/8,no-resolve),(PROCESS-NAME,curl))),(IP-CIDR,2.0.0.0/8)),Proxy\<close>\<close>

definition late_kind :: rule_kind where
  "late_kind =
     KOr [SubRule (KAnd [SubRule (KIpCidr (0x01000000, 8)) True False [] '''',
                         SubRule (KProcessName (PName curl_glob)) False False [] '''']) False False [] '''',
          SubRule (KIpCidr (0x02000000, 8)) False False [] '''']"

definition demo_config :: config where
  "demo_config =
     \<lparr>cfg_rules = [mk_rule (KDomain ''ads.com'') (PBuiltin Reject) True, mk_rule late_kind (PNamed ''Proxy'') False,
                   mk_rule KFinal (PBuiltin Direct) False],
      cfg_subnet_exp_wifi_always_match = False\<rparr>"

definition demo_engine :: rule_engine where
  "demo_engine = (case build False demo_config (\<lambda>_ _. 0) no_geo of Inr e \<Rightarrow> e | Inl _ \<Rightarrow> undefined)"

lemma demo_rules:
  "eng_rules demo_engine =
     [\<lparr>cr_index = 0, cr_matcher = MDomain ''ads.com'', cr_policy = PBuiltin Reject,
       cr_params = rule_params_default\<lparr>rp_pre_matching := True\<rparr>, cr_raw = '''', cr_hits = 0, cr_warned = False\<rparr>,
      \<lparr>cr_index = 1, cr_matcher = compile False (\<lambda>_ _. 0) late_kind, cr_policy = PNamed ''Proxy'',
       cr_params = rule_params_default\<lparr>rp_pre_matching := False\<rparr>, cr_raw = '''', cr_hits = 0, cr_warned = False\<rparr>,
      \<lparr>cr_index = 2, cr_matcher = MFinal, cr_policy = PBuiltin Direct,
       cr_params = rule_params_default\<lparr>rp_pre_matching := False\<rparr>, cr_raw = '''', cr_hits = 0, cr_warned = False\<rparr>]"
  "eng_final_pos demo_engine = 2" "eng_geo demo_engine = no_geo" "eng_network demo_engine = network_facts_default"
  "eng_wifi_always_match demo_engine = False" "eng_pre demo_engine = [0]"
  by (simp_all add: demo_engine_def build_def demo_config_def first_final_def effective_final_def is_final_def mk_rule_def
      late_kind_def[THEN arg_cong[of _ _ "\<lambda>k. k = KFinal"]] Let_def compile_rule_def pre_extract_def rule_params_default_def
      parse_eval)

lemma demo_engine_ok: "engine_ok demo_engine"
  by (simp add: engine_ok_def table_ok_def demo_rules pre_extract_def rule_params_default_def)

definition ads_query :: session_info where
  "ads_query = session_udp (HDomain ''ads.com'') 53"

definition ads_connection :: session_info where
  "ads_connection = session_tcp (HDomain ''ads.com'') 443"

lemma demo_refused: "fst (pre_match env_ref looping_store demo_engine ads_query Dns) \<noteq> None"
  by (simp add: pre_match_def first_pre_hit_def demo_rules pre_matches_def matcher_eval_def leaf_arm_def before_connection_def
      eval_leaf_def Let_def domain_targets_def ads_query_def session_udp_def session_tcp_def option_list_def verdict_of_def)

theorem dns_refusal_holds_witness:
  "engine_ok demo_engine \<and> same_query ads_query ads_connection \<and>
   fst (pre_match env_ref looping_store demo_engine ads_query Dns) \<noteq> None \<and>
   pre_refuses env_ref looping_store demo_engine ads_connection"
proof -
  have "same_query ads_query ads_connection"
    by (simp add: same_query_def ads_query_def ads_connection_def session_udp_def session_tcp_def)
  from dns_refusal_holds[OF demo_engine_ok this demo_refused] this demo_refused demo_engine_ok show ?thesis by blast
qed

theorem run_asks_once_witness:
  "engine_ok demo_engine \<and>
   distinct (rs_asked (snd (run env_ref looping_store demo_engine ads_connection ModeRule no_resolve_resolver no_process)))"
  using run_asks_once[OF demo_engine_ok] demo_engine_ok by blast

theorem engine_invariant_witness:
  "engine_ok demo_engine \<and> engine_ok (snd (pre_match env_ref looping_store demo_engine ads_query Dns))"
  using engine_invariant[OF demo_engine_ok] demo_engine_ok by blast

theorem pre_match_only_rejects_witness:
  "engine_ok demo_engine \<and>
   (\<exists>h. fst (pre_match env_ref looping_store demo_engine ads_query Dns) = Some h \<and> is_reject_policy (pm_policy h))"
  using pre_match_only_rejects[OF demo_engine_ok] demo_refused demo_engine_ok by blast

text \<open>A session of a process that only a rule resolved first asks about.\<close>

definition curl_session :: session_info where
  "curl_session = session_tcp (HDomain ''b.com'') 443"

definition curl_process :: process_info where
  "curl_process = \<lparr>pi_pid = None, pi_name = ''curl'', pi_path = None\<rparr>"

definition one_address :: lazy_resolver where
  "one_address = fixed_resolver \<lparr>ra_v4 = [0x01020304], ra_v6 = []\<rparr>"

lemma late_contains:
  "ref_contains (0x01000000 :: 32 word, 8) 0x01020304" "\<not> ref_contains (0x02000000 :: 32 word, 8) 0x01020304"
  by code_simp+

lemmas late_eval = late_kind_def compile.simps compile_subrule.simps compile_process_pattern_def matcher_eval_def eval.simps
  eval_sub.simps list.map or_loop.simps and_loop.simps in_branches_def leaf_arm_def before_connection_def
  eval_leaf_def by_ip_def target_ip_def verdict_of_def still_needs_def Let_def ok_or_def env_ref_def ext_ref_def
  late_contains process_matches_for_def

lemma late_unknown:
  "s_process s = None \<Longrightarrow> s_dst_host s = HDomain d \<Longrightarrow> \<not> ec_before_connection ctx \<Longrightarrow> ec_resolved ctx = None \<Longrightarrow>
   ec_sub_hit ctx = None \<Longrightarrow>
   matcher_eval env_ref store s (compile False sets late_kind) ctx False False = (NeedsResolve, ctx)"
  by (simp add: late_eval)

lemma late_resolved:
  "s_process s = None \<Longrightarrow> s_dst_host s = HDomain d \<Longrightarrow> \<not> ec_before_connection ctx \<Longrightarrow> ec_process ctx = NotAsked \<Longrightarrow>
   ec_resolved ctx = Some \<lparr>ra_v4 = [0x01020304], ra_v6 = []\<rparr> \<Longrightarrow> ec_sub_hit ctx = None \<Longrightarrow>
   matcher_eval env_ref store s (compile False sets late_kind) ctx False False = (NeedsProcess, ctx)"
  by (simp add: late_eval)

lemma curl_matches: "glob_matches curl_glob ''curl''"
  by (simp add: glob_matches_def curl_glob_def glob_loop.simps fold_case_def Let_def)

lemma late_told:
  "s_process s = Some curl_process \<Longrightarrow> s_dst_host s = HDomain d \<Longrightarrow> \<not> ec_before_connection ctx \<Longrightarrow>
   ec_resolved ctx = Some \<lparr>ra_v4 = [0x01020304], ra_v6 = []\<rparr> \<Longrightarrow> ec_sub_hit ctx = None \<Longrightarrow>
   matcher_eval env_ref store s (compile False sets late_kind) ctx False False = (Match, ctx)"
  by (simp add: late_eval curl_process_def curl_matches)

lemma late_told_unresolved:
  "s_process s = Some curl_process \<Longrightarrow> s_dst_host s = HDomain d \<Longrightarrow> \<not> ec_before_connection ctx \<Longrightarrow>
   ec_resolved ctx = None \<Longrightarrow> ec_sub_hit ctx = None \<Longrightarrow>
   matcher_eval env_ref store s (compile False sets late_kind) ctx False False = (NeedsResolve, ctx)"
  by (simp add: late_eval)

lemmas demo_run = run_def demo_rules run_start_def with_network_def eval_ctx_new_def pre_matches_def rule_verdict_def
  eval_in_run_def eval_rule_def needing_process_def needing_resolve_def push_trace_def add_hit_def one_address_def
  fixed_resolver_def dst_name_def collect_notes_def rule_params_default_def upt_rec curl_session_def session_tcp_def

lemma demo_first:
  "as_domain (s_dst_host s) = Some ''b.com'' \<Longrightarrow> matcher_eval env store s (MDomain ''ads.com'') ctx nr False = (NoMatch, ctx)"
  "matcher_eval env store s MFinal ctx nr ex = (Match, ctx)"
  by (simp_all add: matcher_eval_def leaf_arm_def before_connection_def eval_leaf_def Let_def domain_targets_def
      option_list_def verdict_of_def)

text \<open>
  What \<open>run\<close> misses. The rule \<^const>\<open>late_kind\<close> needs the addresses first, and only with them the
  process: its AND stops at the address rule that must not resolve. The loop asks for the process
  before it resolves and not after, so a session of the process the rule names falls through to
  FINAL, while one that carries its process up front is decided by the rule.
\<close>

theorem process_not_asked_after_lookup:
  "d_matched (fst (run env_ref looping_store demo_engine curl_session ModeRule one_address (Some curl_process))) = Some 2 \<and>
   rs_asked (snd (run env_ref looping_store demo_engine curl_session ModeRule one_address (Some curl_process))) = [AskResolve ''b.com''] \<and>
   d_matched (fst (run env_ref looping_store demo_engine (curl_session\<lparr>s_process := Some curl_process\<rparr>) ModeRule
     one_address None)) = Some 1"
  by (simp add: demo_run demo_first late_unknown late_resolved late_told late_told_unresolved)

end
