(* ===== verification/Rurge_Truth.thy ===== *)
theory Rurge_Truth
  imports Rurge_Eval_Facts
begin

text \<open>
  What a rule means, apart from how it is evaluated: a rule holds of a session or it does not,
  given the process, the addresses, the databases and the network. AND, OR and NOT are those
  of logic, a set holds if one of its lines does, and there is no order, no cache and no verdict
  that waits for something. The theorem of this theory is that the evaluation of
  \<^verbatim>\<open>matcher.rs\<close> and \<^verbatim>\<open>set.rs\<close> is sound for it: when it says that a rule matches the rule holds, and when it
  says that it does not the rule does not hold, whatever is found out later.
\<close>

section \<open>The meaning of a rule\<close>

text \<open>
  The facts a rule is about besides the session: the process, the addresses known by now, which
  are all that a rule with \<open>no-resolve\<close> may go by, and those a look-up would give.
\<close>

record facts =
  fa_process :: "process_info option"
  fa_now :: "resolved_addrs option"
  fa_later :: resolved_addrs
  fa_geo :: geo_lookup
  fa_network :: "(network_facts \<times> bool) option"

definition names_of :: "session_info \<Rightarrow> bool \<Rightarrow> string set" where
  "names_of s extended =
     {h. s_dst_host s = HDomain h \<or> (extended \<and> (s_sni s = Some h \<or> s_http_host s = Some h))}"

definition first_v4 :: "resolved_addrs \<Rightarrow> ip_addr option" where
  "first_v4 r = (if ra_v4 r = [] then None else Some (V4 (hd (ra_v4 r))))"

definition first_v6 :: "resolved_addrs \<Rightarrow> ip_addr option" where
  "first_v6 r = (if ra_v6 r = [] then None else Some (V6 (hd (ra_v6 r))))"

fun of_family :: "resolved_addrs \<Rightarrow> family \<Rightarrow> ip_addr option" where
  "of_family r FamV4 = first_v4 r"
| "of_family r FamV6 = first_v6 r"
| "of_family r FamAny = (if ra_v4 r = [] then first_v6 r else first_v4 r)"

fun in_family :: "ip_addr \<Rightarrow> family \<Rightarrow> bool" where
  "in_family (V4 _) fam \<longleftrightarrow> fam \<noteq> FamV6"
| "in_family (V6 _) fam \<longleftrightarrow> fam \<noteq> FamV4"

text \<open>The address of a family that a rule goes by, if there is one.\<close>

definition rule_address :: "session_info \<Rightarrow> facts \<Rightarrow> bool \<Rightarrow> family \<Rightarrow> ip_addr option" where
  "rule_address s F no_resolve fam =
     (case s_dst_host s of
        HIp ip \<Rightarrow> if in_family ip fam then Some ip else None
      | HDomain _ \<Rightarrow>
          (case fa_now F of
             Some r \<Rightarrow> of_family r fam
           | None \<Rightarrow> if no_resolve then None else of_family (fa_later F) fam))"

definition leaf_holds :: "eval_env \<Rightarrow> session_info \<Rightarrow> facts \<Rightarrow> matcher \<Rightarrow> bool \<Rightarrow> bool \<Rightarrow> bool" where
  "leaf_holds env s F m no_resolve extended =
     (case m of
        MDomain d \<Rightarrow> d \<in> names_of s extended
      | MDomainSuffix d \<Rightarrow> \<exists>h\<in>names_of s extended. h = d \<or> (\<exists>sub. h = sub @ ''.'' @ d)
      | MDomainKeyword k \<Rightarrow> \<exists>h\<in>names_of s extended. \<exists>a b. h = a @ k @ b
      | MDomainWildcard g \<Rightarrow> \<exists>h\<in>names_of s extended. glob_matches g h
      | MIpCidr net \<Rightarrow> \<exists>a. rule_address s F no_resolve FamV4 = Some (V4 a) \<and> ext_net4_contains (ee_ext env) net a
      | MIpCidr6 net \<Rightarrow> \<exists>a. rule_address s F no_resolve FamV6 = Some (V6 a) \<and> ext_net6_contains (ee_ext env) net a
      | MGeoIp cc \<Rightarrow> \<exists>ip. rule_address s F no_resolve FamAny = Some ip \<and> geo_country (fa_geo F) ip = Known cc
      | MGeoIpUnknown \<Rightarrow> \<exists>ip. rule_address s F no_resolve FamAny = Some ip \<and> geo_country (fa_geo F) ip = Unknown
      | MIpAsn n \<Rightarrow> \<exists>ip. rule_address s F no_resolve FamAny = Some ip \<and> geo_asn (fa_geo F) ip = Known n
      | MIpAsnUnknown \<Rightarrow> \<exists>ip. rule_address s F no_resolve FamAny = Some ip \<and> geo_asn (fa_geo F) ip = Unknown
      | MUserAgent g \<Rightarrow> \<exists>ua. s_user_agent s = Some ua \<and> glob_matches g ua
      | MUrlRegex p \<Rightarrow> url_regex_hits env p s extended
      | MProcessName pp \<Rightarrow>
          \<exists>p. (if s_process s = None then fa_process F else s_process s) = Some p \<and>
              process_matches_for (ee_windows env) pp p
      | MDestPort p \<Rightarrow> port_matches p (s_dst_port s)
      | MSrcPort p \<Rightarrow> port_matches p (sa_port (s_src s))
      | MInPort p \<Rightarrow> port_matches p (s_in_port s)
      | MSrcIp net \<Rightarrow> ext_net_contains (ee_ext env) net (sa_ip (s_src s))
      | MProtocol k \<Rightarrow>
          s_protocol s = Some k \<or> (k = PkTcp \<and> s_transport s = Tcp) \<or> (k = PkUdp \<and> s_transport s = Udp)
      | MHostnameType t \<Rightarrow> hostname_type_of (s_dst_host s) = t
      | MSubnet e \<Rightarrow> \<exists>net always. fa_network F = Some (net, always) \<and> subnet_matches e net always
      | MFinal \<Rightarrow> True
      | _ \<Rightarrow> False)"

text \<open>A rule, given what the sets it names mean.\<close>

type_synonym set_meaning = "set_handle \<Rightarrow> bool \<Rightarrow> bool \<Rightarrow> bool"

primrec holds :: "eval_env \<Rightarrow> set_meaning \<Rightarrow> session_info \<Rightarrow> facts \<Rightarrow> matcher \<Rightarrow> bool \<Rightarrow> bool \<Rightarrow> bool"
  and holds_sub :: "eval_env \<Rightarrow> set_meaning \<Rightarrow> session_info \<Rightarrow> facts \<Rightarrow> compiled_sub \<Rightarrow> bool"
where
  "holds env sets s F (MAnd subs) = (\<lambda>nr ex. list_all id (map (holds_sub env sets s F) subs))"
| "holds env sets s F (MOr subs) = (\<lambda>nr ex. list_ex id (map (holds_sub env sets s F) subs))"
| "holds env sets s F (MNot sub) = (\<lambda>nr ex. \<not> holds_sub env sets s F sub)"
| "holds env sets s F (MSet h) = sets h"
| "holds env sets s F (MDomain d) = leaf_holds env s F (MDomain d)"
| "holds env sets s F (MDomainSuffix d) = leaf_holds env s F (MDomainSuffix d)"
| "holds env sets s F (MDomainKeyword k) = leaf_holds env s F (MDomainKeyword k)"
| "holds env sets s F (MDomainWildcard g) = leaf_holds env s F (MDomainWildcard g)"
| "holds env sets s F (MIpCidr n4) = leaf_holds env s F (MIpCidr n4)"
| "holds env sets s F (MIpCidr6 n6) = leaf_holds env s F (MIpCidr6 n6)"
| "holds env sets s F (MGeoIp cc) = leaf_holds env s F (MGeoIp cc)"
| "holds env sets s F MGeoIpUnknown = leaf_holds env s F MGeoIpUnknown"
| "holds env sets s F (MIpAsn asn) = leaf_holds env s F (MIpAsn asn)"
| "holds env sets s F MIpAsnUnknown = leaf_holds env s F MIpAsnUnknown"
| "holds env sets s F (MUserAgent g) = leaf_holds env s F (MUserAgent g)"
| "holds env sets s F (MUrlRegex p) = leaf_holds env s F (MUrlRegex p)"
| "holds env sets s F (MProcessName pp) = leaf_holds env s F (MProcessName pp)"
| "holds env sets s F (MDestPort e) = leaf_holds env s F (MDestPort e)"
| "holds env sets s F (MSrcPort e) = leaf_holds env s F (MSrcPort e)"
| "holds env sets s F (MInPort e) = leaf_holds env s F (MInPort e)"
| "holds env sets s F (MSrcIp net) = leaf_holds env s F (MSrcIp net)"
| "holds env sets s F (MProtocol k) = leaf_holds env s F (MProtocol k)"
| "holds env sets s F (MHostnameType t) = leaf_holds env s F (MHostnameType t)"
| "holds env sets s F (MSubnet sn) = leaf_holds env s F (MSubnet sn)"
| "holds env sets s F (MUnsupported kind) = leaf_holds env s F (MUnsupported kind)"
| "holds env sets s F MNever = leaf_holds env s F MNever"
| "holds env sets s F MFinal = leaf_holds env s F MFinal"
| "holds_sub env sets s F (CompiledSub m nr ex raw) = holds env sets s F m nr ex"

text \<open>A set holds if one of its lines does: a name, a rule, an AS or a network.\<close>

definition set_holds :: "eval_env \<Rightarrow> set_meaning \<Rightarrow> session_info \<Rightarrow> facts \<Rightarrow> compiled_set \<Rightarrow> bool \<Rightarrow> bool \<Rightarrow> bool" where
  "set_holds env sets s F c no_resolve extended \<longleftrightarrow>
     (\<not> index_is_empty (cset_domains c) \<and>
        (\<exists>h\<in>names_of s (extended \<or> cset_extended c). domain_lookup (cset_domains c) h \<noteq> None)) \<or>
     (\<exists>(i, rule)\<in>set (cset_linear c). holds env sets s F (cs_matcher rule)
        (no_resolve \<or> cs_no_resolve rule) (extended \<or> cs_extended rule)) \<or>
     (\<exists>ip n. rule_address s F (no_resolve \<or> \<not> cset_asns_resolve c) FamAny = Some ip \<and>
        geo_asn (fa_geo F) ip = Known n \<and> n \<in> fst ` set (cset_asns c)) \<or>
     (\<not> ip_index_is_empty (cset_ips c) \<and>
        (\<exists>fam\<in>{FamV4, FamV6}. \<exists>ip. rule_address s F (no_resolve \<or> \<not> cset_ips_resolve c) fam = Some ip \<and>
           ip_lookup (ee_ext env) (cset_ips c) ip \<noteq> None))"

text \<open>Sets name sets; at the nesting limit a set holds nothing.\<close>

primrec sets_hold :: "eval_env \<Rightarrow> set_store \<Rightarrow> session_info \<Rightarrow> facts \<Rightarrow> nat \<Rightarrow> set_meaning" where
  "sets_hold env store s F 0 = (\<lambda>h nr ex. False)"
| "sets_hold env store s F (Suc n) = (\<lambda>h. set_holds env (sets_hold env store s F n) s F (store h))"

definition rule_holds :: "eval_env \<Rightarrow> set_store \<Rightarrow> session_info \<Rightarrow> facts \<Rightarrow> matcher \<Rightarrow> bool \<Rightarrow> bool \<Rightarrow> bool" where
  "rule_holds env store s F = holds env (sets_hold env store s F MAX_NESTING) s F"

section \<open>Verdicts that are true\<close>

text \<open>The context knows of the facts what it knows: nothing else, and perhaps not the process.\<close>

definition informed :: "facts \<Rightarrow> eval_ctx \<Rightarrow> bool" where
  "informed F ctx \<longleftrightarrow>
     coherent ctx \<and> ec_geo ctx = fa_geo F \<and> ec_network ctx = fa_network F \<and> ec_resolved ctx = fa_now F \<and>
     (ec_process ctx = NotAsked \<or> ec_process ctx = Asked (fa_process F))"

definition truthful :: "nat \<Rightarrow> facts \<Rightarrow> (eval_ctx \<Rightarrow> verdict \<times> eval_ctx) \<Rightarrow> bool \<Rightarrow> bool" where
  "truthful n F ev b \<longleftrightarrow>
     (\<forall>ctx. informed F ctx \<longrightarrow> ec_set_depth ctx + n = MAX_NESTING \<longrightarrow>
        (fst (ev ctx) = Match \<longrightarrow> b) \<and> (fst (ev ctx) = NoMatch \<longrightarrow> \<not> b))"

definition informed_at :: "nat \<Rightarrow> facts \<Rightarrow> eval_ctx \<Rightarrow> bool" where
  "informed_at n F ctx \<longleftrightarrow> informed F ctx \<and> ec_set_depth ctx + n = MAX_NESTING"

lemma truthfulD:
  assumes "truthful n F ev b" "informed_at n F ctx" "ev ctx = (v, c)"
  shows "v = Match \<Longrightarrow> b" "v = NoMatch \<Longrightarrow> \<not> b"
  using assms unfolding truthful_def informed_at_def by (metis fst_conv)+

lemma truthfulI:
  "(\<And>ctx. informed_at n F ctx \<Longrightarrow> (fst (ev ctx) = Match \<longrightarrow> b) \<and> (fst (ev ctx) = NoMatch \<longrightarrow> \<not> b)) \<Longrightarrow> truthful n F ev b"
  by (simp add: truthful_def informed_at_def)

lemma informed_keeps: "informed_at n F ctx \<Longrightarrow> keeps ctx c \<Longrightarrow> informed_at n F c"
  by (auto simp: informed_at_def informed_def keeps_def)

lemma informed_sub_hit [simp]: "informed_at n F (ctx\<lparr>ec_sub_hit := h\<rparr>) \<longleftrightarrow> informed_at n F ctx"
  by (simp add: informed_at_def informed_def)

lemma and_loop_truthful:
  assumes "list_all2 (\<lambda>ev b. truthful n F ev b \<and> well_behaved s ev) evs bs" "informed_at n F ctx"
  shows "fst (and_loop evs nc np nr ctx) = Match \<Longrightarrow> list_all id bs"
    and "fst (and_loop evs nc np nr ctx) = NoMatch \<Longrightarrow> \<not> list_all id bs"
proof -
  have "(fst (and_loop evs nc np nr ctx) = Match \<longrightarrow> list_all id bs) \<and>
    (fst (and_loop evs nc np nr ctx) = NoMatch \<longrightarrow> \<not> list_all id bs)"
    using assms
  proof (induction evs bs arbitrary: nc np nr ctx rule: list_all2_induct)
    case (Cons ev evs b bs)
    obtain v c where e: "ev ctx = (v, c)" by fastforce
    have wb: "truthful n F ev b" "well_behaved s ev" using Cons.hyps(1) by auto
    note ih = Cons.IH[OF informed_keeps[OF Cons.prems well_behavedD(1)[OF wb(2) e]]]
    note t = truthfulD[OF wb(1) Cons.prems e]
    let ?r = "and_loop evs (nc \<or> v = NeedsConnection) (np \<or> v = NeedsProcess) (nr \<or> v = NeedsResolve) c"
    show ?case
    proof (cases "v = NoMatch")
      case True
      then show ?thesis using t e by simp
    next
      case False
      then have r: "and_loop (ev # evs) nc np nr ctx = ?r" using e by simp
      show ?thesis
      proof (cases "v = Match")
        case True
        then show ?thesis unfolding r using ih t by simp
      next
        case waits: False
        then have "nc \<or> v = NeedsConnection \<or> np \<or> v = NeedsProcess \<or> nr \<or> v = NeedsResolve"
          using False by (cases v) simp_all
        then have "fst ?r \<noteq> Match" using and_loop_Match by blast
        then show ?thesis unfolding r using ih by simp
      qed
    qed
  qed (simp_all add: still_needs_def)
  then show "fst (and_loop evs nc np nr ctx) = Match \<Longrightarrow> list_all id bs"
    "fst (and_loop evs nc np nr ctx) = NoMatch \<Longrightarrow> \<not> list_all id bs" by auto
qed

lemma or_loop_truthful:
  assumes "list_all2 (\<lambda>ev b. truthful n F ev b \<and> well_behaved s ev) evs bs" "informed_at n F ctx"
  shows "fst (or_loop evs nc np nr ctx) = Match \<Longrightarrow> list_ex id bs"
    and "fst (or_loop evs nc np nr ctx) = NoMatch \<Longrightarrow> \<not> list_ex id bs"
proof -
  have "(fst (or_loop evs nc np nr ctx) = Match \<longrightarrow> list_ex id bs) \<and>
    (fst (or_loop evs nc np nr ctx) = NoMatch \<longrightarrow> \<not> list_ex id bs)"
    using assms
  proof (induction evs bs arbitrary: nc np nr ctx rule: list_all2_induct)
    case (Cons ev evs b bs)
    obtain v c where e: "ev ctx = (v, c)" by fastforce
    have wb: "truthful n F ev b" "well_behaved s ev" using Cons.hyps(1) by auto
    note ih = Cons.IH[OF informed_keeps[OF Cons.prems well_behavedD(1)[OF wb(2) e]]]
    note t = truthfulD[OF wb(1) Cons.prems e]
    let ?r = "or_loop evs (nc \<or> v = NeedsConnection) (np \<or> v = NeedsProcess) (nr \<or> v = NeedsResolve) c"
    show ?case
    proof (cases "v = Match")
      case True
      then show ?thesis using t e by simp
    next
      case False
      then have r: "or_loop (ev # evs) nc np nr ctx = ?r" using e by simp
      show ?thesis
      proof (cases "v = NoMatch")
        case True
        then show ?thesis unfolding r using ih t by simp
      next
        case waits: False
        then have "nc \<or> v = NeedsConnection \<or> np \<or> v = NeedsProcess \<or> nr \<or> v = NeedsResolve"
          using False by (cases v) simp_all
        then have "fst ?r \<noteq> NoMatch" using or_loop_NoMatch by blast
        then show ?thesis unfolding r using ih by simp
      qed
    qed
  qed (simp_all add: still_needs_def)
  then show "fst (or_loop evs nc np nr ctx) = Match \<Longrightarrow> list_ex id bs"
    "fst (or_loop evs nc np nr ctx) = NoMatch \<Longrightarrow> \<not> list_ex id bs" by auto
qed

lemma in_branches_truthful: "truthful n F ev b \<Longrightarrow> truthful n F (in_branches ev) b"
proof -
  have "fst (in_branches ev ctx) = fst (ev (ctx\<lparr>ec_sub_hit := None\<rparr>))" for ctx
    by (simp add: in_branches_def Let_def split: prod.splits)
  moreover have "informed F ctx \<Longrightarrow> informed F (ctx\<lparr>ec_sub_hit := None\<rparr>)" for ctx by (simp add: informed_def)
  moreover have "ec_set_depth (ctx\<lparr>ec_sub_hit := None\<rparr>) = ec_set_depth ctx" for ctx by simp
  ultimately show "truthful n F ev b \<Longrightarrow> truthful n F (in_branches ev) b" unfolding truthful_def by metis
qed

lemma not_arm_truthful:
  assumes "truthful n F ev b"
  shows "truthful n F (not_arm ev) (\<not> b)"
proof (rule truthfulI)
  fix ctx assume "informed_at n F ctx"
  then have "informed_at n F (ctx\<lparr>ec_sub_hit := None\<rparr>)" by simp
  then show "(fst (not_arm ev ctx) = Match \<longrightarrow> \<not> b) \<and> (fst (not_arm ev ctx) = NoMatch \<longrightarrow> \<not> \<not> b)"
    using assms unfolding fst_not_arm truthful_def informed_at_def by (auto split: verdict.splits)
qed

section \<open>The leaves\<close>

lemma names_of_targets: "names_of s ex = set (domain_targets s ex)"
  by (cases "s_dst_host s") (auto simp: names_of_def domain_targets_def option_list_def split: option.splits if_splits)

lemma is_suffix_iff: "is_suffix host d \<longleftrightarrow> host = d \<or> (\<exists>sub. host = sub @ ''.'' @ d)"
proof -
  have "\<exists>sub. host = sub @ ''.'' @ d"
    if l: "length d < length host" and e: "ends_with d host" and c: "host ! (length host - length d - 1) = CHR ''.''"
  proof -
    obtain p where p: "host = p @ d" using e by (auto simp: ends_with_suffix suffix_def)
    then obtain q x where q: "p = q @ [x]" using l by (cases p rule: rev_cases) auto
    then have "x = CHR ''.''" using c p by (simp add: nth_append)
    then show ?thesis using p q by auto
  qed
  then show ?thesis by (auto simp: is_suffix_def ends_with_def nth_append)
qed

lemma str_contains_iff: "str_contains k s \<longleftrightarrow> (\<exists>a b. s = a @ k @ b)"
proof (induction s)
  case (Cons x s)
  show ?case
  proof (cases "starts_with k (x # s)")
    case True
    then have "x # s = [] @ k @ drop (length k) (x # s)"
      by (metis append_Nil append_take_drop_id starts_with_def)
    then have "\<exists>a b. x # s = a @ k @ b" by blast
    then show ?thesis using True by (simp add: str_contains_def)
  next
    case False
    have "(\<exists>a b. x # s = a @ k @ b) \<longleftrightarrow> (\<exists>a b. s = a @ k @ b)"
    proof
      assume "\<exists>a b. x # s = a @ k @ b"
      then obtain a b where ab: "x # s = a @ k @ b" by blast
      with False have "a \<noteq> []" by (auto simp: starts_with_def)
      then show "\<exists>a b. s = a @ k @ b" using ab by (cases a) auto
    qed (metis append_Cons)
    then show ?thesis using Cons False by (simp add: str_contains_def)
  qed
qed (auto simp: str_contains_def)

lemma picks:
  "(case ra_v4 r of [] \<Rightarrow> None | a # _ \<Rightarrow> Some (V4 a)) = first_v4 r"
  "(case ra_v6 r of [] \<Rightarrow> None | a # _ \<Rightarrow> Some (V6 a)) = first_v6 r"
  by (simp_all add: first_v4_def first_v6_def split: list.splits)

lemma pick_family:
  "(case fam of FamV4 \<Rightarrow> first_v4 r | FamV6 \<Rightarrow> first_v6 r
    | FamAny \<Rightarrow> (case first_v4 r of None \<Rightarrow> first_v6 r | Some a \<Rightarrow> Some a)) = of_family r fam"
  by (cases fam) (simp_all add: first_v4_def)

lemma family_ok:
  "(case fam of FamV4 \<Rightarrow> is_ipv4 ip | FamV6 \<Rightarrow> is_ipv6 ip | FamAny \<Rightarrow> True) = in_family ip fam"
  by (cases fam; cases ip) simp_all

lemma target_ip_address:
  "target_ip s ctx nr fam =
     (case s_dst_host s of
        HIp ip \<Rightarrow> if in_family ip fam then Inr ip else Inl NoMatch
      | HDomain _ \<Rightarrow>
          if ec_before_connection ctx then Inl NeedsConnection
          else case ec_resolved ctx of
                 None \<Rightarrow> Inl (if nr then NoMatch else NeedsResolve)
               | Some r \<Rightarrow> ok_or NoMatch (of_family r fam))"
  unfolding target_ip_def Let_def picks pick_family family_ok
  by (cases "s_dst_host s") (simp_all split: option.split)

lemma target_ip_true:
  assumes "ec_resolved ctx = fa_now F"
  shows "target_ip s ctx nr fam = Inr ip \<Longrightarrow> rule_address s F nr fam = Some ip"
    and "target_ip s ctx nr fam = Inl NoMatch \<Longrightarrow> rule_address s F nr fam = None"
    and "target_ip s ctx nr fam \<noteq> Inl Match"
  using assms unfolding target_ip_address rule_address_def
  by (auto simp: ok_or_def split: host_name.splits option.splits if_splits)

lemma pure_truthful:
  "(\<And>ctx. informed F ctx \<Longrightarrow> f ctx \<longleftrightarrow> b) \<Longrightarrow> truthful n F (\<lambda>ctx. (verdict_of (f ctx), ctx)) b"
  by (auto simp: truthful_def verdict_of_def)

lemma by_ip_truthful:
  assumes "\<And>ip ctx. informed F ctx \<Longrightarrow> fst (test ip ctx) \<longleftrightarrow> P ip"
    and "b \<longleftrightarrow> (\<exists>ip. rule_address s F nr fam = Some ip \<and> P ip)"
  shows "truthful n F (\<lambda>ctx. by_ip test s ctx nr fam) b"
proof (rule truthfulI)
  fix ctx assume "informed_at n F ctx"
  then have i: "informed F ctx" "ec_resolved ctx = fa_now F" by (auto simp: informed_at_def informed_def)
  note t = target_ip_true[OF i(2), of s nr fam]
  show "(fst (by_ip test s ctx nr fam) = Match \<longrightarrow> b) \<and> (fst (by_ip test s ctx nr fam) = NoMatch \<longrightarrow> \<not> b)"
  proof (cases "target_ip s ctx nr fam")
    case (Inl v)
    then show ?thesis using t(2,3) assms(2) by (auto simp: by_ip_def)
  next
    case (Inr ip)
    moreover have "fst (test ip ctx) \<longleftrightarrow> P ip" by (rule assms(1)[OF i(1)])
    ultimately show ?thesis using t(1)[OF Inr] assms(2) by (cases "test ip ctx") (auto simp: by_ip_def verdict_of_def)
  qed
qed

lemma leaf_truthful: "truthful n F (\<lambda>ctx. eval_leaf env m s ctx nr ex) (leaf_holds env s F m nr ex)"
proof (cases m)
  case (MProcessName pp)
  have "(fst (eval_leaf env m s ctx nr ex) = Match \<longrightarrow> leaf_holds env s F m nr ex) \<and>
      (fst (eval_leaf env m s ctx nr ex) = NoMatch \<longrightarrow> \<not> leaf_holds env s F m nr ex)" if "informed_at n F ctx" for ctx
    using that by (cases "fa_process F"; auto simp: MProcessName eval_leaf_def leaf_holds_def informed_at_def
        informed_def verdict_of_def split: option.splits process_state.splits)
  then show ?thesis by (rule truthfulI)
next
  case (MIpCidr net)
  show ?thesis unfolding MIpCidr eval_leaf_def leaf_holds_def Let_def matcher.case
    by (rule by_ip_truthful[of F _ "\<lambda>ip. case ip of V4 a \<Rightarrow> ext_net4_contains (ee_ext env) net a | V6 _ \<Rightarrow> False"])
       (cases "rule_address s F nr FamV4"; auto split: ip_addr.splits)+
next
  case (MIpCidr6 net)
  show ?thesis unfolding MIpCidr6 eval_leaf_def leaf_holds_def Let_def matcher.case
    by (rule by_ip_truthful[of F _ "\<lambda>ip. case ip of V6 a \<Rightarrow> ext_net6_contains (ee_ext env) net a | V4 _ \<Rightarrow> False"])
       (cases "rule_address s F nr FamV6"; auto split: ip_addr.splits)+
next
  case (MGeoIp cc)
  show ?thesis unfolding MGeoIp eval_leaf_def leaf_holds_def Let_def matcher.case
    by (rule by_ip_truthful[of F _ "\<lambda>ip. geo_country (fa_geo F) ip = Known cc"]) (auto simp: informed_def ctx_geo_coherent)
next
  case MGeoIpUnknown
  show ?thesis unfolding MGeoIpUnknown eval_leaf_def leaf_holds_def Let_def matcher.case
    by (rule by_ip_truthful[of F _ "\<lambda>ip. geo_country (fa_geo F) ip = Unknown"]) (auto simp: informed_def ctx_geo_coherent)
next
  case (MIpAsn asn)
  show ?thesis unfolding MIpAsn eval_leaf_def leaf_holds_def Let_def matcher.case
    by (rule by_ip_truthful[of F _ "\<lambda>ip. geo_asn (fa_geo F) ip = Known asn"]) (auto simp: informed_def ctx_geo_coherent)
next
  case MIpAsnUnknown
  show ?thesis unfolding MIpAsnUnknown eval_leaf_def leaf_holds_def Let_def matcher.case
    by (rule by_ip_truthful[of F _ "\<lambda>ip. geo_asn (fa_geo F) ip = Unknown"]) (auto simp: informed_def ctx_geo_coherent)
next
  case (MSubnet e)
  then show ?thesis
    by (auto simp: eval_leaf_def leaf_holds_def truthful_def informed_def verdict_of_def split: option.splits)
next
  case (MUserAgent g)
  then show ?thesis
    by (auto simp: eval_leaf_def leaf_holds_def intro!: pure_truthful split: option.splits)
next
  case (MUnsupported k)
  then show ?thesis by (simp add: eval_leaf_def leaf_holds_def truthful_def)
qed (auto simp: eval_leaf_def leaf_holds_def names_of_targets list_ex_iff is_suffix_iff str_contains_iff
      truthful_def[of _ _ "\<lambda>ctx. (Match, ctx)"] truthful_def[of _ _ "\<lambda>ctx. (NoMatch, ctx)"]
      intro!: pure_truthful)

lemma leaf_arm_truthful: "truthful n F (\<lambda>ctx. leaf_arm env s m ctx nr ex) (leaf_holds env s F m nr ex)"
  using leaf_truthful[of n F env m s nr ex] by (simp add: truthful_def leaf_arm_def before_connection_def)

section \<open>The sets\<close>

lemma linear_loop_truthful:
  assumes "list_all2 (\<lambda>(i, ev) b. truthful n F ev b \<and> well_behaved s ev) evs bs" "informed_at n F ctx"
  shows "fst (linear_loop evs nd ctx) = Inl i \<Longrightarrow> list_ex id bs"
    and "fst (linear_loop evs nd ctx) = Inr no_needs \<Longrightarrow> \<not> list_ex id bs"
proof -
  have "(\<forall>i. fst (linear_loop evs nd ctx) = Inl i \<longrightarrow> list_ex id bs) \<and>
    (fst (linear_loop evs nd ctx) = Inr no_needs \<longrightarrow> \<not> list_ex id bs)"
    using assms
  proof (induction evs bs arbitrary: nd ctx rule: list_all2_induct)
    case (Cons p evs b bs)
    obtain i ev where p: "p = (i, ev)" by (cases p)
    obtain nc np nr where nd: "nd = (nc, np, nr)" by (cases nd) auto
    obtain v c where e: "ev ctx = (v, c)" by fastforce
    have wb: "truthful n F ev b" "well_behaved s ev" using Cons.hyps(1) p by auto
    note ih = Cons.IH[OF informed_keeps[OF Cons.prems well_behavedD(1)[OF wb(2) e]]]
    note t = truthfulD[OF wb(1) Cons.prems e]
    let ?nd = "(nc \<or> v = NeedsConnection, np \<or> v = NeedsProcess, nr \<or> v = NeedsResolve)"
    show ?case
    proof (cases "v = Match")
      case True
      then show ?thesis using t e p nd by simp
    next
      case False
      then have r: "linear_loop (p # evs) nd ctx = linear_loop evs ?nd c" using e p nd by simp
      have "v = NoMatch" if "fst (linear_loop evs ?nd c) = Inr no_needs"
        using linear_loop_needs[OF that] False by (cases v) simp_all
      then show ?thesis unfolding r using ih[of ?nd] t(2) by (auto simp: list_ex_iff)
    qed
  qed simp
  then show "fst (linear_loop evs nd ctx) = Inl i \<Longrightarrow> list_ex id bs"
    "fst (linear_loop evs nd ctx) = Inr no_needs \<Longrightarrow> \<not> list_ex id bs" by auto
qed

definition asn_holds :: "session_info \<Rightarrow> facts \<Rightarrow> compiled_set \<Rightarrow> bool \<Rightarrow> bool" where
  "asn_holds s F c nr \<longleftrightarrow>
     (\<exists>ip n. rule_address s F (nr \<or> \<not> cset_asns_resolve c) FamAny = Some ip \<and>
        geo_asn (fa_geo F) ip = Known n \<and> n \<in> fst ` set (cset_asns c))"

definition ips_hold :: "ext \<Rightarrow> session_info \<Rightarrow> facts \<Rightarrow> compiled_set \<Rightarrow> bool \<Rightarrow> family \<Rightarrow> bool" where
  "ips_hold x s F c nr fam \<longleftrightarrow>
     (\<exists>ip. rule_address s F (nr \<or> \<not> cset_ips_resolve c) fam = Some ip \<and> ip_lookup x (cset_ips c) ip \<noteq> None)"

lemma asn_phase_true:
  assumes "informed_at n F ctx"
  shows "fst (asn_phase c s nr nd ctx) = Inl i \<Longrightarrow> asn_holds s F c nr"
    and "fst (asn_phase c s nr nd ctx) = Inr no_needs \<Longrightarrow> nd = no_needs \<and> \<not> asn_holds s F c nr"
proof -
  have i: "coherent ctx" "ec_geo ctx = fa_geo F" "ec_resolved ctx = fa_now F"
    using assms by (auto simp: informed_at_def informed_def)
  note t = target_ip_true[OF i(3), of s "nr \<or> \<not> cset_asns_resolve c" FamAny]
  have "(fst (asn_phase c s nr nd ctx) = Inl i \<longrightarrow> asn_holds s F c nr) \<and>
    (fst (asn_phase c s nr nd ctx) = Inr no_needs \<longrightarrow> nd = no_needs \<and> \<not> asn_holds s F c nr)"
  proof (cases "cset_asns c = [] \<or> (\<exists>v. target_ip s ctx (nr \<or> \<not> cset_asns_resolve c) FamAny = Inl v)")
    case True
    then show ?thesis
    proof
      assume "\<exists>v. target_ip s ctx (nr \<or> \<not> cset_asns_resolve c) FamAny = Inl v"
      then obtain v where v: "target_ip s ctx (nr \<or> \<not> cset_asns_resolve c) FamAny = Inl v" by blast
      have "v \<noteq> NeedsProcess" using v by (auto simp: target_ip_address ok_or_def split: host_name.splits option.splits if_splits)
      then have "v \<noteq> NeedsConnection \<Longrightarrow> v \<noteq> NeedsResolve \<Longrightarrow> v = NoMatch" using v t(3) by (cases v) auto
      then show ?thesis using v t(2) by (auto simp: asn_phase_def asn_holds_def needs_err_none)
    qed (simp add: asn_phase_def asn_holds_def)
  next
    case False
    then obtain ip where ip: "target_ip s ctx (nr \<or> \<not> cset_asns_resolve c) FamAny = Inr ip"
      by (cases "target_ip s ctx (nr \<or> \<not> cset_asns_resolve c) FamAny") auto
    obtain g ctx' where g: "ctx_asn ip ctx = (g, ctx')" by fastforce
    have "g = geo_asn (fa_geo F) ip" using ctx_geo_coherent(2)[OF i(1), of ip] i(2) g by simp
    moreover have "map_of (cset_asns c) a = None \<longleftrightarrow> a \<notin> fst ` set (cset_asns c)" for a by (simp add: map_of_eq_None_iff)
    moreover have "a \<in> fst ` set (cset_asns c)" if "map_of (cset_asns c) a = Some i" for a i
      using map_of_SomeD[OF that] by force
    ultimately show ?thesis using False ip t(1)[OF ip] g
      by (cases "geo_asn (fa_geo F) ip")
         (auto simp: asn_phase_def asn_holds_def split: option.splits)
  qed
  then show "fst (asn_phase c s nr nd ctx) = Inl i \<Longrightarrow> asn_holds s F c nr"
    "fst (asn_phase c s nr nd ctx) = Inr no_needs \<Longrightarrow> nd = no_needs \<and> \<not> asn_holds s F c nr" by auto
qed

lemma ip_family_true:
  assumes "informed_at n F ctx"
  shows "ip_family x c s ctx nr fam nd = Inl i \<Longrightarrow> ips_hold x s F c nr fam"
    and "ip_family x c s ctx nr fam nd = Inr no_needs \<Longrightarrow> nd = no_needs \<and> \<not> ips_hold x s F c nr fam"
proof -
  have i: "ec_resolved ctx = fa_now F" using assms by (auto simp: informed_at_def informed_def)
  note t = target_ip_true[OF i, of s "nr \<or> \<not> cset_ips_resolve c" fam]
  have "(ip_family x c s ctx nr fam nd = Inl i \<longrightarrow> ips_hold x s F c nr fam) \<and>
    (ip_family x c s ctx nr fam nd = Inr no_needs \<longrightarrow> nd = no_needs \<and> \<not> ips_hold x s F c nr fam)"
  proof (cases "target_ip s ctx (nr \<or> \<not> cset_ips_resolve c) fam")
    case (Inl v)
    have "v \<noteq> NeedsProcess" using Inl by (auto simp: target_ip_address ok_or_def split: host_name.splits option.splits if_splits)
    then have "v \<noteq> NeedsConnection \<Longrightarrow> v \<noteq> NeedsResolve \<Longrightarrow> v = NoMatch" using Inl t(3) by (cases v) auto
    then show ?thesis using Inl t(2) by (auto simp: ip_family_def ips_hold_def needs_err_none)
  next
    case (Inr ip)
    then show ?thesis using t(1)[OF Inr] by (auto simp: ip_family_def ips_hold_def split: option.splits)
  qed
  then show "ip_family x c s ctx nr fam nd = Inl i \<Longrightarrow> ips_hold x s F c nr fam"
    "ip_family x c s ctx nr fam nd = Inr no_needs \<Longrightarrow> nd = no_needs \<and> \<not> ips_hold x s F c nr fam" by auto
qed

lemma ip_phase_true:
  assumes "informed_at n F ctx"
  shows "ip_phase x c s ctx nr nd = Inl i \<Longrightarrow>
      \<not> ip_index_is_empty (cset_ips c) \<and> (ips_hold x s F c nr FamV4 \<or> ips_hold x s F c nr FamV6)"
    and "ip_phase x c s ctx nr nd = Inr no_needs \<Longrightarrow> nd = no_needs \<and>
      (ip_index_is_empty (cset_ips c) \<or> \<not> ips_hold x s F c nr FamV4 \<and> \<not> ips_hold x s F c nr FamV6)"
proof -
  note f = ip_family_true[OF assms, of x c s nr]
  show "ip_phase x c s ctx nr nd = Inl i \<Longrightarrow>
      \<not> ip_index_is_empty (cset_ips c) \<and> (ips_hold x s F c nr FamV4 \<or> ips_hold x s F c nr FamV6)"
    using f(1) by (auto simp: ip_phase_def split: if_splits sum.splits)
  assume r: "ip_phase x c s ctx nr nd = Inr no_needs"
  show "nd = no_needs \<and> (ip_index_is_empty (cset_ips c) \<or> \<not> ips_hold x s F c nr FamV4 \<and> \<not> ips_hold x s F c nr FamV6)"
  proof (cases "ip_index_is_empty (cset_ips c)")
    case True
    then show ?thesis using r by (simp add: ip_phase_def)
  next
    case False
    then obtain nd' where nd': "ip_family x c s ctx nr FamV4 nd = Inr nd'" "ip_family x c s ctx nr FamV6 nd' = Inr no_needs"
      using r by (auto simp: ip_phase_def split: sum.splits)
    from f(2)[OF nd'(2)] nd'(1) f(2)[of FamV4 nd] show ?thesis by simp
  qed
qed

locale set_truth = set_contract sets for sets :: "set_handle \<Rightarrow> set_match" +
  fixes s :: session_info and F :: facts and truths :: set_meaning and n :: nat
  assumes set_truthful: "0 < n \<Longrightarrow> truthful (n - 1) F (as_eval (sets h) s nr ex) (truths h nr ex)"
    and none_nested: "n = 0 \<Longrightarrow> \<not> truths h nr ex"
begin

lemma eval_set_truthful: "truthful n F (\<lambda>ctx. eval_set (sets h) s ctx nr ex) (truths h nr ex)"
proof (rule truthfulI)
  fix ctx assume a: "informed_at n F ctx"
  show "(fst (eval_set (sets h) s ctx nr ex) = Match \<longrightarrow> truths h nr ex) \<and>
      (fst (eval_set (sets h) s ctx nr ex) = NoMatch \<longrightarrow> \<not> truths h nr ex)"
  proof (cases "n = 0")
    case True
    then show ?thesis using a none_nested by (simp add: informed_at_def eval_set_def)
  next
    case False
    let ?c = "ctx\<lparr>ec_set_depth := ec_set_depth ctx + 1\<rparr>"
    obtain v c where e: "sm_eval (sets h) s ?c nr ex = (v, c)" by fastforce
    have "informed_at (n - 1) F ?c" using a False by (auto simp: informed_at_def informed_def)
    from truthfulD[OF set_truthful this, of h nr ex "sv_verdict v" c] False e a show ?thesis
      by (auto simp: eval_set_def as_eval_def Let_def informed_at_def)
  qed
qed

lemma eval_truthful:
  "truthful n F (\<lambda>ctx. eval env sets s m ctx nr ex) (holds env truths s F m nr ex)"
  "truthful n F (eval_sub env sets s sub) (holds_sub env truths s F sub)"
proof (induction m and sub arbitrary: nr ex and)
  case (MAnd subs)
  have "list_all2 (\<lambda>ev b. truthful n F ev b \<and> well_behaved s ev)
      (map (eval_sub env sets s) subs) (map (holds_sub env truths s F) subs)"
    using MAnd eval_behaved(2) by (simp add: list_all2_conv_all_nth)
  from and_loop_truthful[OF this] have "truthful n F (and_loop (map (eval_sub env sets s) subs) False False False)
      (list_all id (map (holds_sub env truths s F) subs))"
    by (intro truthfulI) blast
  from in_branches_truthful[OF this] show ?case by simp
next
  case (MOr subs)
  have "list_all2 (\<lambda>ev b. truthful n F ev b \<and> well_behaved s ev)
      (map (eval_sub env sets s) subs) (map (holds_sub env truths s F) subs)"
    using MOr eval_behaved(2) by (simp add: list_all2_conv_all_nth)
  from or_loop_truthful[OF this] have "truthful n F (or_loop (map (eval_sub env sets s) subs) False False False)
      (list_ex id (map (holds_sub env truths s F) subs))"
    by (intro truthfulI) blast
  from in_branches_truthful[OF this] show ?case by simp
next
  case (MNot sub)
  then show ?case using not_arm_truthful by simp
qed (simp_all add: eval_set_truthful leaf_arm_truthful)

lemma set_holds_parts:
  "set_holds env truths s F c nr ex \<longleftrightarrow>
     (\<not> index_is_empty (cset_domains c) \<and> lookup_first (cset_domains c) (set_targets c s ex) \<noteq> None) \<or>
     list_ex id (map (\<lambda>(i, rule). holds env truths s F (cs_matcher rule) (nr \<or> cs_no_resolve rule)
        (ex \<or> cs_extended rule)) (cset_linear c)) \<or>
     asn_holds s F c nr \<or>
     (\<not> ip_index_is_empty (cset_ips c) \<and>
        (ips_hold (ee_ext env) s F c nr FamV4 \<or> ips_hold (ee_ext env) s F c nr FamV6))"
proof -
  have "lookup_first idx ts \<noteq> None \<longleftrightarrow> (\<exists>t\<in>set ts. domain_lookup idx t \<noteq> None)" for idx ts
    by (induction ts) (auto split: option.splits)
  moreover have "set (set_targets c s ex) = names_of s (ex \<or> cset_extended c)"
    unfolding names_of_targets by (auto simp: set_targets_def domain_targets_def)
  ultimately show ?thesis
    by (auto simp: set_holds_def asn_holds_def ips_hold_def list_ex_iff)
qed

lemma compiled_set_truthful:
  "truthful n F (\<lambda>ctx. map_prod sv_verdict id (compiled_set_eval env sets c s ctx nr ex)) (set_holds env truths s F c nr ex)"
proof (rule truthfulI)
  fix ctx assume a: "informed_at n F ctx"
  let ?evs = "linear_evs env sets c s nr ex"
  let ?bs = "map (\<lambda>(i, rule). holds env truths s F (cs_matcher rule) (nr \<or> cs_no_resolve rule) (ex \<or> cs_extended rule))
    (cset_linear c)"
  let ?l = "linear_loop ?evs no_needs ctx"
  have "list_all2 (\<lambda>(i, ev) b. truthful n F ev b \<and> well_behaved s ev) ?evs ?bs"
    using eval_truthful(1) eval_behaved(1) by (auto simp: linear_evs_def list_all2_conv_all_nth split: prod.splits)
  note lin = linear_loop_truthful[OF this a, of no_needs]
  have "phase_behaved s ctx ?l"
    using linear_loop_behaved[OF linear_evs_behaved] by (simp add: needs_ok_def flags_ok_def)
  then have a1: "informed_at n F (snd ?l)" using informed_keeps[OF a] by (simp add: phase_behaved_def)
  have a2: "informed_at n F (snd (asn_phase c s nr nd (snd ?l)))" for nd
  proof -
    have "keeps ctx0 (snd (asn_phase c s nr nd ctx0))" for ctx0
      using keeps_ctx_asn[of ctx0]
      by (auto simp: asn_phase_def split: sum.splits geo_result.splits option.splits prod.splits) (metis snd_conv)+
    then show ?thesis using informed_keeps[OF a1] by blast
  qed
  let ?r = "sv_verdict (fst (compiled_set_eval env sets c s ctx nr ex))"
  have "set_holds env truths s F c nr ex" if "?r = Match"
    using that unfolding compiled_set_verdict(1)
  proof (elim disjE exE conjE)
    assume "(if index_is_empty (cset_domains c) then None else lookup_first (cset_domains c) (set_targets c s ex)) \<noteq> None"
    then show ?thesis unfolding set_holds_parts by (simp split: if_splits)
  next
    fix i assume "fst ?l = Inl i"
    from lin(1)[OF this] show ?thesis unfolding set_holds_parts by blast
  next
    fix nd i assume "fst (asn_phase c s nr nd (snd ?l)) = Inl i"
    from asn_phase_true(1)[OF a1 this] show ?thesis unfolding set_holds_parts by blast
  next
    fix nd nd' i assume "ip_phase (ee_ext env) c s (snd (asn_phase c s nr nd (snd ?l))) nr nd' = Inl i"
    from ip_phase_true(1)[OF a2 this] show ?thesis unfolding set_holds_parts by blast
  qed
  moreover have "\<not> set_holds env truths s F c nr ex" if r: "?r = NoMatch"
  proof -
    from r obtain nd nd' where *: "fst ?l = Inr nd" "fst (asn_phase c s nr nd (snd ?l)) = Inr nd'"
      "ip_phase (ee_ext env) c s (snd (asn_phase c s nr nd (snd ?l))) nr nd' = Inr no_needs"
      and named: "(if index_is_empty (cset_domains c) then None else lookup_first (cset_domains c) (set_targets c s ex)) = None"
      unfolding compiled_set_verdict(2) by blast
    note ip = ip_phase_true(2)[OF a2 *(3)]
    with * have asn: "nd = no_needs \<and> \<not> asn_holds s F c nr" using asn_phase_true(2)[OF a1] by simp
    have "\<not> list_ex id ?bs" using lin(2) *(1) asn by simp
    then show ?thesis using ip asn named unfolding set_holds_parts by (auto split: if_splits)
  qed
  ultimately show "(fst (map_prod sv_verdict id (compiled_set_eval env sets c s ctx nr ex)) = Match \<longrightarrow>
      set_holds env truths s F c nr ex) \<and>
    (fst (map_prod sv_verdict id (compiled_set_eval env sets c s ctx nr ex)) = NoMatch \<longrightarrow>
      \<not> set_holds env truths s F c nr ex)" by simp
qed

end

lemma set_calls_truth: "set_truth (set_calls env set_bottom store n) s F (sets_hold env store s F n) n"
proof (induction n)
  case 0
  show ?case using nested.set_contract_axioms[of env store 0] by (simp add: set_truth_def set_truth_axioms_def)
next
  case (Suc n)
  from set_truth.compiled_set_truthful[OF this] show ?case
    using nested.set_contract_axioms[of env store "Suc n"]
    by (simp add: set_truth_def set_truth_axioms_def as_eval_def)
qed

interpretation meant: set_truth "set_calls env set_bottom store MAX_NESTING" s F "sets_hold env store s F MAX_NESTING" MAX_NESTING
  for env store s F
  by (rule set_calls_truth)

section \<open>Verdicts that do not depend on the caches\<close>

text \<open>Two contexts that know the same: they may differ in caches, notes and the hit found last.\<close>

definition alike :: "eval_ctx \<Rightarrow> eval_ctx \<Rightarrow> bool" where
  "alike ctx ctx' \<longleftrightarrow>
     coherent ctx \<and> coherent ctx' \<and> ec_geo ctx' = ec_geo ctx \<and> ec_network ctx' = ec_network ctx \<and>
     ec_resolved ctx' = ec_resolved ctx \<and> ec_process ctx' = ec_process ctx \<and>
     ec_before_connection ctx' = ec_before_connection ctx \<and> ec_set_depth ctx' = ec_set_depth ctx"

definition steady :: "(eval_ctx \<Rightarrow> verdict \<times> eval_ctx) \<Rightarrow> bool" where
  "steady ev \<longleftrightarrow> (\<forall>ctx ctx'. alike ctx ctx' \<longrightarrow> fst (ev ctx') = fst (ev ctx))"

lemma alike_keeps: "alike a b \<Longrightarrow> keeps a a' \<Longrightarrow> keeps b b' \<Longrightarrow> alike a' b'"
  by (auto simp: alike_def keeps_def)

lemma alike_sub_hit [simp]:
  "alike (a\<lparr>ec_sub_hit := h\<rparr>) b \<longleftrightarrow> alike a b" "alike a (b\<lparr>ec_sub_hit := h\<rparr>) \<longleftrightarrow> alike a b"
  by (simp_all add: alike_def)

lemma loops_steady:
  assumes "\<forall>ev\<in>set evs. steady ev \<and> well_behaved s ev" "alike ctx ctx'"
  shows "fst (and_loop evs nc np nr ctx') = fst (and_loop evs nc np nr ctx) \<and>
    fst (or_loop evs nc np nr ctx') = fst (or_loop evs nc np nr ctx)"
  using assms
proof (induction evs arbitrary: nc np nr ctx ctx')
  case (Cons ev evs)
  obtain v c v' c' where e: "ev ctx = (v, c)" "ev ctx' = (v', c')" by fastforce
  have wb: "steady ev" "well_behaved s ev" using Cons.prems(1) by auto
  have "v' = v" using wb(1) Cons.prems(2) e unfolding steady_def by (metis fst_conv)
  moreover have "alike c c'"
    using alike_keeps[OF Cons.prems(2) well_behavedD(1)[OF wb(2) e(1)] well_behavedD(1)[OF wb(2) e(2)]] .
  ultimately show ?case using Cons.IH[of c c'] Cons.prems(1) e by auto
qed simp

lemma in_branches_steady: "steady ev \<Longrightarrow> steady (in_branches ev)"
proof -
  assume f: "steady ev"
  have e: "fst (in_branches ev ctx) = fst (ev (ctx\<lparr>ec_sub_hit := None\<rparr>))" for ctx
    by (simp add: in_branches_def Let_def split: prod.splits)
  have "fst (ev (ctx'\<lparr>ec_sub_hit := None\<rparr>)) = fst (ev (ctx\<lparr>ec_sub_hit := None\<rparr>))" if "alike ctx ctx'" for ctx ctx'
    using f that alike_sub_hit unfolding steady_def by blast
  then show "steady (in_branches ev)" unfolding steady_def e by blast
qed

lemma not_arm_steady: "steady ev \<Longrightarrow> steady (not_arm ev)"
proof -
  assume f: "steady ev"
  have "fst (ev (ctx'\<lparr>ec_sub_hit := None\<rparr>)) = fst (ev (ctx\<lparr>ec_sub_hit := None\<rparr>))" if "alike ctx ctx'" for ctx ctx'
    using f that alike_sub_hit unfolding steady_def by blast
  then show "steady (not_arm ev)" unfolding steady_def fst_not_arm by metis
qed

lemma linear_loop_steady:
  assumes "\<forall>(i, ev)\<in>set evs. steady ev \<and> well_behaved s ev" "alike ctx ctx'"
  shows "fst (linear_loop evs nd ctx') = fst (linear_loop evs nd ctx) \<and>
    alike (snd (linear_loop evs nd ctx)) (snd (linear_loop evs nd ctx'))"
  using assms
proof (induction evs arbitrary: nd ctx ctx')
  case (Cons p evs)
  obtain i ev where p: "p = (i, ev)" by (cases p)
  obtain nc np nr where nd: "nd = (nc, np, nr)" by (cases nd) auto
  obtain v c v' c' where e: "ev ctx = (v, c)" "ev ctx' = (v', c')" by fastforce
  have wb: "steady ev" "well_behaved s ev" using Cons.prems(1) p by auto
  have "v' = v" using wb(1) Cons.prems(2) e unfolding steady_def by (metis fst_conv)
  moreover have "alike c c'"
    using alike_keeps[OF Cons.prems(2) well_behavedD(1)[OF wb(2) e(1)] well_behavedD(1)[OF wb(2) e(2)]] .
  ultimately show ?case using Cons.IH[of c c'] Cons.prems(1) e p nd by auto
qed simp

lemma target_ip_alike:
  assumes "alike ctx ctx'"
  shows "target_ip s ctx' nr fam = target_ip s ctx nr fam"
proof -
  have same: "ec_before_connection ctx' = ec_before_connection ctx" "ec_resolved ctx' = ec_resolved ctx"
    using assms by (simp_all add: alike_def)
  show ?thesis unfolding target_ip_address same ..
qed

lemma geo_alike:
  assumes "alike ctx ctx'"
  shows "fst (ctx_country ip ctx') = fst (ctx_country ip ctx)" "fst (ctx_asn ip ctx') = fst (ctx_asn ip ctx)"
  using assms by (simp_all add: alike_def ctx_geo_coherent)

lemma by_ip_steady:
  "(\<And>ctx ctx' ip. alike ctx ctx' \<Longrightarrow> fst (test ip ctx') = fst (test ip ctx)) \<Longrightarrow> steady (\<lambda>ctx. by_ip test s ctx nr fam)"
  by (simp add: steady_def by_ip_def target_ip_alike case_prod_beta split: sum.split)

lemma pure_steady:
  "(\<And>ctx ctx'. alike ctx ctx' \<Longrightarrow> f ctx' = f ctx) \<Longrightarrow> steady (\<lambda>ctx. (verdict_of (f ctx), ctx))"
  by (simp add: steady_def)

lemma leaf_arm_steady: "steady (\<lambda>ctx. leaf_arm env s m ctx nr ex)"
proof -
  have "steady (\<lambda>ctx. eval_leaf env m s ctx nr ex)"
  proof (cases m)
    case (MProcessName pp)
    then show ?thesis by (auto simp: eval_leaf_def steady_def alike_def split: option.splits process_state.splits)
  next
    case (MSubnet e)
    then show ?thesis by (auto simp: eval_leaf_def steady_def alike_def)
  qed (auto simp: eval_leaf_def geo_alike steady_def[of "\<lambda>ctx. (Match, _ ctx)"] steady_def[of "\<lambda>ctx. (NoMatch, _ ctx)"]
      steady_def[of "\<lambda>ctx. (NoMatch, ctx)"] steady_def[of "\<lambda>ctx. (Match, ctx)"] intro!: pure_steady by_ip_steady)
  moreover have "ec_before_connection ctx' = ec_before_connection ctx" if "alike ctx ctx'" for ctx ctx'
    using that by (simp add: alike_def)
  ultimately have "fst (leaf_arm env s m ctx' nr ex) = fst (leaf_arm env s m ctx nr ex)" if "alike ctx ctx'" for ctx ctx'
    using that unfolding leaf_arm_def before_connection_def steady_def by simp
  then show ?thesis by (simp add: steady_def)
qed

locale set_steady = set_contract sets for sets :: "set_handle \<Rightarrow> set_match" +
  fixes s :: session_info
  assumes steady_set: "steady (as_eval (sets h) s nr ex)"
begin

lemma eval_set_steady: "steady (\<lambda>ctx. eval_set (sets h) s ctx nr ex)"
proof -
  have "fst (eval_set (sets h) s ctx' nr ex) = fst (eval_set (sets h) s ctx nr ex)" if a: "alike ctx ctx'" for ctx ctx'
  proof -
    let ?c = "ctx\<lparr>ec_set_depth := ec_set_depth ctx + 1\<rparr>" and ?c' = "ctx'\<lparr>ec_set_depth := ec_set_depth ctx' + 1\<rparr>"
    have "alike ?c ?c'" "ec_set_depth ctx' = ec_set_depth ctx" using a by (simp_all add: alike_def)
    then show ?thesis
      using steady_set[of h nr ex] by (simp add: eval_set_def Let_def steady_def as_eval_def case_prod_beta)
  qed
  then show ?thesis by (simp add: steady_def)
qed

lemma eval_steady:
  "steady (\<lambda>ctx. eval env sets s m ctx nr ex)"
  "steady (eval_sub env sets s sub)"
proof (induction m and sub arbitrary: nr ex and)
  case (MAnd subs)
  have "\<forall>ev\<in>set (map (eval_sub env sets s) subs). steady ev \<and> well_behaved s ev" using MAnd eval_behaved(2) by auto
  from loops_steady[OF this] have "steady (and_loop (map (eval_sub env sets s) subs) False False False)"
    by (simp add: steady_def)
  from in_branches_steady[OF this] show ?case by simp
next
  case (MOr subs)
  have "\<forall>ev\<in>set (map (eval_sub env sets s) subs). steady ev \<and> well_behaved s ev" using MOr eval_behaved(2) by auto
  from loops_steady[OF this] have "steady (or_loop (map (eval_sub env sets s) subs) False False False)"
    by (simp add: steady_def)
  from in_branches_steady[OF this] show ?case by simp
next
  case (MNot sub)
  then show ?case using not_arm_steady by simp
qed (simp_all add: eval_set_steady leaf_arm_steady)

lemma compiled_set_steady: "steady (\<lambda>ctx. map_prod sv_verdict id (compiled_set_eval env sets c s ctx nr ex))"
proof -
  have "sv_verdict (fst (compiled_set_eval env sets c s ctx' nr ex)) = sv_verdict (fst (compiled_set_eval env sets c s ctx nr ex))"
    if a: "alike ctx ctx'" for ctx ctx'
  proof -
    have "\<forall>(i, ev)\<in>set (linear_evs env sets c s nr ex). steady ev \<and> well_behaved s ev"
      using eval_steady(1) eval_behaved(1) by (auto simp: linear_evs_def)
    note lin = linear_loop_steady[OF this a, of no_needs]
    have asn: "fst (asn_phase c s nr nd b) = fst (asn_phase c s nr nd a) \<and>
        alike (snd (asn_phase c s nr nd a)) (snd (asn_phase c s nr nd b))" if "alike a b" for a b nd
    proof -
      have "keeps ctx0 (snd (asn_phase c s nr nd ctx0))" for ctx0
        using keeps_ctx_asn[of ctx0]
        by (auto simp: asn_phase_def split: sum.splits geo_result.splits option.splits prod.splits) (metis snd_conv)+
      moreover have "fst (asn_phase c s nr nd b) = fst (asn_phase c s nr nd a)"
        using geo_alike(2)[OF that]
        by (auto simp: asn_phase_def target_ip_alike[OF that] split: sum.splits geo_result.splits option.splits prod.splits)
           (metis fst_conv geo_result.inject geo_result.distinct option.inject option.distinct(1) sum.inject)+
      ultimately show ?thesis using alike_keeps[OF that] by blast
    qed
    have ip: "ip_phase x c s b nr nd = ip_phase x c s a nr nd" if "alike a b" for x a b nd
    proof -
      have "ip_family x c s b nr fam nd = ip_family x c s a nr fam nd" for fam nd
        by (simp add: ip_family_def target_ip_alike[OF that])
      then show ?thesis by (cases "ip_family x c s a nr FamV4 nd") (simp_all add: ip_phase_def)
    qed
    let ?e = "\<lambda>ctx. compiled_set_eval env sets c s ctx nr ex"
    define named where "named = (if index_is_empty (cset_domains c) then None
      else lookup_first (cset_domains c) (set_targets c s ex))"
    note e = compiled_set_eval_def[of env sets c s _ nr ex, folded named_def]
    obtain r a b where l: "linear_loop (linear_evs env sets c s nr ex) no_needs ctx = (r, a)"
      "linear_loop (linear_evs env sets c s nr ex) no_needs ctx' = (r, b)" and ab: "alike a b"
      using lin by (metis prod.collapse)
    have l': "linear_loop (linear_evs env sets c s nr ex) (False, False, False) ctx = (r, a)"
      "linear_loop (linear_evs env sets c s nr ex) (False, False, False) ctx' = (r, b)"
      using l by simp_all
    show ?thesis
    proof (cases "named = None \<and> (\<exists>nd. r = Inr nd)")
      case False
      then consider h where "named = Some h" | i where "named = None" "r = Inl i" by (cases named; cases r) blast+
      then show ?thesis by cases (simp_all add: e l')
    next
      case True
      then obtain nd where nd: "named = None" "r = Inr nd" by blast
      obtain r2 a2 b2 where p: "asn_phase c s nr nd a = (r2, a2)" "asn_phase c s nr nd b = (r2, b2)" and ab2: "alike a2 b2"
        using asn[OF ab, of nd] by (metis prod.collapse)
      show ?thesis
      proof (cases r2)
        case (Inl i)
        then show ?thesis by (simp add: e l' nd p)
      next
        case (Inr nd')
        then show ?thesis using ip[OF ab2, of "ee_ext env" nd']
          by (cases "ip_phase (ee_ext env) c s a2 nr nd'") (simp_all add: e l' nd p)
      qed
    qed
  qed
  then show ?thesis by (simp add: steady_def)
qed

end

lemma set_calls_steady: "set_steady (set_calls env set_bottom store n) s"
proof (induction n)
  case 0
  have "steady (as_eval (set_bottom h) s nr ex)" for h nr ex by (simp add: steady_def as_eval_def set_bottom_def)
  then show ?case using set_bottom_contract by (simp add: set_steady_def set_steady_axioms_def)
next
  case (Suc n)
  from set_steady.compiled_set_steady[OF this] show ?case
    using nested.set_contract_axioms[of env store "Suc n"]
    by (simp add: set_steady_def set_steady_axioms_def as_eval_def)
qed

interpretation unchanging: set_steady "set_calls env set_bottom store MAX_NESTING" s for env store s
  by (rule set_calls_steady)

section \<open>Verdicts of a rule\<close>

lemma verdict_steady:
  "alike ctx ctx' \<Longrightarrow> fst (matcher_eval env store s m ctx' nr ex) = fst (matcher_eval env store s m ctx nr ex)"
proof -
  have "steady (\<lambda>ctx. matcher_eval env store s m ctx nr ex)"
    unfolding matcher_eval_def by (rule unchanging.eval_steady(1))
  then show "alike ctx ctx' \<Longrightarrow> fst (matcher_eval env store s m ctx' nr ex) = fst (matcher_eval env store s m ctx nr ex)"
    by (simp add: steady_def)
qed

lemma verdict_true:
  assumes "informed F ctx" "ec_set_depth ctx = 0"
  shows "fst (matcher_eval env store s m ctx nr ex) = Match \<Longrightarrow> rule_holds env store s F m nr ex"
    and "fst (matcher_eval env store s m ctx nr ex) = NoMatch \<Longrightarrow> \<not> rule_holds env store s F m nr ex"
proof -
  have "truthful MAX_NESTING F (\<lambda>ctx. matcher_eval env store s m ctx nr ex) (rule_holds env store s F m nr ex)"
    unfolding matcher_eval_def rule_holds_def by (rule meant.eval_truthful(1))
  then show "fst (matcher_eval env store s m ctx nr ex) = Match \<Longrightarrow> rule_holds env store s F m nr ex"
    "fst (matcher_eval env store s m ctx nr ex) = NoMatch \<Longrightarrow> \<not> rule_holds env store s F m nr ex"
    using assms by (simp_all add: truthful_def)
qed


text \<open>\<open>OR,((DEST-PORT,80),(NOT,((DOMAIN-SUFFIX,com))))\<close>\<close>

definition ads_rule :: matcher where
  "ads_rule = MOr [CompiledSub (MDestPort (PSingle 80)) False False '''',
     CompiledSub (MNot (CompiledSub (MDomainSuffix ''com'') False False '''')) False False '''']"

definition known_facts :: facts where
  "known_facts = \<lparr>fa_process = None, fa_now = None, fa_later = \<lparr>ra_v4 = [], ra_v6 = []\<rparr>, fa_geo = no_geo, fa_network = None\<rparr>"


end
