(* ===== verification/Rurge_Engine_Run.thy ===== *)
theory Rurge_Engine_Run
  imports Rurge_Engine_Facts Rurge_Truth
begin

text \<open>
  What \<open>run\<close> of \<^verbatim>\<open>engine.rs\<close> decides, in terms of what the rules mean: the first rule that holds. The
  evaluation finds out about the process and the addresses on its way, so what a rule is judged by
  depends on where in the table the name was looked up; that position is part of the statement.
\<close>

section \<open>What a run knows\<close>

definition facts_of :: "rule_engine \<Rightarrow> lazy_process \<Rightarrow> resolved_addrs option \<Rightarrow> resolved_addrs \<Rightarrow> facts" where
  "facts_of e process now later =
     \<lparr>fa_process = process, fa_now = now, fa_later = later, fa_geo = eng_geo e,
      fa_network = Some (eng_network e, eng_wifi_always_match e)\<rparr>"

text \<open>Whether the rule at a position holds, once these addresses are known and whatever a look-up would give.\<close>

definition rule_true :: "eval_env \<Rightarrow> set_store \<Rightarrow> rule_engine \<Rightarrow> session_info \<Rightarrow> lazy_process \<Rightarrow>
    resolved_addrs option \<Rightarrow> resolved_addrs \<Rightarrow> nat \<Rightarrow> bool" where
  "rule_true env store e s process now later i =
     rule_holds env store s (facts_of e process now later) (cr_matcher (eng_rules e ! i))
       (rp_no_resolve (cr_params (eng_rules e ! i))) (rp_extended_matching (cr_params (eng_rules e ! i)))"

text \<open>The verdict on the rule at a position of one who knows just this of the process and the addresses.\<close>

definition knowing :: "rule_engine \<Rightarrow> process_state \<Rightarrow> resolved_addrs option \<Rightarrow> eval_ctx" where
  "knowing e pr now =
     (with_network (eng_geo e) (eng_network e) (eng_wifi_always_match e))\<lparr>ec_process := pr, ec_resolved := now\<rparr>"

definition says :: "eval_env \<Rightarrow> set_store \<Rightarrow> rule_engine \<Rightarrow> session_info \<Rightarrow> process_state \<Rightarrow>
    resolved_addrs option \<Rightarrow> nat \<Rightarrow> verdict" where
  "says env store e s pr now i =
     fst (matcher_eval env store s (cr_matcher (eng_rules e ! i)) (knowing e pr now)
       (rp_no_resolve (cr_params (eng_rules e ! i))) (rp_extended_matching (cr_params (eng_rules e ! i))))"

text \<open>The context of a run in progress.\<close>

definition knows :: "rule_engine \<Rightarrow> lazy_process \<Rightarrow> run_state \<Rightarrow> bool" where
  "knows e process st \<longleftrightarrow>
     coherent (rs_ctx st) \<and> ec_geo (rs_ctx st) = eng_geo e \<and>
     ec_network (rs_ctx st) = Some (eng_network e, eng_wifi_always_match e) \<and>
     \<not> ec_before_connection (rs_ctx st) \<and> ec_set_depth (rs_ctx st) = 0 \<and>
     (ec_process (rs_ctx st) = NotAsked \<or> ec_process (rs_ctx st) = Asked process)"

lemma coherent_more [simp]:
  "coherent (c\<lparr>ec_process := p\<rparr>) \<longleftrightarrow> coherent c" "coherent (c\<lparr>ec_resolved := r\<rparr>) \<longleftrightarrow> coherent c"
  "coherent (c\<lparr>ec_notes := ns\<rparr>) \<longleftrightarrow> coherent c"
  by (simp_all add: coherent_def)

lemma coherent_start [simp]: "coherent (with_network geo net always)"
  by (simp add: coherent_def with_network_def eval_ctx_new_def)

lemma knows_keeps: "knows e process st \<Longrightarrow> keeps (rs_ctx st) ctx \<Longrightarrow> knows e process (st\<lparr>rs_ctx := ctx\<rparr>)"
  by (auto simp: knows_def keeps_def)

lemma knows_updates [simp]:
  "knows e process (st\<lparr>rs_ctx := ctx\<lparr>ec_sub_hit := h\<rparr>\<rparr>) \<longleftrightarrow> knows e process (st\<lparr>rs_ctx := ctx\<rparr>)"
  "knows e process (st\<lparr>rs_asked := as\<rparr>) \<longleftrightarrow> knows e process st"
  "knows e process (st\<lparr>rs_engine := e'\<rparr>) \<longleftrightarrow> knows e process st"
  "knows e process (st\<lparr>rs_notes := ns\<rparr>) \<longleftrightarrow> knows e process st"
  "knows e process (push_trace i v st) \<longleftrightarrow> knows e process st"
  by (simp_all add: knows_def push_trace_def)

lemma knows_collect [simp]: "knows e process (collect_notes pos st) \<longleftrightarrow> knows e process st"
  by (simp add: knows_def collect_notes_ctx)

lemma knows_process: "knows e process st \<Longrightarrow> knows e process (ask_process process st)"
  by (simp add: knows_def ask_process_def)

lemma knows_resolved:
  "knows e process st \<Longrightarrow> knows e process (st\<lparr>rs_asked := as, rs_ctx := (rs_ctx st)\<lparr>ec_resolved := now\<rparr>\<rparr>)"
  by (simp add: knows_def)

lemma knows_start: "knows e process (run_start e)"
  by (simp add: knows_def run_start_def) (simp add: with_network_def eval_ctx_new_def)

lemma knows_alike: "knows e process st \<Longrightarrow> alike (rs_ctx st) (knowing e (ec_process (rs_ctx st)) (ec_resolved (rs_ctx st)))"
  by (simp add: alike_def knows_def knowing_def) (simp add: with_network_def eval_ctx_new_def)

lemma knows_informed: "knows e process st \<Longrightarrow> informed (facts_of e process (ec_resolved (rs_ctx st)) later) (rs_ctx st)"
  by (simp add: informed_def knows_def facts_of_def)

text \<open>One evaluation of the rule of a position.\<close>

definition rule_at :: "rule_engine \<Rightarrow> nat \<Rightarrow> compiled_rule \<Rightarrow> bool" where
  "rule_at e i rule \<longleftrightarrow> cr_matcher rule = cr_matcher (eng_rules e ! i) \<and> cr_params rule = cr_params (eng_rules e ! i)"

definition truly :: "eval_env \<Rightarrow> set_store \<Rightarrow> rule_engine \<Rightarrow> session_info \<Rightarrow> lazy_process \<Rightarrow>
    resolved_addrs option \<Rightarrow> nat \<Rightarrow> verdict \<Rightarrow> bool" where
  "truly env store e s process now i v \<longleftrightarrow>
     (v = Match \<longrightarrow> (\<forall>later. rule_true env store e s process now later i)) \<and>
     (v = NoMatch \<longrightarrow> (\<forall>later. \<not> rule_true env store e s process now later i))"

lemma eval_in_run_knows:
  assumes "knows e process st" "rule_at e i rule" "eval_in_run env store s rule st = (v, st')"
  shows "knows e process st'" "ec_process (rs_ctx st') = ec_process (rs_ctx st)"
    "ec_resolved (rs_ctx st') = ec_resolved (rs_ctx st)"
    "v = says env store e s (ec_process (rs_ctx st)) (ec_resolved (rs_ctx st)) i"
    "truly env store e s process (ec_resolved (rs_ctx st)) i v"
    "v \<noteq> NeedsConnection" "v = NeedsProcess \<Longrightarrow> s_process s = None \<and> ec_process (rs_ctx st) = NotAsked"
    "v = NeedsResolve \<Longrightarrow> ec_resolved (rs_ctx st) = None"
proof -
  obtain ctx where c: "eval_rule env store rule s (rs_ctx st) = (v, ctx)" and st': "st' = st\<lparr>rs_ctx := ctx\<rparr>"
    using assms(3) by (auto simp: eval_in_run_def split: prod.splits)
  note k = eval_rule_contract[OF c]
  have ev: "fst (matcher_eval env store s (cr_matcher (eng_rules e ! i)) (rs_ctx st)
      (rp_no_resolve (cr_params (eng_rules e ! i))) (rp_extended_matching (cr_params (eng_rules e ! i)))) = v"
    using c assms(2) by (simp add: eval_rule_def rule_at_def)
  show "knows e process st'" unfolding st' by (rule knows_keeps[OF assms(1) k(1)])
  show "ec_process (rs_ctx st') = ec_process (rs_ctx st)" "ec_resolved (rs_ctx st') = ec_resolved (rs_ctx st)"
    using k(1) by (simp_all add: st' keeps_def)
  show "v = says env store e s (ec_process (rs_ctx st)) (ec_resolved (rs_ctx st)) i"
    unfolding says_def verdict_steady[OF knows_alike[OF assms(1)]] by (rule ev[symmetric])
  have "ec_set_depth (rs_ctx st) = 0" using assms(1) by (simp add: knows_def)
  note t = verdict_true[OF knows_informed[OF assms(1)] this]
  show "truly env store e s process (ec_resolved (rs_ctx st)) i v"
    unfolding truly_def rule_true_def using t ev by blast
  show "v \<noteq> NeedsConnection" "v = NeedsProcess \<Longrightarrow> s_process s = None \<and> ec_process (rs_ctx st) = NotAsked"
    "v = NeedsResolve \<Longrightarrow> ec_resolved (rs_ctx st) = None"
    using k(2) assms(1) by (auto simp: answerable_def knows_def)
qed

text \<open>The verdict of the loop on a rule, with the questions it asks.\<close>

definition asks_addresses :: "eval_env \<Rightarrow> set_store \<Rightarrow> rule_engine \<Rightarrow> session_info \<Rightarrow> lazy_process \<Rightarrow> nat \<Rightarrow> bool" where
  "asks_addresses env store e s process i \<longleftrightarrow>
     (\<exists>pr\<in>{NotAsked, Asked process}. says env store e s pr None i = NeedsResolve)"

lemma needing_process_knows:
  assumes "knows e process st" "rule_at e i rule"
    "needing_process env store process s rule (eval_in_run env store s rule st) = (v, st')"
  shows "knows e process st'" "ec_resolved (rs_ctx st') = ec_resolved (rs_ctx st)"
    "v = says env store e s (ec_process (rs_ctx st')) (ec_resolved (rs_ctx st)) i"
    "truly env store e s process (ec_resolved (rs_ctx st)) i v"
    "v \<in> {Match, NoMatch, NeedsResolve}" "v = NeedsResolve \<Longrightarrow> ec_resolved (rs_ctx st) = None"
proof -
  obtain v1 st1 where e1: "eval_in_run env store s rule st = (v1, st1)" by fastforce
  note f1 = eval_in_run_knows[OF assms(1,2) e1]
  have "knows e process st' \<and> ec_resolved (rs_ctx st') = ec_resolved (rs_ctx st) \<and>
    v = says env store e s (ec_process (rs_ctx st')) (ec_resolved (rs_ctx st)) i \<and>
    truly env store e s process (ec_resolved (rs_ctx st)) i v \<and> v \<in> {Match, NoMatch, NeedsResolve} \<and>
    (v = NeedsResolve \<longrightarrow> ec_resolved (rs_ctx st) = None)"
  proof (cases "v1 = NeedsProcess")
    case True
    have e2: "eval_in_run env store s rule (ask_process process st1) = (v, st')"
      using assms(3) e1 True by (simp add: needing_process_def)
    note f2 = eval_in_run_knows[OF knows_process[OF f1(1)] assms(2) e2]
    have "v \<noteq> NeedsProcess" using f2(7) by (auto simp: ask_process_def)
    moreover have "ec_resolved (rs_ctx (ask_process process st1)) = ec_resolved (rs_ctx st)"
      using f1(3) by (simp add: ask_process_def)
    moreover have "v \<in> {Match, NoMatch, NeedsResolve}" using f2(6) calculation(1) by (cases v) simp_all
    ultimately show ?thesis using f2(1,2,3,4,5,8) by simp
  next
    case False
    then have "v = v1" "st' = st1" using assms(3) e1 by (simp_all add: needing_process_def)
    moreover have "v \<in> {Match, NoMatch, NeedsResolve}" using f1(6) False calculation(1) by (cases v) simp_all
    ultimately show ?thesis using f1(1,2,3,4,5,8) by simp
  qed
  then show "knows e process st'" "ec_resolved (rs_ctx st') = ec_resolved (rs_ctx st)"
    "v = says env store e s (ec_process (rs_ctx st')) (ec_resolved (rs_ctx st)) i"
    "truly env store e s process (ec_resolved (rs_ctx st)) i v"
    "v \<in> {Match, NoMatch, NeedsResolve}" "v = NeedsResolve \<Longrightarrow> ec_resolved (rs_ctx st) = None" by auto
qed

lemma rule_verdict_knows:
  assumes "knows e process st" "rule_at e i rule"
    "rule_verdict env store resolver process s rule st = (r, st')"
  shows "r = Inr v \<Longrightarrow> knows e process st' \<and> truly env store e s process (ec_resolved (rs_ctx st')) i v \<and>
      (ec_resolved (rs_ctx st') = ec_resolved (rs_ctx st) \<and> v \<in> {Match, NoMatch} \<or>
       ec_resolved (rs_ctx st) = None \<and> asks_addresses env store e s process i \<and>
       (\<exists>a. resolver (dst_name s) = Inr a \<and> ec_resolved (rs_ctx st') = Some a) \<and>
       (v \<in> {Match, NoMatch} \<or> v = NeedsProcess \<and> s_process s = None \<and>
          says env store e s NotAsked (ec_resolved (rs_ctx st')) i = NeedsProcess))" (is "_ \<Longrightarrow> ?good v")
    and "r = Inl err \<Longrightarrow> ec_resolved (rs_ctx st) = None \<and> asks_addresses env store e s process i \<and>
      resolver (dst_name s) = Inl err" (is "_ \<Longrightarrow> ?bad")
proof -
  let ?st0 = "st\<lparr>rs_ctx := (rs_ctx st)\<lparr>ec_sub_hit := None\<rparr>\<rparr>"
  have k0: "knows e process ?st0" "ec_resolved (rs_ctx ?st0) = ec_resolved (rs_ctx st)" using assms(1) by simp_all
  obtain v2 st2 where e2: "needing_process env store process s rule (eval_in_run env store s rule ?st0) = (v2, st2)" by fastforce
  note f2 = needing_process_knows[OF k0(1) assms(2) e2, unfolded k0(2)]
  have r: "needing_resolve env store resolver s rule (v2, st2) = (r, st')" using assms(3) e2 by (simp add: rule_verdict_def)
  have "(\<forall>v. r = Inr v \<longrightarrow> ?good v) \<and> (\<forall>err. r = Inl err \<longrightarrow> ec_resolved (rs_ctx st) = None \<and>
      asks_addresses env store e s process i \<and> resolver (dst_name s) = Inl err)"
  proof (cases "v2 = NeedsResolve")
    case False
    then have "r = Inr v2" "st' = st2" using r by (auto simp: needing_resolve_def)
    then show ?thesis using f2(1,2,4,5) False by auto
  next
    case True
    have none: "ec_resolved (rs_ctx st) = None" by (rule f2(6)[OF True])
    have "ec_process (rs_ctx st2) \<in> {NotAsked, Asked process}" using f2(1) by (auto simp: knows_def)
    then have asks: "asks_addresses env store e s process i" using f2(3) True none unfolding asks_addresses_def by auto
    show ?thesis
    proof (cases "resolver (dst_name s)")
      case (Inl err)
      then have "r = Inl err" using r True by (auto simp: needing_resolve_def Let_def)
      then show ?thesis using Inl none asks by simp
    next
      case (Inr a)
      let ?st = "st2\<lparr>rs_asked := rs_asked st2 @ [AskResolve (dst_name s)], rs_ctx := (rs_ctx st2)\<lparr>ec_resolved := Some a\<rparr>\<rparr>"
      obtain w st3 where e3: "eval_in_run env store s rule ?st = (w, st3)" by fastforce
      have st3: "r = Inr w" "st' = st3" using r True Inr e3 by (auto simp: needing_resolve_def Let_def)
      note f3 = eval_in_run_knows[OF knows_resolved[OF f2(1)] assms(2) e3]
      have "w \<noteq> NeedsResolve" "ec_resolved (rs_ctx st3) = Some a" using f3(3,8) by auto
      moreover have "s_process s = None \<and> says env store e s NotAsked (Some a) i = NeedsProcess" if "w = NeedsProcess"
        using f3(4,7) that by simp
      moreover have "truly env store e s process (Some a) i w" using f3(5) by simp
      ultimately show ?thesis using f3(1,6) st3 none asks Inr by (cases w) simp_all
    qed
  qed
  then show "r = Inr v \<Longrightarrow> ?good v" "r = Inl err \<Longrightarrow> ?bad" by blast+
qed

lemma rule_verdict_same:
  assumes "rule_verdict env store resolver process s rule st = (r, st')"
  shows "same_run st st'"
proof -
  have e: "same_run a (snd (eval_in_run env store s rule a))" for a
    by (simp add: eval_in_run_def same_run_def split: prod.split)
  have p: "same_run (snd x) (snd (needing_process env store process s rule x))" for x
    using e[of "ask_process process (snd x)"] by (auto simp: needing_process_def same_run_def ask_process_def split: prod.split)
  have r: "same_run (snd x) (snd (needing_resolve env store resolver s rule x))" for x
    using e by (auto simp: needing_resolve_def same_run_def Let_def split: prod.split sum.split)
  let ?st0 = "st\<lparr>rs_ctx := (rs_ctx st)\<lparr>ec_sub_hit := None\<rparr>\<rparr>"
  have "same_run st ?st0" by (simp add: same_run_def)
  then have "same_run st (snd (rule_verdict env store resolver process s rule st))"
    unfolding rule_verdict_def
    by (rule same_run_trans[OF same_run_trans[OF same_run_trans[OF _ e] p] r])
  then show ?thesis using assms by simp
qed

section \<open>The first rule that holds\<close>

text \<open>The addresses rules are judged by when the name was looked up at position \<open>k\<close>.\<close>

definition known :: "lazy_resolver \<Rightarrow> session_info \<Rightarrow> nat \<Rightarrow> nat \<Rightarrow> resolved_addrs option" where
  "known resolver s k i =
     (if k \<le> i then (case resolver (dst_name s) of Inr a \<Rightarrow> Some a | Inl _ \<Rightarrow> None) else None)"

text \<open>
  Why a rule is passed over: it does not hold; or it is the one that the name was looked up for,
  and it needs the process only now that the addresses are there.
\<close>

definition passed_over :: "eval_env \<Rightarrow> set_store \<Rightarrow> rule_engine \<Rightarrow> session_info \<Rightarrow> lazy_resolver \<Rightarrow> lazy_process \<Rightarrow>
    nat \<Rightarrow> nat \<Rightarrow> bool" where
  "passed_over env store e s resolver process k i \<longleftrightarrow>
     (\<forall>later. \<not> rule_true env store e s process (known resolver s k i) later i) \<or>
     (i = k \<and> s_process s = None \<and> says env store e s NotAsked (known resolver s k i) i = NeedsProcess)"

definition last_verdict :: "run_state \<Rightarrow> string" where
  "last_verdict st = ts_verdict (last (rs_trace st))"

definition comes_first :: "eval_env \<Rightarrow> set_store \<Rightarrow> rule_engine \<Rightarrow> session_info \<Rightarrow> lazy_resolver \<Rightarrow> lazy_process \<Rightarrow>
    nat \<Rightarrow> nat \<Rightarrow> decision \<times> run_state \<Rightarrow> bool" where
  "comes_first env store e s resolver process k j r \<longleftrightarrow>
     last_verdict (snd r) = ''match'' \<and> d_resolved (fst r) = known resolver s k j \<and>
       (\<forall>later. rule_true env store e s process (known resolver s k j) later j) \<or>
     last_verdict (snd r) = ''dns-failed'' \<and> k = j \<and> (\<exists>err. resolver (dst_name s) = Inl err)"

lemma rule_at_same: "same_table e e' \<Longrightarrow> i < length (eng_rules e) \<Longrightarrow> rule_at e i (eng_rules e' ! i)"
  using same_table_nth[of e e' i] by (simp add: rule_at_def)

lemma dns_failed_trace: "rs_trace (snd (dns_failed rule st)) = rs_trace st"
  by (simp add: dns_failed_def Let_def)

lemma run_rules_first:
  assumes "table_ok e" "same_table e (rs_engine st)" "knows e process st"
    "ec_resolved (rs_ctx st) = None \<or> ec_resolved (rs_ctx st) = known resolver s 0 0"
    "k < length (eng_rules e)" "poss = [k..<length (eng_rules e)]"
    "run_rules env store resolver process s poss st = r"
  shows "\<exists>j q. k \<le> j \<and> j < length (eng_rules e) \<and>
     length (rs_trace (snd r)) = length (rs_trace st) + (j - k) + 1 \<and>
     (if ec_resolved (rs_ctx st) = None then k \<le> q \<and> (q \<le> j \<longrightarrow> asks_addresses env store e s process q) else q = 0) \<and>
     (\<forall>i. k \<le> i \<longrightarrow> i < j \<longrightarrow> passed_over env store e s resolver process q i) \<and>
     comes_first env store e s resolver process q j r"
  using assms
proof (induction poss arbitrary: st k)
  case Nil
  have "[k..<length (eng_rules e)] \<noteq> []" using Nil.prems(5) by (auto simp: upt_eq_Nil_conv)
  with Nil.prems(6) show ?case by simp
next
  case (Cons pos poss)
  have pos: "pos = k" "poss = [Suc k..<length (eng_rules e)]"
    using Cons.prems(5,6) by (simp_all add: upt_conv_Cons)
  let ?rule = "eng_rules (rs_engine st) ! k" and ?now = "ec_resolved (rs_ctx st)"
  obtain w st1 where v: "rule_verdict env store resolver process s ?rule st = (w, st1)" by fastforce
  note f = rule_verdict_knows[OF Cons.prems(3) rule_at_same[OF Cons.prems(2,5)] v]
  have eng: "rs_engine st1 = rs_engine st" "rs_trace st1 = rs_trace st"
    using rule_verdict_same[OF v] by (simp_all add: same_run_def)
  have now: "?now = known resolver s 0 i" if "?now \<noteq> None" for i
    using Cons.prems(4) that by (auto simp: known_def)
  show ?case
  proof (cases w)
    case (Inl err)
    let ?st2 = "push_trace (cr_index ?rule) ''dns-failed'' (collect_notes k (st1\<lparr>rs_notes := rs_notes st1 @
        [''DNS lookup for '' @ dst_name s @ '' failed: '' @ resolve_error_text err]\<rparr>))"
    have r: "dns_failed ?rule ?st2 = r" using Cons.prems(7) v Inl pos(1) by (simp add: Let_def)
    have tr: "rs_trace (snd r) = rs_trace st @ [\<lparr>ts_rule = cr_index ?rule, ts_verdict = ''dns-failed''\<rparr>]"
      unfolding r[symmetric] dns_failed_trace using eng(2) by simp
    show ?thesis
      using f(2)[OF Inl] Cons.prems(5) tr
      by (intro exI[of _ k]) (auto simp: comes_first_def last_verdict_def)
  next
    case (Inr verdict)
    let ?st2 = "push_trace (cr_index ?rule) (verdict_name verdict) (collect_notes k st1)"
    let ?now1 = "ec_resolved (rs_ctx st1)"
    note g = f(1)[OF Inr]
    have tr: "rs_trace ?st2 = rs_trace st @ [\<lparr>ts_rule = cr_index ?rule, ts_verdict = verdict_name verdict\<rparr>]"
      using eng(2) by simp
    text \<open>The position that was asked at, as far as it is known by now.\<close>
    define q where "q = (if ?now \<noteq> None then 0 else if ?now1 \<noteq> None then k else Suc k)"
    have q: "?now1 = known resolver s q k" "?now = None \<Longrightarrow> k \<le> q \<and> (q \<le> k \<longrightarrow> asks_addresses env store e s process q)"
      "?now \<noteq> None \<Longrightarrow> q = 0"
      using g now[of k] by (auto simp: q_def known_def)
    show ?thesis
    proof (cases "verdict = Match")
      case True
      let ?st3 = "?st2\<lparr>rs_engine := add_hit k (rs_engine ?st2)\<rparr>"
      have st3: "snd r = ?st3" "d_resolved (fst r) = ?now1"
        using Cons.prems(7) v Inr pos(1) True by (auto simp: Let_def)
      have "comes_first env store e s resolver process q k r"
        using st3 tr True g q(1) by (simp add: comes_first_def last_verdict_def truly_def)
      then show ?thesis
        using Cons.prems(5) st3(1) tr q(2,3) by (intro exI[of _ k] exI[of _ q]) auto
    next
      case False
      have r: "run_rules env store resolver process s poss ?st2 = r" using Cons.prems(7) v Inr pos(1) False by (simp add: Let_def)
      have tab: "same_table e (rs_engine ?st2)" using Cons.prems(2) eng by (simp add: collect_notes_table)
      have kn: "knows e process ?st2" using g by simp
      have now2: "ec_resolved (rs_ctx ?st2) = ?now1" by simp
      have "ec_resolved (rs_ctx ?st2) = None \<or> ec_resolved (rs_ctx ?st2) = known resolver s 0 0"
        using g now[of 0] unfolding now2 by (cases ?now) (auto simp: known_def)
      moreover have "Suc k < length (eng_rules e)"
      proof (rule ccontr)
        assume "\<not> Suc k < length (eng_rules e)"
        then have "k = length (eng_rules e) - 1" using Cons.prems(5) by simp
        then have "eng_rules e ! k = last (eng_rules e)" using Cons.prems(1) by (simp add: table_ok_def last_conv_nth)
        then have "cr_matcher ?rule = MFinal"
          using Cons.prems(1) same_table_nth(2)[OF Cons.prems(2,5)] by (simp add: table_ok_def)
        from final_always_matches[OF this, of env store resolver process s st] v Inr False show False by simp
      qed
      ultimately obtain j q' where j: "Suc k \<le> j" "j < length (eng_rules e)"
          "length (rs_trace (snd r)) = length (rs_trace ?st2) + (j - Suc k) + 1"
          "if ?now1 = None then Suc k \<le> q' \<and> (q' \<le> j \<longrightarrow> asks_addresses env store e s process q') else q' = 0"
          "\<forall>i. Suc k \<le> i \<longrightarrow> i < j \<longrightarrow> passed_over env store e s resolver process q' i"
          "comes_first env store e s resolver process q' j r"
        using Cons.IH[OF Cons.prems(1) tab kn _ _ pos(2) r] unfolding now2 by blast
      define p where "p = (if ?now = None \<and> ?now1 \<noteq> None then k else q')"
      have same: "known resolver s p i = known resolver s q' i" if "Suc k \<le> i" for i
        using that j(4) by (auto simp: p_def known_def)
      have here: "known resolver s p k = ?now1"
        using q(1) j(4) g by (auto simp: p_def q_def known_def split: if_splits)
      have "passed_over env store e s resolver process p k"
        using g False unfolding passed_over_def here truly_def by (auto simp: p_def)
      moreover have "passed_over env store e s resolver process p i" if "Suc k \<le> i" "i < j" for i
        using j(4,5) that unfolding passed_over_def same[OF that(1)] by (auto simp: p_def split: if_splits)
      ultimately have "passed_over env store e s resolver process p i" if "k \<le> i" "i < j" for i
        using that by (cases "i = k") auto
      moreover have "comes_first env store e s resolver process p j r"
        using j(4,6) j(1) g unfolding comes_first_def same[OF j(1)] by (auto simp: p_def split: if_splits)
      moreover have "if ?now = None then k \<le> p \<and> (p \<le> j \<longrightarrow> asks_addresses env store e s process p) else p = 0"
        using j(4) g by (auto simp: p_def split: if_splits)
      moreover have "length (rs_trace (snd r)) = length (rs_trace st) + (j - k) + 1" using j(1,3) tr by simp
      ultimately show ?thesis using j(1,2) by (intro exI[of _ j] exI[of _ p]) auto
    qed
  qed
qed

section \<open>The pre-matching pass\<close>

text \<open>
  A rule that refuses a session ahead of the order: flagged, with a policy of the REJECT family, and
  matched by what is known without asking for anything.
\<close>

definition refuses :: "eval_env \<Rightarrow> set_store \<Rightarrow> rule_engine \<Rightarrow> session_info \<Rightarrow> nat \<Rightarrow> bool" where
  "refuses env store e s i \<longleftrightarrow>
     i < length (eng_rules e) \<and> rp_pre_matching (cr_params (eng_rules e ! i)) \<and>
     is_reject_policy (cr_policy (eng_rules e ! i)) \<and>
     fst (matcher_eval env store s (cr_matcher (eng_rules e ! i)) (knowing e NotAsked None) True
       (rp_extended_matching (cr_params (eng_rules e ! i)))) = Match"

lemma refuses_true:
  assumes "refuses env store e s i"
  shows "rule_holds env store s (facts_of e process None later) (cr_matcher (eng_rules e ! i)) True
    (rp_extended_matching (cr_params (eng_rules e ! i)))"
proof (rule verdict_true(1))
  show "informed (facts_of e process None later) (knowing e NotAsked None)"
    by (simp add: informed_def facts_of_def knowing_def) (simp add: with_network_def eval_ctx_new_def)
  show "ec_set_depth (knowing e NotAsked None) = 0" by (simp add: knowing_def with_network_def eval_ctx_new_def)
qed (use assms in \<open>simp add: refuses_def\<close>)

lemma pre_matches_refuses:
  assumes "alike ctx (knowing e NotAsked None)" "pos < length (eng_rules e)" "rp_pre_matching (cr_params (eng_rules e ! pos))"
  shows "fst (pre_matches env store (eng_rules e ! pos) s ctx) \<longleftrightarrow> refuses env store e s pos"
  unfolding refuses_def verdict_steady[OF assms(1)]
  using assms(2,3) by (auto simp: pre_matches_def is_reject_policy_def case_prod_beta split: policy_ref.splits)

lemma alike_notes: "alike a b \<Longrightarrow> alike (a\<lparr>ec_notes := ns\<rparr>) b"
  by (simp add: alike_def)

lemma alike_keeps_left: "alike a b \<Longrightarrow> keeps a c \<Longrightarrow> alike c b"
  using alike_keeps[of a b c b] by simp

lemma first_pre_loop_least:
  assumes "alike ctx (knowing e NotAsked None)" "sorted_wrt (<) poss"
    "\<forall>p\<in>set poss. p < length (eng_rules e) \<and> rp_pre_matching (cr_params (eng_rules e ! p))"
  shows "case first_pre_loop env store e s poss ctx of
      None \<Rightarrow> \<forall>p\<in>set poss. \<not> refuses env store e s p
    | Some h \<Rightarrow> fst h \<in> set poss \<and> refuses env store e s (fst h) \<and>
        (\<forall>p\<in>set poss. p < fst h \<longrightarrow> \<not> refuses env store e s p)"
  using assms
proof (induction poss arbitrary: ctx)
  case (Cons pos poss)
  let ?c = "ctx\<lparr>ec_sub_hit := None\<rparr>"
  obtain b c where pm: "pre_matches env store (eng_rules e ! pos) s ?c = (b, c)" by fastforce
  have a: "alike ?c (knowing e NotAsked None)" using Cons.prems(1) by simp
  have b: "b \<longleftrightarrow> refuses env store e s pos"
    using pre_matches_refuses[OF a, of pos env store s] Cons.prems(3) pm by simp
  show ?case
  proof (cases b)
    case True
    then show ?thesis using pm b Cons.prems(2) by auto
  next
    case False
    have "alike (c\<lparr>ec_notes := []\<rparr>) (knowing e NotAsked None)"
      using alike_notes[OF alike_keeps_left[OF a pre_matches_keeps[OF pm]]] .
    from Cons.IH[OF this] Cons.prems(2,3) show ?thesis using pm b False by (auto split: option.splits)
  qed
qed simp

lemma first_pre_hit_refuses:
  assumes "engine_ok e"
  shows "case first_pre_hit env store e s Syn of
      None \<Rightarrow> \<forall>p. \<not> refuses env store e s p
    | Some h \<Rightarrow> refuses env store e s (fst h) \<and> (\<forall>p<fst h. \<not> refuses env store e s p)"
proof -
  have pre: "eng_pre e = pre_extract (eng_rules e)" using assms by (simp add: engine_ok_def)
  have "p \<in> set (eng_pre e)" if "refuses env store e s p" for p
    using that by (simp add: pre pre_extract_set refuses_def)
  moreover have "alike ((with_network (eng_geo e) (eng_network e) (eng_wifi_always_match e))\<lparr>ec_before_connection := (Syn = Dns)\<rparr>)
      (knowing e NotAsked None)"
    by (simp add: alike_def knowing_def) (simp add: coherent_def with_network_def eval_ctx_new_def)
  from first_pre_loop_least[OF this, of "eng_pre e" env store s] have "case first_pre_hit env store e s Syn of
      None \<Rightarrow> \<forall>p\<in>set (eng_pre e). \<not> refuses env store e s p
    | Some h \<Rightarrow> fst h \<in> set (eng_pre e) \<and> refuses env store e s (fst h) \<and>
        (\<forall>p\<in>set (eng_pre e). p < fst h \<longrightarrow> \<not> refuses env store e s p)"
    by (simp add: first_pre_hit_def pre sorted_pre_extract pre_extract_set)
  ultimately show ?thesis by (auto split: option.splits)
qed

lemma pre_pass_knows:
  "knows e process st \<Longrightarrow> pre_pass env store s poss st = (None, st') \<Longrightarrow>
   knows e process st' \<and> ec_resolved (rs_ctx st') = ec_resolved (rs_ctx st)"
proof (induction poss arbitrary: st)
  case (Cons pos poss)
  obtain b ctx where pm: "pre_matches env store (eng_rules (rs_engine st) ! pos) s ((rs_ctx st)\<lparr>ec_sub_hit := None\<rparr>) = (b, ctx)"
    by fastforce
  then have "keeps (rs_ctx st) ctx" using pre_matches_keeps[OF pm] by simp
  then have "knows e process (collect_notes pos (st\<lparr>rs_ctx := ctx\<rparr>)) \<and>
      ec_resolved (rs_ctx (collect_notes pos (st\<lparr>rs_ctx := ctx\<rparr>))) = ec_resolved (rs_ctx st)"
    using knows_keeps[OF Cons.prems(1)] by (simp add: keeps_def)
  moreover have "pre_pass env store s poss (collect_notes pos (st\<lparr>rs_ctx := ctx\<rparr>)) = (None, st')"
    using Cons.prems(2) pm by (auto simp: Let_def split: if_splits)
  ultimately show ?case using Cons.IH by metis
qed simp

section \<open>What a run decides\<close>

text \<open>A session refused ahead of the order, by the first rule that refuses it.\<close>

definition refused_by :: "eval_env \<Rightarrow> set_store \<Rightarrow> rule_engine \<Rightarrow> session_info \<Rightarrow> nat \<Rightarrow> decision \<times> run_state \<Rightarrow> bool" where
  "refused_by env store e s i r \<longleftrightarrow>
     refuses env store e s i \<and> (\<forall>p<i. \<not> refuses env store e s p) \<and>
     d_outcome (fst r) = OPolicy (cr_policy (eng_rules e ! i)) \<and> d_reason (fst r) = RPreMatching \<and>
     d_matched (fst r) = Some (cr_index (eng_rules e ! i)) \<and> d_resolved (fst r) = None \<and> rs_asked (snd r) = [] \<and>
     hits_of (rs_engine (snd r)) = (hits_of e)[i := hits_of e ! i + 1]"

text \<open>
  A session decided by the rule at \<open>j\<close>, if its name is looked up for the rule at \<open>k\<close>, or not at all
  when \<open>k\<close> is behind \<open>j\<close>.
\<close>

definition decided_by :: "eval_env \<Rightarrow> set_store \<Rightarrow> rule_engine \<Rightarrow> session_info \<Rightarrow> lazy_resolver \<Rightarrow> lazy_process \<Rightarrow>
    nat \<Rightarrow> nat \<Rightarrow> decision \<times> run_state \<Rightarrow> bool" where
  "decided_by env store e s resolver process k j r \<longleftrightarrow>
     j < length (eng_rules e) \<and> (k \<le> j \<longrightarrow> asks_addresses env store e s process k) \<and>
     map ts_rule (rs_trace (snd r)) = map (\<lambda>i. cr_index (eng_rules e ! i)) [0..<Suc j] \<and>
     (\<forall>i<j. passed_over env store e s resolver process k i) \<and>
     ((\<forall>later. rule_true env store e s process (known resolver s k j) later j) \<and>
        match_at e j (fst r) (hits_of (rs_engine (snd r))) ''match'' \<and> d_resolved (fst r) = known resolver s k j \<or>
      k = j \<and> (\<exists>err. resolver (dst_name s) = Inl err) \<and>
        failed_at e j (fst r) (hits_of (rs_engine (snd r))) ''dns-failed'')"

text \<open>
  C5. What \<open>run\<close> decides, in every mode. Where the mode is to go direct or through one policy, that is
  the decision, and no rule is looked at, nothing is asked and nothing counted. Otherwise, if a
  flagged rule refuses the session by what is known without asking, the first such rule
  decides, and nothing is asked. Otherwise the first rule that holds decides: it does hold, for the
  process there is and the addresses known at it, its policy is the outcome, it alone is
  counted, the rules are looked at in order up to it, and none before it holds, but for one kind of
  rule: the one the name was looked up for, if it turned out to need the process only then. A rule
  that needs addresses that cannot be had decides too: by FINAL's policy if FINAL carries
  \<open>dns-failed\<close> and as a failure if not.
\<close>

theorem run_is_first_match:
  assumes "engine_ok e"
  shows "case mode of
      ModeDirect \<Rightarrow> fst (run env store e s mode resolver process) =
          \<lparr>d_outcome = OPolicy (PBuiltin Direct), d_reason = ROutboundModeDirect, d_matched = None,
           d_sub_rule = None, d_resolved = None, d_notes = []\<rparr> \<and>
        rs_engine (snd (run env store e s mode resolver process)) = e \<and>
        rs_asked (snd (run env store e s mode resolver process)) = []
    | ModeProxy p \<Rightarrow> fst (run env store e s mode resolver process) =
          \<lparr>d_outcome = OPolicy p, d_reason = ROutboundModeProxy, d_matched = None,
           d_sub_rule = None, d_resolved = None, d_notes = []\<rparr> \<and>
        rs_engine (snd (run env store e s mode resolver process)) = e \<and>
        rs_asked (snd (run env store e s mode resolver process)) = []
    | ModeRule \<Rightarrow>
        (\<exists>i. refused_by env store e s i (run env store e s mode resolver process)) \<or>
        (\<forall>i. \<not> refuses env store e s i) \<and>
        (\<exists>k j. decided_by env store e s resolver process k j (run env store e s mode resolver process))"
proof (cases mode)
  case ModeRule
  let ?r = "run env store e s ModeRule resolver process"
  note c = run_cases(1)[OF assms refl, where env = env and store = store and s = s and resolver = resolver and process = process]
  note h = first_pre_hit_refuses[OF assms, of env store s]
  have "(\<exists>i. refused_by env store e s i ?r) \<or>
      (\<forall>i. \<not> refuses env store e s i) \<and> (\<exists>k j. decided_by env store e s resolver process k j ?r)"
  proof (cases "first_pre_hit env store e s Syn")
    case (Some h')
    then have "refused_by env store e s (fst h') ?r" using c h by (simp add: refused_by_def pre_decision_def)
    then show ?thesis by blast
  next
    case None
    obtain d st where p: "pre_pass env store s (eng_pre e) (run_start e) = (d, st)" by fastforce
    note f = pre_pass_first[OF _ engine_ok_pre[OF assms] _ p, unfolded run_start_ok, simplified]
    have st: "d = None" "same_table e (rs_engine st)" "rs_trace st = []" using f None by auto
    have run: "run_rules env store resolver process s [0..<length (eng_rules e)] st = ?r"
      using p st(1) by (simp add: run_def)
    have kn: "knows e process st" "ec_resolved (rs_ctx st) = None"
      using pre_pass_knows[OF knows_start p[unfolded st(1)]] by (simp_all add: run_start_def with_network_def eval_ctx_new_def)
    have tab: "table_ok e" "0 < length (eng_rules e)" using assms by (simp_all add: engine_ok_def table_ok_def)
    obtain j k where j: "j < length (eng_rules e)" "length (rs_trace (snd ?r)) = Suc j"
        "k \<le> j \<longrightarrow> asks_addresses env store e s process k"
        "\<forall>i<j. passed_over env store e s resolver process k i" "comes_first env store e s resolver process k j ?r"
      using run_rules_first[OF tab(1) st(2) kn(1) disjI1[OF kn(2)] tab(2) refl run] kn(2) st(3) by auto
    from c None obtain j' ts v where j': "j' < length (eng_rules e)"
        "rs_trace (snd ?r) = ts @ [\<lparr>ts_rule = cr_index (eng_rules e ! j'), ts_verdict = v\<rparr>]"
        "map ts_rule ts = map (\<lambda>i. cr_index (eng_rules e ! i)) [0..<j']"
        "match_at e j' (fst ?r) (hits_of (rs_engine (snd ?r))) v \<or> failed_at e j' (fst ?r) (hits_of (rs_engine (snd ?r))) v"
      unfolding decided_from_def by auto
    have "length ts = j'" using arg_cong[OF j'(3), of length] by simp
    then have eq: "j' = j" using j(2) j'(2) by simp
    have tr: "map ts_rule (rs_trace (snd ?r)) = map (\<lambda>i. cr_index (eng_rules e ! i)) [0..<Suc j]"
      using j'(2,3) by (simp add: eq)
    have "last_verdict (snd ?r) = v" using j'(2) by (simp add: last_verdict_def)
    with j(5) j'(4) have "decided_by env store e s resolver process k j ?r"
      unfolding decided_by_def comes_first_def eq using j(1,3,4) tr
      by (elim disjE) (auto simp: match_at_def failed_at_def)
    then show ?thesis using h None by auto
  qed
  then show ?thesis by (simp add: ModeRule)
qed (simp_all add: run_def decision_bypass_def run_start_def)

theorem run_is_first_match_witness:
  "engine_ok demo_engine \<and>
   (\<exists>k. decided_by env_ref looping_store demo_engine curl_session one_address (Some curl_process) k 2
      (run env_ref looping_store demo_engine curl_session ModeRule one_address (Some curl_process)))"
proof -
  let ?r = "run env_ref looping_store demo_engine curl_session ModeRule one_address (Some curl_process)"
  have m: "d_matched (fst ?r) = Some 2 \<and> d_reason (fst ?r) = RFinal"
    by (simp add: demo_run demo_first late_unknown late_resolved late_told late_told_unresolved)
  have "\<not> refused_by env_ref looping_store demo_engine curl_session i ?r" for i using m by (simp add: refused_by_def)
  moreover have "j = 2" if "decided_by env_ref looping_store demo_engine curl_session one_address (Some curl_process) k j ?r" for k j
    using that m by (auto simp: decided_by_def match_at_def failed_at_def demo_rules one_address_def fixed_resolver_def split: if_splits)
  ultimately show ?thesis
    using run_is_first_match[OF demo_engine_ok, where mode = ModeRule and env = env_ref and store = looping_store and s = curl_session and
      resolver = one_address and process = "Some curl_process"] demo_engine_ok by auto
qed

end
