(* ===== verification/Rurge_Lru.thy ===== *)
theory Rurge_Lru
  imports Rurge_Prelude
begin

text \<open>
  The crate \<open>lru\<close>, which the DNS cache and the pool of fake addresses keep their order of use
  in. It is a parameter: a record of the methods of \<open>LruCache\<close> the sources call, and a locale
  of what its documentation says of them, told through \<open>iter\<close>, the entries from the most to the
  least recently used. \<open>lru_modify\<close> is \<open>get_mut\<close> and the assignment through the reference it
  returns; the capacity of an unbounded cache is \<^const>\<open>None\<close>.
\<close>

section \<open>The methods\<close>

record ('l, 'k, 'v) lru_ops =
  lru_new :: "nat \<Rightarrow> 'l"
  lru_unbounded :: 'l
  lru_cap :: "'l \<Rightarrow> nat option"
  lru_iter :: "'l \<Rightarrow> ('k \<times> 'v) list"
  lru_get :: "'l \<Rightarrow> 'k \<Rightarrow> 'v option \<times> 'l"
  lru_modify :: "'l \<Rightarrow> 'k \<Rightarrow> ('v \<Rightarrow> 'v) \<Rightarrow> 'l"
  lru_put :: "'l \<Rightarrow> 'k \<Rightarrow> 'v \<Rightarrow> 'l"
  lru_pop :: "'l \<Rightarrow> 'k \<Rightarrow> 'l"
  lru_pop_lru :: "'l \<Rightarrow> ('k \<times> 'v) option \<times> 'l"
  lru_promote :: "'l \<Rightarrow> 'k \<Rightarrow> 'l"
  lru_clear :: "'l \<Rightarrow> 'l"

text \<open>What they do to the order of use.\<close>

definition drop_key :: "'k \<Rightarrow> ('k \<times> 'v) list \<Rightarrow> ('k \<times> 'v) list" where
  "drop_key k xs = filter (\<lambda>(k', _). k' \<noteq> k) xs"

definition to_front :: "'k \<Rightarrow> ('v \<Rightarrow> 'v) \<Rightarrow> ('k \<times> 'v) list \<Rightarrow> ('k \<times> 'v) list" where
  "to_front k f xs = (case map_of xs k of None \<Rightarrow> xs | Some v \<Rightarrow> (k, f v) # drop_key k xs)"

definition cut_to :: "nat option \<Rightarrow> 'a list \<Rightarrow> 'a list" where
  "cut_to cap xs = (case cap of None \<Rightarrow> xs | Some n \<Rightarrow> take n xs)"

section \<open>The laws\<close>

locale lru_laws =
  fixes ops :: "('l, 'k, 'v) lru_ops"
  assumes iter_distinct: "distinct (map fst (lru_iter ops l))"
    and iter_bounded: "lru_cap ops l = Some n \<Longrightarrow> length (lru_iter ops l) \<le> n"
    and new_law: "lru_iter ops (lru_new ops n) = [] \<and> lru_cap ops (lru_new ops n) = Some n"
    and unbounded_law: "lru_iter ops (lru_unbounded ops) = [] \<and> lru_cap ops (lru_unbounded ops) = None"
    and get_law: "lru_get ops l k = (v, l') \<Longrightarrow>
        v = map_of (lru_iter ops l) k \<and> lru_iter ops l' = to_front k id (lru_iter ops l) \<and> lru_cap ops l' = lru_cap ops l"
    and modify_law: "lru_iter ops (lru_modify ops l k f) = to_front k f (lru_iter ops l) \<and>
        lru_cap ops (lru_modify ops l k f) = lru_cap ops l"
    and put_law: "lru_iter ops (lru_put ops l k w) = cut_to (lru_cap ops l) ((k, w) # drop_key k (lru_iter ops l)) \<and>
        lru_cap ops (lru_put ops l k w) = lru_cap ops l"
    and pop_law: "lru_iter ops (lru_pop ops l k) = drop_key k (lru_iter ops l) \<and>
        lru_cap ops (lru_pop ops l k) = lru_cap ops l"
    and pop_lru_law: "lru_pop_lru ops l = (e, l') \<Longrightarrow>
        e = (if lru_iter ops l = [] then None else Some (last (lru_iter ops l))) \<and>
        lru_iter ops l' = butlast (lru_iter ops l) \<and> lru_cap ops l' = lru_cap ops l"
    and promote_law: "lru_iter ops (lru_promote ops l k) = to_front k id (lru_iter ops l) \<and>
        lru_cap ops (lru_promote ops l k) = lru_cap ops l"
    and clear_law: "lru_iter ops (lru_clear ops l) = [] \<and> lru_cap ops (lru_clear ops l) = lru_cap ops l"

text \<open>The keys and the values, as the laws move them.\<close>

lemma set_drop_key: "set (drop_key k xs) = {e \<in> set xs. fst e \<noteq> k}"
  by (auto simp: drop_key_def)

lemma keys_drop_key: "fst ` set (drop_key k xs) = fst ` set xs - {k}"
  by (auto simp: drop_key_def)

lemma map_of_drop_key: "map_of (drop_key k xs) = (map_of xs)(k := None)"
  by (induction xs) (auto simp: drop_key_def fun_eq_iff)

lemma distinct_drop_key: "distinct (map fst xs) \<Longrightarrow> distinct (map fst (drop_key k xs))"
  by (induction xs) (auto simp: drop_key_def)

lemma drop_key_absent: "k \<notin> fst ` set xs \<Longrightarrow> drop_key k xs = xs"
  by (induction xs) (auto simp: drop_key_def)

lemma map_of_to_front:
  "map_of (to_front k f xs) = (case map_of xs k of None \<Rightarrow> map_of xs | Some v \<Rightarrow> (map_of xs)(k \<mapsto> f v))"
  by (auto simp: to_front_def map_of_drop_key fun_eq_iff split: option.splits)

lemma map_of_to_front_id [simp]: "map_of (to_front k id xs) = map_of xs"
  by (auto simp: map_of_to_front fun_eq_iff split: option.splits)

lemma keys_to_front [simp]: "fst ` set (to_front k f xs) = fst ` set xs"
proof (cases "map_of xs k")
  case (Some v)
  then have "k \<in> fst ` set xs" by (metis map_of_eq_None_iff option.discI)
  then show ?thesis using Some by (auto simp: to_front_def keys_drop_key)
qed (simp add: to_front_def)

lemma length_drop_key_le: "length (drop_key k xs) \<le> length xs"
  by (simp add: drop_key_def)

lemma length_drop_key:
  "distinct (map fst xs) \<Longrightarrow> k \<in> fst ` set xs \<Longrightarrow> Suc (length (drop_key k xs)) = length xs"
proof (induction xs)
  case (Cons e xs)
  then show ?case
    by (cases "fst e = k") (force simp: drop_key_def intro!: arg_cong[of _ _ length] filter_True)+
qed simp

lemma length_to_front: "distinct (map fst xs) \<Longrightarrow> length (to_front k f xs) = length xs"
proof (cases "map_of xs k")
  case (Some v)
  moreover from Some have "k \<in> fst ` set xs" by (metis map_of_eq_None_iff option.discI)
  ultimately show "distinct (map fst xs) \<Longrightarrow> ?thesis" using length_drop_key[of xs k] by (simp add: to_front_def)
qed (simp add: to_front_def)

lemma distinct_to_front: "distinct (map fst xs) \<Longrightarrow> distinct (map fst (to_front k f xs))"
  using distinct_drop_key[of xs k] keys_drop_key[of k xs]
  by (auto simp: to_front_def split: option.splits)

text \<open>What every client reads of the laws.\<close>

lemma map_of_take: "distinct (map fst xs) \<Longrightarrow> map_of (take n xs) \<subseteq>\<^sub>m map_of xs"
  by (metis append_take_drop_id distinct_append map_add_comm map_append map_le_map_add map_of_append
      dom_map_of_conv_image_fst set_map inf_commute)

lemma map_of_cut_to: "distinct (map fst xs) \<Longrightarrow> map_of (cut_to cap xs) \<subseteq>\<^sub>m map_of xs"
  by (auto simp: cut_to_def map_of_take split: option.splits)

context lru_laws
begin

lemma get_eq: "lru_get ops l k = (map_of (lru_iter ops l) k, snd (lru_get ops l k))"
  using get_law[of l k "fst (lru_get ops l k)" "snd (lru_get ops l k)"] by (simp add: prod_eq_iff)

lemma iter_get: "lru_iter ops (snd (lru_get ops l k)) = to_front k id (lru_iter ops l)"
  "lru_cap ops (snd (lru_get ops l k)) = lru_cap ops l"
  using get_law[of l k "fst (lru_get ops l k)" "snd (lru_get ops l k)"] by simp_all

lemmas iter_laws = iter_get modify_law put_law pop_law promote_law clear_law new_law

lemma put_distinct: "distinct (map fst ((k, v) # drop_key k (lru_iter ops l)))"
  using distinct_drop_key[OF iter_distinct, of k l] by (auto simp: set_drop_key)

lemma iter_put_fits:
  assumes "lru_cap ops l = Some n" and "finite N" and "card N \<le> n" and "fst ` set (lru_iter ops l) \<subseteq> N" and "k \<in> N"
  shows "lru_iter ops (lru_put ops l k v) = (k, v) # drop_key k (lru_iter ops l)"
proof -
  let ?xs = "(k, v) # drop_key k (lru_iter ops l)"
  have "fst ` set ?xs \<subseteq> N" using assms(4,5) by (auto simp: set_drop_key)
  then have "length ?xs \<le> n"
    using put_distinct[of k v l] assms(2,3) card_mono[of N "fst ` set ?xs"]
    by (metis distinct_card le_trans length_map list.set_map)
  then show ?thesis using assms(1) by (simp add: put_law cut_to_def)
qed

lemma map_of_put:
  "map_of (lru_iter ops (lru_put ops l k v)) \<subseteq>\<^sub>m (map_of (lru_iter ops l))(k \<mapsto> v)"
  using map_of_cut_to[OF put_distinct[of k v l], of "lru_cap ops l"]
  by (simp add: put_law map_of_drop_key)

end

section \<open>An instance\<close>

text \<open>
  Caches as lists with their capacity. The laws need a list with distinct keys that fits; a value
  that is none stands for the empty cache.
\<close>

type_synonym ('k, 'v) list_lru = "nat option \<times> ('k \<times> 'v) list"

definition list_iter :: "('k, 'v) list_lru \<Rightarrow> ('k \<times> 'v) list" where
  "list_iter l =
     (if distinct (map fst (snd l)) \<and> (case fst l of None \<Rightarrow> True | Some n \<Rightarrow> length (snd l) \<le> n)
      then snd l else [])"

definition lru_ref :: "(('k, 'v) list_lru, 'k, 'v) lru_ops" where
  "lru_ref =
     \<lparr>lru_new = (\<lambda>n. (Some n, [])), lru_unbounded = (None, []), lru_cap = fst, lru_iter = list_iter,
      lru_get = (\<lambda>l k. (map_of (list_iter l) k, (fst l, to_front k id (list_iter l)))),
      lru_modify = (\<lambda>l k f. (fst l, to_front k f (list_iter l))),
      lru_put = (\<lambda>l k v. (fst l, cut_to (fst l) ((k, v) # drop_key k (list_iter l)))),
      lru_pop = (\<lambda>l k. (fst l, drop_key k (list_iter l))),
      lru_pop_lru = (\<lambda>l. (if list_iter l = [] then None else Some (last (list_iter l)), (fst l, butlast (list_iter l)))),
      lru_promote = (\<lambda>l k. (fst l, to_front k id (list_iter l))),
      lru_clear = (\<lambda>l. (fst l, []))\<rparr>"

definition list_fits :: "nat option \<Rightarrow> ('k \<times> 'v) list \<Rightarrow> bool" where
  "list_fits cap xs \<longleftrightarrow> distinct (map fst xs) \<and> (case cap of None \<Rightarrow> True | Some n \<Rightarrow> length xs \<le> n)"

lemma list_iter_fits: "list_fits (fst l) (list_iter l)"
  by (simp add: list_fits_def list_iter_def split: option.splits)

lemma list_iter_pair: "list_fits cap xs \<Longrightarrow> list_iter (cap, xs) = xs"
  by (cases cap) (auto simp: list_fits_def list_iter_def)

lemma list_fits_to_front: "list_fits cap xs \<Longrightarrow> list_fits cap (to_front k f xs)"
  by (auto simp: list_fits_def distinct_to_front length_to_front split: option.splits)

lemma list_fits_drop_key: "list_fits cap xs \<Longrightarrow> list_fits cap (drop_key k xs)"
  using length_drop_key_le[of k xs] by (auto simp: list_fits_def distinct_drop_key split: option.splits)

lemma list_fits_butlast: "list_fits cap xs \<Longrightarrow> list_fits cap (butlast xs)"
  by (auto simp: list_fits_def map_butlast distinct_butlast split: option.splits)

lemma list_fits_put: "list_fits cap xs \<Longrightarrow> list_fits cap (cut_to cap ((k, v) # drop_key k xs))"
  using distinct_drop_key[of xs k] keys_drop_key[of k xs]
  by (auto simp: list_fits_def cut_to_def take_map[symmetric] split: option.splits
      intro!: distinct_take)

interpretation lru_ref: lru_laws lru_ref
proof
  fix l :: "('k, 'v) list_lru" and k :: 'k and f w n v l' e
  note fits = list_iter_fits[of l] list_fits_to_front[OF list_iter_fits[of l]] list_fits_drop_key[OF list_iter_fits[of l]]
    list_fits_butlast[OF list_iter_fits[of l]] list_fits_put[OF list_iter_fits[of l]]
  show "distinct (map fst (lru_iter lru_ref l))"
    using fits(1) by (simp add: lru_ref_def list_fits_def)
  show "lru_cap lru_ref l = Some n \<Longrightarrow> length (lru_iter lru_ref l) \<le> n"
    using fits(1) by (simp add: lru_ref_def list_fits_def)
  show "lru_iter lru_ref (lru_new lru_ref n) = [] \<and> lru_cap lru_ref (lru_new lru_ref n) = Some n"
    "lru_iter lru_ref (lru_unbounded lru_ref) = [] \<and> lru_cap lru_ref (lru_unbounded lru_ref) = None"
    "lru_iter lru_ref (lru_clear lru_ref l) = [] \<and> lru_cap lru_ref (lru_clear lru_ref l) = lru_cap lru_ref l"
    by (simp_all add: lru_ref_def list_iter_def)
  show "lru_get lru_ref l k = (v, l') \<Longrightarrow> v = map_of (lru_iter lru_ref l) k \<and>
      lru_iter lru_ref l' = to_front k id (lru_iter lru_ref l) \<and> lru_cap lru_ref l' = lru_cap lru_ref l"
    "lru_iter lru_ref (lru_modify lru_ref l k f) = to_front k f (lru_iter lru_ref l) \<and>
      lru_cap lru_ref (lru_modify lru_ref l k f) = lru_cap lru_ref l"
    "lru_iter lru_ref (lru_put lru_ref l k w) = cut_to (lru_cap lru_ref l) ((k, w) # drop_key k (lru_iter lru_ref l)) \<and>
      lru_cap lru_ref (lru_put lru_ref l k w) = lru_cap lru_ref l"
    "lru_iter lru_ref (lru_pop lru_ref l k) = drop_key k (lru_iter lru_ref l) \<and>
      lru_cap lru_ref (lru_pop lru_ref l k) = lru_cap lru_ref l"
    "lru_pop_lru lru_ref l = (e, l') \<Longrightarrow>
      e = (if lru_iter lru_ref l = [] then None else Some (last (lru_iter lru_ref l))) \<and>
      lru_iter lru_ref l' = butlast (lru_iter lru_ref l) \<and> lru_cap lru_ref l' = lru_cap lru_ref l"
    "lru_iter lru_ref (lru_promote lru_ref l k) = to_front k id (lru_iter lru_ref l) \<and>
      lru_cap lru_ref (lru_promote lru_ref l k) = lru_cap lru_ref l"
    using fits(2-5) by (auto simp: lru_ref_def list_iter_pair simp del: split_paired_All)
qed

end
