(* ===== verification/Rurge_Dns_Cache.thy ===== *)
theory Rurge_Dns_Cache
  imports Rurge_Lru
begin

text \<open>
  The DNS cache, \<^verbatim>\<open>crates/rurge-dns/src/cache.rs\<close>: answers kept for as long as their TTL says,
  served stale while one refresh runs, and empty answers kept for a while. The state is the
  LRU cache inside the lock; instants and durations are numbers of nanoseconds, and the instant
  an operation reads is its argument.
\<close>

section \<open>Model\<close>

definition seconds :: "nat \<Rightarrow> nat" where
  "seconds n = n * 1000000000"

definition DEFAULT_CAPACITY :: nat where
  "DEFAULT_CAPACITY = 2000"

definition NEGATIVE_TTL :: nat where
  "NEGATIVE_TTL = seconds 30"

definition REFRESH_RETRY_INTERVAL :: nat where
  "REFRESH_RETRY_INTERVAL = seconds 60"

record cached_addrs =
  ca_v4 :: "ipv4_addr list"
  ca_v6 :: "ipv6_addr list"
  ca_ttl :: nat
  ca_v6_queried :: bool
  ca_source :: string

datatype cache_hit = Fresh cached_addrs | Stale cached_addrs | Negative

record cache_entry =
  ce_name :: string
  ce_v4 :: "ipv4_addr list"
  ce_v6 :: "ipv6_addr list"
  ce_expires_in :: "nat option"
  ce_stale :: bool
  ce_negative :: bool
  ce_source :: string

record entry =
  e_addrs :: "cached_addrs option"
  e_expires_at :: nat
  e_refreshing :: bool
  e_last_refresh :: "nat option"

type_synonym 'l cache_ops = "('l, string, entry) lru_ops"

definition dns_cache_new :: "'l cache_ops \<Rightarrow> nat \<Rightarrow> 'l" where
  "dns_cache_new ops capacity = lru_new ops (max capacity 1)"

definition cache_get :: "'l cache_ops \<Rightarrow> nat \<Rightarrow> string \<Rightarrow> 'l \<Rightarrow> cache_hit option \<times> 'l" where
  "cache_get ops now name cache =
     (case lru_get ops cache name of
        (None, cache') \<Rightarrow> (None, cache')
      | (Some e, cache') \<Rightarrow>
          let decision = (case e_addrs e of
                None \<Rightarrow> if now < e_expires_at e then Some Negative else None
              | Some a \<Rightarrow> if now < e_expires_at e then Some (Fresh a) else Some (Stale a)) in
          (decision, if decision = None then lru_pop ops cache' name else cache'))"

definition cache_put :: "'l cache_ops \<Rightarrow> nat \<Rightarrow> string \<Rightarrow> cached_addrs \<Rightarrow> 'l \<Rightarrow> 'l" where
  "cache_put ops now name addrs cache =
     (if ca_ttl addrs = 0 then lru_pop ops cache name
      else lru_put ops cache name
             \<lparr>e_addrs = Some addrs, e_expires_at = now + ca_ttl addrs, e_refreshing = False, e_last_refresh = None\<rparr>)"

definition cache_put_negative :: "'l cache_ops \<Rightarrow> nat \<Rightarrow> string \<Rightarrow> 'l \<Rightarrow> 'l" where
  "cache_put_negative ops now name cache =
     lru_put ops cache name
       \<lparr>e_addrs = None, e_expires_at = now + NEGATIVE_TTL, e_refreshing = False, e_last_refresh = None\<rparr>"

definition begin_refresh :: "'l cache_ops \<Rightarrow> nat \<Rightarrow> string \<Rightarrow> 'l \<Rightarrow> bool \<times> 'l" where
  "begin_refresh ops now name cache =
     (case lru_get ops cache name of
        (None, cache') \<Rightarrow> (False, cache')
      | (Some e, cache') \<Rightarrow>
          if e_refreshing e then (False, cache')
          else if (case e_last_refresh e of None \<Rightarrow> False | Some lst \<Rightarrow> now - lst < REFRESH_RETRY_INTERVAL)
          then (False, cache')
          else (True, lru_modify ops cache' name (\<lambda>e. e\<lparr>e_refreshing := True, e_last_refresh := Some now\<rparr>)))"

definition end_refresh :: "'l cache_ops \<Rightarrow> string \<Rightarrow> 'l \<Rightarrow> 'l" where
  "end_refresh ops name cache = lru_modify ops cache name (\<lambda>e. e\<lparr>e_refreshing := False\<rparr>)"

definition cache_flush :: "'l cache_ops \<Rightarrow> 'l \<Rightarrow> 'l" where
  "cache_flush ops cache = lru_clear ops cache"

definition cache_len :: "'l cache_ops \<Rightarrow> 'l \<Rightarrow> nat" where
  "cache_len ops cache = length (lru_iter ops cache)"

definition cache_is_empty :: "'l cache_ops \<Rightarrow> 'l \<Rightarrow> bool" where
  "cache_is_empty ops cache \<longleftrightarrow> cache_len ops cache = 0"

definition snapshot_entry :: "nat \<Rightarrow> string \<times> entry \<Rightarrow> cache_entry" where
  "snapshot_entry now ne =
     (case ne of (name, e) \<Rightarrow>
        let expires_in = (if now < e_expires_at e then Some (e_expires_at e - now) else None) in
        case e_addrs e of
          Some a \<Rightarrow>
            \<lparr>ce_name = name, ce_v4 = ca_v4 a, ce_v6 = ca_v6 a, ce_expires_in = expires_in,
             ce_stale = (expires_in = None), ce_negative = False, ce_source = ca_source a\<rparr>
        | None \<Rightarrow>
            \<lparr>ce_name = name, ce_v4 = [], ce_v6 = [], ce_expires_in = expires_in,
             ce_stale = (expires_in = None), ce_negative = True, ce_source = ''negative''\<rparr>)"

definition cache_snapshot :: "'l cache_ops \<Rightarrow> nat \<Rightarrow> 'l \<Rightarrow> cache_entry list" where
  "cache_snapshot ops now cache = sort_key ce_name (map (snapshot_entry now) (lru_iter ops cache))"

section \<open>The cache as a map\<close>

text \<open>What the cache holds, name by name.\<close>

definition cache_map :: "'l cache_ops \<Rightarrow> 'l \<Rightarrow> string \<Rightarrow> entry option" where
  "cache_map ops cache = map_of (lru_iter ops cache)"

definition entry_hit :: "nat \<Rightarrow> entry \<Rightarrow> cache_hit option" where
  "entry_hit now e =
     (case e_addrs e of
        None \<Rightarrow> if now < e_expires_at e then Some Negative else None
      | Some a \<Rightarrow> Some (if now < e_expires_at e then Fresh a else Stale a))"

definition may_refresh :: "nat \<Rightarrow> entry \<Rightarrow> bool" where
  "may_refresh now e \<longleftrightarrow>
     \<not> e_refreshing e \<and>
     (case e_last_refresh e of None \<Rightarrow> True | Some lst \<Rightarrow> REFRESH_RETRY_INTERVAL \<le> now - lst)"

section \<open>Runs of the cache\<close>

datatype cache_event =
    EGet nat string | EPut nat string cached_addrs | EPutNegative nat string
  | EBeginRefresh nat string | EEndRefresh string | EFlush

fun cache_step :: "'l cache_ops \<Rightarrow> cache_event \<Rightarrow> 'l \<Rightarrow> 'l" where
  "cache_step ops (EGet now name) c = snd (cache_get ops now name c)"
| "cache_step ops (EPut now name a) c = cache_put ops now name a c"
| "cache_step ops (EPutNegative now name) c = cache_put_negative ops now name c"
| "cache_step ops (EBeginRefresh now name) c = snd (begin_refresh ops now name c)"
| "cache_step ops (EEndRefresh name) c = end_refresh ops name c"
| "cache_step ops EFlush c = cache_flush ops c"

definition cache_run :: "'l cache_ops \<Rightarrow> cache_event list \<Rightarrow> 'l \<Rightarrow> 'l" where
  "cache_run ops evs c = fold (cache_step ops) evs c"

text \<open>The names an event may write, and what was last written for a name: when, and which answer.\<close>

fun event_writes :: "cache_event \<Rightarrow> string set" where
  "event_writes (EPut _ name _) = {name}"
| "event_writes (EPutNegative _ name) = {name}"
| "event_writes _ = {}"

fun write_step :: "cache_event \<Rightarrow> (string \<Rightarrow> (nat \<times> cached_addrs option) option) \<Rightarrow> string \<Rightarrow> (nat \<times> cached_addrs option) option" where
  "write_step (EPut now name a) w = w(name := if ca_ttl a = 0 then None else Some (now, Some a))"
| "write_step (EPutNegative now name) w = w(name := Some (now, None))"
| "write_step EFlush w = (\<lambda>_. None)"
| "write_step _ w = w"

definition last_write :: "cache_event list \<Rightarrow> string \<Rightarrow> (nat \<times> cached_addrs option) option" where
  "last_write evs = fold write_step evs (\<lambda>_. None)"

definition written_ttl :: "cached_addrs option \<Rightarrow> nat" where
  "written_ttl a = (case a of None \<Rightarrow> NEGATIVE_TTL | Some a \<Rightarrow> ca_ttl a)"

definition of_write :: "(nat \<times> cached_addrs option) option \<Rightarrow> entry option \<Rightarrow> bool" where
  "of_write w e \<longleftrightarrow>
     (case e of None \<Rightarrow> True
      | Some e \<Rightarrow> \<exists>t. w = Some (t, e_addrs e) \<and> e_expires_at e = t + written_ttl (e_addrs e))"

text \<open>What a look-up may answer, given what was last written for the name.\<close>

definition hit_of_write :: "nat \<Rightarrow> (nat \<times> cached_addrs option) option \<Rightarrow> cache_hit \<Rightarrow> bool" where
  "hit_of_write now w hit \<longleftrightarrow>
     (case hit of
        Fresh a \<Rightarrow> \<exists>t. w = Some (t, Some a) \<and> now < t + ca_ttl a
      | Stale a \<Rightarrow> \<exists>t. w = Some (t, Some a) \<and> t + ca_ttl a \<le> now
      | Negative \<Rightarrow> \<exists>t. w = Some (t, None) \<and> now < t + NEGATIVE_TTL)"

text \<open>The refresh slot of a name claimed at \<open>t1\<close> or later, and held unless it was released.\<close>

definition claimed_since :: "nat \<Rightarrow> bool \<Rightarrow> entry option \<Rightarrow> bool" where
  "claimed_since t1 ended e \<longleftrightarrow>
     (case e of None \<Rightarrow> True
      | Some e \<Rightarrow> (\<exists>t. e_last_refresh e = Some t \<and> t1 \<le> t) \<and> (e_refreshing e \<or> ended))"

locale dns_cache = lru_laws ops for ops :: "'l cache_ops"
begin

lemma map_get: "cache_map ops (snd (cache_get ops now name c)) =
    (if fst (cache_get ops now name c) = None then (cache_map ops c)(name := None) else cache_map ops c)"
  by (subst (1 2) cache_get_def, subst (1 2) get_eq)
    (auto simp: cache_map_def Let_def iter_laws map_of_drop_key fun_eq_iff split: option.splits)

lemma fst_get: "fst (cache_get ops now name c) = Option.bind (cache_map ops c name) (entry_hit now)"
  by (subst cache_get_def, subst get_eq) (auto simp: cache_map_def Let_def entry_hit_def split: option.splits)

lemma map_begin: "cache_map ops (snd (begin_refresh ops now name c)) =
    (case cache_map ops c name of
       None \<Rightarrow> cache_map ops c
     | Some e \<Rightarrow> if may_refresh now e
         then (cache_map ops c)(name \<mapsto> e\<lparr>e_refreshing := True, e_last_refresh := Some now\<rparr>) else cache_map ops c)"
  by (subst begin_refresh_def, subst get_eq)
    (auto simp: cache_map_def iter_laws map_of_to_front may_refresh_def fun_eq_iff not_less split: option.splits)

lemma fst_begin: "fst (begin_refresh ops now name c) \<longleftrightarrow> (\<exists>e. cache_map ops c name = Some e \<and> may_refresh now e)"
  by (subst begin_refresh_def, subst get_eq) (auto simp: cache_map_def may_refresh_def split: option.splits)

lemma map_end: "cache_map ops (end_refresh ops name c) =
    (case cache_map ops c name of None \<Rightarrow> cache_map ops c
     | Some e \<Rightarrow> (cache_map ops c)(name \<mapsto> e\<lparr>e_refreshing := False\<rparr>))"
  by (auto simp: end_refresh_def cache_map_def modify_law map_of_to_front split: option.splits)

lemma map_flush: "cache_map ops (cache_flush ops c) = Map.empty"
  by (simp add: cache_flush_def cache_map_def clear_law)

lemma map_put: "cache_map ops (cache_put ops now name a c) \<subseteq>\<^sub>m
    (cache_map ops c)(name := if ca_ttl a = 0 then None else
       Some \<lparr>e_addrs = Some a, e_expires_at = now + ca_ttl a, e_refreshing = False, e_last_refresh = None\<rparr>)"
  using map_of_put[of c name]
  by (simp add: cache_put_def cache_map_def pop_law map_of_drop_key fun_upd_def)

lemma map_put_negative: "cache_map ops (cache_put_negative ops now name c) \<subseteq>\<^sub>m
    (cache_map ops c)(name \<mapsto> \<lparr>e_addrs = None, e_expires_at = now + NEGATIVE_TTL, e_refreshing = False, e_last_refresh = None\<rparr>)"
  using map_of_put[of c name] by (simp add: cache_put_negative_def cache_map_def)

end

context dns_cache
begin

lemma of_write_le: "of_write w e \<Longrightarrow> m' \<subseteq>\<^sub>m m \<Longrightarrow> m n = e \<Longrightarrow> of_write w (m' n)"
  by (cases "m' n") (auto simp: of_write_def map_le_def dom_def)

lemma of_write_step:
  assumes "\<forall>n. of_write (w n) (cache_map ops c n)"
  shows "of_write (write_step ev w n) (cache_map ops (cache_step ops ev c) n)"
proof (cases ev)
  case (EPut now name a)
  have "of_write (write_step ev w n) (((cache_map ops c)(name := if ca_ttl a = 0 then None else
       Some \<lparr>e_addrs = Some a, e_expires_at = now + ca_ttl a, e_refreshing = False, e_last_refresh = None\<rparr>)) n)"
    using assms EPut by (auto simp: of_write_def written_ttl_def)
  then show ?thesis using of_write_le[OF _ map_put refl] EPut by simp
next
  case (EPutNegative now name)
  have "of_write (write_step ev w n) (((cache_map ops c)(name \<mapsto>
       \<lparr>e_addrs = None, e_expires_at = now + NEGATIVE_TTL, e_refreshing = False, e_last_refresh = None\<rparr>)) n)"
    using assms EPutNegative by (auto simp: of_write_def written_ttl_def)
  then show ?thesis using of_write_le[OF _ map_put_negative refl] EPutNegative by simp
qed (use assms in \<open>auto simp: map_get map_begin map_end map_flush of_write_def split: option.splits\<close>)

lemma of_write_run:
  "\<forall>n. of_write (w n) (cache_map ops c n) \<Longrightarrow> of_write (fold write_step evs w n) (cache_map ops (cache_run ops evs c) n)"
proof (induction evs arbitrary: w c)
  case (Cons ev evs)
  then show ?case using of_write_step[OF Cons.prems] by (simp add: cache_run_def)
qed (simp add: cache_run_def)

lemma cap_step: "lru_cap ops (cache_step ops ev c) = lru_cap ops c"
proof (cases ev)
  case (EGet now name)
  then show ?thesis
    by (subst EGet, simp, subst cache_get_def, subst get_eq) (simp add: Let_def iter_laws split: option.splits)
next
  case (EBeginRefresh now name)
  then show ?thesis
    by (subst EBeginRefresh, simp, subst begin_refresh_def, subst get_eq) (simp add: iter_laws split: option.splits)
qed (simp_all add: cache_put_def cache_put_negative_def end_refresh_def cache_flush_def iter_laws)

lemma cap_run: "lru_cap ops (cache_run ops evs c) = lru_cap ops c"
  by (induction evs arbitrary: c) (simp_all add: cache_run_def cap_step)

text \<open>While the names that are written fit into the cache, no answer is lost.\<close>

lemma dom_cache_map: "dom (cache_map ops c) = fst ` set (lru_iter ops c)"
  by (simp add: cache_map_def dom_map_of_conv_image_fst)

lemma map_put_fits:
  assumes "lru_cap ops c = Some k" "finite N" "card N \<le> k" "dom (cache_map ops c) \<subseteq> N" "name \<in> N"
  shows "map_of (lru_iter ops (lru_put ops c name e)) = (cache_map ops c)(name \<mapsto> e)"
  using iter_put_fits[of c k N name e] assms by (simp add: dom_cache_map map_of_drop_key) (simp add: cache_map_def)

lemma keeps_step:
  assumes "lru_cap ops c = Some k" "finite N" "card N \<le> k" "dom (cache_map ops c) \<subseteq> N" "event_writes ev \<subseteq> N"
    "\<forall>n. of_write (w n) (cache_map ops c n)" "\<forall>n t a. w n = Some (t, Some a) \<longrightarrow> cache_map ops c n \<noteq> None"
  shows "dom (cache_map ops (cache_step ops ev c)) \<subseteq> N \<and>
    (\<forall>n t a. write_step ev w n = Some (t, Some a) \<longrightarrow> cache_map ops (cache_step ops ev c) n \<noteq> None)"
proof (cases ev)
  case (EPut now name a)
  then show ?thesis using assms(1-5,7) map_put_fits[OF assms(1-4), of name]
    by (auto simp: cache_put_def cache_map_def pop_law map_of_drop_key)
next
  case (EPutNegative now name)
  then show ?thesis using assms(1-5,7) map_put_fits[OF assms(1-4), of name]
    by (auto simp: cache_put_negative_def cache_map_def)
next
  case (EGet now name)
  have "fst (cache_get ops now name c) \<noteq> None" if wr: "w name = Some (t, Some a)" for t a
  proof -
    obtain e where "cache_map ops c name = Some e" using wr assms(7) by blast
    then show ?thesis using wr assms(6)[rule_format, of name]
      by (auto simp: fst_get of_write_def entry_hit_def split: option.splits)
  qed
  then show ?thesis using EGet assms(4,7) by (auto simp: map_get)
qed (use assms in \<open>auto simp: map_begin map_end map_flush split: option.splits if_splits\<close>)

lemma keeps_run:
  assumes "lru_cap ops c = Some k" "finite N" "card N \<le> k" "dom (cache_map ops c) \<subseteq> N" "\<forall>ev\<in>set evs. event_writes ev \<subseteq> N"
    "\<forall>n. of_write (w n) (cache_map ops c n)" "\<forall>n t a. w n = Some (t, Some a) \<longrightarrow> cache_map ops c n \<noteq> None"
  shows "fold write_step evs w n = Some (t, Some a) \<longrightarrow> cache_map ops (cache_run ops evs c) n \<noteq> None"
  using assms
proof (induction evs arbitrary: w c)
  case (Cons ev evs)
  have "dom (cache_map ops (cache_step ops ev c)) \<subseteq> N \<and>
    (\<forall>n t a. write_step ev w n = Some (t, Some a) \<longrightarrow> cache_map ops (cache_step ops ev c) n \<noteq> None)"
    using Cons.prems by (intro keeps_step) auto
  then show ?case using Cons.IH[of "cache_step ops ev c" "write_step ev w"] Cons.prems of_write_step[OF Cons.prems(6)]
    by (simp add: cache_run_def cap_step)
qed (simp add: cache_run_def)

lemma claimed_le: "claimed_since t1 b (m n) \<Longrightarrow> m' \<subseteq>\<^sub>m m \<Longrightarrow> claimed_since t1 b (m' n)"
  by (cases "m' n") (auto simp: claimed_since_def map_le_def dom_def)

lemma claimed_step:
  assumes "claimed_since t1 b (cache_map ops c name)" "name \<notin> event_writes ev" "\<And>t. ev = EBeginRefresh t name \<Longrightarrow> t1 \<le> t"
  shows "claimed_since t1 (b \<or> ev = EEndRefresh name) (cache_map ops (cache_step ops ev c) name)"
proof (cases ev)
  case (EPut now n a)
  then show ?thesis using assms(1,2) claimed_le[OF _ map_put[of now n a c], of t1 b name] by simp
next
  case (EPutNegative now n)
  then show ?thesis using assms(1,2) claimed_le[OF _ map_put_negative[of now n c], of t1 b name] by simp
qed (use assms in \<open>auto simp: map_get map_begin map_end map_flush claimed_since_def split: option.splits\<close>)

lemma claimed_run:
  assumes "claimed_since t1 b (cache_map ops c name)" "\<forall>ev\<in>set evs. name \<notin> event_writes ev"
    "\<forall>t. EBeginRefresh t name \<in> set evs \<longrightarrow> t1 \<le> t"
  shows "claimed_since t1 (b \<or> EEndRefresh name \<in> set evs) (cache_map ops (cache_run ops evs c) name)"
  using assms
proof (induction evs arbitrary: b c)
  case (Cons ev evs)
  have "claimed_since t1 (b \<or> ev = EEndRefresh name) (cache_map ops (cache_step ops ev c) name)"
    using Cons.prems by (intro claimed_step) auto
  from Cons.IH[OF this] Cons.prems show ?case by (auto simp: cache_run_def eq_commute[of ev])
qed (simp add: cache_run_def)

end

context dns_cache
begin

lemma of_write_hit:
  "of_write w e \<Longrightarrow> Option.bind e (entry_hit now) = Some hit \<Longrightarrow> hit_of_write now w hit"
  by (auto simp: of_write_def entry_hit_def hit_of_write_def written_ttl_def split: option.splits if_splits bind_splits)

lemma run_new:
  shows "of_write (last_write evs name) (cache_map ops (cache_run ops evs (dns_cache_new ops capacity)) name)"
    and "lru_cap ops (cache_run ops evs (dns_cache_new ops capacity)) = Some (max capacity 1)"
    and "card (\<Union> (event_writes ` set evs)) \<le> max capacity 1 \<Longrightarrow> last_write evs name = Some (t, Some a) \<Longrightarrow>
      cache_map ops (cache_run ops evs (dns_cache_new ops capacity)) name \<noteq> None"
proof -
  have e: "cache_map ops (dns_cache_new ops capacity) = Map.empty"
    by (simp add: dns_cache_new_def cache_map_def new_law)
  then show "of_write (last_write evs name) (cache_map ops (cache_run ops evs (dns_cache_new ops capacity)) name)"
    unfolding last_write_def by (intro of_write_run) (simp add: of_write_def)
  show "lru_cap ops (cache_run ops evs (dns_cache_new ops capacity)) = Some (max capacity 1)"
    by (simp add: cap_run dns_cache_new_def new_law)
  have "finite (event_writes ev)" for ev by (cases ev) auto
  then show "card (\<Union> (event_writes ` set evs)) \<le> max capacity 1 \<Longrightarrow> last_write evs name = Some (t, Some a) \<Longrightarrow>
      cache_map ops (cache_run ops evs (dns_cache_new ops capacity)) name \<noteq> None"
    unfolding last_write_def using e
    by (intro keeps_run[rule_format, where N = "\<Union> (event_writes ` set evs)" and w = "\<lambda>_. None" and k = "max capacity 1"])
      (auto simp: dns_cache_new_def new_law of_write_def)
qed

lemma serves:
  assumes "c = cache_run ops evs (dns_cache_new ops capacity)"
  shows "cache_len ops c \<le> max capacity 1"
    and "fst (cache_get ops now name c) = Some hit \<Longrightarrow> hit_of_write now (last_write evs name) hit"
    and "card (\<Union> (event_writes ` set evs)) \<le> max capacity 1 \<Longrightarrow> last_write evs name = Some (t, Some a) \<Longrightarrow>
      fst (cache_get ops now name c) = Some (if now < t + ca_ttl a then Fresh a else Stale a)"
  using run_new(1)[of evs name capacity] run_new(2)[of evs capacity] run_new(3)[of evs capacity name t a] assms iter_bounded[of c "max capacity 1"]
  by (auto simp: cache_len_def fst_get of_write_hit)
    (auto simp: of_write_def entry_hit_def written_ttl_def split: option.splits)

lemma refresh_once:
  assumes "fst (begin_refresh ops t1 name c)" and "\<forall>ev\<in>set evs. name \<notin> event_writes ev"
    and "\<forall>t. EBeginRefresh t name \<in> set evs \<longrightarrow> t1 \<le> t"
    and "fst (begin_refresh ops t2 name (cache_run ops evs (snd (begin_refresh ops t1 name c))))"
  shows "t1 + REFRESH_RETRY_INTERVAL \<le> t2 \<and> EEndRefresh name \<in> set evs"
proof -
  have "claimed_since t1 False (cache_map ops (snd (begin_refresh ops t1 name c)) name)"
    using assms(1) by (auto simp: map_begin fst_begin claimed_since_def)
  from claimed_run[OF this assms(2,3)] assms(4) show ?thesis
    by (auto simp: fst_begin claimed_since_def may_refresh_def REFRESH_RETRY_INTERVAL_def seconds_def)
qed

end

interpretation dns_ref: dns_cache lru_ref ..

section \<open>What the cache promises\<close>

text \<open>
  C36. What the cache serves. After any sequence of operations, a look-up answers only with what
  was last written for the name: fresh before its TTL is over and stale from then on, negative
  for at most 30 seconds. It never holds more than its capacity; and as long as the names
  written fit into it, every answer that was written is still there.
\<close>

theorem cache_serves_last_write:
  assumes "lru_laws ops" and "c = cache_run ops evs (dns_cache_new ops capacity)"
  shows "cache_len ops c \<le> max capacity 1 \<and>
    (\<forall>hit. fst (cache_get ops now name c) = Some hit \<longrightarrow> hit_of_write now (last_write evs name) hit) \<and>
    (card (\<Union> (event_writes ` set evs)) \<le> max capacity 1 \<longrightarrow>
       (\<forall>t a. last_write evs name = Some (t, Some a) \<longrightarrow>
          fst (cache_get ops now name c) = Some (if now < t + ca_ttl a then Fresh a else Stale a)))"
  using dns_cache.serves[OF dns_cache.intro[OF assms(1)] assms(2)] by blast

text \<open>
  The refresh slot. Between two refreshes of a name that were both granted, with nothing
  written for it in between, the first was ended and at least 60 seconds passed, whatever else
  happened to the cache.
\<close>

theorem refresh_slot_single:
  assumes "lru_laws ops" and "fst (begin_refresh ops t1 name c)"
    and "\<forall>ev\<in>set evs. name \<notin> event_writes ev" and "\<forall>t. EBeginRefresh t name \<in> set evs \<longrightarrow> t1 \<le> t"
    and "fst (begin_refresh ops t2 name (cache_run ops evs (snd (begin_refresh ops t1 name c))))"
  shows "t1 + REFRESH_RETRY_INTERVAL \<le> t2 \<and> EEndRefresh name \<in> set evs"
  using dns_cache.refresh_once[OF dns_cache.intro[OF assms(1)] assms(2-5)] .

section \<open>Witnesses\<close>

definition demo_answer :: cached_addrs where
  "demo_answer = \<lparr>ca_v4 = [0x0A000001], ca_v6 = [], ca_ttl = seconds 10, ca_v6_queried = False, ca_source = ''udp''\<rparr>"

definition demo_events :: "cache_event list" where
  "demo_events = [EPut 0 ''a.com'' demo_answer, EPutNegative 5 ''b.com'', EGet 9 ''b.com'']"

theorem cache_serves_last_write_witness:
  "lru_laws (lru_ref :: ((string, entry) list_lru, string, entry) lru_ops) \<and>
   last_write demo_events ''a.com'' = Some (0, Some demo_answer) \<and>
   fst (cache_get lru_ref 9 ''a.com'' (cache_run lru_ref demo_events (dns_cache_new lru_ref 2))) = Some (Fresh demo_answer)"
proof -
  have w: "last_write demo_events ''a.com'' = Some (0, Some demo_answer)"
    by (simp add: last_write_def demo_events_def demo_answer_def seconds_def)
  have n: "card (\<Union> (event_writes ` set demo_events)) \<le> max 2 1"
    by (simp add: demo_events_def card_insert_if)
  from cache_serves_last_write[OF lru_ref.lru_laws_axioms refl, of demo_events 2 9 "''a.com''"] w n
  show ?thesis using lru_ref.lru_laws_axioms by (simp add: demo_answer_def seconds_def)
qed

theorem refresh_slot_single_witness:
  "fst (begin_refresh lru_ref 20 ''a.com'' (cache_put lru_ref 0 ''a.com'' demo_answer (dns_cache_new lru_ref 2))) \<and>
   20 + REFRESH_RETRY_INTERVAL \<le> 20 + seconds 60"
proof -
  let ?c = "cache_put lru_ref 0 ''a.com'' demo_answer (dns_cache_new lru_ref 2)"
  let ?evs = "[EEndRefresh ''a.com'']"
  note demo = begin_refresh_def cache_put_def dns_cache_new_def cache_run_def end_refresh_def lru_ref_def list_iter_def
    to_front_def drop_key_def cut_to_def demo_answer_def seconds_def REFRESH_RETRY_INTERVAL_def
  have a: "fst (begin_refresh lru_ref 20 ''a.com'' ?c)" by (simp add: demo)
  have b: "fst (begin_refresh lru_ref (20 + seconds 60) ''a.com'' (cache_run lru_ref ?evs (snd (begin_refresh lru_ref 20 ''a.com'' ?c))))"
    by (simp add: demo)
  show ?thesis using refresh_slot_single[OF lru_ref.lru_laws_axioms a _ _ b] a by (simp add: seconds_def REFRESH_RETRY_INTERVAL_def)
qed

end
