(* ===== verification/Rurge_Fake_Ip.thy ===== *)
theory Rurge_Fake_Ip
  imports Rurge_Lru Rurge_Types
begin

unbundle bit_operations_syntax

text \<open>
  The pool of fake addresses, \<^verbatim>\<open>crates/rurge-dns/src/fakeip/mod.rs\<close>, and the file it is kept in,
  \<^verbatim>\<open>fakeip/file.rs\<close>. The state inside the lock is a record; what the operating system answers when
  the file is read or written is an argument. Of \<open>keep_saved\<close> the two things it does are here, a
  turn of its loop and the last write; when they happen is left to the events of a run. The
  permit that \<open>Notify\<close> stores is a field of the pool.
\<close>

section \<open>Addresses\<close>

definition FAKE_COUNT :: u32 where
  "FAKE_COUNT = 130814"

definition QUARANTINE :: nat where
  "QUARANTINE = 120 * 1000000000"

definition QUARANTINE_COUNT :: u32 where
  "QUARANTINE_COUNT = 2048"

definition FIRST :: u32 where
  "FIRST = 0xC6120101"

definition v4_of :: "u32 \<Rightarrow> ipv4_addr" where
  "v4_of index = FIRST + index"

text \<open>\<open>Ipv6Addr::new\<close> and \<open>segments\<close>; \<open>octets\<close> of an IPv4 address.\<close>

definition ipv6_new :: "u16 list \<Rightarrow> ipv6_addr" where
  "ipv6_new = foldl (\<lambda>a s. push_bit 16 a OR ucast s) 0"

definition segments :: "ipv6_addr \<Rightarrow> u16 list" where
  "segments a = map (\<lambda>i. ucast (drop_bit (16 * (7 - i)) a)) [0..<8]"

definition octets :: "ipv4_addr \<Rightarrow> u8 list" where
  "octets a = map (\<lambda>i. ucast (drop_bit (8 * (3 - i)) a)) [0..<4]"

definition u16_from_be :: "u8 \<Rightarrow> u8 \<Rightarrow> u16" where
  "u16_from_be a b = push_bit 8 (ucast a) OR ucast b"

definition v6_of :: "u32 \<Rightarrow> ipv6_addr" where
  "v6_of index =
     (case octets (v4_of index) of
        [a, b, c, d] \<Rightarrow> ipv6_new [0xfd00, 0x6152, 0, 0, 0, 0, u16_from_be a b, u16_from_be c d]
      | _ \<Rightarrow> 0)"

definition index_of_bits :: "u32 \<Rightarrow> u32 option" where
  "index_of_bits v4_bits =
     (if FIRST \<le> v4_bits \<and> v4_bits - FIRST < FAKE_COUNT then Some (v4_bits - FIRST) else None)"

fun index_of :: "ip_addr \<Rightarrow> u32 option" where
  "index_of (V4 v4) = index_of_bits v4"
| "index_of (V6 v6) =
     (case segments v6 of
        [s0, s1, s2, s3, s4, s5, high, low] \<Rightarrow>
          if [s0, s1, s2, s3, s4, s5] = [0xfd00, 0x6152, 0, 0, 0, 0]
          then index_of_bits (push_bit 16 (ucast high) OR ucast low) else None
      | _ \<Rightarrow> None)"

definition in_space :: "ip_addr \<Rightarrow> bool" where
  "in_space ip =
     (case to_canonical ip of
        V4 v4 \<Rightarrow> (case octets v4 of a # b # _ \<Rightarrow> a = 198 \<and> (b = 18 \<or> b = 19) | _ \<Rightarrow> False)
      | V6 v6 \<Rightarrow> take 4 (segments v6) = [0xfd00, 0x6152, 0, 0])"

definition label_byte :: "char \<Rightarrow> bool" where
  "label_byte b \<longleftrightarrow> is_ascii_lower b \<or> is_ascii_digit b \<or> b = CHR ''-'' \<or> b = CHR ''_''"

definition normalize_name :: "string \<Rightarrow> string option" where
  "normalize_name name0 =
     (let name = (case strip_suffix ''.'' name0 of Some n \<Rightarrow> n | None \<Rightarrow> name0) in
      if 253 < length (as_bytes name) then None
      else let name = to_ascii_lowercase name in
           if list_all (\<lambda>label. label \<noteq> [] \<and> list_all label_byte label) (split_on (CHR ''.'') name)
           then Some name else None)"

datatype assign_error = NotAName | Exhausted

datatype loaded = LMissing | LClean | LUnclean | LNotRead string

section \<open>The file\<close>

definition MAGIC :: string where
  "MAGIC = ''rurge-fake-ip 1''"

record file_table =
  tb_cursor :: u32
  tb_wrapped :: bool
  tb_entries :: "(u32 \<times> string) list"

text \<open>A number and a flag as \<open>write!\<close> prints them.\<close>

fun show_nat :: "nat \<Rightarrow> string" where
  "show_nat n =
     (if n < 10 then [char_of (48 + n)] else show_nat (n div 10) @ [char_of (48 + n mod 10)])"

declare show_nat.simps [simp del]

definition show_flag :: "bool \<Rightarrow> string" where
  "show_flag b = (if b then ''1'' else ''0'')"

definition render :: "file_table \<Rightarrow> bool \<Rightarrow> string" where
  "render table clean =
     MAGIC @ [CHR 0x0A] @
     ''cursor '' @ show_nat (unat (tb_cursor table)) @ '' wrapped '' @ show_flag (tb_wrapped table) @
     '' clean '' @ show_flag clean @ [CHR 0x0A] @
     concat (map (\<lambda>(index, name). show_nat (unat index) @ '' '' @ name @ [CHR 0x0A]) (tb_entries table))"

definition flag :: "string \<Rightarrow> bool option" where
  "flag word = (if word = ''0'' then Some False else if word = ''1'' then Some True else None)"

definition number :: "string \<Rightarrow> u32 option" where
  "number word = (if word = [] \<or> \<not> list_all is_ascii_digit word then None else parse_u32 word)"

definition header :: "string \<Rightarrow> (u32 \<times> bool \<times> bool) option" where
  "header line =
     (case split_on (CHR '' '') line of
        [w0, cursor, w2, wrapped, w4, clean] \<Rightarrow>
          if w0 = ''cursor'' \<and> w2 = ''wrapped'' \<and> w4 = ''clean'' then
            (case (number cursor, flag wrapped, flag clean) of
               (Some c, Some w, Some cl) \<Rightarrow> Some (c, w, cl)
             | _ \<Rightarrow> None)
          else None
      | _ \<Rightarrow> None)"

definition split_entry :: "string \<Rightarrow> (u32 \<times> string) option" where
  "split_entry line =
     (case split_once (CHR '' '') line of
        None \<Rightarrow> None
      | Some (index, name) \<Rightarrow> map_option (\<lambda>i. (i, name)) (number index))"

text \<open>The loop over the lines: their number, and the indices and names seen so far.\<close>

fun parse_entries :: "u32 \<Rightarrow> u32 \<Rightarrow> bool \<Rightarrow> nat \<Rightarrow> u32 set \<Rightarrow> string set \<Rightarrow> string list \<Rightarrow>
    string + (u32 \<times> string) list" where
  "parse_entries count cursor wrapped at index_seen name_seen [] = Inr []"
| "parse_entries count cursor wrapped at index_seen name_seen (line # lines) =
     (case split_entry line of
        None \<Rightarrow> Inl (''line '' @ show_nat at @ '' is not `<number> <name>`'')
      | Some (index, name) \<Rightarrow>
          if count \<le> index \<or> (\<not> wrapped \<and> cursor \<le> index) then
            Inl (''line '' @ show_nat at @ '': the address number is out of range'')
          else if index \<in> index_seen then Inl (''line '' @ show_nat at @ '': the address number comes twice'')
          else if normalize_name name \<noteq> Some name then
            Inl (''line '' @ show_nat at @ '': the name is not in its normalized form'')
          else if name \<in> name_seen then Inl (''line '' @ show_nat at @ '': the name comes twice'')
          else map_sum id ((#) (index, name))
                 (parse_entries count cursor wrapped (at + 1) (insert index index_seen) (insert name name_seen) lines))"

definition pop_blank :: "string list \<Rightarrow> string list" where
  "pop_blank lines = (if lines \<noteq> [] \<and> last lines = [] then butlast lines else lines)"

definition parse_file :: "string \<Rightarrow> u32 \<Rightarrow> string + file_table \<times> bool" where
  "parse_file content count =
     (let lines = pop_blank (pop_blank (split_on (CHR 0x0A) content)) in
      if lines = [] \<or> hd lines \<noteq> MAGIC then Inl ''the first line is not `rurge-fake-ip 1`''
      else case (if length lines < 2 then None else header (lines ! 1)) of
             None \<Rightarrow> Inl ''the second line is not `cursor <n> wrapped <0|1> clean <0|1>`''
           | Some (cursor, wrapped, clean) \<Rightarrow>
               if count < cursor then Inl ''the cursor is past the last address''
               else map_sum id (\<lambda>entries. (\<lparr>tb_cursor = cursor, tb_wrapped = wrapped, tb_entries = entries\<rparr>, clean))
                      (parse_entries count cursor wrapped 3 {} {} (drop 2 lines)))"

section \<open>The state\<close>

type_synonym 'l idle_ops = "('l, u32, unit) lru_ops"

record 'l fake_state =
  fs_count :: u32
  fs_names :: "string option list"
  fs_indices :: "string \<rightharpoonup> u32"
  fs_idle :: 'l
  fs_leases :: "(u32 \<times> u32) list"
  fs_cursor :: u32
  fs_wrapped :: bool
  fs_held :: "u32 list"
  fs_held_until :: "nat option"
  fs_dirty :: bool

definition state_new :: "'l idle_ops \<Rightarrow> u32 \<Rightarrow> 'l fake_state" where
  "state_new ops count0 =
     (let count = min count0 FAKE_COUNT in
      \<lparr>fs_count = count, fs_names = replicate (unat count) None, fs_indices = Map.empty,
       fs_idle = lru_unbounded ops, fs_leases = [], fs_cursor = 0, fs_wrapped = False, fs_held = [],
       fs_held_until = None, fs_dirty = False\<rparr>)"

definition take_fresh :: "'l fake_state \<Rightarrow> u32 option \<times> 'l fake_state" where
  "take_fresh st =
     (if fs_wrapped st \<or> fs_count st \<le> fs_cursor st then (None, st)
      else let index = fs_cursor st; cursor = fs_cursor st + 1 in
           (Some index, st\<lparr>fs_cursor := cursor, fs_wrapped := (cursor = fs_count st)\<rparr>))"

definition take_idle :: "'l idle_ops \<Rightarrow> 'l fake_state \<Rightarrow> u32 option \<times> 'l fake_state" where
  "take_idle ops st =
     (case lru_pop_lru ops (fs_idle st) of
        (None, idle) \<Rightarrow> (None, st\<lparr>fs_idle := idle\<rparr>)
      | (Some (index, _), idle) \<Rightarrow>
          (Some index,
           case fs_names st ! unat index of
             None \<Rightarrow> st\<lparr>fs_idle := idle\<rparr>
           | Some name \<Rightarrow> st\<lparr>fs_idle := idle, fs_names := (fs_names st)[unat index := None],
                             fs_indices := (fs_indices st)(name := None)\<rparr>))"

definition take_free :: "'l idle_ops \<Rightarrow> 'l fake_state \<Rightarrow> u32 option \<times> 'l fake_state" where
  "take_free ops st =
     (case take_fresh st of (Some index, st') \<Rightarrow> (Some index, st') | (None, st') \<Rightarrow> take_idle ops st')"

definition state_take :: "'l idle_ops \<Rightarrow> nat \<Rightarrow> 'l fake_state \<Rightarrow> u32 option \<times> 'l fake_state" where
  "state_take ops now st =
     (case (fs_held_until st, fs_held st) of
        (Some until, index # held) \<Rightarrow>
          if until \<le> now then (Some index, st\<lparr>fs_held := held\<rparr>) else take_free ops st
      | _ \<Rightarrow> take_free ops st)"

fun hold_loop :: "'l idle_ops \<Rightarrow> nat \<Rightarrow> 'l fake_state \<Rightarrow> 'l fake_state" where
  "hold_loop ops 0 st = st"
| "hold_loop ops (Suc want) st =
     (case take_free ops st of
        (None, st') \<Rightarrow> st'
      | (Some index, st') \<Rightarrow> hold_loop ops want (st'\<lparr>fs_held := fs_held st' @ [index]\<rparr>))"

definition hold_back :: "'l idle_ops \<Rightarrow> nat \<Rightarrow> nat \<Rightarrow> 'l fake_state \<Rightarrow> 'l fake_state" where
  "hold_back ops want now st =
     (let st' = hold_loop ops want st in
      if fs_held st' \<noteq> [] then st'\<lparr>fs_held_until := Some (now + QUARANTINE)\<rparr> else st')"

definition give :: "'l idle_ops \<Rightarrow> u32 \<Rightarrow> string \<Rightarrow> 'l fake_state \<Rightarrow> 'l fake_state" where
  "give ops index name st =
     st\<lparr>fs_names := (fs_names st)[unat index := Some name], fs_indices := (fs_indices st)(name \<mapsto> index),
        fs_idle := lru_put ops (fs_idle st) index (), fs_dirty := True\<rparr>"

definition refresh :: "'l idle_ops \<Rightarrow> u32 \<Rightarrow> 'l fake_state \<Rightarrow> 'l fake_state" where
  "refresh ops index st = st\<lparr>fs_idle := lru_promote ops (fs_idle st) index\<rparr>"

text \<open>The map of leases: its keys are distinct, and a look-up, an update and a removal of a key.\<close>

definition lease_set :: "u32 \<Rightarrow> u32 \<Rightarrow> (u32 \<times> u32) list \<Rightarrow> (u32 \<times> u32) list" where
  "lease_set index n ls = (index, n) # drop_key index ls"

definition release :: "'l idle_ops \<Rightarrow> u32 \<Rightarrow> 'l fake_state \<Rightarrow> 'l fake_state" where
  "release ops index st =
     (case map_of (fs_leases st) index of
        None \<Rightarrow> st
      | Some held \<Rightarrow>
          let held = held - 1 in
          if held = 0 then
            let st = st\<lparr>fs_leases := drop_key index (fs_leases st)\<rparr> in
            if fs_names st ! unat index \<noteq> None then st\<lparr>fs_idle := lru_put ops (fs_idle st) index ()\<rparr> else st
          else st\<lparr>fs_leases := lease_set index held (fs_leases st)\<rparr>)"

definition named_entry :: "'l fake_state \<Rightarrow> u32 \<Rightarrow> (u32 \<times> string) option" where
  "named_entry st index = map_option (\<lambda>name. (index, name)) (fs_names st ! unat index)"

definition state_table :: "'l idle_ops \<Rightarrow> 'l fake_state \<Rightarrow> file_table" where
  "state_table ops st =
     \<lparr>tb_cursor = fs_cursor st, tb_wrapped = fs_wrapped st,
      tb_entries = List.map_filter (\<lambda>(index, _). named_entry st index) (rev (lru_iter ops (fs_idle st))) @
                   List.map_filter (named_entry st) (sort (map fst (fs_leases st)))\<rparr>"

definition take_if_dirty :: "'l idle_ops \<Rightarrow> 'l fake_state \<Rightarrow> file_table option \<times> 'l fake_state" where
  "take_if_dirty ops st =
     (if fs_dirty st then Some (state_table ops (st\<lparr>fs_dirty := False\<rparr>)) else None, st\<lparr>fs_dirty := False\<rparr>)"

definition restore_entry :: "'l idle_ops \<Rightarrow> u32 \<times> string \<Rightarrow> 'l fake_state \<Rightarrow> 'l fake_state" where
  "restore_entry ops e st =
     (case e of (index, name) \<Rightarrow>
        st\<lparr>fs_names := (fs_names st)[unat index := Some name], fs_indices := (fs_indices st)(name \<mapsto> index),
           fs_idle := lru_put ops (fs_idle st) index ()\<rparr>)"

definition restore :: "'l idle_ops \<Rightarrow> u32 \<Rightarrow> file_table \<Rightarrow> 'l fake_state" where
  "restore ops count table =
     (let st = state_new ops count;
          st = st\<lparr>fs_cursor := tb_cursor table, fs_wrapped := (tb_wrapped table \<or> fs_count st \<le> tb_cursor table)\<rparr>;
          st = fold (restore_entry ops) (tb_entries table) st;
          bound = (if fs_wrapped st then fs_count st else fs_cursor st)
      in st\<lparr>fs_held := map of_nat (filter (\<lambda>i. fs_names st ! i = None) [0..<unat bound])\<rparr>)"

section \<open>The pool\<close>

record 'l fake_pool =
  fp_state :: "'l fake_state"
  fp_changed :: bool

definition with_state :: "'l fake_state \<Rightarrow> 'l fake_pool" where
  "with_state st = \<lparr>fp_state = st, fp_changed = False\<rparr>"

definition pool_new :: "'l idle_ops \<Rightarrow> 'l fake_pool" where
  "pool_new ops = with_state (state_new ops FAKE_COUNT)"

text \<open>What reading the file gives, and whether writing it succeeds, is up to the system.\<close>

datatype file_read = FileText string | FileNotUtf8 | FileMissing | FileError string

definition load :: "'l idle_ops \<Rightarrow> file_read \<Rightarrow> u32 \<Rightarrow> 'l fake_state \<times> loaded" where
  "load ops r count =
     (case r of
        FileText content \<Rightarrow>
          (case parse_file content count of
             Inr (table, clean) \<Rightarrow> (restore ops count table, if clean then LClean else LUnclean)
           | Inl reason \<Rightarrow> (state_new ops count, LNotRead reason))
      | FileNotUtf8 \<Rightarrow> (state_new ops count, LNotRead ''the file is not UTF-8'')
      | FileMissing \<Rightarrow> (state_new ops count, LMissing)
      | FileError e \<Rightarrow> (state_new ops count, LNotRead (''the file could not be read: '' @ e)))"

text \<open>The last component is the text that is written, if any is.\<close>

definition open_sized :: "'l idle_ops \<Rightarrow> file_read \<Rightarrow> bool \<Rightarrow> nat \<Rightarrow> u32 \<Rightarrow> u32 \<Rightarrow> 'l fake_pool \<times> loaded \<times> string option" where
  "open_sized ops r writable now count0 quarantine =
     (let count = min count0 FAKE_COUNT in
      case load ops r count of
        (st, ld) \<Rightarrow>
          let want = (case ld of LUnclean \<Rightarrow> unat quarantine | LNotRead _ \<Rightarrow> unat quarantine | _ \<Rightarrow> 0);
              st = hold_back ops want now st;
              content = (case ld of LNotRead _ \<Rightarrow> None | _ \<Rightarrow> Some (render (state_table ops st) False));
              saved = (content \<noteq> None \<and> writable)
          in (with_state (st\<lparr>fs_dirty := \<not> saved\<rparr>), ld, content))"

definition pool_open :: "'l idle_ops \<Rightarrow> file_read \<Rightarrow> bool \<Rightarrow> nat \<Rightarrow> 'l fake_pool \<times> loaded \<times> string option" where
  "pool_open ops r writable now = open_sized ops r writable now FAKE_COUNT QUARANTINE_COUNT"

definition assign :: "'l idle_ops \<Rightarrow> string \<Rightarrow> nat \<Rightarrow> 'l fake_pool \<Rightarrow> (assign_error + u32) \<times> 'l fake_pool" where
  "assign ops name0 now p =
     (case normalize_name name0 of
        None \<Rightarrow> (Inl NotAName, p)
      | Some name \<Rightarrow>
          (case fs_indices (fp_state p) name of
             Some index \<Rightarrow> (Inr index, p\<lparr>fp_state := refresh ops index (fp_state p)\<rparr>)
           | None \<Rightarrow>
               (case state_take ops now (fp_state p) of
                  (None, st) \<Rightarrow> (Inl Exhausted, p\<lparr>fp_state := st\<rparr>)
                | (Some index, st) \<Rightarrow> (Inr index, p\<lparr>fp_state := give ops index name st, fp_changed := True\<rparr>))))"

definition names_get :: "'l fake_state \<Rightarrow> u32 \<Rightarrow> string option" where
  "names_get st index = (if unat index < length (fs_names st) then fs_names st ! unat index else None)"

definition name_of :: "'l idle_ops \<Rightarrow> ip_addr \<Rightarrow> 'l fake_pool \<Rightarrow> string option \<times> 'l fake_pool" where
  "name_of ops ip p =
     (case index_of ip of
        None \<Rightarrow> (None, p)
      | Some index \<Rightarrow>
          (case names_get (fp_state p) index of
             None \<Rightarrow> (None, p)
           | Some name \<Rightarrow> (Some name, p\<lparr>fp_state := refresh ops index (fp_state p)\<rparr>)))"

text \<open>A lease is its index; dropping it is \<^const>\<open>release\<close>.\<close>

definition lease :: "'l idle_ops \<Rightarrow> ip_addr \<Rightarrow> 'l fake_pool \<Rightarrow> (string \<times> u32) option \<times> 'l fake_pool" where
  "lease ops ip p =
     (case index_of ip of
        None \<Rightarrow> (None, p)
      | Some index \<Rightarrow>
          (case names_get (fp_state p) index of
             None \<Rightarrow> (None, p)
           | Some name \<Rightarrow>
               let st = fp_state p;
                   n = (case map_of (fs_leases st) index of None \<Rightarrow> 0 | Some n \<Rightarrow> n)
               in (Some (name, index),
                   p\<lparr>fp_state := st\<lparr>fs_leases := lease_set index (n + 1) (fs_leases st),
                                      fs_idle := lru_pop ops (fs_idle st) index\<rparr>\<rparr>)))"

definition lease_drop :: "'l idle_ops \<Rightarrow> u32 \<Rightarrow> 'l fake_pool \<Rightarrow> 'l fake_pool" where
  "lease_drop ops index p = p\<lparr>fp_state := release ops index (fp_state p)\<rparr>"

definition address_of :: "string \<Rightarrow> bool \<Rightarrow> 'l fake_pool \<Rightarrow> ip_addr option" where
  "address_of name v6 p =
     Option.bind (normalize_name name) (\<lambda>n.
       map_option (\<lambda>index. if v6 then V6 (v6_of index) else V4 (v4_of index)) (fs_indices (fp_state p) n))"

definition leased :: "'l fake_pool \<Rightarrow> nat" where
  "leased p = length (fs_leases (fp_state p))"

definition named_count :: "'l fake_pool \<Rightarrow> nat" where
  "named_count p = card (dom (fs_indices (fp_state p)))"

text \<open>A turn of the loop of \<open>keep_saved\<close>, and its end: the text that is written.\<close>

definition save_turn :: "'l idle_ops \<Rightarrow> 'l fake_pool \<Rightarrow> string option \<times> 'l fake_pool" where
  "save_turn ops p =
     (if fp_changed p then
        (case take_if_dirty ops (fp_state p) of
           (table, st) \<Rightarrow> (map_option (\<lambda>t. render t False) table, p\<lparr>fp_state := st, fp_changed := False\<rparr>))
      else (None, p))"

definition save_end :: "'l idle_ops \<Rightarrow> 'l fake_pool \<Rightarrow> string" where
  "save_end ops p = render (state_table ops (fp_state p)) True"

end
