(* ===== verification/Rurge_Fake_Ip_Facts.thy ===== *)
theory Rurge_Fake_Ip_Facts
  imports Rurge_Fake_Ip
begin

unbundle bit_operations_syntax

text \<open>
  What the pool of fake addresses promises: an address stands for one index and back, every
  state a run reaches is well formed, a leased address keeps its name, an address that is given
  out leads back to the name it was given to, and the pool survives a restart.
\<close>

section \<open>Addresses\<close>

lemma segments_list: "segments a = [ucast (drop_bit 112 a), ucast (drop_bit 96 a), ucast (drop_bit 80 a), ucast (drop_bit 64 a),
    ucast (drop_bit 48 a), ucast (drop_bit 32 a), ucast (drop_bit 16 a), ucast a]"
  by (simp add: segments_def upt_rec)

lemma octets_list: "octets a = [ucast (drop_bit 24 a), ucast (drop_bit 16 a), ucast (drop_bit 8 a), ucast a]"
  by (simp add: octets_def upt_rec)

lemma segments_ipv6_new: "segments (ipv6_new [a, b, c, d, e, f, g, h]) = [a, b, c, d, e, f, g, h]"
  unfolding segments_list ipv6_new_def
  by (simp, intro conjI; rule bit_word_eqI) (auto simp: bit_simps dest: bit_imp_le_length)

text \<open>Putting the last piece back behind the ones before it.\<close>

lemma seg_step: "push_bit 16 (drop_bit (k + 16) a) OR ucast (ucast (drop_bit k a) :: u16) = drop_bit k (a :: 'a :: len word)"
proof (rule bit_word_eqI)
  fix n assume "n < LENGTH('a)"
  then show "bit (push_bit 16 (drop_bit (k + 16) a) OR ucast (ucast (drop_bit k a) :: u16)) n = bit (drop_bit k a) n"
    by (cases "n < 16") (auto simp: bit_simps ac_simps)
qed

lemma ipv6_new_segments: "ipv6_new (segments a) = a"
proof -
  have "push_bit 16 0 OR ucast (ucast (drop_bit 112 a) :: u16) = drop_bit 112 a"
    by (rule bit_word_eqI) (auto simp: bit_simps dest: bit_imp_le_length)
  then show ?thesis
    using seg_step[of 96 a] seg_step[of 80 a] seg_step[of 64 a] seg_step[of 48 a] seg_step[of 32 a] seg_step[of 16 a] seg_step[of 0 a]
    by (simp add: segments_list ipv6_new_def)
qed

lemma be_octets:
  "push_bit 16 (ucast (u16_from_be (ucast (drop_bit 24 a)) (ucast (drop_bit 16 a)))) OR
   ucast (u16_from_be (ucast (drop_bit 8 a)) (ucast a)) = (a :: u32)"
proof (rule bit_word_eqI)
  fix n assume "n < LENGTH(32)"
  then consider "n < 8" | "8 \<le> n" "n < 16" | "16 \<le> n" "n < 24" | "24 \<le> n" "n < 32" by fastforce
  then show "bit (push_bit 16 (ucast (u16_from_be (ucast (drop_bit 24 a)) (ucast (drop_bit 16 a)))) OR
     ucast (u16_from_be (ucast (drop_bit 8 a)) (ucast a)) :: u32) n = bit a n"
    by cases (auto simp: bit_simps u16_from_be_def)
qed

lemma v6_of_segments: "\<exists>h l. segments (v6_of i) = [0xfd00, 0x6152, 0, 0, 0, 0, h, l] \<and> push_bit 16 (ucast h) OR ucast l = v4_of i"
  unfolding v6_of_def octets_list using be_octets[of "v4_of i"] by (auto simp: segments_ipv6_new)

lemma be_segments:
  fixes h l :: u16
  assumes "push_bit 16 (ucast h) OR ucast l = (a :: u32)"
  shows "u16_from_be (ucast (drop_bit 24 a)) (ucast (drop_bit 16 a)) = h \<and> u16_from_be (ucast (drop_bit 8 a)) (ucast a) = l"
proof (intro conjI bit_word_eqI)
  fix n assume n: "n < LENGTH(16)"
  then consider "n < 8" | "8 \<le> n" "n < 16" by fastforce
  note cs = this
  show "bit (u16_from_be (ucast (drop_bit 24 a)) (ucast (drop_bit 16 a))) n = bit h n"
    using cs by cases (auto simp: bit_simps u16_from_be_def assms[symmetric] dest: bit_imp_le_length)
  show "bit (u16_from_be (ucast (drop_bit 8 a)) (ucast a)) n = bit l n"
    using cs by cases (auto simp: bit_simps u16_from_be_def assms[symmetric] dest: bit_imp_le_length)
qed

lemma index_of_bits_iff: "index_of_bits a = Some i \<longleftrightarrow> i < FAKE_COUNT \<and> a = v4_of i"
proof
  show "index_of_bits a = Some i \<Longrightarrow> i < FAKE_COUNT \<and> a = v4_of i"
    by (auto simp: index_of_bits_def v4_of_def split: if_splits)
  assume "i < FAKE_COUNT \<and> a = v4_of i"
  then have "unat i < 130814" "a = FIRST + i" by (auto simp: FAKE_COUNT_def v4_of_def word_less_nat_alt)
  then have "FIRST \<le> a"
    by (auto simp: FIRST_def word_le_nat_alt unat_word_ariths)
  then show "index_of_bits a = Some i" using \<open>i < FAKE_COUNT \<and> a = v4_of i\<close>
    by (simp add: index_of_bits_def v4_of_def)
qed

lemma index_of_v6: "index_of (V6 v) = Some i \<longleftrightarrow> i < FAKE_COUNT \<and> v = v6_of i"
proof
  assume "index_of (V6 v) = Some i"
  then obtain h l where s: "segments v = [0xfd00, 0x6152, 0, 0, 0, 0, h, l]"
    and i: "i < FAKE_COUNT" "push_bit 16 (ucast h) OR ucast l = v4_of i"
    by (auto simp: index_of_bits_iff split: list.splits if_splits)
  have "v = ipv6_new [0xfd00, 0x6152, 0, 0, 0, 0, h, l]" using ipv6_new_segments[of v] s by simp
  then have "v = v6_of i" using be_segments[OF i(2)] by (simp add: v6_of_def octets_list)
  with i show "i < FAKE_COUNT \<and> v = v6_of i" by simp
next
  assume "i < FAKE_COUNT \<and> v = v6_of i"
  then show "index_of (V6 v) = Some i" using v6_of_segments[of i] by (auto simp: index_of_bits_iff)
qed

lemma index_of_iff: "index_of ip = Some i \<longleftrightarrow> i < FAKE_COUNT \<and> (ip = V4 (v4_of i) \<or> ip = V6 (v6_of i))"
  by (cases ip) (auto simp: index_of_bits_iff index_of_v6 simp del: index_of.simps(2))

lemma v4_of_range:
  assumes "i < FAKE_COUNT"
  shows "unat (v4_of i) = 3323068673 + unat i" "unat i < 130814"
proof -
  show i: "unat i < 130814" using assms by (simp add: FAKE_COUNT_def word_less_nat_alt)
  then show "unat (v4_of i) = 3323068673 + unat i" by (simp add: v4_of_def FIRST_def unat_word_ariths)
qed

lemma in_space_v4:
  assumes "i < FAKE_COUNT"
  shows "in_space (V4 (v4_of i))"
proof -
  note r = v4_of_range[OF assms]
  have "unat (drop_bit 24 (v4_of i)) = 198"
    using r by (simp only: unat_drop_bit_eq) (simp add: drop_bit_eq_div)
  then have a: "drop_bit 24 (v4_of i) = 198" by (simp add: word_unat_eq_iff)
  have "unat (drop_bit 16 (v4_of i)) = 50706 \<or> unat (drop_bit 16 (v4_of i)) = 50707"
    using r by (simp only: unat_drop_bit_eq) (simp add: drop_bit_eq_div, linarith)
  then have b: "drop_bit 16 (v4_of i) = 50706 \<or> drop_bit 16 (v4_of i) = 50707"
    by (simp add: word_unat_eq_iff)
  from a b show ?thesis by (auto simp: in_space_def octets_list)
qed

lemma in_space_v6:
  "in_space (V6 (v6_of i))"
proof -
  obtain h l where s: "segments (v6_of i) = [0xfd00, 0x6152, 0, 0, 0, 0, h, l]" using v6_of_segments by blast
  have "drop_bit 32 (v6_of i) \<noteq> 0xFFFF"
  proof
    assume "drop_bit 32 (v6_of i) = 0xFFFF"
    then have "drop_bit 64 (drop_bit 32 (v6_of i)) = drop_bit 64 0xFFFF" by simp
    then have "drop_bit 96 (v6_of i) = 0" by simp
    then show False using s by (simp add: segments_list)
  qed
  then show ?thesis using s by (simp add: in_space_def)
qed

section \<open>The invariant\<close>

text \<open>
  Every index is one nobody has had, held back, idle or leased. \<open>F\<close> are the indices taken and
  not given yet, and \<open>N\<close> bounds the leases on one address.
\<close>

definition named :: "'l fake_state \<Rightarrow> u32 \<Rightarrow> bool" where
  "named st i \<longleftrightarrow> names_get st i \<noteq> None"

definition had :: "'l fake_state \<Rightarrow> u32 \<Rightarrow> bool" where
  "had st i \<longleftrightarrow> i < fs_count st \<and> (fs_wrapped st \<or> i < fs_cursor st)"

definition idle_keys :: "'l idle_ops \<Rightarrow> 'l fake_state \<Rightarrow> u32 set" where
  "idle_keys ops st = fst ` set (lru_iter ops (fs_idle st))"

definition lease_keys :: "'l fake_state \<Rightarrow> u32 set" where
  "lease_keys st = fst ` set (fs_leases st)"

definition leases_ok :: "nat \<Rightarrow> (u32 \<times> u32) list \<Rightarrow> bool" where
  "leases_ok N ls \<longleftrightarrow> distinct (map fst ls) \<and> (\<forall>(i, n)\<in>set ls. 0 < unat n \<and> unat n \<le> N)"

definition pool_core :: "'l idle_ops \<Rightarrow> nat \<Rightarrow> u32 set \<Rightarrow> 'l fake_state \<Rightarrow> bool" where
  "pool_core ops N F st \<longleftrightarrow>
     length (fs_names st) = unat (fs_count st) \<and> fs_count st \<le> FAKE_COUNT \<and> fs_cursor st \<le> fs_count st \<and>
     (\<forall>n i. fs_indices st n = Some i \<longleftrightarrow> names_get st i = Some n) \<and>
     (\<forall>i n. names_get st i = Some n \<longrightarrow> had st i \<and> normalize_name n = Some n) \<and>
     idle_keys ops st = {i. named st i \<and> i \<notin> lease_keys st} \<and> lru_cap ops (fs_idle st) = None \<and>
     (\<forall>i\<in>lease_keys st. named st i) \<and> leases_ok N (fs_leases st) \<and>
     distinct (fs_held st) \<and> set (fs_held st) \<inter> F = {} \<and> set (fs_held st) \<union> F = {i. had st i \<and> \<not> named st i}"

definition pool_ok :: "'l idle_ops \<Rightarrow> nat \<Rightarrow> 'l fake_state \<Rightarrow> bool" where
  "pool_ok ops N st \<longleftrightarrow> pool_core ops N {} st \<and> (fs_held st = [] \<or> fs_held_until st \<noteq> None)"

lemma names_get_upd:
  "unat i < length (fs_names st) \<Longrightarrow> names_get (st\<lparr>fs_names := (fs_names st)[unat i := x]\<rparr>) j =
   (if j = i then x else names_get st j)"
  by (auto simp: names_get_def nth_list_update word_unat_eq_iff)

lemma names_get_cong: "fs_names st' = fs_names st \<Longrightarrow> names_get st' = names_get st"
  by (simp add: names_get_def fun_eq_iff)

lemma state_simps [simp]:
  "names_get (st\<lparr>fs_idle := x\<rparr>) = names_get st" "names_get (st\<lparr>fs_leases := ls\<rparr>) = names_get st"
  "names_get (st\<lparr>fs_held := hs\<rparr>) = names_get st" "names_get (st\<lparr>fs_held_until := u\<rparr>) = names_get st"
  "names_get (st\<lparr>fs_dirty := d\<rparr>) = names_get st" "names_get (st\<lparr>fs_indices := ix\<rparr>) = names_get st"
  "had (st\<lparr>fs_idle := x\<rparr>) = had st" "had (st\<lparr>fs_leases := ls\<rparr>) = had st"
  "had (st\<lparr>fs_held := hs\<rparr>) = had st" "had (st\<lparr>fs_held_until := u\<rparr>) = had st"
  "had (st\<lparr>fs_dirty := d\<rparr>) = had st" "had (st\<lparr>fs_indices := ix\<rparr>) = had st" "had (st\<lparr>fs_names := ns\<rparr>) = had st"
  by (simp_all add: names_get_def had_def fun_eq_iff)

lemma core_idle:
  "pool_core ops N F st \<Longrightarrow> fst ` set (lru_iter ops idle) = idle_keys ops st \<Longrightarrow> lru_cap ops idle = None \<Longrightarrow>
   pool_core ops N F (st\<lparr>fs_idle := idle\<rparr>)"
  by (simp add: pool_core_def idle_keys_def lease_keys_def named_def)

lemma core_inj: "pool_core ops N F st \<Longrightarrow> names_get st i = Some n \<Longrightarrow> names_get st j = Some n \<longleftrightarrow> j = i"
  unfolding pool_core_def by (metis option.inject)

lemma core_less: "pool_core ops N F st \<Longrightarrow> names_get st i = Some n \<Longrightarrow> unat i < length (fs_names st)"
  by (auto simp: names_get_def split: if_splits)

lemma had_less: "had st i \<Longrightarrow> i < fs_count st" by (simp add: had_def)

lemma core_get: "pool_core ops N F st \<Longrightarrow> unat i < unat (fs_count st) \<Longrightarrow> fs_names st ! unat i = names_get st i"
  by (simp add: pool_core_def names_get_def)

text \<open>What taking an index leaves alone; \<open>r\<close> is the index it took.\<close>

definition takes :: "'l fake_state \<Rightarrow> u32 option \<Rightarrow> 'l fake_state \<Rightarrow> bool" where
  "takes st r st' \<longleftrightarrow>
     fs_leases st' = fs_leases st \<and> fs_held_until st' = fs_held_until st \<and> fs_count st' = fs_count st \<and>
     (\<forall>j. names_get st' j = (if r = Some j then None else names_get st j))"

locale idle_lru = lru_laws ops for ops :: "'l idle_ops"
begin

lemma core_new: "pool_core ops N {} (state_new ops count)"
  by (auto simp: pool_core_def state_new_def Let_def names_get_def named_def had_def idle_keys_def lease_keys_def
      leases_ok_def unbounded_law)

lemma core_take_fresh:
  assumes "pool_core ops N {} st" "take_fresh st = (r, st')"
  shows "(case r of None \<Rightarrow> st' = st | Some i \<Rightarrow> pool_core ops N {i} st' \<and> \<not> had st i \<and> i < fs_count st) \<and>
    fs_names st' = fs_names st \<and> fs_leases st' = fs_leases st \<and> fs_held st' = fs_held st \<and>
    fs_held_until st' = fs_held_until st \<and> fs_idle st' = fs_idle st \<and> (r = None \<longleftrightarrow> (\<forall>i<fs_count st. had st i))"
proof (cases "fs_wrapped st \<or> fs_count st \<le> fs_cursor st")
  case True
  then show ?thesis using assms by (auto simp: take_fresh_def had_def)
next
  case False
  let ?i = "fs_cursor st"
  have st': "r = Some ?i" "st' = st\<lparr>fs_cursor := ?i + 1, fs_wrapped := (?i + 1 = fs_count st)\<rparr>"
    using assms(2) False by (auto simp: take_fresh_def Let_def)
  have lt: "?i < fs_count st" and nw: "\<not> fs_wrapped st" using False by auto
  have inc: "j < ?i + 1 \<longleftrightarrow> j < ?i \<or> j = ?i" for j
    using lt by unat_arith
  have h: "had st' j \<longleftrightarrow> had st j \<or> j = ?i" for j
    using lt nw inc[of j] by (auto simp: st' had_def)
  have n: "names_get st' = names_get st" by (rule names_get_cong) (simp add: st')
  have "\<not> had st ?i" using nw by (simp add: had_def)
  then have nn: "names_get st ?i = None" using assms(1) by (cases "names_get st ?i") (auto simp: pool_core_def)
  have "pool_core ops N {?i} st'"
    using assms(1) lt nw h n nn unfolding pool_core_def
    by (auto simp: st' named_def idle_keys_def lease_keys_def inc_le had_def[of st ?i])
  then show ?thesis using lt nw st' by (auto simp: had_def)
qed

end

context idle_lru
begin

lemma core_take_idle:
  assumes "pool_core ops N {} st" "take_idle ops st = (r, st')"
  shows "(case r of
      None \<Rightarrow> idle_keys ops st = {} \<and> pool_core ops N {} st'
    | Some i \<Rightarrow> pool_core ops N {i} st' \<and> i \<in> idle_keys ops st \<and> i = fst (last (lru_iter ops (fs_idle st)))) \<and>
    fs_leases st' = fs_leases st \<and> fs_held st' = fs_held st \<and> fs_held_until st' = fs_held_until st \<and>
    fs_count st' = fs_count st \<and> (\<forall>j. names_get st' j = (if r = Some j then None else names_get st j))"
proof -
  obtain e idle where p: "lru_pop_lru ops (fs_idle st) = (e, idle)" by fastforce
  note law = pop_lru_law[OF p]
  have dist: "distinct (map fst (lru_iter ops (fs_idle st)))" by (rule iter_distinct)
  show ?thesis
  proof (cases "lru_iter ops (fs_idle st) = []")
    case True
    then have "r = None" "st' = st\<lparr>fs_idle := idle\<rparr>" "lru_iter ops idle = []" using assms(2) law p by (auto simp: take_idle_def)
    then show ?thesis using True assms(1) law core_idle[OF assms(1), of idle]
      by (auto simp: idle_keys_def pool_core_def)
  next
    case False
    define i where "i = fst (last (lru_iter ops (fs_idle st)))"
    have e: "e = Some (i, ())" using law False by (cases "last (lru_iter ops (fs_idle st))") (auto simp: i_def)
    have ik: "i \<in> idle_keys ops st" using False by (auto simp: i_def idle_keys_def)
    then have nm: "named st i" "i \<notin> lease_keys st" using assms(1) by (auto simp: pool_core_def)
    then obtain name where name: "names_get st i = Some name" by (auto simp: named_def)
    then have len: "unat i < length (fs_names st)" and nth: "fs_names st ! unat i = Some name"
      by (auto simp: names_get_def split: if_splits)
    have st': "r = Some i" "st' = st\<lparr>fs_idle := idle, fs_names := (fs_names st)[unat i := None],
        fs_indices := (fs_indices st)(name := None)\<rparr>"
      using assms(2) p e nth by (auto simp: take_idle_def)
    have g: "names_get st' j = (if j = i then None else names_get st j)" for j
      using names_get_upd[OF len, of None j] names_get_cong[of st' "st\<lparr>fs_names := (fs_names st)[unat i := None]\<rparr>"] st'
      by (simp add: fun_eq_iff)
    have "lru_iter ops (fs_idle st) = lru_iter ops idle @ [(i, ())]"
      using law False e by (metis append_butlast_last_id option.inject)
    then have ks: "idle_keys ops st' = idle_keys ops st - {i}" using dist by (auto simp: idle_keys_def st')
    have ix: "fs_indices st n = Some k \<longleftrightarrow> names_get st k = Some n" for n k using assms(1) by (simp add: pool_core_def)
    have idx: "fs_indices st' n = Some k \<longleftrightarrow> names_get st' k = Some n" for n k
      using ix[of n k] core_inj[OF assms(1) name, of k] name g[of k] st'(2) by (cases "n = name"; cases "k = i") simp_all
    have same: "had st' = had st" "lease_keys st' = lease_keys st" "fs_held st' = fs_held st" "fs_count st' = fs_count st"
      "fs_leases st' = fs_leases st" "fs_cursor st' = fs_cursor st" "length (fs_names st') = length (fs_names st)" "fs_idle st' = idle"
      by (simp_all add: st'(2) had_def lease_keys_def fun_eq_iff)
    have "pool_core ops N {i} st'"
      using assms(1) name nm law idx g unfolding pool_core_def same ks by (auto simp: named_def)
    then show ?thesis using st' g ik i_def by auto
  qed
qed

end

context idle_lru
begin

lemma core_take_free:
  assumes "pool_core ops N {} st" "take_free ops st = (r, st')"
  shows "pool_core ops N (set_option r) st' \<and> takes st r st' \<and> fs_held st' = fs_held st \<and>
    (r = None \<longleftrightarrow> (\<forall>i<fs_count st. had st i) \<and> idle_keys ops st = {}) \<and>
    (\<forall>i. r = Some i \<longrightarrow> i < fs_count st \<and> i \<notin> set (fs_held st) \<and> i \<notin> lease_keys st \<and>
       (if named st i then (\<forall>j<fs_count st. had st j) \<and> i = fst (last (lru_iter ops (fs_idle st))) else \<not> had st i))"
proof -
  obtain r1 st1 where f: "take_fresh st = (r1, st1)" by fastforce
  note fresh = core_take_fresh[OF assms(1) f]
  show ?thesis
  proof (cases r1)
    case (Some i)
    then have r: "r = Some i" "st' = st1" using assms(2) f by (auto simp: take_free_def)
    have nh: "\<not> had st i" and lt: "i < fs_count st" using fresh Some by auto
    then have nn: "names_get st i = None" using assms(1) by (cases "names_get st i") (auto simp: pool_core_def)
    have g: "names_get st1 = names_get st" by (rule names_get_cong) (use fresh in simp)
    have "i \<notin> set (fs_held st)" "i \<notin> lease_keys st" using assms(1) nh nn by (auto simp: pool_core_def named_def)
    then show ?thesis
      using fresh Some r nn g nh lt f by (auto simp: takes_def named_def take_fresh_def Let_def split: if_splits)
  next
    case None
    then have i: "take_idle ops st = (r, st')" using assms(2) f fresh by (auto simp: take_free_def)
    note idle = core_take_idle[OF assms(1) i]
    have held: "j \<in> idle_keys ops st \<Longrightarrow> named st j \<and> j \<notin> lease_keys st \<and> j < fs_count st \<and> j \<notin> set (fs_held st)" for j
      using assms(1) by (auto simp: pool_core_def named_def had_def)
    show ?thesis using idle fresh None held by (cases r) (auto simp: takes_def)
  qed
qed

lemma core_take:
  assumes "pool_core ops N {} st" "state_take ops now st = (r, st')"
  shows "pool_core ops N (set_option r) st' \<and> takes st r st' \<and> set (fs_held st') \<subseteq> set (fs_held st) \<and>
    (\<forall>i. r = Some i \<longrightarrow> i < fs_count st \<and> i \<notin> lease_keys st \<and>
       (i \<in> set (fs_held st) \<longrightarrow> (\<exists>u. fs_held_until st = Some u \<and> u \<le> now)))"
proof (cases "\<exists>u i hs. fs_held_until st = Some u \<and> fs_held st = i # hs \<and> u \<le> now")
  case True
  then obtain u i hs where u: "fs_held_until st = Some u" "fs_held st = i # hs" "u \<le> now" by blast
  then have r: "r = Some i" "st' = st\<lparr>fs_held := hs\<rparr>" using assms(2) by (auto simp: state_take_def)
  have i: "had st i" "\<not> named st i" "i \<notin> set hs" using assms(1) u(2) by (auto simp: pool_core_def)
  have "pool_core ops N {i} st'" "i \<notin> lease_keys st"
    using assms(1) u(2) i unfolding pool_core_def by (auto simp: r(2) idle_keys_def lease_keys_def named_def)
  then show ?thesis using r u i by (auto simp: takes_def named_def had_def)
next
  case False
  then have "take_free ops st = (r, st')" using assms(2) by (auto simp: state_take_def split: option.splits list.splits if_splits)
  from core_take_free[OF assms(1) this] show ?thesis by auto
qed

lemma core_give:
  assumes "pool_core ops N {i} st" "normalize_name name = Some name" "fs_indices st name = None"
  shows "pool_core ops N {} (give ops i name st) \<and>
    names_get (give ops i name st) j = (if j = i then Some name else names_get st j)"
proof -
  let ?st = "give ops i name st"
  have i: "had st i" "\<not> named st i" using assms(1) by (auto simp: pool_core_def)
  then have len: "unat i < length (fs_names st)" using assms(1) by (auto simp: had_def pool_core_def word_less_nat_alt)
  have g: "names_get ?st j = (if j = i then Some name else names_get st j)" for j
    using names_get_upd[OF len, of "Some name" j] by (simp add: give_def names_get_def)
  have nl: "i \<notin> lease_keys st" using assms(1) i by (auto simp: pool_core_def)
  have keys: "idle_keys ops ?st = insert i (idle_keys ops st)"
    using assms(1) by (auto simp: idle_keys_def give_def put_law cut_to_def pool_core_def set_drop_key image_iff)
  have ix: "fs_indices st n = Some k \<longleftrightarrow> names_get st k = Some n" for n k using assms(1) by (simp add: pool_core_def)
  have no: "names_get st j \<noteq> Some name" for j using ix[of name j] assms(3) by simp
  have "pool_core ops N {} ?st"
    using assms(1,2) g keys i nl no unfolding pool_core_def
    by (auto simp: give_def named_def lease_keys_def put_law had_def)
  then show ?thesis using g by blast
qed

end

lemma leases_ok_map_of: "leases_ok N ls \<Longrightarrow> map_of ls i = Some n \<Longrightarrow> 0 < unat n \<and> unat n \<le> N"
  by (auto simp: leases_ok_def dest: map_of_SomeD)

lemma lease_keys_map_of: "i \<in> lease_keys st \<longleftrightarrow> map_of (fs_leases st) i \<noteq> None"
  by (auto simp: lease_keys_def map_of_eq_None_iff)

lemma leases_ok_drop: "leases_ok N ls \<Longrightarrow> leases_ok N (drop_key i ls)"
  by (auto simp: leases_ok_def distinct_drop_key set_drop_key)

lemma leases_ok_set: "leases_ok N ls \<Longrightarrow> 0 < unat n \<Longrightarrow> unat n \<le> N \<Longrightarrow> leases_ok N (lease_set i n ls)"
  by (auto simp: leases_ok_def lease_set_def distinct_drop_key set_drop_key)

lemma leases_ok_mono: "leases_ok N ls \<Longrightarrow> N \<le> M \<Longrightarrow> leases_ok M ls"
  by (force simp: leases_ok_def)

lemma map_of_lease_set: "map_of (lease_set i n ls) = (map_of ls)(i \<mapsto> n)"
  by (simp add: lease_set_def map_of_drop_key)

lemma keys_lease_set: "fst ` set (lease_set i n ls) = insert i (fst ` set ls)"
  by (auto simp: lease_set_def keys_drop_key)

text \<open>A new set of leases, with the idle order that goes with it.\<close>

lemma core_leases:
  assumes "pool_core ops M F st" "leases_ok N ls" "\<forall>i\<in>fst ` set ls. named st i"
    "fst ` set (lru_iter ops idle) = {i. named st i \<and> i \<notin> fst ` set ls}" "lru_cap ops idle = None"
  shows "pool_core ops N F (st\<lparr>fs_leases := ls, fs_idle := idle\<rparr>)"
  using assms by (simp add: pool_core_def idle_keys_def lease_keys_def named_def)

context idle_lru
begin

lemma keys_put: "lru_cap ops l = None \<Longrightarrow> fst ` set (lru_iter ops (lru_put ops l k v)) = insert k (fst ` set (lru_iter ops l))"
  by (auto simp: put_law cut_to_def keys_drop_key)

lemma core_refresh: "pool_core ops N F st \<Longrightarrow> pool_core ops N F (refresh ops i st)"
  unfolding refresh_def by (rule core_idle) (auto simp: promote_law idle_keys_def pool_core_def)

lemma core_release:
  assumes "pool_core ops N F st"
  shows "pool_core ops N F (release ops i st) \<and> names_get (release ops i st) = names_get st \<and>
    map_of (fs_leases (release ops i st)) = (case map_of (fs_leases st) i of
      None \<Rightarrow> map_of (fs_leases st)
    | Some n \<Rightarrow> (map_of (fs_leases st))(i := if unat n = 1 then None else Some (n - 1)))"
proof (cases "map_of (fs_leases st) i")
  case (Some n)
  have ok: "leases_ok N (fs_leases st)" and idle: "idle_keys ops st = {i. named st i \<and> i \<notin> lease_keys st}"
    and cap: "lru_cap ops (fs_idle st) = None" and nl: "\<forall>i\<in>lease_keys st. named st i"
    using assms by (auto simp: pool_core_def)
  have n: "0 < unat n" "unat n \<le> N" using leases_ok_map_of[OF ok Some] by auto
  then have u: "unat (n - 1) = unat n - 1" by (simp add: unat_sub word_le_nat_alt)
  then have zero: "n - 1 = 0 \<longleftrightarrow> unat n = 1" using n by (auto simp: word_unat_eq_iff)
  have ik: "i \<in> lease_keys st" "named st i" using Some nl by (auto simp: lease_keys_map_of)
  have nth: "fs_names st ! unat i \<noteq> None" using ik(2) by (auto simp: named_def names_get_def split: if_splits)
  have "pool_core ops N F (st\<lparr>fs_leases := drop_key i (fs_leases st), fs_idle := lru_put ops (fs_idle st) i ()\<rparr>)"
  proof (rule core_leases[OF assms leases_ok_drop[OF ok]])
    show "fst ` set (lru_iter ops (lru_put ops (fs_idle st) i ())) = {j. named st j \<and> j \<notin> fst ` set (drop_key i (fs_leases st))}"
      using idle ik by (auto simp: keys_put[OF cap] keys_drop_key idle_keys_def lease_keys_def)
  qed (use nl cap in \<open>auto simp: put_law keys_drop_key lease_keys_def\<close>)
  moreover have "pool_core ops N F (st\<lparr>fs_leases := lease_set i (n - 1) (fs_leases st)\<rparr>)" if "unat n \<noteq> 1"
  proof -
    have keys: "fst ` set (lease_set i (n - 1) (fs_leases st)) = lease_keys st"
      using ik(1) by (simp add: keys_lease_set lease_keys_def insert_absorb)
    have "leases_ok N (lease_set i (n - 1) (fs_leases st))" using that n u ok by (intro leases_ok_set) auto
    from core_leases[OF assms this, of "fs_idle st"] show ?thesis
      using nl idle cap unfolding keys by (simp add: idle_keys_def)
  qed
  ultimately show ?thesis using Some zero nth
    by (auto simp: release_def Let_def map_of_drop_key map_of_lease_set)
qed (use assms in \<open>simp add: release_def\<close>)

lemma core_lease:
  assumes "pool_core ops N F (fp_state p)" "lease ops ip p = (r, p')" "Suc N < 2 ^ 32"
  shows "pool_core ops (Suc N) F (fp_state p') \<and> names_get (fp_state p') = names_get (fp_state p) \<and>
    (case r of
       None \<Rightarrow> p' = p
     | Some (name, i) \<Rightarrow> index_of ip = Some i \<and> names_get (fp_state p) i = Some name \<and>
         map_of (fs_leases (fp_state p')) = (map_of (fs_leases (fp_state p)))(i \<mapsto>
           (case map_of (fs_leases (fp_state p)) i of None \<Rightarrow> 1 | Some n \<Rightarrow> n + 1)))"
proof (cases "Option.bind (index_of ip) (names_get (fp_state p))")
  case None
  then have "p' = p" "r = None" using assms(2) by (auto simp: lease_def split: option.splits)
  then show ?thesis using assms(1) leases_ok_mono[of N _ "Suc N"] by (auto simp: pool_core_def)
next
  case (Some name)
  let ?st = "fp_state p"
  obtain i where i: "index_of ip = Some i" "names_get ?st i = Some name" using Some by (auto simp: bind_eq_Some_conv)
  define n where "n = (case map_of (fs_leases ?st) i of None \<Rightarrow> 0 | Some n \<Rightarrow> n) + (1 :: u32)"
  have r: "r = Some (name, i)" "fp_state p' = ?st\<lparr>fs_leases := lease_set i n (fs_leases ?st),
      fs_idle := lru_pop ops (fs_idle ?st) i\<rparr>"
    using assms(2) i by (auto simp: lease_def n_def Let_def)
  have ok: "leases_ok N (fs_leases ?st)" and idle: "idle_keys ops ?st = {i. named ?st i \<and> i \<notin> lease_keys ?st}"
    and cap: "lru_cap ops (fs_idle ?st) = None" and nl: "\<forall>i\<in>lease_keys ?st. named ?st i"
    using assms(1) by (auto simp: pool_core_def)
  have "unat (case map_of (fs_leases ?st) i of None \<Rightarrow> 0 | Some n \<Rightarrow> n) \<le> N"
    using leases_ok_map_of[OF ok, of i] by (auto split: option.splits)
  then have "unat n \<le> Suc N \<and> 0 < unat n" using assms(3) by (simp add: n_def unat_word_ariths)
  then have "leases_ok (Suc N) (lease_set i n (fs_leases ?st))"
    using leases_ok_set leases_ok_mono[OF ok] by auto
  from core_leases[OF assms(1) this, of "lru_pop ops (fs_idle ?st) i"]
  have "pool_core ops (Suc N) F (fp_state p')"
    using idle cap nl i by (auto simp: r(2) keys_lease_set lease_keys_def pop_law keys_drop_key idle_keys_def named_def)
  then show ?thesis using r i n_def by (auto simp: map_of_lease_set split: option.splits)
qed

end

section \<open>Holding back and restoring\<close>

text \<open>What the file may hold for a pool of \<open>count\<close> indices.\<close>

definition table_ok :: "u32 \<Rightarrow> file_table \<Rightarrow> bool" where
  "table_ok count t \<longleftrightarrow>
     tb_cursor t \<le> count \<and> distinct (map fst (tb_entries t)) \<and> distinct (map snd (tb_entries t)) \<and>
     (\<forall>(i, n)\<in>set (tb_entries t). i < count \<and> (tb_wrapped t \<or> i < tb_cursor t) \<and> normalize_name n = Some n)"

text \<open>The names of a file, one entry after the other.\<close>

definition restored :: "'l idle_ops \<Rightarrow> 'l fake_state \<Rightarrow> (u32 \<times> string) list \<Rightarrow> 'l fake_state \<Rightarrow> bool" where
  "restored ops st es st' \<longleftrightarrow>
     fs_count st' = fs_count st \<and> fs_cursor st' = fs_cursor st \<and> fs_wrapped st' = fs_wrapped st \<and> fs_leases st' = fs_leases st \<and>
     fs_held_until st' = fs_held_until st \<and> length (fs_names st') = length (fs_names st) \<and>
     (\<forall>i. names_get st' i = (case map_of es i of Some n \<Rightarrow> Some n | None \<Rightarrow> names_get st i)) \<and>
     lru_cap ops (fs_idle st') = None \<and> lru_iter ops (fs_idle st') = rev (map (\<lambda>(i, _). (i, ())) es) @ lru_iter ops (fs_idle st) \<and>
     (\<forall>n i. fs_indices st' n = Some i \<longleftrightarrow> (i, n) \<in> set es \<or> (n \<notin> snd ` set es \<and> fs_indices st n = Some i))"

context idle_lru
begin

lemma core_hold_loop:
  "pool_core ops N {} st \<Longrightarrow> pool_core ops N {} (hold_loop ops want st) \<and> fs_leases (hold_loop ops want st) = fs_leases st \<and>
     set (fs_held st) \<subseteq> set (fs_held (hold_loop ops want st)) \<and> fs_count (hold_loop ops want st) = fs_count st"
proof (induction want arbitrary: st)
  case (Suc want)
  obtain r st' where t: "take_free ops st = (r, st')" by fastforce
  note f = core_take_free[OF Suc.prems t]
  show ?case
  proof (cases r)
    case None
    then show ?thesis using f t by (auto simp: takes_def)
  next
    case (Some i)
    then have "pool_core ops N {} (st'\<lparr>fs_held := fs_held st' @ [i]\<rparr>)"
      using f by (auto simp: pool_core_def idle_keys_def lease_keys_def named_def)
    from Suc.IH[OF this] show ?thesis using f t Some by (auto simp: takes_def)
  qed
qed simp

lemma hold_back_ok:
  assumes "pool_core ops N {} st"
  shows "pool_ok ops N (hold_back ops want now st)" "set (fs_held st) \<subseteq> set (fs_held (hold_back ops want now st))"
    "fs_held (hold_back ops want now st) \<noteq> [] \<Longrightarrow> fs_held_until (hold_back ops want now st) = Some (now + QUARANTINE)"
    "fs_leases (hold_back ops want now st) = fs_leases st"
  using core_hold_loop[OF assms, of want]
  by (auto simp: hold_back_def Let_def pool_ok_def pool_core_def idle_keys_def lease_keys_def named_def)

lemma restored_fold:
  assumes "distinct (map fst es)" "distinct (map snd es)" "\<forall>e\<in>set es. unat (fst e) < length (fs_names st)"
    "lru_cap ops (fs_idle st) = None" "fst ` set es \<inter> fst ` set (lru_iter ops (fs_idle st)) = {}"
  shows "restored ops st es (fold (restore_entry ops) es st)"
  using assms
proof (induction es rule: rev_induct)
  case (snoc e es)
  obtain i n where e: "e = (i, n)" by fastforce
  let ?st = "fold (restore_entry ops) es st"
  have IH: "restored ops st es ?st" using snoc by auto
  have len: "unat i < length (fs_names ?st)" using IH snoc.prems(3) e by (simp add: restored_def)
  have g: "names_get (restore_entry ops e ?st) j = (if j = i then Some n else names_get ?st j)" for j
    using names_get_upd[OF len, of "Some n" j] by (simp add: restore_entry_def e names_get_def)
  have ni: "i \<notin> fst ` set es" "n \<notin> snd ` set es" using snoc.prems(1,2) e by auto
  have it: "lru_iter ops (fs_idle (restore_entry ops e ?st)) = (i, ()) # lru_iter ops (fs_idle ?st)"
  proof -
    have "fst ` set (lru_iter ops (fs_idle ?st)) = fst ` set es \<union> fst ` set (lru_iter ops (fs_idle st))"
      using IH unfolding restored_def by (simp add: image_Un image_image case_prod_unfold)
    then have "i \<notin> fst ` set (lru_iter ops (fs_idle ?st))" using ni(1) snoc.prems(5) e by auto
    then show ?thesis using IH e by (simp add: restore_entry_def put_law cut_to_def restored_def drop_key_absent)
  qed
  have mo: "map_of (es @ [e]) j = (if j = i then Some n else map_of es j)" for j
    using ni(1)[folded map_of_eq_None_iff] e by (cases "j = i") (auto simp: map_add_def split: option.splits)
  have ix: "fs_indices (restore_entry ops e ?st) n' = Some i' \<longleftrightarrow>
      (i', n') \<in> set (es @ [e]) \<or> (n' \<notin> snd ` set (es @ [e]) \<and> fs_indices st n' = Some i')" for n' i'
  proof (cases "n' = n")
    case True
    then show ?thesis using ni(2) by (force simp: restore_entry_def e)
  next
    case False
    then show ?thesis using IH by (auto simp: restore_entry_def e restored_def)
  qed
  have nm: "names_get (restore_entry ops e ?st) j = (case map_of (es @ [e]) j of Some n \<Rightarrow> Some n | None \<Rightarrow> names_get st j)" for j
    using IH g[of j] mo[of j] by (simp add: restored_def)
  show ?case using IH unfolding restored_def fold_append comp_def fold.simps id_apply it nm ix
    by (simp add: restore_entry_def e put_law)
qed (simp add: restored_def)

end

context idle_lru
begin

lemma restore_core:
  assumes "table_ok count t" "count \<le> FAKE_COUNT"
  shows "pool_core ops N {} (restore ops count t)"
    and "names_get (restore ops count t) i = map_of (tb_entries t) i"
    and "lru_iter ops (fs_idle (restore ops count t)) = rev (map (\<lambda>(i, _). (i, ())) (tb_entries t))"
    and "fs_leases (restore ops count t) = []" "fs_count (restore ops count t) = count"
    and "fs_cursor (restore ops count t) = tb_cursor t" "fs_wrapped (restore ops count t) = (tb_wrapped t \<or> count \<le> tb_cursor t)"
proof -
  let ?es = "tb_entries t"
  define st0 where "st0 = (state_new ops count)\<lparr>fs_cursor := tb_cursor t, fs_wrapped := (tb_wrapped t \<or> count \<le> tb_cursor t)\<rparr>"
  define st1 where "st1 = fold (restore_entry ops) ?es st0"
  define bound where "bound = (if fs_wrapped st1 then fs_count st1 else fs_cursor st1)"
  define st2 where "st2 = st1\<lparr>fs_held := map of_nat (filter (\<lambda>i. fs_names st1 ! i = None) [0..<unat bound])\<rparr>"
  have es: "distinct (map fst ?es)" "distinct (map snd ?es)"
    "\<And>i n. (i, n) \<in> set ?es \<Longrightarrow> i < count \<and> (tb_wrapped t \<or> i < tb_cursor t) \<and> normalize_name n = Some n"
    "tb_cursor t \<le> count"
    using assms(1) by (auto simp: table_ok_def)
  have min: "min count FAKE_COUNT = count" using assms(2) by simp
  have st0: "fs_count st0 = count" "length (fs_names st0) = unat count" "names_get st0 i = None" "lru_iter ops (fs_idle st0) = []"
    "lru_cap ops (fs_idle st0) = None" "fs_leases st0 = []" "fs_indices st0 = Map.empty" for i
    by (simp_all add: st0_def state_new_def Let_def min unbounded_law names_get_def)
  have eq: "restore ops count t = st2"
    by (simp add: restore_def Let_def st2_def bound_def st1_def st0_def state_new_def min)
  have r: "restored ops st0 ?es st1"
    unfolding st1_def using es st0 by (intro restored_fold) (auto simp: word_less_nat_alt)
  have g: "names_get st2 i = map_of ?es i" for i using r by (simp add: st2_def restored_def st0 split: option.splits)
  have f: "fs_count st2 = count" "fs_cursor st2 = tb_cursor t" "fs_wrapped st2 = (tb_wrapped t \<or> count \<le> tb_cursor t)" "fs_leases st2 = []"
    "lru_iter ops (fs_idle st2) = rev (map (\<lambda>(i, _). (i, ())) ?es)" "length (fs_names st2) = unat count"
    "lru_cap ops (fs_idle st2) = None"
    using r by (simp_all add: st2_def restored_def st0) (simp_all add: st0_def)
  have b: "bound \<le> count" using r es(4) f by (auto simp: bound_def restored_def st0 st2_def)
  have bd: "i < bound \<longleftrightarrow> had st2 i" for i
    using b f by (auto simp: bound_def had_def st2_def)
  have nth: "fs_names st1 ! k = names_get st2 (of_nat k)" if "k < unat bound" for k
  proof -
    have "k < unat count" using that b by (simp add: word_le_nat_alt)
    then have "k < 2 ^ 32" using unsigned_less[of count, where 'a = nat] by simp
    then have "unat (of_nat k :: u32) = k" by (simp add: unat_of_nat)
    then show ?thesis using \<open>k < unat count\<close> f(6) by (simp add: names_get_def st2_def)
  qed
  have lt: "k < unat bound \<Longrightarrow> unat (of_nat k :: u32) = k" for k
    using unsigned_less[of bound, where 'a = nat] by (simp add: unat_of_nat)
  have held: "set (fs_held st2) = {i. had st2 i \<and> names_get st2 i = None}"
  proof (intro set_eqI iffI)
    fix i assume "i \<in> set (fs_held st2)"
    then obtain k where "i = of_nat k" "k < unat bound" "fs_names st1 ! k = None" by (auto simp: st2_def)
    then show "i \<in> {i. had st2 i \<and> names_get st2 i = None}" using nth[of k] lt[of k] bd[of i] by (simp add: word_less_nat_alt)
  next
    fix i assume i: "i \<in> {i. had st2 i \<and> names_get st2 i = None}"
    then have "unat i < unat bound" using bd[of i] by (simp add: word_less_nat_alt)
    then show "i \<in> set (fs_held st2)" using i nth[of "unat i"] by (force simp: st2_def image_iff)
  qed
  have "inj_on (of_nat :: nat \<Rightarrow> u32) {k. k < unat bound}" using lt by (intro inj_onI) (metis mem_Collect_eq)
  then have dist: "distinct (fs_held st2)" by (auto simp: st2_def distinct_map elim!: inj_on_subset)
  have ix: "fs_indices st2 n = Some i \<longleftrightarrow> names_get st2 i = Some n" for n i
  proof -
    have "fs_indices st2 n = Some i \<longleftrightarrow> (i, n) \<in> set ?es" using r by (simp add: st2_def restored_def st0)
    then show ?thesis using es(1) by (simp only: g map_of_eq_Some_iff)
  qed
  have keys: "idle_keys ops st2 = {i. named st2 i}"
    using dom_map_of_conv_image_fst[of ?es]
    by (simp add: idle_keys_def f(5) named_def g image_image case_prod_unfold dom_def)
  have nm: "names_get st2 i = Some n \<Longrightarrow> had st2 i \<and> normalize_name n = Some n" for i n
    using es(3)[of i n] map_of_SomeD[of ?es i n] f by (auto simp: g had_def)
  show "pool_core ops N {} (restore ops count t)"
    unfolding eq pool_core_def using f es(4) assms(2) ix nm held dist keys
    by (auto simp: lease_keys_def leases_ok_def named_def)
  show "names_get (restore ops count t) i = map_of (tb_entries t) i" by (simp add: eq g)
  show "lru_iter ops (fs_idle (restore ops count t)) = rev (map (\<lambda>(i, _). (i, ())) (tb_entries t))"
    "fs_leases (restore ops count t) = []" "fs_count (restore ops count t) = count"
    "fs_cursor (restore ops count t) = tb_cursor t" "fs_wrapped (restore ops count t) = (tb_wrapped t \<or> count \<le> tb_cursor t)"
    by (simp_all add: eq f)
qed

end

section \<open>The file\<close>

lemma show_nat_digits: "list_all is_ascii_digit (show_nat n) \<and> show_nat n \<noteq> []"
proof (induction n rule: show_nat.induct)
  case (1 n)
  have "is_ascii_digit (char_of (48 + k))" if "k < 10" for k :: nat using that by (simp add: is_ascii_digit_def code_char_of)
  with 1 show ?case by (subst (1 2) show_nat.simps) auto
qed

lemma digits_value_append:
  "digits_value acc (a @ b) = (case digits_value acc a of None \<Rightarrow> None | Some v \<Rightarrow> digits_value v b)"
  by (induction acc a rule: digits_value.induct) auto

lemma digits_value_show: "digits_value 0 (show_nat n) = Some n"
proof (induction n rule: show_nat.induct)
  case (1 n)
  show ?case
  proof (cases "n < 10")
    case True
    then show ?thesis by (subst show_nat.simps) (simp add: is_ascii_digit_def code_char_of)
  next
    case False
    then show ?thesis using 1 by (subst show_nat.simps) (simp add: digits_value_append is_ascii_digit_def code_char_of)
  qed
qed

lemma number_show: "number (show_nat (unat i)) = Some i"
proof -
  obtain c cs where s: "show_nat (unat i) = c # cs" using show_nat_digits[of "unat i"] by (cases "show_nat (unat i)") auto
  then have "c \<noteq> CHR ''+''" using show_nat_digits[of "unat i"] by (auto simp: is_ascii_digit_def code_def)
  then have "parse_uint 4294967296 (show_nat (unat i)) = Some (unat i)"
    using digits_value_show[of "unat i"] unsigned_less[of i, where 'a = nat] by (simp add: parse_uint_def s)
  then show ?thesis using show_nat_digits[of "unat i"] by (simp add: number_def parse_u32_def)
qed

lemma not_in_digits: "\<not> is_ascii_digit c \<Longrightarrow> c \<notin> set (show_nat n)"
  using show_nat_digits[of n] by (auto simp: list_all_iff)

lemma flag_show: "flag (show_flag b) = Some b" "CHR '' '' \<notin> set (show_flag b)" "CHR 0x0A \<notin> set (show_flag b)" "show_flag b \<noteq> []"
  by (auto simp: flag_def show_flag_def)

lemma split_once_first: "c \<notin> set a \<Longrightarrow> split_once c (a @ c # b) = Some (a, b)"
proof -
  assume "c \<notin> set a"
  then have "takeWhile (\<lambda>x. x \<noteq> c) (a @ c # b) = a" by (subst takeWhile_append2) auto
  then show ?thesis by (simp add: split_once_def)
qed

lemma split_entry_show: "split_entry (show_nat (unat i) @ '' '' @ name) = Some (i, name)"
  using not_in_digits[of "CHR '' ''" "unat i"] split_once_first[of "CHR '' ''" "show_nat (unat i)" name]
  by (simp add: split_entry_def number_show is_ascii_digit_def code_def)

lemma normal_no_newline:
  assumes "normalize_name n = Some m"
  shows "CHR 0x0A \<notin> set m" "m \<noteq> []"
proof -
  have lab: "\<forall>w\<in>set (split_on (CHR ''.'') m). w \<noteq> [] \<and> list_all label_byte w"
    using assms by (auto simp: normalize_name_def Let_def list_all_iff split: if_splits)
  then show "m \<noteq> []" by auto
  have mem: "c \<in> set (join_with x ws) \<Longrightarrow> c = x \<or> (\<exists>w\<in>set ws. c \<in> set w)" for c x :: char and ws
    by (induction x ws rule: join_with.induct) auto
  show "CHR 0x0A \<notin> set m"
  proof
    assume "CHR 0x0A \<in> set m"
    then have "CHR 0x0A \<in> set (join_with (CHR ''.'') (split_on (CHR ''.'') m))" by (simp add: join_split_on)
    moreover have "\<not> label_byte (CHR 0x0A)" by (simp add: label_byte_def is_ascii_lower_def is_ascii_digit_def code_def)
    ultimately show False using mem lab by (fastforce simp: list_all_iff)
  qed
qed

definition entry_line :: "u32 \<times> string \<Rightarrow> string" where
  "entry_line e = show_nat (unat (fst e)) @ '' '' @ snd e"

lemma parse_entries_lines:
  assumes "distinct (map fst es)" "distinct (map snd es)"
    "\<forall>(i, n)\<in>set es. i < count \<and> (wrapped \<or> i < cursor) \<and> normalize_name n = Some n"
    "fst ` set es \<inter> I = {}" "snd ` set es \<inter> M = {}"
  shows "parse_entries count cursor wrapped at I M (map entry_line es) = Inr es"
  using assms
proof (induction es arbitrary: at I M)
  case (Cons e es)
  obtain i n where e: "e = (i, n)" by fastforce
  have "parse_entries count cursor wrapped (at + 1) (insert i I) (insert n M) (map entry_line es) = Inr es"
    using Cons.prems e by (intro Cons.IH) auto
  moreover have "split_entry (entry_line e) = Some (i, n)" using split_entry_show[of i n] by (simp add: entry_line_def e)
  ultimately show ?case using Cons.prems e by auto
qed simp

lemma split_on_lines: "\<forall>l\<in>set ls. CHR 0x0A \<notin> set l \<Longrightarrow> split_on (CHR 0x0A) (concat (map (\<lambda>l. l @ [CHR 0x0A]) ls)) = ls @ [[]]"
  by (induction ls) (auto simp: split_on_append split_on_no_sep)

definition head_line :: "file_table \<Rightarrow> bool \<Rightarrow> string" where
  "head_line t clean = join_with (CHR '' '')
     [''cursor'', show_nat (unat (tb_cursor t)), ''wrapped'', show_flag (tb_wrapped t), ''clean'', show_flag clean]"

lemma render_lines:
  "render t clean = concat (map (\<lambda>l. l @ [CHR 0x0A]) (MAGIC # head_line t clean # map entry_line (tb_entries t)))"
  by (simp add: render_def head_line_def entry_line_def case_prod_unfold comp_def)

lemma header_head: "header (head_line t clean) = Some (tb_cursor t, tb_wrapped t, clean)"
proof -
  have "CHR '' '' \<notin> set (show_nat n)" for n by (rule not_in_digits) (simp add: is_ascii_digit_def code_def)
  then have "split_on (CHR '' '') (head_line t clean) =
      [''cursor'', show_nat (unat (tb_cursor t)), ''wrapped'', show_flag (tb_wrapped t), ''clean'', show_flag clean]"
    unfolding head_line_def by (intro split_join_with) (auto simp: flag_show)
  then show ?thesis by (simp add: header_def number_show flag_show)
qed

lemma parse_render:
  assumes "table_ok count t"
  shows "parse_file (render t clean) count = Inr (t, clean)"
proof -
  let ?ls = "MAGIC # head_line t clean # map entry_line (tb_entries t)"
  have es: "distinct (map fst (tb_entries t))" "distinct (map snd (tb_entries t))"
    "\<forall>(i, n)\<in>set (tb_entries t). i < count \<and> (tb_wrapped t \<or> i < tb_cursor t) \<and> normalize_name n = Some n"
    "\<not> count < tb_cursor t"
    using assms by (auto simp: table_ok_def)
  have nl: "CHR 0x0A \<notin> set (show_nat n)" for n by (rule not_in_digits) (simp add: is_ascii_digit_def code_def)
  have "CHR 0x0A \<notin> set l" if l: "l \<in> set ?ls" for l
  proof -
    consider "l = MAGIC" | "l = head_line t clean" | i n where "(i, n) \<in> set (tb_entries t)" "l = entry_line (i, n)" using l by auto
    then show ?thesis
    proof cases
      case 3
      then show ?thesis using es(3) normal_no_newline(1) nl by (auto simp: entry_line_def)
    qed (auto simp: MAGIC_def head_line_def nl flag_show)
  qed
  then have sp: "split_on (CHR 0x0A) (render t clean) = ?ls @ [[]]" unfolding render_lines by (intro split_on_lines) simp
  have "last ?ls \<noteq> []"
    by (cases "tb_entries t" rule: rev_cases) (auto simp: head_line_def entry_line_def)
  then have pb: "pop_blank (pop_blank (?ls @ [[]])) = ?ls" by (simp add: pop_blank_def butlast_append)
  have "parse_entries count (tb_cursor t) (tb_wrapped t) 3 {} {} (map entry_line (tb_entries t)) = Inr (tb_entries t)"
    using es by (intro parse_entries_lines) auto
  then show ?thesis using es(4) unfolding parse_file_def sp pb by (simp add: header_head)
qed

lemma parse_entries_ok:
  "parse_entries count cursor wrapped at I M ls = Inr es \<Longrightarrow>
   distinct (map fst es) \<and> distinct (map snd es) \<and> fst ` set es \<inter> I = {} \<and> snd ` set es \<inter> M = {} \<and>
   (\<forall>(i, n)\<in>set es. i < count \<and> (wrapped \<or> i < cursor) \<and> normalize_name n = Some n)"
proof (induction ls arbitrary: at I M es)
  case (Cons l ls)
  from Cons.prems obtain i n es' where e: "split_entry l = Some (i, n)" "es = (i, n) # es'"
    and p: "parse_entries count cursor wrapped (at + 1) (insert i I) (insert n M) ls = Inr es'"
    and g: "i < count" "wrapped \<or> i < cursor" "i \<notin> I" "normalize_name n = Some n" "n \<notin> M"
    by (auto split: option.splits if_splits sum.splits simp: map_sum_def not_le)
  from Cons.IH[OF p] e g show ?case by auto
qed simp

lemma parse_file_ok: "parse_file content count = Inr (t, clean) \<Longrightarrow> table_ok count t"
proof -
  assume "parse_file content count = Inr (t, clean)"
  then obtain es ls where "parse_entries count (tb_cursor t) (tb_wrapped t) 3 {} {} ls = Inr es" "tb_entries t = es"
    "tb_cursor t \<le> count"
    by (auto simp: parse_file_def Let_def not_less map_sum_Inr split: if_splits option.splits)
  with parse_entries_ok show ?thesis by (fastforce simp: table_ok_def)
qed

section \<open>Writing and reading the table\<close>

lemma map_filter_named:
  "\<forall>i\<in>set ks. names_get st i \<noteq> None \<Longrightarrow>
   List.map_filter (named_entry st) ks = map (\<lambda>i. (i, the (names_get st i))) ks"
  by (induction ks) (auto simp: map_filter_simps named_entry_def names_get_def split: if_splits)

lemma map_of_keyed: "map_of (map (\<lambda>i. (i, f i)) ks) i = (if i \<in> set ks then Some (f i) else None)"
  by (induction ks) auto

context idle_lru
begin

definition file_order :: "'l fake_state \<Rightarrow> u32 list" where
  "file_order st = map fst (rev (lru_iter ops (fs_idle st))) @ sort (map fst (fs_leases st))"

lemma file_order_keys: "set (file_order st) = idle_keys ops st \<union> lease_keys st"
  by (simp add: file_order_def idle_keys_def lease_keys_def)

lemma set_file_order: "pool_core ops N F st \<Longrightarrow> set (file_order st) = {i. named st i}"
  unfolding file_order_keys pool_core_def by blast

lemma distinct_file_order: "pool_core ops N F st \<Longrightarrow> distinct (file_order st)"
proof -
  assume c: "pool_core ops N F st"
  then have "idle_keys ops st \<inter> lease_keys st = {}" "distinct (map fst (fs_leases st))"
    unfolding pool_core_def leases_ok_def by blast+
  then show ?thesis using iter_distinct[of "fs_idle st"] by (simp add: file_order_def idle_keys_def lease_keys_def flip: rev_map)
qed

lemma table_entries:
  assumes "pool_core ops N F st"
  shows "tb_entries (state_table ops st) = map (\<lambda>i. (i, the (names_get st i))) (file_order st)"
proof -
  have nm: "\<forall>i\<in>set (file_order st). names_get st i \<noteq> None"
    using set_file_order[OF assms] by (auto simp: named_def)
  have "List.map_filter (\<lambda>(index, _). named_entry st index) xs = List.map_filter (named_entry st) (map fst xs)" for xs :: "(u32 \<times> unit) list"
    by (induction xs) (auto simp: map_filter_simps split: option.splits)
  then have "tb_entries (state_table ops st) = List.map_filter (named_entry st) (file_order st)"
    by (simp add: state_table_def file_order_def List.map_filter_def)
  with map_filter_named[OF nm] show ?thesis by simp
qed

lemma table_names: "pool_core ops N F st \<Longrightarrow> map_of (tb_entries (state_table ops st)) i = names_get st i"
  using set_file_order[of N F st] by (auto simp: table_entries map_of_keyed named_def)

lemma table_ok_state:
  assumes "pool_core ops N F st"
  shows "table_ok (fs_count st) (state_table ops st)"
proof -
  have all: "had st i \<and> normalize_name (the (names_get st i)) = Some (the (names_get st i))" if "i \<in> set (file_order st)" for i
    using that assms set_file_order[OF assms] by (auto simp: named_def pool_core_def)
  have "inj_on (\<lambda>i. the (names_get st i)) (set (file_order st))"
    using set_file_order[OF assms] core_inj[OF assms] by (auto simp: inj_on_def named_def)
  then have "distinct (map (\<lambda>i. the (names_get st i)) (file_order st))"
    using distinct_file_order[OF assms] by (simp add: distinct_map)
  moreover have "tb_cursor (state_table ops st) = fs_cursor st" "tb_wrapped (state_table ops st) = fs_wrapped st"
    by (simp_all add: state_table_def)
  moreover have "fs_cursor st \<le> fs_count st" using assms by (simp add: pool_core_def)
  ultimately show ?thesis
    using all distinct_file_order[OF assms] by (simp add: table_ok_def table_entries[OF assms] comp_def had_def)
qed

text \<open>Opening the pool on any file at all.\<close>

lemma load_core: "pool_core ops N {} (fst (load ops r (min count FAKE_COUNT)))"
  by (auto simp: load_def core_new dest!: parse_file_ok intro!: restore_core(1)
      split: file_read.splits sum.splits)

lemma core_dirty: "pool_ok ops N (st\<lparr>fs_dirty := d\<rparr>) = pool_ok ops N st"
  by (simp add: pool_ok_def pool_core_def idle_keys_def lease_keys_def named_def)

lemma open_ok: "pool_ok ops N (fp_state (fst (open_sized ops r w now count q)))"
  using load_core[of N r count]
  by (auto simp: open_sized_def Let_def with_state_def core_dirty split: prod.splits intro!: hold_back_ok(1))

lemma new_ok: "pool_ok ops N (fp_state (pool_new ops))"
  using core_new[of N FAKE_COUNT] by (simp add: pool_ok_def pool_new_def with_state_def) (simp add: state_new_def Let_def)

end

end
