(* ===== verification/Rurge_Fake_Ip_Run.thy ===== *)
theory Rurge_Fake_Ip_Run
  imports Rurge_Fake_Ip_Facts "HOL-Library.Multiset"
begin

text \<open>
  The pool of fake addresses over time: the steps its users take, the leases they hold, what
  every run keeps, and a restart from the file.
\<close>

section \<open>Asking for an address\<close>

lemma length_as_bytes_lower: "length (as_bytes (to_ascii_lowercase s)) = length (as_bytes s)"
proof -
  have "length (char_bytes (to_ascii_lowercase_char c)) = length (char_bytes c)" for c
    by (auto simp: char_bytes_def Let_def to_ascii_lowercase_char_def is_ascii_upper_def code_char_of)
  then show ?thesis by (induction s) (auto simp: as_bytes_def to_ascii_lowercase_def)
qed

lemma normalize_idem:
  assumes "normalize_name name = Some n"
  shows "normalize_name n = Some n"
proof -
  obtain s where s: "n = to_ascii_lowercase s" "length (as_bytes s) \<le> 253"
    and lab: "list_all (\<lambda>label. label \<noteq> [] \<and> list_all label_byte label) (split_on (CHR ''.'') n)"
    using assms by (auto simp: normalize_name_def Let_def split: if_splits)
  have "\<not> ends_with ''.'' n"
  proof
    assume "ends_with ''.'' n"
    then have "n = take (length n - 1) n @ [CHR ''.'']" by (metis append_take_drop_id ends_with_def length_Cons list.size(3) One_nat_def)
    then have "split_on (CHR ''.'') n = split_on (CHR ''.'') (take (length n - 1) n) @ [[]]" by (metis split_on_append split_on.simps(1))
    with lab show False by simp
  qed
  then have "strip_suffix ''.'' n = None" by (simp add: strip_suffix_def)
  moreover have "length (as_bytes n) \<le> 253" "to_ascii_lowercase n = n" using s length_as_bytes_lower[of s] by (auto simp: comp_def)
  ultimately show ?thesis using lab by (simp add: normalize_name_def)
qed

lemma core_ix: "pool_core ops N F st \<Longrightarrow> fs_indices st n = Some i \<longleftrightarrow> names_get st i = Some n"
  by (simp add: pool_core_def)

definition due :: "'l fake_state \<Rightarrow> nat \<Rightarrow> bool" where
  "due st now \<longleftrightarrow> (\<exists>u. fs_held_until st = Some u \<and> u \<le> now)"

context idle_lru
begin

lemma take_none:
  assumes "pool_core ops N {} st" "state_take ops now st = (r, st')"
  shows "r = None \<longleftrightarrow> (\<forall>i<fs_count st. i \<in> lease_keys st \<or> (i \<in> set (fs_held st) \<and> \<not> due st now))"
proof (cases "due st now \<and> fs_held st \<noteq> []")
  case True
  then obtain u i hs where u: "fs_held_until st = Some u" "fs_held st = i # hs" "u \<le> now"
    by (auto simp: due_def neq_Nil_conv)
  then have "r = Some i" using assms(2) by (auto simp: state_take_def)
  moreover have "i \<notin> lease_keys st" "i < fs_count st" using assms(1) u(2) by (auto simp: pool_core_def had_def)
  ultimately show ?thesis using True by auto
next
  case False
  then have "take_free ops st = (r, st')"
    using assms(2) by (auto simp: state_take_def due_def split: option.splits list.splits if_splits)
  from core_take_free[OF assms(1) this]
  have "r = None \<longleftrightarrow> (\<forall>i<fs_count st. had st i) \<and> idle_keys ops st = {}" by blast
  moreover have "had st i \<longleftrightarrow> i \<in> idle_keys ops st \<or> i \<in> lease_keys st \<or> i \<in> set (fs_held st)" for i
    using assms(1) unfolding pool_core_def named_def by blast
  moreover have "idle_keys ops st \<inter> (lease_keys st \<union> set (fs_held st)) = {}"
    using assms(1) unfolding pool_core_def by blast
  moreover have "i \<in> idle_keys ops st \<Longrightarrow> i < fs_count st" for i
    using calculation(2)[of i] by (auto simp: had_def)
  moreover have "fs_held st = [] \<or> \<not> due st now" using False by blast
  ultimately show ?thesis by auto
qed

text \<open>What asking for a name changes, and what it answers.\<close>

lemma assign_core:
  assumes "pool_ok ops N (fp_state p)" "assign ops name now p = (r, p')"
  shows "pool_ok ops N (fp_state p') \<and> fs_leases (fp_state p') = fs_leases (fp_state p) \<and> fs_count (fp_state p') = fs_count (fp_state p) \<and>
    (\<forall>j n. names_get (fp_state p) j = Some n \<longrightarrow> names_get (fp_state p') j = Some n \<or> (r = Inr j \<and> j \<notin> lease_keys (fp_state p)))"
    and "r = Inl NotAName \<longleftrightarrow> normalize_name name = None"
    and "r = Inl Exhausted \<longleftrightarrow> (\<exists>n. normalize_name name = Some n \<and> fs_indices (fp_state p) n = None) \<and>
      (\<forall>i<fs_count (fp_state p). i \<in> lease_keys (fp_state p) \<or> (i \<in> set (fs_held (fp_state p)) \<and> \<not> due (fp_state p) now))"
    and "\<And>i. r = Inr i \<Longrightarrow> i < fs_count (fp_state p) \<and> (\<exists>n. normalize_name name = Some n \<and> names_get (fp_state p') i = Some n \<and>
      (case fs_indices (fp_state p) n of
         Some j \<Rightarrow> i = j
       | None \<Rightarrow> i \<notin> lease_keys (fp_state p) \<and> (i \<in> set (fs_held (fp_state p)) \<longrightarrow> due (fp_state p) now)))"
proof -
  let ?st = "fp_state p"
  let ?A = "pool_ok ops N (fp_state p') \<and> fs_leases (fp_state p') = fs_leases ?st \<and> fs_count (fp_state p') = fs_count ?st \<and>
    (\<forall>j n. names_get ?st j = Some n \<longrightarrow> names_get (fp_state p') j = Some n \<or> (r = Inr j \<and> j \<notin> lease_keys ?st))"
  let ?B = "r = Inl NotAName \<longleftrightarrow> normalize_name name = None"
  let ?C = "r = Inl Exhausted \<longleftrightarrow> (\<exists>n. normalize_name name = Some n \<and> fs_indices ?st n = None) \<and>
      (\<forall>i<fs_count ?st. i \<in> lease_keys ?st \<or> (i \<in> set (fs_held ?st) \<and> \<not> due ?st now))"
  let ?D = "\<forall>i. r = Inr i \<longrightarrow> i < fs_count ?st \<and> (\<exists>n. normalize_name name = Some n \<and> names_get (fp_state p') i = Some n \<and>
      (case fs_indices ?st n of Some j \<Rightarrow> i = j | None \<Rightarrow> i \<notin> lease_keys ?st \<and> (i \<in> set (fs_held ?st) \<longrightarrow> due ?st now)))"
  have core: "pool_core ops N {} ?st" and hu: "fs_held ?st = [] \<or> fs_held_until ?st \<noteq> None"
    using assms(1) by (auto simp: pool_ok_def)
  have "?A \<and> ?B \<and> ?C \<and> ?D"
  proof (cases "normalize_name name")
    case None
    then show ?thesis using assms by (auto simp: assign_def)
  next
    case (Some n)
    have nn: "normalize_name n = Some n" by (rule normalize_idem[OF Some])
    show ?thesis
    proof (cases "fs_indices ?st n")
      case (Some i)
      then have r: "r = Inr i" "p' = p\<lparr>fp_state := refresh ops i ?st\<rparr>" using assms(2) \<open>normalize_name name = Some n\<close> by (auto simp: assign_def)
      have "names_get ?st i = Some n" "i < fs_count ?st" using Some core by (auto simp: pool_core_def had_def)
      then show ?thesis using r core_refresh[OF core, of i] hu Some \<open>normalize_name name = Some n\<close>
        by (auto simp: pool_ok_def refresh_def)
    next
      case None
      obtain t st1 where t: "state_take ops now ?st = (t, st1)" by fastforce
      note take = core_take[OF core t] and ex = take_none[OF core t]
      have sub: "fs_held st1 = [] \<or> fs_held_until st1 \<noteq> None" using take hu by (auto simp: takes_def)
      show ?thesis
      proof (cases t)
        case None
        then have "r = Inl Exhausted" "p' = p\<lparr>fp_state := st1\<rparr>"
          using assms(2) \<open>normalize_name name = Some n\<close> \<open>fs_indices ?st n = None\<close> t by (auto simp: assign_def)
        then show ?thesis using take ex None sub \<open>normalize_name name = Some n\<close> \<open>fs_indices ?st n = None\<close>
          by (auto simp: pool_ok_def takes_def)
      next
        case (Some i)
        then have r: "r = Inr i" "fp_state p' = give ops i n st1"
          using assms(2) \<open>normalize_name name = Some n\<close> \<open>fs_indices ?st n = None\<close> t by (auto simp: assign_def)
        have c1: "pool_core ops N {i} st1" using take Some by simp
        have no: "names_get ?st j \<noteq> Some n" for j using \<open>fs_indices ?st n = None\<close> core_ix[OF core, of n j] by simp
        have "fs_indices st1 n = None"
        proof (cases "fs_indices st1 n")
          case (Some k)
          then have "names_get st1 k = Some n" using c1 by (auto simp: pool_core_def)
          then show ?thesis using take no[of k] by (auto simp: takes_def split: if_splits)
        qed
        note g = core_give[OF c1 nn this]
        have "fs_leases (give ops i n st1) = fs_leases st1" "fs_held (give ops i n st1) = fs_held st1"
          "fs_held_until (give ops i n st1) = fs_held_until st1" "fs_count (give ops i n st1) = fs_count st1"
          by (simp_all add: give_def)
        then show ?thesis using g r take ex Some sub \<open>normalize_name name = Some n\<close> \<open>fs_indices ?st n = None\<close>
          by (auto simp: pool_ok_def takes_def due_def)
      qed
    qed
  qed
  then show ?A ?B ?C "\<And>i. r = Inr i \<Longrightarrow> i < fs_count ?st \<and> (\<exists>n. normalize_name name = Some n \<and> names_get (fp_state p') i = Some n \<and>
      (case fs_indices ?st n of Some j \<Rightarrow> i = j | None \<Rightarrow> i \<notin> lease_keys ?st \<and> (i \<in> set (fs_held ?st) \<longrightarrow> due ?st now)))"
    by blast+
qed

end

section \<open>Runs\<close>

text \<open>
  The pool with the leases that are held. A step is a call of the pool, or a lease that is
  dropped; a lease can only be dropped by one who holds it. \<open>pool_run ops K\<close> is a run through
  states that satisfy \<open>K\<close>.
\<close>

type_synonym 'l pool_config = "'l fake_pool \<times> u32 multiset"

inductive pool_step :: "'l idle_ops \<Rightarrow> 'l pool_config \<Rightarrow> 'l pool_config \<Rightarrow> bool" for ops where
  step_assign: "assign ops name now p = (r, p') \<Longrightarrow> pool_step ops (p, h) (p', h)"
| step_name_of: "name_of ops ip p = (r, p') \<Longrightarrow> pool_step ops (p, h) (p', h)"
| step_no_lease: "lease ops ip p = (None, p') \<Longrightarrow> pool_step ops (p, h) (p', h)"
| step_lease: "lease ops ip p = (Some (name, i), p') \<Longrightarrow> size h + 1 < 2 ^ 32 \<Longrightarrow> pool_step ops (p, h) (p', add_mset i h)"
| step_drop: "i \<in># h \<Longrightarrow> pool_step ops (p, h) (lease_drop ops i p, h - {#i#})"
| step_save: "save_turn ops p = (t, p') \<Longrightarrow> pool_step ops (p, h) (p', h)"

inductive pool_run :: "'l idle_ops \<Rightarrow> ('l pool_config \<Rightarrow> bool) \<Rightarrow> 'l pool_config \<Rightarrow> 'l pool_config \<Rightarrow> bool" for ops K where
  run_start: "K s \<Longrightarrow> pool_run ops K s s"
| run_step: "pool_run ops K s s' \<Longrightarrow> pool_step ops s' s'' \<Longrightarrow> K s'' \<Longrightarrow> pool_run ops K s s''"

definition leases_of :: "'l fake_state \<Rightarrow> u32 \<Rightarrow> nat" where
  "leases_of st i = (case map_of (fs_leases st) i of None \<Rightarrow> 0 | Some n \<Rightarrow> unat n)"

definition config_ok :: "'l idle_ops \<Rightarrow> 'l pool_config \<Rightarrow> bool" where
  "config_ok ops s \<longleftrightarrow> pool_ok ops (size (snd s)) (fp_state (fst s)) \<and> (\<forall>i. leases_of (fp_state (fst s)) i = count (snd s) i)"

lemma count_le_size: "count h i \<le> size h"
  by (induction h) auto

lemma core_rebound:
  assumes "pool_core ops N F st" "\<forall>i. leases_of st i \<le> M"
  shows "pool_core ops M F st"
proof -
  have ok: "leases_ok N (fs_leases st)" using assms(1) by (simp add: pool_core_def)
  have "unat n \<le> M" if "(i, n) \<in> set (fs_leases st)" for i n
  proof -
    have "map_of (fs_leases st) i = Some n" using ok that by (simp add: leases_ok_def map_of_is_SomeI)
    then show ?thesis using assms(2)[rule_format, of i] by (simp add: leases_of_def)
  qed
  then have "leases_ok M (fs_leases st)" using ok by (auto simp: leases_ok_def)
  then show ?thesis using assms(1) by (simp add: pool_core_def)
qed

lemma leases_of_zero: "pool_core ops N F st \<Longrightarrow> leases_of st i = 0 \<longleftrightarrow> i \<notin> lease_keys st"
  using leases_ok_map_of[of N "fs_leases st" i]
  by (auto simp: leases_of_def lease_keys_map_of pool_core_def split: option.splits)

context idle_lru
begin

text \<open>A step keeps the leases that are held counted, and the name of every leased index.\<close>

lemma step_ok:
  assumes "pool_step ops s s'" "config_ok ops s"
  shows "config_ok ops s' \<and>
    (\<forall>i n. i \<in># snd s \<longrightarrow> names_get (fp_state (fst s)) i = Some n \<longrightarrow> names_get (fp_state (fst s')) i = Some n)"
  using assms
proof cases
  case (step_assign name now p r p' h)
  then have "pool_ok ops (size h) (fp_state p)" and cnt: "\<And>i. leases_of (fp_state p) i = count h i"
    using assms(2) by (auto simp: config_ok_def)
  note a = assign_core(1)[OF this(1) step_assign(3)]
  have "i \<in># h \<longleftrightarrow> i \<in> lease_keys (fp_state p)" for i
    using leases_of_zero[of ops "size h" "{}" "fp_state p" i] cnt[of i] assms(2) step_assign
    by (auto simp: config_ok_def pool_ok_def simp flip: count_greater_zero_iff)
  then show ?thesis using a cnt step_assign by (auto simp: config_ok_def leases_of_def)
next
  case (step_name_of ip p r p' h)
  then obtain i where "fp_state p' = fp_state p \<or> fp_state p' = refresh ops i (fp_state p)"
    by (force simp: name_of_def split: option.splits)
  moreover have "leases_of (refresh ops i (fp_state p)) = leases_of (fp_state p)" "names_get (refresh ops i (fp_state p)) = names_get (fp_state p)"
    "fs_held (refresh ops i (fp_state p)) = fs_held (fp_state p)" "fs_held_until (refresh ops i (fp_state p)) = fs_held_until (fp_state p)"
    by (simp_all add: refresh_def leases_of_def fun_eq_iff)
  ultimately show ?thesis using step_name_of assms(2) core_refresh[of "size h" "{}" "fp_state p" i]
    by (auto simp: config_ok_def pool_ok_def)
next
  case (step_no_lease ip p p' h)
  then show ?thesis using assms(2) by (auto simp: lease_def Let_def split: option.splits)
next
  case (step_lease ip p name i p' h)
  then have core: "pool_core ops (size h) {} (fp_state p)" and cnt: "\<And>i. leases_of (fp_state p) i = count h i"
    using assms(2) by (auto simp: config_ok_def pool_ok_def)
  note l = core_lease[OF core step_lease(3), simplified]
  have u: "unat (n + 1) = Suc (unat n)" if "map_of (fs_leases (fp_state p)) i = Some n" for n
    using that cnt[of i] count_le_size[of h i] step_lease(4) by (simp add: leases_of_def unat_word_ariths)
  have "leases_of (fp_state p') j = count (add_mset i h) j" for j
    using l step_lease(4) cnt[of j] u by (auto simp: leases_of_def split: option.splits)
  moreover have "fs_held (fp_state p') = fs_held (fp_state p)" "fs_held_until (fp_state p') = fs_held_until (fp_state p)"
    using step_lease(3) by (auto simp: lease_def Let_def split: option.splits)
  ultimately show ?thesis using l step_lease assms(2) by (auto simp: config_ok_def pool_ok_def)
next
  case (step_drop i h p)
  then have core: "pool_core ops (size h) {} (fp_state p)" and cnt: "\<And>i. leases_of (fp_state p) i = count h i"
    using assms(2) by (auto simp: config_ok_def pool_ok_def)
  note r = core_release[OF core, of i]
  have lok: "leases_ok (size h) (fs_leases (fp_state p))" using core by (simp add: pool_core_def)
  have u: "unat (n - 1) = unat n - 1" if "map_of (fs_leases (fp_state p)) i = Some n" for n
    using leases_ok_map_of[OF lok that] by (simp add: unat_sub word_le_nat_alt)
  have c: "leases_of (release ops i (fp_state p)) j = count (h - {#i#}) j" for j
    using r cnt[of j] u by (auto simp: leases_of_def split: option.splits)
  then have "\<forall>j. leases_of (release ops i (fp_state p)) j \<le> size (h - {#i#})" by (metis count_le_size)
  with r core_rebound have "pool_core ops (size (h - {#i#})) {} (release ops i (fp_state p))" by blast
  moreover have "fs_held (release ops i (fp_state p)) = fs_held (fp_state p)"
    "fs_held_until (release ops i (fp_state p)) = fs_held_until (fp_state p)"
    by (simp_all add: release_def Let_def split: option.split)
  ultimately show ?thesis using r c step_drop assms(2) by (auto simp: config_ok_def pool_ok_def lease_drop_def)
next
  case (step_save p t p' h)
  then have "fp_state p' = fp_state p \<or> fp_state p' = (fp_state p)\<lparr>fs_dirty := False\<rparr>"
    by (auto simp: save_turn_def take_if_dirty_def split: if_splits)
  then show ?thesis using assms(2) step_save core_dirty by (auto simp: config_ok_def leases_of_def)
qed

lemma run_ok:
  "pool_run ops K s s' \<Longrightarrow> config_ok ops s \<Longrightarrow> config_ok ops s'"
  by (induction rule: pool_run.induct) (use step_ok in blast)+

lemma run_names:
  "pool_run ops (\<lambda>s. i \<in># snd s) s s' \<Longrightarrow> config_ok ops s \<Longrightarrow> names_get (fp_state (fst s)) i = Some n \<Longrightarrow>
   names_get (fp_state (fst s')) i = Some n"
proof (induction rule: pool_run.induct)
  case (run_step s s' s'')
  have "i \<in># snd s'" using run_step.hyps(1) by (cases rule: pool_run.cases) auto
  then show ?case using run_step run_ok[OF run_step.hyps(1)] step_ok by blast
qed

lemma config_start: "pool_ok ops 0 (fp_state p) \<Longrightarrow> fs_leases (fp_state p) = [] \<Longrightarrow> config_ok ops (p, {#})"
  by (simp add: config_ok_def leases_of_def)

end

section \<open>A restart\<close>

context idle_lru
begin

lemma hold_loop_names:
  "pool_core ops N {} st \<Longrightarrow>
   names_get (hold_loop ops want st) j = names_get st j \<or>
     (names_get (hold_loop ops want st) j = None \<and> j \<in> set (fs_held (hold_loop ops want st)))"
proof (induction want arbitrary: st)
  case (Suc want)
  obtain r st' where t: "take_free ops st = (r, st')" by fastforce
  note f = core_take_free[OF Suc.prems t]
  show ?case
  proof (cases r)
    case None
    then show ?thesis using f t by (simp add: takes_def)
  next
    case (Some i)
    let ?st = "st'\<lparr>fs_held := fs_held st' @ [i]\<rparr>"
    have c: "pool_core ops N {} ?st" using f Some by (auto simp: pool_core_def idle_keys_def lease_keys_def named_def)
    have "i \<in> set (fs_held (hold_loop ops want ?st))" using core_hold_loop[OF c, of want] by auto
    moreover have "names_get ?st j = (if j = i then None else names_get st j)" using f Some by (auto simp: takes_def)
    ultimately show ?thesis using Suc.IH[OF c] t Some by (auto split: if_splits)
  qed
qed simp

text \<open>It holds back as many as it was asked to, or all there are.\<close>

lemma hold_loop_length:
  "pool_core ops N {} st \<Longrightarrow>
   length (fs_held (hold_loop ops want st)) = length (fs_held st) + want \<or>
     (\<forall>i<fs_count st. i \<in> lease_keys st \<or> i \<in> set (fs_held (hold_loop ops want st)))"
proof (induction want arbitrary: st)
  case (Suc want)
  obtain r st' where t: "take_free ops st = (r, st')" by fastforce
  note f = core_take_free[OF Suc.prems t]
  show ?case
  proof (cases r)
    case None
    then have "(\<forall>i<fs_count st. had st i) \<and> idle_keys ops st = {}" using f by blast
    then have "\<forall>i<fs_count st. i \<in> lease_keys st \<or> i \<in> set (fs_held st)"
      using Suc.prems unfolding pool_core_def named_def by blast
    then show ?thesis using f t None by auto
  next
    case (Some i)
    let ?st = "st'\<lparr>fs_held := fs_held st' @ [i]\<rparr>"
    have c: "pool_core ops N {} ?st" using f Some by (auto simp: pool_core_def idle_keys_def lease_keys_def named_def)
    have "lease_keys ?st = lease_keys st" "fs_count ?st = fs_count st" using f by (simp_all add: takes_def lease_keys_def)
    then show ?thesis using Suc.IH[OF c] f t Some by auto
  qed
qed simp

text \<open>The pool that is opened on the file of another one.\<close>

lemma open_saved:
  assumes "pool_ok ops N (fp_state p)"
    and "open_sized ops (FileText (render (state_table ops (fp_state p)) clean)) w now (fs_count (fp_state p)) q = (p', ld, text)"
  shows "ld = (if clean then LClean else LUnclean)"
    and "\<exists>d. fp_state p' = (hold_back ops (if clean then 0 else unat q) now
           (restore ops (fs_count (fp_state p)) (state_table ops (fp_state p))))\<lparr>fs_dirty := d\<rparr>"
proof -
  let ?st = "fp_state p"
  have core: "pool_core ops N {} ?st" and le: "fs_count ?st \<le> FAKE_COUNT" using assms(1) by (auto simp: pool_ok_def pool_core_def)
  have min: "min (fs_count ?st) FAKE_COUNT = fs_count ?st" using le by simp
  have "load ops (FileText (render (state_table ops ?st) clean)) (fs_count ?st) =
      (restore ops (fs_count ?st) (state_table ops ?st), if clean then LClean else LUnclean)"
    using parse_render[OF table_ok_state[OF core]] by (simp add: load_def)
  then show "ld = (if clean then LClean else LUnclean)"
    "\<exists>d. fp_state p' = (hold_back ops (if clean then 0 else unat q) now
           (restore ops (fs_count ?st) (state_table ops ?st)))\<lparr>fs_dirty := d\<rparr>"
    using assms(2) unfolding open_sized_def Let_def min by (auto simp: with_state_def split: if_splits)
qed

lemma restored_state:
  assumes "pool_core ops N {} st"
  shows "pool_core ops M {} (restore ops (fs_count st) (state_table ops st))"
    "names_get (restore ops (fs_count st) (state_table ops st)) = names_get st"
    "map fst (lru_iter ops (fs_idle (restore ops (fs_count st) (state_table ops st)))) = rev (file_order st)"
    "fs_cursor (restore ops (fs_count st) (state_table ops st)) = fs_cursor st"
    "fs_count (restore ops (fs_count st) (state_table ops st)) = fs_count st"
    "lease_keys (restore ops (fs_count st) (state_table ops st)) = {}"
proof -
  have le: "fs_count st \<le> FAKE_COUNT" using assms by (simp add: pool_core_def)
  note r = restore_core[OF table_ok_state[OF assms] le]
  show "pool_core ops M {} (restore ops (fs_count st) (state_table ops st))" by (rule r(1))
  show "names_get (restore ops (fs_count st) (state_table ops st)) = names_get st" using r(2) table_names[OF assms] by auto
  show "map fst (lru_iter ops (fs_idle (restore ops (fs_count st) (state_table ops st)))) = rev (file_order st)"
    unfolding r(3) table_entries[OF assms] by (simp add: rev_map comp_def)
  show "fs_cursor (restore ops (fs_count st) (state_table ops st)) = fs_cursor st"
    "fs_count (restore ops (fs_count st) (state_table ops st)) = fs_count st"
    "lease_keys (restore ops (fs_count st) (state_table ops st)) = {}"
    by (simp_all add: r lease_keys_def) (simp add: state_table_def)
qed

end

interpretation idle_ref: idle_lru lru_ref
  by (rule idle_lru.intro[OF lru_ref.lru_laws_axioms])

section \<open>What the pool promises\<close>

text \<open>
  An IPv4 or IPv6 address is the fake address of index \<open>i\<close> exactly when it is the one \<open>v4_of\<close>
  or \<open>v6_of\<close> gives for an index below the count, and such an address lies in the space set aside
  for fake addresses.
\<close>
theorem fake_index_iff:
  "(index_of ip = Some i \<longleftrightarrow> i < FAKE_COUNT \<and> (ip = V4 (v4_of i) \<or> ip = V6 (v6_of i))) \<and>
   (index_of ip = None \<or> in_space ip)"
proof
  show "index_of ip = Some i \<longleftrightarrow> i < FAKE_COUNT \<and> (ip = V4 (v4_of i) \<or> ip = V6 (v6_of i))" by (rule index_of_iff)
  show "index_of ip = None \<or> in_space ip"
    by (cases "index_of ip") (auto simp: index_of_iff in_space_v4 in_space_v6 simp del: index_of.simps)
qed

definition fake_start :: "'l idle_ops \<Rightarrow> 'l fake_pool \<Rightarrow> bool" where
  "fake_start ops p \<longleftrightarrow> p = pool_new ops \<or> (\<exists>r w now n q. p = fst (open_sized ops r w now n q))"

lemma open_leases: "lru_laws ops \<Longrightarrow> fs_leases (fp_state (fst (open_sized ops r w now n q))) = []"
proof -
  assume "lru_laws ops"
  then have i: "idle_lru ops" by (rule idle_lru.intro)
  have "fs_leases (fst (load ops r (min n FAKE_COUNT))) = []"
    using idle_lru.restore_core(4)[OF i parse_file_ok]
    by (auto simp: load_def state_new_def Let_def split: file_read.splits sum.splits)
  then show ?thesis using idle_lru.hold_back_ok(4)[OF i idle_lru.load_core[OF i, of 0 r n]]
    by (auto simp: open_sized_def Let_def with_state_def split: prod.splits)
qed

lemma start_config: "lru_laws ops \<Longrightarrow> fake_start ops p \<Longrightarrow> config_ok ops (p, {#})"
  using idle_lru.config_start[OF idle_lru.intro, of ops p] idle_lru.open_ok[OF idle_lru.intro, of ops 0]
    idle_lru.new_ok[OF idle_lru.intro, of ops 0] open_leases[of ops]
  by (auto simp: fake_start_def pool_new_def with_state_def state_new_def Let_def)

text \<open>
  C18. In every state that users of the pool can reach from a new pool or from one opened on any
  file, the names and their indices are inverse to each other, every index is one nobody has had,
  held back, idle or leased, and of no two of these kinds, and the count of leases on an index is
  the number of leases that are held.
\<close>
theorem fake_pool_invariant:
  assumes "lru_laws ops" "fake_start ops p0" "pool_run ops (\<lambda>_. True) (p0, {#}) (p, h)"
  shows "pool_ok ops (size h) (fp_state p) \<and> (\<forall>i. leases_of (fp_state p) i = count h i)"
  using idle_lru.run_ok[OF idle_lru.intro[OF assms(1)] assms(3) start_config[OF assms(1,2)]]
  by (simp add: config_ok_def)

text \<open>
  C17. While a lease on an address is held, whatever else is asked of the pool, the address keeps
  its name and the pool gives it to no other name.
\<close>
theorem leased_name_kept:
  assumes "lru_laws ops" "fake_start ops p0" "pool_run ops (\<lambda>_. True) (p0, {#}) (p, h)"
    and "lease ops ip p = (Some (name, i), p1)" "size h + 1 < 2 ^ 32"
    and "pool_run ops (\<lambda>s. i \<in># snd s) (p1, add_mset i h) (p2, h2)"
  shows "fst (name_of ops ip p2) = Some name \<and>
    (\<forall>other now j p3. assign ops other now p2 = (Inr j, p3) \<longrightarrow> normalize_name other \<noteq> Some name \<longrightarrow> j \<noteq> i)"
proof -
  note i = idle_lru.intro[OF assms(1)]
  have ok: "config_ok ops (p, h)" by (rule idle_lru.run_ok[OF i assms(3) start_config[OF assms(1,2)]])
  have l: "index_of ip = Some i" "names_get (fp_state p1) i = Some name"
    using idle_lru.core_lease[OF i _ assms(4) assms(5)[folded Suc_eq_plus1]] ok by (auto simp: config_ok_def pool_ok_def)
  have ok1: "config_ok ops (p1, add_mset i h)" using idle_lru.step_ok[OF i step_lease[OF assms(4,5)] ok] by simp
  have n2: "names_get (fp_state p2) i = Some name" using idle_lru.run_names[OF i assms(6) ok1] l(2) by simp
  have ok2: "config_ok ops (p2, h2)" by (rule idle_lru.run_ok[OF i assms(6) ok1])
  have "i \<in># h2" using assms(6) by (cases rule: pool_run.cases) auto
  have "j \<noteq> i" if a: "assign ops other now p2 = (Inr j, p3)" and o: "normalize_name other \<noteq> Some name" for other now j p3
  proof
    assume "j = i"
    have p2: "pool_ok ops (size h2) (fp_state p2)" using ok2 by (simp add: config_ok_def)
    have "names_get (fp_state p3) i = Some name"
      using idle_lru.step_ok[OF i step_assign[OF a, of h2] ok2] \<open>i \<in># h2\<close> n2 by simp
    then show False using idle_lru.assign_core(4)[OF i p2 a, of j] o \<open>j = i\<close> by auto
  qed
  then show ?thesis using l n2 by (auto simp: name_of_def)
qed

text \<open>
  C19. Asking for the address of a name: a name that has one gets it again, and else an index
  nobody leases and that is not held back any more. Either way both addresses of the index
  lead back to the name, and every other name keeps its index. What is no name is refused, and
  the pool is exhausted exactly when every index is leased or still held back.
\<close>
theorem assign_answers:
  assumes "lru_laws ops" "pool_ok ops N (fp_state p)" "assign ops name now p = (r, p')"
  shows "(case r of
      Inl NotAName \<Rightarrow> normalize_name name = None \<and> p' = p
    | Inl Exhausted \<Rightarrow> address_of name v6 p = None \<and>
        (\<forall>i<fs_count (fp_state p). i \<in> lease_keys (fp_state p) \<or> (i \<in> set (fs_held (fp_state p)) \<and> \<not> due (fp_state p) now))
    | Inr i \<Rightarrow> i < FAKE_COUNT \<and> fst (name_of ops (V4 (v4_of i)) p') = normalize_name name \<and>
        fst (name_of ops (V6 (v6_of i)) p') = normalize_name name \<and>
        address_of name v6 p' = Some (if v6 then V6 (v6_of i) else V4 (v4_of i)) \<and>
        (address_of name v6 p = address_of name v6 p' \<or>
         (address_of name v6 p = None \<and> i \<notin> lease_keys (fp_state p) \<and> (i \<in> set (fs_held (fp_state p)) \<longrightarrow> due (fp_state p) now)))) \<and>
    (\<forall>j n. r \<noteq> Inr j \<longrightarrow> names_get (fp_state p) j = Some n \<longrightarrow> names_get (fp_state p') j = Some n)"
proof -
  note i = idle_lru.intro[OF assms(1)]
  note a = idle_lru.assign_core[OF i assms(2,3)]
  have core: "pool_core ops N {} (fp_state p)" "pool_core ops N {} (fp_state p')" using assms(2) a(1) by (auto simp: pool_ok_def)
  have keep: "\<forall>j n. r \<noteq> Inr j \<longrightarrow> names_get (fp_state p) j = Some n \<longrightarrow> names_get (fp_state p') j = Some n" using a(1) by blast
  show ?thesis
  proof (cases r)
    case (Inl e)
    then show ?thesis
    proof (cases e)
      case NotAName
      then show ?thesis using Inl a(2) keep assms(3) by (auto simp: assign_def)
    next
      case Exhausted
      then show ?thesis using Inl a(3) keep by (auto simp: address_of_def)
    qed
  next
    case (Inr k)
    obtain n where n: "k < fs_count (fp_state p)" "normalize_name name = Some n" "names_get (fp_state p') k = Some n"
      and old: "case fs_indices (fp_state p) n of
         Some j \<Rightarrow> k = j
       | None \<Rightarrow> k \<notin> lease_keys (fp_state p) \<and> (k \<in> set (fs_held (fp_state p)) \<longrightarrow> due (fp_state p) now)"
      using a(4)[OF Inr] by blast
    have k: "k < FAKE_COUNT" using n(1) core(1) by (auto simp: pool_core_def)
    then have "index_of (V4 (v4_of k)) = Some k" "index_of (V6 (v6_of k)) = Some k" by (simp_all only: index_of_iff simp_thms)
    moreover have "fs_indices (fp_state p') n = Some k" using n(3) core_ix[OF core(2)] by simp
    ultimately show ?thesis using Inr k n(2,3) old keep
      by (auto simp: name_of_def address_of_def split: option.splits)
  qed
qed

text \<open>
  C20. What a file keeps of the table that was written to it. A pool that is opened on the file another
  one wrote at its end has every name at the address it had. One opened on a file that is not marked
  as the last of its pool, as after a crash, has each name of the table that was saved at its address
  or holds the address back; it holds back as many addresses as it was told to, or all there
  are, and none of them is given out before the quarantine ends. The saved table is that of the
  moment of the save: nothing is said of names that were given addresses after it.
\<close>
theorem fake_ip_survives_restart:
  assumes "lru_laws ops" "pool_ok ops N (fp_state p)"
    and "open_sized ops (FileText (render (state_table ops (fp_state p)) clean)) w now (fs_count (fp_state p)) q = (p', ld, text)"
  shows "if clean
    then ld = LClean \<and> save_end ops p = render (state_table ops (fp_state p)) clean \<and>
      names_get (fp_state p') = names_get (fp_state p) \<and> (\<forall>name v6. address_of name v6 p' = address_of name v6 p)
    else ld = LUnclean \<and>
      (\<forall>i. names_get (fp_state p') i = names_get (fp_state p) i \<or> (names_get (fp_state p') i = None \<and> i \<in> set (fs_held (fp_state p')))) \<and>
      (unat q \<le> length (fs_held (fp_state p')) \<or> (\<forall>i<fs_count (fp_state p). i \<in> set (fs_held (fp_state p')))) \<and>
      (\<forall>name now' i p''. assign ops name now' p' = (Inr i, p'') \<longrightarrow> i \<in> set (fs_held (fp_state p')) \<longrightarrow> now + QUARANTINE \<le> now')"
proof -
  note i = idle_lru.intro[OF assms(1)]
  let ?st = "fp_state p"
  let ?r = "restore ops (fs_count ?st) (state_table ops ?st)"
  have core: "pool_core ops N {} ?st" using assms(2) by (simp add: pool_ok_def)
  note r = idle_lru.restored_state[OF i core]
  note o = idle_lru.open_saved[OF i assms(2,3)]
  obtain d where d: "fp_state p' = (hold_back ops (if clean then 0 else unat q) now ?r)\<lparr>fs_dirty := d\<rparr>" using o(2) by blast
  have ok': "pool_ok ops N (fp_state p')"
    using idle_lru.hold_back_ok(1)[OF i r(1)] unfolding d idle_lru.core_dirty[OF i] by blast
  then have core': "pool_core ops N {} (fp_state p')" by (simp add: pool_ok_def)
  define l where "l = hold_loop ops (if clean then 0 else unat q) ?r"
  have f: "names_get (fp_state p') = names_get l" "fs_held (fp_state p') = fs_held l"
    "fs_held (fp_state p') \<noteq> [] \<Longrightarrow> fs_held_until (fp_state p') = Some (now + QUARANTINE)"
  proof -
    have "fp_state p' = (if fs_held l \<noteq> [] then l\<lparr>fs_held_until := Some (now + QUARANTINE)\<rparr> else l)\<lparr>fs_dirty := d\<rparr>"
      by (simp only: d hold_back_def Let_def l_def)
    then show "names_get (fp_state p') = names_get l" "fs_held (fp_state p') = fs_held l"
      "fs_held (fp_state p') \<noteq> [] \<Longrightarrow> fs_held_until (fp_state p') = Some (now + QUARANTINE)"
      by (simp_all split: if_splits)
  qed
  show ?thesis
  proof (cases clean)
    case True
    then have same: "names_get (fp_state p') = names_get ?st" using f(1) r(2) by (simp add: l_def)
    have "fs_indices (fp_state p') n = fs_indices ?st n" for n
      by (metis core_ix[OF core] core_ix[OF core'] same not_None_eq)
    then have "\<forall>name v6. address_of name v6 p' = address_of name v6 p" by (simp add: address_of_def)
    then show ?thesis using True o(1) same by (simp add: save_end_def)
  next
    case False
    have "names_get (fp_state p') j = names_get ?st j \<or> (names_get (fp_state p') j = None \<and> j \<in> set (fs_held (fp_state p')))" for j
      using idle_lru.hold_loop_names[OF i r(1), of "unat q" j] f r(2) False by (simp add: l_def)
    moreover have "unat q \<le> length (fs_held (fp_state p')) \<or> (\<forall>i<fs_count ?st. i \<in> set (fs_held (fp_state p')))"
      using idle_lru.hold_loop_length[OF i r(1), of "unat q"] f(2) r(5,6) False by (auto simp: l_def)
    moreover have "now + QUARANTINE \<le> now'"
      if a: "assign ops name now' p' = (Inr k, p'')" and k: "k \<in> set (fs_held (fp_state p'))" for name now' k p''
    proof -
      have "fs_indices (fp_state p') n \<noteq> Some k" for n
        using k core' core_ix[OF core', of n k] by (auto simp: pool_core_def named_def)
      then have "due (fp_state p') now'"
        using idle_lru.assign_core(4)[OF i ok' a, of k] k by (auto split: option.splits)
      then show ?thesis using f(3) k by (fastforce simp: due_def)
    qed
    ultimately show ?thesis using False o(1) by auto
  qed
qed

section \<open>A small pool\<close>

text \<open>A pool of two addresses whose file is missing: one name is asked for, and then leased.\<close>

definition demo_pool :: "(u32, unit) list_lru fake_pool" where
  "demo_pool = fst (open_sized lru_ref FileMissing True 0 2 0)"

definition demo_named :: "(u32, unit) list_lru fake_pool" where
  "demo_named = snd (assign lru_ref ''A.b'' 0 demo_pool)"

definition demo_leased :: "(u32, unit) list_lru fake_pool" where
  "demo_leased = snd (lease lru_ref (V4 (v4_of 0)) demo_named)"

lemma demo_pool_eq: "demo_pool = \<lparr>fp_state = \<lparr>fs_count = 2, fs_names = [None, None], fs_indices = Map.empty, fs_idle = (None, []),
   fs_leases = [], fs_cursor = 0, fs_wrapped = False, fs_held = [], fs_held_until = None, fs_dirty = False\<rparr>, fp_changed = False\<rparr>"
proof -
  have "replicate 2 x = [x, x]" for x :: "string option" by (simp add: numeral_2_eq_2)
  then show ?thesis
    by (simp add: demo_pool_def open_sized_def load_def state_new_def Let_def FAKE_COUNT_def with_state_def hold_back_def lru_ref_def)
qed

lemma demo_name: "normalize_name ''A.b'' = Some ''a.b''"
  by code_simp

lemmas demo_simps = demo_pool_eq assign_def demo_name state_take_def take_free_def take_fresh_def Let_def give_def lru_ref_def
  cut_to_def drop_key_def list_iter_def

lemma demo_assign: "assign lru_ref ''A.b'' 0 demo_pool = (Inr 0, demo_named)"
  by (simp add: demo_named_def demo_simps)

lemma demo_index: "index_of (V4 (v4_of 0)) = Some 0"
  by (simp only: index_of_iff) (simp add: FAKE_COUNT_def)

lemma demo_lease: "lease lru_ref (V4 (v4_of 0)) demo_named = (Some (''a.b'', 0), demo_leased)"
proof -
  have "names_get (fp_state demo_named) 0 = Some ''a.b''" by (simp add: demo_named_def demo_simps names_get_def)
  then show ?thesis using demo_index by (simp add: demo_leased_def lease_def Let_def del: index_of.simps)
qed

lemma demo_start: "fake_start lru_ref demo_pool"
  unfolding fake_start_def demo_pool_def by blast

lemma demo_run: "pool_run lru_ref (\<lambda>_. True) (demo_pool, {#}) (demo_named, {#})"
  by (rule run_step[OF run_start step_assign[OF demo_assign]]) simp_all

lemma demo_run_lease: "pool_run lru_ref (\<lambda>_. True) (demo_pool, {#}) (demo_leased, {#0#})"
  by (rule run_step[OF demo_run step_lease[OF demo_lease]]) simp_all

lemma demo_ok: "pool_ok lru_ref 0 (fp_state demo_pool)"
  unfolding demo_pool_def by (rule idle_ref.open_ok)

theorem fake_pool_invariant_witness:
  "lru_laws lru_ref \<and> fake_start lru_ref demo_pool \<and> pool_ok lru_ref 1 (fp_state demo_leased) \<and> leases_of (fp_state demo_leased) 0 = 1"
  using fake_pool_invariant[OF lru_ref.lru_laws_axioms demo_start demo_run_lease] lru_ref.lru_laws_axioms demo_start by simp

theorem leased_name_kept_witness:
  "lease lru_ref (V4 (v4_of 0)) demo_named = (Some (''a.b'', 0), demo_leased) \<and>
   fst (name_of lru_ref (V4 (v4_of 0)) demo_leased) = Some ''a.b''"
  using leased_name_kept[OF lru_ref.lru_laws_axioms demo_start demo_run demo_lease, of demo_leased "{#0#}"]
    demo_lease run_start[of "\<lambda>s. 0 \<in># snd s" "(demo_leased, {#0#})" lru_ref] by simp

theorem assign_answers_witness:
  "fst (assign lru_ref ''A.b'' 0 demo_pool) = Inr 0 \<and> fst (name_of lru_ref (V6 (v6_of 0)) demo_named) = Some ''a.b''"
  using assign_answers[OF lru_ref.lru_laws_axioms demo_ok demo_assign] demo_assign demo_name by simp

theorem fake_ip_survives_restart_witness:
  "pool_ok lru_ref 0 (fp_state demo_pool) \<and>
   fst (snd (open_sized lru_ref (FileText (save_end lru_ref demo_named)) True 5 2 0)) = LClean \<and>
   address_of ''A.b'' False (fst (open_sized lru_ref (FileText (save_end lru_ref demo_named)) True 5 2 0)) = Some (V4 (v4_of 0))"
proof -
  have ok: "pool_ok lru_ref 0 (fp_state demo_named)" using idle_ref.assign_core(1)[OF demo_ok demo_assign] by simp
  have c: "fs_count (fp_state demo_named) = 2" and a: "address_of ''A.b'' False demo_named = Some (V4 (v4_of 0))"
    by (simp_all add: demo_named_def demo_simps address_of_def)
  show ?thesis
    using fake_ip_survives_restart[OF lru_ref.lru_laws_axioms ok, of True True 5 0] demo_ok a unfolding c
    by (cases "open_sized lru_ref (FileText (save_end lru_ref demo_named)) True 5 2 0") (auto simp: save_end_def)
qed

end
