(* ===== verification/Rurge_H3_Frame.thy ===== *)
theory Rurge_H3_Frame
  imports Rurge_Prelude
begin

unbundle bit_operations_syntax

text \<open>
  HTTP/3 frames, \<^verbatim>\<open>crates/rurge-net/src/quic/h3/frame.rs\<close>: the variable-length integers, whole
  frames and the server's SETTINGS. The crate \<open>bytes\<close>, through whose \<open>BufMut\<close> integers are
  written, is a parameter: a record of the methods the source calls, for an output that is
  read as the bytes it holds.
\<close>

section \<open>Writing integers\<close>

record buf_mut =
  put_u8 :: "u8 list \<Rightarrow> u8 \<Rightarrow> u8 list"
  put_u16 :: "u8 list \<Rightarrow> u16 \<Rightarrow> u8 list"
  put_u32 :: "u8 list \<Rightarrow> u32 \<Rightarrow> u8 list"
  put_u64 :: "u8 list \<Rightarrow> u64 \<Rightarrow> u8 list"

text \<open>The last \<open>n\<close> bytes of a word, the most significant first.\<close>

fun be_bytes :: "nat \<Rightarrow> 'a::len word \<Rightarrow> u8 list" where
  "be_bytes 0 w = []"
| "be_bytes (Suc n) w = ucast (drop_bit (8 * n) w) # be_bytes n w"

text \<open>What the documentation of \<open>BufMut\<close> says: integers are appended in big-endian byte order.\<close>

locale buf_mut_laws =
  fixes ops :: buf_mut
  assumes put_u8_law: "put_u8 ops out b = out @ [b]"
    and put_u16_law: "put_u16 ops out h = out @ be_bytes 2 h"
    and put_u32_law: "put_u32 ops out w = out @ be_bytes 4 w"
    and put_u64_law: "put_u64 ops out d = out @ be_bytes 8 d"

definition vec_buf :: buf_mut where
  "vec_buf = \<lparr>put_u8 = (\<lambda>out b. out @ [b]), put_u16 = (\<lambda>out h. out @ be_bytes 2 h),
     put_u32 = (\<lambda>out w. out @ be_bytes 4 w), put_u64 = (\<lambda>out d. out @ be_bytes 8 d)\<rparr>"

interpretation vec_buf: buf_mut_laws vec_buf
  by unfold_locales (simp_all add: vec_buf_def)

section \<open>Frame types and settings\<close>

definition DATA :: u64 where "DATA = 0x00"
definition HEADERS :: u64 where "HEADERS = 0x01"
definition CANCEL_PUSH :: u64 where "CANCEL_PUSH = 0x03"
definition SETTINGS :: u64 where "SETTINGS = 0x04"
definition PUSH_PROMISE :: u64 where "PUSH_PROMISE = 0x05"
definition GOAWAY :: u64 where "GOAWAY = 0x07"
definition MAX_PUSH_ID :: u64 where "MAX_PUSH_ID = 0x0d"

definition SETTINGS_ENABLE_CONNECT_PROTOCOL :: u64 where "SETTINGS_ENABLE_CONNECT_PROTOCOL = 0x08"
definition SETTINGS_H3_DATAGRAM :: u64 where "SETTINGS_H3_DATAGRAM = 0x33"
definition H3_FRAME_ERROR :: u64 where "H3_FRAME_ERROR = 0x106"
definition H3_SETTINGS_ERROR :: u64 where "H3_SETTINGS_ERROR = 0x109"

record h3_error =
  he_code :: u64
  he_text :: string

definition h3_error_new :: "u64 \<Rightarrow> string \<Rightarrow> h3_error" where
  "h3_error_new error_code text = \<lparr>he_code = error_code, he_text = text\<rparr>"

definition is_http2_only :: "u64 \<Rightarrow> bool" where
  "is_http2_only ty \<longleftrightarrow> ty \<in> {0x02, 0x06, 0x08, 0x09}"

definition VARINT_MAX :: u64 where
  "VARINT_MAX = push_bit 62 1 - 1"

section \<open>Variable-length integers\<close>

fun varint_len :: "u8 list \<Rightarrow> nat" where
  "varint_len [] = 1"
| "varint_len (first # _) = 2 ^ unat (drop_bit 6 first)"

definition get_varint :: "u8 list \<Rightarrow> (u64 \<times> nat) option" where
  "get_varint buf =
     (let len = varint_len buf in
      if length buf < len then None
      else let bytes = take len buf in
           Some (foldl (\<lambda>val byte. push_bit 8 val OR ucast byte) (ucast (hd bytes AND 0x3f)) (tl bytes), len))"

text \<open>The assertion on \<open>value\<close> is only in debug builds; a larger one is written as it is.\<close>

definition put_varint :: "buf_mut \<Rightarrow> u8 list \<Rightarrow> u64 \<Rightarrow> u8 list" where
  "put_varint ops out val =
     (if val \<le> 0x3f then put_u8 ops out (ucast val)
      else if val \<le> 0x3fff then put_u16 ops out (0x4000 OR ucast val)
      else if val \<le> 0x3fffffff then put_u32 ops out (0x80000000 OR ucast val)
      else put_u64 ops out (0xc000000000000000 OR val))"

definition frame :: "buf_mut \<Rightarrow> u64 \<Rightarrow> u8 list \<Rightarrow> u8 list" where
  "frame ops ty payload =
     put_varint ops (put_varint ops [] ty) (of_nat (length payload)) @ payload"

text \<open>The array of nine bytes and how much of it is written; \<^const>\<open>None\<close> where there is no room left.\<close>

definition data_header :: "buf_mut \<Rightarrow> nat \<Rightarrow> (u8 list \<times> nat) option" where
  "data_header ops len =
     (let written = put_varint ops (put_varint ops [] DATA) (of_nat len) in
      if length written \<le> 9 then Some (written @ replicate (9 - length written) 0, length written) else None)"

section \<open>SETTINGS\<close>

type_synonym settings = "(u64 \<times> u64) list"

definition settings_get :: "settings \<Rightarrow> u64 \<Rightarrow> u64 option" where
  "settings_get s ident = map_option snd (List.find (\<lambda>(sent, _). sent = ident) s)"

text \<open>An integer as \<open>{:#x}\<close> and as \<open>{}\<close> print it.\<close>

fun digits_in :: "nat \<Rightarrow> nat \<Rightarrow> string" where
  "digits_in base n =
     (let digit = (\<lambda>d. if d < 10 then char_of (48 + d) else char_of (87 + d)) in
      if n < base \<or> base < 2 then [digit n] else digits_in base (n div base) @ [digit (n mod base)])"

declare digits_in.simps [simp del]

definition show_hex :: "u64 \<Rightarrow> string" where
  "show_hex n = ''0x'' @ digits_in 16 (unat n)"

definition cut_short :: h3_error where
  "cut_short = h3_error_new H3_FRAME_ERROR ''the server's SETTINGS frame is cut short''"

function decode_loop :: "u64 set \<Rightarrow> u8 list \<Rightarrow> h3_error + settings" where
  "decode_loop seen payload =
     (if payload = [] then Inr []
      else case get_varint payload of
        None \<Rightarrow> Inl cut_short
      | Some (ident, n) \<Rightarrow>
          (case get_varint (drop n payload) of
             None \<Rightarrow> Inl cut_short
           | Some (val, m) \<Rightarrow>
               if 0x02 \<le> ident \<and> ident \<le> 0x05 then
                 Inl (h3_error_new H3_SETTINGS_ERROR (''the server sent the HTTP/2 setting '' @ show_hex ident))
               else if (ident = SETTINGS_ENABLE_CONNECT_PROTOCOL \<or> ident = SETTINGS_H3_DATAGRAM) \<and> 1 < val then
                 Inl (h3_error_new H3_SETTINGS_ERROR
                   (''the server sent the setting '' @ show_hex ident @ '' as '' @ digits_in 10 (unat val) @ '', neither 0 nor 1''))
               else if ident \<in> seen then
                 Inl (h3_error_new H3_SETTINGS_ERROR (''the server sent the setting '' @ show_hex ident @ '' twice''))
               else map_sum (\<lambda>e. e) ((#) (ident, val)) (decode_loop (insert ident seen) (drop (n + m) payload))))"
  by pat_completeness auto

lemma get_varint_len: "get_varint buf = Some (v, n) \<Longrightarrow> 0 < n \<and> n \<le> length buf"
  by (cases buf) (auto simp: get_varint_def Let_def split: if_splits)

termination decode_loop
  by (relation "measure (length \<circ> snd)") (auto dest!: get_varint_len)

declare decode_loop.simps [simp del]

definition settings_decode :: "u8 list \<Rightarrow> h3_error + settings" where
  "settings_decode payload = decode_loop {} payload"

section \<open>Reading what was written\<close>

lemma length_be_bytes [simp]: "length (be_bytes n w) = n"
  by (induction n) auto

text \<open>Bytes that are read one after the other behind a start.\<close>

abbreviation read_on :: "u64 \<Rightarrow> u8 list \<Rightarrow> u64" where
  "read_on \<equiv> foldl (\<lambda>val byte. push_bit 8 val OR ucast byte)"

lemma read_step:
  "push_bit (8 * n) (push_bit 8 a OR ucast (ucast (drop_bit (8 * n) w) :: u8)) OR take_bit (8 * n) w =
   push_bit (8 * Suc n) a OR take_bit (8 * Suc n) (w :: u64)"
proof (rule bit_word_eqI)
  fix k assume k: "k < LENGTH(64)"
  consider "k < 8 * n" | "8 * n \<le> k" "k < 8 * n + 8" | "8 * n + 8 \<le> k" by linarith
  then show "bit (push_bit (8 * n) (push_bit 8 a OR ucast (ucast (drop_bit (8 * n) w) :: u8)) OR take_bit (8 * n) w) k =
      bit (push_bit (8 * Suc n) a OR take_bit (8 * Suc n) w) k"
    using k by cases (auto simp: bit_simps ac_simps dest: bit_imp_le_length)
qed

lemma read_be_bytes: "read_on a (be_bytes n w) = push_bit (8 * n) a OR take_bit (8 * n) (w :: u64)"
proof (induction n arbitrary: a)
  case (Suc n)
  then show ?case using read_step[of n a w] by simp
qed simp

lemma be_bytes_ucast: "8 * n \<le> LENGTH('a) \<Longrightarrow> be_bytes n (ucast w :: 'a::len word) = be_bytes n (w :: u64)"
proof (induction n)
  case (Suc n)
  have "(ucast (drop_bit (8 * n) (ucast w :: 'a word)) :: u8) = ucast (drop_bit (8 * n) w)"
    by (rule bit_word_eqI) (use Suc.prems in \<open>auto simp: bit_simps\<close>)
  then show ?case using Suc by simp
qed simp

text \<open>A number below \<open>2 ^ (8 * n - 2)\<close> behind the two bits that say its length.\<close>

lemma get_tagged:
  assumes "n = 2 ^ unat (drop_bit 6 (hd (be_bytes n x)))" "take_bit (8 * n - 2) x = v" "0 < n" "8 * n \<le> 64"
  shows "get_varint (be_bytes n x @ rest) = Some (v, n)"
proof -
  obtain m where m: "n = Suc m" using assms(3) by (cases n) auto
  have "varint_len (be_bytes n x @ rest) = 2 ^ unat (drop_bit 6 (hd (be_bytes n x)))" unfolding m by simp
  then have "varint_len (be_bytes n x @ rest) = n" by (rule trans) (rule assms(1)[symmetric])
  moreover have "read_on (ucast ((ucast (drop_bit (8 * m) x) :: u8) AND 0x3f)) (be_bytes m x) = v"
  proof -
    have "push_bit (8 * m) (ucast ((ucast (drop_bit (8 * m) x) :: u8) AND 0x3f)) OR take_bit (8 * m) x = take_bit (8 * n - 2) x"
    proof (rule bit_word_eqI)
      fix k assume k: "k < LENGTH(64)"
      have six: "y AND 0x3f = take_bit 6 y" for y :: u8
        by (simp add: take_bit_eq_mask mask_eq_exp_minus_1)
      consider "k < 8 * m" | "8 * m \<le> k" "k < 8 * m + 6" | "8 * m + 6 \<le> k" by linarith
      then show "bit (push_bit (8 * m) (ucast ((ucast (drop_bit (8 * m) x) :: u8) AND 0x3f)) OR take_bit (8 * m) x) k =
          bit (take_bit (8 * n - 2) x) k"
        unfolding six using k by cases (auto simp: m bit_push_bit_iff bit_ucast_iff bit_and_iff bit_or_iff bit_take_bit_iff bit_drop_bit_eq)
    qed
    then show ?thesis using assms(2) by (simp add: read_be_bytes)
  qed
  ultimately show ?thesis using m by (simp add: get_varint_def Let_def)
qed

lemma get_shifted:
  assumes "unat v < 2 ^ (8 * n - 2)" "unat t < 4" "n = 2 ^ unat t" "8 * n \<le> 64"
  shows "get_varint (be_bytes n (push_bit (8 * n - 2) t OR v) @ rest) = Some (v, n)"
proof (rule get_tagged)
  let ?x = "push_bit (8 * n - 2) t OR v"
  have "0 < n" using assms(3) by simp
  then obtain m where m: "n = Suc m" by (cases n) auto
  have tv: "take_bit (8 * n - 2) v = v" and tt: "take_bit 2 t = t"
    using assms(1,2) by (simp_all add: word_unat_eq_iff unsigned_take_bit_eq take_bit_nat_eq_self)
  have bv: "bit v k \<Longrightarrow> k < 8 * n - 2" and bt: "bit t k \<Longrightarrow> k < 2" for k
    using bit_take_bit_iff[of "8 * n - 2" v k] bit_take_bit_iff[of 2 t k] by (simp_all add: tv tt)
  have "drop_bit 6 (ucast (drop_bit (8 * m) ?x) :: u8) = ucast t"
  proof (rule bit_word_eqI)
    fix k assume "k < LENGTH(8)"
    then show "bit (drop_bit 6 (ucast (drop_bit (8 * m) ?x) :: u8)) k = bit (ucast t :: u8) k"
      using bv[of "8 * m + (6 + k)"] bt[of k] assms(4) by (auto simp: bit_simps m ac_simps)
  qed
  moreover have "unat (ucast t :: u8) = unat t" using assms(2) by (simp add: unsigned_ucast_eq take_bit_nat_eq_self)
  moreover have "hd (be_bytes n ?x) = ucast (drop_bit (8 * m) ?x)" by (simp only: m be_bytes.simps list.sel)
  ultimately show "n = 2 ^ unat (drop_bit 6 (hd (be_bytes n ?x)))" using assms(3) by (simp only:)
  show "take_bit (8 * n - 2) ?x = v" by (simp add: take_bit_or take_bit_push_bit tv)
qed (use assms in auto)

context buf_mut_laws
begin

lemma put_varint_append: "put_varint ops out v = out @ put_varint ops [] v"
  by (simp add: put_varint_def put_u8_law put_u16_law put_u32_law put_u64_law)

lemma get_put_varint:
  assumes "v \<le> VARINT_MAX"
  shows "get_varint (put_varint ops [] v @ rest) = Some (v, length (put_varint ops [] v))"
proof -
  have v: "unat v < 2 ^ 62" using assms by (simp add: VARINT_MAX_def word_le_nat_alt)
  have le: "v \<le> c \<longleftrightarrow> unat v \<le> unat c" for c :: u64 by (simp add: word_le_nat_alt)
  consider "unat v < 2 ^ 6" | "2 ^ 6 \<le> unat v" "unat v < 2 ^ 14" | "2 ^ 14 \<le> unat v" "unat v < 2 ^ 30" | "2 ^ 30 \<le> unat v" "unat v < 2 ^ 62"
    using v by linarith
  then show ?thesis
  proof cases
    case 1
    then have "put_varint ops [] v = be_bytes 1 (push_bit (8 * 1 - 2) 0 OR v)" by (simp add: put_varint_def le put_u8_law)
    moreover have "get_varint (be_bytes 1 (push_bit (8 * 1 - 2) 0 OR v) @ rest) = Some (v, 1)"
      by (rule get_shifted) (use 1 in simp_all)
    ultimately show ?thesis by (simp only: length_be_bytes)
  next
    case 2
    have "be_bytes 2 (0x4000 OR ucast v :: u16) = be_bytes 2 (ucast (0x4000 OR v) :: u16)" by (simp add: unsigned_or_eq)
    then have "put_varint ops [] v = be_bytes 2 (push_bit (8 * 2 - 2) 1 OR v)"
      using 2 be_bytes_ucast[of 2 "0x4000 OR v", where 'a = 16] by (simp add: put_varint_def le put_u16_law)
    moreover have "get_varint (be_bytes 2 (push_bit (8 * 2 - 2) 1 OR v) @ rest) = Some (v, 2)"
      by (rule get_shifted) (use 2 in simp_all)
    ultimately show ?thesis by (simp only: length_be_bytes)
  next
    case 3
    have "be_bytes 4 (0x80000000 OR ucast v :: u32) = be_bytes 4 (ucast (0x80000000 OR v) :: u32)" by (simp add: unsigned_or_eq)
    then have "put_varint ops [] v = be_bytes 4 (push_bit (8 * 4 - 2) 2 OR v)"
      using 3 be_bytes_ucast[of 4 "0x80000000 OR v", where 'a = 32] by (simp add: put_varint_def le put_u32_law)
    moreover have "get_varint (be_bytes 4 (push_bit (8 * 4 - 2) 2 OR v) @ rest) = Some (v, 4)"
      by (rule get_shifted) (use 3 in simp_all)
    ultimately show ?thesis by (simp only: length_be_bytes)
  next
    case 4
    then have "put_varint ops [] v = be_bytes 8 (push_bit (8 * 8 - 2) 3 OR v)"
      by (simp add: put_varint_def le put_u64_law)
    moreover have "get_varint (be_bytes 8 (push_bit (8 * 8 - 2) 3 OR v) @ rest) = Some (v, 8)"
      by (rule get_shifted) (use 4 in simp_all)
    ultimately show ?thesis by (simp only: length_be_bytes)
  qed
qed

end

text \<open>A number takes no more bytes than any other form of it.\<close>

lemma read_on_bits:
  "(\<And>k. bit a k \<Longrightarrow> k < j) \<Longrightarrow> bit (read_on a bs) k \<Longrightarrow> k < j + 8 * length bs"
proof (induction bs arbitrary: a j)
  case (Cons b bs)
  have "k < (j + 8) + 8 * length bs"
  proof (rule Cons.IH[of "push_bit 8 a OR ucast b"])
    fix k assume "bit (push_bit 8 a OR ucast b :: u64) k"
    then show "k < j + 8" using Cons.prems(1)[of "k - 8"] by (auto simp: bit_simps dest: bit_imp_le_length)
  qed (use Cons.prems(2) in simp)
  then show ?case by simp
qed simp

lemma unat_less_if_bits: "(\<And>k. bit (w :: 'a::len word) k \<Longrightarrow> k < j) \<Longrightarrow> unat w < 2 ^ j"
proof -
  assume b: "\<And>k. bit w k \<Longrightarrow> k < j"
  have "take_bit j w = w" by (rule bit_word_eqI) (use b in \<open>auto simp: bit_simps\<close>)
  then have "take_bit j (unat w) = unat w" by (metis unsigned_take_bit_eq)
  then show ?thesis by (metis take_bit_nat_less_exp)
qed

lemma get_varint_bound:
  assumes "get_varint buf = Some (v, n)"
  shows "unat v < 2 ^ (8 * n - 2)" "n \<in> {1, 2, 4, 8}"
proof -
  obtain b bs where buf: "buf = b # bs" using get_varint_len[OF assms] by (cases buf) auto
  have n: "n = 2 ^ unat (drop_bit 6 b)" "n \<le> Suc (length bs)"
    and v: "v = read_on (ucast (b AND 0x3f)) (tl (take n buf))"
    using assms by (auto simp: get_varint_def Let_def buf split: if_splits)
  have "unat b div 64 < 4" using unsigned_less[of b, where 'a = nat] by simp
  moreover have "unat (drop_bit 6 b) = unat b div 64" by (simp only: unat_drop_bit_eq) (simp add: drop_bit_eq_div)
  ultimately have "unat (drop_bit 6 b) \<in> {0, 1, 2, 3}" by auto
  then show n8: "n \<in> {1, 2, 4, 8}" by (auto simp: n(1))
  have "b AND 0x3f = take_bit 6 b" by (simp add: take_bit_eq_mask mask_eq_exp_minus_1)
  then have "bit (ucast (b AND 0x3f) :: u64) k \<Longrightarrow> k < 6" for k by (auto simp: bit_simps)
  from read_on_bits[of "ucast (b AND 0x3f)" 6, OF this, of "tl (take n buf)"] have "bit v k \<Longrightarrow> k < 6 + 8 * (n - 1)" for k
    using n(2) unfolding v buf by simp
  then have "unat v < 2 ^ (6 + 8 * (n - 1))" by (rule unat_less_if_bits)
  moreover have "6 + 8 * (n - 1) = 8 * n - 2" using n8 by auto
  ultimately show "unat v < 2 ^ (8 * n - 2)" by simp
qed

context buf_mut_laws
begin

lemma length_put_varint:
  "length (put_varint ops [] v) =
     (if unat v < 2 ^ 6 then 1 else if unat v < 2 ^ 14 then 2 else if unat v < 2 ^ 30 then 4 else 8)"
  by (simp add: put_varint_def put_u8_law put_u16_law put_u32_law put_u64_law word_le_nat_alt less_Suc_eq_le)

lemma put_varint_shortest:
  assumes "get_varint buf = Some (v, n)"
  shows "length (put_varint ops [] v) \<le> n"
  using get_varint_bound[OF assms] by (auto simp: length_put_varint)

lemma frame_split:
  assumes "ty \<le> VARINT_MAX" "length payload < 2 ^ 62"
  shows "\<exists>n m. get_varint (frame ops ty payload @ rest) = Some (ty, n) \<and>
    get_varint (drop n (frame ops ty payload @ rest)) = Some (of_nat (length payload), m) \<and>
    drop (n + m) (frame ops ty payload @ rest) = payload @ rest"
proof -
  let ?a = "put_varint ops [] ty" and ?b = "put_varint ops [] (of_nat (length payload))"
  have len: "of_nat (length payload) \<le> VARINT_MAX" using assms(2) by (simp add: VARINT_MAX_def word_le_nat_alt unat_of_nat)
  have f: "frame ops ty payload = ?a @ ?b @ payload" unfolding frame_def by (subst put_varint_append) simp
  show ?thesis
    using get_put_varint[OF assms(1), of "?b @ payload @ rest"] get_put_varint[OF len, of "payload @ rest"]
    by (intro exI[of _ "length ?a"] exI[of _ "length ?b"]) (simp add: f)
qed

lemma data_header_fits: "len < 2 ^ 62 \<Longrightarrow> \<exists>header n. data_header ops len = Some (header, n) \<and> length header = 9 \<and>
    get_varint header = Some (DATA, 1) \<and> get_varint (drop 1 header) = Some (of_nat len, n - 1)"
proof -
  assume "len < 2 ^ 62"
  then have l: "of_nat len \<le> VARINT_MAX" by (simp add: VARINT_MAX_def word_le_nat_alt unat_of_nat)
  let ?b = "put_varint ops [] (of_nat len)"
  have d: "put_varint ops [] DATA = [0]" by (simp add: put_varint_def DATA_def put_u8_law)
  then have w: "put_varint ops (put_varint ops [] DATA) (of_nat len) = 0 # ?b" by (subst put_varint_append) simp
  have "length ?b \<le> 8" by (simp add: length_put_varint)
  then have "data_header ops len = Some (0 # ?b @ replicate (8 - length ?b) 0, Suc (length ?b))"
    by (simp add: data_header_def w)
  moreover have "get_varint (0 # ?b @ replicate (8 - length ?b) 0) = Some (DATA, 1)"
    by (simp add: get_varint_def DATA_def)
  ultimately show ?thesis using get_put_varint[OF l, of "replicate (8 - length ?b) 0"] \<open>length ?b \<le> 8\<close> by auto
qed

end

section \<open>What the settings mean\<close>

text \<open>Bytes that spell out pairs of identifier and value, and pairs a server may send.\<close>

fun spells :: "u8 list \<Rightarrow> settings \<Rightarrow> bool" where
  "spells payload [] \<longleftrightarrow> payload = []"
| "spells payload ((ident, val) # s) \<longleftrightarrow>
     (\<exists>n m. get_varint payload = Some (ident, n) \<and> get_varint (drop n payload) = Some (val, m) \<and> spells (drop (n + m) payload) s)"

definition setting_ok :: "u64 \<times> u64 \<Rightarrow> bool" where
  "setting_ok e \<longleftrightarrow> \<not> (2 \<le> fst e \<and> fst e \<le> 5) \<and>
     (fst e \<in> {SETTINGS_ENABLE_CONNECT_PROTOCOL, SETTINGS_H3_DATAGRAM} \<longrightarrow> snd e \<le> 1)"

lemma decode_loop_iff:
  "decode_loop seen payload = Inr s \<longleftrightarrow>
   spells payload s \<and> distinct (map fst s) \<and> list_all setting_ok s \<and> fst ` set s \<inter> seen = {}"
proof (induction seen payload arbitrary: s rule: decode_loop.induct)
  case (1 seen payload)
  show ?case
  proof (cases "payload = []")
    case True
    then show ?thesis by (cases s) (auto simp: decode_loop.simps get_varint_def)
  next
    case False
    show ?thesis
    proof (cases "\<exists>ident n val m. get_varint payload = Some (ident, n) \<and> get_varint (drop n payload) = Some (val, m)")
      case True
      then obtain ident n val m where g: "get_varint payload = Some (ident, n)" "get_varint (drop n payload) = Some (val, m)" by blast
      show ?thesis
      proof (cases "setting_ok (ident, val) \<and> ident \<notin> seen")
        case True
        then have eq: "decode_loop seen payload = map_sum (\<lambda>e. e) ((#) (ident, val)) (decode_loop (insert ident seen) (drop (n + m) payload))"
          using False g by (subst decode_loop.simps) (auto simp: setting_ok_def)
        have IH: "decode_loop (insert ident seen) (drop (n + m) payload) = Inr s' \<longleftrightarrow>
            spells (drop (n + m) payload) s' \<and> distinct (map fst s') \<and> list_all setting_ok s' \<and> fst ` set s' \<inter> insert ident seen = {}" for s'
        proof -
          have c: "\<not> (2 \<le> ident \<and> ident \<le> 5)" "\<not> ((ident = SETTINGS_ENABLE_CONNECT_PROTOCOL \<or> ident = SETTINGS_H3_DATAGRAM) \<and> 1 < val)"
            "ident \<notin> seen" using True by (auto simp: setting_ok_def)
          show ?thesis by (rule 1[OF False g(1) _ g(2) _ c]) simp_all
        qed
        show ?thesis using True False g IH by (cases s) (auto simp: eq map_sum_Inr, force+)
      next
        case no: False
        then have "\<exists>e. decode_loop seen payload = Inl e" using False g by (subst decode_loop.simps) (auto simp: setting_ok_def)
        then show ?thesis using no False g by (cases s) auto
      qed
    next
      case no: False
      then have "decode_loop seen payload = Inl cut_short" using False
        by (subst decode_loop.simps) (auto split: option.splits)
      then show ?thesis using no False by (cases s) auto
    qed
  qed
qed

lemma decode_loop_error: "decode_loop seen payload = Inl e \<Longrightarrow> he_code e = H3_FRAME_ERROR \<or> he_code e = H3_SETTINGS_ERROR"
proof (induction seen payload rule: decode_loop.induct)
  case (1 seen payload)
  show ?case
  proof (rule ccontr)
    assume no: "\<not> ?case"
    from 1(2) no obtain i n v m where g: "payload \<noteq> []" "get_varint payload = Some (i, n)" "get_varint (drop n payload) = Some (v, m)"
        "\<not> (2 \<le> i \<and> i \<le> 5)" "\<not> ((i = SETTINGS_ENABLE_CONNECT_PROTOCOL \<or> i = SETTINGS_H3_DATAGRAM) \<and> 1 < v)" "i \<notin> seen"
      and e: "decode_loop (insert i seen) (drop (n + m) payload) = Inl e"
      by (subst (asm) decode_loop.simps)
        (auto simp: cut_short_def h3_error_new_def map_sum_def split: if_splits option.splits sum.splits)
    from 1(1)[OF g(1,2) _ g(3) _ g(4-6) e] no show False by blast
  qed
qed

lemma find_map_of: "map_option snd (List.find (\<lambda>(k, _). k = i) s) = map_of s i"
  by (induction s) auto

section \<open>Properties\<close>

text \<open>
  An integer that is written reads back, whatever follows it, as itself and as many bytes as
  were written, and no bytes that read as the integer are shorter.
\<close>
theorem varint_roundtrip:
  assumes "buf_mut_laws ops" "v \<le> VARINT_MAX"
  shows "\<exists>bytes. put_varint ops out v = out @ bytes \<and> get_varint (bytes @ rest) = Some (v, length bytes) \<and>
    (\<forall>buf n. get_varint buf = Some (v, n) \<longrightarrow> length bytes \<le> n)"
  using buf_mut_laws.put_varint_append[OF assms(1), of out v] buf_mut_laws.get_put_varint[OF assms(1,2), of rest]
    buf_mut_laws.put_varint_shortest[OF assms(1)] by blast

theorem varint_roundtrip_witness:
  "buf_mut_laws vec_buf \<and> put_varint vec_buf [] 15293 = [0x7b, 0xbd] \<and> get_varint [0x7b, 0xbd, 7] = Some (15293, 2)"
proof -
  have "be_bytes 2 w = [ucast (drop_bit 8 w), ucast w]" for w :: u16 by (simp add: numeral_2_eq_2)
  then have p: "put_varint vec_buf [] 15293 = [0x7b, 0xbd]" by (simp add: put_varint_def vec_buf_def)
  have "(15293 :: u64) \<le> VARINT_MAX" by (simp add: VARINT_MAX_def)
  from varint_roundtrip[OF vec_buf.buf_mut_laws_axioms this, of "[]" "[7]"] show ?thesis
    using p vec_buf.buf_mut_laws_axioms by auto
qed

text \<open>
  The payload of a SETTINGS frame is taken as the pairs it spells out, exactly when no identifier
  comes twice, none is reserved, and the two flags are 0 or 1; a look-up finds the value sent. What
  is not taken is an error of the frame or of the settings.
\<close>
theorem settings_decode_iff:
  "(settings_decode payload = Inr s \<longleftrightarrow> spells payload s \<and> distinct (map fst s) \<and> list_all setting_ok s) \<and>
   settings_get s = map_of s \<and>
   (case settings_decode payload of Inl e \<Rightarrow> he_code e \<in> {H3_FRAME_ERROR, H3_SETTINGS_ERROR} | Inr _ \<Rightarrow> True)"
  using decode_loop_error[of "{}" payload]
  by (auto simp: settings_decode_def decode_loop_iff settings_get_def find_map_of split: sum.splits)

end
