(* ===== verification/Rurge_H3_Reader.thy ===== *)
theory Rurge_H3_Reader
  imports Rurge_H3_Frame
begin

text \<open>
  Reading a stream frame by frame, \<open>FrameReader\<close> of \<^verbatim>\<open>crates/rurge-net/src/quic/h3/frame.rs\<close>. The
  stream of the crate \<open>quinn\<close> is an argument: the answers it is going to give to reads, one
  after the other, so that every way of cutting and delaying the bytes is one list of answers.
  The buffer of the crate \<open>bytes\<close> is a parameter with the laws its documentation states.
\<close>

section \<open>The stream and the buffer\<close>

datatype 'a poll = Pending | Ready 'a

datatype read_failure = StreamFailed string | Truncated

datatype read_answer = RPending | RFailed string | RBytes "u8 list"

text \<open>
  A read of at most \<open>most\<close> bytes: what it gives, and the answers that are left. An answer with
  more bytes than there is room for is given in parts; no answer, or one without bytes, is the
  end of the stream.
\<close>

fun poll_read :: "nat \<Rightarrow> read_answer list \<Rightarrow> (string + u8 list) poll \<times> read_answer list" where
  "poll_read most [] = (Ready (Inr []), [])"
| "poll_read most (RPending # answers) = (Pending, answers)"
| "poll_read most (RFailed e # answers) = (Ready (Inl e), answers)"
| "poll_read most (RBytes bs # answers) =
     (Ready (Inr (take most bs)), if most < length bs then RBytes (drop most bs) # answers else answers)"

record 'b bytes_mut =
  bm_bytes :: "'b \<Rightarrow> u8 list"
  bm_new :: 'b
  bm_advance :: "'b \<Rightarrow> nat \<Rightarrow> 'b"
  bm_resize :: "'b \<Rightarrow> nat \<Rightarrow> u8 \<Rightarrow> 'b"
  bm_truncate :: "'b \<Rightarrow> nat \<Rightarrow> 'b"
  bm_split_to :: "'b \<Rightarrow> nat \<Rightarrow> 'b \<times> 'b"
  bm_clear :: "'b \<Rightarrow> 'b"
  bm_write :: "'b \<Rightarrow> nat \<Rightarrow> u8 list \<Rightarrow> 'b"

text \<open>\<open>bm_write\<close> is an assignment through the slice from an index on.\<close>

locale bytes_mut_laws =
  fixes bm :: "'b bytes_mut"
  assumes new_law: "bm_bytes bm (bm_new bm) = []"
    and advance_law: "n \<le> length (bm_bytes bm b) \<Longrightarrow> bm_bytes bm (bm_advance bm b n) = drop n (bm_bytes bm b)"
    and resize_law: "bm_bytes bm (bm_resize bm b n v) = take n (bm_bytes bm b) @ replicate (n - length (bm_bytes bm b)) v"
    and truncate_law: "bm_bytes bm (bm_truncate bm b n) = take n (bm_bytes bm b)"
    and split_to_law: "n \<le> length (bm_bytes bm b) \<Longrightarrow> bm_split_to bm b n = (front, behind) \<Longrightarrow>
        bm_bytes bm front = take n (bm_bytes bm b) \<and> bm_bytes bm behind = drop n (bm_bytes bm b)"
    and clear_law: "bm_bytes bm (bm_clear bm b) = []"
    and write_law: "i + length bs \<le> length (bm_bytes bm b) \<Longrightarrow>
        bm_bytes bm (bm_write bm b i bs) = take i (bm_bytes bm b) @ bs @ drop (i + length bs) (bm_bytes bm b)"

definition bytes_ref :: "u8 list bytes_mut" where
  "bytes_ref =
     \<lparr>bm_bytes = (\<lambda>b. b), bm_new = [], bm_advance = (\<lambda>b n. drop n b),
      bm_resize = (\<lambda>b n v. take n b @ replicate (n - length b) v), bm_truncate = (\<lambda>b n. take n b),
      bm_split_to = (\<lambda>b n. (take n b, drop n b)), bm_clear = (\<lambda>b. []),
      bm_write = (\<lambda>b i bs. take i b @ bs @ drop (i + length bs) b)\<rparr>"

interpretation bytes_ref: bytes_mut_laws bytes_ref
  by unfold_locales (auto simp: bytes_ref_def)

section \<open>The reader\<close>

definition CHUNK :: nat where
  "CHUNK = 16384"

record frame_header =
  hd_ty :: u64
  hd_len :: u64

record 'b frame_reader =
  fr_recv :: "read_answer list"
  fr_buf :: 'b
  fr_end :: bool

definition reader_new :: "'b bytes_mut \<Rightarrow> read_answer list \<Rightarrow> 'b frame_reader" where
  "reader_new bm recv = \<lparr>fr_recv = recv, fr_buf = bm_new bm, fr_end = False\<rparr>"

abbreviation buffered :: "'b bytes_mut \<Rightarrow> 'b frame_reader \<Rightarrow> u8 list" where
  "buffered bm r \<equiv> bm_bytes bm (fr_buf r)"

definition poll_more :: "'b bytes_mut \<Rightarrow> nat \<Rightarrow> 'b frame_reader \<Rightarrow> (read_failure + nat) poll \<times> 'b frame_reader" where
  "poll_more bm most r =
     (if fr_end r then (Ready (Inr 0), r)
      else
        let start = length (buffered bm r);
            buf = bm_resize bm (fr_buf r) (start + most) 0;
            (read, recv) = poll_read most (fr_recv r);
            bs = (case read of Ready (Inr bs) \<Rightarrow> bs | _ \<Rightarrow> []);
            n = length bs;
            r = r\<lparr>fr_recv := recv, fr_buf := bm_truncate bm (bm_write bm buf start bs) (start + n)\<rparr>
        in case read of
             Ready (Inr _) \<Rightarrow> if n = 0 then (Ready (Inr 0), r\<lparr>fr_end := True\<rparr>) else (Ready (Inr n), r)
           | Ready (Inl e) \<Rightarrow> (Ready (Inl (StreamFailed e)), r)
           | Pending \<Rightarrow> (Pending, r))"

text \<open>How much is still to be read, for the loops to end: an answer counts one more than its bytes.\<close>

definition answers_size :: "read_answer list \<Rightarrow> nat" where
  "answers_size = sum_list \<circ> map (\<lambda>a. case a of RBytes bs \<Rightarrow> Suc (length bs) | _ \<Rightarrow> 1)"

lemma poll_read_shorter:
  "poll_read most s = (p, s') \<Longrightarrow> answers_size s' \<le> answers_size s \<and>
     (p = Ready (Inr bs) \<longrightarrow> bs \<noteq> [] \<longrightarrow> answers_size s' < answers_size s) \<and> (p = Pending \<longrightarrow> answers_size s' < answers_size s)"
  by (induction most s rule: poll_read.induct) (auto simp: answers_size_def split: if_splits)

lemma poll_more_shorter:
  "poll_more bm most r = (Ready (Inr n), r') \<Longrightarrow> n \<noteq> 0 \<Longrightarrow> answers_size (fr_recv r') < answers_size (fr_recv r)"
  using poll_read_shorter[of most "fr_recv r"]
  by (fastforce simp: poll_more_def Let_def split: if_splits poll.splits sum.splits prod.splits)

function poll_fill :: "'b bytes_mut \<Rightarrow> nat \<Rightarrow> 'b frame_reader \<Rightarrow> (read_failure + bool) poll \<times> 'b frame_reader" where
  "poll_fill bm want r =
     (if want \<le> length (buffered bm r) then (Ready (Inr True), r)
      else case poll_more bm (want - length (buffered bm r)) r of
        (Pending, r') \<Rightarrow> (Pending, r')
      | (Ready (Inl e), r') \<Rightarrow> (Ready (Inl e), r')
      | (Ready (Inr n), r') \<Rightarrow> if n = 0 then (Ready (Inr False), r') else poll_fill bm want r')"
  by pat_completeness auto

termination poll_fill
  by (relation "measure (\<lambda>(bm, want, r). answers_size (fr_recv r))") (auto dest!: poll_more_shorter[OF sym])

declare poll_fill.simps [simp del]

definition ended :: "'b bytes_mut \<Rightarrow> 'b frame_reader \<Rightarrow> read_failure + 'a option" where
  "ended bm r = (if buffered bm r = [] then Inr None else Inl Truncated)"

lemma poll_fill_shorter:
  "length (buffered bm r) < want \<Longrightarrow> poll_fill bm want r = (Ready (Inr True), r') \<Longrightarrow>
   answers_size (fr_recv r') < answers_size (fr_recv r)"
proof (induction bm want r rule: poll_fill.induct)
  case (1 bm want r)
  obtain p r1 where m: "poll_more bm (want - length (buffered bm r)) r = (p, r1)" by fastforce
  from 1(2,3) m obtain n where n: "p = Ready (Inr n)" "n \<noteq> 0" and f: "poll_fill bm want r1 = (Ready (Inr True), r')"
    by (subst (asm) poll_fill.simps) (auto split: if_splits poll.splits sum.splits)
  have sh: "answers_size (fr_recv r1) < answers_size (fr_recv r)" using poll_more_shorter m n by blast
  show ?case
  proof (cases "want \<le> length (buffered bm r1)")
    case True
    then have "r' = r1" using f by (simp add: poll_fill.simps)
    with sh show ?thesis by simp
  next
    case False
    have nw: "\<not> want \<le> length (buffered bm r)" using 1(2) by simp
    from 1(1)[OF nw m[symmetric] n(1) refl n(2)] False f sh show ?thesis by simp
  qed
qed

function poll_varint :: "'b bytes_mut \<Rightarrow> 'b frame_reader \<Rightarrow> (read_failure + u64 option) poll \<times> 'b frame_reader" where
  "poll_varint bm r =
     (case get_varint (buffered bm r) of
        Some (val, n) \<Rightarrow> (Ready (Inr (Some val)), r\<lparr>fr_buf := bm_advance bm (fr_buf r) n\<rparr>)
      | None \<Rightarrow>
          (case poll_fill bm (varint_len (buffered bm r)) r of
             (Pending, r') \<Rightarrow> (Pending, r')
           | (Ready (Inl e), r') \<Rightarrow> (Ready (Inl e), r')
           | (Ready (Inr False), r') \<Rightarrow> (Ready (ended bm r'), r')
           | (Ready (Inr True), r') \<Rightarrow> poll_varint bm r'))"
  by pat_completeness auto

lemma get_varint_None: "get_varint buf = None \<longleftrightarrow> length buf < varint_len buf"
  by (simp add: get_varint_def Let_def)

termination poll_varint
  by (relation "measure (\<lambda>(bm, r). answers_size (fr_recv r))") (auto simp: get_varint_None intro: poll_fill_shorter[OF _ sym])

text \<open>The bytes a header needs as far as it is there, and the header once it is.\<close>

definition header_wants :: "u8 list \<Rightarrow> nat + frame_header \<times> nat" where
  "header_wants buf =
     (case get_varint buf of
        None \<Rightarrow> Inl (varint_len buf)
      | Some (ty, n) \<Rightarrow>
          (case get_varint (drop n buf) of
             Some (len, m) \<Rightarrow> Inr (\<lparr>hd_ty = ty, hd_len = len\<rparr>, n + m)
           | None \<Rightarrow> Inl (n + varint_len (drop n buf))))"

lemma header_wants_more: "header_wants buf = Inl want \<Longrightarrow> length buf < want"
  using get_varint_len[of buf] by (force simp: header_wants_def get_varint_None split: option.splits)

function poll_header :: "'b bytes_mut \<Rightarrow> 'b frame_reader \<Rightarrow> (read_failure + frame_header option) poll \<times> 'b frame_reader" where
  "poll_header bm r =
     (case header_wants (buffered bm r) of
        Inr (h, n) \<Rightarrow> (Ready (Inr (Some h)), r\<lparr>fr_buf := bm_advance bm (fr_buf r) n\<rparr>)
      | Inl want \<Rightarrow>
          (case poll_fill bm want r of
             (Pending, r') \<Rightarrow> (Pending, r')
           | (Ready (Inl e), r') \<Rightarrow> (Ready (Inl e), r')
           | (Ready (Inr False), r') \<Rightarrow> (Ready (ended bm r'), r')
           | (Ready (Inr True), r') \<Rightarrow> poll_header bm r'))"
  by pat_completeness auto

termination poll_header
  by (relation "measure (\<lambda>(bm, r). answers_size (fr_recv r))") (auto dest!: header_wants_more intro: poll_fill_shorter[OF _ sym])

declare poll_varint.simps [simp del] poll_header.simps [simp del]

definition poll_payload :: "'b bytes_mut \<Rightarrow> nat \<Rightarrow> 'b frame_reader \<Rightarrow> (read_failure + 'b) poll \<times> 'b frame_reader" where
  "poll_payload bm len r =
     (case poll_fill bm len r of
        (Pending, r') \<Rightarrow> (Pending, r')
      | (Ready (Inl e), r') \<Rightarrow> (Ready (Inl e), r')
      | (Ready (Inr False), r') \<Rightarrow> (Ready (Inl Truncated), r')
      | (Ready (Inr True), r') \<Rightarrow>
          (case bm_split_to bm (fr_buf r') len of (front, behind) \<Rightarrow> (Ready (Inr front), r'\<lparr>fr_buf := behind\<rparr>)))"

text \<open>\<open>left\<close> is counted down through a reference: it is returned. A \<open>usize\<close> has 64 bits.\<close>

definition skip_some :: "'b bytes_mut \<Rightarrow> nat \<Rightarrow> 'b frame_reader \<Rightarrow> nat \<times> 'b frame_reader" where
  "skip_some bm left r =
     (let n = min left (length (buffered bm r)) in (left - n, r\<lparr>fr_buf := bm_advance bm (fr_buf r) n\<rparr>))"

function poll_skip :: "'b bytes_mut \<Rightarrow> nat \<Rightarrow> 'b frame_reader \<Rightarrow> (read_failure + unit) poll \<times> nat \<times> 'b frame_reader" where
  "poll_skip bm left r =
     (if left = 0 then (Ready (Inr ()), left, r)
      else if buffered bm r = [] then
        (case poll_more bm (min left CHUNK) r of
           (Pending, r') \<Rightarrow> (Pending, left, r')
         | (Ready (Inl e), r') \<Rightarrow> (Ready (Inl e), left, r')
         | (Ready (Inr n), r') \<Rightarrow>
             if n = 0 then (Ready (Inl Truncated), left, r')
             else (case skip_some bm left r' of (left', r'') \<Rightarrow> poll_skip bm left' r''))
      else (case skip_some bm left r of (left', r') \<Rightarrow> poll_skip bm left' r'))"
  by pat_completeness auto

termination poll_skip
  by (relation "measures [\<lambda>(bm, left, r). answers_size (fr_recv r), \<lambda>(bm, left, r). left]")
    (auto simp: skip_some_def Let_def min_def dest!: poll_more_shorter[OF sym] split: if_splits)

function poll_drain :: "'b bytes_mut \<Rightarrow> 'b frame_reader \<Rightarrow> (read_failure + unit) poll \<times> 'b frame_reader" where
  "poll_drain bm r =
     (case poll_more bm CHUNK (r\<lparr>fr_buf := bm_clear bm (fr_buf r)\<rparr>) of
        (Pending, r') \<Rightarrow> (Pending, r')
      | (Ready (Inl e), r') \<Rightarrow> (Ready (Inl e), r')
      | (Ready (Inr n), r') \<Rightarrow> if n = 0 then (Ready (Inr ()), r') else poll_drain bm r')"
  by pat_completeness auto

termination poll_drain
  by (relation "measure (\<lambda>(bm, r). answers_size (fr_recv r))") (auto dest!: poll_more_shorter[OF sym])

declare poll_skip.simps [simp del] poll_drain.simps [simp del]

text \<open>
  Some of the \<open>left\<close> bytes of a DATA payload into a buffer of the caller that has room for
  \<open>remaining\<close> more: the bytes that are put there, and what is left.
\<close>

definition poll_data :: "'b bytes_mut \<Rightarrow> nat \<Rightarrow> nat \<Rightarrow> 'b frame_reader \<Rightarrow>
    (read_failure + unit) poll \<times> u8 list \<times> nat \<times> 'b frame_reader" where
  "poll_data bm remaining left r =
     (let room = min left remaining in
      if room = 0 then (Ready (Inr ()), [], left, r)
      else if buffered bm r \<noteq> [] then
        let n = min room (length (buffered bm r)) in
        (Ready (Inr ()), take n (buffered bm r), left - n, r\<lparr>fr_buf := bm_advance bm (fr_buf r) n\<rparr>)
      else if fr_end r then (Ready (Inl Truncated), [], left, r)
      else case poll_read room (fr_recv r) of
        (Pending, recv) \<Rightarrow> (Pending, [], left, r\<lparr>fr_recv := recv\<rparr>)
      | (Ready (Inl e), recv) \<Rightarrow> (Ready (Inl (StreamFailed e)), [], left, r\<lparr>fr_recv := recv\<rparr>)
      | (Ready (Inr bs), recv) \<Rightarrow>
          if bs = [] then (Ready (Inl Truncated), [], left, r\<lparr>fr_recv := recv, fr_end := True\<rparr>)
          else (Ready (Inr ()), bs, left - length bs, r\<lparr>fr_recv := recv\<rparr>))"

section \<open>What is still to come\<close>

text \<open>The bytes the answers hold up to the end of the stream, and the failure that cuts them off.\<close>

fun stream_rest :: "read_answer list \<Rightarrow> u8 list \<times> string option" where
  "stream_rest [] = ([], None)"
| "stream_rest (RPending # answers) = stream_rest answers"
| "stream_rest (RFailed e # answers) = ([], Some e)"
| "stream_rest (RBytes bs # answers) =
     (if bs = [] then ([], None) else (bs @ fst (stream_rest answers), snd (stream_rest answers)))"

definition coming :: "'b bytes_mut \<Rightarrow> 'b frame_reader \<Rightarrow> u8 list" where
  "coming bm r = buffered bm r @ (if fr_end r then [] else fst (stream_rest (fr_recv r)))"

definition fails :: "'b frame_reader \<Rightarrow> string option" where
  "fails r = (if fr_end r then None else snd (stream_rest (fr_recv r)))"

lemma poll_read_rest:
  "0 < most \<Longrightarrow> poll_read most s = (p, s') \<Longrightarrow>
   (case p of
      Pending \<Rightarrow> stream_rest s' = stream_rest s \<and> answers_size s' < answers_size s
    | Ready (Inl e) \<Rightarrow> stream_rest s = ([], Some e)
    | Ready (Inr bs) \<Rightarrow> length bs \<le> most \<and>
        (if bs = [] then stream_rest s = ([], None) else stream_rest s = (bs @ fst (stream_rest s'), snd (stream_rest s'))))"
  by (induction most s rule: poll_read.induct) (auto simp: answers_size_def simp flip: append_assoc split: if_splits)

text \<open>Reading until it is ready, as a task that is woken does.\<close>

inductive polls :: "('r \<Rightarrow> 'a poll \<times> 'r) \<Rightarrow> 'r \<Rightarrow> 'a \<Rightarrow> 'r \<Rightarrow> bool" for op where
  polls_ready: "op r = (Ready a, r') \<Longrightarrow> polls op r a r'"
| polls_pending: "op r = (Pending, r') \<Longrightarrow> polls op r' a r'' \<Longrightarrow> polls op r a r''"

definition same_stream :: "'b bytes_mut \<Rightarrow> 'b frame_reader \<Rightarrow> 'b frame_reader \<Rightarrow> bool" where
  "same_stream bm r r' \<longleftrightarrow> coming bm r' = coming bm r \<and> fails r' = fails r"

lemma same_stream_trans: "same_stream bm r r' \<Longrightarrow> same_stream bm r' r'' \<Longrightarrow> same_stream bm r r''"
  by (simp add: same_stream_def)

lemma polls_total:
  assumes "\<And>r r'. op r = (Pending, r') \<Longrightarrow> answers_size (fr_recv r') < answers_size (fr_recv r) \<and> same_stream bm r r'"
    and "\<And>r a r'. op r = (Ready a, r') \<Longrightarrow> Q r a r'"
    and "\<And>r r' a r''. same_stream bm r r' \<Longrightarrow> Q r' a r'' \<Longrightarrow> Q r a r''"
  shows "\<exists>a r'. polls op r a r' \<and> Q r a r'"
proof (induction "answers_size (fr_recv r)" arbitrary: r rule: less_induct)
  case less
  show ?case
  proof (cases "op r")
    case (Pair p r')
    show ?thesis
    proof (cases p)
      case Pending
      then obtain a r'' where "polls op r' a r''" "Q r' a r''" using less assms(1) Pair by blast
      then show ?thesis using assms(1,3) Pair Pending by (blast intro: polls_pending)
    next
      case (Ready a)
      then show ?thesis using assms(2) Pair by (blast intro: polls_ready)
    qed
  qed
qed

lemma get_varint_append: "get_varint buf = Some x \<Longrightarrow> get_varint (buf @ extra) = Some x"
proof -
  assume a: "get_varint buf = Some x"
  then obtain b bs where "buf = b # bs" by (cases buf) (auto simp: get_varint_def)
  then have "varint_len (buf @ extra) = varint_len buf" by simp
  moreover from a have "take (varint_len buf) (buf @ extra) = take (varint_len buf) buf"
    by (auto simp: get_varint_def Let_def split: if_splits)
  ultimately show ?thesis using a by (auto simp: get_varint_def Let_def split: if_splits)
qed

lemma varint_wants: "get_varint buf = None \<Longrightarrow> length (buf @ extra) < varint_len buf \<Longrightarrow> get_varint (buf @ extra) = None"
  by (cases buf) (auto simp: get_varint_None)

lemma header_wants_append: "header_wants buf = Inr x \<Longrightarrow> header_wants (buf @ extra) = Inr x"
  using get_varint_len[of buf]
  by (force simp: header_wants_def get_varint_append split: option.splits)

lemma header_wants_short:
  assumes "header_wants buf = Inl want" "length (buf @ extra) < want"
  shows "\<exists>w. header_wants (buf @ extra) = Inl w"
proof (cases "get_varint buf")
  case None
  then show ?thesis using assms varint_wants[OF None, of extra] by (auto simp: header_wants_def)
next
  case (Some x)
  obtain ty n where x: "x = (ty, n)" by fastforce
  then have n: "n \<le> length buf" using Some get_varint_len[of buf] by simp
  have none: "get_varint (drop n buf) = None" and w: "want = n + varint_len (drop n buf)"
    using assms(1) Some x by (auto simp: header_wants_def split: option.splits)
  then have "get_varint (drop n buf @ extra) = None" using assms(2) n by (intro varint_wants) auto
  then show ?thesis using Some x n by (simp add: header_wants_def get_varint_append)
qed

text \<open>What a reader finds that was not ready before the stream ended or failed.\<close>

definition cut_off :: "'b frame_reader \<Rightarrow> read_failure" where
  "cut_off r = (case fails r of Some e \<Rightarrow> StreamFailed e | None \<Rightarrow> Truncated)"

definition header_answer :: "'b bytes_mut \<Rightarrow> 'b frame_reader \<Rightarrow> read_failure + frame_header option" where
  "header_answer bm r =
     (case header_wants (coming bm r) of
        Inr (h, _) \<Rightarrow> Inr (Some h)
      | Inl _ \<Rightarrow> if coming bm r = [] \<and> fails r = None then Inr None else Inl (cut_off r))"

context bytes_mut_laws
begin

lemma poll_more_coming:
  assumes "0 < most" "poll_more bm most r = (p, r')"
  shows "case p of
      Pending \<Rightarrow> same_stream bm r r' \<and> answers_size (fr_recv r') < answers_size (fr_recv r)
    | Ready (Inl f) \<Rightarrow> \<exists>e. f = StreamFailed e \<and> fails r = Some e \<and> coming bm r = buffered bm r
    | Ready (Inr n) \<Rightarrow>
        if n = 0 then fails r = None \<and> coming bm r = buffered bm r \<and> buffered bm r' = buffered bm r \<and> fr_end r'
        else same_stream bm r r' \<and> length (buffered bm r') = length (buffered bm r) + n"
proof (cases "fr_end r")
  case True
  then show ?thesis using assms(2) by (auto simp: poll_more_def coming_def fails_def)
next
  case False
  obtain read s where p: "poll_read most (fr_recv r) = (read, s)" by fastforce
  note rest = poll_read_rest[OF assms(1) p]
  define bs where "bs = (case read of Ready (Inr bs) \<Rightarrow> bs | _ \<Rightarrow> [])"
  define buf where "buf = bm_truncate bm (bm_write bm (bm_resize bm (fr_buf r) (length (buffered bm r) + most) 0)
      (length (buffered bm r)) bs) (length (buffered bm r) + length bs)"
  have "length bs \<le> most" using rest by (auto simp: bs_def split: poll.splits sum.splits)
  then have b: "bm_bytes bm buf = buffered bm r @ bs"
    by (simp add: buf_def truncate_law write_law resize_law)
  have r': "(p, r') = (case read of
      Ready (Inr _) \<Rightarrow> if length bs = 0 then (Ready (Inr 0), r\<lparr>fr_recv := s, fr_buf := buf, fr_end := True\<rparr>)
        else (Ready (Inr (length bs)), r\<lparr>fr_recv := s, fr_buf := buf\<rparr>)
    | Ready (Inl e) \<Rightarrow> (Ready (Inl (StreamFailed e)), r\<lparr>fr_recv := s, fr_buf := buf\<rparr>)
    | Pending \<Rightarrow> (Pending, r\<lparr>fr_recv := s, fr_buf := buf\<rparr>))"
    using assms(2) False p by (auto simp: poll_more_def Let_def buf_def bs_def split: poll.splits sum.splits)
  show ?thesis
  proof (cases read)
    case Pending
    then show ?thesis using r' rest False b by (simp add: bs_def same_stream_def coming_def fails_def)
  next
    case (Ready x)
    then show ?thesis using r' rest False b
      by (cases x) (auto simp: bs_def same_stream_def coming_def fails_def split: if_splits)
  qed
qed

lemma poll_fill_coming:
  "poll_fill bm want r = (p, r') \<Longrightarrow>
   (case p of
      Pending \<Rightarrow> same_stream bm r r' \<and> answers_size (fr_recv r') < answers_size (fr_recv r)
    | Ready (Inl f) \<Rightarrow> \<exists>e. f = StreamFailed e \<and> fails r = Some e \<and> length (coming bm r) < want
    | Ready (Inr enough) \<Rightarrow>
        if enough then same_stream bm r r' \<and> want \<le> length (buffered bm r')
        else fails r = None \<and> length (coming bm r) < want \<and> buffered bm r' = coming bm r)"
proof (induction "answers_size (fr_recv r)" arbitrary: r rule: less_induct)
  case less
  show ?case
  proof (cases "want \<le> length (buffered bm r)")
    case True
    then show ?thesis using less.prems by (auto simp: poll_fill.simps same_stream_def)
  next
    case False
    then have pos: "0 < want - length (buffered bm r)" by simp
    obtain q r1 where m: "poll_more bm (want - length (buffered bm r)) r = (q, r1)" by fastforce
    note step = poll_more_coming[OF pos m]
    show ?thesis
    proof (cases "\<exists>n. q = Ready (Inr n) \<and> n \<noteq> 0")
      case True
      then obtain n where n: "q = Ready (Inr n)" "n \<noteq> 0" by blast
      then have "poll_fill bm want r1 = (p, r')" using less.prems False m by (simp add: poll_fill.simps[of bm want r])
      moreover have sh: "answers_size (fr_recv r1) < answers_size (fr_recv r)" using poll_more_shorter m n by blast
      moreover have "coming bm r1 = coming bm r" "fails r1 = fails r" using step n by (simp_all add: same_stream_def)
      ultimately show ?thesis using less.hyps[OF sh]
        by (auto simp: same_stream_def split: poll.splits sum.splits if_splits)
    next
      case no: False
      then show ?thesis using less.prems False m step
        by (auto simp: poll_fill.simps[of bm want r] split: poll.splits sum.splits if_splits)
    qed
  qed
qed

end

lemma same_answer: "coming bm r' = coming bm r \<Longrightarrow> fails r' = fails r \<Longrightarrow> cut_off r' = cut_off r \<and> header_answer bm r' = header_answer bm r"
proof -
  assume "coming bm r' = coming bm r" and f: "fails r' = fails r"
  moreover have "cut_off r' = cut_off r" using f by (simp add: cut_off_def)
  ultimately show ?thesis by (simp only: header_answer_def simp_thms)
qed

definition payload_done :: "'b bytes_mut \<Rightarrow> nat \<Rightarrow> 'b frame_reader \<Rightarrow> read_failure + 'b \<Rightarrow> 'b frame_reader \<Rightarrow> bool" where
  "payload_done bm len r a r' \<longleftrightarrow>
     (if len \<le> length (coming bm r)
      then \<exists>front. a = Inr front \<and> bm_bytes bm front = take len (coming bm r) \<and> coming bm r' = drop len (coming bm r) \<and> fails r' = fails r
      else a = Inl (cut_off r))"

context bytes_mut_laws
begin

lemma coming_prefix: "\<exists>extra. coming bm r = buffered bm r @ extra"
  by (simp add: coming_def)

lemma coming_advance:
  "n \<le> length (buffered bm r) \<Longrightarrow> coming bm (r\<lparr>fr_buf := bm_advance bm (fr_buf r) n\<rparr>) = drop n (coming bm r)"
  by (simp add: coming_def advance_law)

lemma header_wants_le: "header_wants buf = Inr (h, n) \<Longrightarrow> n \<le> length buf"
  using get_varint_len[of buf] by (fastforce simp: header_wants_def dest: get_varint_len split: option.splits)

lemma poll_header_coming:
  "poll_header bm r = (p, r') \<Longrightarrow>
   (case p of
      Pending \<Rightarrow> answers_size (fr_recv r') < answers_size (fr_recv r) \<and> same_stream bm r r'
    | Ready a \<Rightarrow> a = header_answer bm r \<and>
        (\<forall>h n. header_wants (coming bm r) = Inr (h, n) \<longrightarrow> coming bm r' = drop n (coming bm r) \<and> fails r' = fails r))"
proof (induction "answers_size (fr_recv r)" arbitrary: r rule: less_induct)
  case less
  obtain extra where ex: "coming bm r = buffered bm r @ extra" using coming_prefix by blast
  show ?case
  proof (cases "header_wants (buffered bm r)")
    case (Inr x)
    obtain h n where x: "x = (h, n)" by fastforce
    have c: "header_wants (coming bm r) = Inr (h, n)" using header_wants_append Inr x ex by simp
    have r': "p = Ready (Inr (Some h))" "r' = r\<lparr>fr_buf := bm_advance bm (fr_buf r) n\<rparr>"
      using less.prems Inr x by (auto simp: poll_header.simps[of bm r])
    then show ?thesis using c coming_advance[OF header_wants_le] Inr x
      by (auto simp: header_answer_def fails_def)
  next
    case (Inl want)
    obtain q r1 where f: "poll_fill bm want r = (q, r1)" by fastforce
    note fill = poll_fill_coming[OF f]
    have short: "length (coming bm r) < want \<Longrightarrow> \<exists>w. header_wants (coming bm r) = Inl w"
      using header_wants_short[OF Inl, of extra] ex by simp
    show ?thesis
    proof (cases "q = Ready (Inr True)")
      case True
      then have "poll_header bm r1 = (p, r')" using less.prems Inl f by (simp add: poll_header.simps[of bm r])
      moreover have sh: "answers_size (fr_recv r1) < answers_size (fr_recv r)"
        using poll_fill_shorter[OF header_wants_more[OF Inl]] f True by blast
      moreover have "coming bm r1 = coming bm r" "fails r1 = fails r" using fill True by (simp_all add: same_stream_def)
      ultimately show ?thesis using less.hyps[OF sh] same_answer[of bm r1 r]
        by (auto simp: same_stream_def split: poll.splits)
    next
      case False
      then show ?thesis using less.prems Inl f fill short
        by (auto simp: poll_header.simps[of bm r] ended_def header_answer_def cut_off_def split: poll.splits sum.splits if_splits bool.splits)
    qed
  qed
qed

lemma header_polls:
  "\<exists>r'. polls (poll_header bm) r (header_answer bm r) r' \<and>
     (\<forall>h n. header_wants (coming bm r) = Inr (h, n) \<longrightarrow> coming bm r' = drop n (coming bm r) \<and> fails r' = fails r)"
proof -
  have "\<exists>a r'. polls (poll_header bm) r a r' \<and> (a = header_answer bm r \<and>
     (\<forall>h n. header_wants (coming bm r) = Inr (h, n) \<longrightarrow> coming bm r' = drop n (coming bm r) \<and> fails r' = fails r))"
  proof (rule polls_total[where bm = bm])
    show "poll_header bm r = (Pending, r') \<Longrightarrow> answers_size (fr_recv r') < answers_size (fr_recv r) \<and> same_stream bm r r'" for r r'
      using poll_header_coming[of r Pending r'] by simp
    show "poll_header bm r = (Ready a, r') \<Longrightarrow> a = header_answer bm r \<and>
        (\<forall>h n. header_wants (coming bm r) = Inr (h, n) \<longrightarrow> coming bm r' = drop n (coming bm r) \<and> fails r' = fails r)" for r a r'
      using poll_header_coming[of r "Ready a" r'] by simp
    show "same_stream bm r r' \<Longrightarrow> a = header_answer bm r' \<and>
        (\<forall>h n. header_wants (coming bm r') = Inr (h, n) \<longrightarrow> coming bm r'' = drop n (coming bm r') \<and> fails r'' = fails r') \<Longrightarrow>
        a = header_answer bm r \<and>
        (\<forall>h n. header_wants (coming bm r) = Inr (h, n) \<longrightarrow> coming bm r'' = drop n (coming bm r) \<and> fails r'' = fails r)" for r r' a r''
      using same_answer[of bm r' r] by (simp add: same_stream_def)
  qed
  then show ?thesis by blast
qed

lemma poll_payload_coming:
  assumes "poll_payload bm len r = (p, r')"
  shows "case p of
      Pending \<Rightarrow> answers_size (fr_recv r') < answers_size (fr_recv r) \<and> same_stream bm r r'
    | Ready (Inl f) \<Rightarrow> length (coming bm r) < len \<and> f = cut_off r
    | Ready (Inr front) \<Rightarrow> len \<le> length (coming bm r) \<and> bm_bytes bm front = take len (coming bm r) \<and>
        coming bm r' = drop len (coming bm r) \<and> fails r' = fails r"
proof -
  obtain q r1 where f: "poll_fill bm len r = (q, r1)" by fastforce
  note fill = poll_fill_coming[OF f]
  show ?thesis
  proof (cases "q = Ready (Inr True)")
    case True
    obtain front behind where s: "bm_split_to bm (fr_buf r1) len = (front, behind)" by fastforce
    have le: "len \<le> length (buffered bm r1)" and same: "coming bm r1 = coming bm r" "fails r1 = fails r"
      using fill True by (simp_all add: same_stream_def)
    have r': "p = Ready (Inr front)" "r' = r1\<lparr>fr_buf := behind\<rparr>" using assms f True s by (auto simp: poll_payload_def)
    show ?thesis using split_to_law[OF le s] le unfolding r' same[symmetric] by (auto simp: coming_def fails_def)
  next
    case False
    then show ?thesis using assms f fill
      by (auto simp: poll_payload_def cut_off_def split: poll.splits sum.splits if_splits bool.splits)
  qed
qed

lemma payload_polls: "\<exists>a r'. polls (poll_payload bm len) r a r' \<and> payload_done bm len r a r'"
proof (rule polls_total[where bm = bm])
  show "poll_payload bm len r = (Pending, r') \<Longrightarrow> answers_size (fr_recv r') < answers_size (fr_recv r) \<and> same_stream bm r r'" for r r'
    using poll_payload_coming[of len r Pending r'] by simp
  show "poll_payload bm len r = (Ready a, r') \<Longrightarrow> payload_done bm len r a r'" for r a r'
    using poll_payload_coming[of len r "Ready a" r'] by (cases a) (simp_all add: payload_done_def)
  show "payload_done bm len r a r''" if s: "same_stream bm r r'" and d: "payload_done bm len r' a r''" for r r' a r''
  proof -
    have e: "coming bm r' = coming bm r" "fails r' = fails r" "cut_off r' = cut_off r"
      using s same_answer[of bm r' r] by (auto simp: same_stream_def)
    show ?thesis using d unfolding payload_done_def e .
  qed
qed

end

section \<open>Properties\<close>

lemma polls_step:
  "polls op r a r' \<longleftrightarrow> (case op r of (Ready b, r1) \<Rightarrow> b = a \<and> r1 = r' | (Pending, r1) \<Rightarrow> polls op r1 a r')"
  by (subst polls.simps) (auto split: prod.splits poll.splits)

lemma polls_fun: "polls op r a r' \<Longrightarrow> polls op r b r'' \<Longrightarrow> b = a \<and> r'' = r'"
proof (induction rule: polls.induct)
  case (polls_ready r a r')
  from polls_ready(2) show ?case by (subst (asm) polls_step) (simp add: polls_ready(1))
next
  case (polls_pending r r' a r2)
  from polls_pending(4) have "polls op r' b r''" by (subst (asm) polls_step) (simp add: polls_pending(1))
  then show ?case by (rule polls_pending(3))
qed

text \<open>
  A task that reads the start of the next frame gets an answer, however the bytes of the stream are
  cut up and delayed, and the answer depends on the bytes alone: the first header they hold, or
  nothing at the end of the stream, or that it was cut off or failed.
\<close>
theorem header_read:
  assumes "bytes_mut_laws bm"
  shows "\<exists>r'. polls (poll_header bm) r (header_answer bm r) r' \<and>
    (\<forall>h n. header_wants (coming bm r) = Inr (h, n) \<longrightarrow> coming bm r' = drop n (coming bm r)) \<and>
    (\<forall>a r''. polls (poll_header bm) r a r'' \<longrightarrow> a = header_answer bm r \<and> r'' = r')"
proof -
  obtain r' where r': "polls (poll_header bm) r (header_answer bm r) r'"
    "\<forall>h n. header_wants (coming bm r) = Inr (h, n) \<longrightarrow> coming bm r' = drop n (coming bm r) \<and> fails r' = fails r"
    using bytes_mut_laws.header_polls[OF assms] by blast
  show ?thesis
  proof (intro exI[of _ r'] conjI allI impI)
    show "coming bm r' = drop n (coming bm r)" if "header_wants (coming bm r) = Inr (h, n)" for h n using r'(2) that by blast
    show "a = header_answer bm r" "r'' = r'" if "polls (poll_header bm) r a r''" for a r'' using polls_fun[OF r'(1) that] by blast+
  qed (rule r'(1))
qed

text \<open>
  C37. A frame that was written is read back, header and payload, however its bytes are cut up and
  delayed on the way, and the reader then stands right behind it.
\<close>
theorem frame_read_back:
  assumes "buf_mut_laws ops" "bytes_mut_laws bm" "ty \<le> VARINT_MAX" "length payload < 2 ^ 62"
    and "coming bm r = frame ops ty payload @ rest"
  shows "\<exists>r1 r2 front. polls (poll_header bm) r (Inr (Some \<lparr>hd_ty = ty, hd_len = of_nat (length payload)\<rparr>)) r1 \<and>
    polls (poll_payload bm (length payload)) r1 (Inr front) r2 \<and> bm_bytes bm front = payload \<and> coming bm r2 = rest"
proof -
  obtain n m where "get_varint (coming bm r) = Some (ty, n)" "get_varint (drop n (coming bm r)) = Some (of_nat (length payload), m)"
    and d: "drop (n + m) (coming bm r) = payload @ rest"
    using buf_mut_laws.frame_split[OF assms(1,3,4)] assms(5) by metis
  then have h: "header_wants (coming bm r) = Inr (\<lparr>hd_ty = ty, hd_len = of_nat (length payload)\<rparr>, n + m)"
    by (simp add: header_wants_def)
  obtain r1 where r1: "polls (poll_header bm) r (Inr (Some \<lparr>hd_ty = ty, hd_len = of_nat (length payload)\<rparr>)) r1" "coming bm r1 = payload @ rest"
    using bytes_mut_laws.header_polls[OF assms(2), of r] h d by (auto simp: header_answer_def)
  moreover obtain a r2 where "polls (poll_payload bm (length payload)) r1 a r2" "payload_done bm (length payload) r1 a r2"
    using bytes_mut_laws.payload_polls[OF assms(2)] by blast
  ultimately show ?thesis by (auto simp: payload_done_def)
qed

text \<open>A frame with two bytes of payload that comes in three parts with waits between them.\<close>

definition demo_reader :: "u8 list frame_reader" where
  "demo_reader = reader_new bytes_ref [RPending, RBytes [1], RBytes [2, 8], RPending, RBytes [9, 7]]"

lemma demo_coming: "coming bytes_ref demo_reader = frame vec_buf 1 [8, 9] @ [7]"
  by (simp add: demo_reader_def reader_new_def coming_def bytes_ref_def frame_def put_varint_def vec_buf_def)

theorem header_read_witness:
  "bytes_mut_laws bytes_ref \<and> (\<exists>r'. polls (poll_header bytes_ref) demo_reader (header_answer bytes_ref demo_reader) r')"
  using header_read[OF bytes_ref.bytes_mut_laws_axioms, of demo_reader] bytes_ref.bytes_mut_laws_axioms by blast

theorem frame_read_back_witness:
  "coming bytes_ref demo_reader = frame vec_buf 1 [8, 9] @ [7] \<and>
   (\<exists>r1 r2. polls (poll_header bytes_ref) demo_reader (Inr (Some \<lparr>hd_ty = 1, hd_len = 2\<rparr>)) r1 \<and>
     polls (poll_payload bytes_ref 2) r1 (Inr [8, 9]) r2)"
proof -
  have "(1 :: u64) \<le> VARINT_MAX" "length [8, 9 :: u8] < 2 ^ 62" by (simp_all add: VARINT_MAX_def)
  note read = frame_read_back[OF vec_buf.buf_mut_laws_axioms bytes_ref.bytes_mut_laws_axioms this demo_coming]
  have "length [8, 9 :: u8] = 2" by simp
  from read[unfolded this]
  obtain r1 r2 front where "polls (poll_header bytes_ref) demo_reader (Inr (Some \<lparr>hd_ty = 1, hd_len = 2\<rparr>)) r1"
    "polls (poll_payload bytes_ref 2) r1 (Inr front) r2" "bm_bytes bytes_ref front = [8, 9]" by auto
  moreover from this(3) have "front = [8, 9]" by (simp add: bytes_ref_def)
  ultimately show ?thesis using demo_coming by blast
qed

end
