(* ===== verification/Rurge_Huffman_Tables.thy ===== *)
theory Rurge_Huffman_Tables
  imports Rurge_Huffman
begin

unbundle bit_operations_syntax

text \<open>
  The tables that \<open>huffman_canonical\<close> computes, and that the code of \<^verbatim>\<open>huffman.rs\<close> is complete and canonical,
  checked entry by entry.
\<close>

section \<open>The tables\<close>

definition table_count :: "u16 list" where
  "table_count =
     [0, 0, 0, 0, 0, 10, 26, 32, 6, 0, 5, 3, 2, 6, 2, 3, 0, 0, 0, 3, 8, 13, 26, 29, 12, 4, 15, 19, 29, 0, 4]"

definition table_first :: "u32 list" where
  "table_first =
     [0, 0, 0, 0, 0, 0, 20, 92, 248, 508, 1016, 2042, 4090, 8184, 16380, 32764, 65534, 131068, 262136, 524272,
     1048550, 2097116, 4194258, 8388568, 16777194, 33554412, 67108832, 134217694, 268435426, 536870910, 1073741820]"

definition table_start :: "u16 list" where
  "table_start =
     [0, 0, 0, 0, 0, 0, 10, 36, 68, 74, 74, 79, 82, 84, 90, 92, 95, 95, 95, 95, 98, 106, 119, 145, 174, 186, 190,
     205, 224, 253, 253]"

definition table_symbols :: "u16 list" where
  "table_symbols =
     [48, 49, 50, 97, 99, 101, 105, 111, 115, 116, 32, 37, 45, 46, 47, 51, 52, 53, 54, 55, 56, 57, 61, 65, 95, 98,
     100, 102, 103, 104, 108, 109, 110, 112, 114, 117, 58, 66, 67, 68, 69, 70, 71, 72, 73, 74, 75, 76, 77, 78, 79,
     80, 81, 82, 83, 84, 85, 86, 87, 89, 106, 107, 113, 118, 119, 120, 121, 122, 38, 42, 44, 59, 88, 90, 33, 34,
     40, 41, 63, 39, 43, 124, 35, 62, 0, 36, 64, 91, 93, 126, 94, 125, 60, 96, 123, 92, 195, 208, 128, 130, 131,
     162, 184, 194, 224, 226, 153, 161, 167, 172, 176, 177, 179, 209, 216, 217, 227, 229, 230, 129, 132, 133, 134,
     136, 146, 154, 156, 160, 163, 164, 169, 170, 173, 178, 181, 185, 186, 187, 189, 190, 196, 198, 228, 232, 233,
     1, 135, 137, 138, 139, 140, 141, 143, 147, 149, 150, 151, 152, 155, 157, 158, 165, 166, 168, 174, 175, 180,
     182, 183, 188, 191, 197, 231, 239, 9, 142, 144, 145, 148, 159, 171, 206, 215, 225, 236, 237, 199, 207, 234,
     235, 192, 193, 200, 201, 202, 205, 210, 213, 218, 219, 238, 240, 242, 243, 255, 203, 204, 211, 212, 214, 221,
     222, 223, 241, 244, 245, 246, 247, 248, 250, 251, 252, 253, 254, 2, 3, 4, 5, 6, 7, 8, 11, 12, 14, 15, 16, 17,
     18, 19, 20, 21, 23, 24, 25, 26, 27, 28, 29, 30, 31, 127, 220, 249, 10, 13, 22, 256]"

lemma count_eq: "fold count_step CODES (replicate (LONGEST + 1) 0) = table_count"
  by code_simp

lemma first_eq: "snd (snd (first_loop table_count [1..<LONGEST + 1] (0, 0, replicate (LONGEST + 1) 0, replicate (LONGEST + 1) 0))) =
    (table_first, table_start)"
  by code_simp

lemma symbols_eq: "fst (fold symbol_step (zip [0..<length CODES] CODES) (replicate 257 0, table_start)) = table_symbols"
  by code_simp

lemma canonical_eq:
  "huffman_canonical = \<lparr>ca_first = table_first, ca_count = table_count, ca_start = table_start, ca_symbols = table_symbols\<rparr>"
  using first_eq symbols_eq unfolding huffman_canonical_def Let_def count_eq by (auto split: prod.splits)

text \<open>Every place of the canonical order holds the symbol with that code, and every symbol is at its place.\<close>

definition place_ok :: "nat \<Rightarrow> nat \<Rightarrow> bool" where
  "place_ok l k \<longleftrightarrow> CODES ! unat (table_symbols ! (unat (table_start ! l) + k)) = (table_first ! l + of_nat k, of_nat l) \<and>
     table_symbols ! (unat (table_start ! l) + k) < 257"

definition symbol_ok :: "nat \<Rightarrow> u32 \<times> u8 \<Rightarrow> bool" where
  "symbol_ok s e \<longleftrightarrow> (let l = unat (snd e) in
     1 \<le> l \<and> l \<le> 30 \<and> table_first ! l \<le> fst e \<and> fst e - table_first ! l < ucast (table_count ! l) \<and>
     unat (table_symbols ! (unat (table_start ! l) + unat (fst e - table_first ! l))) = s)"

lemma places_check: "list_all (\<lambda>l. list_all (place_ok l) [0..<unat (table_count ! l)]) [0..<31]"
  by code_simp

lemma symbols_check: "list_all (\<lambda>(s, e). symbol_ok s e) (zip [0..<257] CODES)"
  by code_simp

text \<open>The codes of each length start where those of the length before end; all ones is no short code.\<close>

lemma recurrence_check:
  "list_all (\<lambda>l. uint (table_first ! (l + 1)) = 2 * (uint (table_first ! l) + uint (table_count ! l))) [0..<30]"
  by code_simp

lemma full_check: "uint (table_first ! 30) + uint (table_count ! 30) = 2 ^ 30"
  by code_simp

lemma start_check: "table_first ! 0 = 0 \<and> table_count ! 0 = 0"
  by code_simp

lemma ones_check: "list_all (\<lambda>l. uint (table_first ! l) + uint (table_count ! l) < 2 ^ l) [1..<8]"
  by code_simp

end
