(* ===== verification/Rurge_Huffman_Facts.thy ===== *)
theory Rurge_Huffman_Facts
  imports Rurge_Huffman_Tables
begin

unbundle bit_operations_syntax

text \<open>
  The canonical code is free of prefixes, and the decoder inverts every encoding.
\<close>

section \<open>Bits and their values\<close>

definition val_of :: "bool list \<Rightarrow> nat" where
  "val_of = foldl (\<lambda>a b. 2 * a + of_bool b) 0"

lemma val_of_snoc [simp]: "val_of [] = 0" "val_of (w @ [b]) = 2 * val_of w + of_bool b"
  by (simp_all add: val_of_def)

lemma val_of_append: "val_of (a @ b) = val_of a * 2 ^ length b + val_of b"
  by (induction b rule: rev_induct) (simp_all flip: append_assoc)

lemma val_of_less: "val_of w < 2 ^ length w"
  by (induction w rule: rev_induct) auto

lemma val_of_take: "val_of (take j w) = val_of w div 2 ^ (length w - j)"
proof -
  have "val_of w = val_of (take j w) * 2 ^ length (drop j w) + val_of (drop j w)"
    using val_of_append[of "take j w" "drop j w"] by simp
  then show ?thesis using val_of_less[of "drop j w"] by simp
qed

lemma val_of_inj: "length v = length w \<Longrightarrow> val_of v = val_of w \<Longrightarrow> v = w"
proof (induction v w rule: rev_induct2)
  case (4 b v c w)
  then have "2 * val_of v + of_bool b = 2 * val_of w + of_bool c" by simp
  then have "val_of v = val_of w \<and> b = c" by (cases b; cases c) (simp_all, presburger+)
  then show ?case using 4 by simp
qed auto

lemma val_of_ones: "val_of (replicate k True) = 2 ^ k - 1"
proof (induction k)
  case (Suc k)
  have "replicate (Suc k) True = replicate k True @ [True]" by (simp add: replicate_append_same)
  then have "val_of (replicate (Suc k) True) = 2 * (2 ^ k - 1) + 1" using Suc by (simp only: val_of_snoc) simp
  moreover have "(0 :: nat) < 2 ^ k" by simp
  ultimately show ?case unfolding power_Suc by linarith
qed simp

section \<open>The code, in numbers\<close>

definition first_of :: "nat \<Rightarrow> nat" where
  "first_of l = unat (table_first ! l)"

definition count_of :: "nat \<Rightarrow> nat" where
  "count_of l = unat (table_count ! l)"

definition code_len :: "nat \<Rightarrow> nat" where
  "code_len s = unat (snd (CODES ! s))"

text \<open>The bits of the code of a symbol, the most significant first.\<close>

definition code_bits :: "nat \<Rightarrow> bool list" where
  "code_bits s = map (\<lambda>i. bit (fst (CODES ! s)) (code_len s - Suc i)) [0..<code_len s]"

lemma first_step: "l < 30 \<Longrightarrow> first_of (Suc l) = 2 * (first_of l + count_of l)"
proof -
  assume "l < 30"
  then have "uint (table_first ! Suc l) = 2 * (uint (table_first ! l) + uint (table_count ! l))"
    using recurrence_check by (simp add: list_all_iff)
  then have "int (first_of (Suc l)) = int (2 * (first_of l + count_of l))" by (simp add: first_of_def count_of_def)
  then show ?thesis by simp
qed

lemma first_zero: "first_of 0 = 0" "count_of 0 = 0"
  using start_check by (simp_all add: first_of_def count_of_def)

lemma first_full: "first_of 30 + count_of 30 = 2 ^ 30"
proof -
  have "int (first_of 30 + count_of 30) = int (2 ^ 30)" using full_check by (simp add: first_of_def count_of_def)
  then show ?thesis by (simp only: of_nat_eq_iff)
qed

lemma first_mono: "j \<le> l \<Longrightarrow> l < 30 \<Longrightarrow> 2 ^ (Suc l - j) * (first_of j + count_of j) \<le> first_of (Suc l)"
proof (induction l)
  case 0
  then show ?case using first_step[of 0] by simp
next
  case (Suc l)
  show ?case
  proof (cases "j \<le> l")
    case True
    then have "2 ^ (Suc l - j) * (first_of j + count_of j) \<le> first_of (Suc l)" using Suc by simp
    then have "2 * (2 ^ (Suc l - j) * (first_of j + count_of j)) \<le> first_of (Suc (Suc l))" using first_step[of "Suc l"] Suc.prems by simp
    moreover have "2 * 2 ^ (Suc l - j) = (2 :: nat) ^ (Suc (Suc l) - j)" using True by (simp add: Suc_diff_le)
    ultimately show ?thesis by (metis mult.assoc)
  next
    case False
    then have "j = Suc l" using Suc.prems by simp
    then show ?thesis using first_step[of "Suc l"] Suc.prems by simp
  qed
qed

lemma first_bound: "l \<le> 30 \<Longrightarrow> first_of l + count_of l \<le> 2 ^ l"
proof (cases "l = 30")
  case False
  assume "l \<le> 30"
  with False have "2 ^ (30 - l) * (first_of l + count_of l) \<le> 2 ^ 30"
    using first_mono[of l 29] first_full by simp
  moreover have "(2 :: nat) ^ 30 = 2 ^ (30 - l) * 2 ^ l" using \<open>l \<le> 30\<close> by (simp flip: power_add)
  ultimately have "2 ^ (30 - l) * (first_of l + count_of l) \<le> 2 ^ (30 - l) * 2 ^ l" by (simp only:)
  then show ?thesis by simp
qed (simp add: first_full)

text \<open>The place of a symbol, and the symbol of a place.\<close>

definition symbol_at :: "nat \<Rightarrow> nat \<Rightarrow> nat" where
  "symbol_at l v = unat (table_symbols ! (unat (table_start ! l) + (v - first_of l)))"

lemma unat_ucast_count: "unat (ucast (w :: u16) :: u32) = unat w"
proof -
  have "unat w < 2 ^ 32" using unsigned_less[of w, where 'a = nat] by simp
  then show ?thesis by (simp add: unsigned_ucast_eq take_bit_nat_eq_self)
qed

lemma code_place:
  assumes "s < 257"
  shows "1 \<le> code_len s" "code_len s \<le> 30" "first_of (code_len s) \<le> unat (fst (CODES ! s))"
    "unat (fst (CODES ! s)) < first_of (code_len s) + count_of (code_len s)"
    "symbol_at (code_len s) (unat (fst (CODES ! s))) = s"
proof -
  have len: "length CODES = 257" by (simp add: CODES_def)
  have "(s, CODES ! s) \<in> set (zip [0..<257] CODES)"
    using assms len by (auto simp: set_zip intro!: exI[of _ s])
  then have ok: "symbol_ok s (CODES ! s)" using symbols_check by (auto simp: list_all_iff)
  let ?l = "code_len s" and ?c = "fst (CODES ! s)"
  show "1 \<le> ?l" "?l \<le> 30" using ok by (auto simp: symbol_ok_def Let_def code_len_def)
  have le: "table_first ! ?l \<le> ?c" and lt: "?c - table_first ! ?l < ucast (table_count ! ?l)"
    and sym: "unat (table_symbols ! (unat (table_start ! ?l) + unat (?c - table_first ! ?l))) = s"
    using ok by (simp_all add: symbol_ok_def Let_def code_len_def)
  show f: "first_of ?l \<le> unat ?c" using le by (simp add: first_of_def word_le_nat_alt)
  have d: "unat (?c - table_first ! ?l) = unat ?c - first_of ?l" using le by (simp add: unat_sub first_of_def)
  have "unat (?c - table_first ! ?l) < count_of ?l"
    using lt by (simp add: word_less_nat_alt count_of_def unat_ucast_count)
  then show "unat ?c < first_of ?l + count_of ?l" using f d by linarith
  show "symbol_at ?l (unat ?c) = s" using sym d by (simp add: symbol_at_def)
qed

lemma place_code:
  assumes "l \<le> 30" "first_of l \<le> v" "v < first_of l + count_of l"
  shows "symbol_at l v < 257" "code_len (symbol_at l v) = l" "unat (fst (CODES ! symbol_at l v)) = v"
proof -
  let ?k = "v - first_of l"
  have "?k < unat (table_count ! l)" "l \<in> set [0..<31]" using assms by (auto simp: count_of_def)
  then have ok: "place_ok l ?k" using places_check unfolding list_all_iff by fastforce
  then show "symbol_at l v < 257" by (simp add: place_ok_def symbol_at_def word_less_nat_alt)
  have c: "CODES ! symbol_at l v = (table_first ! l + of_nat ?k, of_nat l)" using ok by (simp add: place_ok_def symbol_at_def)
  then show "code_len (symbol_at l v) = l" using assms(1) by (simp add: code_len_def unat_of_nat)
  have "v < 2 ^ 30" using assms(3) first_bound[OF assms(1)] power_increasing[OF assms(1), of "2 :: nat"] by simp
  then show "unat (fst (CODES ! symbol_at l v)) = v"
    using c assms(2) by (simp add: unat_word_ariths unat_of_nat first_of_def)
qed

lemma length_code_bits [simp]: "length (code_bits s) = code_len s"
  by (simp add: code_bits_def)

lemma val_of_bits: "val_of (map (\<lambda>i. bit c (n - Suc i)) [0..<n]) = take_bit n (unat c)" for c :: "'a :: len word"
proof (induction n arbitrary: c)
  case (Suc n)
  have "map (\<lambda>i. bit c (Suc n - Suc i)) [0..<Suc n] = map (\<lambda>i. bit (drop_bit 1 c) (n - Suc i)) [0..<n] @ [bit c 0]"
    by (auto simp: bit_drop_bit_eq Suc_diff_Suc intro!: map_cong)
  then have "val_of (map (\<lambda>i. bit c (Suc n - Suc i)) [0..<Suc n]) = 2 * take_bit n (unat (drop_bit 1 c)) + of_bool (bit c 0)"
    by (simp only: val_of_snoc Suc[of "drop_bit 1 c"])
  also have "\<dots> = take_bit (Suc n) (unat c)"
  proof -
    have "bit c 0 \<longleftrightarrow> bit (unat c) 0" by (simp only: bit_unsigned_iff) simp
    then have "of_bool (bit c 0) = unat c mod 2" by (simp add: bit_0 mod_2_eq_odd)
    moreover have "unat (drop_bit 1 c) = unat c div 2" by (simp only: unat_drop_bit_eq) (simp only: drop_bit_eq_div power_one_right)
    ultimately show ?thesis by (simp add: take_bit_Suc)
  qed
  finally show ?case .
qed simp

lemma val_code_bits:
  assumes "s < 257"
  shows "val_of (code_bits s) = unat (fst (CODES ! s))"
proof -
  have "unat (fst (CODES ! s)) < 2 ^ code_len s"
    using code_place[OF assms] first_bound[of "code_len s"] by linarith
  then show ?thesis by (simp add: code_bits_def val_of_bits take_bit_nat_eq_self)
qed

section \<open>A code that is not complete yet\<close>

text \<open>No start of these bits is a code, and all of them may still become one.\<close>

definition pend :: "bool list \<Rightarrow> bool" where
  "pend w \<longleftrightarrow> length w < 30 \<and> (\<forall>j\<in>{1..length w}. first_of j + count_of j \<le> val_of (take j w))"

lemma pend_Nil: "pend []"
  by (simp add: pend_def)

lemma pend_first: "pend w \<Longrightarrow> first_of (Suc (length w)) \<le> val_of (w @ [b])"
proof (cases "w = []")
  case True
  then show ?thesis using first_step[of 0] by (simp add: first_zero)
next
  case False
  assume p: "pend w"
  have "length w \<in> {1..length w}" using False by (simp add: Suc_le_eq)
  then have "first_of (length w) + count_of (length w) \<le> val_of (take (length w) w)" using p unfolding pend_def by blast
  then show ?thesis using first_step[of "length w"] p by (simp add: pend_def)
qed

lemma pend_snoc:
  assumes "pend w" "first_of (Suc (length w)) + count_of (Suc (length w)) \<le> val_of (w @ [b])"
  shows "pend (w @ [b])"
proof -
  have len: "length w < 29"
  proof (rule ccontr)
    assume "\<not> length w < 29"
    then have "length w = 29" using assms(1) by (simp add: pend_def)
    then show False using assms(2) first_full val_of_less[of "w @ [b]"] by simp
  qed
  have "first_of j + count_of j \<le> val_of (take j (w @ [b]))" if "j \<in> {1..Suc (length w)}" for j
  proof (cases "j = Suc (length w)")
    case False
    then have "j \<in> {1..length w}" using that by simp
    then show ?thesis using assms(1) by (simp add: pend_def)
  qed (use assms(2) in simp)
  then show ?thesis using len by (simp add: pend_def)
qed

lemma code_not_pend: "s < 257 \<Longrightarrow> code_len s \<le> length w \<Longrightarrow> pend w \<Longrightarrow> take (code_len s) w \<noteq> code_bits s"
proof
  assume s: "s < 257" "code_len s \<le> length w" "pend w" "take (code_len s) w = code_bits s"
  have "code_len s \<in> {1..length w}" using code_place(1)[OF s(1)] s(2) by simp
  then have "first_of (code_len s) + count_of (code_len s) \<le> val_of (take (code_len s) w)"
    using s(3) unfolding pend_def by blast
  then show False using s(4) code_place(4)[OF s(1)] val_code_bits[OF s(1)] by simp
qed

text \<open>What starts a code is not complete.\<close>

lemma code_prefix_pend:
  assumes "s < 257" "j < code_len s"
  shows "pend (take j (code_bits s))"
proof -
  let ?l = "code_len s"
  note c = code_place[OF assms(1)]
  have "first_of k + count_of k \<le> val_of (take k (code_bits s))" if "1 \<le> k" "k \<le> j" for k
  proof -
    obtain l where l: "?l = Suc l" using assms(2) by (cases ?l) auto
    have "2 ^ (?l - k) * (first_of k + count_of k) \<le> first_of ?l" using first_mono[of k l] that assms(2) c(2) by (simp add: l)
    also have "\<dots> \<le> val_of (code_bits s)" using c(3) val_code_bits[OF assms(1)] by simp
    finally show ?thesis using div_le_mono[of _ _ "2 ^ (?l - k)"] by (fastforce simp: val_of_take)
  qed
  then show ?thesis using assms(2) c(2) by (auto simp: pend_def min_def)
qed

lemma code_bits_inj: "s < 257 \<Longrightarrow> t < 257 \<Longrightarrow> code_bits s = code_bits t \<Longrightarrow> s = t"
  using code_place(5)[of s] code_place(5)[of t] val_code_bits[of s] val_code_bits[of t] length_code_bits by metis

text \<open>Bits that complete a code.\<close>

lemma complete_iff:
  assumes "pend w"
  shows "val_of (w @ [b]) < first_of (Suc (length w)) + count_of (Suc (length w)) \<longleftrightarrow> (\<exists>s<257. code_bits s = w @ [b])"
    and "val_of (w @ [b]) < first_of (Suc (length w)) + count_of (Suc (length w)) \<Longrightarrow>
      symbol_at (Suc (length w)) (val_of (w @ [b])) < 257 \<and> code_bits (symbol_at (Suc (length w)) (val_of (w @ [b]))) = w @ [b]"
proof -
  let ?l = "Suc (length w)" and ?v = "val_of (w @ [b])"
  have l: "?l \<le> 30" using assms by (simp add: pend_def)
  show sym: "symbol_at ?l ?v < 257 \<and> code_bits (symbol_at ?l ?v) = w @ [b]" if "?v < first_of ?l + count_of ?l"
    using place_code[OF l pend_first[OF assms] that] val_code_bits by (intro conjI val_of_inj) auto
  show "?v < first_of ?l + count_of ?l \<longleftrightarrow> (\<exists>s<257. code_bits s = w @ [b])"
  proof
    assume "\<exists>s<257. code_bits s = w @ [b]"
    then obtain s where s: "s < 257" "code_bits s = w @ [b]" by blast
    then have "code_len s = ?l" using length_code_bits[of s] by simp
    then show "?v < first_of ?l + count_of ?l" using code_place(4)[OF s(1)] val_code_bits[OF s(1)] s(2) by simp
  qed (use sym in blast)
qed

section \<open>The decoder\<close>

definition held :: "u8 list \<Rightarrow> bool list \<Rightarrow> huffman_state" where
  "held out w = (out, of_nat (val_of w), length w)"

lemma decode_bit_step:
  assumes "pend w"
  shows "decode_bit byte i (held out w) =
    (let w' = w @ [bit byte i]; s = symbol_at (length w') (val_of w') in
     if val_of w' < first_of (length w') + count_of (length w')
     then if s < 256 then Some (held (out @ [of_nat s]) []) else None
     else if length w' = 30 then None else Some (held out w'))"
proof -
  let ?w = "w @ [bit byte i]" and ?l = "Suc (length w)"
  have lw: "length w < 30" using assms by (simp add: pend_def)
  have "val_of ?w < 2 ^ ?l" using val_of_less[of ?w] by simp
  also have "(2 :: nat) ^ ?l \<le> 2 ^ 30" using lw by (intro power_increasing) auto
  finally have v: "val_of ?w < 2 ^ 30" .
  have "(ucast (drop_bit i byte AND 1) :: u32) = of_bool (bit byte i)"
    by (rule bit_word_eqI) (auto simp: bit_simps)
  moreover have "push_bit 1 (of_nat (val_of w)) OR of_bool b = (of_nat (2 * val_of w + of_bool b) :: u32)" for b
  proof -
    have "\<not> bit (push_bit 1 (of_nat (val_of w)) :: u32) 0" by (simp only: bit_push_bit_iff) simp
    then have "push_bit 1 (of_nat (val_of w)) AND of_bool b = (0 :: u32)"
      by (intro bit_word_eqI) (auto simp: bit_and_iff bit_of_bool_iff simp del: push_bit_of_nat)
    then have "push_bit 1 (of_nat (val_of w)) OR of_bool b = (push_bit 1 (of_nat (val_of w)) + of_bool b :: u32)" by (simp add: disjunctive_add_eq_or)
    then show ?thesis by (simp add: push_bit_eq_mult)
  qed
  ultimately have cd: "push_bit 1 (of_nat (val_of w)) OR ucast (drop_bit i byte AND 1) = (of_nat (val_of ?w) :: u32)" by (simp del: val_of_snoc(1)) 
  have uv: "unat (of_nat (val_of ?w) :: u32) = val_of ?w" using v by (simp add: unat_of_nat del: val_of_snoc)
  have le: "table_first ! ?l \<le> of_nat (val_of ?w)" using pend_first[OF assms, of "bit byte i"] uv by (simp add: word_le_nat_alt first_of_def del: val_of_snoc)
  have at: "unat (of_nat (val_of ?w) - table_first ! ?l) = val_of ?w - first_of ?l"
    using le uv by (simp add: unat_sub first_of_def del: val_of_snoc)
  have lt: "of_nat (val_of ?w) - table_first ! ?l < ucast (table_count ! ?l) \<longleftrightarrow> val_of ?w < first_of ?l + count_of ?l"
    using pend_first[OF assms, of "bit byte i"] by (auto simp: word_less_nat_alt at unat_ucast_count count_of_def simp del: val_of_snoc)
  let ?s = "table_symbols ! (unat (table_start ! ?l) + (val_of ?w - first_of ?l))"
  have s: "symbol_at ?l (val_of ?w) = unat ?s" by (simp add: symbol_at_def del: val_of_snoc)
  have oct: "x \<le> 255 \<longleftrightarrow> unat x < 256" for x :: u16 by (auto simp: word_le_nat_alt)

  show ?thesis
  proof (cases "val_of ?w < first_of ?l + count_of ?l")
    case True
    then show ?thesis unfolding decode_bit_def held_def canonical_eq prod.case Let_def cd
      by (simp add: lt at oct s del: val_of_snoc(2))
  next
    case False
    then show ?thesis unfolding decode_bit_def held_def canonical_eq prod.case Let_def cd
      by (simp add: lt LONGEST_def del: val_of_snoc(2))
  qed
qed

text \<open>Bit by bit, over the bits of all the bytes.\<close>

definition byte_bits :: "u8 \<Rightarrow> bool list" where
  "byte_bits byte = map (bit byte) (rev [0..<8])"

definition bytes_bits :: "u8 list \<Rightarrow> bool list" where
  "bytes_bits src = concat (map byte_bits src)"

fun step_bits :: "bool list \<Rightarrow> u8 list \<times> bool list \<Rightarrow> (u8 list \<times> bool list) option" where
  "step_bits [] st = Some st"
| "step_bits (b # bs) (out, w) =
     (let w' = w @ [b]; s = symbol_at (length w') (val_of w') in
      if val_of w' < first_of (length w') + count_of (length w')
      then if s < 256 then step_bits bs (out @ [of_nat s], []) else None
      else step_bits bs (out, w'))"

lemma step_bits_append: "step_bits (a @ b) st = Option.bind (step_bits a st) (step_bits b)"
  by (induction a st rule: step_bits.induct) (auto simp: Let_def)

lemma step_bits_pend: "step_bits bs (out, w) = Some (out', w') \<Longrightarrow> pend w \<Longrightarrow> pend w'"
proof (induction bs "(out, w)" arbitrary: out w rule: step_bits.induct)
  case (2 b bs out w)
  then show ?case using pend_snoc[of w b] pend_Nil by (auto simp: Let_def not_less simp del: val_of_snoc split: if_splits)
qed simp

lemma decode_bits_steps:
  "pend w \<Longrightarrow> decode_bits byte ks (held out w) = map_option (\<lambda>(out, w). held out w) (step_bits (map (bit byte) ks) (out, w))"
proof (induction ks arbitrary: out w)
  case (Cons i ks)
  let ?w = "w @ [bit byte i]"
  note step = decode_bit_step[OF Cons.prems, of byte i out]
  show ?case
  proof (cases "val_of ?w < first_of (length ?w) + count_of (length ?w)")
    case True
    then show ?thesis using step Cons.IH[OF pend_Nil] by (simp add: Let_def del: val_of_snoc)
  next
    case False
    then have p: "pend ?w" using pend_snoc[OF Cons.prems, of "bit byte i"] by (simp add: not_less del: val_of_snoc)
    then have "length ?w \<noteq> 30" unfolding pend_def by linarith
    then show ?thesis using step Cons.IH[OF p] False by (simp add: Let_def del: val_of_snoc)
  qed
qed simp

lemma decode_bytes_steps:
  "pend w \<Longrightarrow> decode_bytes src (held out w) = map_option (\<lambda>(out, w). held out w) (step_bits (bytes_bits src) (out, w))"
proof (induction src arbitrary: out w)
  case (Cons byte src)
  have b: "bytes_bits (byte # src) = byte_bits byte @ bytes_bits src" by (simp add: bytes_bits_def)
  show ?case
  proof (cases "step_bits (byte_bits byte) (out, w)")
    case None
    then show ?thesis using decode_bits_steps[OF Cons.prems, of byte "rev [0..<8]" out]
      by (simp add: b step_bits_append byte_bits_def del: upt_rec_numeral)
  next
    case (Some st)
    obtain out' w' where st: "st = (out', w')" by fastforce
    then have "pend w'" using step_bits_pend Some Cons.prems by blast
    then show ?thesis using Some st decode_bits_steps[OF Cons.prems, of byte "rev [0..<8]" out] Cons.IH[of w' out']
      by (simp add: b step_bits_append byte_bits_def del: upt_rec_numeral)
  qed
qed (simp add: bytes_bits_def)

section \<open>Decoding inverts encoding\<close>

text \<open>
  The decoder has read some symbols and the start of another one exactly when the bits are their
  codes followed by that start.
\<close>

lemma step_bits_sound:
  "step_bits bs (out, w) = Some (out', w') \<Longrightarrow> pend w \<Longrightarrow>
   \<exists>new. out' = out @ new \<and> w @ bs = concat (map (code_bits \<circ> unat) new) @ w'"
proof (induction bs "(out, w)" arbitrary: out w rule: step_bits.induct)
  case (2 b bs out w)
  let ?w = "w @ [b]" and ?s = "symbol_at (length (w @ [b])) (val_of (w @ [b]))"
  show ?case
  proof (cases "val_of ?w < first_of (length ?w) + count_of (length ?w)")
    case True
    then have s: "?s < 256" and r: "step_bits bs (out @ [of_nat ?s], []) = Some (out', w')"
      using 2(3) by (auto simp: Let_def simp del: val_of_snoc split: if_splits)
    then have u: "unat (of_nat ?s :: u8) = ?s" by (simp add: unat_of_nat del: val_of_snoc)
    have c: "code_bits ?s = ?w" using complete_iff(2)[OF 2(4), of b] True by simp
    obtain new where "out' = (out @ [of_nat ?s]) @ new" "bs = concat (map (code_bits \<circ> unat) new) @ w'"
      using 2(1)[OF refl refl True s r pend_Nil] by auto
    then show ?thesis using c u by (intro exI[of _ "of_nat ?s # new"]) (simp del: val_of_snoc)
  next
    case False
    then have r: "step_bits bs (out, ?w) = Some (out', w')" using 2(3) by (auto simp: Let_def simp del: val_of_snoc)
    have "pend ?w" using pend_snoc[OF 2(4), of b] False by (simp add: not_less del: val_of_snoc)
    from 2(2)[OF refl refl False r this] show ?thesis by simp
  qed
qed simp

lemma unat_u8_less: "unat (x :: u8) < 256"
  using unsigned_less[of x, where 'a = nat] by simp

lemma step_bits_complete:
  "pend w \<Longrightarrow> pend w' \<Longrightarrow> w @ bs = concat (map (code_bits \<circ> unat) new) @ w' \<Longrightarrow> step_bits bs (out, w) = Some (out @ new, w')"
proof (induction bs arbitrary: out w new)
  case Nil
  have "new = []"
  proof (cases new)
    case (Cons x xs)
    then have "take (code_len (unat x)) w = code_bits (unat x)" "code_len (unat x) \<le> length w" using Nil(3) by auto
    then show ?thesis using code_not_pend[of "unat x" w] unat_u8_less[of x] Nil(1) by simp
  qed simp
  then show ?case using Nil by simp
next
  case (Cons b bs)
  let ?w = "w @ [b]"
  show ?case
  proof (cases "val_of ?w < first_of (length ?w) + count_of (length ?w)")
    case True
    let ?s = "symbol_at (length (w @ [b])) (val_of (w @ [b]))"
    have s: "?s < 257" "code_bits ?s = ?w" using complete_iff(2)[OF Cons.prems(1), of b] True by simp_all
    obtain x xs where new: "new = x # xs"
    proof (cases new)
      case Nil
      then have w': "w' = ?w @ bs" using Cons.prems(3) by simp
      then have "take (code_len ?s) w' = code_bits ?s" "code_len ?s \<le> length w'"
        using s(2) length_code_bits[of ?s] by (auto simp del: val_of_snoc length_code_bits)
      then show ?thesis using code_not_pend[OF s(1)] Cons.prems(2) by blast
    qed blast
    have x: "unat x < 257" using unat_u8_less[of x] by simp
    have split: "?w @ bs = code_bits (unat x) @ concat (map (code_bits \<circ> unat) xs) @ w'" using Cons.prems(3) new by (simp add: comp_def)
    have len: "code_len (unat x) = length ?w"
    proof (rule ccontr)
      assume "code_len (unat x) \<noteq> length ?w"
      then consider "code_len (unat x) \<le> length w" | "length ?w < code_len (unat x)" by fastforce
      then show False
      proof cases
        case 1
        then have "take (code_len (unat x)) w = code_bits (unat x)" using arg_cong[OF split, of "take (code_len (unat x))"] by simp
        then show False using code_not_pend[OF x 1 Cons.prems(1)] by blast
      next
        case 2
        then have "take (length ?w) (code_bits (unat x)) = code_bits ?s"
          using arg_cong[OF split, of "take (length ?w)"] s(2) by simp
        moreover have "pend (take (length ?w) (code_bits (unat x)))" by (rule code_prefix_pend[OF x 2])
        ultimately show False using code_not_pend[OF s(1), of "code_bits ?s"] by (simp del: val_of_snoc)
      qed
    qed
    then have "length ?w = length (code_bits (unat x))" by simp
    then have eq: "?w = code_bits (unat x)" and rest: "[] @ bs = concat (map (code_bits \<circ> unat) xs) @ w'"
      using split append_eq_append_conv[of ?w "code_bits (unat x)"] by (metis append_Nil)+
    then have "?s = unat x" using code_bits_inj[OF s(1) x] s(2) by (simp only:)
    then show ?thesis using Cons.IH[OF pend_Nil Cons.prems(2) rest, of "out @ [x]"] True unat_u8_less[of x] new
      by (simp add: Let_def del: val_of_snoc)
  next
    case False
    then have "pend ?w" using pend_snoc[OF Cons.prems(1), of b] by (simp add: not_less del: val_of_snoc)
    then show ?thesis using Cons.IH[of ?w new] Cons.prems False by (simp add: Let_def del: val_of_snoc)
  qed
qed

lemma pend_ones: "k \<le> 7 \<Longrightarrow> pend (replicate k True)"
proof -
  assume k: "k \<le> 7"
  have "first_of j + count_of j \<le> 2 ^ j - 1" if "1 \<le> j" "j \<le> 7" for j
  proof -
    have "uint (table_first ! j) + uint (table_count ! j) < 2 ^ j" using ones_check that by (simp add: list_all_iff)
    then have "int (first_of j + count_of j) < int (2 ^ j)" by (simp add: first_of_def count_of_def)
    then have "first_of j + count_of j < 2 ^ j" by (simp only: of_nat_less_iff)
    then show ?thesis by linarith
  qed
  then show ?thesis using k by (auto simp: pend_def val_of_ones min_def)
qed

lemma padding_iff:
  assumes "length w \<le> 7"
  shows "of_nat (val_of w) = (push_bit (length w) 1 - 1 :: u32) \<longleftrightarrow> w = replicate (length w) True"
proof -
  let ?k = "length w"
  have "(2 :: nat) ^ ?k \<le> 2 ^ 7" using assms by (intro power_increasing) auto
  then have small: "val_of w < 2 ^ 32" "2 ^ ?k - 1 < (2 :: nat) ^ 32" using val_of_less[of w] by simp_all
  have u: "unat (of_nat n :: u32) = n" if "n < 2 ^ 32" for n using that by (simp add: unat_of_nat)
  have "push_bit ?k 1 - 1 = (of_nat (2 ^ ?k - 1) :: u32)" by (simp add: push_bit_eq_mult of_nat_diff)
  then have "of_nat (val_of w) = (push_bit ?k 1 - 1 :: u32) \<longleftrightarrow> unat (of_nat (val_of w) :: u32) = unat (of_nat (2 ^ ?k - 1) :: u32)"
    by (simp add: word_unat_eq_iff)
  also have "\<dots> \<longleftrightarrow> val_of w = val_of (replicate ?k True)"
    by (simp only: u[OF small(1)] u[OF small(2)] val_of_ones)
  also have "\<dots> \<longleftrightarrow> w = replicate ?k True" using val_of_inj[of w "replicate ?k True"] by auto
  finally show ?thesis .
qed

text \<open>
  C38. Huffman decoding yields some octets exactly when the bits of the input are their codes one
  after the other, followed by at most seven ones. So every octet string that is encoded by the
  table decodes to itself, and nothing else is taken: no EOS, no other and no longer padding.
\<close>
theorem huffman_decode_iff:
  "huffman_decode src = Some out \<longleftrightarrow>
   (\<exists>k. k \<le> 7 \<and> bytes_bits src = concat (map (code_bits \<circ> unat) out) @ replicate k True)"
proof -
  have start: "([], 0, 0) = held [] []" by (simp add: held_def)
  have dec: "huffman_decode src = (case step_bits (bytes_bits src) ([], []) of
      None \<Rightarrow> None | Some (out, w) \<Rightarrow> if length w \<le> 7 \<and> of_nat (val_of w) = (push_bit (length w) 1 - 1 :: u32) then Some out else None)"
    unfolding huffman_decode_def start decode_bytes_steps[OF pend_Nil]
    by (auto simp: held_def split: option.splits)
  show ?thesis
  proof
    assume "huffman_decode src = Some out"
    then obtain w where s: "step_bits (bytes_bits src) ([], []) = Some (out, w)"
      and w: "length w \<le> 7" "of_nat (val_of w) = (push_bit (length w) 1 - 1 :: u32)"
      unfolding dec by (auto split: option.splits if_splits)
    then have "w = replicate (length w) True" using padding_iff by blast
    then show "\<exists>k. k \<le> 7 \<and> bytes_bits src = concat (map (code_bits \<circ> unat) out) @ replicate k True"
      using step_bits_sound[OF s pend_Nil] w(1) by (metis append_Nil)
  next
    assume "\<exists>k. k \<le> 7 \<and> bytes_bits src = concat (map (code_bits \<circ> unat) out) @ replicate k True"
    then obtain k where k: "k \<le> 7" "bytes_bits src = concat (map (code_bits \<circ> unat) out) @ replicate k True" by blast
    have "step_bits (bytes_bits src) ([], []) = Some ([] @ out, replicate k True)"
      by (rule step_bits_complete[OF pend_Nil pend_ones[OF k(1)]]) (simp add: k(2))
    then show "huffman_decode src = Some out" unfolding dec using k(1) padding_iff[of "replicate k True"] by simp
  qed
qed

end
