(* ===== verification/Rurge_Qpack.thy ===== *)
theory Rurge_Qpack
  imports Rurge_H3_Frame Rurge_Huffman
begin

unbundle bit_operations_syntax

text \<open>
  Field sections with the static table alone, \<^verbatim>\<open>crates/rurge-net/src/quic/h3/qpack.rs\<close>. A function
  that takes from the front of a slice returns the rest of it beside its result.
\<close>

section \<open>The static table\<close>

definition STATIC_TABLE :: "(string \<times> string) list" where
  "STATIC_TABLE = [
     ('':authority'', ''''), ('':path'', ''/''), (''age'', ''0''), (''content-disposition'', ''''),
     (''content-length'', ''0''), (''cookie'', ''''), (''date'', ''''), (''etag'', ''''), (''if-modified-since'', ''''),
     (''if-none-match'', ''''), (''last-modified'', ''''), (''link'', ''''), (''location'', ''''), (''referer'', ''''),
     (''set-cookie'', ''''), ('':method'', ''CONNECT''), ('':method'', ''DELETE''), ('':method'', ''GET''),
     ('':method'', ''HEAD''), ('':method'', ''OPTIONS''), ('':method'', ''POST''), ('':method'', ''PUT''),
     ('':scheme'', ''http''), ('':scheme'', ''https''), ('':status'', ''103''), ('':status'', ''200''),
     ('':status'', ''304''), ('':status'', ''404''), ('':status'', ''503''), (''accept'', ''*/*''),
     (''accept'', ''application/dns-message''), (''accept-encoding'', ''gzip, deflate, br''), (''accept-ranges'', ''bytes''),
     (''access-control-allow-headers'', ''cache-control''), (''access-control-allow-headers'', ''content-type''),
     (''access-control-allow-origin'', ''*''), (''cache-control'', ''max-age=0''), (''cache-control'', ''max-age=2592000''),
     (''cache-control'', ''max-age=604800''), (''cache-control'', ''no-cache''), (''cache-control'', ''no-store''),
     (''cache-control'', ''public, max-age=31536000''), (''content-encoding'', ''br''), (''content-encoding'', ''gzip''),
     (''content-type'', ''application/dns-message''), (''content-type'', ''application/javascript''),
     (''content-type'', ''application/json''), (''content-type'', ''application/x-www-form-urlencoded''),
     (''content-type'', ''image/gif''), (''content-type'', ''image/jpeg''), (''content-type'', ''image/png''),
     (''content-type'', ''text/css''), (''content-type'', ''text/html; charset=utf-8''), (''content-type'', ''text/plain''),
     (''content-type'', ''text/plain;charset=utf-8''), (''range'', ''bytes=0-''),
     (''strict-transport-security'', ''max-age=31536000''),
     (''strict-transport-security'', ''max-age=31536000; includesubdomains''),
     (''strict-transport-security'', ''max-age=31536000; includesubdomains; preload''), (''vary'', ''accept-encoding''),
     (''vary'', ''origin''), (''x-content-type-options'', ''nosniff''), (''x-xss-protection'', ''1; mode=block''),
     ('':status'', ''100''), ('':status'', ''204''), ('':status'', ''206''), ('':status'', ''302''), ('':status'', ''400''),
     ('':status'', ''403''), ('':status'', ''421''), ('':status'', ''425''), ('':status'', ''500''),
     (''accept-language'', ''''), (''access-control-allow-credentials'', ''FALSE''),
     (''access-control-allow-credentials'', ''TRUE''), (''access-control-allow-headers'', ''*''),
     (''access-control-allow-methods'', ''get''), (''access-control-allow-methods'', ''get, post, options''),
     (''access-control-allow-methods'', ''options''), (''access-control-expose-headers'', ''content-length''),
     (''access-control-request-headers'', ''content-type''), (''access-control-request-method'', ''get''),
     (''access-control-request-method'', ''post''), (''alt-svc'', ''clear''), (''authorization'', ''''),
     (''content-security-policy'', ''script-src 'none'; object-src 'none'; base-uri 'none'' @ [CHR 0x27]), (''early-data'', ''1''),
     (''expect-ct'', ''''), (''forwarded'', ''''), (''if-range'', ''''), (''origin'', ''''), (''purpose'', ''prefetch''),
     (''server'', ''''), (''timing-allow-origin'', ''*''), (''upgrade-insecure-requests'', ''1''), (''user-agent'', ''''),
     (''x-forwarded-for'', ''''), (''x-frame-options'', ''deny''), (''x-frame-options'', ''sameorigin'')
   ]"

type_synonym qpack_field = "u8 list \<times> u8 list"

datatype refused = Invalid | TooLarge

definition static_entry :: "u64 \<Rightarrow> refused + string \<times> string" where
  "static_entry index =
     (if unat index < length STATIC_TABLE then Inr (STATIC_TABLE ! unat index) else Inl Invalid)"

section \<open>Integers and strings\<close>

function put_rest :: "u64 \<Rightarrow> u8 list" where
  "put_rest rest =
     (if 0x80 \<le> rest then (0x80 OR ucast (rest AND 0x7f)) # put_rest (drop_bit 7 rest) else [ucast rest])"
  by pat_completeness auto

termination put_rest
proof (relation "measure unat")
  fix rest :: u64
  assume "0x80 \<le> rest"
  then have "unat rest \<ge> 128" by (simp add: word_le_nat_alt)
  then have "unat rest div 128 < unat rest" by simp
  then show "(drop_bit 7 rest, rest) \<in> measure unat" by (simp only: in_measure unat_drop_bit_eq) (simp add: drop_bit_eq_div)
qed simp

declare put_rest.simps [simp del]

definition prefix_max :: "nat \<Rightarrow> u64" where
  "prefix_max n = push_bit n 1 - 1"

definition put_int :: "u8 list \<Rightarrow> u8 \<Rightarrow> nat \<Rightarrow> u64 \<Rightarrow> u8 list" where
  "put_int out flags n val =
     (if val < prefix_max n then out @ [flags OR ucast val]
      else out @ (flags OR ucast (prefix_max n)) # put_rest (val - prefix_max n))"

definition put_string :: "u8 list \<Rightarrow> u8 \<Rightarrow> nat \<Rightarrow> u8 list \<Rightarrow> u8 list" where
  "put_string out flags n bytes = put_int out flags n (of_nat (length bytes)) @ bytes"

fun get_more :: "nat \<Rightarrow> u64 \<Rightarrow> u8 list \<Rightarrow> refused + u64 \<times> u8 list" where
  "get_more shift val [] = Inl Invalid"
| "get_more shift val (byte # src) =
     (let val' = val + push_bit shift (ucast (byte AND 0x7f)) in
      if byte AND 0x80 = 0 then Inr (val', src)
      else if 56 < shift + 7 then Inl Invalid
      else get_more (shift + 7) val' src)"

definition get_int :: "u8 list \<Rightarrow> nat \<Rightarrow> refused + (u8 \<times> u64) \<times> u8 list" where
  "get_int src n =
     (case src of
        [] \<Rightarrow> Inl Invalid
      | first # rest \<Rightarrow>
          let most = prefix_max n; val = ucast first AND most; flags = first AND NOT (ucast most) in
          if val = most then
            (case get_more 0 val rest of
               Inl e \<Rightarrow> Inl e
             | Inr (val', rest') \<Rightarrow> if VARINT_MAX < val' then Inl Invalid else Inr ((flags, val'), rest'))
          else Inr ((flags, val), rest))"

definition get_string :: "u8 list \<Rightarrow> nat \<Rightarrow> refused + u8 list \<times> u8 list" where
  "get_string src0 n =
     (case get_int src0 n of
        Inl e \<Rightarrow> Inl e
      | Inr ((flags, len), src) \<Rightarrow>
          if length src < unat len then Inl Invalid
          else if flags AND push_bit n 1 \<noteq> 0 then
            (case huffman_decode (take (unat len) src) of
               None \<Rightarrow> Inl Invalid
             | Some bytes \<Rightarrow> Inr (bytes, drop (unat len) src))
          else Inr (take (unat len) src, drop (unat len) src))"

section \<open>Field sections\<close>

definition get_named :: "u8 list \<Rightarrow> u8 list \<Rightarrow> refused + qpack_field \<times> u8 list" where
  "get_named name sec =
     (case get_string sec 7 of Inl e \<Rightarrow> Inl e | Inr (val, sec') \<Rightarrow> Inr ((name, val), sec'))"

definition decode_field :: "u8 \<Rightarrow> u8 list \<Rightarrow> refused + qpack_field \<times> u8 list" where
  "decode_field first sec =
     (if first AND 0x80 \<noteq> 0 then
        (case get_int sec 6 of
           Inl e \<Rightarrow> Inl e
         | Inr ((flags, index), sec') \<Rightarrow>
             if flags AND 0x40 = 0 then Inl Invalid
             else (case static_entry index of
                     Inl e \<Rightarrow> Inl e
                   | Inr (name, val) \<Rightarrow> Inr ((as_bytes name, as_bytes val), sec')))
      else if first AND 0x40 \<noteq> 0 then
        (case get_int sec 4 of
           Inl e \<Rightarrow> Inl e
         | Inr ((flags, index), sec') \<Rightarrow>
             if flags AND 0x10 = 0 then Inl Invalid
             else (case static_entry index of
                     Inl e \<Rightarrow> Inl e
                   | Inr (name, _) \<Rightarrow> get_named (as_bytes name) sec'))
      else if first AND 0x20 \<noteq> 0 then
        (case get_string sec 3 of Inl e \<Rightarrow> Inl e | Inr (name, sec') \<Rightarrow> get_named name sec')
      else Inl Invalid)"

lemma get_more_shorter: "get_more shift val src = Inr (v, rest) \<Longrightarrow> length rest < length src"
  by (induction shift val src rule: get_more.induct) (auto simp: Let_def less_Suc_eq split: if_splits)

lemma get_int_shorter: "get_int src n = Inr (x, rest) \<Longrightarrow> length rest < length src"
  by (auto simp: get_int_def Let_def less_Suc_eq dest: get_more_shorter split: list.splits sum.splits if_splits)

lemma get_string_shorter: "get_string src n = Inr (x, rest) \<Longrightarrow> length rest < length src"
  by (force simp: get_string_def dest: get_int_shorter split: sum.splits if_splits option.splits)

lemma decode_field_shorter: "decode_field first sec = Inr (x, rest) \<Longrightarrow> length rest < length sec"
  by (auto simp: decode_field_def get_named_def dest!: get_int_shorter get_string_shorter split: sum.splits if_splits)

function decode_loop_fields :: "u64 \<Rightarrow> u64 \<Rightarrow> u8 list \<Rightarrow> refused + qpack_field list" where
  "decode_loop_fields limit taken sec =
     (case sec of
        [] \<Rightarrow> Inr []
      | first # _ \<Rightarrow>
          (case decode_field first sec of
             Inl e \<Rightarrow> Inl e
           | Inr (field, sec') \<Rightarrow>
               let taken' = taken + (of_nat (length (fst field) + length (snd field)) + 32) in
               if limit < taken' then Inl TooLarge
               else map_sum (\<lambda>e. e) ((#) field) (decode_loop_fields limit taken' sec')))"
  by pat_completeness auto

termination decode_loop_fields
  by (relation "measure (\<lambda>(limit, taken, sec). length sec)") (auto dest!: decode_field_shorter)

declare decode_loop_fields.simps [simp del]

definition qpack_decode :: "u8 list \<Rightarrow> u64 \<Rightarrow> refused + qpack_field list" where
  "qpack_decode sec limit =
     (case get_int sec 8 of
        Inl e \<Rightarrow> Inl e
      | Inr ((_, required), sec1) \<Rightarrow>
          (case get_int sec1 7 of
             Inl e \<Rightarrow> Inl e
           | Inr ((sign, _), sec2) \<Rightarrow>
               if required \<noteq> 0 \<or> sign \<noteq> 0 then Inl Invalid else decode_loop_fields limit 0 sec2))"

definition encode_field :: "u8 list \<times> u8 list \<times> bool \<Rightarrow> u8 list \<Rightarrow> u8 list" where
  "encode_field e out =
     (case e of (name, val, sensitive) \<Rightarrow>
        let exact = position (\<lambda>(n, v). as_bytes n = name \<and> as_bytes v = val) STATIC_TABLE;
            named = position (\<lambda>(n, _). as_bytes n = name) STATIC_TABLE
        in case (if sensitive then None else exact) of
             Some index \<Rightarrow> put_int out 0xc0 6 (of_nat index)
           | None \<Rightarrow>
               (case named of
                  Some index \<Rightarrow>
                    put_string (put_int out (0x50 OR (if sensitive then 0x20 else 0)) 4 (of_nat index)) 0 7 val
                | None \<Rightarrow>
                    put_string (put_string out (0x20 OR (if sensitive then 0x10 else 0)) 3 name) 0 7 val))"

definition qpack_encode :: "(u8 list \<times> u8 list \<times> bool) list \<Rightarrow> u8 list" where
  "qpack_encode fs = fold encode_field fs [0, 0]"

end
