(* ===== verification/Rurge_Qpack_Facts.thy ===== *)
theory Rurge_Qpack_Facts
  imports Rurge_Qpack
begin

unbundle bit_operations_syntax

text \<open>
  A field section that is written is read back as its fields, within the limit on its size.
\<close>

section \<open>Integers\<close>

lemma low_bits: "take_bit 7 x + push_bit 7 (drop_bit 7 x) = x" for x :: u64
  by (subst add.commute) (rule bits_ident)

lemma and_7f: "x AND 0x7f = take_bit 7 x" for x :: "'a::len word"
  by (simp add: take_bit_eq_mask mask_eq_exp_minus_1)

lemma flag_bit:
  "x AND 0x80 = 0 \<longleftrightarrow> \<not> bit x 7" "x AND 0x40 = 0 \<longleftrightarrow> \<not> bit x 6" "x AND 0x20 = 0 \<longleftrightarrow> \<not> bit x 5" "x AND 0x10 = 0 \<longleftrightarrow> \<not> bit x 4"
  "x AND 8 = 0 \<longleftrightarrow> \<not> bit x 3" for x :: u8
  using and_exp_eq_0_iff_not_bit[of x 7] and_exp_eq_0_iff_not_bit[of x 6] and_exp_eq_0_iff_not_bit[of x 5] and_exp_eq_0_iff_not_bit[of x 4]
    and_exp_eq_0_iff_not_bit[of x 3] by simp_all

lemma put_rest_bytes:
  "r < 0x80 \<Longrightarrow> (ucast r :: u8) AND 0x80 = 0 \<and> ucast ((ucast r :: u8) AND 0x7f) = r"
  "(0x80 OR ucast (r AND 0x7f) :: u8) AND 0x80 \<noteq> 0 \<and> ucast ((0x80 OR ucast (r AND 0x7f) :: u8) AND 0x7f) = r AND (0x7f :: u64)"
proof -
  have b80: "bit (0x80 :: u8) k \<longleftrightarrow> k = 7" for k using bit_exp_iff[of 7 k, where 'a = u8] by auto
  show "(ucast r :: u8) AND 0x80 = 0 \<and> ucast ((ucast r :: u8) AND 0x7f) = r" if "r < 0x80"
  proof -
    have "unat r < 2 ^ 7" using that by (simp add: word_less_nat_alt)
    then have r: "take_bit 7 r = r" by (simp add: word_unat_eq_iff unsigned_take_bit_eq take_bit_nat_eq_self)
    then have nb: "bit r k \<Longrightarrow> k < 7" for k using bit_take_bit_iff[of 7 r k] by simp
    have "ucast ((ucast r :: u8) AND 0x7f) = r" unfolding and_7f
      by (rule bit_word_eqI) (use nb in \<open>fastforce simp: bit_simps\<close>)
    moreover have "\<not> bit (ucast r :: u8) 7" using nb[of 7] by (auto simp: bit_ucast_iff)
    ultimately show ?thesis by (simp add: flag_bit)
  qed
  show "(0x80 OR ucast (r AND 0x7f) :: u8) AND 0x80 \<noteq> 0 \<and> ucast ((0x80 OR ucast (r AND 0x7f) :: u8) AND 0x7f) = r AND (0x7f :: u64)"
    unfolding and_7f flag_bit not_not
    by (intro conjI bit_word_eqI) (auto simp: bit_or_iff b80 bit_take_bit_iff bit_ucast_iff)
qed

lemma get_more_put_rest:
  "unat r < 2 ^ (63 - 7 * i) \<Longrightarrow> i \<le> 8 \<Longrightarrow> get_more (7 * i) v (put_rest r @ rest) = Inr (v + push_bit (7 * i) r, rest)"
proof (induction r arbitrary: i v rule: put_rest.induct)
  case (1 r)
  show ?case
  proof (cases "0x80 \<le> r")
    case False
    then show ?thesis using put_rest_bytes(1)[of r] by (subst put_rest.simps) (simp add: Let_def)
  next
    case True
    have "2 ^ 7 \<le> unat r" using True by (simp add: word_le_nat_alt)
    then have "(2 :: nat) ^ 7 < 2 ^ (63 - 7 * i)" using 1(2) by linarith
    then have "7 < 63 - 7 * i" by (rule power_less_imp_less_exp[rotated]) simp
    then have i: "Suc i \<le> 8" by simp
    have "unat (drop_bit 7 r) = unat r div 2 ^ 7" by (simp only: unat_drop_bit_eq) (simp only: drop_bit_eq_div)
    moreover have "unat r div 2 ^ 7 < 2 ^ (63 - 7 * Suc i)"
    proof (rule div_less_iff_less_mult[THEN iffD2])
      have "63 - 7 * i = (63 - 7 * Suc i) + 7" using i by simp
      then have "(2 :: nat) ^ (63 - 7 * i) = 2 ^ (63 - 7 * Suc i) * 2 ^ 7" by (simp only: power_add)
      then show "unat r < 2 ^ (63 - 7 * Suc i) * 2 ^ 7" using 1(2) by simp
    qed simp
    ultimately have IH: "get_more (7 * Suc i) v' (put_rest (drop_bit 7 r) @ rest) = Inr (v' + push_bit (7 * Suc i) (drop_bit 7 r), rest)" for v'
      using 1(1)[OF True _ i] by simp
    have sum: "push_bit (7 * i) (r AND 0x7f) + push_bit (7 * Suc i) (drop_bit 7 r) = push_bit (7 * i) r"
    proof -
      have "push_bit (7 * i) r = push_bit (7 * i) (take_bit 7 r + push_bit 7 (drop_bit 7 r))" by (simp only: low_bits)
      also have "\<dots> = push_bit (7 * i) (take_bit 7 r) + push_bit (7 * i) (push_bit 7 (drop_bit 7 r))" by (rule push_bit_add)
      finally show ?thesis by (simp add: and_7f add.commute[of 7])
    qed
    have "get_more (7 * i) v (put_rest r @ rest) =
        get_more (7 * Suc i) (v + push_bit (7 * i) (r AND 0x7f)) (put_rest (drop_bit 7 r) @ rest)"
      using True i put_rest_bytes(2)[of r] by (subst put_rest.simps) (simp add: Let_def add.commute[of 7])
    also have "\<dots> = Inr (v + push_bit (7 * i) r, rest)" unfolding IH using sum by (simp add: add.assoc)
    finally show ?thesis .
  qed
qed

text \<open>The bits of the first byte above the prefix are free.\<close>

definition above :: "nat \<Rightarrow> u8 \<Rightarrow> bool" where
  "above n flags \<longleftrightarrow> (\<forall>k<n. \<not> bit flags k)"

lemma prefix_max_mask: "prefix_max n = mask n"
  by (simp add: prefix_max_def mask_eq_exp_minus_1 push_bit_eq_mult)

lemma first_byte:
  assumes "above n flags" "n \<le> 8" "take_bit n v = v"
  shows "ucast (flags OR ucast v :: u8) AND mask n = (v :: u64)" "(flags OR ucast v :: u8) AND NOT (ucast (mask n :: u64)) = flags"
proof -
  have nb: "bit v k \<Longrightarrow> k < n" for k using bit_take_bit_iff[of n v k] assms(3) by simp
  show "ucast (flags OR ucast v :: u8) AND mask n = v"
  proof (rule bit_word_eqI)
    fix k assume "k < LENGTH(64)"
    then show "bit (ucast (flags OR ucast v :: u8) AND mask n :: u64) k = bit v k"
      using nb[of k] assms(1,2) by (auto simp: bit_and_iff bit_ucast_iff bit_or_iff bit_mask_iff above_def)
  qed
  show "(flags OR ucast v :: u8) AND NOT (ucast (mask n :: u64)) = flags"
  proof (rule bit_word_eqI)
    fix k assume "k < LENGTH(8)"
    then show "bit ((flags OR ucast v :: u8) AND NOT (ucast (mask n :: u64))) k = bit flags k"
      using nb[of k] assms(1) by (auto simp: bit_and_iff bit_ucast_iff bit_or_iff bit_not_iff bit_mask_iff above_def)
  qed
qed

lemma below_mask:
  assumes "n \<le> 8" "v < mask n"
  shows "take_bit n v = (v :: u64)"
proof -
  have "n = 0 \<or> n = 1 \<or> n = 2 \<or> n = 3 \<or> n = 4 \<or> n = 5 \<or> n = 6 \<or> n = 7 \<or> n = 8" using assms(1) by linarith
  then have "unat (mask n :: u64) = 2 ^ n - 1" by (elim disjE) (simp_all add: mask_eq_exp_minus_1)
  then have "unat v < 2 ^ n" using assms(2) by (simp add: word_less_nat_alt)
  then show ?thesis by (simp add: word_unat_eq_iff unsigned_take_bit_eq take_bit_nat_eq_self)
qed

lemma put_int_append: "put_int out flags n v = out @ put_int [] flags n v"
  by (simp add: put_int_def)

lemma get_put_int:
  assumes "above n flags" "n \<le> 8" "v \<le> VARINT_MAX"
  shows "get_int (put_int [] flags n v @ rest) n = Inr ((flags, v), rest)"
proof (cases "v < mask n")
  case True
  have "take_bit n v = v" using below_mask[OF assms(2) True] .
  then show ?thesis using first_byte[OF assms(1,2)] True
    by (auto simp: put_int_def get_int_def prefix_max_mask Let_def)
next
  case False
  let ?m = "mask n :: u64"
  have "unat v < 2 ^ 62" using assms(3) by (simp add: VARINT_MAX_def word_le_nat_alt)
  moreover have "unat (v - ?m) \<le> unat v" using False by (simp add: unat_sub not_less)
  ultimately have "unat (v - ?m) < 2 ^ (63 - 7 * 0)" by simp
  then have more: "get_more 0 ?m (put_rest (v - ?m) @ rest) = Inr (v, rest)"
    using get_more_put_rest[of "v - ?m" 0 ?m rest] by simp
  have "take_bit n ?m = ?m" by (simp add: take_bit_eq_mask)
  then show ?thesis using first_byte[OF assms(1,2), of ?m] False more assms(3)
    by (auto simp: put_int_def get_int_def prefix_max_mask Let_def)
qed

lemma put_int_first:
  assumes "n \<le> 8"
  shows "\<exists>f bs. put_int [] flags n v = f # bs \<and> (\<forall>k\<ge>n. bit f k = bit flags k)"
proof (cases "v < mask n")
  case True
  have "take_bit n v = v" using below_mask[OF assms True] .
  then have "bit v k \<Longrightarrow> k < n" for k using bit_take_bit_iff[of n v k] by simp
  then show ?thesis using True by (fastforce simp: put_int_def prefix_max_mask bit_or_iff bit_ucast_iff)
next
  case False
  then show ?thesis by (auto simp: put_int_def prefix_max_mask bit_or_iff bit_ucast_iff bit_mask_iff)
qed

section \<open>Strings and fields\<close>

lemma put_string_append: "put_string out flags n bytes = out @ put_string [] flags n bytes"
  unfolding put_string_def by (subst put_int_append) simp

lemma of_nat_varint: "k < 2 ^ 62 \<Longrightarrow> (of_nat k :: u64) \<le> VARINT_MAX \<and> unat (of_nat k :: u64) = k"
  by (simp add: VARINT_MAX_def word_le_nat_alt unat_of_nat)

lemma get_put_string:
  assumes "above (Suc n) flags" "n \<le> 7" "length bytes < 2 ^ 62"
  shows "get_string (put_string [] flags n bytes @ rest) n = Inr (bytes, rest)"
proof -
  have a: "above n flags" using assms(1) by (simp add: above_def)
  have "\<not> bit flags n" using assms(1) by (simp add: above_def)
  then have "flags AND push_bit n 1 = 0" using and_exp_eq_0_iff_not_bit[of flags n] by (simp add: push_bit_eq_mult)
  then show ?thesis
    using get_put_int[OF a _ of_nat_varint[OF assms(3), THEN conjunct1], of "bytes @ rest"] of_nat_varint[OF assms(3)] assms(2)
    by (simp add: get_string_def put_string_def)
qed

lemma flags_above: "above 8 0" "above 6 0xc0" "above 4 (0x50 OR 0x20)" "above 4 0x50" "above 4 (0x20 OR 0x10)" "above 4 0x20"
  by (simp_all add: above_def less_Suc_eq numeral_eq_Suc)

lemma encode_field_append: "encode_field e out = out @ encode_field e []"
proof -
  obtain name val sensitive where e: "e = (name, val, sensitive)" by (cases e) auto
  show ?thesis unfolding encode_field_def e prod.case Let_def
    by (simp add: put_int_append[of out] put_string_append[of out] put_string_append[of "put_int _ _ _ _"]
        put_string_append[of "put_string _ _ _ _"] put_string_append[of "out @ _"] split: option.split)
qed

text \<open>The entries the encoder refers to.\<close>

lemma table_length: "length STATIC_TABLE = 99"
  by (simp add: STATIC_TABLE_def)

lemma entry_at:
  assumes "position p STATIC_TABLE = Some i"
  shows "static_entry (of_nat i) = Inr (STATIC_TABLE ! i)" "p (STATIC_TABLE ! i)" "(of_nat i :: u64) \<le> VARINT_MAX"
proof -
  have i: "i < 99" using assms by (simp add: position_Some table_length)
  then have "unat (of_nat i :: u64) = i" using of_nat_varint[of i] by simp
  then show "static_entry (of_nat i) = Inr (STATIC_TABLE ! i)" using i by (simp add: static_entry_def table_length)
  show "p (STATIC_TABLE ! i)" using assms by (simp add: position_Some)
  show "(of_nat i :: u64) \<le> VARINT_MAX" using i of_nat_varint[of i] by simp
qed

lemma get_named_put: "length val < 2 ^ 62 \<Longrightarrow> get_named name (put_string [] 0 7 val @ rest) = Inr ((name, val), rest)"
  using get_put_string[of 7 0 val rest] flags_above(1) by (simp add: get_named_def)

lemma decode_encode_field:
  assumes "length name < 2 ^ 62" "length val < 2 ^ 62"
  shows "\<exists>first bs. encode_field (name, val, sensitive) [] = first # bs \<and>
    decode_field first (first # bs @ rest) = Inr ((name, val), rest) \<and>
    (sensitive \<longrightarrow> \<not> bit first 7 \<and> bit first 5 \<and> (bit first 6 \<or> bit first 4))"
proof -
  let ?exact = "position (\<lambda>(n, v). as_bytes n = name \<and> as_bytes v = val) STATIC_TABLE"
  let ?named = "position (\<lambda>(n, _). as_bytes n = name) STATIC_TABLE"
  consider (exact) i where "\<not> sensitive" "?exact = Some i" | (named) i where "sensitive \<or> ?exact = None" "?named = Some i"
    | (literal) "sensitive \<or> ?exact = None" "?named = None"
    by (cases sensitive; cases ?exact; cases ?named) auto
  then show ?thesis
  proof cases
    case exact
    have e: "encode_field (name, val, sensitive) [] = put_int [] 0xc0 6 (of_nat i)" using exact by (simp add: encode_field_def)
    obtain f bs where f: "put_int [] 0xc0 6 (of_nat i) = f # bs" "\<forall>k\<ge>6. bit f k = bit (0xc0 :: u8) k" using put_int_first[of 6] by fastforce
    have g: "get_int (f # bs @ rest) 6 = Inr ((0xc0, of_nat i), rest)" using get_put_int[OF flags_above(2) _ entry_at(3)[OF exact(2)], of rest] f(1) by simp
    have "f AND 0x80 \<noteq> 0" unfolding flag_bit using f(2) by simp
    then show ?thesis using e f g entry_at(1,2)[OF exact(2)] exact(1) by (auto simp: decode_field_def split: prod.splits)
  next
    case named
    define flags :: u8 where "flags = 0x50 OR (if sensitive then 0x20 else 0)"
    have a: "above 4 flags" using flags_above(3,4) by (simp add: flags_def)
    have e: "encode_field (name, val, sensitive) [] = put_int [] flags 4 (of_nat i) @ put_string [] 0 7 val"
      using named put_string_append[of "put_int [] flags 4 (of_nat i)" 0 7 val] by (auto simp: encode_field_def flags_def Let_def)
    obtain f bs where f: "put_int [] flags 4 (of_nat i) = f # bs" "\<forall>k\<ge>4. bit f k = bit flags k" using put_int_first[of 4] by fastforce
    have g: "get_int (f # bs @ put_string [] 0 7 val @ rest) 4 = Inr ((flags, of_nat i), put_string [] 0 7 val @ rest)"
      using get_put_int[OF a _ entry_at(3)[OF named(2)], of "put_string [] 0 7 val @ rest"] f(1) by simp
    have b: "\<not> bit flags 7" "bit flags 6" "bit flags 4" "sensitive \<Longrightarrow> bit flags 5" by (simp_all add: flags_def)
    then have "f AND 0x80 = 0" "f AND 0x40 \<noteq> 0" "flags AND 0x10 \<noteq> 0" unfolding flag_bit using f(2) by simp_all
    then show ?thesis using e f g entry_at(1,2)[OF named(2)] get_named_put[OF assms(2)] b
      by (auto simp: decode_field_def split: prod.splits)
  next
    case literal
    define flags :: u8 where "flags = 0x20 OR (if sensitive then 0x10 else 0)"
    have a: "above (Suc 3) flags" using flags_above(5,6) by (simp add: flags_def)
    have e: "encode_field (name, val, sensitive) [] = put_string [] flags 3 name @ put_string [] 0 7 val"
      using literal put_string_append[of "put_string [] flags 3 name" 0 7 val] by (auto simp: encode_field_def flags_def Let_def)
    obtain f bs where f: "put_int [] flags 3 (of_nat (length name)) = f # bs" "\<forall>k\<ge>3. bit f k = bit flags k" using put_int_first[of 3] by fastforce
    have g: "get_string ((f # bs @ name) @ put_string [] 0 7 val @ rest) 3 = Inr (name, put_string [] 0 7 val @ rest)"
      using get_put_string[OF a _ assms(1), of "put_string [] 0 7 val @ rest"] f(1) by (simp add: put_string_def)
    have b: "\<not> bit flags 7" "\<not> bit flags 6" "bit flags 5" "sensitive \<Longrightarrow> bit flags 4" by (simp_all add: flags_def)
    then have "f AND 0x80 = 0" "f AND 0x40 = 0" "f AND 0x20 \<noteq> 0" unfolding flag_bit using f(2) by simp_all
    then show ?thesis using e f g get_named_put[OF assms(2)] b by (auto simp: decode_field_def put_string_def)
  qed
qed

section \<open>Field sections\<close>

text \<open>The size of a field section as the limit counts it.\<close>

definition fields_size :: "qpack_field list \<Rightarrow> nat" where
  "fields_size fs = sum_list (map (\<lambda>(n, v). length n + length v + 32) fs)"

definition plain :: "u8 list \<times> u8 list \<times> bool \<Rightarrow> qpack_field" where
  "plain e = (fst e, fst (snd e))"

lemma decode_encode_loop:
  assumes "\<forall>e\<in>set es. length (fst e) < 2 ^ 62 \<and> length (fst (snd e)) < 2 ^ 62"
    and "unat taken + fields_size (map plain es) < 2 ^ 64" "taken \<le> limit"
  shows "decode_loop_fields limit taken (concat (map (\<lambda>e. encode_field e []) es)) =
    (if unat taken + fields_size (map plain es) \<le> unat limit then Inr (map plain es) else Inl TooLarge)"
  using assms
proof (induction es arbitrary: taken)
  case Nil
  then show ?case by (simp add: decode_loop_fields.simps fields_size_def word_le_nat_alt)
next
  case (Cons e es)
  obtain name val sensitive where e: "e = (name, val, sensitive)" by (cases e) auto
  let ?rest = "concat (map (\<lambda>e. encode_field e []) es)"
  obtain first bs where f: "encode_field e [] = first # bs" "decode_field first (first # bs @ ?rest) = Inr ((name, val), ?rest)"
    using decode_encode_field[of name val sensitive ?rest] Cons.prems(1) e by auto
  let ?taken = "taken + (of_nat (length name + length val) + 32)"
  have fs: "fields_size (map plain (e # es)) = length name + length val + 32 + fields_size (map plain es)"
    by (simp add: fields_size_def plain_def e)
  have "unat (of_nat k :: u64) = k" if "k < 2 ^ 64" for k using that by (simp add: unat_of_nat)
  moreover have "length name + length val < 2 ^ 64" using Cons.prems(2) fs by simp
  ultimately have "unat (of_nat (length name + length val) :: u64) = length name + length val" by blast
  then have ut: "unat ?taken = unat taken + (length name + length val + 32)"
    using Cons.prems(2) fs by (simp add: unat_word_ariths del: of_nat_add)
  have step: "decode_loop_fields limit taken (first # bs @ ?rest) =
      (if limit < ?taken then Inl TooLarge else map_sum (\<lambda>e. e) ((#) (name, val)) (decode_loop_fields limit ?taken ?rest))"
    by (subst decode_loop_fields.simps) (simp add: f(2) Let_def)
  show ?case
  proof (cases "limit < ?taken")
    case True
    then show ?thesis using f(1) step fs ut by (simp add: word_less_nat_alt)
  next
    case False
    then have "decode_loop_fields limit ?taken ?rest =
        (if unat ?taken + fields_size (map plain es) \<le> unat limit then Inr (map plain es) else Inl TooLarge)"
      using Cons.prems fs ut by (intro Cons.IH) auto
    moreover have "plain e = (name, val)" by (simp add: plain_def e)
    ultimately show ?thesis using f(1) step fs ut False by simp
  qed
qed

lemma encode_concat: "qpack_encode es = [0, 0] @ concat (map (\<lambda>e. encode_field e []) es)"
proof -
  have "fold encode_field es out = out @ concat (map (\<lambda>e. encode_field e []) es)" for out
  proof (induction es arbitrary: out)
    case (Cons e es)
    then show ?case by (simp add: encode_field_append[of e out])
  qed simp
  then show ?thesis by (simp add: qpack_encode_def)
qed

text \<open>
  C39. What is encoded decodes to the fields it was made from, in order, if they are within the
  limit on the size of a section, and is refused as too large if they are not.
\<close>
theorem qpack_roundtrip:
  assumes "\<forall>e\<in>set es. length (fst e) < 2 ^ 62 \<and> length (fst (snd e)) < 2 ^ 62" "fields_size (map plain es) < 2 ^ 64"
  shows "qpack_decode (qpack_encode es) limit =
    (if fields_size (map plain es) \<le> unat limit then Inr (map plain es) else Inl TooLarge)"
proof -
  let ?rest = "concat (map (\<lambda>e. encode_field e []) es)"
  have p: "put_int [] 0 8 0 = [0]" "put_int [] 0 7 0 = [0]" by (simp_all add: put_int_def prefix_max_def)
  have v: "(0 :: u64) \<le> VARINT_MAX" by simp
  have a: "above 7 0" by (simp add: above_def)
  have "get_int (0 # 0 # ?rest) 8 = Inr ((0, 0), 0 # ?rest)" using get_put_int[OF flags_above(1) _ v, of "0 # ?rest"] p by simp
  moreover have "get_int (0 # ?rest) 7 = Inr ((0, 0), ?rest)" using get_put_int[OF a _ v, of ?rest] p by simp
  ultimately show ?thesis using decode_encode_loop[OF assms(1), of 0 limit] assms(2)
    by (simp add: qpack_decode_def encode_concat)
qed

theorem qpack_roundtrip_witness:
  "qpack_decode (qpack_encode [(as_bytes '':path'', as_bytes ''/'', False), ([9], [8, 7], True)]) 1000 =
     Inr [(as_bytes '':path'', as_bytes ''/''), ([9], [8, 7])]"
proof -
  let ?es = "[(as_bytes '':path'', as_bytes ''/'', False), ([9], [8, 7], True)]"
  have l: "length (as_bytes '':path'') = 5" "length (as_bytes ''/'') = 1" by code_simp+
  then have "fields_size (map plain ?es) = 73" by (simp add: fields_size_def plain_def)
  then show ?thesis using qpack_roundtrip[of ?es 1000] l by (simp add: plain_def)
qed

text \<open>
  C40. A sensitive value is never sent as an entry of the static table, and its field line carries
  the mark that no one on the way may index it.
\<close>
theorem sensitive_never_indexed:
  assumes "length name < 2 ^ 62" "length val < 2 ^ 62"
  shows "\<exists>first bs. encode_field (name, val, True) out = out @ first # bs \<and> first AND 0x80 = 0 \<and>
    (if first AND 0x40 \<noteq> 0 then first AND 0x20 \<noteq> 0 else first AND 0x20 \<noteq> 0 \<and> first AND 0x10 \<noteq> 0)"
  using decode_encode_field[OF assms, of True "[]"] by (auto simp: encode_field_append[of _ out] flag_bit)

theorem sensitive_never_indexed_witness:
  "\<exists>first bs. encode_field ([1], [2], True) [] = first # bs \<and> first AND 0x80 = 0"
  using sensitive_never_indexed[of "[1]" "[2]" "[]"] by auto

end
