(* ===== verification/Rurge_Tun_Limits.thy ===== *)
theory Rurge_Tun_Limits
  imports Rurge_Prelude "HOL-Library.Multiset"
begin

text \<open>
  The limits of the TUN device (\<^verbatim>\<open>crates/rurge-tun/src\<close>): how often something may happen
  (\<^verbatim>\<open>limit.rs\<close>), how many bytes may wait in queues (\<^verbatim>\<open>bytes.rs\<close>), how the buffers of TCP
  sockets are shared out (\<^verbatim>\<open>tcp/budget.rs\<close>) and which SYN gets a socket (\<^verbatim>\<open>tcp/admission.rs\<close>).
  The counters are atomics that several threads change; each change is one atomic step, and the
  theorems are about every interleaving of such steps. A \<open>usize\<close> has 64 bits and wraps. An
  \<open>Instant\<close> is a number, and \<open>saturating_duration_since\<close> is the difference of numbers, which
  is 0 where it would be negative.
\<close>

section \<open>How often: limit.rs\<close>

record limiter =
  lim_max :: nat
  lim_window :: nat
  lim_allowed :: "nat list"

definition limiter_new :: "nat \<Rightarrow> nat \<Rightarrow> limiter" where
  "limiter_new most window = \<lparr>lim_max = most, lim_window = window, lim_allowed = []\<rparr>"

definition allow :: "nat \<Rightarrow> limiter \<Rightarrow> bool \<times> limiter" where
  "allow now l =
     (let l' = l\<lparr>lim_allowed := dropWhile (\<lambda>since. lim_window l \<le> now - since) (lim_allowed l)\<rparr>
      in if lim_max l' \<le> length (lim_allowed l') then (False, l')
         else (True, l'\<lparr>lim_allowed := lim_allowed l' @ [now]\<rparr>))"

text \<open>A series of calls: the answer to each.\<close>

fun allow_all :: "nat list \<Rightarrow> limiter \<Rightarrow> bool list" where
  "allow_all [] l = []"
| "allow_all (now # nows) l = (case allow now l of (b, l') \<Rightarrow> b # allow_all nows l')"

text \<open>
  What the documentation of the type promises, said of all that was let through so far: a call
  is let through when fewer than \<open>most\<close> were in the window before it.
\<close>

definition in_window :: "nat \<Rightarrow> nat \<Rightarrow> nat list \<Rightarrow> nat list" where
  "in_window window now ts = filter (\<lambda>t. now - t < window) ts"

fun promised :: "nat \<Rightarrow> nat \<Rightarrow> nat list \<Rightarrow> nat list \<Rightarrow> bool list" where
  "promised most window ts [] = []"
| "promised most window ts (now # nows) =
     (let b = length (in_window window now ts) < most
      in b # promised most window (if b then ts @ [now] else ts) nows)"

definition let_through :: "nat list \<Rightarrow> bool list \<Rightarrow> nat list" where
  "let_through nows bs = map fst (filter snd (zip nows bs))"

section \<open>How many bytes: bytes.rs\<close>

record queued_bytes =
  qb_limit :: u64
  qb_queued :: u64

definition queued_bytes_new :: "u64 \<Rightarrow> queued_bytes" where
  "queued_bytes_new limit = \<lparr>qb_limit = limit, qb_queued = 0\<rparr>"

definition checked_add :: "u64 \<Rightarrow> u64 \<Rightarrow> u64 option" where
  "checked_add a b = (if unat a + unat b < 2 ^ 64 then Some (a + b) else None)"

definition reserve :: "queued_bytes \<Rightarrow> u64 \<Rightarrow> (u64 \<times> queued_bytes) option" where
  "reserve q bytes =
     (case checked_add (qb_queued q) bytes of
        None \<Rightarrow> None
      | Some n \<Rightarrow> if n \<le> qb_limit q then Some (bytes, q\<lparr>qb_queued := n\<rparr>) else None)"

definition reserved_drop :: "u64 \<Rightarrow> queued_bytes \<Rightarrow> queued_bytes" where
  "reserved_drop bytes q = q\<lparr>qb_queued := qb_queued q - bytes\<rparr>"

section \<open>The buffers of sockets: tcp/budget.rs\<close>

definition DIVISOR :: u64 where
  "DIVISOR = 32"

definition RX_MAX :: u64 where
  "RX_MAX = 65535"

record sizes =
  sz_rx :: u64
  sz_tx :: u64

record budget =
  bg_budget :: u64
  bg_min :: u64
  bg_tx_max :: u64
  bg_used :: u64

definition budget_new :: "u64 \<Rightarrow> u64 \<Rightarrow> u64 \<Rightarrow> budget" where
  "budget_new b least tx_max = \<lparr>bg_budget = b, bg_min = least, bg_tx_max = tx_max, bg_used = 0\<rparr>"

definition saturating_sub :: "u64 \<Rightarrow> u64 \<Rightarrow> u64" where
  "saturating_sub a b = (if b \<le> a then a - b else 0)"

definition budget_sizes :: "budget \<Rightarrow> u64 \<Rightarrow> sizes" where
  "budget_sizes b used =
     (let left = saturating_sub (bg_budget b) used;
          share = max (left div DIVISOR) (bg_min b)
      in \<lparr>sz_rx = min share RX_MAX, sz_tx = min share (bg_tx_max b)\<rparr>)"

definition budget_take :: "budget \<Rightarrow> sizes \<times> budget" where
  "budget_take b =
     (let taken = budget_sizes b (bg_used b)
      in (taken, b\<lparr>bg_used := bg_used b + sz_rx taken + sz_tx taken\<rparr>))"

definition give_back :: "sizes \<Rightarrow> budget \<Rightarrow> budget" where
  "give_back s b = b\<lparr>bg_used := bg_used b - (sz_rx s + sz_tx s)\<rparr>"

section \<open>Which SYN gets a socket: tcp/admission.rs\<close>

definition RESETS :: nat where
  "RESETS = 100"

definition RESETS_WINDOW :: nat where
  "RESETS_WINDOW = 3 * 10 ^ 9"

record admission =
  ad_resets :: limiter
  ad_max_sockets :: u64
  ad_max_half_open :: u64
  ad_max_dns_tcp :: u64
  ad_sockets :: u64
  ad_half_open :: u64
  ad_dns_tcp :: u64

definition admission_new :: "u64 \<Rightarrow> u64 \<Rightarrow> u64 \<Rightarrow> admission" where
  "admission_new max_sockets max_half_open dns_tcp_max =
     \<lparr>ad_resets = limiter_new RESETS RESETS_WINDOW, ad_max_sockets = max_sockets,
      ad_max_half_open = max_half_open, ad_max_dns_tcp = dns_tcp_max,
      ad_sockets = 0, ad_half_open = 0, ad_dns_tcp = 0\<rparr>"

definition raise :: "u64 \<Rightarrow> u64 \<Rightarrow> u64 option" where
  "raise n cap = (if n < cap then Some (n + 1) else None)"

definition release_half_open :: "admission \<Rightarrow> admission" where
  "release_half_open a = a\<lparr>ad_half_open := ad_half_open a - 1\<rparr>"

definition release_socket :: "admission \<Rightarrow> admission" where
  "release_socket a = a\<lparr>ad_sockets := ad_sockets a - 1\<rparr>"

definition claim :: "admission \<Rightarrow> bool \<times> admission" where
  "claim a =
     (case raise (ad_half_open a) (ad_max_half_open a) of
        None \<Rightarrow> (False, a)
      | Some h \<Rightarrow>
          let a = a\<lparr>ad_half_open := h\<rparr>
          in (case raise (ad_sockets a) (ad_max_sockets a) of
                None \<Rightarrow> (False, release_half_open a)
              | Some s \<Rightarrow> (True, a\<lparr>ad_sockets := s\<rparr>)))"

definition claim_dns_tcp :: "admission \<Rightarrow> unit \<Rightarrow> (unit \<times> admission) option" where
  "claim_dns_tcp a _ =
     (case raise (ad_dns_tcp a) (ad_max_dns_tcp a) of
        None \<Rightarrow> None
      | Some n \<Rightarrow> Some ((), a\<lparr>ad_dns_tcp := n\<rparr>))"

definition dns_place_drop :: "unit \<Rightarrow> admission \<Rightarrow> admission" where
  "dns_place_drop _ a = a\<lparr>ad_dns_tcp := ad_dns_tcp a - 1\<rparr>"

definition unclaim :: "admission \<Rightarrow> admission" where
  "unclaim a = release_socket (release_half_open a)"

definition allow_reset :: "nat \<Rightarrow> admission \<Rightarrow> bool \<times> admission" where
  "allow_reset now a =
     (case allow now (ad_resets a) of (b, l) \<Rightarrow> (b, a\<lparr>ad_resets := l\<rparr>))"

text \<open>
  What a shard has done of the handling of one SYN: each constructor is a point between two
  atomic steps. A shard that ends gives the socket back first and then the half-open place.
\<close>

datatype syn_phase =
    HalfClaimed
  | SocketRefused
  | HalfOpen
  | SocketOnly
  | HalfOnly

fun holds_half :: "syn_phase \<Rightarrow> bool" where
  "holds_half SocketOnly = False"
| "holds_half _ = True"

fun holds_socket :: "syn_phase \<Rightarrow> bool" where
  "holds_socket HalfOpen = True"
| "holds_socket SocketOnly = True"
| "holds_socket _ = False"

inductive syn_step :: "admission \<times> syn_phase multiset \<Rightarrow> admission \<times> syn_phase multiset \<Rightarrow> bool" where
  claim_half: "raise (ad_half_open a) (ad_max_half_open a) = Some h \<Longrightarrow>
    syn_step (a, ps) (a\<lparr>ad_half_open := h\<rparr>, add_mset HalfClaimed ps)"
| claim_socket: "raise (ad_sockets a) (ad_max_sockets a) = Some s \<Longrightarrow>
    syn_step (a, add_mset HalfClaimed ps) (a\<lparr>ad_sockets := s\<rparr>, add_mset HalfOpen ps)"
| claim_full: "raise (ad_sockets a) (ad_max_sockets a) = None \<Longrightarrow>
    syn_step (a, add_mset HalfClaimed ps) (a, add_mset SocketRefused ps)"
| claim_undo: "syn_step (a, add_mset SocketRefused ps) (release_half_open a, ps)"
| handshake_over: "syn_step (a, add_mset HalfOpen ps) (release_half_open a, add_mset SocketOnly ps)"
| socket_gone: "syn_step (a, add_mset SocketOnly ps) (release_socket a, ps)"
| socket_dropped: "syn_step (a, add_mset HalfOpen ps) (release_socket a, add_mset HalfOnly ps)"
| half_dropped: "syn_step (a, add_mset HalfOnly ps) (release_half_open a, ps)"

section \<open>The sliding window\<close>

lemma dropWhile_expired:
  "sorted ts \<Longrightarrow> dropWhile (\<lambda>t. w \<le> now - t) ts = in_window w now ts"
  for ts :: "nat list"
proof (induction ts)
  case (Cons t ts)
  have "in_window w now (t # ts) = t # ts" if "\<not> w \<le> now - t"
    using that Cons.prems by (auto simp: in_window_def intro!: filter_True)
  then show ?case using Cons by (auto simp: in_window_def)
qed (simp add: in_window_def)

lemma in_window_shrinks:
  "now \<le> now' \<Longrightarrow> in_window w now' (in_window w now ts) = in_window w now' ts"
  unfolding in_window_def filter_filter by (rule filter_cong) auto

lemma sorted_in_window: "sorted ts \<Longrightarrow> sorted (in_window w now ts)"
  by (simp add: in_window_def sorted_wrt_filter)

text \<open>
  What the queue holds of all that was let through: no call from now on can tell the two apart.
\<close>

definition window_of :: "limiter \<Rightarrow> nat list \<Rightarrow> nat \<Rightarrow> bool" where
  "window_of l ts now \<longleftrightarrow> sorted (lim_allowed l) \<and> sorted ts \<and> (\<forall>t\<in>set (lim_allowed l @ ts). t \<le> now) \<and>
     (\<forall>now'\<ge>now. in_window (lim_window l) now' (lim_allowed l) = in_window (lim_window l) now' ts)"

lemma window_of_later: "window_of l ts now \<Longrightarrow> now \<le> now' \<Longrightarrow> window_of l ts now'"
  unfolding window_of_def by (meson le_trans)

lemma allow_window:
  assumes "window_of l ts now"
  defines "b \<equiv> length (in_window (lim_window l) now ts) < lim_max l"
  shows "allow now l = (b, l\<lparr>lim_allowed := in_window (lim_window l) now ts @ (if b then [now] else [])\<rparr>)"
  using assms by (simp add: allow_def Let_def window_of_def dropWhile_expired)

lemma window_of_push:
  assumes "window_of l ts now"
  shows "window_of (l\<lparr>lim_allowed := in_window (lim_window l) now ts @ (if b then [now] else [])\<rparr>)
           (if b then ts @ [now] else ts) now"
proof -
  have push: "in_window w x (as @ cs) = in_window w x as @ in_window w x cs" for w x as cs
    by (simp add: in_window_def)
  show ?thesis
    using assms by (auto simp: window_of_def sorted_append push in_window_shrinks sorted_in_window)
      (auto simp: in_window_def)
qed

lemma allow_all_promised:
  "window_of l ts now \<Longrightarrow> sorted (now # nows) \<Longrightarrow>
   allow_all nows l = promised (lim_max l) (lim_window l) ts nows"
proof (induction nows arbitrary: l ts now)
  case (Cons t nows)
  let ?b = "length (in_window (lim_window l) t ts) < lim_max l"
  let ?l = "l\<lparr>lim_allowed := in_window (lim_window l) t ts @ (if ?b then [t] else [])\<rparr>"
  have t: "window_of l ts t"
    using window_of_later Cons.prems by auto
  from Cons.IH [OF window_of_push [OF t, of ?b]] Cons.prems
  have "allow_all nows ?l = promised (lim_max l) (lim_window l) (if ?b then ts @ [t] else ts) nows"
    by simp
  then show ?case using allow_window [OF t] by (simp add: Let_def)
qed simp

lemma let_through_simps [simp]:
  "let_through [] bs = []"
  "let_through (t # ts) (b # bs) = (if b then t # let_through ts bs else let_through ts bs)"
  by (simp_all add: let_through_def)

text \<open>
  In every window of time: of those let through before, the ones in a window that ends after
  \<open>now\<close> are in the window before \<open>now\<close>.
\<close>

definition between :: "nat \<Rightarrow> nat \<Rightarrow> nat list \<Rightarrow> nat list" where
  "between a w ts = filter (\<lambda>t. a \<le> t \<and> t < a + w) ts"

lemma between_append [simp]: "between a w (xs @ ys) = between a w xs @ between a w ys"
  by (simp add: between_def)

lemma between_in_window:
  "a \<le> now \<Longrightarrow> now < a + w \<Longrightarrow> length (between a w ts) \<le> length (in_window w now ts)"
proof -
  assume "a \<le> now" "now < a + w"
  then have "between a w ts = filter (\<lambda>t. a \<le> t \<and> t < a + w) (in_window w now ts)"
    unfolding between_def in_window_def filter_filter by (intro filter_cong) auto
  then show ?thesis by (simp add: le_trans [OF length_filter_le])
qed

lemma promised_between:
  "length (between a w ts) \<le> most \<Longrightarrow>
   length (between a w (ts @ let_through nows (promised most w ts nows))) \<le> most"
proof (induction nows arbitrary: ts)
  case (Cons now nows)
  let ?b = "length (in_window w now ts) < most"
  let ?ts = "if ?b then ts @ [now] else ts"
  have "length (between a w ?ts) \<le> most"
    using Cons.prems between_in_window [of a now w ts] by (auto simp: between_def)
  from Cons.IH [OF this] show ?case by (auto simp: Let_def between_def)
qed (simp add: between_def)

lemma window_of_new: "window_of (limiter_new m w) [] 0"
  by (simp add: window_of_def limiter_new_def)

text \<open>
  C35. The limit is what it promises for calls that come in the order of their times: a call is let
  through exactly when fewer than the limit were in the window before it, so that no window of
  time, wherever it begins, has more than the limit.
\<close>

theorem limiter_correct:
  assumes "sorted nows"
  shows "allow_all nows (limiter_new most w) = promised most w [] nows \<and>
    length (between a w (let_through nows (allow_all nows (limiter_new most w)))) \<le> most"
proof -
  have "allow_all nows (limiter_new most w) = promised most w [] nows"
    using allow_all_promised [OF window_of_new, of nows most w] assms by (simp add: limiter_new_def)
  then show ?thesis using promised_between [of a w "[]" most nows] by (simp add: between_def)
qed

theorem limiter_correct_witness:
  "allow_all [1, 2, 3, 11] (limiter_new 2 10) = promised 2 10 [] [1, 2, 3, 11]
   \<and> length (between 2 10 (let_through [1, 2, 3, 11] (allow_all [1, 2, 3, 11] (limiter_new 2 10)))) \<le> 2"
  by (rule limiter_correct) simp

text \<open>
  Out of order the promise fails: after two calls at 10 and one at 20, a call at 19 is the third
  that is let through from 10 to 19, where two are the limit for every 10.
\<close>

lemma limiter_out_of_order:
  "allow_all [10, 10, 20, 19] (limiter_new 2 10) = [True, True, True, True]"
  "promised 2 10 [] [10, 10, 20, 19] = [True, True, True, False]"
  "length (between 10 10 (let_through [10, 10, 20, 19] [True, True, True, True])) = 3"
  by (simp_all add: limiter_new_def allow_def in_window_def between_def)

section \<open>Counters of what is held\<close>

text \<open>
  Runs of an atomic counter: places are acquired, each for a token, and given back when the token
  is dropped, in any order, with at most \<open>most\<close> tokens at a time.
\<close>

inductive token_run :: "('c \<Rightarrow> 'r \<Rightarrow> ('t \<times> 'c) option) \<Rightarrow> ('t \<Rightarrow> 'c \<Rightarrow> 'c) \<Rightarrow> nat \<Rightarrow> 'c \<Rightarrow> 'c \<Rightarrow> 't multiset \<Rightarrow> bool"
  for acquire release most c\<^sub>0 where
  start: "token_run acquire release most c\<^sub>0 c\<^sub>0 {#}"
| acquire: "token_run acquire release most c\<^sub>0 c ts \<Longrightarrow> size ts < most \<Longrightarrow> acquire c r = Some (t, c') \<Longrightarrow>
    token_run acquire release most c\<^sub>0 c' (add_mset t ts)"
| release: "token_run acquire release most c\<^sub>0 c (add_mset t ts) \<Longrightarrow>
    token_run acquire release most c\<^sub>0 (release t c) ts"

text \<open>
  What every counter of the TUN promises: its level is the weight of the tokens that are held, and
  a bound on it, \<open>fair\<close>, holds at every moment. The bound is also why no step overflows.
\<close>

locale token_counter =
  fixes acquire :: "'c \<Rightarrow> 'r \<Rightarrow> ('t \<times> 'c) option"
    and release :: "'t \<Rightarrow> 'c \<Rightarrow> 'c"
    and level :: "'c \<Rightarrow> u64"
    and weight :: "'t \<Rightarrow> nat"
    and fair :: "'c \<Rightarrow> 't multiset \<Rightarrow> bool"
    and most :: nat
  assumes acquire_law: "fair c ts \<Longrightarrow> unat (level c) = (\<Sum>t\<in>#ts. weight t) \<Longrightarrow> size ts < most \<Longrightarrow>
      acquire c r = Some (t, c') \<Longrightarrow>
      fair c' (add_mset t ts) \<and> unat (level c') = unat (level c) + weight t"
    and release_law: "fair c (add_mset t ts) \<Longrightarrow> weight t \<le> unat (level c) \<Longrightarrow>
      fair (release t c) ts \<and> unat (level (release t c)) = unat (level c) - weight t"
begin

lemma run_level:
  assumes "token_run acquire release most c\<^sub>0 c ts" "fair c\<^sub>0 {#}" "level c\<^sub>0 = 0"
  shows "fair c ts \<and> unat (level c) = (\<Sum>t\<in>#ts. weight t)"
  using assms(1)
proof (induction rule: token_run.induct)
  case start
  then show ?case using assms by simp
next
  case (acquire c ts r t c')
  then show ?case using acquire_law [of c ts r t c'] by simp
next
  case (release c t ts)
  then show ?case using release_law [of c t ts] by simp
qed

end

lemma unat_add_u64: "unat a + unat b < 2 ^ 64 \<Longrightarrow> unat (a + b :: u64) = unat a + unat b"
  by (simp add: unat_word_ariths)

lemma unat_sub_u64: "unat b \<le> unat a \<Longrightarrow> unat (a - b :: u64) = unat a - unat b"
  by (simp add: unat_sub word_le_nat_alt)

definition qb_fair :: "u64 \<Rightarrow> queued_bytes \<Rightarrow> u64 multiset \<Rightarrow> bool" where
  "qb_fair limit q ts \<longleftrightarrow> qb_limit q = limit \<and> qb_queued q \<le> limit"

lemma reserve_Some:
  "reserve q b = Some (t, q') \<longleftrightarrow> t = b \<and> q' = q\<lparr>qb_queued := qb_queued q + b\<rparr> \<and>
     unat (qb_queued q) + unat b < 2 ^ 64 \<and> qb_queued q + b \<le> qb_limit q"
  by (auto simp: reserve_def checked_add_def split: if_splits option.splits)

interpretation qb: token_counter reserve reserved_drop qb_queued unat "qb_fair limit" most
proof
  fix c t ts
  assume "qb_fair limit c (add_mset t ts)" "unat t \<le> unat (qb_queued c)"
  moreover from this have "qb_queued c - t \<le> qb_queued c"
    by (simp add: word_le_nat_alt unat_sub_u64)
  ultimately show "qb_fair limit (reserved_drop t c) ts \<and>
      unat (qb_queued (reserved_drop t c)) = unat (qb_queued c) - unat t"
    by (auto simp: qb_fair_def reserved_drop_def unat_sub_u64)
qed (auto simp: qb_fair_def reserve_Some unat_add_u64)

text \<open>
  The buffers: beyond twice the least size, what the sockets hold comes out of the budget.
\<close>

definition sz_weight :: "sizes \<Rightarrow> nat" where
  "sz_weight s = unat (sz_rx s) + unat (sz_tx s)"

definition excess :: "u64 \<Rightarrow> sizes \<Rightarrow> nat" where
  "excess least s = sz_weight s - 2 * unat least"

definition bg_fair :: "u64 \<Rightarrow> u64 \<Rightarrow> nat \<Rightarrow> budget \<Rightarrow> sizes multiset \<Rightarrow> bool" where
  "bg_fair whole least most b ts \<longleftrightarrow> bg_budget b = whole \<and> bg_min b = least \<and>
     (\<forall>s\<in>#ts. sz_weight s < 2 ^ 64) \<and>
     (\<Sum>s\<in>#ts. excess least s) \<le> unat whole \<and> unat whole + 2 * unat least * most < 2 ^ 64"

lemma weight_excess:
  "(\<Sum>s\<in>#ts. sz_weight s) \<le> (\<Sum>s\<in>#ts. excess least s) + 2 * unat least * size ts"
  by (induction ts) (auto simp: excess_def)

lemma excess_weight: "(\<Sum>s\<in>#ts. excess least s) \<le> (\<Sum>s\<in>#ts. sz_weight s)"
  by (intro sum_mset_mono) (simp add: excess_def)

lemma unat_max_u64: "unat (max a b :: u64) = max (unat a) (unat b)"
  by (simp add: max_def word_le_nat_alt)

lemma unat_min_u64: "unat (min a b :: u64) = min (unat a) (unat b)"
  by (simp add: min_def word_le_nat_alt)

lemma unat_saturating_sub: "unat (saturating_sub a b) = unat a - unat b"
  by (simp add: saturating_sub_def word_le_nat_alt unat_sub_u64)

lemma sz_weight_sizes:
  "sz_weight (budget_sizes b used) \<le> 2 * max ((unat (bg_budget b) - unat used) div 32) (unat (bg_min b))"
  by (simp add: sz_weight_def budget_sizes_def Let_def unat_min_u64 unat_max_u64 unat_div
      unat_saturating_sub DIVISOR_def mult_2 add_mono)

lemma take_within:
  assumes "bg_fair whole least most b ts" "unat (bg_used b) = (\<Sum>s\<in>#ts. sz_weight s)" "size ts < most"
  defines "s \<equiv> budget_sizes b (bg_used b)"
  shows "(\<Sum>s\<in>#ts. excess least s) + excess least s \<le> unat whole"
    and "unat (bg_used b) + sz_weight s < 2 ^ 64"
proof -
  let ?left = "unat whole - unat (bg_used b)"
  have s: "sz_weight s \<le> 2 * max (?left div 32) (unat least)"
    using sz_weight_sizes [of b "bg_used b"] assms by (simp add: bg_fair_def)
  have m: "2 * unat least * size ts + 2 * unat least \<le> 2 * unat least * most"
    using assms(3) mult_le_mono2 [of "size ts + 1" most "2 * unat least"] by (simp add: algebra_simps)
  have e: "(\<Sum>s\<in>#ts. excess least s) \<le> unat whole" "unat whole + 2 * unat least * most < 2 ^ 64"
    using assms(1) by (simp_all add: bg_fair_def)
  have used: "unat (bg_used b) \<le> (\<Sum>s\<in>#ts. excess least s) + 2 * unat least * size ts"
    "(\<Sum>s\<in>#ts. excess least s) \<le> unat (bg_used b)"
    using weight_excess [of ts least] excess_weight [of least ts] assms(2) by simp_all
  have "(\<Sum>s\<in>#ts. excess least s) + excess least s \<le> unat whole \<and> unat (bg_used b) + sz_weight s < 2 ^ 64"
  proof (cases "?left div 32 \<le> unat least")
    case True
    then have "excess least s = 0" "sz_weight s \<le> 2 * unat least"
      using s by (simp_all add: excess_def)
    then show ?thesis using e used(1) m by linarith
  next
    case False
    then have "sz_weight s \<le> ?left" "0 < ?left" using s by auto
    then show ?thesis using e used(2) by (auto simp: excess_def)
  qed
  then show "(\<Sum>s\<in>#ts. excess least s) + excess least s \<le> unat whole"
    and "unat (bg_used b) + sz_weight s < 2 ^ 64" by simp_all
qed

lemma unat_used_take:
  assumes "unat (bg_used b) + sz_weight s < 2 ^ 64"
  shows "unat (bg_used b + sz_rx s + sz_tx s) = unat (bg_used b) + sz_weight s"
  using assms by (simp add: sz_weight_def unat_word_ariths)

interpretation bg: token_counter "\<lambda>b (_ :: unit). Some (budget_take b)" give_back bg_used sz_weight
  "bg_fair whole least most" most
proof
  fix c ts r t c'
  assume a: "bg_fair whole least most c ts" "unat (bg_used c) = (\<Sum>t\<in>#ts. sz_weight t)" "size ts < most"
    and "Some (budget_take c) = Some (t, c')"
  then have t: "t = budget_sizes c (bg_used c)" "c' = c\<lparr>bg_used := bg_used c + sz_rx t + sz_tx t\<rparr>"
    by (auto simp: budget_take_def Let_def)
  show "bg_fair whole least most c' (add_mset t ts) \<and> unat (bg_used c') = unat (bg_used c) + sz_weight t"
    using take_within [OF a] a(1) t unat_used_take [of c t] by (simp add: bg_fair_def add.commute)
next
  fix c t ts
  assume a: "bg_fair whole least most c (add_mset t ts)" "sz_weight t \<le> unat (bg_used c)"
  then have "unat (sz_rx t + sz_tx t) = sz_weight t"
    by (simp add: bg_fair_def sz_weight_def unat_add_u64)
  with a show "bg_fair whole least most (give_back t c) ts \<and>
      unat (bg_used (give_back t c)) = unat (bg_used c) - sz_weight t"
    by (simp add: bg_fair_def give_back_def unat_sub_u64)
qed

text \<open>The places of the connections to the responder.\<close>

lemma raise_Some: "raise n cap = Some n' \<longleftrightarrow> n < cap \<and> n' = n + 1"
  by (auto simp: raise_def)

lemma raise_bound: "raise n cap = Some n' \<Longrightarrow> n' \<le> cap \<and> unat n' = unat n + 1"
proof -
  assume r: "raise n cap = Some n'"
  then have "unat n + 1 \<le> unat cap" by (simp add: raise_Some word_less_nat_alt)
  moreover have "unat cap < 2 ^ 64" using unsigned_less [of cap] by simp
  ultimately show ?thesis using r by (simp add: raise_Some unat_add_u64 word_le_nat_alt)
qed

definition dns_fair :: "u64 \<Rightarrow> admission \<Rightarrow> unit multiset \<Rightarrow> bool" where
  "dns_fair cap a ts \<longleftrightarrow> ad_max_dns_tcp a = cap \<and> ad_dns_tcp a \<le> cap"

lemma unat_pred: "1 \<le> unat n \<Longrightarrow> unat (n - 1 :: u64) = unat n - 1"
  using unat_sub_u64 [of 1 n] by simp

interpretation dns: token_counter claim_dns_tcp dns_place_drop ad_dns_tcp "\<lambda>_. 1" "dns_fair cap" most
proof
  fix c t ts
  assume "dns_fair cap c (add_mset t ts)" "1 \<le> unat (ad_dns_tcp c)"
  then show "dns_fair cap (dns_place_drop t c) ts \<and>
      unat (ad_dns_tcp (dns_place_drop t c)) = unat (ad_dns_tcp c) - 1"
    by (auto simp: dns_fair_def dns_place_drop_def unat_pred word_le_nat_alt)
qed (auto simp: dns_fair_def claim_dns_tcp_def raise_bound split: option.splits)

section \<open>The bounds hold\<close>

text \<open>
  At every moment of every interleaving of reservations and of their ends, the bytes counted
  are those of the reservations that are held, and they are within the limit.
\<close>

theorem queued_within_limit:
  assumes "token_run reserve reserved_drop most (queued_bytes_new limit) q held"
  shows "unat (qb_queued q) = (\<Sum>b\<in>#held. unat b) \<and> (\<Sum>b\<in>#held. unat b) \<le> unat limit"
  using qb.run_level [OF assms, of limit]
  by (auto simp: qb_fair_def queued_bytes_new_def word_le_nat_alt)

theorem queued_within_limit_witness:
  "unat (5 :: u64) = (\<Sum>b\<in>#{#5 :: u64#}. unat b) \<and> (\<Sum>b\<in>#{#5 :: u64#}. unat b) \<le> unat (9 :: u64)"
proof -
  have "token_run reserve reserved_drop 1 (queued_bytes_new 9) (queued_bytes_new 9\<lparr>qb_queued := 5\<rparr>) {#5#}"
    by (rule token_run.acquire [OF token_run.start, where r = 5])
      (simp_all add: reserve_def checked_add_def queued_bytes_new_def)
  from queued_within_limit [OF this] show ?thesis by simp
qed

text \<open>
  C34. However sockets come and go, the bytes of the buffers there are, which are the bytes
  counted, are at most the budget and twice the least buffer for each socket.
\<close>

theorem buffers_within_budget:
  assumes "token_run (\<lambda>b (_ :: unit). Some (budget_take b)) give_back most (budget_new whole least tx_max) b socks"
    and "unat whole + 2 * unat least * most < 2 ^ 64"
  shows "unat (bg_used b) = (\<Sum>s\<in>#socks. unat (sz_rx s) + unat (sz_tx s)) \<and>
    unat (bg_used b) \<le> unat whole + 2 * unat least * size socks"
proof -
  have "bg_fair whole least most b socks \<and> unat (bg_used b) = (\<Sum>s\<in>#socks. sz_weight s)"
    using bg.run_level [OF assms(1), of whole least] assms(2) by (simp add: bg_fair_def budget_new_def)
  then show ?thesis
    using weight_excess [of socks least] by (simp add: bg_fair_def sz_weight_def)
qed

theorem buffers_within_budget_witness:
  "unat (bg_used (snd (budget_take (budget_new 64 4 10)))) =
     (\<Sum>s\<in>#{#fst (budget_take (budget_new 64 4 10))#}. unat (sz_rx s) + unat (sz_tx s)) \<and>
   unat (bg_used (snd (budget_take (budget_new 64 4 10)))) \<le>
     unat (64 :: u64) + 2 * unat (4 :: u64) * size {#fst (budget_take (budget_new 64 4 10))#}"
proof (rule buffers_within_budget)
  show "token_run (\<lambda>b (_ :: unit). Some (budget_take b)) give_back 1 (budget_new 64 4 10)
      (snd (budget_take (budget_new 64 4 10))) {#fst (budget_take (budget_new 64 4 10))#}"
    by (rule token_run.acquire [OF token_run.start]) simp_all
qed simp

definition admission_inv :: "admission \<Rightarrow> admission \<times> syn_phase multiset \<Rightarrow> bool" where
  "admission_inv a\<^sub>0 s \<longleftrightarrow> (case s of (a, ps) \<Rightarrow>
     ad_max_half_open a = ad_max_half_open a\<^sub>0 \<and> ad_max_sockets a = ad_max_sockets a\<^sub>0 \<and>
     unat (ad_half_open a) = size (filter_mset holds_half ps) \<and>
     unat (ad_sockets a) = size (filter_mset holds_socket ps) \<and>
     ad_half_open a \<le> ad_max_half_open a \<and> ad_sockets a \<le> ad_max_sockets a)"

lemma syn_step_inv: "syn_step s s' \<Longrightarrow> admission_inv a\<^sub>0 s \<Longrightarrow> admission_inv a\<^sub>0 s'"
  by (induction rule: syn_step.induct)
    (auto simp: admission_inv_def release_half_open_def release_socket_def unat_pred word_le_nat_alt
      dest!: raise_bound)

text \<open>
  C33. Whatever the shards do at once, the half-open connections and the sockets that are counted
  are those that the shards hold, each claim half done included, and neither is ever more than
  its cap.
\<close>

theorem admission_within_caps:
  assumes "syn_step\<^sup>*\<^sup>* (admission_new max_sockets max_half_open dns_tcp_max, {#}) (a, ps)"
  shows "unat (ad_half_open a) = size (filter_mset holds_half ps) \<and> size (filter_mset holds_half ps) \<le> unat max_half_open \<and>
    unat (ad_sockets a) = size (filter_mset holds_socket ps) \<and> size (filter_mset holds_socket ps) \<le> unat max_sockets"
proof -
  let ?a = "admission_new max_sockets max_half_open dns_tcp_max"
  have start: "admission_inv ?a (?a, {#})"
    by (simp add: admission_inv_def admission_new_def)
  from assms have "admission_inv ?a (a, ps)"
    by (induction rule: rtranclp_induct) (blast intro: start syn_step_inv)+
  then show ?thesis by (auto simp: admission_inv_def admission_new_def word_le_nat_alt)
qed

lemma claim_steps:
  "claim a = (b, a') \<Longrightarrow> syn_step\<^sup>*\<^sup>* (a, ps) (a', if b then add_mset HalfOpen ps else ps)"
proof (cases "raise (ad_half_open a) (ad_max_half_open a)")
  case (Some h)
  let ?a = "a\<lparr>ad_half_open := h\<rparr>"
  assume c: "claim a = (b, a')"
  have half: "syn_step (a, ps) (?a, add_mset HalfClaimed ps)"
    using Some by (rule claim_half)
  have "syn_step\<^sup>*\<^sup>* (?a, add_mset HalfClaimed ps) (a', if b then add_mset HalfOpen ps else ps)"
  proof (cases "raise (ad_sockets ?a) (ad_max_sockets ?a)")
    case None
    then have "b = False" "a' = release_half_open ?a" using c Some by (simp_all add: claim_def)
    then show ?thesis
      using converse_rtranclp_into_rtranclp [of syn_step, OF claim_full [OF None, of ps]
          r_into_rtranclp [of syn_step, OF claim_undo [of ?a ps]]]
      by simp
  next
    case (Some s)
    then show ?thesis using c \<open>raise (ad_half_open a) _ = _\<close> claim_socket [OF Some]
      by (simp add: claim_def r_into_rtranclp)
  qed
  with half show ?thesis by (rule converse_rtranclp_into_rtranclp)
qed (simp add: claim_def)

lemma unclaim_steps: "syn_step\<^sup>*\<^sup>* (a, add_mset HalfOpen ps) (unclaim a, ps)"
  unfolding unclaim_def using handshake_over socket_gone by (meson converse_rtranclp_into_rtranclp r_into_rtranclp)

theorem admission_within_caps_witness:
  "unat (ad_half_open (snd (claim (admission_new 2 1 1)))) = size (filter_mset holds_half {#HalfOpen#}) \<and>
   size (filter_mset holds_half {#HalfOpen#}) \<le> unat (1 :: u64) \<and>
   unat (ad_sockets (snd (claim (admission_new 2 1 1)))) = size (filter_mset holds_socket {#HalfOpen#}) \<and>
   size (filter_mset holds_socket {#HalfOpen#}) \<le> unat (2 :: u64)"
proof (rule admission_within_caps)
  have "claim (admission_new 2 1 1) = (True, snd (claim (admission_new 2 1 1)))"
    by (simp add: claim_def admission_new_def raise_def)
  from claim_steps [OF this, of "{#}"]
  show "syn_step\<^sup>*\<^sup>* (admission_new 2 1 1, {#}) (snd (claim (admission_new 2 1 1)), {#HalfOpen#})"
    by simp
qed

end
