(* ===== verification/Rurge_Tun_Packet.thy ===== *)
theory Rurge_Tun_Packet
  imports Rurge_Fake_Ip Rurge_Tun_Limits
begin

text \<open>
  What the TUN device reads of a packet before anything else sees it, and where it sends it:
  the address space (\<^verbatim>\<open>crates/rurge-tun/src/space.rs\<close>), the table of \<open>[IP Rewrite]\<close>
  (\<^verbatim>\<open>crates/rurge-config/src/ip_rewrite.rs\<close>), the checks (\<^verbatim>\<open>packet.rs\<close>), what is counted
  (\<^verbatim>\<open>stats.rs\<close>) and the task that reads the device (\<^verbatim>\<open>dispatch.rs\<close>). The accessors of the crate
  \<open>smoltcp\<close> are the record \<open>smol\<close>. Log messages are values; the channel of a shard is the
  answer its \<open>try_send\<close> gives.
\<close>

section \<open>The address space: space.rs\<close>

definition STACK_V4 :: ipv4_addr where
  "STACK_V4 = 0xC61200FD"

definition STACK_V6 :: ipv6_addr where
  "STACK_V6 = ipv6_new [0xfd00, 0x6152, 0, 0, 0, 0, 0, 0xfd]"

definition REFUSED_V4 :: ipv4_addr where
  "REFUSED_V4 = 0xC61200F4"

datatype place = Responder | Own | Fake | Real

fun place_of :: "ip_addr \<Rightarrow> place" where
  "place_of (V4 ip) =
     (case octets ip of
        [a, b, c, d] \<Rightarrow>
          if [a, b, c] = [198, 18, 0] \<and> 2 \<le> d \<and> d \<le> 9 then Responder
          else if [a, b, c] = [198, 18, 0] then Own
          else if a = 198 \<and> (b = 18 \<or> b = 19) then Fake
          else Real
      | _ \<Rightarrow> Real)"
| "place_of (V6 ip) =
     (let s = segments ip
      in if s = [0xfd00, 0x6152, 0, 0, 0, 0, 0, 2] then Responder
         else if take 7 s = [0xfd00, 0x6152, 0, 0, 0, 0, 0] \<and> s ! 7 \<le> 0xff then Own
         else if take 4 s = [0xfd00, 0x6152, 0, 0] then Fake
         else Real)"

section \<open>The table of [IP Rewrite]: ip_rewrite.rs\<close>

datatype ip_rewrite_action = Reflect | Reject | Drop

record ip_rewrite =
  rw_v4 :: "(ipv4_net \<times> ip_rewrite_action) list"
  rw_v6 :: "(ipv6_net \<times> ip_rewrite_action) list"

definition ip_rewrite_default :: ip_rewrite where
  "ip_rewrite_default = \<lparr>rw_v4 = [], rw_v6 = []\<rparr>"

fun rewrite_action :: "ext \<Rightarrow> ip_rewrite \<Rightarrow> ip_addr \<Rightarrow> ip_rewrite_action option" where
  "rewrite_action x t (V4 ip) = map_option snd (find (\<lambda>(net, _). ext_net4_contains x net ip) (rw_v4 t))"
| "rewrite_action x t (V6 ip) = map_option snd (find (\<lambda>(net, _). ext_net6_contains x net ip) (rw_v6 t))"

definition rewrite_is_empty :: "ip_rewrite \<Rightarrow> bool" where
  "rewrite_is_empty t \<longleftrightarrow> rw_v4 t = [] \<and> rw_v6 t = []"

definition split_definition :: "string \<Rightarrow> (string \<times> string) option" where
  "split_definition raw =
     (case split_once (CHR ''='') raw of
        None \<Rightarrow> None
      | Some (name, rest) \<Rightarrow> if trim name = [] then None else Some (trim name, trim rest))"

definition prefix_of :: "ext \<Rightarrow> string \<Rightarrow> ip_net option" where
  "prefix_of x text =
     (case ext_parse_net4 x text of
        Some net \<Rightarrow> Some (Net4 net)
      | None \<Rightarrow>
     (case parse_ipv4 text of
        Some ip \<Rightarrow> Some (Net4 (ip, 32))
      | None \<Rightarrow>
     (case ext_parse_net6 x text of
        Some net \<Rightarrow> Some (Net6 net)
      | None \<Rightarrow>
     (case parse_ipv6 text of
        Some ip \<Rightarrow> Some (Net6 (ip, 128))
      | None \<Rightarrow> None))))"

definition action_of :: "string \<Rightarrow> ip_rewrite_action option" where
  "action_of text =
     (let t = to_ascii_lowercase text
      in if t = ''reflect'' then Some Reflect
         else if t = ''reject'' then Some Reject
         else if t = ''drop'' then Some Drop
         else None)"

text \<open>A line that cannot be read is one warning; the second component holds those lines.\<close>

definition parse_rewrite_line :: "ext \<Rightarrow> ip_rewrite \<times> string list \<Rightarrow> string \<Rightarrow> ip_rewrite \<times> string list" where
  "parse_rewrite_line x acc raw =
     (case acc of (t, diags) \<Rightarrow>
      case (case split_definition raw of
              Some (p, a) \<Rightarrow>
                (case (prefix_of x p, action_of a) of
                   (Some net, Some action) \<Rightarrow> Some (net, action)
                 | _ \<Rightarrow> None)
            | None \<Rightarrow> None) of
        Some (Net4 net, action) \<Rightarrow> (t\<lparr>rw_v4 := rw_v4 t @ [(net, action)]\<rparr>, diags)
      | Some (Net6 net, action) \<Rightarrow> (t\<lparr>rw_v6 := rw_v6 t @ [(net, action)]\<rparr>, diags)
      | None \<Rightarrow> (t, diags @ [raw]))"

definition parse_rewrite :: "ext \<Rightarrow> string list \<Rightarrow> ip_rewrite \<times> string list" where
  "parse_rewrite x entries = foldl (parse_rewrite_line x) (ip_rewrite_default, []) entries"

section \<open>The crate smoltcp\<close>

text \<open>
  What the packet types of \<open>smoltcp::wire\<close> read. A \<open>_checked\<close> function says whether
  \<open>new_checked\<close> takes the bytes; \<open>sm_icmpv4_echo\<close> and \<open>sm_icmpv6_echo\<close> are the identifier, the
  sequence number and the data of a message \<open>new_checked\<close> takes; what is written through the reference \<open>options_mut\<close> returns is
  \<open>sm_tcp_set_options\<close>. An \<open>IpProtocol\<close> is its number.
\<close>

record v4_header =
  v4_header_len :: nat
  v4_total_len :: nat
  v4_ident :: u16
  v4_dont_frag :: bool
  v4_more_frags :: bool
  v4_frag_offset :: nat
  v4_hop_limit :: u8
  v4_next_header :: u8
  v4_src :: ipv4_addr
  v4_dst :: ipv4_addr

record v6_header =
  v6_total_len :: nat
  v6_next_header :: u8
  v6_hop_limit :: u8
  v6_src :: ipv6_addr
  v6_dst :: ipv6_addr

record tcp_header =
  tcp_src_port :: u16
  tcp_dst_port :: u16
  tcp_syn :: bool
  tcp_ack :: bool
  tcp_fin :: bool
  tcp_rst :: bool
  tcp_seq :: u32
  tcp_ack_number :: u32
  tcp_header_len :: nat

record udp_header =
  udp_src_port :: u16
  udp_dst_port :: u16
  udp_checksum :: u16

record smol =
  sm_ipv4_checked :: "u8 list \<Rightarrow> bool"
  sm_ipv4 :: "u8 list \<Rightarrow> v4_header"
  sm_ipv4_payload :: "u8 list \<Rightarrow> u8 list"
  sm_ipv4_verify :: "u8 list \<Rightarrow> bool"
  sm_ipv6_checked :: "u8 list \<Rightarrow> bool"
  sm_ipv6 :: "u8 list \<Rightarrow> v6_header"
  sm_ipv6_payload :: "u8 list \<Rightarrow> u8 list"
  sm_tcp_checked :: "u8 list \<Rightarrow> bool"
  sm_tcp :: "u8 list \<Rightarrow> tcp_header"
  sm_udp_checked :: "u8 list \<Rightarrow> bool"
  sm_udp :: "u8 list \<Rightarrow> udp_header"
  sm_udp_verify :: "u8 list \<Rightarrow> ip_addr \<Rightarrow> ip_addr \<Rightarrow> bool"
  sm_icmpv4_verify :: "u8 list \<Rightarrow> bool"
  sm_icmpv6_verify :: "u8 list \<Rightarrow> ipv6_addr \<Rightarrow> ipv6_addr \<Rightarrow> bool"
  sm_icmpv4_echo :: "u8 list \<Rightarrow> (u16 \<times> u16 \<times> u8 list) option"
  sm_icmpv6_echo :: "u8 list \<Rightarrow> (u16 \<times> u16 \<times> u8 list) option"
  sm_tcp_options :: "u8 list \<Rightarrow> u8 list"
  sm_tcp_set_options :: "u8 list \<Rightarrow> u8 list \<Rightarrow> u8 list"

definition IP_TCP :: u8 where
  "IP_TCP = 6"

definition IP_UDP :: u8 where
  "IP_UDP = 17"

definition IP_ICMP :: u8 where
  "IP_ICMP = 1"

definition IP_ICMPV6 :: u8 where
  "IP_ICMPV6 = 58"

definition IP_IPV6_FRAG :: u8 where
  "IP_IPV6_FRAG = 44"

section \<open>The checks: packet.rs\<close>

definition ICMP_HEADER :: nat where
  "ICMP_HEADER = 8"

definition IPV6_HEADER_LEN :: nat where
  "IPV6_HEADER_LEN = 40"

definition ICMPV4_ECHO_REQUEST :: u8 where
  "ICMPV4_ECHO_REQUEST = 8"

definition ICMPV6_ECHO_REQUEST :: u8 where
  "ICMPV6_ECHO_REQUEST = 128"

datatype drop_reason =
    Malformed
  | Fragment
  | Martian
  | Unsupported
  | QueueFull
  | UnknownFake
  | Busy
  | BeyondWindow
  | RstLimited
  | IcmpLimited
  | IpRewrite

definition is_silent :: "drop_reason \<Rightarrow> bool" where
  "is_silent r \<longleftrightarrow> r = Martian"

definition is_wanted :: "drop_reason \<Rightarrow> bool" where
  "is_wanted r \<longleftrightarrow> r = IpRewrite"

record dropped =
  dr_reason :: drop_reason
  dr_ends :: "(ip_addr \<times> ip_addr) option"

definition unread :: "drop_reason \<Rightarrow> dropped" where
  "unread r = \<lparr>dr_reason = r, dr_ends = None\<rparr>"

definition dropped_between :: "drop_reason \<Rightarrow> ip_addr \<Rightarrow> ip_addr \<Rightarrow> dropped" where
  "dropped_between r src dst = \<lparr>dr_reason = r, dr_ends = Some (src, dst)\<rparr>"

record tuple =
  tp_src :: socket_addr
  tp_dst :: socket_addr

record tcp_segment =
  sg_tuple :: tuple
  sg_syn :: bool
  sg_ack :: bool
  sg_fin :: bool
  sg_rst :: bool
  sg_seq :: u32
  sg_ack_number :: u32
  sg_header_len :: nat
  sg_payload_len :: nat

datatype tun_transport =
    TTcp tcp_segment
  | TUdp u16 u16
  | TIcmp u8

record parsed =
  ps_src :: ip_addr
  ps_dst :: ip_addr
  ps_len :: nat
  ps_transport :: tun_transport

record hit =
  ht_action :: ip_rewrite_action
  ht_src :: ip_addr
  ht_dst :: ip_addr
  ht_len :: nat
  ht_header_len :: nat

datatype classified =
    Passed parsed
  | Rewrite hit

datatype tun_refusal = Nothing | Reset | Prohibited

text \<open>\<open>Ipv4Addr\<close> and \<open>Ipv6Addr\<close> of the standard library.\<close>

definition odd_v4 :: "ipv4_addr \<Rightarrow> bool" where
  "odd_v4 a \<longleftrightarrow> a = 0 \<or> octets a ! 0 = 127 \<or> (224 \<le> octets a ! 0 \<and> octets a ! 0 \<le> 239)"

definition odd_v6 :: "ipv6_addr \<Rightarrow> bool" where
  "odd_v6 a \<longleftrightarrow> a = 0 \<or> a = 1 \<or> segments a ! 0 AND 0xff00 = 0xff00 \<or>
     take 6 (segments a) = [0, 0, 0, 0, 0, 0xffff]"

definition martian_v4 :: "ipv4_addr \<Rightarrow> ipv4_addr \<Rightarrow> bool" where
  "martian_v4 src dst \<longleftrightarrow> odd_v4 src \<or> odd_v4 dst \<or> dst = 0xffffffff"

definition martian_v6 :: "ipv6_addr \<Rightarrow> ipv6_addr \<Rightarrow> bool" where
  "martian_v6 src dst \<longleftrightarrow> odd_v6 src \<or> odd_v6 dst"

definition tcp :: "smol \<Rightarrow> ip_addr \<Rightarrow> ip_addr \<Rightarrow> u8 list \<Rightarrow> drop_reason + tcp_segment" where
  "tcp sm src dst payload =
     (if \<not> sm_tcp_checked sm payload then Inl Malformed
      else let t = sm_tcp sm payload
           in if tcp_src_port t = 0 \<or> tcp_dst_port t = 0 then Inl Malformed
              else Inr \<lparr>sg_tuple = \<lparr>tp_src = \<lparr>sa_ip = src, sa_port = tcp_src_port t\<rparr>,
                                    tp_dst = \<lparr>sa_ip = dst, sa_port = tcp_dst_port t\<rparr>\<rparr>,
                        sg_syn = tcp_syn t, sg_ack = tcp_ack t, sg_fin = tcp_fin t, sg_rst = tcp_rst t,
                        sg_seq = tcp_seq t, sg_ack_number = tcp_ack_number t,
                        sg_header_len = tcp_header_len t,
                        sg_payload_len = length payload - tcp_header_len t\<rparr>)"

definition udp :: "smol \<Rightarrow> ip_addr \<Rightarrow> ip_addr \<Rightarrow> u8 list \<Rightarrow> drop_reason + tun_transport" where
  "udp sm src dst payload =
     (if \<not> sm_udp_checked sm payload then Inl Malformed
      else let u = sm_udp sm payload
           in if udp_src_port u = 0 \<or> udp_dst_port u = 0 then Inl Malformed
              else if (if udp_checksum u = 0 then is_ipv6 src else \<not> sm_udp_verify sm payload src dst)
                   then Inl Malformed
              else Inr (TUdp (udp_src_port u) (udp_dst_port u)))"

definition icmp :: "smol \<Rightarrow> ip_addr \<Rightarrow> ip_addr \<Rightarrow> u8 list \<Rightarrow> u8 \<Rightarrow> drop_reason + tun_transport" where
  "icmp sm src dst payload echo_request =
     (if length payload < ICMP_HEADER then Inl Malformed
      else if payload ! 0 \<noteq> echo_request then Inl Unsupported
      else if \<not> (case (src, dst) of
                   (V6 s, V6 d) \<Rightarrow> sm_icmpv6_verify sm payload s d
                 | _ \<Rightarrow> sm_icmpv4_verify sm payload)
           then Inl Malformed
      else Inr (TIcmp (payload ! 0)))"

definition read_transport :: "smol \<Rightarrow> ip_addr \<Rightarrow> ip_addr \<Rightarrow> u8 \<Rightarrow> u8 list \<Rightarrow> nat \<Rightarrow> dropped + parsed" where
  "read_transport sm src dst protocol payload len =
     (case (if protocol = IP_TCP then map_sum id TTcp (tcp sm src dst payload)
            else if protocol = IP_UDP then udp sm src dst payload
            else if protocol = IP_ICMP \<and> is_ipv4 src then icmp sm src dst payload ICMPV4_ECHO_REQUEST
            else if protocol = IP_ICMPV6 \<and> is_ipv6 src then icmp sm src dst payload ICMPV6_ECHO_REQUEST
            else Inl Unsupported) of
        Inl r \<Rightarrow> Inl (dropped_between r src dst)
      | Inr t \<Rightarrow> Inr \<lparr>ps_src = src, ps_dst = dst, ps_len = len, ps_transport = t\<rparr>)"

definition read_ipv4 :: "smol \<Rightarrow> ext \<Rightarrow> u8 list \<Rightarrow> ip_rewrite \<Rightarrow> dropped + classified" where
  "read_ipv4 sm x packet rewrite =
     (if \<not> sm_ipv4_checked sm packet then Inl (unread Malformed)
      else let ip = sm_ipv4 sm packet
           in if v4_header_len ip < 20 \<or> \<not> sm_ipv4_verify sm packet then Inl (unread Malformed)
              else if martian_v4 (v4_src ip) (v4_dst ip)
                   then Inl (dropped_between Martian (V4 (v4_src ip)) (V4 (v4_dst ip)))
              else let src = V4 (v4_src ip); dst = V4 (v4_dst ip); len = v4_total_len ip
                   in (case rewrite_action x rewrite dst of
                         Some action \<Rightarrow>
                           Inr (Rewrite \<lparr>ht_action = action, ht_src = src, ht_dst = dst, ht_len = len,
                                         ht_header_len = v4_header_len ip\<rparr>)
                       | None \<Rightarrow>
                           if v4_more_frags ip \<or> v4_frag_offset ip \<noteq> 0 then Inl (dropped_between Fragment src dst)
                           else map_sum id Passed
                                  (read_transport sm src dst (v4_next_header ip) (sm_ipv4_payload sm packet) len)))"

definition read_ipv6 :: "smol \<Rightarrow> ext \<Rightarrow> u8 list \<Rightarrow> ip_rewrite \<Rightarrow> dropped + classified" where
  "read_ipv6 sm x packet rewrite =
     (if \<not> sm_ipv6_checked sm packet then Inl (unread Malformed)
      else let ip = sm_ipv6 sm packet
           in if martian_v6 (v6_src ip) (v6_dst ip)
                   then Inl (dropped_between Martian (V6 (v6_src ip)) (V6 (v6_dst ip)))
              else let src = V6 (v6_src ip); dst = V6 (v6_dst ip); len = v6_total_len ip
                   in (case rewrite_action x rewrite dst of
                         Some action \<Rightarrow>
                           Inr (Rewrite \<lparr>ht_action = action, ht_src = src, ht_dst = dst, ht_len = len,
                                         ht_header_len = IPV6_HEADER_LEN\<rparr>)
                       | None \<Rightarrow>
                           if v6_next_header ip = IP_IPV6_FRAG then Inl (dropped_between Fragment src dst)
                           else map_sum id Passed
                                  (read_transport sm src dst (v6_next_header ip) (sm_ipv6_payload sm packet) len)))"

definition version :: "u8 list \<Rightarrow> u8 option" where
  "version packet = (case packet of [] \<Rightarrow> None | b # _ \<Rightarrow> Some (drop_bit 4 b))"

definition parse_packet :: "smol \<Rightarrow> ext \<Rightarrow> u8 list \<Rightarrow> ip_rewrite \<Rightarrow> dropped + classified" where
  "parse_packet sm x packet rewrite =
     (if version packet = Some 4 then read_ipv4 sm x packet rewrite
      else if version packet = Some 6 then read_ipv6 sm x packet rewrite
      else Inl (unread Malformed))"

definition classify :: "smol \<Rightarrow> ext \<Rightarrow> u8 list \<Rightarrow> bool \<Rightarrow> ip_rewrite \<Rightarrow> dropped + classified" where
  "classify sm x packet ipv6 rewrite =
     (if \<not> ipv6 \<and> version packet = Some 6 then Inl (unread Unsupported)
      else parse_packet sm x packet rewrite)"

definition segment :: "smol \<Rightarrow> ext \<Rightarrow> u8 list \<Rightarrow> tcp_segment option" where
  "segment sm x packet =
     (case parse_packet sm x packet ip_rewrite_default of
        Inr (Passed p) \<Rightarrow> (case ps_transport p of TTcp s \<Rightarrow> Some s | _ \<Rightarrow> None)
      | _ \<Rightarrow> None)"

text \<open>What a packet that is rejected is answered with.\<close>

definition is_icmpv6_error :: "u8 \<Rightarrow> bool" where
  "is_icmpv6_error kind \<longleftrightarrow> kind < 128 \<or> kind = 137"

definition is_ipv6_extension_header :: "u8 \<Rightarrow> bool" where
  "is_ipv6_extension_header protocol \<longleftrightarrow>
     protocol \<in> {0, 43, 44, 50, 51, 60, 135, 139, 140, 253, 254}"

definition refusal_tcp :: "smol \<Rightarrow> ext \<Rightarrow> u8 list \<Rightarrow> tun_refusal" where
  "refusal_tcp sm x packet =
     (case segment sm x packet of
        None \<Rightarrow> Nothing
      | Some s \<Rightarrow> if sg_rst s then Nothing else if sg_syn s \<and> \<not> sg_ack s then Reset else Prohibited)"

definition refusal_v4 :: "smol \<Rightarrow> ext \<Rightarrow> u8 list \<Rightarrow> tun_refusal" where
  "refusal_v4 sm x packet =
     (if \<not> sm_ipv4_checked sm packet then Nothing
      else let ip = sm_ipv4 sm packet; payload = sm_ipv4_payload sm packet
           in if v4_frag_offset ip \<noteq> 0 then Nothing
              else if v4_next_header ip = IP_ICMP \<and> (payload = [] \<or> hd payload \<in> {3, 4, 5, 11, 12}) then Nothing
              else if \<not> v4_more_frags ip \<and> v4_next_header ip = IP_TCP then refusal_tcp sm x packet
              else Prohibited)"

definition refusal_v6_rest :: "smol \<Rightarrow> ext \<Rightarrow> u8 list \<Rightarrow> u8 list \<Rightarrow> bool \<Rightarrow> u8 \<Rightarrow> tun_refusal" where
  "refusal_v6_rest sm x packet payload fragmented next_header =
     (if is_ipv6_extension_header next_header then Nothing
      else let at = (if fragmented then 8 else 0)
           in if next_header = IP_ICMPV6 \<and> (length payload \<le> at \<or> is_icmpv6_error (payload ! at)) then Nothing
              else if \<not> fragmented \<and> next_header = IP_TCP then refusal_tcp sm x packet
              else Prohibited)"

definition refusal_v6 :: "smol \<Rightarrow> ext \<Rightarrow> u8 list \<Rightarrow> tun_refusal" where
  "refusal_v6 sm x packet =
     (if \<not> sm_ipv6_checked sm packet then Nothing
      else let payload = sm_ipv6_payload sm packet; next_header = v6_next_header (sm_ipv6 sm packet)
           in if next_header = IP_IPV6_FRAG
              then if length payload < 8 then Nothing
                   else if drop_bit 3 (u16_from_be (payload ! 2) (payload ! 3)) \<noteq> 0 then Nothing
                   else refusal_v6_rest sm x packet payload True (payload ! 0)
              else refusal_v6_rest sm x packet payload False next_header)"

definition refusal_of :: "smol \<Rightarrow> ext \<Rightarrow> u8 list \<Rightarrow> tun_refusal" where
  "refusal_of sm x packet =
     (if version packet = Some 4 then refusal_v4 sm x packet
      else if version packet = Some 6 then refusal_v6 sm x packet
      else Nothing)"

text \<open>The options of a SYN.\<close>

definition OPTION_END :: u8 where
  "OPTION_END = 0"

definition OPTION_NOP :: u8 where
  "OPTION_NOP = 1"

definition OPTION_SACK_PERMITTED :: u8 where
  "OPTION_SACK_PERMITTED = 4"

definition option_at :: "u8 list \<Rightarrow> nat \<Rightarrow> (u8 \<times> nat) option" where
  "option_at options at =
     (let kind = options ! at
      in if kind = OPTION_END \<or> kind = OPTION_NOP then Some (kind, 1)
         else if length options \<le> at + 1 then None
         else let len = unat (options ! (at + 1))
              in if 2 \<le> len \<and> at + len \<le> length options then Some (kind, len) else None)"

lemma option_at_progress: "option_at options at = Some (kind, len) \<Longrightarrow> 0 < len"
  by (auto simp: option_at_def Let_def split: if_splits)

function sound_from :: "u8 list \<Rightarrow> nat \<Rightarrow> bool" where
  "sound_from options at =
     (if at < length options then
        (case option_at options at of
           None \<Rightarrow> False
         | Some (kind, len) \<Rightarrow> kind = OPTION_END \<or> sound_from options (at + len))
      else True)"
  by pat_completeness auto
termination
  by (relation "measure (\<lambda>(options, at). length options - at)") (auto dest: option_at_progress)

function strip_from :: "u8 list \<Rightarrow> nat \<Rightarrow> u8 list" where
  "strip_from options at =
     (if at < length options then
        (case option_at options at of
           None \<Rightarrow> options
         | Some (kind, len) \<Rightarrow>
             if kind = OPTION_END then options
             else strip_from
                    (if kind = OPTION_SACK_PERMITTED \<and> len = 2
                     then options[at := OPTION_NOP, at + 1 := OPTION_NOP] else options) (at + len))
      else options)"
  by pat_completeness auto
termination
  by (relation "measure (\<lambda>(options, at). length options - at)") (auto dest: option_at_progress)

declare sound_from.simps [simp del] strip_from.simps [simp del]

definition tcp_start :: "smol \<Rightarrow> u8 list \<Rightarrow> nat option" where
  "tcp_start sm packet =
     (if version packet = Some 4 then
        if sm_ipv4_checked sm packet then
          let ip = sm_ipv4 sm packet
          in if 20 \<le> v4_header_len ip \<and> v4_next_header ip = IP_TCP then Some (v4_header_len ip) else None
        else None
      else if version packet = Some 6 then
        if sm_ipv6_checked sm packet \<and> v6_next_header (sm_ipv6 sm packet) = IP_TCP
        then Some IPV6_HEADER_LEN else None
      else None)"

definition strip_sack_permitted :: "smol \<Rightarrow> u8 list \<Rightarrow> u8 list" where
  "strip_sack_permitted sm packet =
     (case tcp_start sm packet of
        None \<Rightarrow> packet
      | Some start \<Rightarrow>
          if length packet < start then packet
          else let seg = drop start packet
               in if \<not> sm_tcp_checked sm seg \<or> \<not> tcp_syn (sm_tcp sm seg) then packet
                  else let options = sm_tcp_options sm seg
                       in if \<not> sound_from options 0 then packet
                          else take start packet @ sm_tcp_set_options sm seg (strip_from options 0))"

section \<open>What is counted: stats.rs\<close>

fun reason_number :: "drop_reason \<Rightarrow> nat" where
  "reason_number Malformed = 0"
| "reason_number Fragment = 1"
| "reason_number Martian = 2"
| "reason_number Unsupported = 3"
| "reason_number QueueFull = 4"
| "reason_number UnknownFake = 5"
| "reason_number Busy = 6"
| "reason_number BeyondWindow = 7"
| "reason_number RstLimited = 8"
| "reason_number IcmpLimited = 9"
| "reason_number IpRewrite = 10"

datatype log_line =
    Warn drop_reason
  | Debug drop_reason "ip_addr option" "ip_addr option"

record stats =
  st_counters :: "drop_reason \<Rightarrow> u64"
  st_reflected :: u64
  st_stack_panics :: u64
  st_said :: u16
  st_log :: "log_line list"

definition stats_default :: stats where
  "stats_default = \<lparr>st_counters = (\<lambda>_. 0), st_reflected = 0, st_stack_panics = 0, st_said = 0, st_log = []\<rparr>"

definition first_time :: "drop_reason \<Rightarrow> stats \<Rightarrow> bool \<times> stats" where
  "first_time r s =
     (let b = push_bit (reason_number r) 1
      in if is_silent r then (False, s)
         else (st_said s AND b = 0, s\<lparr>st_said := st_said s OR b\<rparr>))"

definition stats_drop :: "drop_reason \<Rightarrow> ip_addr option \<Rightarrow> ip_addr option \<Rightarrow> stats \<Rightarrow> stats" where
  "stats_drop r src dst s =
     (let s = s\<lparr>st_counters := (st_counters s)(r := st_counters s r + 1)\<rparr>
      in if is_silent r then s
         else case (if is_wanted r then (False, s) else first_time r s) of
                (True, s) \<Rightarrow> s\<lparr>st_log := st_log s @ [Warn r]\<rparr>
              | (False, s) \<Rightarrow> s\<lparr>st_log := st_log s @ [Debug r src dst]\<rparr>)"

definition stats_reflected :: "stats \<Rightarrow> stats" where
  "stats_reflected s = s\<lparr>st_reflected := st_reflected s + 1\<rparr>"

section \<open>Where a packet goes: dispatch.rs\<close>

datatype send_answer = SendOk | SendFull | SendClosed

datatype routed =
    Local parsed "u8 list"
  | ToRewrite hit "u8 list"

text \<open>
  \<open>queue\<close> holds the packets the shards' channels took, each with its shard and the bytes reserved
  for it; the capacity of the packet, the hash of its ends and the answers of the channels are
  the arguments \<open>capacity\<close>, \<open>hash\<close> and \<open>try_send\<close>.
\<close>

record dispatch =
  di_stats :: stats
  di_bytes :: queued_bytes
  di_queue :: "(nat \<times> u8 list \<times> u64) list"

definition shard_of :: "(tuple \<Rightarrow> u64) \<Rightarrow> tuple \<Rightarrow> nat \<Rightarrow> nat" where
  "shard_of hash t shards = unat (hash t mod of_nat shards)"

definition route :: "smol \<Rightarrow> ext \<Rightarrow> (tuple \<Rightarrow> u64) \<Rightarrow> nat \<Rightarrow> (nat \<Rightarrow> send_answer) \<Rightarrow> bool \<Rightarrow> ip_rewrite \<Rightarrow>
    u8 list \<Rightarrow> u64 \<Rightarrow> dispatch \<Rightarrow> routed option \<times> dispatch" where
  "route sm x hash shards try_send ipv6 rewrite packet capacity d =
     (case classify sm x packet ipv6 rewrite of
        Inl dr \<Rightarrow>
          (None, d\<lparr>di_stats := stats_drop (dr_reason dr) (map_option fst (dr_ends dr)) (map_option snd (dr_ends dr)) (di_stats d)\<rparr>)
      | Inr (Rewrite h) \<Rightarrow> (Some (ToRewrite h (take (ht_len h) packet)), d)
      | Inr (Passed p) \<Rightarrow>
          let packet = take (ps_len p) packet;
              full = d\<lparr>di_stats := stats_drop QueueFull (Some (ps_src p)) (Some (ps_dst p)) (di_stats d)\<rparr>
          in (case ps_transport p of
                TTcp s \<Rightarrow>
                  (case reserve (di_bytes d) capacity of
                     None \<Rightarrow> (None, full)
                   | Some (held, bytes) \<Rightarrow>
                       let shard = shard_of hash (sg_tuple s) shards
                       in (case try_send shard of
                             SendOk \<Rightarrow> (None, d\<lparr>di_bytes := bytes, di_queue := di_queue d @ [(shard, packet, held)]\<rparr>)
                           | SendFull \<Rightarrow> (None, full\<lparr>di_bytes := reserved_drop held bytes\<rparr>)
                           | SendClosed \<Rightarrow> (None, d\<lparr>di_bytes := reserved_drop held bytes\<rparr>)))
              | _ \<Rightarrow> (Some (Local p packet), d)))"

end
