(* ===== verification/Rurge_Tun_Write.thy ===== *)
theory Rurge_Tun_Write
  imports Rurge_Tun_Packet
begin

text \<open>
  The packets the TUN device writes itself: fragments (\<^verbatim>\<open>crates/rurge-tun/src/fragment.rs\<close>), UDP
  datagrams and resets (\<^verbatim>\<open>packet.rs\<close>), ICMP messages and echo replies (\<^verbatim>\<open>icmp.rs\<close>), and what
  \<open>[IP Rewrite]\<close> does with a packet (\<^verbatim>\<open>rewrite.rs\<close>). What \<open>smoltcp\<close> writes into a buffer is the
  record \<open>smol_write\<close>, told as a function of the buffer.
\<close>

section \<open>What smoltcp writes\<close>

record v4_repr =
  r4_src :: ipv4_addr
  r4_dst :: ipv4_addr
  r4_next_header :: u8
  r4_payload_len :: nat
  r4_hop_limit :: u8

record v6_repr =
  r6_src :: ipv6_addr
  r6_dst :: ipv6_addr
  r6_next_header :: u8
  r6_payload_len :: nat
  r6_hop_limit :: u8

record v6_frag_repr =
  rf_offset :: u16
  rf_more :: bool
  rf_ident :: u32

record tcp_repr =
  rt_src_port :: u16
  rt_dst_port :: u16
  rt_seq :: u32
  rt_ack_number :: u32
  rt_window_len :: u16

text \<open>
  \<open>sw_tcp_rst\<close> is the \<open>emit\<close> of a \<open>TcpRepr\<close> whose control is a reset with an acknowledgement number
  and no options, \<open>sw_udp\<close> that of a \<open>UdpRepr\<close> with its payload; \<open>sw_icmp_echo\<close> is the \<open>emit\<close> of
  \<open>EchoReply\<close> of either family, and \<open>sw_icmp_unreachable\<close> sets type and code to destination
  unreachable, administratively prohibited, and fills the checksum in.
\<close>

record smol_write =
  sw_ipv4 :: "v4_repr \<Rightarrow> u8 list \<Rightarrow> u8 list"
  sw_ipv4_set_ident :: "u16 \<Rightarrow> u8 list \<Rightarrow> u8 list"
  sw_ipv4_set_dont_frag :: "bool \<Rightarrow> u8 list \<Rightarrow> u8 list"
  sw_ipv4_set_more_frags :: "bool \<Rightarrow> u8 list \<Rightarrow> u8 list"
  sw_ipv4_set_frag_offset :: "u16 \<Rightarrow> u8 list \<Rightarrow> u8 list"
  sw_ipv4_fill_checksum :: "u8 list \<Rightarrow> u8 list"
  sw_ipv6 :: "v6_repr \<Rightarrow> u8 list \<Rightarrow> u8 list"
  sw_ipv6_frag :: "v6_frag_repr \<Rightarrow> u8 list \<Rightarrow> u8 list"
  sw_ipv6_read_frag :: "u8 list \<Rightarrow> v6_frag_repr"
  sw_tcp_rst :: "tcp_repr \<Rightarrow> ip_addr \<Rightarrow> ip_addr \<Rightarrow> u8 list"
  sw_udp :: "u16 \<Rightarrow> u16 \<Rightarrow> ip_addr \<Rightarrow> ip_addr \<Rightarrow> u8 list \<Rightarrow> u8 list"
  sw_icmp_unreachable :: "ip_addr \<Rightarrow> ip_addr \<Rightarrow> u8 list \<Rightarrow> u8 list"
  sw_icmp_echo :: "ip_addr \<Rightarrow> ip_addr \<Rightarrow> u16 \<Rightarrow> u16 \<Rightarrow> u8 list \<Rightarrow> u8 list"

section \<open>Fragments: fragment.rs\<close>

definition HOP_LIMIT :: u8 where
  "HOP_LIMIT = 64"

definition IPV4_HEADER :: nat where
  "IPV4_HEADER = 20"

definition IPV6_HEADER :: nat where
  "IPV6_HEADER = 40"

definition IPV6_FRAGMENT_HEADER :: nat where
  "IPV6_FRAGMENT_HEADER = 8"

text \<open>The identifications are a counter; \<open>ids_new\<close> takes what the random source answered.\<close>

definition ids_new :: "u32 option \<Rightarrow> u32" where
  "ids_new random = (case random of Some n \<Rightarrow> n | None \<Rightarrow> 0x5eed)"

definition ids_next :: "u32 \<Rightarrow> u32 \<times> u32" where
  "ids_next n = (n, n + 1)"

record fragment =
  fr_ident :: u32
  fr_offset :: nat
  fr_more :: bool

definition write_ipv4 :: "smol_write \<Rightarrow> ipv4_addr \<Rightarrow> ipv4_addr \<Rightarrow> u8 \<Rightarrow> u8 list \<Rightarrow> fragment option \<Rightarrow> u8 list" where
  "write_ipv4 sw src dst protocol data fragment =
     (let packet = sw_ipv4 sw \<lparr>r4_src = src, r4_dst = dst, r4_next_header = protocol,
                     r4_payload_len = length data, r4_hop_limit = HOP_LIMIT\<rparr>
                     (replicate (IPV4_HEADER + length data) 0);
          packet = take IPV4_HEADER packet @ data
      in (case fragment of
            None \<Rightarrow> packet
          | Some f \<Rightarrow>
              sw_ipv4_fill_checksum sw
                (sw_ipv4_set_frag_offset sw (of_nat (fr_offset f))
                  (sw_ipv4_set_more_frags sw (fr_more f)
                    (sw_ipv4_set_dont_frag sw False
                      (sw_ipv4_set_ident sw (ucast (fr_ident f)) packet))))))"

definition write_ipv6 :: "smol_write \<Rightarrow> ipv6_addr \<Rightarrow> ipv6_addr \<Rightarrow> u8 \<Rightarrow> u8 list \<Rightarrow> u8 list" where
  "write_ipv6 sw src dst protocol data =
     take IPV6_HEADER
       (sw_ipv6 sw \<lparr>r6_src = src, r6_dst = dst, r6_next_header = protocol,
          r6_payload_len = length data, r6_hop_limit = HOP_LIMIT\<rparr> (replicate (IPV6_HEADER + length data) 0)) @ data"

definition ipv6_fragment :: "smol_write \<Rightarrow> ipv6_addr \<Rightarrow> ipv6_addr \<Rightarrow> u8 \<Rightarrow> u8 list \<Rightarrow> fragment \<Rightarrow> u8 list" where
  "ipv6_fragment sw src dst protocol data f =
     (let packet = sw_ipv6 sw \<lparr>r6_src = src, r6_dst = dst, r6_next_header = IP_IPV6_FRAG,
                     r6_payload_len = IPV6_FRAGMENT_HEADER + length data, r6_hop_limit = HOP_LIMIT\<rparr>
                     (replicate (IPV6_HEADER + IPV6_FRAGMENT_HEADER + length data) 0);
          packet = packet[IPV6_HEADER := protocol];
          packet = take (IPV6_HEADER + 2) packet @
            sw_ipv6_frag sw \<lparr>rf_offset = of_nat (fr_offset f div 8), rf_more = fr_more f, rf_ident = fr_ident f\<rparr>
              (take (IPV6_FRAGMENT_HEADER - 2) (drop (IPV6_HEADER + 2) packet)) @
            drop (IPV6_HEADER + IPV6_FRAGMENT_HEADER) packet
      in take (IPV6_HEADER + IPV6_FRAGMENT_HEADER) packet @ data)"

text \<open>The two addresses of a packet are of one family; \<^const>\<open>None\<close> is the panic if they are not.\<close>

fun ip_packet :: "smol_write \<Rightarrow> ip_addr \<Rightarrow> ip_addr \<Rightarrow> u8 \<Rightarrow> u8 list \<Rightarrow> u8 list option" where
  "ip_packet sw (V4 src) (V4 dst) protocol transport = Some (write_ipv4 sw src dst protocol transport None)"
| "ip_packet sw (V6 src) (V6 dst) protocol transport = Some (write_ipv6 sw src dst protocol transport)"
| "ip_packet sw _ _ _ _ = None"

fun fragment_packet :: "smol_write \<Rightarrow> ip_addr \<Rightarrow> ip_addr \<Rightarrow> u8 \<Rightarrow> u8 list \<Rightarrow> fragment \<Rightarrow> u8 list option" where
  "fragment_packet sw (V4 src) (V4 dst) protocol data f = Some (write_ipv4 sw src dst protocol data (Some f))"
| "fragment_packet sw (V6 src) (V6 dst) protocol data f = Some (ipv6_fragment sw src dst protocol data f)"
| "fragment_packet sw _ _ _ _ _ = None"

text \<open>The loop over \<open>transport.chunks(piece)\<close>, from \<open>offset\<close> on; \<open>whole\<close> is the length of it all.\<close>

function fragments_from :: "smol_write \<Rightarrow> ip_addr \<Rightarrow> ip_addr \<Rightarrow> u8 \<Rightarrow> u32 \<Rightarrow> nat \<Rightarrow> nat \<Rightarrow> nat \<Rightarrow> u8 list \<Rightarrow> u8 list list option" where
  "fragments_from sw src dst protocol ident piece whole offset rest =
     (if rest = [] \<or> piece = 0 then Some []
      else let data = take piece rest
           in (case fragment_packet sw src dst protocol data
                      \<lparr>fr_ident = ident, fr_offset = offset, fr_more = offset + length data < whole\<rparr> of
                 None \<Rightarrow> None
               | Some p \<Rightarrow>
                   map_option (\<lambda>ps. p # ps)
                     (fragments_from sw src dst protocol ident piece whole (offset + length data) (drop piece rest))))"
  by pat_completeness auto
termination
  by (relation "measure (\<lambda>(sw, src, dst, protocol, ident, piece, whole, offset, rest). length rest)") auto

declare fragments_from.simps [simp del]

definition piece_for :: "ip_addr \<Rightarrow> nat \<Rightarrow> nat" where
  "piece_for src mtu =
     (let room = (if is_ipv4 src then mtu - IPV4_HEADER else mtu - (IPV6_HEADER + IPV6_FRAGMENT_HEADER))
      in max (room div 8 * 8) 8)"

definition ip_packets :: "smol_write \<Rightarrow> ip_addr \<Rightarrow> ip_addr \<Rightarrow> u8 \<Rightarrow> u8 list \<Rightarrow> nat \<Rightarrow> u32 \<Rightarrow> u8 list list option \<times> u32" where
  "ip_packets sw src dst protocol transport mtu ids =
     (let header = (if is_ipv4 src then IPV4_HEADER else IPV6_HEADER)
      in if header + length transport \<le> mtu
         then (map_option (\<lambda>p. [p]) (ip_packet sw src dst protocol transport), ids)
         else case ids_next ids of (ident, ids) \<Rightarrow>
              (fragments_from sw src dst protocol ident (piece_for src mtu) (length transport) 0 transport, ids))"

section \<open>Datagrams and resets: packet.rs\<close>

definition UDP_HEADER_LEN :: nat where
  "UDP_HEADER_LEN = 8"

definition RESET_HOP_LIMIT :: u8 where
  "RESET_HOP_LIMIT = 64"

definition udp_datagram :: "smol_write \<Rightarrow> socket_addr \<Rightarrow> socket_addr \<Rightarrow> u8 list \<Rightarrow> u8 list option" where
  "udp_datagram sw src dst payload =
     (let longest = (if is_ipv4 (sa_ip src) then 65535 - 20 else 65535)
      in if longest < UDP_HEADER_LEN + length payload then None
         else Some (sw_udp sw (sa_port src) (sa_port dst) (sa_ip src) (sa_ip dst) payload))"

text \<open>The outer \<^const>\<open>None\<close> is a payload that is too long, the inner one the panic.\<close>

definition udp_packets :: "smol_write \<Rightarrow> socket_addr \<Rightarrow> socket_addr \<Rightarrow> u8 list \<Rightarrow> nat \<Rightarrow> u32 \<Rightarrow> u8 list list option option \<times> u32" where
  "udp_packets sw src dst payload mtu ids =
     (case udp_datagram sw src dst payload of
        None \<Rightarrow> (None, ids)
      | Some datagram \<Rightarrow>
          case ip_packets sw (sa_ip src) (sa_ip dst) IP_UDP datagram mtu ids of (ps, ids) \<Rightarrow> (Some ps, ids))"

definition rst_for :: "smol \<Rightarrow> ext \<Rightarrow> smol_write \<Rightarrow> u8 list \<Rightarrow> u8 list option" where
  "rst_for sm x sw syn =
     (case segment sm x syn of
        None \<Rightarrow> None
      | Some read \<Rightarrow>
          let to = tp_src (sg_tuple read); from = tp_dst (sg_tuple read);
              reset = sw_tcp_rst sw \<lparr>rt_src_port = sa_port from, rt_dst_port = sa_port to, rt_seq = 0,
                        rt_ack_number = sg_seq read + 1 + of_nat (sg_payload_len read), rt_window_len = 0\<rparr>
                        (sa_ip from) (sa_ip to)
          in (case (sa_ip from, sa_ip to) of
                (V4 f, V4 t) \<Rightarrow>
                  Some (take IPV4_HEADER
                    (sw_ipv4 sw \<lparr>r4_src = f, r4_dst = t, r4_next_header = IP_TCP, r4_payload_len = length reset,
                       r4_hop_limit = RESET_HOP_LIMIT\<rparr> (replicate (IPV4_HEADER + length reset) 0)) @ reset)
              | (V6 f, V6 t) \<Rightarrow>
                  Some (take IPV6_HEADER
                    (sw_ipv6 sw \<lparr>r6_src = f, r6_dst = t, r6_next_header = IP_TCP, r6_payload_len = length reset,
                       r6_hop_limit = RESET_HOP_LIMIT\<rparr> (replicate (IPV6_HEADER + length reset) 0)) @ reset)
              | _ \<Rightarrow> None))"

section \<open>What the TUN's own answers share: context.rs\<close>

text \<open>
  \<open>tc_sent\<close> holds the batches the writer's queue took; whether it takes one is an argument.
\<close>

record 'l tun_context =
  tc_stats :: stats
  tc_admission :: admission
  tc_icmp_limit :: limiter
  tc_ids :: u32
  tc_mtu :: nat
  tc_echoes :: u64
  tc_max_echoes :: u64
  tc_pool :: "'l fake_pool option"
  tc_sent :: "u8 list list list"

definition count_drop :: "drop_reason \<Rightarrow> ip_addr \<Rightarrow> ip_addr \<Rightarrow> 'l tun_context \<Rightarrow> 'l tun_context" where
  "count_drop r src dst c = c\<lparr>tc_stats := stats_drop r (Some src) (Some dst) (tc_stats c)\<rparr>"

definition offer :: "send_answer \<Rightarrow> u8 list list \<Rightarrow> ip_addr \<Rightarrow> ip_addr \<Rightarrow> 'l tun_context \<Rightarrow> bool \<times> 'l tun_context" where
  "offer answer packets src dst c =
     (case answer of
        SendOk \<Rightarrow> (True, c\<lparr>tc_sent := tc_sent c @ [packets]\<rparr>)
      | SendFull \<Rightarrow> (False, count_drop QueueFull src dst c)
      | SendClosed \<Rightarrow> (False, c))"

section \<open>ICMP: icmp.rs\<close>

definition LIMIT :: nat where
  "LIMIT = 100"

definition WINDOW :: nat where
  "WINDOW = 3 * 10 ^ 9"

definition HEADER :: nat where
  "HEADER = 8"

definition icmp_limiter :: limiter where
  "icmp_limiter = limiter_new LIMIT WINDOW"

definition icmp_protocol :: "ip_addr \<Rightarrow> u8" where
  "icmp_protocol src = (if is_ipv4 src then IP_ICMP else IP_ICMPV6)"

definition prohibited :: "smol_write \<Rightarrow> ip_addr \<Rightarrow> ip_addr \<Rightarrow> u8 list \<Rightarrow> u8 list option" where
  "prohibited sw src dst quoted =
     ip_packet sw src dst (icmp_protocol src) (sw_icmp_unreachable sw src dst (replicate HEADER 0 @ quoted))"

definition refuse :: "smol_write \<Rightarrow> send_answer \<Rightarrow> ip_addr \<Rightarrow> ip_addr \<Rightarrow> u8 list \<Rightarrow> 'l tun_context \<Rightarrow> 'l tun_context option" where
  "refuse sw answer src dst quoted c =
     map_option (\<lambda>p. snd (offer answer [p] src dst c)) (prohibited sw src dst quoted)"

record echo =
  ec_app :: ip_addr
  ec_to :: ip_addr
  ec_ident :: u16
  ec_seq :: u16
  ec_payload :: "u8 list"

definition echo_read :: "smol \<Rightarrow> parsed \<Rightarrow> u8 list \<Rightarrow> echo option" where
  "echo_read sm p packet =
     map_option (\<lambda>(ident, seq, payload).
         \<lparr>ec_app = ps_src p, ec_to = ps_dst p, ec_ident = ident, ec_seq = seq, ec_payload = payload\<rparr>)
       (if is_ipv4 (ps_src p)
        then if sm_ipv4_checked sm packet then sm_icmpv4_echo sm (sm_ipv4_payload sm packet) else None
        else if sm_ipv6_checked sm packet then sm_icmpv6_echo sm (sm_ipv6_payload sm packet) else None)"

definition echo_reply :: "smol_write \<Rightarrow> echo \<Rightarrow> u8 list \<Rightarrow> nat \<Rightarrow> u32 \<Rightarrow> u8 list list option option \<times> u32" where
  "echo_reply sw e payload mtu ids =
     (let longest = (if is_ipv4 (ec_to e) then 65535 - 20 else 65535)
      in if longest < HEADER + length payload then (None, ids)
         else case ip_packets sw (ec_to e) (ec_app e) (icmp_protocol (ec_to e))
                     (sw_icmp_echo sw (ec_to e) (ec_app e) (ec_ident e) (ec_seq e) payload) mtu ids of
                (ps, ids) \<Rightarrow> (Some ps, ids))"

definition slot_take :: "'l tun_context \<Rightarrow> 'l tun_context option" where
  "slot_take c = map_option (\<lambda>n. c\<lparr>tc_echoes := n\<rparr>) (raise (tc_echoes c) (tc_max_echoes c))"

definition slot_drop :: "'l tun_context \<Rightarrow> 'l tun_context" where
  "slot_drop c = c\<lparr>tc_echoes := tc_echoes c - 1\<rparr>"

definition answer_here :: "smol_write \<Rightarrow> send_answer \<Rightarrow> echo \<Rightarrow> 'l tun_context \<Rightarrow> 'l tun_context option" where
  "answer_here sw answer e c =
     (case echo_reply sw e (ec_payload e) (tc_mtu c) (tc_ids c) of
        (None, ids) \<Rightarrow> Some (c\<lparr>tc_ids := ids\<rparr>)
      | (Some None, _) \<Rightarrow> None
      | (Some (Some ps), ids) \<Rightarrow> Some (snd (offer answer ps (ec_to e) (ec_app e) (c\<lparr>tc_ids := ids\<rparr>))))"

definition echo_name :: "'l idle_ops \<Rightarrow> ip_addr \<Rightarrow> 'l tun_context \<Rightarrow> string option \<times> 'l tun_context" where
  "echo_name ops to c =
     (case tc_pool c of
        None \<Rightarrow> (None, c)
      | Some pool \<Rightarrow> (case name_of ops to pool of (name, pool) \<Rightarrow> (name, c\<lparr>tc_pool := Some pool\<rparr>)))"

text \<open>
  What \<open>receive\<close> starts when the request goes out: a task that forwards the echo, for the name
  if there is one, and that holds its slot.
\<close>

datatype echo_task = Forward echo "string option"

definition icmp_receive :: "smol \<Rightarrow> smol_write \<Rightarrow> 'l idle_ops \<Rightarrow> send_answer \<Rightarrow> bool \<Rightarrow> parsed \<Rightarrow> u8 list \<Rightarrow> 'l tun_context \<Rightarrow>
    (echo_task option \<times> 'l tun_context) option" where
  "icmp_receive sm sw ops answer icmp_forwarding p packet c =
     (let app = ps_src p; to = ps_dst p; place = place_of to
      in if \<not> icmp_forwarding then Some (None, count_drop Unsupported app to c)
         else (case echo_read sm p packet of
                 None \<Rightarrow> Some (None, count_drop Malformed app to c)
               | Some e \<Rightarrow>
                   if place = Own \<or> place = Responder
                   then map_option (\<lambda>c. (None, c)) (answer_here sw answer e c)
                   else (case slot_take c of
                           None \<Rightarrow> Some (None, count_drop Busy app to c)
                         | Some c \<Rightarrow>
                             if place = Fake
                             then (case echo_name ops to c of
                                     (None, c) \<Rightarrow> Some (None, slot_drop (count_drop UnknownFake app to c))
                                   | (Some name, c) \<Rightarrow> Some (Some (Forward e (Some name)), c))
                             else Some (Some (Forward e None), c))))"

definition nearest :: "ip_addr list \<Rightarrow> ip_addr \<Rightarrow> ip_addr option" where
  "nearest addresses like =
     (case find (\<lambda>a. is_ipv4 a = is_ipv4 like) addresses of
        Some a \<Rightarrow> Some a
      | None \<Rightarrow> (case addresses of [] \<Rightarrow> None | a # _ \<Rightarrow> Some a))"

text \<open>The resolver and the pinger are arguments.\<close>

definition exchange :: "(string \<Rightarrow> ip_addr list option) \<Rightarrow> (ip_addr \<Rightarrow> u8 list \<Rightarrow> u8 list option) \<Rightarrow> echo \<Rightarrow> string option \<Rightarrow> u8 list option" where
  "exchange resolve ping e name =
     (case name of
        None \<Rightarrow> ping (ec_to e) (ec_payload e)
      | Some n \<Rightarrow>
          (case resolve n of
             None \<Rightarrow> None
           | Some addresses \<Rightarrow>
               (case nearest addresses (ec_to e) of
                  None \<Rightarrow> None
                | Some a \<Rightarrow> ping a (ec_payload e))))"

section \<open>[IP Rewrite]: rewrite.rs\<close>

definition V6_QUOTE_MAX :: nat where
  "V6_QUOTE_MAX = 1280 - 40 - 8"

definition swap :: "u8 list \<Rightarrow> nat \<Rightarrow> nat \<Rightarrow> u8 list option" where
  "swap packet at width =
     (if length packet < at + 2 * width then None
      else Some (take at packet @ take width (drop (at + width) packet) @ take width (drop at packet) @
                 drop (at + 2 * width) packet))"

definition reflect :: "send_answer \<Rightarrow> hit \<Rightarrow> u8 list \<Rightarrow> 'l tun_context \<Rightarrow> 'l tun_context option" where
  "reflect answer h packet c =
     map_option (\<lambda>p. case offer answer [p] (ht_dst h) (ht_src h) c of
                       (True, c) \<Rightarrow> c\<lparr>tc_stats := stats_reflected (tc_stats c)\<rparr>
                     | (False, c) \<Rightarrow> c)
       (if is_ipv4 (ht_dst h) then swap packet 12 4 else swap packet 8 16)"

definition reject :: "smol \<Rightarrow> ext \<Rightarrow> smol_write \<Rightarrow> send_answer \<Rightarrow> nat \<Rightarrow> hit \<Rightarrow> u8 list \<Rightarrow> 'l tun_context \<Rightarrow> 'l tun_context option" where
  "reject sm x sw answer now h packet c =
     (let c = count_drop IpRewrite (ht_src h) (ht_dst h) c
      in (case refusal_of sm x packet of
            Nothing \<Rightarrow> Some c
          | Reset \<Rightarrow>
              (case allow_reset now (tc_admission c) of
                 (True, a) \<Rightarrow>
                   map_option (\<lambda>p. snd (offer answer [p] (ht_dst h) (ht_src h) (c\<lparr>tc_admission := a\<rparr>))) (rst_for sm x sw packet)
               | (False, a) \<Rightarrow> Some (count_drop RstLimited (ht_src h) (ht_dst h) (c\<lparr>tc_admission := a\<rparr>)))
          | Prohibited \<Rightarrow>
              (case allow now (tc_icmp_limit c) of
                 (True, l) \<Rightarrow>
                   let quote = (if is_ipv4 (ht_dst h) then min (ht_len h) (ht_header_len h + 8) else min (ht_len h) V6_QUOTE_MAX)
                   in if length packet < quote then None
                      else refuse sw answer (ht_dst h) (ht_src h) (take quote packet) (c\<lparr>tc_icmp_limit := l\<rparr>)
               | (False, l) \<Rightarrow> Some (count_drop IcmpLimited (ht_dst h) (ht_src h) (c\<lparr>tc_icmp_limit := l\<rparr>)))))"

definition rewrite_handle :: "smol \<Rightarrow> ext \<Rightarrow> smol_write \<Rightarrow> send_answer \<Rightarrow> nat \<Rightarrow> hit \<Rightarrow> u8 list \<Rightarrow> 'l tun_context \<Rightarrow> 'l tun_context option" where
  "rewrite_handle sm x sw answer now h packet c =
     (case ht_action h of
        Reflect \<Rightarrow> reflect answer h packet c
      | Reject \<Rightarrow> reject sm x sw answer now h packet c
      | Drop \<Rightarrow> Some (count_drop IpRewrite (ht_src h) (ht_dst h) c))"

end
