(* ===== verification/Rurge_Tun_Packet_Facts.thy ===== *)
theory Rurge_Tun_Packet_Facts
  imports Rurge_Tun_Packet Rurge_Ip_Index Rurge_Fake_Ip_Facts
begin

text \<open>
  What the checks of the TUN device promise. The locale \<open>smol_laws\<close> states what the packet types of
  \<open>smoltcp\<close> document: \<open>new_checked\<close> takes only bytes that hold what the header says, the payload
  and the options are the bytes between the lengths of the header, and nothing is read past the
  end of the packet. \<open>smol_ref\<close>, which reads the headers as the standards lay them out, has these
  laws.
\<close>

section \<open>What smoltcp documents\<close>

locale smol_laws =
  fixes sm :: smol
  assumes ipv4_fits: "sm_ipv4_checked sm b \<Longrightarrow> v4_header_len (sm_ipv4 sm b) \<le> v4_total_len (sm_ipv4 sm b) \<and>
      v4_total_len (sm_ipv4 sm b) \<le> length b"
    and ipv4_payload: "sm_ipv4_checked sm b \<Longrightarrow>
      sm_ipv4_payload sm b = drop (v4_header_len (sm_ipv4 sm b)) (take (v4_total_len (sm_ipv4 sm b)) b)"
    and ipv4_cut: "sm_ipv4_checked sm b \<Longrightarrow> 20 \<le> v4_header_len (sm_ipv4 sm b) \<Longrightarrow>
      b' = take (v4_total_len (sm_ipv4 sm b)) b \<Longrightarrow>
      sm_ipv4_checked sm b' \<and> sm_ipv4 sm b' = sm_ipv4 sm b \<and> sm_ipv4_verify sm b' = sm_ipv4_verify sm b"
    and ipv6_fits: "sm_ipv6_checked sm b \<Longrightarrow> 40 \<le> v6_total_len (sm_ipv6 sm b) \<and>
      v6_total_len (sm_ipv6 sm b) \<le> length b"
    and ipv6_payload: "sm_ipv6_checked sm b \<Longrightarrow>
      sm_ipv6_payload sm b = drop 40 (take (v6_total_len (sm_ipv6 sm b)) b)"
    and ipv6_cut: "sm_ipv6_checked sm b \<Longrightarrow> b' = take (v6_total_len (sm_ipv6 sm b)) b \<Longrightarrow>
      sm_ipv6_checked sm b' \<and> sm_ipv6 sm b' = sm_ipv6 sm b"
    and tcp_fits: "sm_tcp_checked sm b \<Longrightarrow> 20 \<le> tcp_header_len (sm_tcp sm b) \<and> tcp_header_len (sm_tcp sm b) \<le> length b"
    and tcp_options: "sm_tcp_checked sm b \<Longrightarrow>
      sm_tcp_options sm b = drop 20 (take (tcp_header_len (sm_tcp sm b)) b)"
    and tcp_set_options: "sm_tcp_checked sm b \<Longrightarrow> length opts = length (sm_tcp_options sm b) \<Longrightarrow>
      sm_tcp_set_options sm b opts = take 20 b @ opts @ drop (tcp_header_len (sm_tcp sm b)) b"

section \<open>The headers as the standards lay them out\<close>

definition be16 :: "u8 list \<Rightarrow> nat \<Rightarrow> nat" where
  "be16 b i = unat (b ! i) * 256 + unat (b ! (i + 1))"

definition be32 :: "u8 list \<Rightarrow> nat \<Rightarrow> nat" where
  "be32 b i = be16 b i * 65536 + be16 b (i + 2)"

definition be128 :: "u8 list \<Rightarrow> nat \<Rightarrow> nat" where
  "be128 b i = ((be32 b i * 2 ^ 32 + be32 b (i + 4)) * 2 ^ 32 + be32 b (i + 8)) * 2 ^ 32 + be32 b (i + 12)"

fun words_sum :: "u8 list \<Rightarrow> nat" where
  "words_sum (a # b # bs) = unat a * 256 + unat b + words_sum bs"
| "words_sum [a] = unat a * 256"
| "words_sum [] = 0"

definition sum_holds :: "nat \<Rightarrow> bool" where
  "sum_holds n \<longleftrightarrow> 0 < n \<and> n mod 65535 = 0"

fun addr_sum :: "ip_addr \<Rightarrow> nat" where
  "addr_sum (V4 a) = sum_list (map (\<lambda>i. unat (take_bit 16 (drop_bit (16 * i) a))) [0..<2])"
| "addr_sum (V6 a) = sum_list (map (\<lambda>i. unat (take_bit 16 (drop_bit (16 * i) a))) [0..<8])"

definition ref_ipv4 :: "u8 list \<Rightarrow> v4_header" where
  "ref_ipv4 b =
     \<lparr>v4_header_len = 4 * (unat (b ! 0) mod 16), v4_total_len = be16 b 2,
      v4_ident = of_nat (be16 b 4), v4_dont_frag = bit (b ! 6) 6,
      v4_more_frags = bit (b ! 6) 5, v4_frag_offset = 8 * (be16 b 6 mod 8192),
      v4_hop_limit = b ! 8, v4_next_header = b ! 9, v4_src = of_nat (be32 b 12), v4_dst = of_nat (be32 b 16)\<rparr>"

definition ref_ipv6 :: "u8 list \<Rightarrow> v6_header" where
  "ref_ipv6 b =
     \<lparr>v6_total_len = 40 + be16 b 4, v6_next_header = b ! 6, v6_hop_limit = b ! 7,
      v6_src = of_nat (be128 b 8), v6_dst = of_nat (be128 b 24)\<rparr>"

definition ref_tcp :: "u8 list \<Rightarrow> tcp_header" where
  "ref_tcp b =
     \<lparr>tcp_src_port = of_nat (be16 b 0), tcp_dst_port = of_nat (be16 b 2),
      tcp_syn = bit (b ! 13) 1, tcp_ack = bit (b ! 13) 4, tcp_fin = bit (b ! 13) 0, tcp_rst = bit (b ! 13) 2,
      tcp_seq = of_nat (be32 b 4), tcp_ack_number = of_nat (be32 b 8),
      tcp_header_len = 4 * (unat (b ! 12) div 16)\<rparr>"

definition ref_udp :: "u8 list \<Rightarrow> udp_header" where
  "ref_udp b =
     \<lparr>udp_src_port = of_nat (be16 b 0), udp_dst_port = of_nat (be16 b 2), udp_checksum = of_nat (be16 b 6)\<rparr>"

definition smol_ref :: smol where
  "smol_ref =
     \<lparr>sm_ipv4_checked = (\<lambda>b. 20 \<le> length b \<and> v4_header_len (ref_ipv4 b) \<le> v4_total_len (ref_ipv4 b) \<and>
        v4_total_len (ref_ipv4 b) \<le> length b),
      sm_ipv4 = ref_ipv4,
      sm_ipv4_payload = (\<lambda>b. drop (v4_header_len (ref_ipv4 b)) (take (v4_total_len (ref_ipv4 b)) b)),
      sm_ipv4_verify = (\<lambda>b. sum_holds (words_sum (take (v4_header_len (ref_ipv4 b)) b))),
      sm_ipv6_checked = (\<lambda>b. 40 \<le> length b \<and> v6_total_len (ref_ipv6 b) \<le> length b),
      sm_ipv6 = ref_ipv6,
      sm_ipv6_payload = (\<lambda>b. drop 40 (take (v6_total_len (ref_ipv6 b)) b)),
      sm_tcp_checked = (\<lambda>b. 20 \<le> length b \<and> 20 \<le> tcp_header_len (ref_tcp b) \<and> tcp_header_len (ref_tcp b) \<le> length b),
      sm_tcp = ref_tcp,
      sm_udp_checked = (\<lambda>b. 8 \<le> length b \<and> 8 \<le> be16 b 4 \<and> be16 b 4 \<le> length b),
      sm_udp = ref_udp,
      sm_udp_verify = (\<lambda>b src dst. udp_checksum (ref_udp b) = 0 \<or>
        sum_holds (addr_sum src + addr_sum dst + 17 + be16 b 4 + words_sum (take (be16 b 4) b))),
      sm_icmpv4_verify = (\<lambda>b. sum_holds (words_sum b)),
      sm_icmpv6_verify = (\<lambda>b src dst. sum_holds (addr_sum (V6 src) + addr_sum (V6 dst) + 58 + length b + words_sum b)),
      sm_icmpv4_echo = (\<lambda>b. if length b < 8 then None else Some (of_nat (be16 b 4), of_nat (be16 b 6), drop 8 b)),
      sm_icmpv6_echo = (\<lambda>b. if length b < 8 then None else Some (of_nat (be16 b 4), of_nat (be16 b 6), drop 8 b)),
      sm_tcp_options = (\<lambda>b. drop 20 (take (tcp_header_len (ref_tcp b)) b)),
      sm_tcp_set_options = (\<lambda>b opts. take 20 b @ opts @ drop (tcp_header_len (ref_tcp b)) b)\<rparr>"

lemma ref_cut [simp]:
  "20 \<le> n \<Longrightarrow> ref_ipv4 (take n b) = ref_ipv4 b"
  "40 \<le> n \<Longrightarrow> ref_ipv6 (take n b) = ref_ipv6 b"
  by (simp_all add: ref_ipv4_def ref_ipv6_def be16_def be32_def be128_def)

lemma ref_ipv6_len [simp]: "40 \<le> v6_total_len (ref_ipv6 b)"
  by (simp add: ref_ipv6_def)

interpretation smol_ref: smol_laws smol_ref
  by unfold_locales (auto simp: smol_ref_def min_def)

section \<open>What passes the checks\<close>

text \<open>A result that passed, told without the errors it did not have.\<close>

lemma tcp_Inr:
  "tcp sm src dst payload = Inr s \<longleftrightarrow> sm_tcp_checked sm payload \<and>
     tcp_src_port (sm_tcp sm payload) \<noteq> 0 \<and> tcp_dst_port (sm_tcp sm payload) \<noteq> 0 \<and>
     s = \<lparr>sg_tuple = \<lparr>tp_src = \<lparr>sa_ip = src, sa_port = tcp_src_port (sm_tcp sm payload)\<rparr>,
                     tp_dst = \<lparr>sa_ip = dst, sa_port = tcp_dst_port (sm_tcp sm payload)\<rparr>\<rparr>,
          sg_syn = tcp_syn (sm_tcp sm payload), sg_ack = tcp_ack (sm_tcp sm payload),
          sg_fin = tcp_fin (sm_tcp sm payload), sg_rst = tcp_rst (sm_tcp sm payload),
          sg_seq = tcp_seq (sm_tcp sm payload), sg_ack_number = tcp_ack_number (sm_tcp sm payload),
          sg_header_len = tcp_header_len (sm_tcp sm payload),
          sg_payload_len = length payload - tcp_header_len (sm_tcp sm payload)\<rparr>"
  by (auto simp: tcp_def Let_def)

lemma udp_Inr:
  "udp sm src dst payload = Inr t \<Longrightarrow> \<exists>a b. t = TUdp a b \<and> a \<noteq> 0 \<and> b \<noteq> 0 \<and>
     (is_ipv4 src \<and> udp_checksum (sm_udp sm payload) = 0 \<or> sm_udp_verify sm payload src dst)"
  by (cases src) (auto simp: udp_def Let_def split: if_splits)

lemma icmp_Inr: "icmp sm src dst payload e = Inr t \<Longrightarrow> t = TIcmp e"
  by (auto simp: icmp_def split: if_splits)

definition tun_transport_ok :: "parsed \<Rightarrow> bool" where
  "tun_transport_ok p \<longleftrightarrow> (case ps_transport p of
      TTcp s \<Rightarrow> sa_ip (tp_src (sg_tuple s)) = ps_src p \<and> sa_ip (tp_dst (sg_tuple s)) = ps_dst p \<and>
        sa_port (tp_src (sg_tuple s)) \<noteq> 0 \<and> sa_port (tp_dst (sg_tuple s)) \<noteq> 0 \<and>
        20 \<le> sg_header_len s \<and> sg_header_len s + sg_payload_len s \<le> ps_len p
    | TUdp a b \<Rightarrow> a \<noteq> 0 \<and> b \<noteq> 0
    | TIcmp k \<Rightarrow> k = (if is_ipv4 (ps_src p) then ICMPV4_ECHO_REQUEST else ICMPV6_ECHO_REQUEST))"

fun martian :: "ip_addr \<Rightarrow> ip_addr \<Rightarrow> bool" where
  "martian (V4 s) (V4 d) = martian_v4 s d"
| "martian (V6 s) (V6 d) = martian_v6 s d"
| "martian _ _ = True"

text \<open>What the code relies on of a packet that passed.\<close>

definition parsed_ok :: "ext \<Rightarrow> ip_rewrite \<Rightarrow> u8 list \<Rightarrow> parsed \<Rightarrow> bool" where
  "parsed_ok x rewrite packet p \<longleftrightarrow> ps_len p \<le> length packet \<and> is_ipv4 (ps_src p) = is_ipv4 (ps_dst p) \<and>
     \<not> martian (ps_src p) (ps_dst p) \<and> rewrite_action x rewrite (ps_dst p) = None \<and> tun_transport_ok p"

lemma is_ipv6_not_ipv4: "is_ipv6 a \<longleftrightarrow> \<not> is_ipv4 a"
  by (cases a) auto

lemma read_transport_Inr:
  "read_transport sm src dst protocol payload len = Inr p \<Longrightarrow>
   ps_src p = src \<and> ps_dst p = dst \<and> ps_len p = len \<and>
   (case ps_transport p of
      TTcp s \<Rightarrow> protocol = IP_TCP \<and> tcp sm src dst payload = Inr s
    | TUdp a b \<Rightarrow> protocol = IP_UDP \<and> a \<noteq> 0 \<and> b \<noteq> 0 \<and>
        (is_ipv4 src \<and> udp_checksum (sm_udp sm payload) = 0 \<or> sm_udp_verify sm payload src dst)
    | TIcmp k \<Rightarrow> k = (if is_ipv4 src then ICMPV4_ECHO_REQUEST else ICMPV6_ECHO_REQUEST))"
  by (auto simp: read_transport_def map_sum_Inr is_ipv6_not_ipv4 split: sum.splits if_splits
      dest!: udp_Inr icmp_Inr)

context smol_laws
begin

lemma transport_ok:
  assumes "read_transport sm src dst protocol payload len = Inr p" "length payload \<le> len"
  shows "tun_transport_ok p"
  using read_transport_Inr [OF assms(1)] assms(2) tcp_fits [of payload]
  by (auto simp: tun_transport_ok_def tcp_Inr split: tun_transport.splits)

lemma read_ipv4_Passed:
  assumes "read_ipv4 sm x packet rewrite = Inr (Passed p)"
  shows "parsed_ok x rewrite packet p \<and> is_ipv4 (ps_src p)"
proof -
  let ?ip = "sm_ipv4 sm packet"
  from assms have c: "sm_ipv4_checked sm packet" "\<not> martian_v4 (v4_src ?ip) (v4_dst ?ip)"
      "rewrite_action x rewrite (V4 (v4_dst ?ip)) = None"
    and t: "read_transport sm (V4 (v4_src ?ip)) (V4 (v4_dst ?ip)) (v4_next_header ?ip)
      (sm_ipv4_payload sm packet) (v4_total_len ?ip) = Inr p"
    by (auto simp: read_ipv4_def Let_def map_sum_Inr split: if_splits option.splits)
  have "length (sm_ipv4_payload sm packet) \<le> v4_total_len ?ip"
    using ipv4_payload [OF c(1)] ipv4_fits [OF c(1)] by simp
  then show ?thesis
    using c t read_transport_Inr [OF t] transport_ok [OF t] ipv4_fits [OF c(1)] by (simp add: parsed_ok_def)
qed

lemma read_ipv6_Passed:
  assumes "read_ipv6 sm x packet rewrite = Inr (Passed p)"
  shows "parsed_ok x rewrite packet p \<and> is_ipv6 (ps_src p)"
proof -
  let ?ip = "sm_ipv6 sm packet"
  from assms have c: "sm_ipv6_checked sm packet" "\<not> martian_v6 (v6_src ?ip) (v6_dst ?ip)"
      "rewrite_action x rewrite (V6 (v6_dst ?ip)) = None"
    and t: "read_transport sm (V6 (v6_src ?ip)) (V6 (v6_dst ?ip)) (v6_next_header ?ip)
      (sm_ipv6_payload sm packet) (v6_total_len ?ip) = Inr p"
    by (auto simp: read_ipv6_def Let_def map_sum_Inr split: if_splits option.splits)
  have "length (sm_ipv6_payload sm packet) \<le> v6_total_len ?ip"
    using ipv6_payload [OF c(1)] ipv6_fits [OF c(1)] by simp
  then show ?thesis
    using c t read_transport_Inr [OF t] transport_ok [OF t] ipv6_fits [OF c(1)] by (simp add: parsed_ok_def)
qed

lemma classify_Passed:
  assumes "classify sm x packet ipv6 rewrite = Inr (Passed p)"
  shows "parsed_ok x rewrite packet p \<and> (is_ipv6 (ps_src p) \<longrightarrow> ipv6)"
  using assms read_ipv4_Passed [of x packet rewrite p] read_ipv6_Passed [of x packet rewrite p]
  by (auto simp: classify_def parse_packet_def is_ipv6_not_ipv4 split: if_splits)

text \<open>Cut to its length, a packet that passed reads the same, with no table too.\<close>

lemma read_ipv4_cut:
  assumes "read_ipv4 sm x packet rewrite = Inr (Passed p)"
  shows "read_ipv4 sm x (take (ps_len p) packet) ip_rewrite_default = Inr (Passed p)"
proof -
  let ?ip = "sm_ipv4 sm packet"
  let ?cut = "take (v4_total_len ?ip) packet"
  from assms have c: "sm_ipv4_checked sm packet" "20 \<le> v4_header_len ?ip" "sm_ipv4_verify sm packet"
      "\<not> martian_v4 (v4_src ?ip) (v4_dst ?ip)" "\<not> v4_more_frags ?ip" "v4_frag_offset ?ip = 0"
    and t: "read_transport sm (V4 (v4_src ?ip)) (V4 (v4_dst ?ip)) (v4_next_header ?ip)
      (sm_ipv4_payload sm packet) (v4_total_len ?ip) = Inr p"
    by (auto simp: read_ipv4_def Let_def map_sum_Inr split: if_splits option.splits)
  have cut: "sm_ipv4_checked sm ?cut" "sm_ipv4 sm ?cut = ?ip" "sm_ipv4_verify sm ?cut"
    using ipv4_cut [OF c(1,2) refl] c(3) by simp_all
  then have "sm_ipv4_payload sm ?cut = sm_ipv4_payload sm packet"
    using ipv4_payload [OF c(1)] ipv4_payload [OF cut(1)] by simp
  moreover have "ps_len p = v4_total_len ?ip"
    using read_transport_Inr [OF t] by simp
  ultimately show ?thesis
    using c t cut by (simp add: read_ipv4_def ip_rewrite_default_def)
qed

lemma read_ipv6_cut:
  assumes "read_ipv6 sm x packet rewrite = Inr (Passed p)"
  shows "read_ipv6 sm x (take (ps_len p) packet) ip_rewrite_default = Inr (Passed p)"
proof -
  let ?ip = "sm_ipv6 sm packet"
  let ?cut = "take (v6_total_len ?ip) packet"
  from assms have c: "sm_ipv6_checked sm packet"
      "\<not> martian_v6 (v6_src ?ip) (v6_dst ?ip)" "v6_next_header ?ip \<noteq> IP_IPV6_FRAG"
    and t: "read_transport sm (V6 (v6_src ?ip)) (V6 (v6_dst ?ip)) (v6_next_header ?ip)
      (sm_ipv6_payload sm packet) (v6_total_len ?ip) = Inr p"
    by (auto simp: read_ipv6_def Let_def map_sum_Inr split: if_splits option.splits)
  have cut: "sm_ipv6_checked sm ?cut" "sm_ipv6 sm ?cut = ?ip"
    using ipv6_cut [OF c(1) refl] by simp_all
  then have "sm_ipv6_payload sm ?cut = sm_ipv6_payload sm packet"
    using ipv6_payload [OF c(1)] ipv6_payload [OF cut(1)] by simp
  moreover have "ps_len p = v6_total_len ?ip"
    using read_transport_Inr [OF t] by simp
  ultimately show ?thesis
    using c t cut by (simp add: read_ipv6_def ip_rewrite_default_def)
qed

lemma passed_not_empty:
  "read_ipv4 sm x packet rewrite = Inr (Passed p) \<Longrightarrow> 0 < ps_len p"
  "read_ipv6 sm x packet rewrite = Inr (Passed p) \<Longrightarrow> 0 < ps_len p"
  using ipv4_fits [of packet] ipv6_fits [of packet]
  by (auto simp: read_ipv4_def read_ipv6_def Let_def map_sum_Inr split: if_splits option.splits
      dest!: read_transport_Inr)

lemma version_take: "0 < n \<Longrightarrow> version (take n packet) = version packet"
  by (cases packet; cases n) (simp_all add: version_def)

lemma parse_packet_cut:
  assumes "parse_packet sm x packet rewrite = Inr (Passed p)"
  shows "parse_packet sm x (take (ps_len p) packet) ip_rewrite_default = Inr (Passed p)"
  using assms read_ipv4_cut [of x packet rewrite p] read_ipv6_cut [of x packet rewrite p]
    passed_not_empty [of x packet rewrite p] version_take [of "ps_len p" packet]
  by (auto simp: parse_packet_def split: if_splits)

lemma segment_cut:
  assumes "classify sm x packet ipv6 rewrite = Inr (Passed p)" "ps_transport p = TTcp s"
  shows "segment sm x (take (ps_len p) packet) = Some s"
proof -
  have "parse_packet sm x packet rewrite = Inr (Passed p)"
    using assms(1) by (auto simp: classify_def split: if_splits)
  then show ?thesis
    using assms(2) by (simp add: segment_def parse_packet_cut)
qed

end

lemma refusal_tcp_Reset:
  "refusal_tcp sm x packet = Reset \<Longrightarrow> \<exists>s. segment sm x packet = Some s \<and> sg_syn s \<and> \<not> sg_ack s \<and> \<not> sg_rst s"
  by (auto simp: refusal_tcp_def split: option.splits if_splits)

text \<open>A reset answers only a SYN that can be read, so that \<open>rst_for\<close> never panics there.\<close>

lemma refusal_Reset:
  "refusal_of sm x packet = Reset \<Longrightarrow> \<exists>s. segment sm x packet = Some s \<and> sg_syn s \<and> \<not> sg_ack s \<and> \<not> sg_rst s"
  by (auto simp: refusal_of_def refusal_v4_def refusal_v6_def refusal_v6_rest_def Let_def refusal_tcp_Reset
      split: if_splits)

section \<open>The task that reads the device\<close>

definition dispatch_new :: "u64 \<Rightarrow> dispatch" where
  "dispatch_new limit = \<lparr>di_stats = stats_default, di_bytes = queued_bytes_new limit, di_queue = []\<rparr>"

definition ingress_drop :: "nat \<Rightarrow> dispatch \<Rightarrow> dispatch" where
  "ingress_drop i d = d\<lparr>di_bytes := reserved_drop (snd (snd (di_queue d ! i))) (di_bytes d),
     di_queue := take i (di_queue d) @ drop (Suc i) (di_queue d)\<rparr>"

text \<open>The device gives a packet, under any table and any answers of the channels, or a shard takes one.\<close>

inductive dispatch_step :: "smol \<Rightarrow> ext \<Rightarrow> (tuple \<Rightarrow> u64) \<Rightarrow> nat \<Rightarrow> dispatch \<Rightarrow> dispatch \<Rightarrow> bool"
  for sm x hash shards where
  received: "route sm x hash shards try_send ipv6 rewrite packet capacity d = (r, d') \<Longrightarrow>
    dispatch_step sm x hash shards d d'"
| taken: "i < length (di_queue d) \<Longrightarrow> dispatch_step sm x hash shards d (ingress_drop i d)"

definition ingress_ok :: "smol \<Rightarrow> ext \<Rightarrow> (tuple \<Rightarrow> u64) \<Rightarrow> nat \<Rightarrow> nat \<times> u8 list \<times> u64 \<Rightarrow> bool" where
  "ingress_ok sm x hash shards e \<longleftrightarrow>
     (\<exists>s. segment sm x (fst (snd e)) = Some s \<and> fst e = shard_of hash (sg_tuple s) shards)"

definition dispatch_inv :: "smol \<Rightarrow> ext \<Rightarrow> (tuple \<Rightarrow> u64) \<Rightarrow> nat \<Rightarrow> u64 \<Rightarrow> dispatch \<Rightarrow> bool" where
  "dispatch_inv sm x hash shards limit d \<longleftrightarrow>
     qb_limit (di_bytes d) = limit \<and> qb_queued (di_bytes d) \<le> limit \<and>
     unat (qb_queued (di_bytes d)) = (\<Sum>e\<leftarrow>di_queue d. unat (snd (snd e))) \<and>
     (\<forall>e\<in>set (di_queue d). ingress_ok sm x hash shards e)"

lemma reserve_then_drop: "reserve q n = Some (h, q') \<Longrightarrow> reserved_drop h q' = q"
  by (cases q) (auto simp: reserve_Some reserved_drop_def)

lemma route_effect:
  assumes "route sm x hash shards try_send ipv6 rewrite packet capacity d = (r, d')"
  shows "di_bytes d' = di_bytes d \<and> di_queue d' = di_queue d \<or>
    (\<exists>p s. r = None \<and> classify sm x packet ipv6 rewrite = Inr (Passed p) \<and> ps_transport p = TTcp s \<and>
       reserve (di_bytes d) capacity = Some (capacity, di_bytes d') \<and>
       di_queue d' = di_queue d @ [(shard_of hash (sg_tuple s) shards, take (ps_len p) packet, capacity)])"
  using assms
  by (auto simp: route_def Let_def reserve_then_drop reserve_Some
      split: sum.splits classified.splits tun_transport.splits option.splits send_answer.splits)

lemma route_inv:
  assumes "smol_laws sm" "dispatch_inv sm x hash shards limit d"
    and "route sm x hash shards try_send ipv6 rewrite packet capacity d = (r, d')"
  shows "dispatch_inv sm x hash shards limit d'"
  using route_effect [OF assms(3)]
proof (elim disjE exE conjE)
  fix p s
  assume "classify sm x packet ipv6 rewrite = Inr (Passed p)" "ps_transport p = TTcp s"
  then have "segment sm x (take (ps_len p) packet) = Some s"
    by (rule smol_laws.segment_cut [OF assms(1)])
  moreover assume "reserve (di_bytes d) capacity = Some (capacity, di_bytes d')"
    "di_queue d' = di_queue d @ [(shard_of hash (sg_tuple s) shards, take (ps_len p) packet, capacity)]"
  ultimately show ?thesis
    using assms(2) by (auto simp: dispatch_inv_def ingress_ok_def reserve_Some unat_add_u64)
qed (use assms(2) in \<open>simp add: dispatch_inv_def\<close>)

lemma ingress_drop_inv:
  assumes "dispatch_inv sm x hash shards limit d" "i < length (di_queue d)"
  shows "dispatch_inv sm x hash shards limit (ingress_drop i d)"
proof -
  let ?h = "snd (snd (di_queue d ! i))"
  let ?sum = "\<lambda>es :: (nat \<times> u8 list \<times> u64) list. \<Sum>e\<leftarrow>es. unat (snd (snd e))"
  have q: "di_queue d = take i (di_queue d) @ di_queue d ! i # drop (Suc i) (di_queue d)"
    using assms(2) by (simp add: id_take_nth_drop)
  have "?sum (di_queue d) = unat ?h + ?sum (take i (di_queue d) @ drop (Suc i) (di_queue d))"
    by (subst q) simp
  then have "unat (qb_queued (di_bytes d)) = unat ?h + ?sum (take i (di_queue d) @ drop (Suc i) (di_queue d))"
    using assms(1) by (simp add: dispatch_inv_def)
  then show ?thesis
    using assms(1)
    by (auto simp: dispatch_inv_def ingress_drop_def reserved_drop_def unat_sub_u64 word_le_nat_alt
        dest: in_set_takeD in_set_dropD)
qed

text \<open>
  C28. At every moment of every run of the task that reads the device, under any profile, any packets
  and any pace of the shards: each packet that waits for a shard is a TCP segment that the shard
  will read as the task did, it waits for the shard of its connection, and the bytes that wait
  are counted exactly and within their limit.
\<close>

theorem dispatch_invariant:
  assumes "smol_laws sm" "(dispatch_step sm x hash shards)\<^sup>*\<^sup>* (dispatch_new limit) d"
  shows "unat (qb_queued (di_bytes d)) = (\<Sum>e\<leftarrow>di_queue d. unat (snd (snd e))) \<and> qb_queued (di_bytes d) \<le> limit \<and>
    (\<forall>(i, p, h)\<in>set (di_queue d). \<exists>s. segment sm x p = Some s \<and> i = shard_of hash (sg_tuple s) shards)"
proof -
  have start: "dispatch_inv sm x hash shards limit (dispatch_new limit)"
    by (simp add: dispatch_inv_def dispatch_new_def queued_bytes_new_def)
  have step: "dispatch_step sm x hash shards d d' \<Longrightarrow> dispatch_inv sm x hash shards limit d \<Longrightarrow>
      dispatch_inv sm x hash shards limit d'" for d d'
    by (erule dispatch_step.cases) (auto intro: route_inv [OF assms(1)] ingress_drop_inv)
  from assms(2) have "dispatch_inv sm x hash shards limit d"
    by (induction rule: rtranclp_induct) (blast intro: start step)+
  then show ?thesis by (auto simp: dispatch_inv_def ingress_ok_def)
qed

text \<open>A SYN over IPv4 from 198.18.0.1, port 1000, to 1.1.1.1, port 443, that offers SACK.\<close>

definition syn_packet :: "u8 list" where
  "syn_packet = [69, 0, 0, 44, 0, 0, 0, 0, 64, 6, 178, 183, 198, 18, 0, 1, 1, 1, 1, 1, 3, 232, 1, 187, 0, 0, 0, 7, 0, 0, 0, 0, 96, 2, 0, 0, 0, 0, 0, 0, 4, 2, 1, 0]"

lemma syn_packet_ip:
  "ref_ipv4 syn_packet = \<lparr>v4_header_len = 20, v4_total_len = 44, v4_ident = 0, v4_dont_frag = False, v4_more_frags = False,
     v4_frag_offset = 0, v4_hop_limit = 64, v4_next_header = 6, v4_src = 0xC6120001, v4_dst = 0x01010101\<rparr>"
  "length syn_packet = 44" "version syn_packet = Some 4"
  "sum_holds (words_sum (take 20 syn_packet))"
  by (simp_all add: ref_ipv4_def syn_packet_def be16_def be32_def version_def sum_holds_def)

lemma syn_packet_tcp:
  "ref_tcp (drop 20 syn_packet) = \<lparr>tcp_src_port = 1000, tcp_dst_port = 443, tcp_syn = True, tcp_ack = False,
     tcp_fin = False, tcp_rst = False, tcp_seq = 7, tcp_ack_number = 0, tcp_header_len = 24\<rparr>"
  by (simp add: ref_tcp_def syn_packet_def be16_def be32_def)

lemma syn_packet_classified:
  "classify smol_ref ext_ref syn_packet False ip_rewrite_default =
     Inr (Passed \<lparr>ps_src = V4 0xC6120001, ps_dst = V4 0x01010101, ps_len = 44,
       ps_transport = TTcp \<lparr>sg_tuple = \<lparr>tp_src = \<lparr>sa_ip = V4 0xC6120001, sa_port = 1000\<rparr>,
           tp_dst = \<lparr>sa_ip = V4 0x01010101, sa_port = 443\<rparr>\<rparr>,
         sg_syn = True, sg_ack = False, sg_fin = False, sg_rst = False, sg_seq = 7, sg_ack_number = 0,
         sg_header_len = 24, sg_payload_len = 0\<rparr>\<rparr>)"
  by (simp add: classify_def parse_packet_def read_ipv4_def read_transport_def tcp_def smol_ref_def
      syn_packet_ip syn_packet_tcp ip_rewrite_default_def martian_v4_def odd_v4_def octets_def IP_TCP_def
      Let_def word_le_nat_alt)

theorem dispatch_invariant_witness:
  "\<exists>d :: dispatch. length (di_queue d) = 1 \<and>
     unat (qb_queued (di_bytes d)) = (\<Sum>e\<leftarrow>di_queue d. unat (snd (snd e))) \<and> qb_queued (di_bytes d) \<le> 100 \<and>
     (\<forall>(i, p, h)\<in>set (di_queue d). \<exists>s. segment smol_ref ext_ref p = Some s \<and> i = shard_of (\<lambda>_. 0) (sg_tuple s) 1)"
proof -
  obtain r d where r: "route smol_ref ext_ref (\<lambda>_. 0) 1 (\<lambda>_. SendOk) False ip_rewrite_default syn_packet 44 (dispatch_new 100) = (r, d)"
    by fastforce
  then have "length (di_queue d) = 1"
    by (auto simp: route_def syn_packet_classified dispatch_new_def queued_bytes_new_def reserve_def checked_add_def)
  moreover have "(dispatch_step smol_ref ext_ref (\<lambda>_. 0) 1)\<^sup>*\<^sup>* (dispatch_new 100) d"
    using received [OF r] by (rule r_into_rtranclp)
  note dispatch_invariant [OF smol_ref.smol_laws_axioms this]
  ultimately show ?thesis by blast
qed

text \<open>
  C29. A packet that passes the checks is what everything behind them takes it for: it is whole in the
  bytes that were read, its two addresses are of one family (IPv6 only while it is on) and are none
  that no packet has, no line of \<open>[IP Rewrite]\<close> is for it, a TCP header lies within it with its data,
  no port is 0, and an ICMP message is the echo request of its family.
\<close>

theorem classify_passed:
  assumes "smol_laws sm" "classify sm x packet ipv6 rewrite = Inr (Passed p)"
  shows "ps_len p \<le> length packet \<and> is_ipv4 (ps_src p) = is_ipv4 (ps_dst p) \<and> (is_ipv6 (ps_src p) \<longrightarrow> ipv6) \<and>
    \<not> martian (ps_src p) (ps_dst p) \<and> rewrite_action x rewrite (ps_dst p) = None \<and> tun_transport_ok p"
  using smol_laws.classify_Passed [OF assms] by (simp add: parsed_ok_def)

theorem classify_passed_witness:
  "\<exists>p. classify smol_ref ext_ref syn_packet False ip_rewrite_default = Inr (Passed p) \<and>
     ps_len p \<le> length syn_packet \<and> is_ipv4 (ps_src p) = is_ipv4 (ps_dst p) \<and> (is_ipv6 (ps_src p) \<longrightarrow> False) \<and>
     \<not> martian (ps_src p) (ps_dst p) \<and> rewrite_action ext_ref ip_rewrite_default (ps_dst p) = None \<and> tun_transport_ok p"
  using classify_passed [OF smol_ref.smol_laws_axioms syn_packet_classified] syn_packet_classified by blast

section \<open>The options of a SYN\<close>

text \<open>
  The table of options as a list: the options up to the end of the list, and what is after it.
\<close>

function options_read :: "u8 list \<Rightarrow> (u8 list list \<times> u8 list) option" where
  "options_read bs =
     (case bs of
        [] \<Rightarrow> Some ([], [])
      | kind # rest \<Rightarrow>
          if kind = OPTION_END then Some ([], bs)
          else let len = (if kind = OPTION_NOP then 1 else if rest = [] then 0 else unat (hd rest))
               in if (kind = OPTION_NOP \<or> 2 \<le> len) \<and> len \<le> length bs
                  then map_option (\<lambda>(os, r). (take len bs # os, r)) (options_read (drop len bs)) else None)"
  by pat_completeness auto
termination
  by (relation "measure length") (auto split: if_splits)

declare options_read.simps [simp del]

definition unsack :: "u8 list \<Rightarrow> u8 list list" where
  "unsack opt = (if opt = [OPTION_SACK_PERMITTED, 2] then [[OPTION_NOP], [OPTION_NOP]] else [opt])"

lemma option_at_append:
  "option_at (xs @ ys) (length xs) =
     (case ys of
        [] \<Rightarrow> option_at xs (length xs)
      | kind # rest \<Rightarrow>
          if kind = OPTION_END \<or> kind = OPTION_NOP then Some (kind, 1)
          else if rest = [] then None
          else if 2 \<le> unat (hd rest) \<and> unat (hd rest) \<le> length ys then Some (kind, unat (hd rest)) else None)"
  by (cases ys; cases "tl ys") (auto simp: option_at_def nth_append Let_def)

text \<open>One turn of each walk, seen from the option it is at.\<close>

lemma options_step:
  assumes "ys = kind # rest" "kind \<noteq> OPTION_END"
  shows "(\<exists>len. option_at (xs @ ys) (length xs) = Some (kind, len) \<and> 0 < len \<and> len \<le> length ys \<and>
       options_read ys = map_option (\<lambda>(os, r). (take len ys # os, r)) (options_read (drop len ys))) \<or>
     option_at (xs @ ys) (length xs) = None \<and> options_read ys = None"
  using assms option_at_append [of xs ys] options_read.simps [of ys] by (auto simp: Let_def)

lemma options_read_none:
  "options_read ys = None \<Longrightarrow> \<not> sound_from (xs @ ys) (length xs)"
proof (induction ys arbitrary: xs rule: length_induct)
  case (1 ys)
  then obtain kind rest where ys: "ys = kind # rest" "kind \<noteq> OPTION_END"
    by (subst (asm) (2) options_read.simps) (auto split: list.splits if_splits)
  from options_step [OF this, of xs] show ?case
  proof (elim disjE exE conjE)
    fix len
    assume len: "option_at (xs @ ys) (length xs) = Some (kind, len)" "0 < len" "len \<le> length ys"
      and "options_read ys = map_option (\<lambda>(os, r). (take len ys # os, r)) (options_read (drop len ys))"
    then have "length (drop len ys) < length ys" "options_read (drop len ys) = None"
      using 1(2) ys by simp_all
    then have "\<not> sound_from ((xs @ take len ys) @ drop len ys) (length (xs @ take len ys))"
      using 1(1) by blast
    then show ?thesis using len ys by (subst sound_from.simps) simp
  qed (use ys in \<open>simp add: sound_from.simps [of _ "length xs"]\<close>)
qed

lemma length_unsack: "length (concat (unsack opt)) = length opt"
  by (simp add: unsack_def)

lemma unat_u8_2: "unat (a :: u8) = 2 \<longleftrightarrow> a = 2"
  by (simp add: word_unat_eq_iff)

lemma unsack_take:
  "option_at (xs @ ys) (length xs) = Some (kind, len) \<Longrightarrow> ys = kind # rest \<Longrightarrow> len \<le> length ys \<Longrightarrow>
   concat (unsack (take len ys)) = (if kind = OPTION_SACK_PERMITTED \<and> len = 2 then [OPTION_NOP, OPTION_NOP] else take len ys)"
  by (cases rest) (auto simp: option_at_append unsack_def OPTION_SACK_PERMITTED_def OPTION_NOP_def OPTION_END_def
      take_Cons' unat_u8_2 split: if_splits)

lemma strip_turn:
  assumes "option_at (xs @ ys) (length xs) = Some (kind, len)" "ys = kind # rest" "kind \<noteq> OPTION_END" "len \<le> length ys"
  shows "strip_from (xs @ ys) (length xs) =
    strip_from (xs @ (if kind = OPTION_SACK_PERMITTED \<and> len = 2 then [OPTION_NOP, OPTION_NOP] else take len ys) @ drop len ys)
      (length xs + len)"
proof (cases rest)
  case Nil
  then show ?thesis using assms by (subst strip_from.simps) simp
next
  case (Cons a list)
  have "(xs @ kind # a # list)[length xs := x, length xs + 1 := y] = xs @ x # y # list" for x y :: u8
    by (simp add: list_update_append)
  then show ?thesis using assms Cons by (subst strip_from.simps) simp
qed

lemma options_read_some:
  "options_read ys = Some (os, r) \<Longrightarrow> ys = concat os @ r \<and> sound_from (xs @ ys) (length xs) \<and>
     strip_from (xs @ ys) (length xs) = xs @ concat (concat (map unsack os)) @ r"
proof (induction ys arbitrary: xs os rule: length_induct)
  case (1 ys)
  show ?case
  proof (cases "\<exists>kind rest. ys = kind # rest \<and> kind \<noteq> OPTION_END")
    case False
    then have "os = []" "ys = r" "ys = [] \<or> hd ys = OPTION_END"
      using 1(2) options_read.simps [of ys] by (cases ys; auto)+
    then show ?thesis
      by (cases ys) (auto simp: sound_from.simps [of _ "length xs"] strip_from.simps [of _ "length xs"] option_at_append)
  next
    case True
    then obtain kind rest where ys: "ys = kind # rest" "kind \<noteq> OPTION_END" by blast
    then obtain len where len: "option_at (xs @ ys) (length xs) = Some (kind, len)" "0 < len" "len \<le> length ys"
      and "options_read ys = map_option (\<lambda>(os, r). (take len ys # os, r)) (options_read (drop len ys))"
      using options_step [OF ys, of xs] 1(2) by auto
    then obtain os' where os: "os = take len ys # os'" "options_read (drop len ys) = Some (os', r)"
      using 1(2) by (cases "options_read (drop len ys)") auto
    have shorter: "length (drop len ys) < length ys" using len ys by simp
    define new where "new = concat (unsack (take len ys))"
    have len_new: "length new = len"
      unfolding new_def length_unsack using len(3) by simp
    have new: "strip_from (xs @ ys) (length xs) = strip_from ((xs @ new) @ drop len ys) (length (xs @ new))"
      using strip_turn [OF len(1) ys len(3)] len_new by (simp add: new_def unsack_take [OF len(1) ys(1) len(3)])
    have ih: "drop len ys = concat os' @ r"
      "sound_from ((xs @ take len ys) @ drop len ys) (length (xs @ take len ys))"
      "strip_from ((xs @ new) @ drop len ys) (length (xs @ new)) = (xs @ new) @ concat (concat (map unsack os')) @ r"
      using 1(1) shorter os(2) by blast+
    have "sound_from (xs @ ys) (length xs + len)"
      using ih(2) len(3) by simp
    then have "sound_from (xs @ ys) (length xs)"
      using len ys by (subst sound_from.simps) simp
    with ih show ?thesis
      using os(1) new append_take_drop_id [of len ys] by (simp add: new_def)
  qed
qed

lemma options_read_walks:
  assumes "options_read ys = Some (os, r)"
  shows "sound_from ys 0" "strip_from ys 0 = concat (concat (map unsack os)) @ r" "ys = concat os @ r"
  using options_read_some [OF assms, of "[]"] by (metis append_Nil list.size(3))+

text \<open>What an option that was read looks like, and that such options read back.\<close>

definition option_wf :: "u8 list \<Rightarrow> bool" where
  "option_wf opt \<longleftrightarrow> opt = [OPTION_NOP] \<or>
     2 \<le> length opt \<and> opt ! 0 \<noteq> OPTION_END \<and> opt ! 0 \<noteq> OPTION_NOP \<and> unat (opt ! 1) = length opt"

lemma options_read_cons:
  "option_wf opt \<Longrightarrow> options_read (opt @ zs) = map_option (\<lambda>(os, r). (opt # os, r)) (options_read zs)"
  by (subst options_read.simps)
    (cases opt; cases "tl opt"; auto simp: option_wf_def OPTION_END_def OPTION_NOP_def)

lemma options_read_concat:
  "\<forall>opt\<in>set os. option_wf opt \<Longrightarrow> options_read r = Some ([], r) \<Longrightarrow> options_read (concat os @ r) = Some (os, r)"
  by (induction os) (simp_all add: options_read_cons)

lemma options_read_wf:
  "options_read ys = Some (os, r) \<Longrightarrow> (\<forall>opt\<in>set os. option_wf opt) \<and> options_read r = Some ([], r)"
proof (induction ys arbitrary: os rule: length_induct)
  case (1 ys)
  show ?case
  proof (cases "\<exists>kind rest. ys = kind # rest \<and> kind \<noteq> OPTION_END")
    case True
    then obtain kind rest where ys: "ys = kind # rest" "kind \<noteq> OPTION_END" by blast
    then obtain len where len: "option_at ys 0 = Some (kind, len)" "0 < len" "len \<le> length ys"
      and "options_read ys = map_option (\<lambda>(os, r). (take len ys # os, r)) (options_read (drop len ys))"
      using options_step [OF ys, of "[]"] 1(2) by auto
    then obtain os' where os: "os = take len ys # os'" "options_read (drop len ys) = Some (os', r)"
      using 1(2) by (cases "options_read (drop len ys)") auto
    moreover have "option_wf (take len ys)"
      using len ys option_at_append [of "[]" ys]
      by (cases rest) (auto simp: option_wf_def nth_Cons' hd_conv_nth split: if_splits)
    moreover have "length (drop len ys) < length ys" using len ys by simp
    ultimately show ?thesis using 1(1) by (metis set_ConsD)
  qed (use 1(2) options_read.simps [of ys] in \<open>cases ys; auto\<close>)
qed

lemma unsack_wf: "option_wf opt \<Longrightarrow> \<forall>opt'\<in>set (unsack opt). option_wf opt' \<and> opt' \<noteq> [OPTION_SACK_PERMITTED, 2]"
  by (auto simp: unsack_def option_wf_def OPTION_SACK_PERMITTED_def OPTION_NOP_def)

lemma length_strip: "options_read ys = Some (os, r) \<Longrightarrow> length (strip_from ys 0) = length ys"
proof -
  assume r: "options_read ys = Some (os, r)"
  have "length (concat (concat (map unsack os))) = length (concat os)"
    by (induction os) (simp_all add: length_unsack)
  then show ?thesis using options_read_walks(2,3) [OF r] by (metis length_append)
qed

lemma strip_read:
  assumes "options_read ys = Some (os, r)"
  shows "options_read (strip_from ys 0) = Some (concat (map unsack os), r)"
proof -
  have "\<forall>opt\<in>set (concat (map unsack os)). option_wf opt"
    using options_read_wf [OF assms] unsack_wf by fastforce
  then show ?thesis
    using options_read_wf [OF assms] by (simp add: options_read_walks(2) [OF assms] options_read_concat)
qed

text \<open>
  The offer of selective acknowledgements is taken out of a SYN, and nothing else of the packet
  changes: the packet is as long as it was, its options read as before but for each offer, which
  reads as two no-operations, and what is after the end of the list stays.
\<close>

theorem strip_sack_options:
  assumes "smol_laws sm" "tcp_start sm packet = Some start" "start \<le> length packet"
    and "sm_tcp_checked sm (drop start packet)" "tcp_syn (sm_tcp sm (drop start packet))"
    and "options_read (sm_tcp_options sm (drop start packet)) = Some (os, r)"
  shows "\<exists>opts. options_read opts = Some (concat (map unsack os), r) \<and>
    length opts = length (sm_tcp_options sm (drop start packet)) \<and>
    strip_sack_permitted sm packet =
      take (start + 20) packet @ opts @ drop (start + tcp_header_len (sm_tcp sm (drop start packet))) packet"
proof -
  let ?opts = "sm_tcp_options sm (drop start packet)"
  have "strip_sack_permitted sm packet = take start packet @ sm_tcp_set_options sm (drop start packet) (strip_from ?opts 0)"
    using assms(2-5) options_read_walks(1) [OF assms(6)] by (simp add: strip_sack_permitted_def Let_def)
  also have "\<dots> = take start packet @ take 20 (drop start packet) @ strip_from ?opts 0 @
      drop (tcp_header_len (sm_tcp sm (drop start packet))) (drop start packet)"
    using smol_laws.tcp_set_options [OF assms(1,4) length_strip [OF assms(6)]] by simp
  finally show ?thesis
    using strip_read [OF assms(6)] length_strip [OF assms(6)]
    by (auto simp: take_add add.commute)
qed

lemma syn_packet_options:
  "tcp_start smol_ref syn_packet = Some 20" "sm_tcp_checked smol_ref (drop 20 syn_packet)"
  "tcp_syn (sm_tcp smol_ref (drop 20 syn_packet))" "sm_tcp_options smol_ref (drop 20 syn_packet) = [4, 2, 1, 0]"
  by (simp_all add: tcp_start_def smol_ref_def syn_packet_ip syn_packet_tcp IP_TCP_def)
    (simp add: syn_packet_def)

theorem strip_sack_options_witness:
  "\<exists>opts. options_read opts = Some (concat (map unsack [[4, 2], [1]]), [0]) \<and>
     length opts = length (sm_tcp_options smol_ref (drop 20 syn_packet)) \<and>
     strip_sack_permitted smol_ref syn_packet =
       take (20 + 20) syn_packet @ opts @ drop (20 + tcp_header_len (sm_tcp smol_ref (drop 20 syn_packet))) syn_packet"
  using syn_packet_options syn_packet_ip(2)
  by (intro strip_sack_options smol_ref.smol_laws_axioms)
    (simp_all add: options_read.simps OPTION_END_def OPTION_NOP_def)

text \<open>What is not such a SYN is left as it is.\<close>

lemma strip_sack_else:
  "options_read (sm_tcp_options sm (drop start packet)) = None \<Longrightarrow> tcp_start sm packet = Some start \<Longrightarrow>
     strip_sack_permitted sm packet = packet"
  "tcp_start sm packet = None \<Longrightarrow> strip_sack_permitted sm packet = packet"
  using options_read_none [of "sm_tcp_options sm (drop start packet)" "[]"]
  by (auto simp: strip_sack_permitted_def Let_def)

section \<open>Fake addresses and the space\<close>

lemma v4_of_octets:
  assumes "i < FAKE_COUNT"
  shows "\<exists>b c d. octets (v4_of i) = [198, b, c, d] \<and> (b = 18 \<and> c \<noteq> 0 \<or> b = 19)"
proof -
  note r = v4_of_range [OF assms]
  let ?a = "v4_of i"
  have "unat (drop_bit 24 ?a) = 198"
    using r by (simp only: unat_drop_bit_eq) (simp add: drop_bit_eq_div)
  then have a: "drop_bit 24 ?a = 198" by (simp add: word_unat_eq_iff)
  show ?thesis
  proof (cases "unat i < 65279")
    case True
    define k where "k = (1 + unat i) div 256"
    have k: "k < 255" using True by (simp add: k_def less_mult_imp_div_less)
    have "unat (drop_bit 16 ?a) = 50706"
      using r True by (simp only: unat_drop_bit_eq) (simp add: drop_bit_eq_div)
    then have b: "drop_bit 16 ?a = 50706" by (simp add: word_unat_eq_iff)
    have "unat ?a = 12980737 * 256 + (1 + unat i)" using r by simp
    then have "unat ?a div 256 = 12980737 + k"
      unfolding k_def by (simp only: div_mult_self3)
    then have "drop_bit 8 ?a = of_nat (12980737 + k)"
      using k by (simp add: word_unat_eq_iff unat_drop_bit_eq drop_bit_eq_div unat_div unat_of_nat del: of_nat_add)
    moreover have "(12980737 + k) mod 256 = 1 + k"
      using k mod_mult_self3 [of 50706 256 "1 + k"] by simp
    ultimately have "unat (ucast (drop_bit 8 ?a) :: u8) = 1 + k"
      using k by (simp add: unsigned_ucast_eq take_bit_eq_mod unat_of_nat del: of_nat_add)
    then have "(ucast (drop_bit 8 ?a) :: u8) \<noteq> 0" by auto
    then show ?thesis using a b by (auto simp: octets_list)
  next
    case False
    then have "unat (drop_bit 16 ?a) = 50707"
      using r by (simp only: unat_drop_bit_eq) (simp add: drop_bit_eq_div)
    then have "drop_bit 16 ?a = 50707" by (simp add: word_unat_eq_iff)
    then show ?thesis using a by (simp add: octets_list)
  qed
qed

lemma place_v4_of: "i < FAKE_COUNT \<Longrightarrow> place_of (V4 (v4_of i)) = Fake"
  using v4_of_octets [of i] by auto

lemma place_v6_of:
  assumes "i < FAKE_COUNT"
  shows "place_of (V6 (v6_of i)) = Fake"
proof -
  obtain h l where s: "segments (v6_of i) = [0xfd00, 0x6152, 0, 0, 0, 0, h, l]"
    and hl: "push_bit 16 (ucast h) OR ucast l = v4_of i"
    using v6_of_segments by blast
  have "h \<noteq> 0"
  proof
    assume "h = 0"
    then have "drop_bit 24 (v4_of i) = 0"
      unfolding hl [symmetric] by (intro bit_word_eqI) (auto simp: bit_simps dest: bit_imp_le_length)
    then show False using v4_of_octets [OF assms] by (auto simp: octets_list)
  qed
  then show ?thesis using s by simp
qed

lemma in_space_place:
  assumes "to_canonical ip = ip"
  shows "in_space ip \<longleftrightarrow> place_of ip \<noteq> Real"
proof (cases ip)
  case (V4 a)
  then show ?thesis by (auto simp: in_space_def octets_list)
next
  case (V6 a)
  obtain s0 s1 s2 s3 s4 s5 s6 s7 where "segments a = [s0, s1, s2, s3, s4, s5, s6, s7]"
    using segments_list by blast
  then show ?thesis
    using assms V6 by (simp add: in_space_def Let_def)
qed

lemma canonical_canonical: "to_canonical (to_canonical ip) = to_canonical ip"
  by (cases ip) simp_all

text \<open>
  C32. The TUN and the pool of fake addresses agree on the address space: every address the pool can
  give is one the TUN takes for a name, so that none is an address of the DNS responder, one of
  rurge's own, or a place on the Internet; and what the engine takes for rurge's space is exactly
  what the TUN does not take for the Internet, once an IPv4 address mapped into IPv6 is
  read as the IPv4 address it is.
\<close>

theorem fake_addresses_place:
  "(index_of ip = Some i \<longrightarrow> place_of ip = Fake) \<and>
   (in_space ip \<longleftrightarrow> place_of (to_canonical ip) \<noteq> Real)"
  using in_space_place [OF canonical_canonical, of ip] canonical_canonical [of ip] place_v4_of [of i] place_v6_of [of i]
  by (auto simp: index_of_iff in_space_def)

theorem fake_addresses_place_witness:
  "(index_of (V4 0xC6120105) = Some 4 \<and> place_of (V4 0xC6120105) = Fake) \<and>
   (in_space (V4 0xC6120002) \<longleftrightarrow> place_of (V4 0xC6120002) \<noteq> Real)"
  using fake_addresses_place [of "V4 0xC6120105" 4] fake_addresses_place [of "V4 0xC6120002" 0]
  by (simp add: index_of_bits_def FIRST_def FAKE_COUNT_def word_le_nat_alt)

end
