(* ===== verification/Rurge_Tun_Write_Facts.thy ===== *)
theory Rurge_Tun_Write_Facts
  imports Rurge_Tun_Write Rurge_Tun_Packet_Facts
begin

text \<open>
  What the TUN device writes: the fragments of a packet put together are the packet, and
  \<open>[IP Rewrite]\<close> handles every packet it matched. The locale \<open>smol_write_laws\<close> states what \<open>smoltcp\<close>
  documents of the headers it writes, told by what it reads of them.
\<close>

section \<open>A packet that [IP Rewrite] matched\<close>

definition hit_ok :: "u8 list \<Rightarrow> hit \<Rightarrow> bool" where
  "hit_ok packet h \<longleftrightarrow> ht_len h \<le> length packet \<and> is_ipv4 (ht_src h) = is_ipv4 (ht_dst h) \<and>
     (if is_ipv4 (ht_dst h) then 20 \<le> ht_header_len h \<and> ht_header_len h \<le> ht_len h else 40 \<le> ht_len h)"

lemma map_sum_Inr_Passed: "map_sum id Passed r \<noteq> Inr (Rewrite h)"
  by (cases r) auto

context smol_laws
begin

lemma classify_Rewrite:
  assumes "classify sm x packet ipv6 rewrite = Inr (Rewrite h)"
  shows "hit_ok packet h"
  using assms ipv4_fits [of packet] ipv6_fits [of packet]
  by (auto simp: classify_def parse_packet_def read_ipv4_def read_ipv6_def Let_def hit_ok_def map_sum_Inr_Passed
      split: if_splits option.splits)

lemma segment_family:
  assumes "segment sm x packet = Some s"
  shows "is_ipv4 (sa_ip (tp_src (sg_tuple s))) = is_ipv4 (sa_ip (tp_dst (sg_tuple s)))"
proof -
  obtain p where "parse_packet sm x packet ip_rewrite_default = Inr (Passed p)" "ps_transport p = TTcp s"
    using assms by (auto simp: segment_def split: sum.splits classified.splits tun_transport.splits)
  then have "classify sm x packet True ip_rewrite_default = Inr (Passed p)" by (simp add: classify_def)
  from classify_Passed [OF this] show ?thesis
    using \<open>ps_transport p = TTcp s\<close> by (auto simp: parsed_ok_def tun_transport_ok_def)
qed

lemma rst_for_Some:
  assumes "segment sm x packet = Some s"
  shows "\<exists>p. rst_for sm x sw packet = Some p"
  using segment_family [OF assms] assms
  by (cases "sa_ip (tp_src (sg_tuple s))"; cases "sa_ip (tp_dst (sg_tuple s))") (simp_all add: rst_for_def Let_def)

end

text \<open>Two fields of a packet that stand one behind the other, exchanged; every other byte is as it was.\<close>

definition exchanged :: "nat \<Rightarrow> nat \<Rightarrow> u8 list \<Rightarrow> u8 list \<Rightarrow> bool" where
  "exchanged first width p q \<longleftrightarrow>
     first + 2 * width \<le> length p \<and> length q = length p \<and>
     (\<forall>i<width. q ! (first + i) = p ! (first + width + i) \<and> q ! (first + width + i) = p ! (first + i)) \<and>
     (\<forall>i<length p. i < first \<or> first + 2 * width \<le> i \<longrightarrow> q ! i = p ! i)"

lemma swap_exchanges:
  assumes "swap packet first width = Some p"
  shows "exchanged first width packet p"
proof -
  have len: "first + 2 * width \<le> length packet"
    and p: "p = take first packet @ take width (drop (first + width) packet) @ take width (drop first packet) @
      drop (first + 2 * width) packet"
    using assms by (auto simp: swap_def split: if_splits)
  have "p ! (first + i) = packet ! (first + width + i)" "p ! (first + width + i) = packet ! (first + i)" if "i < width" for i
    using that len by (simp_all add: p nth_append)
  moreover have "p ! i = packet ! i" if "i < length packet" "i < first \<or> first + 2 * width \<le> i" for i
    using that len by (auto simp: p nth_append)
  moreover have "length p = length packet" using len by (simp add: p)
  ultimately show ?thesis using len by (simp add: exchanged_def)
qed

lemma ip_packet_Some: "is_ipv4 src = is_ipv4 dst \<Longrightarrow> \<exists>p. ip_packet sw src dst protocol transport = Some p"
  by (cases src; cases dst) simp_all

lemma offer_sent: "offer answer [p] src dst c = (b, c') \<Longrightarrow>
    tc_sent c' = (if answer = SendOk then tc_sent c @ [[p]] else tc_sent c) \<and> b = (answer = SendOk)"
  by (auto simp: offer_def count_drop_def split: send_answer.splits)

lemma reflect_answers:
  assumes "hit_ok packet h" "length packet = ht_len h"
  shows "\<exists>c' p. reflect answer h packet c = Some c' \<and>
    tc_sent c' = (if answer = SendOk then tc_sent c @ [[p]] else tc_sent c) \<and>
    (if is_ipv4 (ht_dst h) then exchanged 12 4 packet p else exchanged 8 16 packet p)"
proof -
  obtain p where p: "(if is_ipv4 (ht_dst h) then swap packet 12 4 else swap packet 8 16) = Some p"
    using assms by (auto simp: hit_ok_def swap_def split: if_splits)
  then have "if is_ipv4 (ht_dst h) then exchanged 12 4 packet p else exchanged 8 16 packet p"
    using swap_exchanges by (auto split: if_splits)
  moreover have "\<exists>c'. reflect answer h packet c = Some c' \<and>
      tc_sent c' = (if answer = SendOk then tc_sent c @ [[p]] else tc_sent c)"
    using p offer_sent [of answer p "ht_dst h" "ht_src h" c]
    by (cases "offer answer [p] (ht_dst h) (ht_src h) c") (auto simp: reflect_def split: bool.splits)
  ultimately show ?thesis by blast
qed

lemma refuse_sent:
  assumes "is_ipv4 src = is_ipv4 dst"
  shows "\<exists>c'. refuse sw answer src dst quoted c = Some c' \<and> (tc_sent c' = tc_sent c \<or> (\<exists>p. tc_sent c' = tc_sent c @ [[p]]))"
proof -
  obtain p where "prohibited sw src dst quoted = Some p"
    using ip_packet_Some [OF assms] unfolding prohibited_def by blast
  then show ?thesis by (cases answer) (simp_all add: refuse_def offer_def count_drop_def)
qed

lemma reject_answers:
  assumes "smol_laws sm" "hit_ok packet h" "length packet = ht_len h"
  shows "\<exists>c'. reject sm x sw answer now h packet c = Some c' \<and>
    (tc_sent c' = tc_sent c \<or> (\<exists>p. tc_sent c' = tc_sent c @ [[p]]))"
proof (cases "refusal_of sm x packet")
  case Nothing
  then show ?thesis by (simp add: reject_def Let_def count_drop_def)
next
  case Reset
  then obtain s where "segment sm x packet = Some s" using refusal_Reset by blast
  then obtain p where "rst_for sm x sw packet = Some p"
    using smol_laws.rst_for_Some [OF assms(1)] by blast
  then show ?thesis
    using Reset by (auto simp: reject_def Let_def count_drop_def offer_def split: prod.splits bool.splits send_answer.splits)
next
  case Prohibited
  have "is_ipv4 (ht_dst h) = is_ipv4 (ht_src h)" using assms(2) by (simp add: hit_ok_def)
  note sent = refuse_sent [OF this, of sw answer]
  obtain b l where allow: "allow now (tc_icmp_limit (count_drop IpRewrite (ht_src h) (ht_dst h) c)) = (b, l)"
    by fastforce
  let ?quote = "if is_ipv4 (ht_dst h) then min (ht_len h) (ht_header_len h + 8) else min (ht_len h) V6_QUOTE_MAX"
  have "\<not> length packet < ?quote" using assms(3) by simp
  then have "reject sm x sw answer now h packet c =
      (if b then refuse sw answer (ht_dst h) (ht_src h) (take ?quote packet)
         (count_drop IpRewrite (ht_src h) (ht_dst h) c\<lparr>tc_icmp_limit := l\<rparr>)
       else Some (count_drop IcmpLimited (ht_dst h) (ht_src h) (count_drop IpRewrite (ht_src h) (ht_dst h) c\<lparr>tc_icmp_limit := l\<rparr>)))"
    using Prohibited allow by (cases b) (simp_all add: reject_def Let_def)
  then show ?thesis
    using sent [of "take ?quote packet" "count_drop IpRewrite (ht_src h) (ht_dst h) c\<lparr>tc_icmp_limit := l\<rparr>"]
    by (cases b) (simp_all add: count_drop_def)
qed

section \<open>What smoltcp documents of what it writes\<close>

locale smol_write_laws = smol_laws sm for sm :: smol +
  fixes sw :: smol_write
  assumes ipv4_local: "20 \<le> length b \<Longrightarrow> take 20 b' = take 20 b \<Longrightarrow>
      sm_ipv4 sm b' = sm_ipv4 sm b \<and> (v4_header_len (sm_ipv4 sm b) = 20 \<longrightarrow> sm_ipv4_verify sm b' = sm_ipv4_verify sm b)"
    and ipv4_takes: "20 \<le> length b \<Longrightarrow> v4_header_len (sm_ipv4 sm b) \<le> v4_total_len (sm_ipv4 sm b) \<Longrightarrow>
      v4_total_len (sm_ipv4 sm b) \<le> length b \<Longrightarrow> sm_ipv4_checked sm b"
    and ipv4_write: "length b = 20 + r4_payload_len r \<Longrightarrow> length b < 65536 \<Longrightarrow>
      length (sw_ipv4 sw r b) = length b \<and> sm_ipv4_verify sm (sw_ipv4 sw r b) \<and>
      sm_ipv4 sm (sw_ipv4 sw r b) = \<lparr>v4_header_len = 20, v4_total_len = length b, v4_ident = 0, v4_dont_frag = True,
        v4_more_frags = False, v4_frag_offset = 0, v4_hop_limit = r4_hop_limit r, v4_next_header = r4_next_header r,
        v4_src = r4_src r, v4_dst = r4_dst r\<rparr>"
    and set_ident: "20 \<le> length b \<Longrightarrow> length (sw_ipv4_set_ident sw i b) = length b \<and>
      drop 20 (sw_ipv4_set_ident sw i b) = drop 20 b \<and>
      sm_ipv4 sm (sw_ipv4_set_ident sw i b) = (sm_ipv4 sm b)\<lparr>v4_ident := i\<rparr>"
    and set_dont_frag: "20 \<le> length b \<Longrightarrow> length (sw_ipv4_set_dont_frag sw f b) = length b \<and>
      drop 20 (sw_ipv4_set_dont_frag sw f b) = drop 20 b \<and>
      sm_ipv4 sm (sw_ipv4_set_dont_frag sw f b) = (sm_ipv4 sm b)\<lparr>v4_dont_frag := f\<rparr>"
    and set_more_frags: "20 \<le> length b \<Longrightarrow> length (sw_ipv4_set_more_frags sw f b) = length b \<and>
      drop 20 (sw_ipv4_set_more_frags sw f b) = drop 20 b \<and>
      sm_ipv4 sm (sw_ipv4_set_more_frags sw f b) = (sm_ipv4 sm b)\<lparr>v4_more_frags := f\<rparr>"
    and set_frag_offset: "20 \<le> length b \<Longrightarrow> unat n mod 8 = 0 \<Longrightarrow> length (sw_ipv4_set_frag_offset sw n b) = length b \<and>
      drop 20 (sw_ipv4_set_frag_offset sw n b) = drop 20 b \<and>
      sm_ipv4 sm (sw_ipv4_set_frag_offset sw n b) = (sm_ipv4 sm b)\<lparr>v4_frag_offset := unat n\<rparr>"
    and fill_checksum: "20 \<le> length b \<Longrightarrow> v4_header_len (sm_ipv4 sm b) = 20 \<Longrightarrow>
      length (sw_ipv4_fill_checksum sw b) = length b \<and> drop 20 (sw_ipv4_fill_checksum sw b) = drop 20 b \<and>
      sm_ipv4 sm (sw_ipv4_fill_checksum sw b) = sm_ipv4 sm b \<and> sm_ipv4_verify sm (sw_ipv4_fill_checksum sw b)"
    and ipv6_local: "40 \<le> length b \<Longrightarrow> take 40 b' = take 40 b \<Longrightarrow> sm_ipv6 sm b' = sm_ipv6 sm b"
    and ipv6_takes: "40 \<le> length b \<Longrightarrow> v6_total_len (sm_ipv6 sm b) \<le> length b \<Longrightarrow> sm_ipv6_checked sm b"
    and ipv6_write: "length b = 40 + r6_payload_len q \<Longrightarrow> r6_payload_len q < 65536 \<Longrightarrow>
      length (sw_ipv6 sw q b) = length b \<and>
      sm_ipv6 sm (sw_ipv6 sw q b) = \<lparr>v6_total_len = length b, v6_next_header = r6_next_header q,
        v6_hop_limit = r6_hop_limit q, v6_src = r6_src q, v6_dst = r6_dst q\<rparr>"
    and frag_write: "length b = 6 \<Longrightarrow> unat (rf_offset g) < 8192 \<Longrightarrow>
      length (sw_ipv6_frag sw g b) = 6 \<and> sw_ipv6_read_frag sw (sw_ipv6_frag sw g b) = g"

section \<open>Reassembly\<close>

text \<open>What the stack of an app reads of a packet that may be a fragment.\<close>

record piece =
  pc_src :: ip_addr
  pc_dst :: ip_addr
  pc_protocol :: u8
  pc_ident :: u32
  pc_offset :: nat
  pc_more :: bool
  pc_data :: "u8 list"

definition piece_of :: "smol \<Rightarrow> smol_write \<Rightarrow> bool \<Rightarrow> u8 list \<Rightarrow> piece option" where
  "piece_of sm sw is_v4 p =
     (if is_v4 then
        if \<not> sm_ipv4_checked sm p \<or> \<not> sm_ipv4_verify sm p then None
        else let ip = sm_ipv4 sm p
             in Some \<lparr>pc_src = V4 (v4_src ip), pc_dst = V4 (v4_dst ip), pc_protocol = v4_next_header ip,
                  pc_ident = ucast (v4_ident ip), pc_offset = v4_frag_offset ip, pc_more = v4_more_frags ip,
                  pc_data = sm_ipv4_payload sm p\<rparr>
      else if \<not> sm_ipv6_checked sm p then None
      else let ip = sm_ipv6 sm p; payload = sm_ipv6_payload sm p
           in if v6_next_header ip \<noteq> IP_IPV6_FRAG
              then Some \<lparr>pc_src = V6 (v6_src ip), pc_dst = V6 (v6_dst ip), pc_protocol = v6_next_header ip,
                     pc_ident = 0, pc_offset = 0, pc_more = False, pc_data = payload\<rparr>
              else if length payload < 8 then None
              else let f = sw_ipv6_read_frag sw (take 6 (drop 2 payload))
                   in Some \<lparr>pc_src = V6 (v6_src ip), pc_dst = V6 (v6_dst ip), pc_protocol = payload ! 0,
                        pc_ident = rf_ident f, pc_offset = 8 * unat (rf_offset f), pc_more = rf_more f,
                        pc_data = drop 8 payload\<rparr>)"

text \<open>The pieces are of these bytes, and all of them are there; the order does not matter.\<close>

definition fits_in :: "u8 list \<Rightarrow> piece \<Rightarrow> bool" where
  "fits_in bs pc \<longleftrightarrow> pc_offset pc + length (pc_data pc) \<le> length bs \<and>
     pc_data pc = take (length (pc_data pc)) (drop (pc_offset pc) bs) \<and>
     (pc_more pc \<longleftrightarrow> pc_offset pc + length (pc_data pc) < length bs)"

definition covers :: "piece \<Rightarrow> nat \<Rightarrow> bool" where
  "covers pc i \<longleftrightarrow> pc_offset pc \<le> i \<and> i < pc_offset pc + length (pc_data pc)"

definition reassembles :: "piece set \<Rightarrow> u8 list \<Rightarrow> bool" where
  "reassembles S bs \<longleftrightarrow> S \<noteq> {} \<and> (\<forall>pc\<in>S. fits_in bs pc) \<and> (\<forall>i<length bs. \<exists>pc\<in>S. covers pc i)"

lemma reassembles_length:
  assumes "reassembles S bs" "reassembles S bs'"
  shows "length bs \<le> length bs'"
proof (cases "bs = []")
  case False
  then have "length bs - 1 < length bs" by simp
  then obtain pc where pc: "pc \<in> S" "covers pc (length bs - 1)"
    using assms(1) unfolding reassembles_def by blast
  then have "fits_in bs pc" "fits_in bs' pc" using assms by (auto simp: reassembles_def)
  then show ?thesis using pc(2) False by (auto simp: fits_in_def covers_def)
qed simp

lemma reassembles_unique:
  assumes "reassembles S bs" "reassembles S bs'"
  shows "bs = bs'"
proof (rule nth_equalityI)
  show len: "length bs = length bs'"
    using reassembles_length [OF assms] reassembles_length [OF assms(2,1)] by simp
  fix i assume "i < length bs"
  then obtain pc where pc: "pc \<in> S" "covers pc i" using assms(1) by (auto simp: reassembles_def)
  have "xs ! i = pc_data pc ! (i - pc_offset pc)" if "fits_in xs pc" for xs
  proof -
    have "pc_data pc ! (i - pc_offset pc) = take (length (pc_data pc)) (drop (pc_offset pc) xs) ! (i - pc_offset pc)"
      using that by (metis fits_in_def)
    also have "i - pc_offset pc < length (pc_data pc)" "pc_offset pc + (i - pc_offset pc) = i" "pc_offset pc \<le> length xs"
      using that pc(2) by (auto simp: fits_in_def covers_def)
    then have "take (length (pc_data pc)) (drop (pc_offset pc) xs) ! (i - pc_offset pc) = xs ! i" by simp
    finally show ?thesis by simp
  qed
  then show "bs ! i = bs' ! i" using assms pc(1) by (metis reassembles_def)
qed

context smol_write_laws
begin

lemma write_ipv4_whole:
  assumes "length data + 20 < 65536"
  shows "piece_of sm sw True (write_ipv4 sw src dst protocol data None) =
    Some \<lparr>pc_src = V4 src, pc_dst = V4 dst, pc_protocol = protocol, pc_ident = 0, pc_offset = 0, pc_more = False, pc_data = data\<rparr> \<and>
    length (write_ipv4 sw src dst protocol data None) = 20 + length data"
proof -
  define r where "r = \<lparr>r4_src = src, r4_dst = dst, r4_next_header = protocol, r4_payload_len = length data, r4_hop_limit = HOP_LIMIT\<rparr>"
  define b where "b = sw_ipv4 sw r (replicate (20 + length data) 0)"
  define p where "p = take 20 b @ data"
  have b: "length b = 20 + length data" "sm_ipv4_verify sm b"
    "sm_ipv4 sm b = \<lparr>v4_header_len = 20, v4_total_len = 20 + length data, v4_ident = 0, v4_dont_frag = True,
       v4_more_frags = False, v4_frag_offset = 0, v4_hop_limit = HOP_LIMIT, v4_next_header = protocol, v4_src = src, v4_dst = dst\<rparr>"
    using ipv4_write [of "replicate (20 + length data) 0" r] assms by (simp_all add: b_def r_def)
  have p: "sm_ipv4 sm p = sm_ipv4 sm b" "sm_ipv4_verify sm p" "length p = 20 + length data"
    using ipv4_local [of b p] b by (simp_all add: p_def)
  then have "sm_ipv4_checked sm p" using ipv4_takes [of p] b by simp
  moreover from this have "sm_ipv4_payload sm p = data"
    using ipv4_payload [of p] p b by (simp add: p_def)
  ultimately show ?thesis
    using p b unfolding p_def b_def r_def by (simp add: write_ipv4_def piece_of_def Let_def IPV4_HEADER_def)
qed

lemma write_ipv4_fragment:
  assumes "length data + 20 < 65536" "fr_offset f < 65536" "fr_offset f mod 8 = 0"
  shows "piece_of sm sw True (write_ipv4 sw src dst protocol data (Some f)) =
    Some \<lparr>pc_src = V4 src, pc_dst = V4 dst, pc_protocol = protocol, pc_ident = ucast (ucast (fr_ident f) :: u16),
      pc_offset = fr_offset f, pc_more = fr_more f, pc_data = data\<rparr> \<and>
    length (write_ipv4 sw src dst protocol data (Some f)) = 20 + length data"
proof -
  define r where "r = \<lparr>r4_src = src, r4_dst = dst, r4_next_header = protocol, r4_payload_len = length data, r4_hop_limit = HOP_LIMIT\<rparr>"
  define b where "b = sw_ipv4 sw r (replicate (20 + length data) 0)"
  define p0 where "p0 = take 20 b @ data"
  define p where "p = sw_ipv4_fill_checksum sw (sw_ipv4_set_frag_offset sw (of_nat (fr_offset f))
    (sw_ipv4_set_more_frags sw (fr_more f) (sw_ipv4_set_dont_frag sw False (sw_ipv4_set_ident sw (ucast (fr_ident f)) p0))))"
  have b: "length b = 20 + length data"
    "sm_ipv4 sm b = \<lparr>v4_header_len = 20, v4_total_len = 20 + length data, v4_ident = 0, v4_dont_frag = True,
       v4_more_frags = False, v4_frag_offset = 0, v4_hop_limit = HOP_LIMIT, v4_next_header = protocol, v4_src = src, v4_dst = dst\<rparr>"
    using ipv4_write [of "replicate (20 + length data) 0" r] assms by (simp_all add: b_def r_def)
  have p0: "sm_ipv4 sm p0 = sm_ipv4 sm b" "length p0 = 20 + length data" "drop 20 p0 = data"
    using ipv4_local [of b p0] b by (simp_all add: p0_def)
  have off: "unat (of_nat (fr_offset f) :: u16) = fr_offset f"
    using assms(2) by (simp add: unat_of_nat)
  have p: "length p = 20 + length data" "drop 20 p = data" "sm_ipv4_verify sm p"
    "sm_ipv4 sm p = (sm_ipv4 sm b)\<lparr>v4_ident := ucast (fr_ident f), v4_dont_frag := False, v4_more_frags := fr_more f,
       v4_frag_offset := fr_offset f\<rparr>"
    using p0 off assms(3) b by (simp_all add: p_def set_ident set_dont_frag set_more_frags set_frag_offset fill_checksum)
  then have "sm_ipv4_checked sm p" using ipv4_takes [of p] b by simp
  moreover from this have "sm_ipv4_payload sm p = data"
    using ipv4_payload [of p] p b by (simp add: drop_take)
  ultimately show ?thesis
    using p b unfolding p_def p0_def b_def r_def by (simp add: write_ipv4_def piece_of_def Let_def IPV4_HEADER_def)
qed

lemma write_ipv6_whole:
  assumes "length data < 65536" "protocol \<noteq> IP_IPV6_FRAG"
  shows "piece_of sm sw False (write_ipv6 sw src dst protocol data) =
    Some \<lparr>pc_src = V6 src, pc_dst = V6 dst, pc_protocol = protocol, pc_ident = 0, pc_offset = 0, pc_more = False, pc_data = data\<rparr> \<and>
    length (write_ipv6 sw src dst protocol data) = 40 + length data"
proof -
  define r where "r = \<lparr>r6_src = src, r6_dst = dst, r6_next_header = protocol, r6_payload_len = length data, r6_hop_limit = HOP_LIMIT\<rparr>"
  define b where "b = sw_ipv6 sw r (replicate (40 + length data) 0)"
  define p where "p = take 40 b @ data"
  have b: "length b = 40 + length data"
    "sm_ipv6 sm b = \<lparr>v6_total_len = 40 + length data, v6_next_header = protocol, v6_hop_limit = HOP_LIMIT, v6_src = src, v6_dst = dst\<rparr>"
    using ipv6_write [of "replicate (40 + length data) 0" r] assms by (simp_all add: b_def r_def)
  have p: "sm_ipv6 sm p = sm_ipv6 sm b" "length p = 40 + length data"
    using ipv6_local [of b p] b by (simp_all add: p_def)
  then have "sm_ipv6_checked sm p" using ipv6_takes [of p] b by simp
  moreover from this have "sm_ipv6_payload sm p = data"
    using ipv6_payload [of p] p b by (simp add: p_def)
  ultimately show ?thesis
    using p b assms(2) unfolding p_def b_def r_def by (simp add: write_ipv6_def piece_of_def Let_def IPV6_HEADER_def)
qed

lemma write_ipv6_fragment:
  assumes "8 + length data < 65536" "fr_offset f < 65536" "fr_offset f mod 8 = 0"
  shows "piece_of sm sw False (ipv6_fragment sw src dst protocol data f) =
    Some \<lparr>pc_src = V6 src, pc_dst = V6 dst, pc_protocol = protocol, pc_ident = fr_ident f,
      pc_offset = fr_offset f, pc_more = fr_more f, pc_data = data\<rparr> \<and>
    length (ipv6_fragment sw src dst protocol data f) = 48 + length data"
proof -
  define r where "r = \<lparr>r6_src = src, r6_dst = dst, r6_next_header = IP_IPV6_FRAG, r6_payload_len = 8 + length data, r6_hop_limit = HOP_LIMIT\<rparr>"
  define g where "g = \<lparr>rf_offset = of_nat (fr_offset f div 8), rf_more = fr_more f, rf_ident = fr_ident f\<rparr>"
  define b where "b = sw_ipv6 sw r (replicate (48 + length data) 0)"
  define h where "h = sw_ipv6_frag sw g (take 6 (drop 42 (b[40 := protocol])))"
  define p where "p = take 40 b @ [protocol, b ! 41] @ h @ data"
  have b: "length b = 48 + length data"
    "sm_ipv6 sm b = \<lparr>v6_total_len = 48 + length data, v6_next_header = IP_IPV6_FRAG, v6_hop_limit = HOP_LIMIT, v6_src = src, v6_dst = dst\<rparr>"
    using ipv6_write [of "replicate (48 + length data) 0" r] assms by (simp_all add: b_def r_def)
  have off: "unat (of_nat (fr_offset f div 8) :: u16) = fr_offset f div 8" "fr_offset f div 8 < 8192"
    using assms(2) by (simp_all add: unat_of_nat)
  then have h: "length h = 6" "sw_ipv6_read_frag sw h = g"
    using frag_write [of "take 6 (drop 42 (b[40 := protocol]))" g] b by (simp_all add: h_def g_def)
  have p: "sm_ipv6 sm p = sm_ipv6 sm b" "length p = 48 + length data"
    using ipv6_local [of b p] b h by (simp_all add: p_def)
  then have c: "sm_ipv6_checked sm p" using ipv6_takes [of p] b by simp
  then have payload: "sm_ipv6_payload sm p = [protocol, b ! 41] @ h @ data"
    using ipv6_payload [of p] p b by (simp add: p_def)
  have "take 42 (b[40 := protocol]) = take 40 b @ [protocol, b ! 41]"
  proof -
    have "take 42 b = take 40 b @ [b ! 40, b ! 41]"
      using b(1) take_Suc_conv_app_nth [of 40 b] take_Suc_conv_app_nth [of 41 b] by simp
    then show ?thesis using b(1) by (simp add: take_update_swap list_update_append)
  qed
  then have "ipv6_fragment sw src dst protocol data f = p"
    using h b by (simp add: ipv6_fragment_def Let_def IPV6_HEADER_def IPV6_FRAGMENT_HEADER_def
        p_def h_def g_def b_def r_def)
  moreover have "piece_of sm sw False p =
    Some \<lparr>pc_src = V6 src, pc_dst = V6 dst, pc_protocol = protocol, pc_ident = fr_ident f,
      pc_offset = fr_offset f, pc_more = fr_more f, pc_data = data\<rparr>"
    using c p b payload h off assms(3) by (simp add: piece_of_def Let_def g_def) presburger
  ultimately show ?thesis using p by simp
qed

lemma fragment_packet_piece:
  assumes "is_ipv4 src = is_ipv4 dst" "(if is_ipv4 src then 20 else 8) + length data < 65536"
    and "fr_offset f < 65536" "fr_offset f mod 8 = 0"
  shows "\<exists>p. fragment_packet sw src dst protocol data f = Some p \<and>
    length p = (if is_ipv4 src then 20 else 48) + length data \<and>
    piece_of sm sw (is_ipv4 src) p = Some \<lparr>pc_src = src, pc_dst = dst, pc_protocol = protocol,
      pc_ident = (if is_ipv4 src then ucast (ucast (fr_ident f) :: u16) else fr_ident f),
      pc_offset = fr_offset f, pc_more = fr_more f, pc_data = data\<rparr>"
  using assms write_ipv4_fragment [of data f] write_ipv6_fragment [of data f]
  by (cases src; cases dst) (auto simp: add.commute)

end

definition piece_ok :: "smol \<Rightarrow> smol_write \<Rightarrow> ip_addr \<Rightarrow> ip_addr \<Rightarrow> u8 \<Rightarrow> u32 \<Rightarrow> nat \<Rightarrow> u8 list \<Rightarrow> u8 list \<Rightarrow> bool" where
  "piece_ok sm sw src dst protocol ident longest bs p \<longleftrightarrow> length p \<le> longest \<and>
     (\<exists>pc. piece_of sm sw (is_ipv4 src) p = Some pc \<and> fits_in bs pc \<and> pc_src pc = src \<and> pc_dst pc = dst \<and>
        pc_protocol pc = protocol \<and> pc_ident pc = ident)"

definition covered :: "smol \<Rightarrow> smol_write \<Rightarrow> bool \<Rightarrow> u8 list list \<Rightarrow> nat \<Rightarrow> bool" where
  "covered sm sw is_v4 ps i \<longleftrightarrow> (\<exists>p\<in>set ps. \<exists>pc. piece_of sm sw is_v4 p = Some pc \<and> covers pc i)"

lemma covered_Cons: "covered sm sw is_v4 (p # ps) i \<longleftrightarrow>
    (\<exists>pc. piece_of sm sw is_v4 p = Some pc \<and> covers pc i) \<or> covered sm sw is_v4 ps i"
  by (simp add: covered_def)

text \<open>The identification that is written: IPv4 has room for 16 bits.\<close>

definition wire_ident :: "ip_addr \<Rightarrow> u32 \<Rightarrow> u32" where
  "wire_ident src ident = (if is_ipv4 src then ucast (ucast ident :: u16) else ident)"

context smol_write_laws
begin

text \<open>One turn of the loop over the pieces.\<close>

lemma fragment_turn:
  assumes "is_ipv4 src = is_ipv4 dst" "length bs < 65536" "(if is_ipv4 src then 20 else 8) + piece < 65536"
    and "bs = pre @ data @ rest" "length data \<le> piece" "length pre mod 8 = 0" "length pre < length bs"
  shows "\<exists>p. fragment_packet sw src dst protocol data
        \<lparr>fr_ident = ident, fr_offset = length pre, fr_more = length pre + length data < length bs\<rparr> = Some p \<and>
      piece_ok sm sw src dst protocol (wire_ident src ident) ((if is_ipv4 src then 20 else 48) + piece) bs p \<and>
      (\<forall>i. length pre \<le> i \<and> i < length (pre @ data) \<longrightarrow> covered sm sw (is_ipv4 src) [p] i)"
proof -
  define f where "f = \<lparr>fr_ident = ident, fr_offset = length pre, fr_more = length pre + length data < length bs\<rparr>"
  define pc where "pc = \<lparr>pc_src = src, pc_dst = dst, pc_protocol = protocol,
    pc_ident = wire_ident src ident, pc_offset = length pre, pc_more = fr_more f, pc_data = data\<rparr>"
  have "(if is_ipv4 src then 20 else 8) + length data < 65536" "fr_offset f < 65536" "fr_offset f mod 8 = 0"
    using assms by (auto simp: f_def split: if_splits)
  from fragment_packet_piece [OF assms(1) this, of protocol]
  obtain p where "fragment_packet sw src dst protocol data f = Some p"
    "length p = (if is_ipv4 src then 20 else 48) + length data" "piece_of sm sw (is_ipv4 src) p = Some pc"
    unfolding pc_def wire_ident_def f_def by auto
  moreover have "fits_in bs pc" using assms(4) by (simp add: fits_in_def pc_def f_def)
  moreover have "covers pc i" if "length pre \<le> i" "i < length (pre @ data)" for i
    using that by (simp add: covers_def pc_def)
  ultimately show ?thesis
    using assms(5) unfolding f_def [symmetric] by (auto simp: piece_ok_def covered_def pc_def)
qed

lemma fragments_from_pieces:
  assumes "is_ipv4 src = is_ipv4 dst" "0 < piece" "piece mod 8 = 0" "length bs < 65536"
    and "(if is_ipv4 src then 20 else 8) + piece < 65536"
  shows "bs = pre @ rest \<Longrightarrow> rest \<noteq> [] \<longrightarrow> length pre mod 8 = 0 \<Longrightarrow>
    \<exists>ps. fragments_from sw src dst protocol ident piece (length bs) (length pre) rest = Some ps \<and>
      (\<forall>p\<in>set ps. piece_ok sm sw src dst protocol (wire_ident src ident) ((if is_ipv4 src then 20 else 48) + piece) bs p) \<and>
      (\<forall>i. length pre \<le> i \<and> i < length bs \<longrightarrow> covered sm sw (is_ipv4 src) ps i)"
proof (induction rest arbitrary: pre rule: length_induct)
  case (1 rest)
  show ?case
  proof (cases "rest = []")
    case False
    define data where "data = take piece rest"
    have bs: "bs = pre @ data @ drop piece rest" "length data \<le> piece" "length pre < length bs" "length pre mod 8 = 0"
      using 1(2,3) False by (simp_all add: data_def)
    obtain p where p: "fragment_packet sw src dst protocol data
        \<lparr>fr_ident = ident, fr_offset = length pre, fr_more = length pre + length data < length bs\<rparr> = Some p"
      "piece_ok sm sw src dst protocol (wire_ident src ident) ((if is_ipv4 src then 20 else 48) + piece) bs p"
      "\<forall>i. length pre \<le> i \<and> i < length (pre @ data) \<longrightarrow> covered sm sw (is_ipv4 src) [p] i"
      using fragment_turn [OF assms(1,4,5) bs(1,2,4,3), of protocol ident] by blast
    have "length (drop piece rest) < length rest" using False assms(2) by simp
    note ih = 1(1) [rule_format, OF this]
    have "bs = (pre @ data) @ drop piece rest" using bs(1) by simp
    note ih = ih [OF this]
    have "length (pre @ data) mod 8 = 0" if "drop piece rest \<noteq> []"
      using that bs(4) assms(3) by (auto simp: data_def mod_add_eq [symmetric])
    from ih [OF this] obtain ps where ps: "fragments_from sw src dst protocol ident piece (length bs) (length (pre @ data)) (drop piece rest) = Some ps"
      "\<forall>p\<in>set ps. piece_ok sm sw src dst protocol (wire_ident src ident) ((if is_ipv4 src then 20 else 48) + piece) bs p"
      "\<forall>i. length (pre @ data) \<le> i \<and> i < length bs \<longrightarrow> covered sm sw (is_ipv4 src) ps i"
      by blast
    have "fragments_from sw src dst protocol ident piece (length bs) (length pre) rest = Some (p # ps)"
      using p(1) ps(1) False assms(2) by (subst fragments_from.simps) (simp add: Let_def data_def)
    moreover have "covered sm sw (is_ipv4 src) (p # ps) i" if "length pre \<le> i" "i < length bs" for i
      using p(3) ps(3) that by (cases "i < length (pre @ data)") (auto simp: covered_def)
    ultimately show ?thesis using p(2) ps(2) by auto
  qed (use 1(2) in \<open>auto simp: fragments_from.simps\<close>)
qed

lemma ip_packet_piece:
  assumes "is_ipv4 src = is_ipv4 dst" "protocol \<noteq> IP_IPV6_FRAG" "length bs \<le> (if is_ipv4 src then 65515 else 65535)"
  shows "\<exists>p. ip_packet sw src dst protocol bs = Some p \<and>
    piece_ok sm sw src dst protocol 0 ((if is_ipv4 src then 20 else 40) + length bs) bs p \<and>
    (\<forall>i<length bs. covered sm sw (is_ipv4 src) [p] i)"
  using assms write_ipv4_whole [of bs] write_ipv6_whole [of bs protocol]
  by (cases src; cases dst) (auto simp: piece_ok_def covered_def fits_in_def covers_def)

lemma pieces_reassemble:
  assumes "\<forall>p\<in>set ps. piece_ok sm sw src dst protocol ident mtu bs p"
    and "\<forall>i<length bs. covered sm sw (is_ipv4 src) ps i" "ps \<noteq> []"
  shows "reassembles {pc. \<exists>p\<in>set ps. piece_of sm sw (is_ipv4 src) p = Some pc} bs"
proof -
  obtain p where "p \<in> set ps" using assms(3) by (cases ps) auto
  then have "{pc. \<exists>p\<in>set ps. piece_of sm sw (is_ipv4 src) p = Some pc} \<noteq> {}"
    using assms(1) unfolding piece_ok_def by blast
  moreover have "fits_in bs pc" if "p \<in> set ps" "piece_of sm sw (is_ipv4 src) p = Some pc" for p pc
    using assms(1) that by (auto simp: piece_ok_def)
  moreover have "\<exists>pc. (\<exists>p\<in>set ps. piece_of sm sw (is_ipv4 src) p = Some pc) \<and> covers pc i" if "i < length bs" for i
    using assms(2) that unfolding covered_def by blast
  ultimately show ?thesis by (auto simp: reassembles_def)
qed

lemma ip_packets_pieces:
  assumes "is_ipv4 src = is_ipv4 dst" "protocol \<noteq> IP_IPV6_FRAG" "length bs \<le> (if is_ipv4 src then 65515 else 65535)"
    and "1280 \<le> mtu"
  shows "\<exists>ps ident. fst (ip_packets sw src dst protocol bs mtu ids) = Some ps \<and> ps \<noteq> [] \<and>
    (\<forall>p\<in>set ps. piece_ok sm sw src dst protocol ident mtu bs p) \<and> (\<forall>i<length bs. covered sm sw (is_ipv4 src) ps i)"
proof (cases "(if is_ipv4 src then 20 else 40) + length bs \<le> mtu")
  case True
  then show ?thesis
    using ip_packet_piece [OF assms(1-3)]
    by (auto simp: ip_packets_def Let_def IPV4_HEADER_def IPV6_HEADER_def piece_ok_def intro!: exI [of _ 0])
next
  case False
  let ?piece = "piece_for src mtu"
  have bs: "bs \<noteq> []" using False assms(4) by (auto split: if_splits)
  have len: "length bs < 65536" using assms(3) by (auto split: if_splits)
  have piece: "0 < ?piece" "?piece mod 8 = 0" "(if is_ipv4 src then 20 else 48) + ?piece \<le> mtu"
    using assms(4) by (auto simp: piece_for_def IPV4_HEADER_def IPV6_HEADER_def IPV6_FRAGMENT_HEADER_def Let_def max_def)
  then have fits: "(if is_ipv4 src then 20 else 8) + ?piece < 65536"
    using False assms(3) by (auto split: if_splits)
  obtain ps where ps: "fragments_from sw src dst protocol ids ?piece (length bs) 0 bs = Some ps"
    "\<forall>p\<in>set ps. piece_ok sm sw src dst protocol (wire_ident src ids) ((if is_ipv4 src then 20 else 48) + ?piece) bs p"
    "\<forall>i<length bs. covered sm sw (is_ipv4 src) ps i"
    using fragments_from_pieces [OF assms(1) piece(1,2) len fits, of "[]" bs protocol ids] by auto
  moreover have "ps \<noteq> []" using ps(3) bs by (auto simp: covered_def)
  moreover have "fst (ip_packets sw src dst protocol bs mtu ids) = Some ps"
    using False ps(1) by (simp add: ip_packets_def Let_def IPV4_HEADER_def IPV6_HEADER_def ids_next_def split: if_splits)
  ultimately show ?thesis
    using piece(3) by (intro exI [of _ ps] exI [of _ "wire_ident src ids"]) (auto simp: piece_ok_def)
qed

end

end
