(* ===== verification/Rurge_Tun_Write_Ref.thy ===== *)
theory Rurge_Tun_Write_Ref
  imports Rurge_Tun_Write_Facts
begin

text \<open>
  The headers \<open>smoltcp\<close> writes as the standards lay them out, which have the laws of
  \<open>smol_write_laws\<close>, and the properties of what the TUN device writes.
\<close>

section \<open>The headers as the standards lay them out\<close>

definition w16 :: "nat \<Rightarrow> u8 list" where
  "w16 n = [of_nat (n div 256), of_nat n]"

definition w32 :: "nat \<Rightarrow> u8 list" where
  "w32 n = w16 (n div 65536) @ w16 n"

definition w128 :: "nat \<Rightarrow> u8 list" where
  "w128 n = w32 (n div 2 ^ 96) @ w32 (n div 2 ^ 64) @ w32 (n div 2 ^ 32) @ w32 n"

lemma length_w [simp]: "length (w16 n) = 2" "length (w32 n) = 4" "length (w128 n) = 16"
  by (simp_all add: w16_def w32_def w128_def)

lemma mod_digits: "n mod (b * b) = n div b mod b * b + n mod b" for n b :: nat
  by (simp add: mod_mult2_eq mult.commute)

lemma be16_w16: "length xs = i \<Longrightarrow> be16 (xs @ w16 n @ ys) i = n mod 65536"
  using mod_digits [of n 256] by (auto simp: be16_def w16_def nth_append unat_of_nat)

lemma be32_w32: "length xs = i \<Longrightarrow> be32 (xs @ w32 n @ ys) i = n mod 2 ^ 32"
  using mod_digits [of n 65536] be16_w16 [of xs i "n div 65536" "w16 n @ ys"]
    be16_w16 [of "xs @ w16 (n div 65536)" "i + 2" n ys]
  by (simp add: be32_def w32_def)

lemma be128_w128: "length xs = i \<Longrightarrow> be128 (xs @ w128 n @ ys) i = n mod 2 ^ 128"
proof -
  assume i: "length xs = i"
  let ?b = "xs @ w128 n @ ys"
  have "be32 ?b i = n div 2 ^ 96 mod 2 ^ 32" "be32 ?b (i + 4) = n div 2 ^ 64 mod 2 ^ 32"
    "be32 ?b (i + 8) = n div 2 ^ 32 mod 2 ^ 32" "be32 ?b (i + 12) = n mod 2 ^ 32"
    using i be32_w32 [of xs i "n div 2 ^ 96" "w32 (n div 2 ^ 64) @ w32 (n div 2 ^ 32) @ w32 n @ ys"]
      be32_w32 [of "xs @ w32 (n div 2 ^ 96)" "i + 4" "n div 2 ^ 64" "w32 (n div 2 ^ 32) @ w32 n @ ys"]
      be32_w32 [of "xs @ w32 (n div 2 ^ 96) @ w32 (n div 2 ^ 64)" "i + 8" "n div 2 ^ 32" "w32 n @ ys"]
      be32_w32 [of "xs @ w32 (n div 2 ^ 96) @ w32 (n div 2 ^ 64) @ w32 (n div 2 ^ 32)" "i + 12" n ys]
    by (simp_all add: w128_def)
  moreover have "n mod 2 ^ 128 = n div 2 ^ 64 mod 2 ^ 64 * 2 ^ 64 + n mod 2 ^ 64"
    using mod_digits [of n "2 ^ 64"] by simp
  moreover have "m mod 2 ^ 64 = m div 2 ^ 32 mod 2 ^ 32 * 2 ^ 32 + m mod 2 ^ 32" for m :: nat
    using mod_digits [of m "2 ^ 32"] by simp
  moreover have "n div 2 ^ 64 div 2 ^ 32 = n div 2 ^ 96"
    by (simp add: div_mult2_eq [symmetric])
  ultimately show ?thesis by (simp add: be128_def)
qed

definition flags_of :: "v4_header \<Rightarrow> nat" where
  "flags_of h = (if v4_dont_frag h then 16384 else 0) + (if v4_more_frags h then 8192 else 0) + v4_frag_offset h div 8"

definition put4 :: "v4_header \<Rightarrow> u8 list \<Rightarrow> u8 list" where
  "put4 h b = [of_nat (64 + v4_header_len h div 4), b ! 1] @ w16 (v4_total_len h) @ w16 (unat (v4_ident h)) @
     w16 (flags_of h) @ [v4_hop_limit h, v4_next_header h, b ! 10, b ! 11] @ w32 (unat (v4_src h)) @
     w32 (unat (v4_dst h)) @ drop 20 b"

definition v4_writable :: "v4_header \<Rightarrow> bool" where
  "v4_writable h \<longleftrightarrow> v4_header_len h < 64 \<and> v4_header_len h mod 4 = 0 \<and> v4_total_len h < 65536 \<and>
     v4_frag_offset h < 65536 \<and> v4_frag_offset h mod 8 = 0"

lemma length_put4 [simp]: "length (put4 h b) = 20 + (length b - 20)"
  by (simp add: put4_def)

lemma drop_put4 [simp]: "drop 20 (put4 h b) = drop 20 b"
  by (simp add: put4_def w16_def w32_def)

lemma bit_u8: "k < 8 \<Longrightarrow> bit (of_nat n :: u8) k \<longleftrightarrow> odd (n div 2 ^ k)"
proof -
  assume k: "k < 8"
  have "bit (of_nat n :: u8) k \<longleftrightarrow> bit (unat (of_nat n :: u8)) k"
    using k by (simp add: bit_unsigned_iff)
  also have "\<dots> \<longleftrightarrow> odd (n div 2 ^ k)"
    using k by (simp add: unsigned_of_nat bit_take_bit_iff) (simp add: bit_iff_odd)
  finally show ?thesis .
qed

lemma unat_less [simp]: "unat (a :: u16) < 65536" "unat (b :: u32) < 4294967296" "unat (c :: 128 word) < 2 ^ 128"
  using unsigned_less [of a] unsigned_less [of b] unsigned_less [of c] by simp_all

lemma flags_bits:
  assumes "v4_frag_offset h < 65536" "v4_frag_offset h mod 8 = 0"
  shows "bit (of_nat (flags_of h div 256) :: u8) 6 = v4_dont_frag h" "bit (of_nat (flags_of h div 256) :: u8) 5 = v4_more_frags h"
    "8 * (flags_of h mod 65536 mod 8192) = v4_frag_offset h"
proof -
  define q where "q = v4_frag_offset h div 8"
  have q: "q < 8192" "8 * q = v4_frag_offset h" using assms by (auto simp: q_def)
  define c where "c = q div 256"
  have c: "c < 32" using q by (auto simp: c_def)
  have flags: "flags_of h div 256 = (if v4_dont_frag h then 64 else 0) + (if v4_more_frags h then 32 else 0) + c"
    using div_mult_self3 [of 256 96 q] div_mult_self3 [of 256 64 q] div_mult_self3 [of 256 32 q]
    by (simp add: flags_of_def q_def [symmetric] c_def)
  have "(96 + c) div 64 = 1" "(64 + c) div 64 = 1" "(32 + c) div 64 = 0" "c div 64 = 0"
    "(96 + c) div 32 = 3" "(64 + c) div 32 = 2" "(32 + c) div 32 = 1" "c div 32 = 0"
    using c by (auto intro!: div_nat_eqI)
  then show "bit (of_nat (flags_of h div 256) :: u8) 6 = v4_dont_frag h" "bit (of_nat (flags_of h div 256) :: u8) 5 = v4_more_frags h"
    unfolding flags by (simp_all add: bit_u8 del: of_nat_add)
  show "8 * (flags_of h mod 65536 mod 8192) = v4_frag_offset h"
    using q mod_mult_self3 [of 3 8192 q] mod_mult_self3 [of 2 8192 q]
    by (auto simp: flags_of_def q_def [symmetric])
qed

lemma ref_put4:
  assumes "v4_writable h"
  shows "ref_ipv4 (put4 h b) = h"
proof -
  let ?p = "put4 h b"
  have "be16 ?p 2 = v4_total_len h"
    using assms be16_w16 [of "[of_nat (64 + v4_header_len h div 4), b ! 1]" 2 "v4_total_len h"]
    by (simp add: put4_def v4_writable_def)
  moreover have "be16 ?p 4 = unat (v4_ident h)"
    using be16_w16 [of "[of_nat (64 + v4_header_len h div 4), b ! 1] @ w16 (v4_total_len h)" 4 "unat (v4_ident h)"] by (simp add: put4_def)
  moreover have "be16 ?p 6 = flags_of h mod 65536"
    using be16_w16 [of "[of_nat (64 + v4_header_len h div 4), b ! 1] @ w16 (v4_total_len h) @ w16 (unat (v4_ident h))" 6 "flags_of h"]
    by (simp add: put4_def)
  moreover have "be32 ?p 12 = unat (v4_src h)"
    using be32_w32 [of "[of_nat (64 + v4_header_len h div 4), b ! 1] @ w16 (v4_total_len h) @ w16 (unat (v4_ident h)) @
        w16 (flags_of h) @ [v4_hop_limit h, v4_next_header h, b ! 10, b ! 11]" 12 "unat (v4_src h)"] by (simp add: put4_def)
  moreover have "be32 ?p 16 = unat (v4_dst h)"
    using be32_w32 [of "[of_nat (64 + v4_header_len h div 4), b ! 1] @ w16 (v4_total_len h) @ w16 (unat (v4_ident h)) @
        w16 (flags_of h) @ [v4_hop_limit h, v4_next_header h, b ! 10, b ! 11] @ w32 (unat (v4_src h))" 16 "unat (v4_dst h)"] by (simp add: put4_def)
  moreover have "?p ! 0 = of_nat (64 + v4_header_len h div 4)" "?p ! 6 = of_nat (flags_of h div 256)"
    "?p ! 8 = v4_hop_limit h" "?p ! 9 = v4_next_header h"
    by (simp_all add: put4_def w16_def)
  moreover have "4 * (unat (of_nat (64 + v4_header_len h div 4) :: u8) mod 16) = v4_header_len h"
    using assms mod_mult_self3 [of 4 16 "v4_header_len h div 4"]
    by (auto simp: v4_writable_def unat_of_nat simp del: of_nat_add)
  ultimately show ?thesis
    using assms flags_bits [of h] by (simp add: ref_ipv4_def v4_writable_def)
qed

lemma be16_less: "be16 b i < 65536"
proof -
  have "unat (c :: u8) < 256" for c using unsigned_less [of c] by simp
  from this [of "b ! i"] this [of "b ! (i + 1)"] show ?thesis by (simp add: be16_def)
qed

lemma ref_ipv4_writable: "v4_writable (ref_ipv4 b)"
  by (simp add: v4_writable_def ref_ipv4_def be16_less)

text \<open>The checksum that makes a sum hold.\<close>

definition checksum :: "nat \<Rightarrow> nat" where
  "checksum n = 65535 - n mod 65535"

lemma checksum_holds: "sum_holds (n + checksum n)" "checksum n < 65536"
proof -
  have "n mod 65535 < 65535" by simp
  then have "n + checksum n = n div 65535 * 65535 + 65535"
    unfolding checksum_def using div_mult_mod_eq [of n 65535] by linarith
  then show "sum_holds (n + checksum n)" by (simp add: sum_holds_def)
qed (simp add: checksum_def)

definition fill4 :: "u8 list \<Rightarrow> u8 list" where
  "fill4 b = take 10 b @ w16 (checksum (words_sum (take 10 b) + words_sum (take 8 (drop 12 b)))) @ drop 12 b"

lemma words_sum_append: "even (length xs) \<Longrightarrow> words_sum (xs @ ys) = words_sum xs + words_sum ys"
  by (induction xs rule: words_sum.induct) auto

lemma words_sum_w16: "words_sum (w16 n) = n mod 65536"
  using mod_digits [of n 256] by (simp add: w16_def unat_of_nat)

lemma fill4_laws:
  assumes "20 \<le> length b"
  shows "length (fill4 b) = length b" "drop 20 (fill4 b) = drop 20 b" "ref_ipv4 (fill4 b) = ref_ipv4 b"
    "sum_holds (words_sum (take 20 (fill4 b)))"
proof -
  show "length (fill4 b) = length b" "drop 20 (fill4 b) = drop 20 b"
    using assms by (simp_all add: fill4_def)
  have "fill4 b ! i = b ! i" if "i < 10 \<or> 12 \<le> i" for i
    using that assms by (auto simp: fill4_def nth_append)
  then show "ref_ipv4 (fill4 b) = ref_ipv4 b"
    by (simp add: ref_ipv4_def be16_def be32_def)
  have "take 20 (fill4 b) = take 10 b @ w16 (checksum (words_sum (take 10 b) + words_sum (take 8 (drop 12 b)))) @ take 8 (drop 12 b)"
    using assms by (simp add: fill4_def)
  then show "sum_holds (words_sum (take 20 (fill4 b)))"
    using checksum_holds [of "words_sum (take 10 b) + words_sum (take 8 (drop 12 b))"] assms
    by (simp add: words_sum_append words_sum_w16 ac_simps)
qed

definition put6 :: "v6_repr \<Rightarrow> u8 list \<Rightarrow> u8 list" where
  "put6 r b = [96, 0, 0, 0] @ w16 (r6_payload_len r) @ [r6_next_header r, r6_hop_limit r] @
     w128 (unat (r6_src r)) @ w128 (unat (r6_dst r)) @ drop 40 b"

lemma ref_put6:
  assumes "r6_payload_len r < 65536"
  shows "ref_ipv6 (put6 r b) = \<lparr>v6_total_len = 40 + r6_payload_len r, v6_next_header = r6_next_header r,
    v6_hop_limit = r6_hop_limit r, v6_src = r6_src r, v6_dst = r6_dst r\<rparr>"
proof -
  let ?p = "put6 r b"
  have "be16 ?p 4 = r6_payload_len r"
    using assms be16_w16 [of "[96, 0, 0, 0]" 4 "r6_payload_len r"] by (simp add: put6_def)
  moreover have "be128 ?p 8 = unat (r6_src r)"
    using be128_w128 [of "[96, 0, 0, 0] @ w16 (r6_payload_len r) @ [r6_next_header r, r6_hop_limit r]" 8 "unat (r6_src r)"]
      unat_less(3) [of "r6_src r"] by (simp add: put6_def)
  moreover have "be128 ?p 24 = unat (r6_dst r)"
    using be128_w128 [of "[96, 0, 0, 0] @ w16 (r6_payload_len r) @ [r6_next_header r, r6_hop_limit r] @ w128 (unat (r6_src r))" 24 "unat (r6_dst r)"]
      unat_less(3) [of "r6_dst r"] by (simp add: put6_def)
  moreover have "?p ! 6 = r6_next_header r" "?p ! 7 = r6_hop_limit r"
    by (simp_all add: put6_def w16_def)
  ultimately show ?thesis by (simp add: ref_ipv6_def)
qed

definition put_frag :: "v6_frag_repr \<Rightarrow> u8 list \<Rightarrow> u8 list" where
  "put_frag g b = w16 (8 * unat (rf_offset g) + (if rf_more g then 1 else 0)) @ w32 (unat (rf_ident g))"

definition read_frag :: "u8 list \<Rightarrow> v6_frag_repr" where
  "read_frag b = \<lparr>rf_offset = of_nat (be16 b 0 div 8), rf_more = odd (be16 b 0), rf_ident = of_nat (be32 b 2)\<rparr>"

lemma read_put_frag:
  assumes "unat (rf_offset g) < 8192"
  shows "read_frag (put_frag g b) = g"
proof -
  let ?n = "8 * unat (rf_offset g) + (if rf_more g then 1 else 0)"
  have "be16 (put_frag g b) 0 = ?n"
    using assms be16_w16 [of "[]" 0 ?n] by (simp add: put_frag_def)
  moreover have "be32 (put_frag g b) 2 = unat (rf_ident g)"
    using be32_w32 [of "w16 ?n" 2 "unat (rf_ident g)" "[]"] by (simp add: put_frag_def)
  moreover have "?n div 8 = unat (rf_offset g)" "odd ?n = rf_more g" by auto
  ultimately show ?thesis by (simp add: read_frag_def)
qed

lemma length_put_frag: "length (put_frag g b) = 6"
  by (simp add: put_frag_def)

lemma length_put6: "length (put6 r b) = 40 + (length b - 40)"
  by (simp add: put6_def)

definition icmp_sum :: "ip_addr \<Rightarrow> ip_addr \<Rightarrow> u8 list \<Rightarrow> nat" where
  "icmp_sum src dst m = words_sum m + (if is_ipv4 src then 0 else addr_sum src + addr_sum dst + 58 + length m)"

definition with_checksum :: "(u8 list \<Rightarrow> nat) \<Rightarrow> u8 list \<Rightarrow> u8 list \<Rightarrow> u8 list" where
  "with_checksum f before after = before @ w16 (checksum (f (before @ [0, 0] @ after))) @ after"

definition smol_write_ref :: smol_write where
  "smol_write_ref =
     \<lparr>sw_ipv4 = (\<lambda>r b. fill4 (put4 \<lparr>v4_header_len = 20, v4_total_len = 20 + r4_payload_len r, v4_ident = 0, v4_dont_frag = True,
        v4_more_frags = False, v4_frag_offset = 0, v4_hop_limit = r4_hop_limit r, v4_next_header = r4_next_header r,
        v4_src = r4_src r, v4_dst = r4_dst r\<rparr> (replicate 20 0 @ drop 20 b))),
      sw_ipv4_set_ident = (\<lambda>i b. put4 ((ref_ipv4 b)\<lparr>v4_ident := i\<rparr>) b),
      sw_ipv4_set_dont_frag = (\<lambda>f b. put4 ((ref_ipv4 b)\<lparr>v4_dont_frag := f\<rparr>) b),
      sw_ipv4_set_more_frags = (\<lambda>f b. put4 ((ref_ipv4 b)\<lparr>v4_more_frags := f\<rparr>) b),
      sw_ipv4_set_frag_offset = (\<lambda>n b. put4 ((ref_ipv4 b)\<lparr>v4_frag_offset := unat n\<rparr>) b),
      sw_ipv4_fill_checksum = fill4,
      sw_ipv6 = put6,
      sw_ipv6_frag = put_frag,
      sw_ipv6_read_frag = read_frag,
      sw_tcp_rst = (\<lambda>r src dst. with_checksum (\<lambda>m. addr_sum src + addr_sum dst + 6 + length m + words_sum m)
        (w16 (unat (rt_src_port r)) @ w16 (unat (rt_dst_port r)) @ w32 (unat (rt_seq r)) @ w32 (unat (rt_ack_number r)) @
         [0x50, 0x14] @ w16 (unat (rt_window_len r))) [0, 0]),
      sw_udp = (\<lambda>sp dp src dst payload. with_checksum (\<lambda>m. addr_sum src + addr_sum dst + 17 + length m + words_sum m)
        (w16 (unat sp) @ w16 (unat dp) @ w16 (8 + length payload)) payload),
      sw_icmp_unreachable = (\<lambda>src dst m. with_checksum (icmp_sum src dst) (if is_ipv4 src then [3, 13] else [1, 1]) (drop 4 m)),
      sw_icmp_echo = (\<lambda>src dst ident seq payload. with_checksum (icmp_sum src dst) (if is_ipv4 src then [0, 0] else [129, 0])
        (w16 (unat ident) @ w16 (unat seq) @ payload))\<rparr>"

lemma ref_ipv4_local: "20 \<le> length b \<Longrightarrow> take 20 b' = take 20 b \<Longrightarrow> ref_ipv4 b' = ref_ipv4 b"
  using ref_cut(1) [of 20 b] ref_cut(1) [of 20 b'] by simp

lemma ref_ipv6_local: "take 40 b' = take 40 b \<Longrightarrow> ref_ipv6 b' = ref_ipv6 b"
  using ref_cut(2) [of 40 b] ref_cut(2) [of 40 b'] by simp

lemma ref_set4:
  "ref_ipv4 (put4 ((ref_ipv4 b)\<lparr>v4_ident := i\<rparr>) b) = (ref_ipv4 b)\<lparr>v4_ident := i\<rparr>"
  "ref_ipv4 (put4 ((ref_ipv4 b)\<lparr>v4_dont_frag := f\<rparr>) b) = (ref_ipv4 b)\<lparr>v4_dont_frag := f\<rparr>"
  "ref_ipv4 (put4 ((ref_ipv4 b)\<lparr>v4_more_frags := f\<rparr>) b) = (ref_ipv4 b)\<lparr>v4_more_frags := f\<rparr>"
  "n < 65536 \<Longrightarrow> n mod 8 = 0 \<Longrightarrow> ref_ipv4 (put4 ((ref_ipv4 b)\<lparr>v4_frag_offset := n\<rparr>) b) = (ref_ipv4 b)\<lparr>v4_frag_offset := n\<rparr>"
  using ref_ipv4_writable [of b] by (simp_all add: ref_put4 v4_writable_def)

interpretation smol_write_ref: smol_write_laws smol_ref smol_write_ref
proof
  fix b :: "u8 list" and r :: v4_repr
  assume "length b = 20 + r4_payload_len r" "length b < 65536"
  then show "length (sw_ipv4 smol_write_ref r b) = length b \<and> sm_ipv4_verify smol_ref (sw_ipv4 smol_write_ref r b) \<and>
      sm_ipv4 smol_ref (sw_ipv4 smol_write_ref r b) = \<lparr>v4_header_len = 20, v4_total_len = length b, v4_ident = 0, v4_dont_frag = True,
        v4_more_frags = False, v4_frag_offset = 0, v4_hop_limit = r4_hop_limit r, v4_next_header = r4_next_header r,
        v4_src = r4_src r, v4_dst = r4_dst r\<rparr>"
    by (simp add: smol_write_ref_def smol_ref_def fill4_laws ref_put4 v4_writable_def)
next
  fix b b' :: "u8 list"
  assume "20 \<le> length b" "take 20 b' = take 20 b"
  then show "sm_ipv4 smol_ref b' = sm_ipv4 smol_ref b \<and>
      (v4_header_len (sm_ipv4 smol_ref b) = 20 \<longrightarrow> sm_ipv4_verify smol_ref b' = sm_ipv4_verify smol_ref b)"
    using ref_ipv4_local [of b b'] by (auto simp: smol_ref_def)
qed (auto simp: smol_ref_def smol_write_ref_def ref_set4 fill4_laws ref_put6 length_put6
      length_put_frag read_put_frag intro: ref_ipv6_local)

section \<open>What the TUN device writes\<close>

text \<open>
  C30. Whatever the TUN sends to an app is put together again by the app's stack: the packets are each at
  most the MTU, are all from the sender to the app, with one protocol and one identification, and
  the pieces they carry, in any order, make up the transport payload and nothing else.
\<close>

theorem packets_reassemble:
  assumes "smol_write_laws sm sw" "is_ipv4 src = is_ipv4 dst" "protocol \<noteq> IP_IPV6_FRAG"
    and "length bs \<le> (if is_ipv4 src then 65515 else 65535)" "1280 \<le> mtu"
  shows "\<exists>ps ident. fst (ip_packets sw src dst protocol bs mtu ids) = Some ps \<and>
    (\<forall>p\<in>set ps. length p \<le> mtu \<and> (\<exists>pc. piece_of sm sw (is_ipv4 src) p = Some pc \<and>
       pc_src pc = src \<and> pc_dst pc = dst \<and> pc_protocol pc = protocol \<and> pc_ident pc = ident)) \<and>
    (\<forall>bs'. reassembles {pc. \<exists>p\<in>set ps. piece_of sm sw (is_ipv4 src) p = Some pc} bs' \<longleftrightarrow> bs' = bs)"
proof -
  obtain ps ident where ps: "fst (ip_packets sw src dst protocol bs mtu ids) = Some ps" "ps \<noteq> []"
    "\<forall>p\<in>set ps. piece_ok sm sw src dst protocol ident mtu bs p" "\<forall>i<length bs. covered sm sw (is_ipv4 src) ps i"
    using smol_write_laws.ip_packets_pieces [OF assms] by blast
  have "reassembles {pc. \<exists>p\<in>set ps. piece_of sm sw (is_ipv4 src) p = Some pc} bs"
    using smol_write_laws.pieces_reassemble [OF assms(1) ps(3,4,2)] .
  then have "\<forall>bs'. reassembles {pc. \<exists>p\<in>set ps. piece_of sm sw (is_ipv4 src) p = Some pc} bs' \<longleftrightarrow> bs' = bs"
    using reassembles_unique by blast
  with ps(1,3) show ?thesis
    by (intro exI [of _ ps] exI [of _ ident]) (auto simp: piece_ok_def)
qed

theorem packets_reassemble_witness:
  "\<exists>ps ident. fst (ip_packets smol_write_ref (V4 1) (V4 2) 17 (replicate 2000 5) 1280 7) = Some ps \<and>
    (\<forall>p\<in>set ps. length p \<le> 1280 \<and> (\<exists>pc. piece_of smol_ref smol_write_ref (is_ipv4 (V4 1)) p = Some pc \<and>
       pc_src pc = V4 1 \<and> pc_dst pc = V4 2 \<and> pc_protocol pc = 17 \<and> pc_ident pc = ident)) \<and>
    (\<forall>bs'. reassembles {pc. \<exists>p\<in>set ps. piece_of smol_ref smol_write_ref (is_ipv4 (V4 1)) p = Some pc} bs' \<longleftrightarrow> bs' = replicate 2000 5)"
  by (rule packets_reassemble [OF smol_write_ref.smol_write_laws_axioms]) (simp_all add: IP_IPV6_FRAG_def)

definition reflecting :: ip_rewrite where
  "reflecting = \<lparr>rw_v4 = [((0x01010101, 32), Reflect)], rw_v6 = []\<rparr>"

definition quiet_context :: "unit tun_context" where
  "quiet_context = \<lparr>tc_stats = stats_default, tc_admission = admission_new 2 2 2, tc_icmp_limit = icmp_limiter,
     tc_ids = 0, tc_mtu = 1500, tc_echoes = 0, tc_max_echoes = 4, tc_pool = None, tc_sent = []\<rparr>"

lemma syn_packet_hit:
  "classify smol_ref ext_ref syn_packet False reflecting =
     Inr (Rewrite \<lparr>ht_action = Reflect, ht_src = V4 0xC6120001, ht_dst = V4 0x01010101, ht_len = 44, ht_header_len = 20\<rparr>)"
  by (simp add: classify_def parse_packet_def read_ipv4_def smol_ref_def reflecting_def
      syn_packet_ip martian_v4_def odd_v4_def octets_def Let_def word_le_nat_alt ext_ref_def ref_contains_def)

text \<open>
  C31. \<open>[IP Rewrite]\<close> handles every packet it matches without a panic, whatever the packet holds past
  its IP header, and writes at most one packet for it: none where the profile says to drop, and
  for a reflection the packet whose source field, byte by byte, holds the destination of the one that
  came and whose destination field holds its source, with every other byte as it was: the fields of
  4 bytes from 12 on in IPv4, those of 16 bytes from 8 on in IPv6.
\<close>

theorem rewrite_answers:
  fixes c :: "'l tun_context"
  assumes "smol_laws sm" "classify sm x packet ipv6 rewrite = Inr (Rewrite h)"
  shows "\<exists>c'. rewrite_handle sm x sw answer now h (take (ht_len h) packet) c = Some c' \<and>
    (case ht_action h of
       Drop \<Rightarrow> tc_sent c' = tc_sent c
     | Reject \<Rightarrow> tc_sent c' = tc_sent c \<or> (\<exists>p. tc_sent c' = tc_sent c @ [[p]])
     | Reflect \<Rightarrow> \<exists>p. tc_sent c' = (if answer = SendOk then tc_sent c @ [[p]] else tc_sent c) \<and>
         (if is_ipv4 (ht_dst h) then exchanged 12 4 (take (ht_len h) packet) p
          else exchanged 8 16 (take (ht_len h) packet) p))"
proof -
  have "hit_ok packet h"
    using smol_laws.classify_Rewrite [OF assms] .
  then have cut: "hit_ok (take (ht_len h) packet) h" "length (take (ht_len h) packet) = ht_len h"
    by (auto simp: hit_ok_def)
  show ?thesis
  proof (cases "ht_action h")
    case Reflect
    then show ?thesis
      using reflect_answers [OF cut, of answer c] unfolding rewrite_handle_def Reflect ip_rewrite_action.case by blast
  next
    case Reject
    then show ?thesis
      using reject_answers [OF assms(1) cut, of x sw answer now c] by (simp add: rewrite_handle_def)
  qed (simp add: rewrite_handle_def count_drop_def)
qed

theorem rewrite_answers_witness:
  "\<exists>c' p. rewrite_handle smol_ref ext_ref smol_write_ref SendOk 0
      \<lparr>ht_action = Reflect, ht_src = V4 0xC6120001, ht_dst = V4 0x01010101, ht_len = 44, ht_header_len = 20\<rparr>
      (take 44 syn_packet) quiet_context = Some c' \<and>
    tc_sent c' = [[p]] \<and> exchanged 12 4 (take 44 syn_packet) p"
  using rewrite_answers [OF smol_ref.smol_laws_axioms syn_packet_hit, of smol_write_ref SendOk 0 quiet_context]
  by (auto simp: quiet_context_def)

end
