(* ===== verification/Rurge_Float.thy ===== *)
theory Rurge_Float
  imports Rurge_Prelude "HOL-Library.Log_Nat" "HOL-Library.Product_Lexorder" "HOL-Library.Option_ord"
begin

text \<open>
  The \<open>f64\<close> arithmetic the scores of \<^verbatim>\<open>rurge-policy/src/smart.rs\<close> are computed with, and the
  durations they are computed from.

  A score is never negative and never NaN: it comes from durations by sums, products with
  positive numbers and quotients by positive numbers. So an \<open>f64\<close> is here a non-negative
  rational or infinity. Every operation gives the exact result rounded to the nearest value the
  format has, ties to the even one: a multiple of \<^term>\<open>(2::nat) ^ e\<close> units of the least positive value
  \<open>2 ^ - 1074\<close>, with a significand of at most 53 bits; from \<open>2 ^ 1024\<close> on it is infinity.

  A \<open>Duration\<close> and an \<open>Instant\<close> are counts of nanoseconds.
\<close>

type_synonym duration = nat
type_synonym instant = nat

abbreviation secs :: "nat \<Rightarrow> duration" where
  "secs n \<equiv> n * 1000000000"

abbreviation from_millis :: "nat \<Rightarrow> duration" where
  "from_millis n \<equiv> n * 1000000"

datatype f64 = Fin rat | Inf

instantiation f64 :: linorder
begin

fun less_eq_f64 :: "f64 \<Rightarrow> f64 \<Rightarrow> bool" where
  "less_eq_f64 (Fin a) (Fin b) = (a \<le> b)"
| "less_eq_f64 Inf (Fin b) = False"
| "less_eq_f64 x Inf = True"

definition less_f64 :: "f64 \<Rightarrow> f64 \<Rightarrow> bool" where
  "less_f64 x y = (x \<le> y \<and> \<not> y \<le> x)"

instance
proof
  fix x y z :: f64
  show "(x < y) = (x \<le> y \<and> \<not> y \<le> x)" by (rule less_f64_def)
  show "x \<le> x" by (cases x) auto
  show "x \<le> y \<Longrightarrow> y \<le> z \<Longrightarrow> x \<le> z" by (cases x; cases y; cases z) auto
  show "x \<le> y \<Longrightarrow> y \<le> x \<Longrightarrow> x = y" by (cases x; cases y) auto
  show "x \<le> y \<or> y \<le> x" by (cases x; cases y) auto
qed

end

section \<open>Rounding\<close>

text \<open>The units in one, and in the first power of two the format has not.\<close>

definition f64_units :: rat where
  "f64_units = 2 ^ 1074"

definition f64_limit :: int where
  "f64_limit = 2 ^ (1024 + 1074)"

definition round_even :: "rat \<Rightarrow> int" where
  "round_even q =
     (let f = \<lfloor>q\<rfloor>; r = q - of_int f
      in if r < 1 / 2 then f else if 1 / 2 < r then f + 1 else if even f then f else f + 1)"

text \<open>The exponent of the values next to \<open>u\<close>, a number of units of \<open>2 ^ - 1074\<close>.\<close>

definition f64_exponent :: "rat \<Rightarrow> nat" where
  "f64_exponent u = floorlog 2 (nat \<lfloor>u\<rfloor>) - 53"

definition f64_round :: "rat \<Rightarrow> f64" where
  "f64_round q =
     (let u = q * f64_units; e = f64_exponent u; m = round_even (u / 2 ^ e) * 2 ^ e
      in if f64_limit \<le> m then Inf else Fin (of_int m / f64_units))"

fun f64_mul :: "f64 \<Rightarrow> f64 \<Rightarrow> f64" where
  "f64_mul (Fin a) (Fin b) = f64_round (a * b)"
| "f64_mul _ _ = Inf"

fun f64_add :: "f64 \<Rightarrow> f64 \<Rightarrow> f64" where
  "f64_add (Fin a) (Fin b) = f64_round (a + b)"
| "f64_add _ _ = Inf"

text \<open>A quotient by infinity does not arise: only sums of weights are divided by.\<close>

fun f64_div :: "f64 \<Rightarrow> f64 \<Rightarrow> f64" where
  "f64_div (Fin a) (Fin b) = f64_round (a / b)"
| "f64_div Inf _ = Inf"
| "f64_div (Fin a) Inf = Fin 0"

text \<open>\<open>Duration::as_secs_f64\<close>: the seconds, plus the nanoseconds over \<open>1e9\<close>.\<close>

definition as_secs_f64 :: "duration \<Rightarrow> f64" where
  "as_secs_f64 d =
     f64_add (f64_round (of_nat (d div 1000000000)))
             (f64_div (f64_round (of_nat (d mod 1000000000))) (Fin 1000000000))"

text \<open>\<open>Duration::from_secs_f64\<close>: to the nearest nanosecond; it panics on what no duration holds.\<close>

fun from_secs_f64 :: "f64 \<Rightarrow> duration option" where
  "from_secs_f64 Inf = None"
| "from_secs_f64 (Fin s) =
     (let n = nat (round_even (s * 1000000000))
      in if n < 2 ^ 64 * 1000000000 then Some n else None)"

text \<open>The values the format has.\<close>

definition f64_value :: "f64 \<Rightarrow> bool" where
  "f64_value x = (case x of Inf \<Rightarrow> True
                  | Fin q \<Rightarrow> \<exists>m e. m \<le> 2 ^ 53 \<and> q * f64_units = of_nat (m * 2 ^ e))"

lemma f64_units_pos [simp]: "0 < f64_units"
  by (simp add: f64_units_def)

lemma round_even_ge: "of_int k \<le> q \<Longrightarrow> k \<le> round_even q"
  using floor_mono[of "of_int k" q] by (simp add: round_even_def Let_def)

lemma round_even_le: "q \<le> of_int k \<Longrightarrow> round_even q \<le> k"
proof -
  assume q: "q \<le> of_int k"
  then have f: "\<lfloor>q\<rfloor> \<le> k" using floor_mono[OF q] by simp
  show ?thesis
  proof (cases "\<lfloor>q\<rfloor> = k")
    case True
    then have "q = of_int k" using q of_int_floor_le[of q] by linarith
    then show ?thesis by (simp add: round_even_def)
  next
    case False
    then show ?thesis using f by (auto simp: round_even_def Let_def)
  qed
qed

lemma round_even_nonneg: "0 \<le> q \<Longrightarrow> 0 \<le> round_even q"
  using round_even_ge[of 0 q] by simp

text \<open>Rounding never goes below a value the format has, so it is monotone towards those.\<close>

lemma exponent_below: "0 \<le> u \<Longrightarrow> u < 2 ^ 53 * 2 ^ f64_exponent u"
proof -
  assume u: "0 \<le> u"
  have "nat \<lfloor>u\<rfloor> < 2 ^ (53 + f64_exponent u)"
    by (rule floorlog_leD) (simp_all add: f64_exponent_def)
  then have "\<lfloor>u\<rfloor> < 2 ^ (53 + f64_exponent u)" by (simp add: nat_less_iff u)
  then have "u < of_int (2 ^ (53 + f64_exponent u))" by (simp only: floor_less_iff)
  then show ?thesis by (simp add: power_add)
qed

lemma exponent_above:
  assumes "0 < f64_exponent u"
  shows "2 ^ 52 * 2 ^ f64_exponent u \<le> u"
proof -
  have "(2::nat) ^ (53 + f64_exponent u - 1) \<le> nat \<lfloor>u\<rfloor>"
    by (rule floorlog_geD) (use assms in \<open>auto simp: f64_exponent_def\<close>)
  moreover have "53 + f64_exponent u - 1 = 52 + f64_exponent u" by simp
  ultimately have "(2::int) ^ (52 + f64_exponent u) \<le> \<lfloor>u\<rfloor>" 
    by (simp add: le_nat_iff)
  then have "of_int (2 ^ (52 + f64_exponent u)) \<le> u" by (simp only: le_floor_iff)
  then show ?thesis by (simp add: power_add)
qed

lemma f64_round_value: "0 \<le> q \<Longrightarrow> f64_value (f64_round q)"
proof -
  assume q: "0 \<le> q"
  define u e where "u = q * f64_units" and "e = f64_exponent u"
  have u: "0 \<le> u" using q by (simp add: u_def less_imp_le)
  have le: "round_even (u / 2 ^ e) \<le> 2 ^ 53"
    using exponent_below[OF u] by (intro round_even_le) (simp add: e_def field_simps)
  have ge: "0 \<le> round_even (u / 2 ^ e)" using u by (intro round_even_nonneg) simp
  show ?thesis
  proof (cases "f64_limit \<le> round_even (u / 2 ^ e) * 2 ^ e")
    case False
    have "of_int (round_even (u / 2 ^ e) * 2 ^ e) / f64_units * f64_units =
        of_nat (nat (round_even (u / 2 ^ e)) * 2 ^ e)"
      using ge by (simp add: less_imp_neq[symmetric])
    moreover have "nat (round_even (u / 2 ^ e)) \<le> 2 ^ 53" using le by (simp add: nat_le_iff)
    ultimately show ?thesis
      using False unfolding f64_value_def f64_round_def Let_def u_def[symmetric] e_def[symmetric]
      by auto
  qed (simp add: f64_value_def f64_round_def Let_def u_def[symmetric] e_def[symmetric])
qed

lemma f64_round_ge: 
  assumes "f64_value (Fin x)" "x \<le> q"
  shows "Fin x \<le> f64_round q"
proof -
  define u e where "u = q * f64_units" and "e = f64_exponent u"
  obtain m k where m: "m \<le> 2 ^ 53" and x: "x * f64_units = of_nat (m * 2 ^ k)"
    using assms(1) by (auto simp: f64_value_def)
  have xu: "of_nat (m * 2 ^ k) \<le> u" unfolding x[symmetric] u_def by (rule mult_right_mono) (use assms(2) in \<open>simp_all add: less_imp_le\<close>)
  have "int (m * 2 ^ k) \<le> round_even (u / 2 ^ e) * 2 ^ e"
  proof (cases "e \<le> k")
    case True
    have "of_int (int (m * 2 ^ (k - e))) \<le> u / 2 ^ e"
      using xu True by (simp add: field_simps power_add[symmetric] mult.assoc[symmetric])
    then have "int (m * 2 ^ (k - e)) \<le> round_even (u / 2 ^ e)" by (rule round_even_ge)
    then have "int (m * 2 ^ (k - e)) * 2 ^ e \<le> round_even (u / 2 ^ e) * 2 ^ e"
      by (rule mult_right_mono) simp
    moreover have "int (m * 2 ^ (k - e)) * 2 ^ e = int (m * 2 ^ k)"
      using True by (simp add: power_add[symmetric])
    ultimately show ?thesis by (simp only:)
  next
    case False
    have "of_int (2 ^ 52) \<le> u / 2 ^ e" 
      using exponent_above[of u] False by (simp add: e_def field_simps)
    then have "2 ^ 52 \<le> round_even (u / 2 ^ e)" by (rule round_even_ge)
    then have "2 ^ 52 * 2 ^ e \<le> round_even (u / 2 ^ e) * 2 ^ e" by (rule mult_right_mono) simp
    moreover have "int (m * 2 ^ k) \<le> 2 ^ 53 * 2 ^ k"
      using m by (simp add: nat_le_iff[symmetric])
    moreover have "(2::int) ^ 53 * 2 ^ k \<le> 2 ^ 52 * 2 ^ e"
      using False power_increasing[of "Suc k" e "2::int"] by simp
    ultimately show ?thesis by linarith
  qed
  then have "of_nat (m * 2 ^ k) \<le> (of_int (round_even (u / 2 ^ e) * 2 ^ e) :: rat)"
    by (metis of_int_le_iff of_int_of_nat_eq)
  then have "x \<le> of_int (round_even (u / 2 ^ e) * 2 ^ e) / f64_units"
    by (simp only: x[symmetric] pos_le_divide_eq f64_units_pos)
  then show ?thesis
    unfolding f64_round_def Let_def u_def[symmetric] e_def[symmetric] by simp
qed

lemma f64_mul_ge: "f64_value x \<Longrightarrow> Fin 1 \<le> c \<Longrightarrow> (\<And>q. x = Fin q \<Longrightarrow> 0 \<le> q) \<Longrightarrow> x \<le> f64_mul x c"
  by (cases x; cases c) (auto intro!: f64_round_ge simp: mult_le_cancel_left1)

text \<open>Nor does rounding go above a whole number of at most 53 bits.\<close>

lemma f64_round_le:
  assumes "0 \<le> q" "q \<le> of_nat n" "n \<le> 2 ^ 53"
  shows "f64_round q \<le> Fin (of_nat n)"
proof -
  define u e where "u = q * f64_units" and "e = f64_exponent u"
  have u: "0 \<le> u" using assms(1) by (simp add: u_def less_imp_le)
  have un: "u \<le> of_nat n * 2 ^ 1074"
    unfolding u_def f64_units_def by (rule mult_right_mono) (use assms(2) in simp_all)
  have le: "round_even (u / 2 ^ e) * 2 ^ e \<le> int n * 2 ^ 1074"
  proof (cases "e \<le> 1074")
    case True
    have "u / 2 ^ e \<le> of_int (int n * 2 ^ (1074 - e))"
      using un True by (simp add: pos_divide_le_eq power_add[symmetric] mult.assoc)
    then have "round_even (u / 2 ^ e) \<le> int n * 2 ^ (1074 - e)" by (rule round_even_le)
    then have "round_even (u / 2 ^ e) * 2 ^ e \<le> int n * 2 ^ (1074 - e) * 2 ^ e"
      by (rule mult_right_mono) simp
    also have "\<dots> = int n * 2 ^ 1074" using True by (simp only: mult.assoc power_add[symmetric]) simp
    finally show ?thesis .
  next
    case False
    have "2 ^ 52 * 2 ^ e \<le> u" using exponent_above[of u] False by (simp add: e_def)
    moreover have "(of_nat n :: rat) \<le> 2 ^ 53" using assms(3) of_nat_mono[of n "2 ^ 53"] by simp
    then have "of_nat n * 2 ^ 1074 \<le> (2 ^ 53 * 2 ^ 1074 :: rat)" by (rule mult_right_mono) simp
    moreover have "(2 ^ 53 * 2 ^ 1074 :: rat) \<le> 2 ^ 52 * 2 ^ e"
      unfolding power_add[symmetric] using False by (intro power_increasing) auto
    ultimately have u12: "of_nat n * 2 ^ 1074 = u" "u = 2 ^ 52 * 2 ^ e" using un by linarith+
    have "u / 2 ^ e = of_int (2 ^ 52)" by (simp add: u12(2))
    then have "round_even (u / 2 ^ e) \<le> 2 ^ 52" by (intro round_even_le) simp
    then have "round_even (u / 2 ^ e) * 2 ^ e \<le> 2 ^ 52 * 2 ^ e" by (rule mult_right_mono) simp
    moreover have "(of_int (int n * 2 ^ 1074) :: rat) = of_int (2 ^ 52 * 2 ^ e)"
      using u12 by (simp only: of_int_mult of_int_of_nat_eq of_int_power of_int_numeral)
    ultimately show ?thesis by (simp only: of_int_eq_iff)
  qed
  moreover have "int n * 2 ^ 1074 < f64_limit"
  proof -
    have "int n * 2 ^ 1074 \<le> 2 ^ 53 * 2 ^ 1074"
      using assms(3) of_nat_mono[of n "2 ^ 53", where 'a = int] by (intro mult_right_mono) simp_all
    also have "\<dots> < f64_limit"
      unfolding f64_limit_def power_add[symmetric] by (rule power_strict_increasing) simp_all
    finally show ?thesis .
  qed
  ultimately have "f64_round q = Fin (of_int (round_even (u / 2 ^ e) * 2 ^ e) / f64_units)"
    unfolding f64_round_def Let_def u_def[symmetric] e_def[symmetric] by simp
  moreover have "of_int (round_even (u / 2 ^ e) * 2 ^ e) \<le> (of_int (int n * 2 ^ 1074) :: rat)"
    using le by (simp only: of_int_le_iff)
  then have "of_int (round_even (u / 2 ^ e) * 2 ^ e) / f64_units \<le> of_nat n"
    by (simp only: pos_divide_le_eq f64_units_pos) (simp add: f64_units_def)
  ultimately show ?thesis by simp
qed

end
