(* ===== verification/Rurge_Testbook.thy ===== *)
theory Rurge_Testbook
  imports Rurge_Rule Rurge_Float
begin

text \<open>
  Connectivity tests (\<^verbatim>\<open>rurge-policy/src/testbook.rs\<close>): the results kept across configurations,
  and the tests that run. An outbound is an \<open>Arc\<close>, compared by its address: here a number. A
  \<open>watch\<close> channel is a number too, with what was sent on it; a test's task holds the sender.
  The wall-clock moment of a result and the certificates of a test are left out.
\<close>

type_synonym outbound = nat

definition MAX_CONCURRENT_TESTS :: nat where
  "MAX_CONCURRENT_TESTS = 8"

record test_result =
  tr_outcome :: "string + duration"
  tr_at :: instant

datatype test_mode = TmUrl string | TmNative host_name u16

record test_case =
  tc_policy :: string
  tc_outbound :: outbound
  tc_mode :: test_mode
  tc_timeout :: duration
  tc_key :: u64

text \<open>The channel of a test: still open, closed with its result sent, or closed without one.\<close>

datatype channel = Waiting | Sent test_result | Dead

record test_book =
  tb_results :: "string \<rightharpoonup> u64 \<times> test_result"
  tb_running :: "string \<rightharpoonup> u64 \<times> nat"
  tb_channels :: "channel list"
  tb_sunk :: "(test_case \<times> test_result) list"

definition test_book_new :: test_book where
  "test_book_new = \<lparr>tb_results = Map.empty, tb_running = Map.empty, tb_channels = [], tb_sunk = []\<rparr>"

definition test_result_of :: "test_book \<Rightarrow> string \<Rightarrow> u64 \<Rightarrow> test_result option" where
  "test_result_of b policy key =
     (case tb_results b policy of
        Some (k, r) \<Rightarrow> if k = key then Some r else None
      | None \<Rightarrow> None)"

definition test_outcome :: "test_book \<Rightarrow> string \<Rightarrow> u64 \<Rightarrow> (unit + duration) option" where
  "test_outcome b policy key =
     (case tb_results b policy of
        Some (k, r) \<Rightarrow> if k = key then Some (map_sum (\<lambda>_. ()) (\<lambda>d. d) (tr_outcome r)) else None
      | None \<Rightarrow> None)"

definition invalidate_all :: "test_book \<Rightarrow> test_book" where
  "invalidate_all b = b\<lparr>tb_results := Map.empty\<rparr>"

text \<open>\<open>rx.has_changed().is_ok()\<close>: whether the sender is still there.\<close>

definition channel_open :: "test_book \<Rightarrow> nat \<Rightarrow> bool" where
  "channel_open b c = (c < length (tb_channels b) \<and> tb_channels b ! c = Waiting)"

text \<open>
  The first half of \<open>test\<close>, under the lock: the channel to wait on, and whether a task was
  started for it.
\<close>

definition test_ask :: "test_book \<Rightarrow> test_case \<Rightarrow> test_book \<times> nat \<times> bool" where
  "test_ask b c =
     (let fresh = length (tb_channels b);
          start = (b\<lparr>tb_running := (tb_running b)(tc_policy c \<mapsto> (tc_key c, fresh)),
                     tb_channels := tb_channels b @ [Waiting]\<rparr>, fresh, True)
      in case tb_running b (tc_policy c) of
           Some (key, rx) \<Rightarrow>
             if key = tc_key c \<and> channel_open b rx then (b, rx, False) else start
         | None \<Rightarrow> start)"

text \<open>The second half: what the one who waits gets, nothing while the test runs.\<close>

definition test_answer :: "test_book \<Rightarrow> nat \<Rightarrow> instant \<Rightarrow> test_result option" where
  "test_answer b rx now =
     (if length (tb_channels b) \<le> rx then None else
      case tb_channels b ! rx of
        Waiting \<Rightarrow> None
      | Sent r \<Rightarrow> Some r
      | Dead \<Rightarrow> Some \<lparr>tr_outcome = Inl ''the test did not finish'', tr_at = now\<rparr>)"

text \<open>The end of \<open>run\<close>: the test of \<open>c\<close> on the channel \<open>tx\<close> was measured.\<close>

definition test_run_end :: "test_book \<Rightarrow> test_case \<Rightarrow> nat \<Rightarrow> test_result \<Rightarrow> test_book" where
  "test_run_end b c tx result =
     (let kept = (case tb_running b (tc_policy c) of Some (_, rx) \<Rightarrow> rx = tx | None \<Rightarrow> False);
          b1 = (if kept
                then b\<lparr>tb_running := (tb_running b)(tc_policy c := None),
                       tb_results := (tb_results b)(tc_policy c \<mapsto> (tc_key c, result)),
                       tb_sunk := tb_sunk b @ [(c, result)]\<rparr>
                else b)
      in b1\<lparr>tb_channels := (tb_channels b1)[tx := Sent result]\<rparr>)"

text \<open>A task that dies without a result drops its sender.\<close>

definition test_run_dead :: "test_book \<Rightarrow> nat \<Rightarrow> test_book" where
  "test_run_dead b tx = b\<lparr>tb_channels := (tb_channels b)[tx := Dead]\<rparr>"

text \<open>
  \<open>native\<close>: the outbound's own test, \<open>None\<close> when it has none; within, what \<open>timeout\<close> gives,
  \<open>None\<close> when the time ran out first.
\<close>

definition native_test :: "(string + duration) option option \<Rightarrow> string + duration" where
  "native_test test =
     (case test of
        None \<Rightarrow> Inl ''the policy has no test of its own''
      | Some (Some r) \<Rightarrow> r
      | Some None \<Rightarrow> Inl ''timed out'')"

section \<open>The tests of a book, in any order\<close>

text \<open>
  A run of the book: the book, the task each channel was started for, and for each policy the
  channel its last kept result came from.
\<close>

record test_run =
  run_book :: test_book
  run_tasks :: "test_case list"
  run_kept :: "string \<rightharpoonup> nat"

inductive test_step :: "test_run \<Rightarrow> test_run \<Rightarrow> bool" where
  ask_start: "test_ask (run_book s) c = (b, tx, True) \<Longrightarrow>
     test_step s (s\<lparr>run_book := b, run_tasks := run_tasks s @ [c]\<rparr>)"
| ask_join: "test_ask (run_book s) c = (b, tx, False) \<Longrightarrow> test_step s (s\<lparr>run_book := b\<rparr>)"
| run_end: "channel_open (run_book s) tx \<Longrightarrow> c = run_tasks s ! tx \<Longrightarrow>
     b = test_run_end (run_book s) c tx r \<Longrightarrow>
     test_step s (s\<lparr>run_book := b,
       run_kept := (if tb_sunk b = tb_sunk (run_book s) then run_kept s
                    else (run_kept s)(tc_policy c \<mapsto> tx))\<rparr>)"
| run_dead: "channel_open (run_book s) tx \<Longrightarrow>
     test_step s (s\<lparr>run_book := test_run_dead (run_book s) tx\<rparr>)"
| invalidated: "test_step s (s\<lparr>run_book := invalidate_all (run_book s)\<rparr>)"

definition test_run_new :: test_run where
  "test_run_new = \<lparr>run_book = test_book_new, run_tasks = [], run_kept = Map.empty\<rparr>"

inductive test_reachable :: "test_run \<Rightarrow> bool" where
  test_start: "test_reachable test_run_new"
| test_next: "test_reachable s \<Longrightarrow> test_step s t \<Longrightarrow> test_reachable t"

inductive_cases test_stepE: "test_step s t"

text \<open>
  What every run keeps: the test registered for a policy is the last one started for it, and a
  result was kept only from a test of the policy, under that test's key.
\<close>

definition registered_last :: "test_run \<Rightarrow> bool" where
  "registered_last s \<longleftrightarrow>
     (\<forall>p k rx. tb_running (run_book s) p = Some (k, rx) \<longrightarrow>
        rx < length (run_tasks s) \<and> tc_policy (run_tasks s ! rx) = p \<and> tc_key (run_tasks s ! rx) = k \<and>
        (\<forall>i<length (run_tasks s). tc_policy (run_tasks s ! i) = p \<longrightarrow> i \<le> rx))"

definition latest_of :: "test_run \<Rightarrow> nat \<Rightarrow> bool" where
  "latest_of s tx \<longleftrightarrow>
     (\<forall>i<length (run_tasks s). tc_policy (run_tasks s ! i) = tc_policy (run_tasks s ! tx) \<longrightarrow> i \<le> tx)"

definition last_registered :: "test_run \<Rightarrow> bool" where
  "last_registered s \<longleftrightarrow>
     (\<forall>tx. channel_open (run_book s) tx \<longrightarrow> latest_of s tx \<longrightarrow>
        tb_running (run_book s) (tc_policy (run_tasks s ! tx)) = Some (tc_key (run_tasks s ! tx), tx))"

definition kept_sent :: "test_run \<Rightarrow> bool" where
  "kept_sent s \<longleftrightarrow>
     (\<forall>p k r. tb_results (run_book s) p = Some (k, r) \<longrightarrow>
        (\<exists>tx. run_kept s p = Some tx \<and> tx < length (run_tasks s) \<and>
              tc_policy (run_tasks s ! tx) = p \<and> tc_key (run_tasks s ! tx) = k \<and>
              tb_channels (run_book s) ! tx = Sent r))"

definition test_inv :: "test_run \<Rightarrow> bool" where
  "test_inv s \<longleftrightarrow>
     length (tb_channels (run_book s)) = length (run_tasks s) \<and> registered_last s \<and>
     last_registered s \<and> kept_sent s"

lemma test_inv_init: "test_inv test_run_new"
  by (simp add: test_inv_def registered_last_def last_registered_def channel_open_def
      kept_sent_def test_run_new_def test_book_new_def)

lemma test_ask_cases:
  assumes "test_ask b c = (b', tx, started)"
  obtains (start) "started" "tx = length (tb_channels b)"
    "b' = b\<lparr>tb_running := (tb_running b)(tc_policy c \<mapsto> (tc_key c, tx)),
            tb_channels := tb_channels b @ [Waiting]\<rparr>"
  | (join) "\<not> started" "b' = b" "tb_running b (tc_policy c) = Some (tc_key c, tx)" "channel_open b tx"
proof (cases "\<exists>rx. tb_running b (tc_policy c) = Some (tc_key c, rx) \<and> channel_open b rx")
  case True
  then show thesis using assms join by (auto simp: test_ask_def)
next
  case False
  then have "test_ask b c = (b\<lparr>tb_running := (tb_running b)(tc_policy c \<mapsto> (tc_key c, length (tb_channels b))),
      tb_channels := tb_channels b @ [Waiting]\<rparr>, length (tb_channels b), True)"
    by (auto simp: test_ask_def Let_def split: option.split)
  then show thesis using assms start by auto
qed

lemma run_end_frame:
  "length (tb_channels (test_run_end b c tx r)) = length (tb_channels b)"
  "tb_channels (test_run_end b c tx r) = (tb_channels b)[tx := Sent r]"
  by (simp_all add: test_run_end_def Let_def)

lemma run_end_kept:
  assumes "tb_running b (tc_policy c) = Some (k, tx)"
  shows "tb_running (test_run_end b c tx r) = (tb_running b)(tc_policy c := None)"
    "tb_results (test_run_end b c tx r) = (tb_results b)(tc_policy c \<mapsto> (tc_key c, r))"
    "tb_sunk (test_run_end b c tx r) = tb_sunk b @ [(c, r)]"
  using assms by (simp_all add: test_run_end_def Let_def)

lemma run_end_superseded:
  assumes "\<And>k. tb_running b (tc_policy c) \<noteq> Some (k, tx)"
  shows "tb_running (test_run_end b c tx r) = tb_running b"
    "tb_results (test_run_end b c tx r) = tb_results b"
    "tb_sunk (test_run_end b c tx r) = tb_sunk b"
  using assms by (auto simp: test_run_end_def Let_def split: option.split prod.split)

lemma registered_start:
  assumes "registered_last s" "tx = length (run_tasks s)"
    "tb_running b = (tb_running (run_book s))(tc_policy c \<mapsto> (tc_key c, tx))"
  shows "registered_last (s\<lparr>run_book := b, run_tasks := run_tasks s @ [c]\<rparr>)"
  using assms by (fastforce simp: registered_last_def nth_append less_Suc_eq)

lemma last_start:
  assumes "last_registered s" "tx = length (run_tasks s)" "length (tb_channels (run_book s)) = tx"
    "tb_running b = (tb_running (run_book s))(tc_policy c \<mapsto> (tc_key c, tx))"
    "tb_channels b = tb_channels (run_book s) @ [Waiting]"
  shows "last_registered (s\<lparr>run_book := b, run_tasks := run_tasks s @ [c]\<rparr>)"
  unfolding last_registered_def
proof (intro allI impI)
  fix ty
  let ?t = "s\<lparr>run_book := b, run_tasks := run_tasks s @ [c]\<rparr>"
  assume o: "channel_open (run_book ?t) ty" and l: "latest_of ?t ty"
  show "tb_running (run_book ?t) (tc_policy (run_tasks ?t ! ty)) = Some (tc_key (run_tasks ?t ! ty), ty)"
  proof (cases "ty = tx")
    case True
    then show ?thesis using assms by simp
  next
    case False
    then have ty: "ty < tx" using o assms by (simp add: channel_open_def)
    then have "tc_policy c \<noteq> tc_policy (run_tasks s ! ty)"
      using l assms by (auto simp: latest_of_def nth_append dest: spec[of _ tx])
    moreover have "latest_of s ty" using l ty assms by (auto simp: latest_of_def nth_append)
    moreover have "channel_open (run_book s) ty"
      using o ty assms by (simp add: channel_open_def nth_append)
    ultimately show ?thesis using assms(1,2,4) ty by (simp add: last_registered_def nth_append)
  qed
qed

lemma kept_start:
  assumes "kept_sent s" "length (tb_channels (run_book s)) = length (run_tasks s)"
    "tb_results b = tb_results (run_book s)" "tb_channels b = tb_channels (run_book s) @ [Waiting]"
  shows "kept_sent (s\<lparr>run_book := b, run_tasks := run_tasks s @ [c]\<rparr>)"
  using assms by (fastforce simp: kept_sent_def nth_append)

text \<open>A channel that is still open is none a result was kept from.\<close>

lemma kept_other:
  assumes "kept_sent s" "channel_open (run_book s) tx" "tb_results b = tb_results (run_book s)"
    "tb_channels b = (tb_channels (run_book s))[tx := v]"
  shows "kept_sent (s\<lparr>run_book := b\<rparr>)"
  using assms by (fastforce simp: kept_sent_def channel_open_def nth_list_update)

lemma kept_newer:
  assumes kept: "kept_sent s" and "open": "channel_open (run_book s) tx"
    and len: "tx < length (run_tasks s)" and c: "c = run_tasks s ! tx"
    and res: "tb_results b = (tb_results (run_book s))(tc_policy c \<mapsto> (tc_key c, r))"
    and chan: "tb_channels b = (tb_channels (run_book s))[tx := Sent r]"
  shows "kept_sent (s\<lparr>run_book := b, run_kept := (run_kept s)(tc_policy c \<mapsto> tx)\<rparr>)"
  unfolding kept_sent_def
proof (intro allI impI)
  fix p k r'
  assume *: "tb_results (run_book (s\<lparr>run_book := b, run_kept := (run_kept s)(tc_policy c \<mapsto> tx)\<rparr>)) p = Some (k, r')"
  show "\<exists>ty. run_kept (s\<lparr>run_book := b, run_kept := (run_kept s)(tc_policy c \<mapsto> tx)\<rparr>) p = Some ty \<and>
      ty < length (run_tasks (s\<lparr>run_book := b, run_kept := (run_kept s)(tc_policy c \<mapsto> tx)\<rparr>)) \<and>
      tc_policy (run_tasks (s\<lparr>run_book := b, run_kept := (run_kept s)(tc_policy c \<mapsto> tx)\<rparr>) ! ty) = p \<and>
      tc_key (run_tasks (s\<lparr>run_book := b, run_kept := (run_kept s)(tc_policy c \<mapsto> tx)\<rparr>) ! ty) = k \<and>
      tb_channels (run_book (s\<lparr>run_book := b, run_kept := (run_kept s)(tc_policy c \<mapsto> tx)\<rparr>)) ! ty = Sent r'"
  proof (cases "p = tc_policy c")
    case True
    then show ?thesis using * c len "open" by (simp add: res chan channel_open_def)
  next
    case False
    then have "tb_results (run_book s) p = Some (k, r')" using * by (simp add: res)
    then obtain ty where "run_kept s p = Some ty" "ty < length (run_tasks s)"
      "tc_policy (run_tasks s ! ty) = p" "tc_key (run_tasks s ! ty) = k"
      "tb_channels (run_book s) ! ty = Sent r'" using kept unfolding kept_sent_def by blast
    moreover from this have "ty \<noteq> tx" using "open" by (auto simp: channel_open_def)
    ultimately show ?thesis using False by (simp add: chan)
  qed
qed

lemma last_closed:
  assumes "last_registered s" "channel_open (run_book s) tx" "v \<noteq> Waiting"
    "tb_channels b = (tb_channels (run_book s))[tx := v]"
    "\<And>ty. ty \<noteq> tx \<Longrightarrow> latest_of s ty \<Longrightarrow> channel_open (run_book s) ty \<Longrightarrow>
       tb_running b (tc_policy (run_tasks s ! ty)) = tb_running (run_book s) (tc_policy (run_tasks s ! ty))"
  shows "last_registered (s\<lparr>run_book := b, run_kept := kept\<rparr>)"
  unfolding last_registered_def
proof (intro allI impI)
  fix ty
  let ?t = "s\<lparr>run_book := b, run_kept := kept\<rparr>"
  assume o: "channel_open (run_book ?t) ty" and l: "latest_of ?t ty"
  have "ty \<noteq> tx" "channel_open (run_book s) ty" "latest_of s ty"
    using o l assms by (auto simp: channel_open_def latest_of_def nth_list_update split: if_splits)
  then show "tb_running (run_book ?t) (tc_policy (run_tasks ?t ! ty)) = Some (tc_key (run_tasks ?t ! ty), ty)"
    using assms(1,5) by (simp add: last_registered_def)
qed

lemma test_inv_run_end:
  assumes inv: "test_inv s" and "open": "channel_open (run_book s) tx" and c: "c = run_tasks s ! tx"
    and b: "b = test_run_end (run_book s) c tx r"
  shows "test_inv (s\<lparr>run_book := b,
       run_kept := (if tb_sunk b = tb_sunk (run_book s) then run_kept s
                    else (run_kept s)(tc_policy c \<mapsto> tx))\<rparr>)"
proof (cases "\<exists>k. tb_running (run_book s) (tc_policy c) = Some (k, tx)")
  case True
  then obtain k where k: "tb_running (run_book s) (tc_policy c) = Some (k, tx)" ..
  have len: "tx < length (run_tasks s)" "length (tb_channels (run_book s)) = length (run_tasks s)"
    using inv "open" by (simp_all add: test_inv_def channel_open_def)
  have "registered_last (s\<lparr>run_book := b, run_kept := (run_kept s)(tc_policy c \<mapsto> tx)\<rparr>)"
    using inv by (simp add: b registered_last_def test_inv_def run_end_kept[OF k])
  moreover have "kept_sent (s\<lparr>run_book := b, run_kept := (run_kept s)(tc_policy c \<mapsto> tx)\<rparr>)"
    using inv unfolding b
    by (intro kept_newer[OF _ "open" len(1) c run_end_kept(2)[OF k] run_end_frame(2)])
      (simp add: test_inv_def)
  moreover have "last_registered (s\<lparr>run_book := b, run_kept := (run_kept s)(tc_policy c \<mapsto> tx)\<rparr>)"
  proof (rule last_closed[OF _ "open"])
    fix ty
    assume ty: "ty \<noteq> tx" "latest_of s ty" "channel_open (run_book s) ty"
    then have "tb_running (run_book s) (tc_policy (run_tasks s ! ty)) = Some (tc_key (run_tasks s ! ty), ty)"
      using inv by (simp add: test_inv_def last_registered_def)
    then have "tc_policy (run_tasks s ! ty) \<noteq> tc_policy c" using k ty(1) by auto
    then show "tb_running b (tc_policy (run_tasks s ! ty)) =
        tb_running (run_book s) (tc_policy (run_tasks s ! ty))"
      by (simp add: b run_end_kept(1)[OF k])
  qed (use inv in \<open>simp_all add: b run_end_frame(2) test_inv_def\<close>)
  ultimately show ?thesis using inv by (simp add: test_inv_def b run_end_kept[OF k] run_end_frame(1))
next
  case False
  then have n: "\<And>k. tb_running (run_book s) (tc_policy c) \<noteq> Some (k, tx)" by blast
  have "registered_last (s\<lparr>run_book := b\<rparr>)"
    using inv by (simp add: b registered_last_def test_inv_def run_end_superseded[OF n])
  moreover have "kept_sent (s\<lparr>run_book := b\<rparr>)"
    using inv "open" b by (intro kept_other[of s tx b "Sent r"])
      (simp_all add: test_inv_def run_end_superseded[OF n] run_end_frame(2))
  moreover have "last_registered (s\<lparr>run_book := b\<rparr>)"
    using inv "open" unfolding test_inv_def
    by (intro last_closed[of s tx "Sent r" b "run_kept s", simplified])
      (auto simp: b run_end_superseded[OF n] run_end_frame(2))
  ultimately show ?thesis
    using inv by (simp add: test_inv_def b run_end_superseded[OF n] run_end_frame(1))
qed

lemma test_inv_step: "test_step s t \<Longrightarrow> test_inv s \<Longrightarrow> test_inv t"
proof (induction rule: test_step.induct)
  case (ask_start s c b tx)
  from ask_start(1) show ?case
    by (cases rule: test_ask_cases)
      (use ask_start(2) in \<open>simp_all add: test_inv_def registered_start last_start kept_start\<close>)
next
  case (ask_join s c b tx)
  from ask_join(1) show ?case
    by (cases rule: test_ask_cases) (use ask_join(2) in simp_all)
next
  case (run_end s tx c b r)
  then show ?case by (intro test_inv_run_end)
next
  case (run_dead s tx)
  then show ?case
    using kept_other[of s tx "test_run_dead (run_book s) tx" Dead]
      last_closed[of s tx Dead "test_run_dead (run_book s) tx" "run_kept s"]
    by (simp add: test_inv_def registered_last_def test_run_dead_def)
next
  case (invalidated s)
  then show ?case
    by (simp add: test_inv_def registered_last_def last_registered_def latest_of_def channel_open_def
        kept_sent_def invalidate_all_def)
qed

lemma test_reachable_inv: "test_reachable s \<Longrightarrow> test_inv s"
  by (induction rule: test_reachable.induct) (auto intro: test_inv_init test_inv_step)

text \<open>
  C25. A test superseded by a new definition hands its result to those who wait for it and to nobody
  else: when a test ends, its result is kept, and told to the scores, exactly if no test of the
  same policy was started after it.
\<close>

theorem test_kept_iff_latest:
  assumes "test_reachable s" "channel_open (run_book s) tx" "c = run_tasks s ! tx"
    "b = test_run_end (run_book s) c tx r"
  shows "test_answer b tx now = Some r \<and>
    (if latest_of s tx
     then test_result_of b (tc_policy c) (tc_key c) = Some r \<and> tb_sunk b = tb_sunk (run_book s) @ [(c, r)]
     else tb_results b = tb_results (run_book s) \<and> tb_sunk b = tb_sunk (run_book s))"
proof -
  have inv: "registered_last s" "last_registered s"
    using test_reachable_inv[OF assms(1)] by (simp_all add: test_inv_def)
  have answer: "test_answer b tx now = Some r"
    using assms(2) by (simp add: assms(4) test_answer_def run_end_frame channel_open_def)
  show ?thesis
  proof (cases "latest_of s tx")
    case True
    then have k: "tb_running (run_book s) (tc_policy c) = Some (tc_key c, tx)"
      using inv(2) assms(2,3) by (simp add: last_registered_def)
    show ?thesis
      using True answer by (simp add: test_result_of_def assms(4) run_end_kept[OF k])
  next
    case False
    have n: "tb_running (run_book s) (tc_policy c) \<noteq> Some (k, tx)" for k
      using inv(1) False by (auto simp: registered_last_def latest_of_def assms(3))
    show ?thesis using False answer by (simp add: assms(4) run_end_superseded[OF n])
  qed
qed

text \<open>A test of one policy, asked for in an empty book.\<close>

definition example_case :: test_case where
  "example_case = \<lparr>tc_policy = ''HK'', tc_outbound = 3, tc_mode = TmUrl ''http://cp.test/'',
     tc_timeout = secs 5, tc_key = 9\<rparr>"

definition example_run :: test_run where
  "example_run = test_run_new\<lparr>run_book := fst (test_ask test_book_new example_case), run_tasks := [example_case]\<rparr>"

lemma example_asked: "test_ask test_book_new example_case = (run_book example_run, 0, True)"
  by (simp add: test_ask_def example_run_def test_book_new_def)

lemma example_run_reachable: "test_reachable example_run"
proof -
  have "test_step test_run_new
      (test_run_new\<lparr>run_book := run_book example_run, run_tasks := run_tasks test_run_new @ [example_case]\<rparr>)"
    using example_asked by (intro ask_start) (simp add: test_run_new_def)
  then have "test_step test_run_new example_run" by (simp add: example_run_def test_run_new_def)
  then show ?thesis using test_start test_next by blast
qed

theorem test_kept_iff_latest_witness:
  "test_reachable example_run \<and> channel_open (run_book example_run) 0 \<and> latest_of example_run 0 \<and>
   test_result_of (test_run_end (run_book example_run) example_case 0 \<lparr>tr_outcome = Inr (secs 1), tr_at = 7\<rparr>) ''HK'' 9 =
     Some \<lparr>tr_outcome = Inr (secs 1), tr_at = 7\<rparr>"
proof -
  have r: "run_tasks example_run ! 0 = example_case" by (simp add: example_run_def)
  have c: "channel_open (run_book example_run) 0"
    by (simp add: channel_open_def example_run_def test_ask_def test_book_new_def)
  have l: "latest_of example_run 0" by (simp add: latest_of_def example_run_def)
  show ?thesis
    using test_kept_iff_latest[OF example_run_reachable c refl refl, of "\<lparr>tr_outcome = Inr (secs 1), tr_at = 7\<rparr>"]
      example_run_reachable c l by (simp add: r) (simp add: example_case_def)
qed

end
