(* ===== verification/Rurge_Smart.thy ===== *)
theory Rurge_Smart
  imports Rurge_Testbook "HOL-Library.AList" "HOL-Library.Multiset"
begin

text \<open>
  What the \<open>smart\<close> groups know of their members (\<^verbatim>\<open>rurge-policy/src/smart.rs\<close>): a score per policy,
  what happened at each site lately, how often each group used each member, and how a dial ranks
  the members by all that.

  Scores are computed in \<open>f64\<close>. The one operation whose result the language leaves open is
  \<open>exp2\<close>: it is the argument \<open>ex\<close>, given the negated exponent. An operation that can panic (on a
  score no duration holds, or on an index) returns an option, \<^const>\<open>None\<close> for the panic. A table
  that is walked is an association list with distinct keys.
\<close>

definition HALF_LIFE :: duration where "HALF_LIFE = secs (5 * 60)"
definition PENALTY :: duration where "PENALTY = from_millis 800"
definition FAILED_SCORE :: duration where "FAILED_SCORE = from_millis 3000"
definition FAILED_IN_A_ROW :: nat where "FAILED_IN_A_ROW = 3"
definition PREFERRED :: f64 where "PREFERRED = f64_round (12 / 10)"
definition SITE_PREFERRED :: f64 where "SITE_PREFERRED = Fin 2"
definition SITE_MEMORY :: duration where "SITE_MEMORY = secs (60 * 60)"
definition SITES :: nat where "SITES = 4096"
definition POLICIES_PER_SITE :: nat where "POLICIES_PER_SITE = 16"
definition USAGE_WINDOW :: duration where "USAGE_WINDOW = secs (10 * 60)"
definition USAGE_BUCKET :: duration where "USAGE_BUCKET = secs 60"
definition ROUND_INTERVAL :: duration where "ROUND_INTERVAL = secs (5 * 60)"
definition ROUND_SAMPLE :: nat where "ROUND_SAMPLE = 12"

datatype health = Healthy duration | Unknown nat | Failed "duration option"

section \<open>The record of a policy\<close>

definition fade :: "(f64 \<Rightarrow> f64) \<Rightarrow> instant \<Rightarrow> instant \<Rightarrow> f64" where
  "fade ex since now = ex (f64_div (as_secs_f64 (now - since)) (as_secs_f64 HALF_LIFE))"

definition millis :: "duration \<Rightarrow> f64" where
  "millis d = f64_mul (as_secs_f64 d) (Fin 1000)"

record smart_record =
  sr_outbound :: outbound
  sr_sum :: f64
  sr_weight :: f64
  sr_sampled :: "instant option"
  sr_penalty :: f64
  sr_penalized :: "instant option"
  sr_failures :: nat
  sr_reported :: bool

definition record_new :: "outbound \<Rightarrow> smart_record" where
  "record_new o' =
     \<lparr>sr_outbound = o', sr_sum = Fin 0, sr_weight = Fin 0, sr_sampled = None, sr_penalty = Fin 0,
      sr_penalized = None, sr_failures = 0, sr_reported = False\<rparr>"

definition record_is_of :: "smart_record \<Rightarrow> outbound \<Rightarrow> bool" where
  "record_is_of r o' = (sr_outbound r = o')"

definition record_sample :: "(f64 \<Rightarrow> f64) \<Rightarrow> f64 \<Rightarrow> instant \<Rightarrow> smart_record \<Rightarrow> smart_record" where
  "record_sample ex ms now r =
     (let (s, w) = (case sr_sampled r of
                      Some t0 \<Rightarrow> (let f = fade ex t0 now in (f64_mul (sr_sum r) f, f64_mul (sr_weight r) f))
                    | None \<Rightarrow> (sr_sum r, sr_weight r))
      in r\<lparr>sr_sum := f64_add s ms, sr_weight := f64_add w (Fin 1), sr_sampled := Some now,
           sr_failures := 0\<rparr>)"

definition penalty_at :: "(f64 \<Rightarrow> f64) \<Rightarrow> smart_record \<Rightarrow> instant \<Rightarrow> f64" where
  "penalty_at ex r now =
     (case sr_penalized r of None \<Rightarrow> Fin 0 | Some t0 \<Rightarrow> f64_mul (sr_penalty r) (fade ex t0 now))"

definition record_failure :: "(f64 \<Rightarrow> f64) \<Rightarrow> instant \<Rightarrow> smart_record \<Rightarrow> smart_record" where
  "record_failure ex now r =
     r\<lparr>sr_penalty := f64_add (penalty_at ex r now) (millis PENALTY), sr_penalized := Some now,
       sr_failures := min (sr_failures r + 1) (2 ^ 32 - 1)\<rparr>"

definition record_health :: "(f64 \<Rightarrow> f64) \<Rightarrow> instant \<Rightarrow> smart_record \<Rightarrow> health option" where
  "record_health ex now r =
     (let judge = (\<lambda>score.
            if FAILED_IN_A_ROW \<le> sr_failures r \<or> (\<exists>s\<in>set_option score. FAILED_SCORE \<le> s) then Failed score
            else (case score of Some s \<Rightarrow> Healthy s | None \<Rightarrow> Unknown (sr_failures r)))
      in if Fin 0 < sr_weight r
         then map_option (\<lambda>s. judge (Some s))
                (from_secs_f64 (f64_div (f64_add (f64_div (sr_sum r) (sr_weight r)) (penalty_at ex r now)) (Fin 1000)))
         else Some (judge None))"

section \<open>Sites\<close>

record site_memory =
  sm_worked :: "string list"
  sm_failed :: "string list"

definition site_memory_default :: site_memory where
  "site_memory_default = \<lparr>sm_worked = [], sm_failed = []\<rparr>"

record site =
  st_used :: nat
  st_policies :: "(string \<times> bool \<times> instant) list"

record sites =
  si_hosts :: "(string \<times> site) list"
  si_clock :: nat

definition sites_default :: sites where
  "sites_default = \<lparr>si_hosts = [], si_clock = 0\<rparr>"

fun min_by_key :: "('a \<Rightarrow> nat) \<Rightarrow> 'a list \<Rightarrow> 'a option" where
  "min_by_key f [] = None"
| "min_by_key f (x # xs) =
     (case min_by_key f xs of
        Some y \<Rightarrow> if f y < f x then Some y else Some x
      | None \<Rightarrow> Some x)"

definition fresh_at :: "instant \<Rightarrow> instant \<Rightarrow> bool" where
  "fresh_at now t0 \<longleftrightarrow> now - t0 < SITE_MEMORY"

definition sites_remember :: "sites \<Rightarrow> string \<Rightarrow> string \<Rightarrow> bool \<Rightarrow> instant \<Rightarrow> bool \<times> sites" where
  "sites_remember s host policy worked now =
     (let clock = si_clock s + 1;
          hosts = (if map_of (si_hosts s) host = None \<and> SITES \<le> length (si_hosts s)
                   then (case min_by_key (\<lambda>(_, v). st_used v) (si_hosts s) of
                           Some (oldest, _) \<Rightarrow> AList.delete oldest (si_hosts s)
                         | None \<Rightarrow> si_hosts s)
                   else si_hosts s);
          policies = (case map_of hosts host of Some v \<Rightarrow> st_policies v | None \<Rightarrow> []);
          failed_here = list_ex (\<lambda>(_, it_worked, t0). \<not> it_worked \<and> fresh_at now t0) policies;
          kept = filter (\<lambda>(p, _, t0). p \<noteq> policy \<and> fresh_at now t0) policies @ [(policy, worked, now)];
          bounded = (if POLICIES_PER_SITE < length kept then tl kept else kept)
      in (failed_here, \<lparr>si_hosts = AList.update host \<lparr>st_used = clock, st_policies = bounded\<rparr> hosts,
                        si_clock = clock\<rparr>))"

definition sites_read :: "sites \<Rightarrow> string \<Rightarrow> instant \<Rightarrow> site_memory \<times> sites" where
  "sites_read s host now =
     (let clock = si_clock s + 1
      in case map_of (si_hosts s) host of
           None \<Rightarrow> (site_memory_default, s\<lparr>si_clock := clock\<rparr>)
         | Some v \<Rightarrow>
             (let recent = filter (\<lambda>(_, _, t0). fresh_at now t0) (st_policies v)
              in (\<lparr>sm_worked = map fst (filter (\<lambda>(_, w, _). w) recent),
                   sm_failed = map fst (filter (\<lambda>(_, w, _). \<not> w) recent)\<rparr>,
                  \<lparr>si_hosts = AList.update host (v\<lparr>st_used := clock\<rparr>) (si_hosts s), si_clock = clock\<rparr>)))"

section \<open>Uses of the members of a grp\<close>

type_synonym usage = "(instant \<times> (string \<rightharpoonup> nat)) list"

definition usage_add :: "string \<Rightarrow> instant \<Rightarrow> usage \<Rightarrow> usage" where
  "usage_add member now buckets =
     (let kept = dropWhile (\<lambda>(start, _). USAGE_WINDOW \<le> now - start) buckets;
          rows = (if kept = [] \<or> USAGE_BUCKET \<le> now - fst (last kept) then kept @ [(now, Map.empty)] else kept);
          (start, bucket) = last rows;
          n = (case bucket member of Some n \<Rightarrow> n | None \<Rightarrow> 0)
      in butlast rows @ [(start, bucket(member \<mapsto> n + 1))])"

definition usage_count :: "usage \<Rightarrow> string \<Rightarrow> instant \<Rightarrow> nat" where
  "usage_count buckets member now =
     sum_list (List.map_filter (\<lambda>(start, bucket). if now - start < USAGE_WINDOW then bucket member else None) buckets)"

section \<open>The ranking of a dial\<close>

record candidate =
  cd_name :: string
  cd_health :: health
  cd_factor :: f64

record ranking =
  rk_pick :: string
  rk_retry :: "string list"

definition healthy_of :: "candidate list \<Rightarrow> (nat \<times> f64) list" where
  "healthy_of cs =
     sort_key (\<lambda>(i, s). (s, i))
       (List.map_filter (\<lambda>(i, c). case cd_health c of
            Healthy score \<Rightarrow> Some (i, f64_mul (as_secs_f64 score) (cd_factor c)) | _ \<Rightarrow> None)
          (List.enumerate 0 cs))"

definition unknown_of :: "candidate list \<Rightarrow> (nat \<times> nat) list" where
  "unknown_of cs =
     sort_key (\<lambda>(i, failures). (failures, i))
       (List.map_filter (\<lambda>(i, c). case cd_health c of Unknown failures \<Rightarrow> Some (i, failures) | _ \<Rightarrow> None)
          (List.enumerate 0 cs))"

definition failed_of :: "candidate list \<Rightarrow> (nat \<times> duration option) list" where
  "failed_of cs =
     sort_key (\<lambda>(i, score). (score = None, score, i))
       (List.map_filter (\<lambda>(i, c). case cd_health c of Failed score \<Rightarrow> Some (i, score) | _ \<Rightarrow> None)
          (List.enumerate 0 cs))"

text \<open>Where everybody stands, before those that failed at the site lately are put last.\<close>

definition line_of :: "candidate list \<Rightarrow> nat list" where
  "line_of cs = map fst (healthy_of cs) @ map fst (unknown_of cs) @ map fst (failed_of cs)"

definition named_in :: "candidate list \<Rightarrow> string list \<Rightarrow> nat \<Rightarrow> bool" where
  "named_in cs names i = (cd_name (cs ! i) \<in> set names)"

definition order_of :: "candidate list \<Rightarrow> site_memory \<Rightarrow> nat list" where
  "order_of cs mem =
     filter (\<lambda>i. \<not> named_in cs (sm_failed mem) i) (line_of cs) @
     filter (\<lambda>i. named_in cs (sm_failed mem) i) (line_of cs)"

definition usable_of :: "candidate list \<Rightarrow> site_memory \<Rightarrow> (nat \<times> f64) list" where
  "usable_of cs mem = filter (\<lambda>(i, _). \<not> named_in cs (sm_failed mem) i) (healthy_of cs)"

definition known_of :: "candidate list \<Rightarrow> site_memory \<Rightarrow> nat option" where
  "known_of cs mem =
     (case healthy_of cs of
        [] \<Rightarrow> None
      | (_, best) # _ \<Rightarrow>
          map_option fst (List.find (\<lambda>(i, score). named_in cs (sm_worked mem) i \<and>
                                                  score \<le> f64_mul best SITE_PREFERRED) (usable_of cs mem)))"

definition preferred_of :: "candidate list \<Rightarrow> site_memory \<Rightarrow> nat list" where
  "preferred_of cs mem =
     (case usable_of cs mem of
        [] \<Rightarrow> []
      | (_, best) # _ \<Rightarrow> map fst (takeWhile (\<lambda>(_, score). score \<le> f64_mul best PREFERRED) (usable_of cs mem)))"

text \<open>The index of the one a dial uses: within, \<^const>\<open>None\<close> when there is nobody.\<close>

definition pick_of :: "candidate list \<Rightarrow> site_memory \<Rightarrow> (nat \<Rightarrow> nat) \<Rightarrow> nat option option" where
  "pick_of cs mem pick_at =
     (case known_of cs mem of
        Some i \<Rightarrow> Some (Some i)
      | None \<Rightarrow>
          if usable_of cs mem \<noteq> [] then
            (let n = length (preferred_of cs mem)
             in if n = 0 then None else Some (Some (preferred_of cs mem ! min (pick_at n) (n - 1))))
          else (case order_of cs mem of [] \<Rightarrow> Some None | i # _ \<Rightarrow> Some (Some i)))"

definition rank :: "candidate list \<Rightarrow> site_memory \<Rightarrow> (nat \<Rightarrow> nat) \<Rightarrow> ranking option option" where
  "rank cs mem pick_at =
     map_option (map_option (\<lambda>pick.
         \<lparr>rk_pick = cd_name (cs ! pick),
          rk_retry = map (\<lambda>i. cd_name (cs ! i)) (filter (\<lambda>i. i \<noteq> pick) (order_of cs mem))\<rparr>))
       (pick_of cs mem pick_at)"

text \<open>\<open>sample\<close>: the members a regular round of a big grp tests.\<close>

definition round_sample :: "string list \<Rightarrow> string list \<Rightarrow> (string \<Rightarrow> instant option) \<Rightarrow> string list" where
  "round_sample members most_used tested_at =
     (if length members \<le> ROUND_SAMPLE then members else
      let out = take (ROUND_SAMPLE div 2) (filter (\<lambda>m. m \<in> set members) most_used);
          rest = sort (List.map_filter (\<lambda>(i, m). if m \<in> set out then None else Some (tested_at m, i))
                         (List.enumerate 0 members));
          room = ROUND_SAMPLE - length out
      in out @ map (\<lambda>(_, i). members ! i) (take room rest))"

section \<open>The book\<close>

record smart_book =
  sb_records :: "string \<rightharpoonup> smart_record"
  sb_sites :: sites
  sb_usage :: "string \<rightharpoonup> usage"

definition smart_book_new :: smart_book where
  "smart_book_new = \<lparr>sb_records = Map.empty, sb_sites = sites_default, sb_usage = Map.empty\<rparr>"

definition record_of :: "(string \<rightharpoonup> smart_record) \<Rightarrow> string \<Rightarrow> outbound \<Rightarrow> smart_record" where
  "record_of rs policy o' =
     (case rs policy of Some r \<Rightarrow> if record_is_of r o' then r else record_new o' | None \<Rightarrow> record_new o')"

fun is_failed :: "health \<Rightarrow> bool" where
  "is_failed (Failed _) = True"
| "is_failed _ = False"

definition book_change :: "(f64 \<Rightarrow> f64) \<Rightarrow> string \<Rightarrow> outbound \<Rightarrow> instant \<Rightarrow> bool \<Rightarrow>
    (smart_record \<Rightarrow> smart_record) \<Rightarrow> smart_book \<Rightarrow> (bool option \<times> smart_book) option" where
  "book_change ex policy o' now by_session ch b =
     (let r = record_of (sb_records b) policy o';
          r1 = r\<lparr>sr_reported := (sr_reported r \<or> by_session)\<rparr>;
          r2 = ch r1
      in case (record_health ex now r1, record_health ex now r2) of
           (Some was, Some h) \<Rightarrow>
             Some (if is_failed was \<noteq> is_failed h \<and> sr_reported r2 then Some (is_failed h) else None,
                   b\<lparr>sb_records := (sb_records b)(policy \<mapsto> r2)\<rparr>)
         | _ \<Rightarrow> None)"

definition book_sample :: "(f64 \<Rightarrow> f64) \<Rightarrow> string \<Rightarrow> outbound \<Rightarrow> duration \<Rightarrow> instant \<Rightarrow> smart_book \<Rightarrow> smart_book option" where
  "book_sample ex policy o' latency now b =
     map_option snd (book_change ex policy o' now False (record_sample ex (millis latency) now) b)"

definition book_failure :: "(f64 \<Rightarrow> f64) \<Rightarrow> string \<Rightarrow> outbound \<Rightarrow> instant \<Rightarrow> smart_book \<Rightarrow> smart_book option" where
  "book_failure ex policy o' now b =
     map_option snd (book_change ex policy o' now False (record_failure ex now) b)"

definition book_health :: "(f64 \<Rightarrow> f64) \<Rightarrow> smart_book \<Rightarrow> string \<Rightarrow> outbound \<Rightarrow> instant \<Rightarrow> health option" where
  "book_health ex b policy o' now =
     (case sb_records b policy of
        Some r \<Rightarrow> if record_is_of r o' then record_health ex now r else Some (Unknown 0)
      | None \<Rightarrow> Some (Unknown 0))"

definition report_success :: "(f64 \<Rightarrow> f64) \<Rightarrow> string \<Rightarrow> outbound \<Rightarrow> string option \<Rightarrow> duration \<Rightarrow> instant \<Rightarrow>
    smart_book \<Rightarrow> smart_book option" where
  "report_success ex policy o' host latency now b =
     (case book_change ex policy o' now True (record_sample ex (millis latency) now) b of
        None \<Rightarrow> None
      | Some (_, b1) \<Rightarrow>
          Some (case host of
                  Some h \<Rightarrow> b1\<lparr>sb_sites := snd (sites_remember (sb_sites b1) h policy True now)\<rparr>
                | None \<Rightarrow> b1))"

definition report_failure :: "(f64 \<Rightarrow> f64) \<Rightarrow> string \<Rightarrow> outbound \<Rightarrow> string option \<Rightarrow> instant \<Rightarrow>
    smart_book \<Rightarrow> smart_book option" where
  "report_failure ex policy o' host now b =
     (let (excused, b1) = (case host of
            Some h \<Rightarrow> (let (e, s) = sites_remember (sb_sites b) h policy False now in (e, b\<lparr>sb_sites := s\<rparr>))
          | None \<Rightarrow> (False, b))
      in if excused then Some b1
         else map_option snd (book_change ex policy o' now True (record_failure ex now) b1))"

definition book_site :: "string \<Rightarrow> instant \<Rightarrow> smart_book \<Rightarrow> site_memory \<times> smart_book" where
  "book_site host now b =
     (let (m, s) = sites_read (sb_sites b) host now in (m, b\<lparr>sb_sites := s\<rparr>))"

definition book_used :: "string \<Rightarrow> string \<Rightarrow> instant \<Rightarrow> smart_book \<Rightarrow> smart_book" where
  "book_used grp member now b =
     b\<lparr>sb_usage := (sb_usage b)(grp \<mapsto>
         usage_add member now (case sb_usage b grp of Some u \<Rightarrow> u | None \<Rightarrow> []))\<rparr>"

definition most_used :: "smart_book \<Rightarrow> string \<Rightarrow> string list \<Rightarrow> instant \<Rightarrow> string list" where
  "most_used b grp members now =
     (case sb_usage b grp of
        None \<Rightarrow> []
      | Some u \<Rightarrow>
          map (\<lambda>(_, i). members ! i)
            (sort_key (\<lambda>(n, i). (- int n, i))
              (filter (\<lambda>(n, _). 0 < n)
                (map (\<lambda>(i, m). (usage_count u m now, i)) (List.enumerate 0 members)))))"

definition book_retain :: "(string \<Rightarrow> bool) \<Rightarrow> smart_book \<Rightarrow> smart_book" where
  "book_retain keep b =
     b\<lparr>sb_records := (\<lambda>p. if keep p then sb_records b p else None),
       sb_sites := (sb_sites b)\<lparr>si_hosts :=
         map (\<lambda>(h, v). (h, v\<lparr>st_policies := filter (\<lambda>(p, _, _). keep p) (st_policies v)\<rparr>))
           (si_hosts (sb_sites b))\<rparr>,
       sb_usage := (\<lambda>g. if keep g then sb_usage b g else None)\<rparr>"

text \<open>The tests feed the scores too.\<close>

definition book_tested :: "(f64 \<Rightarrow> f64) \<Rightarrow> test_case \<Rightarrow> test_result \<Rightarrow> smart_book \<Rightarrow> smart_book option" where
  "book_tested ex c r b =
     (case tr_outcome r of
        Inr score \<Rightarrow> book_sample ex (tc_policy c) (tc_outbound c) score (tr_at r) b
      | Inl _ \<Rightarrow> book_failure ex (tc_policy c) (tc_outbound c) (tr_at r) b)"

end
