(* ===== verification/Rurge_Items.thy ===== *)
theory Rurge_Items
  imports Rurge_Value
begin

text \<open>
  Which commas of a line cut it. The two passes of \<open>item_spans\<close> are brought to one condition on
  the marks in front of a comma and behind it; from that it follows when a list of texts is
  the list of the items of the line they are joined to.
\<close>

section \<open>Parentheses\<close>

text \<open>The parentheses that close nothing in a list of marks, and those that nothing closes.\<close>

fun closes :: "mark list \<Rightarrow> nat" where
  "closes [] = 0"
| "closes (Open # ms) = closes ms - 1"
| "closes (Close # ms) = closes ms + 1"
| "closes (Comma at w # ms) = closes ms"
| "closes (Eq at # ms) = closes ms"

fun opens_from :: "nat \<Rightarrow> mark list \<Rightarrow> nat" where
  "opens_from s [] = s"
| "opens_from s (Open # ms) = opens_from (s + 1) ms"
| "opens_from s (Close # ms) = opens_from (s - 1) ms"
| "opens_from s (Comma at w # ms) = opens_from s ms"
| "opens_from s (Eq at # ms) = opens_from s ms"

abbreviation opens :: "mark list \<Rightarrow> nat" where
  "opens \<equiv> opens_from 0"

lemma opens_from_closes: "opens_from s ms = opens ms + (s - closes ms)"
proof (induction ms arbitrary: s)
  case (Cons m ms)
  show ?case
  proof (cases m)
    case Open
    show ?thesis using Cons[of "s + 1"] Cons[of 1] by (simp add: Open)
  next
    case Close
    show ?thesis using Cons[of "s - 1"] by (simp add: Close)
  qed (use Cons[of s] in simp_all)
qed simp

lemma opens_from_append: "opens_from s (xs @ ys) = opens_from (opens_from s xs) ys"
  by (induction s xs rule: opens_from.induct) auto

lemma opens_append: "opens (xs @ ys) = opens ys + (opens xs - closes ys)"
  by (simp add: opens_from_append opens_from_closes[of "opens xs"])

lemma closes_append: "closes (xs @ ys) = closes xs + (closes ys - opens xs)"
proof (induction xs)
  case (Cons m xs)
  then show ?case using opens_from_closes[of 1 xs] by (cases m) auto
qed simp

text \<open>A place in a line is outside every group: nothing open in front of it is closed behind it.\<close>

definition outside :: "mark list \<Rightarrow> mark list \<Rightarrow> bool" where
  "outside before behind \<longleftrightarrow> opens before = 0 \<or> closes behind = 0"

lemma inside_arith:
  fixes p a c a' c' z :: nat
  assumes "p = 0 \<or> c + ((c' + (z - a')) - a) = 0" "a' + ((a + (p - c)) - c') = 0 \<or> z = 0"
  shows "(a + (p - c) = 0 \<or> c' + (z - a') = 0) \<longleftrightarrow> (a = 0 \<or> c' = 0)"
  using assms by (elim disjE) auto

text \<open>Within an item the marks outside it make no difference.\<close>

lemma outside_inside:
  assumes "outside P (pre @ m # suf @ S)" "outside (P @ pre @ m # suf) S" "closes [m] = 0" "opens [m] = 0"
  shows "outside (P @ pre) (suf @ S) \<longleftrightarrow> outside pre suf"
proof -
  have m: "closes (m # ms) = closes ms" "opens (m # ms) = opens ms" for ms
    using closes_append[of "[m]" ms] opens_append[of "[m]" ms] assms(3,4) by simp_all
  have "opens P = 0 \<or> closes pre + ((closes suf + (closes S - opens suf)) - opens pre) = 0"
    using assms(1) by (simp add: outside_def closes_append m)
  moreover have "opens suf + ((opens pre + (opens P - closes pre)) - closes suf) = 0 \<or> closes S = 0"
    using assms(2) unfolding outside_def append_assoc[symmetric] opens_append m by simp
  ultimately show ?thesis
    unfolding outside_def closes_append opens_append by (rule inside_arith)
qed

section \<open>The second pass\<close>

fun pairs :: "nat \<Rightarrow> mark list \<Rightarrow> bool list" where
  "pairs s [] = []"
| "pairs s (Open # ms) = (0 < closes ms) # pairs (s + 1) ms"
| "pairs s (Close # ms) = (0 < s) # pairs (s - 1) ms"
| "pairs s (Comma at w # ms) = False # pairs s ms"
| "pairs s (Eq at # ms) = False # pairs s ms"

definition paired_as :: "bool list \<Rightarrow> nat \<Rightarrow> nat list \<Rightarrow> bool list \<Rightarrow> mark list \<Rightarrow> bool" where
  "paired_as R k opened P ms \<longleftrightarrow>
     (\<forall>j<length ms. R ! (k + j) = pairs (length opened) ms ! j) \<and>
     (\<forall>i<length opened. R ! (opened ! i) = (i < closes ms)) \<and>
     (\<forall>j<k. j \<notin> set opened \<longrightarrow> R ! j = P ! j)"

lemma paired_as_next:
  assumes "paired_as R (k + 1) opened P ms"
  shows "\<forall>j<length ms. R ! Suc (k + j) = pairs (length opened) ms ! j"
    "\<forall>i<length opened. R ! (opened ! i) = (i < closes ms)"
    "\<forall>j<k. j \<notin> set opened \<longrightarrow> R ! j = P ! j" "k \<notin> set opened \<Longrightarrow> R ! k = P ! k"
  using assms by (simp_all add: paired_as_def)

lemma pair_loop_pairs:
  assumes "length P = k + length ms" "distinct opened" "\<forall>j\<in>set opened. j < k" "\<forall>j<length P. k \<le> j \<longrightarrow> \<not> P ! j"
    "\<forall>j\<in>set opened. \<not> P ! j"
  shows "paired_as (pair_loop k opened P ms) k opened P ms"
  using assms
proof (induction ms arbitrary: k opened P)
  case Nil
  then show ?case by (simp add: paired_as_def)
next
  case (Cons m ms)
  have k: "\<not> P ! k" "k \<notin> set opened" using Cons.prems(1,3,4) by auto
  show ?case
  proof (cases m)
    case Open
    have "paired_as (pair_loop (k + 1) (k # opened) P ms) (k + 1) (k # opened) P ms"
      using Cons.prems k by (intro Cons.IH) auto
    from paired_as_next[OF this] show ?thesis by (simp add: Open paired_as_def All_less_Suc2 less_diff_conv)
  next
    case Close
    show ?thesis
    proof (cases opened)
      case Nil
      have "paired_as (pair_loop (k + 1) [] P ms) (k + 1) [] P ms"
        using Cons.prems by (intro Cons.IH) auto
      from paired_as_next[OF this] k show ?thesis by (simp add: Close Nil paired_as_def All_less_Suc2)
    next
      case (Cons o' os)
      let ?P = "P[o' := True, k := True]"
      have o: "o' \<notin> set os" "o' < k" "k \<notin> set os" using Cons.prems Cons by auto
      have "paired_as (pair_loop (k + 1) os ?P ms) (k + 1) os ?P ms"
        using Cons.prems Cons by (intro Cons.IH) (auto simp: nth_list_update)
      note n = paired_as_next[OF this]
      have "pair_loop (k + 1) os ?P ms ! o'" using n(3) o Cons.prems(1) by simp
      then show ?thesis
        using n o Cons.prems(1) by (simp add: Close Cons paired_as_def All_less_Suc2)
    qed
  next
    case (Comma at' w)
    have "paired_as (pair_loop (k + 1) opened P ms) (k + 1) opened P ms"
      using Cons.prems by (intro Cons.IH) auto
    from paired_as_next[OF this] k show ?thesis by (simp add: Comma paired_as_def All_less_Suc2)
  next
    case (Eq at')
    have "paired_as (pair_loop (k + 1) opened P ms) (k + 1) opened P ms"
      using Cons.prems by (intro Cons.IH) auto
    from paired_as_next[OF this] k show ?thesis by (simp add: Eq paired_as_def All_less_Suc2)
  qed
qed

text \<open>The second pass by that condition; \<open>s\<close> is what is open in front.\<close>

fun cuts :: "nat \<Rightarrow> nat \<Rightarrow> nat option \<Rightarrow> mark list \<Rightarrow> item_span list \<times> nat \<times> nat option" where
  "cuts s start eq [] = ([], start, eq)"
| "cuts s start eq (Open # ms) = cuts (s + 1) start eq ms"
| "cuts s start eq (Close # ms) = cuts (s - 1) start eq ms"
| "cuts s start eq (Eq at # ms) =
     cuts s start (if (s = 0 \<or> closes ms = 0) \<and> eq = None then Some at else eq) ms"
| "cuts s start eq (Comma at w # ms) =
     (if s = 0 \<or> closes ms = 0 then
        (case cuts s (at + w) None ms of
           (spans, rest) \<Rightarrow>
             (\<lparr>span_start = start, span_end = at, span_sep_end = at + w, span_eq = eq\<rparr> # spans, rest))
      else cuts s start eq ms)"

lemma spans_loop_cuts:
  "\<forall>j<length ms. R ! (k + j) = pairs s ms ! j \<Longrightarrow>
     spans_loop R k (min s (closes ms)) start eq ms = cuts s start eq ms"
proof (induction ms arbitrary: k s start eq)
  case (Cons m ms)
  have R: "R ! k = pairs s (m # ms) ! 0" using Cons.prems by fastforce
  have tail: "R ! (k + 1 + j) = pairs s (m # ms) ! Suc j" if "j < length ms" for j
    using Cons.prems that by (metis Suc_eq_plus1 add.assoc add.commute length_Cons not_less_eq)
  show ?case
  proof (cases m)
    case Open
    have "\<forall>j<length ms. R ! (k + 1 + j) = pairs (s + 1) ms ! j" using tail by (simp add: Open)
    moreover have "(if R ! k then min s (closes (m # ms)) + 1 else min s (closes (m # ms))) = min (s + 1) (closes ms)"
      using R by (auto simp: Open)
    ultimately show ?thesis
      using Cons.IH[of "k + 1" "s + 1"] by (simp only: Open spans_loop.simps cuts.simps)
  next
    case Close
    have "\<forall>j<length ms. R ! (k + 1 + j) = pairs (s - 1) ms ! j" using tail by (simp add: Close)
    moreover have "(if R ! k then min s (closes (m # ms)) - 1 else min s (closes (m # ms))) = min (s - 1) (closes ms)"
      using R by (auto simp: Close)
    ultimately show ?thesis
      using Cons.IH[of "k + 1" "s - 1"] by (simp only: Close spans_loop.simps cuts.simps)
  next
    case (Comma at' w)
    have "\<forall>j<length ms. R ! (k + 1 + j) = pairs s ms ! j" using tail by (simp add: Comma)
    then have "spans_loop R (k + 1) (min s (closes ms)) start' eq' ms = cuts s start' eq' ms" for start' eq'
      using Cons.IH by blast
    then show ?thesis by (auto simp: Comma min_def split: if_splits prod.splits)
  next
    case (Eq at')
    have "\<forall>j<length ms. R ! (k + 1 + j) = pairs s ms ! j" using tail by (simp add: Eq)
    then have "spans_loop R (k + 1) (min s (closes ms)) start' eq' ms = cuts s start' eq' ms" for start' eq'
      using Cons.IH by blast
    then show ?thesis by (auto simp: Eq min_def split: if_splits)
  qed
qed simp

abbreviation item_marks :: "string \<Rightarrow> mark list" where
  "item_marks \<equiv> marks_from 0 True False None"

lemma item_spans_cuts:
  "item_spans t =
     (case cuts 0 0 None (item_marks t) of
        (spans, start, eq) \<Rightarrow>
          spans @ [\<lparr>span_start = start, span_end = length t, span_sep_end = length t, span_eq = eq\<rparr>])"
proof -
  let ?ms = "item_marks t"
  have "\<forall>j<length ?ms. pair_loop 0 [] (replicate (length ?ms) False) ?ms ! (0 + j) = pairs (length ([] :: nat list)) ?ms ! j"
    using pair_loop_pairs[of "replicate (length ?ms) False" 0 ?ms "[]"] by (simp add: paired_as_def)
  then show ?thesis using spans_loop_cuts[of ?ms _ 0 0 0 None] by (simp add: item_spans_def Let_def)
qed

section \<open>The first pass\<close>

text \<open>The state in which the first pass leaves a text.\<close>

fun scan :: "bool \<Rightarrow> bool \<Rightarrow> char option \<Rightarrow> string \<Rightarrow> bool \<times> bool \<times> char option" where
  "scan at_start seen_eq quote [] = (at_start, seen_eq, quote)"
| "scan at_start seen_eq (Some q) (c # cs) =
     (if q = CHR 0x22 \<and> c = CHR 0x5C then scan at_start seen_eq (Some q) (tl cs)
      else if c = q then scan at_start seen_eq None cs
      else scan at_start seen_eq (Some q) cs)"
| "scan at_start seen_eq None (c # cs) =
     (if at_start \<and> is_whitespace c then scan at_start seen_eq None cs
      else if at_start \<and> (c = CHR 0x22 \<or> c = CHR 0x27) then scan False seen_eq (Some c) cs
      else if c = CHR '','' then scan True False None cs
      else if c = CHR ''('' then scan True False None cs
      else if c = CHR '')'' then scan False seen_eq None cs
      else if c = CHR ''='' \<and> \<not> seen_eq then scan True True None cs
      else scan False seen_eq None cs)"

abbreviation ends_quote :: "bool \<Rightarrow> bool \<Rightarrow> char option \<Rightarrow> string \<Rightarrow> char option" where
  "ends_quote a e q x \<equiv> snd (snd (scan a e q x))"

definition closed_item :: "string \<Rightarrow> bool" where
  "closed_item x \<longleftrightarrow> ends_quote True False None x = None"

text \<open>One step of the pass: the marks it notes, and the state it goes on in.\<close>

definition steps_to :: "bool \<Rightarrow> bool \<Rightarrow> char option \<Rightarrow> string \<Rightarrow> (nat \<Rightarrow> mark list) \<Rightarrow> bool \<Rightarrow> bool \<Rightarrow> char option \<Rightarrow> bool" where
  "steps_to a e q pre Y a' e' q' \<longleftrightarrow>
     (\<forall>p. scan a e q (pre @ p) = scan a' e' q' p) \<and>
     (\<forall>i p. marks_from i a e q (pre @ p) = Y i @ marks_from (i + length pre) a' e' q' p)"

abbreviation quotes :: "char option set" where
  "quotes \<equiv> {None, Some CHR 0x22, Some CHR 0x27}"

definition jots :: "string \<Rightarrow> char option \<Rightarrow> (nat \<Rightarrow> mark list) \<Rightarrow> bool \<Rightarrow> bool \<Rightarrow> char option \<Rightarrow> bool" where
  "jots pre q Y a' e' q' \<longleftrightarrow> (q \<in> quotes \<longrightarrow> q' \<in> quotes) \<and>
     (Y = (\<lambda>_. []) \<or> Y = (\<lambda>_. [Open]) \<or> Y = (\<lambda>_. [Close]) \<or>
      q = None \<and> pre = '','' \<and> Y = (\<lambda>i. [Comma i 1]) \<and> a' \<and> \<not> e' \<and> q' = None \<or>
      q = None \<and> pre = ''='' \<and> Y = (\<lambda>i. [Eq i]) \<and> a' \<and> e' \<and> q' = None)"

lemma step_plain: "\<exists>Y a' e' q'. steps_to a e None [c] Y a' e' q' \<and> jots [c] None Y a' e' q'"
proof -
  consider (blank) "a" "is_whitespace c" | (quote) "a" "\<not> is_whitespace c" "c = CHR 0x22 \<or> c = CHR 0x27"
    | (comma) "c = CHR '',''" "\<not> (a \<and> is_whitespace c)" | (bracket) "c = CHR ''(''" "\<not> (a \<and> is_whitespace c)"
    | (close) "c = CHR '')''" "\<not> (a \<and> is_whitespace c)" | (eq) "c = CHR ''=''" "\<not> e" "\<not> (a \<and> is_whitespace c)"
    | (other) "\<not> (a \<and> is_whitespace c)" "\<not> (a \<and> (c = CHR 0x22 \<or> c = CHR 0x27))"
        "c \<noteq> CHR '',''" "c \<noteq> CHR ''(''" "c \<noteq> CHR '')''" "\<not> (c = CHR ''='' \<and> \<not> e)"
    by blast
  then show ?thesis
  proof cases
    case blank
    then have "steps_to a e None [c] (\<lambda>_. []) a e None" by (simp add: steps_to_def)
    then show ?thesis unfolding jots_def by blast
  next
    case quote
    then have "steps_to a e None [c] (\<lambda>_. []) False e (Some c)" by (simp add: steps_to_def)
    then show ?thesis using quote unfolding jots_def by blast
  next
    case comma
    then have "steps_to a e None [c] (\<lambda>i. [Comma i 1]) True False None" by (auto simp: steps_to_def)
    then show ?thesis using comma unfolding jots_def by blast
  next
    case bracket
    then have "steps_to a e None [c] (\<lambda>_. [Open]) True False None" by (auto simp: steps_to_def)
    then show ?thesis unfolding jots_def by blast
  next
    case close
    then have "steps_to a e None [c] (\<lambda>_. [Close]) False e None" by (auto simp: steps_to_def)
    then show ?thesis unfolding jots_def by blast
  next
    case eq
    then have "steps_to a e None [c] (\<lambda>i. [Eq i]) True True None" by (auto simp: steps_to_def)
    then show ?thesis using eq unfolding jots_def by blast
  next
    case other
    then have "steps_to a e None [c] (\<lambda>_. []) False e None" by (auto simp: steps_to_def)
    then show ?thesis unfolding jots_def by blast
  qed
qed

lemma step_quoted:
  "q = CHR 0x22 \<and> c = CHR 0x5C \<Longrightarrow> steps_to a e (Some q) [c, d] (\<lambda>_. []) a e (Some q)"
  "\<not> (q = CHR 0x22 \<and> c = CHR 0x5C) \<Longrightarrow>
     steps_to a e (Some q) [c] (\<lambda>_. []) a e (if c = q then None else Some q)"
  by (auto simp: steps_to_def)

text \<open>Induction along the pass. A backslash that ends a quoted text is followed by nothing.\<close>

lemma scan_induct [case_names empty escape step]:
  assumes "\<And>a e q. P a e q []" "\<And>a e. P a e (Some CHR 0x22) [CHR 0x5C]"
    "\<And>a e q pre Y a' e' q' z. steps_to a e q pre Y a' e' q' \<Longrightarrow> jots pre q Y a' e' q' \<Longrightarrow> P a' e' q' z \<Longrightarrow>
       P a e q (pre @ z)"
  shows "P a e q x"
proof (induction "length x" arbitrary: a e q x rule: less_induct)
  case less
  show ?case
  proof (cases x)
    case Nil
    then show ?thesis using assms(1) by simp
  next
    case (Cons c cs)
    show ?thesis
    proof (cases q)
      case None
      obtain Y a' e' q' where "steps_to a e None [c] Y a' e' q'" "jots [c] None Y a' e' q'" using step_plain by blast
      moreover have "P a' e' q' cs" using less[of cs] Cons by simp
      ultimately show ?thesis using assms(3)[of a e None "[c]" Y a' e' q' cs] Cons None by simp
    next
      case (Some b)
      show ?thesis
      proof (cases "b = CHR 0x22 \<and> c = CHR 0x5C")
        case True
        show ?thesis
        proof (cases cs)
          case Nil
          then show ?thesis using assms(2) True Some Cons by simp
        next
          case (Cons d ds)
          have "jots [c, d] q (\<lambda>_. []) a e q" by (simp add: jots_def)
          then show ?thesis
            using assms(3)[of a e q "[c, d]" "\<lambda>_. []" a e q ds] step_quoted(1)[OF True, of a e d] less[of ds]
              \<open>x = c # cs\<close> Cons Some by simp
        qed
      next
        case False
        have "jots [c] q (\<lambda>_. []) a e (if c = b then None else Some b)" using Some by (simp add: jots_def)
        then show ?thesis
          using assms(3)[of a e q "[c]" "\<lambda>_. []" a e "if c = b then None else Some b" cs]
            step_quoted(2)[OF False, of a e] less[of cs] Cons Some by simp
      qed
    qed
  qed
qed

lemma marks_scan_append:
  "scan a e q x = (a', e', None) \<Longrightarrow>
     marks_from i a e q (x @ y) = marks_from i a e q x @ marks_from (i + length x) a' e' None y \<and>
     scan a e q (x @ y) = scan a' e' None y"
proof (induction a e q x arbitrary: i rule: scan_induct)
  case (step a e q pre Y a1 e1 q1 z)
  then show ?case by (simp add: steps_to_def add.assoc)
qed simp_all

lemma ends_quote_char:
  "ends_quote a e q x = Some b \<Longrightarrow> q \<in> quotes \<Longrightarrow> marks_from i a e q (x @ '','') = marks_from i a e q x"
proof (induction a e q x arbitrary: i rule: scan_induct)
  case (empty a e q)
  then show ?case by auto
next
  case (step a e q pre Y a1 e1 q1 z)
  have "q1 \<in> quotes" using step.hyps(2) step.prems(2) unfolding jots_def by blast
  then have "marks_from (i + length pre) a1 e1 q1 (z @ '','') = marks_from (i + length pre) a1 e1 q1 z"
    using step.IH[of "i + length pre"] step.hyps(1) step.prems(1) by (simp add: steps_to_def)
  then show ?case using step.hyps(1) by (simp add: steps_to_def)
qed simp

text \<open>A comma or an \<open>=\<close> that was noted stands outside quotes, and the pass goes on behind it.\<close>

definition mark_char :: "mark \<Rightarrow> char" where
  "mark_char m = (case m of Eq _ \<Rightarrow> CHR ''='' | _ \<Rightarrow> CHR '','')"

definition noted :: "nat \<Rightarrow> bool \<Rightarrow> bool \<Rightarrow> char option \<Rightarrow> string \<Rightarrow> mark list \<Rightarrow> mark \<Rightarrow> mark list \<Rightarrow> bool" where
  "noted i a e q t X m S \<longleftrightarrow>
     (\<exists>p u a' e'. t = p @ mark_char m # u \<and> scan a e q p = (a', e', None) \<and> X = marks_from i a e q p \<and>
        (m = Comma (i + length p) 1 \<or> m = Eq (i + length p)) \<and>
        scan a e q (p @ [mark_char m]) = (True, mark_char m = CHR ''='', None) \<and>
        S = marks_from (i + length p + 1) True (mark_char m = CHR ''='') None u)"

lemma noted_behind:
  assumes "noted (i + length pre) a1 e1 q1 t X m S" "steps_to a e q pre Y a1 e1 q1"
  shows "noted i a e q (pre @ t) (Y i @ X) m S"
proof -
  obtain p u a' e' where "t = p @ mark_char m # u" "scan a1 e1 q1 p = (a', e', None)"
    "X = marks_from (i + length pre) a1 e1 q1 p"
    "m = Comma (i + length pre + length p) 1 \<or> m = Eq (i + length pre + length p)"
    "scan a1 e1 q1 (p @ [mark_char m]) = (True, mark_char m = CHR ''='', None)"
    "S = marks_from (i + length pre + length p + 1) True (mark_char m = CHR ''='') None u"
    using assms(1) unfolding noted_def by blast
  then show ?thesis unfolding noted_def using assms(2)
    by (intro exI[of _ "pre @ p"] exI[of _ u] exI[of _ a'] exI[of _ e']) (simp add: steps_to_def add.assoc)
qed

lemma noted_here:
  "scan a e None '','' = (True, False, None) \<Longrightarrow>
     noted i a e None (CHR '','' # u) [] (Comma i 1) (marks_from (i + 1) True False None u)"
  "scan a e None ''='' = (True, True, None) \<Longrightarrow>
     noted i a e None (CHR ''='' # u) [] (Eq i) (marks_from (i + 1) True True None u)"
  unfolding noted_def by (intro exI[of _ "[]"] exI[of _ u], simp add: mark_char_def)+

lemma marks_noted:
  assumes "marks_from i a e q t = X @ m # S" "m = Comma k w \<or> m = Eq k"
  shows "noted i a e q t X m S"
  using assms(1)
proof (induction a e q t arbitrary: i X rule: scan_induct)
  case (step a e q pre Y a1 e1 q1 z)
  have ms: "X @ m # S = Y i @ marks_from (i + length pre) a1 e1 q1 z"
    using step.hyps(1) step.prems by (simp add: steps_to_def)
  show ?case
  proof (cases "\<exists>X'. X = Y i @ X'")
    case True
    then obtain X' where X: "X = Y i @ X'" ..
    then have "noted (i + length pre) a1 e1 q1 z X' m S" using step.IH[of "i + length pre" X'] ms by simp
    then show ?thesis using noted_behind[OF _ step.hyps(1)] X by blast
  next
    case False
    have "Y i = [] \<or> (\<exists>y. Y i = [y])" using step.hyps(2) unfolding jots_def by auto
    then have "X = []" using False ms by (cases X) auto
    moreover from this have "Y i \<noteq> []" "Y i \<noteq> [Open]" "Y i \<noteq> [Close]" using False ms assms(2) by auto
    moreover from this have "q = None \<and> pre = '','' \<and> Y = (\<lambda>i. [Comma i 1]) \<and> a1 \<and> \<not> e1 \<and> q1 = None \<or>
        q = None \<and> pre = ''='' \<and> Y = (\<lambda>i. [Eq i]) \<and> a1 \<and> e1 \<and> q1 = None"
      using step.hyps(2) unfolding jots_def by auto
    moreover have "scan a e q (pre @ []) = scan a1 e1 q1 []" using step.hyps(1) unfolding steps_to_def by blast
    ultimately show ?thesis using ms noted_here by (auto simp del: scan.simps(3))
  qed
qed simp_all

text \<open>Where a text stands does not matter but for the positions.\<close>

fun shift :: "nat \<Rightarrow> mark \<Rightarrow> mark" where
  "shift d (Comma k w) = Comma (k + d) w"
| "shift d (Eq k) = Eq (k + d)"
| "shift d m = m"

lemma marks_shift: "marks_from (i + d) a e q t = map (shift d) (marks_from i a e q t)"
proof (induction i a e q t rule: marks_from.induct)
  case (2 i a e q c cs)
  then show ?case by (auto simp: add.commute)
next
  case (3 i a e c cs)
  then show ?case by (auto simp: add.commute)
qed simp

lemma closes_shift [simp]: "closes (map (shift d) ms) = closes ms"
proof (induction ms)
  case (Cons m ms)
  then show ?case by (cases m) auto
qed simp

lemma opens_shift [simp]: "opens_from s (map (shift d) ms) = opens_from s ms"
proof (induction ms arbitrary: s)
  case (Cons m ms)
  then show ?case by (cases m) auto
qed simp

lemma outside_shift [simp]:
  "outside (map (shift d) P) S = outside P S" "outside P (map (shift d) S) = outside P S"
  by (simp_all add: outside_def)

section \<open>Items\<close>

text \<open>A text that is one item, and where its \<open>=\<close> stands.\<close>

definition one_item :: "string \<Rightarrow> bool" where
  "one_item x \<longleftrightarrow> (\<forall>X k w S. item_marks x = X @ Comma k w # S \<longrightarrow> \<not> outside X S)"

fun leading_eq :: "nat \<Rightarrow> mark list \<Rightarrow> nat option" where
  "leading_eq s [] = None"
| "leading_eq s (Open # ms) = leading_eq (s + 1) ms"
| "leading_eq s (Close # ms) = leading_eq (s - 1) ms"
| "leading_eq s (Comma k w # ms) = leading_eq s ms"
| "leading_eq s (Eq k # ms) = (if s = 0 \<or> closes ms = 0 then Some k else leading_eq s ms)"

abbreviation item_eq :: "string \<Rightarrow> nat option" where
  "item_eq x \<equiv> leading_eq 0 (item_marks x)"

lemma leading_eq_shift: "leading_eq s (map (shift d) ms) = map_option (\<lambda>k. k + d) (leading_eq s ms)"
proof (induction ms arbitrary: s)
  case (Cons m ms)
  then show ?case by (cases m) auto
qed simp

text \<open>The marks of an item that is cut out at places outside every group make no cut.\<close>

lemma cuts_item:
  assumes "outside P (pre @ suf @ S)" "outside (P @ pre @ suf) S"
    "\<And>X k w Y. pre @ suf = X @ Comma k w # Y \<Longrightarrow> \<not> outside X Y"
  shows "cuts (opens (P @ pre)) start eq (suf @ S) =
    cuts (opens (P @ pre @ suf)) start (if eq = None then leading_eq (opens pre) suf else eq) S"
  using assms
proof (induction suf arbitrary: pre eq)
  case (Cons m suf)
  have IH: "cuts (opens (P @ pre @ [m])) start eq (suf @ S) =
      cuts (opens (P @ pre @ m # suf)) start (if eq = None then leading_eq (opens (pre @ [m])) suf else eq) S" for eq
    using Cons.IH[of "pre @ [m]" eq] Cons.prems by simp
  show ?case
  proof (cases m)
    case Open
    then show ?thesis using IH[of eq] by (simp add: opens_from_append)
  next
    case Close
    then show ?thesis using IH[of eq] by (simp add: opens_from_append)
  next
    case (Comma k w)
    have "\<not> outside (P @ pre) (suf @ S)"
      using outside_inside[of P pre m suf S] Cons.prems Comma by fastforce
    then show ?thesis using IH[of eq] by (simp add: Comma opens_from_append outside_def)
  next
    case (Eq k)
    have "outside (P @ pre) (suf @ S) = outside pre suf"
      using outside_inside[of P pre m suf S] Cons.prems Eq by simp
    then show ?thesis
      using IH[of "if eq = None \<and> outside pre suf then Some k else eq"]
      by (auto simp: Eq opens_from_append outside_def)
  qed
qed simp

text \<open>
  Texts that stay apart when they are joined: each is one item, only the last may leave a quote
  open, and no parenthesis of one pairs with one of another.
\<close>

definition apart :: "string \<Rightarrow> string \<Rightarrow> bool" where
  "apart x y \<longleftrightarrow> opens (item_marks x) = 0 \<or> closes (item_marks y) = 0"

definition items_ok :: "string list \<Rightarrow> bool" where
  "items_ok xs \<longleftrightarrow>
     xs \<noteq> [] \<and> list_all one_item xs \<and> list_all closed_item (butlast xs) \<and> sorted_wrt apart xs"

abbreviation joined :: "string list \<Rightarrow> string" where
  "joined \<equiv> join_with (CHR '','')"

lemma items_ok_Cons:
  "ys \<noteq> [] \<Longrightarrow> items_ok (x # ys) \<longleftrightarrow> one_item x \<and> closed_item x \<and> (\<forall>y\<in>set ys. apart x y) \<and> items_ok ys"
  by (auto simp: items_ok_def)

lemma marks_comma:
  assumes "closed_item x"
  shows "marks_from i True False None (x @ CHR '','' # y) =
    map (shift i) (item_marks x) @ Comma (i + length x) 1 # marks_from (i + length x + 1) True False None y"
proof -
  obtain a e where "scan True False None x = (a, e, None)"
    using assms by (metis closed_item_def prod.collapse)
  moreover have "\<not> is_whitespace CHR '',''" by (simp add: is_whitespace_def code_def)
  ultimately show ?thesis
    using marks_scan_append[of True False None x a e i "CHR '','' # y"] marks_shift[of 0 i True False None x] by simp
qed

lemma marks_joined:
  "ys \<noteq> [] \<Longrightarrow> closed_item x \<Longrightarrow>
     marks_from i True False None (joined (x # ys)) =
       map (shift i) (item_marks x) @ Comma (i + length x) 1 # marks_from (i + length x + 1) True False None (joined ys)"
  by (simp add: join_with_Cons marks_comma)

lemma closes_joined:
  "list_all closed_item (butlast xs) \<Longrightarrow> \<forall>x\<in>set xs. closes (item_marks x) = 0 \<Longrightarrow>
     closes (marks_from i True False None (joined xs)) = 0"
proof (induction xs arbitrary: i)
  case (Cons x ys)
  show ?case
  proof (cases "ys = []")
    case True
    then show ?thesis using Cons.prems marks_shift[of 0 i True False None x] by simp
  next
    case False
    then show ?thesis using Cons marks_joined[of ys x i] by (simp add: closes_append)
  qed
qed simp

fun spans_of :: "nat \<Rightarrow> string list \<Rightarrow> item_span list" where
  "spans_of i [] = []"
| "spans_of i (x # ys) =
     \<lparr>span_start = i, span_end = i + length x, span_sep_end = i + length x + (if ys = [] then 0 else 1),
      span_eq = map_option (\<lambda>k. k + i) (item_eq x)\<rparr> # spans_of (i + length x + 1) ys"

lemma cuts_joined:
  "items_ok xs \<Longrightarrow> opens P = 0 \<or> (\<forall>x\<in>set xs. closes (item_marks x) = 0) \<Longrightarrow> n = i + length (joined xs) \<Longrightarrow>
     (case cuts (opens P) i None (marks_from i True False None (joined xs)) of
        (spans, start, eq) \<Rightarrow>
          spans @ [\<lparr>span_start = start, span_end = n, span_sep_end = n, span_eq = eq\<rparr>]) = spans_of i xs"
proof (induction xs arbitrary: i P)
  case (Cons x ys)
  let ?X = "map (shift i) (item_marks x)" and ?R = "marks_from (i + length x + 1) True False None (joined ys)"
  have one: "\<not> outside A B" if X: "[] @ ?X = A @ Comma k w # B" for A k w B
  proof -
    obtain A' m B' where "item_marks x = A' @ m # B'" "A = map (shift i) A'" "shift i m = Comma k w" "B = map (shift i) B'"
      using X by (auto simp: map_eq_append_conv map_eq_Cons_conv)
    moreover from this obtain k' where "m = Comma k' w" by (cases m) auto
    ultimately show ?thesis using Cons.prems(1) by (auto simp: items_ok_def one_item_def)
  qed
  show ?case
  proof (cases "ys = []")
    case True
    have "closes ?X = 0 \<or> opens P = 0" using Cons.prems(2) by auto
    then have "cuts (opens P) i None ?X = cuts (opens (P @ ?X)) i (leading_eq 0 ?X) []"
      using cuts_item[of P "[]" ?X "[]" i None] one by (auto simp: outside_def)
    then show ?thesis
      using True Cons.prems(3) marks_shift[of 0 i True False None x] by (simp add: leading_eq_shift)
  next
    case False
    let ?S = "Comma (i + length x) 1 # ?R"
    note ok = items_ok_Cons[OF False, THEN iffD1, OF Cons.prems(1)]
    have m: "marks_from i True False None (joined (x # ys)) = ?X @ ?S" using marks_joined False ok by blast
    have "closes (?X @ ?S) = 0" if "\<forall>y\<in>set (x # ys). closes (item_marks y) = 0"
      using closes_joined[of "x # ys" i] that m Cons.prems(1) by (simp add: items_ok_def)
    then have top1: "outside P ([] @ ?X @ ?S)" using Cons.prems(2) by (auto simp: outside_def)
    have rest: "opens (P @ ?X) = 0 \<or> (\<forall>y\<in>set ys. closes (item_marks y) = 0)"
      using Cons.prems(2) ok by (auto simp: opens_append apart_def)
    then have R: "opens (P @ ?X) = 0 \<or> closes ?R = 0"
      using closes_joined[of ys "i + length x + 1"] ok by (auto simp: items_ok_def)
    then have top2: "outside (P @ [] @ ?X) ?S" by (simp add: outside_def)
    have c: "cuts (opens P) i None (?X @ ?S) = cuts (opens (P @ ?X)) i (leading_eq 0 ?X) ?S"
      using cuts_item[OF top1 top2, of i None] one by auto
    have "(case cuts (opens (P @ ?X)) (i + length x + 1) None ?R of
        (spans, start, eq) \<Rightarrow>
          spans @ [\<lparr>span_start = start, span_end = n, span_sep_end = n, span_eq = eq\<rparr>]) = spans_of (i + length x + 1) ys"
      using ok rest Cons.prems(3) False by (intro Cons.IH) (auto simp: join_with_Cons)
    then show ?thesis
      using c R False unfolding m by (auto simp: leading_eq_shift split: prod.splits)
  qed
qed (simp add: items_ok_def)

lemma item_spans_joined: "items_ok xs \<Longrightarrow> item_spans (joined xs) = spans_of 0 xs"
  using cuts_joined[of xs "[]" "length (joined xs)" 0] by (simp add: item_spans_cuts)

lemma spans_of_slices:
  "map (\<lambda>sp. (slice (pre @ joined xs) (span_start sp) (span_end sp), map_option (\<lambda>k. k - span_start sp) (span_eq sp)))
     (spans_of (length pre) xs) = map (\<lambda>x. (x, item_eq x)) xs"
proof (induction xs arbitrary: pre)
  case (Cons x ys)
  show ?case
  proof (cases "ys = []")
    case True
    then show ?thesis by (simp add: slice_def option.map_comp comp_def option.map_ident)
  next
    case False
    then show ?thesis
      using Cons[of "pre @ x @ '',''"] by (simp add: join_with_Cons slice_def option.map_comp comp_def option.map_ident)
  qed
qed simp

text \<open>The reading of an item by itself.\<close>

abbreviation read_item :: "string \<Rightarrow> field option" where
  "read_item x \<equiv> read_field x (item_eq x)"

theorem items_read:
  assumes "items_ok xs"
  shows "split_items (joined xs) = xs" "split_fields (joined xs) = List.map_filter read_item xs"
proof -
  have s: "map (\<lambda>sp. (slice (joined xs) (span_start sp) (span_end sp), map_option (\<lambda>k. k - span_start sp) (span_eq sp)))
     (item_spans (joined xs)) = map (\<lambda>x. (x, item_eq x)) xs"
    using spans_of_slices[of "[]" xs] item_spans_joined[OF assms] by simp
  then have "map fst (map (\<lambda>sp. (slice (joined xs) (span_start sp) (span_end sp), map_option (\<lambda>k. k - span_start sp) (span_eq sp)))
     (item_spans (joined xs))) = map fst (map (\<lambda>x. (x, item_eq x)) xs)" by simp
  then show "split_items (joined xs) = xs" by (simp add: split_items_def comp_def)
  have "List.map_filter (\<lambda>(x, eq). read_field x eq)
      (map (\<lambda>sp. (slice (joined xs) (span_start sp) (span_end sp), map_option (\<lambda>k. k - span_start sp) (span_eq sp)))
        (item_spans (joined xs))) = List.map_filter (\<lambda>(x, eq). read_field x eq) (map (\<lambda>x. (x, item_eq x)) xs)"
    using s by simp
  then show "split_fields (joined xs) = List.map_filter read_item xs"
    by (simp add: split_fields_def List.map_filter_def filter_map comp_def)
qed

text \<open>Every text is such a list, joined.\<close>

lemma one_item_cut:
  assumes "item_marks x @ R = M" "outside P M" "outside (P @ item_marks x) R"
    "\<And>A k w B. M = A @ Comma k w # B \<Longrightarrow> length A < length (item_marks x) \<Longrightarrow> \<not> outside (P @ A) B"
  shows "one_item x"
  unfolding one_item_def
proof (intro allI impI)
  fix A k w B
  assume x: "item_marks x = A @ Comma k w # B"
  have "\<not> outside (P @ A) (B @ R)" using assms(1) assms(4)[of A k w "B @ R"] x by simp
  then show "\<not> outside A B" using outside_inside[of P A "Comma k w" B R] assms(1-3) x by simp
qed

lemma text_items:
  "outside P (item_marks t) \<Longrightarrow>
     \<exists>xs. items_ok xs \<and> joined xs = t \<and> (opens P = 0 \<or> (\<forall>x\<in>set xs. closes (item_marks x) = 0))"
proof (induction "length t" arbitrary: t P rule: less_induct)
  case less
  let ?cut = "\<lambda>X. \<exists>k w S. item_marks t = X @ Comma k w # S \<and> outside (P @ X) S"
  show ?case
  proof (cases "\<exists>X. ?cut X")
    case True
    then obtain X where X: "?cut X" and first: "\<And>A. ?cut A \<Longrightarrow> length X \<le> length A"
      using ex_has_least_nat[of ?cut _ length] by blast
    then obtain k w S where m: "item_marks t = X @ Comma k w # S" and o: "outside (P @ X) S" by blast
    obtain p u a' e' where t: "t = p @ CHR '','' # u" and p: "scan True False None p = (a', e', None)" "X = item_marks p"
      and S: "S = marks_from (0 + (length p + 1)) True False None u"
      using marks_noted[OF m] unfolding noted_def by (auto simp: mark_char_def)
    have S': "S = map (shift (length p + 1)) (item_marks u)" unfolding S by (rule marks_shift)
    obtain ys where ys: "items_ok ys" "joined ys = u" "opens (P @ X) = 0 \<or> (\<forall>y\<in>set ys. closes (item_marks y) = 0)"
      using less.hyps[of u "P @ X"] o t S' by auto
    have "one_item p"
    proof (rule one_item_cut[of p "Comma k w # S" "item_marks t" P])
      show "\<not> outside (P @ A) B" if "item_marks t = A @ Comma k' w' # B" "length A < length (item_marks p)" for A k' w' B
        using first[of A] that p(2) by fastforce
    qed (use m p(2) o less.prems in \<open>simp_all add: outside_def\<close>)
    moreover have "closed_item p" using p(1) by (simp add: closed_item_def)
    moreover have "\<forall>y\<in>set ys. apart p y" using ys(3) p(2) by (auto simp: apart_def opens_append)
    moreover have "ys \<noteq> []" using ys(1) by (simp add: items_ok_def)
    moreover have "opens P = 0 \<or> (\<forall>x\<in>set (p # ys). closes (item_marks x) = 0)"
      using less.prems ys(3) p(2) by (auto simp: outside_def m closes_append opens_append)
    ultimately show ?thesis
      using ys t by (intro exI[of _ "p # ys"]) (auto simp: items_ok_Cons join_with_Cons)
  next
    case False
    have "one_item t"
      using False less.prems by (intro one_item_cut[of t "[]" "item_marks t" P]) (auto simp: outside_def)
    then show ?thesis using less.prems by (intro exI[of _ "[t]"]) (auto simp: items_ok_def outside_def)
  qed
qed

theorem split_items_ok: "items_ok (split_items t)"
proof -
  obtain xs where xs: "items_ok xs" "joined xs = t" using text_items[of "[]" t] by (auto simp: outside_def)
  then show ?thesis using items_read(1)[of xs] by simp
qed

theorem split_fields_items: "split_fields t = List.map_filter read_item (split_items t)"
  using items_read(2)[OF split_items_ok[of t]] by (simp add: split_items_join)

text \<open>An item by itself.\<close>

lemma one_item_fields: "one_item x \<Longrightarrow> split_fields x = (case read_item x of None \<Rightarrow> [] | Some f \<Rightarrow> [f])"
  using items_read(2)[of "[x]"] by (auto simp: items_ok_def List.map_filter_def split: option.split)

lemma leaves_open_iff:
  assumes "one_item x"
  shows "leaves_open x \<longleftrightarrow> \<not> closed_item x"
proof (cases "closed_item x")
  case True
  then have "items_ok [x, []]" using assms by (simp add: items_ok_def one_item_def apart_def)
  then show ?thesis using items_read(1)[of "[x, []]"] True by (simp add: leaves_open_def)
next
  case False
  then have "item_marks (x @ '','') = item_marks x"
    using ends_quote_char[of True False None x] by (auto simp: closed_item_def)
  then have "items_ok [x @ '','']" using assms by (simp add: items_ok_def one_item_def)
  then show ?thesis using items_read(1)[of "[x @ '','']"] False by (simp add: leaves_open_def)
qed

section \<open>Texts that end inside a quote\<close>

lemma trim_parts: "\<exists>lead trail. s = lead @ trim s @ trail \<and> list_all is_whitespace (lead @ trail)"
proof -
  let ?d = "dropWhile is_whitespace s"
  have "s = takeWhile is_whitespace s @ trim s @ rev (takeWhile is_whitespace (rev ?d))"
    by (simp add: trim_def trim_start_def trim_end_def drop_end_while_def flip: rev_append)
  moreover have "list_all is_whitespace (takeWhile is_whitespace s @ rev (takeWhile is_whitespace (rev ?d)))"
    by (auto simp: list_all_iff dest: set_takeWhileD)
  ultimately show ?thesis by blast
qed

lemma whitespace_plain:
  "is_whitespace c \<Longrightarrow> c \<notin> {CHR '','', CHR ''('', CHR '')'', CHR ''='', CHR 0x22, CHR 0x27}"
  by (auto simp: is_whitespace_def code_def)

lemma scan_blank:
  "list_all is_whitespace s \<Longrightarrow> scan True e None (s @ t) = scan True e None t"
  "list_all is_whitespace s \<Longrightarrow> scan False e None s = (False, e, None)"
proof (induction s)
  case (Cons c s)
  {
    case 1
    then show ?case using Cons by simp
  next
    case 2
    then have "c \<notin> {CHR '','', CHR ''('', CHR '')'', CHR ''=''}" using whitespace_plain[of c] by auto
    then show ?case using 2 Cons by simp
  }
qed simp_all

lemma scan_partner:
  "partner_from i q cs = Some k \<Longrightarrow> scan a e (Some q) cs = scan a e None (drop (k - i + 1) cs) \<and> i \<le> k"
proof (induction i q cs rule: partner_from.induct)
  case (2 i q c cs)
  show ?case
  proof (cases "q = CHR 0x22 \<and> c = CHR 0x5C")
    case True
    then have "partner_from (i + 2) q (tl cs) = Some k" using "2.prems" by simp
    then have "scan a e (Some q) (tl cs) = scan a e None (drop (k - (i + 2) + 1) (tl cs))" "i + 2 \<le> k"
      using "2.IH"(1)[OF True] by auto
    moreover from this have "k - i = Suc (Suc (k - (i + 2)))" by simp
    ultimately show ?thesis using True by (cases cs) simp_all
  next
    case False
    then show ?thesis using "2.IH"(2) "2.prems" by (auto split: if_splits simp: Suc_diff_Suc Suc_le_eq)
  qed
qed simp

lemma wholly_quoted_closed:
  assumes "wholly_quoted (trim s) = Some u"
  shows "ends_quote True e None s = None"
proof -
  obtain lead trail where s: "s = lead @ trim s @ trail" "list_all is_whitespace lead" "list_all is_whitespace trail"
    using trim_parts[of s] by auto
  obtain q r where t: "trim s = q # r" "q = CHR 0x22 \<or> q = CHR 0x27" "partner (trim s) q = Some (length (trim s) - 1)"
    using assms by (auto simp: wholly_quoted_def split: list.splits if_splits option.splits)
  then have "scan False e (Some q) r = scan False e None (drop (length r - 1 + 1) r)" "1 \<le> length r"
    using scan_partner[of 1 q r "length r" False e] by (auto simp: partner_def)
  then have "scan False e (Some q) r = (False, e, None)" by simp
  moreover have "\<not> is_whitespace q" using t(2) by (auto simp: is_whitespace_def code_def)
  ultimately have "scan True e None (trim s) = (False, e, None)" using t(1,2) by auto
  then have "scan True e None (trim s @ trail) = scan False e None trail"
    using marks_scan_append[of True e None "trim s" False e] by simp
  then show ?thesis using s scan_blank[of lead] scan_blank(2)[of trail] by (metis snd_conv)
qed

lemma no_quote_closed: "CHR 0x22 \<notin> set x \<Longrightarrow> CHR 0x27 \<notin> set x \<Longrightarrow> ends_quote a e None x = None"
  by (induction x arbitrary: a e) auto

lemma leading_eq_noted: "leading_eq s ms = Some k \<Longrightarrow> Eq k \<in> set ms"
  by (induction s ms rule: leading_eq.induct) (auto split: if_splits)

text \<open>An item that ends inside a quote is read as it stands, with the quote.\<close>

lemma open_item_read:
  assumes "\<not> closed_item x"
  shows "\<exists>f. read_item x = Some f \<and> f_text f = trim x \<and> (CHR 0x22 \<in> set (trim x) \<or> CHR 0x27 \<in> set (trim x))"
proof -
  have "CHR 0x22 \<in> set x \<or> CHR 0x27 \<in> set x"
    by (rule ccontr) (use assms no_quote_closed[of x True False] in \<open>simp add: closed_item_def\<close>)
  moreover obtain lead trail where "x = lead @ trim x @ trail" "list_all is_whitespace (lead @ trail)"
    using trim_parts by blast
  moreover from this(2) have "CHR 0x22 \<notin> set (lead @ trail)" "CHR 0x27 \<notin> set (lead @ trail)"
    using whitespace_plain by (auto simp: list_all_iff)
  ultimately have q: "CHR 0x22 \<in> set (trim x) \<or> CHR 0x27 \<in> set (trim x)" by (metis Un_iff set_append)
  have w: "wholly_quoted (trim x) = None"
    using wholly_quoted_closed[of x _ False] assms by (cases "wholly_quoted (trim x)") (auto simp: closed_item_def)
  have v: "wholly_quoted (trim (drop (k + 1) x)) = None" if k: "item_eq x = Some k" for k
  proof -
    obtain X S where "item_marks x = X @ Eq k # S" using split_list[OF leading_eq_noted[OF k]] by blast
    then have "noted 0 True False None x X (Eq k) S" by (rule marks_noted) simp
    then obtain p u where p: "x = p @ CHR ''='' # u" "k = length p" "scan True False None (p @ ''='') = (True, True, None)"
      unfolding noted_def by (auto simp: mark_char_def)
    then have "scan True False None x = scan True True None u"
      using marks_scan_append[OF p(3), of 0 u] by simp
    then show ?thesis
      using wholly_quoted_closed[of u _ True] assms p
      by (cases "wholly_quoted (trim u)") (auto simp: closed_item_def)
  qed
  have "trim x \<noteq> []" using q by auto
  then show ?thesis using q w v
    by (cases "item_eq x") (auto simp: read_field_def Let_def)
qed

section \<open>An item that is written\<close>

text \<open>A text without parentheses that disturbs no line it is put into.\<close>

definition neutral :: "string \<Rightarrow> bool" where
  "neutral x \<longleftrightarrow> one_item x \<and> closed_item x \<and> opens (item_marks x) = 0 \<and> closes (item_marks x) = 0"

lemma marks_blank: "list_all is_whitespace s \<Longrightarrow> marks_from i True e None (s @ t) = marks_from (i + length s) True e None t"
  by (induction s arbitrary: i) auto

lemma scan_key:
  "list_all (\<lambda>c. is_ascii_alphanumeric c \<or> c = CHR ''-'') k \<Longrightarrow> k \<noteq> [] \<or> \<not> a \<Longrightarrow>
     scan a False None (k @ CHR ''='' # rest) = scan True True None rest"
proof (induction k arbitrary: a)
  case (Cons c k)
  then have "scan a False None ((c # k) @ CHR ''='' # rest) = scan False False None (k @ CHR ''='' # rest)"
    using key_char[of c] by simp
  then show ?case using Cons by simp
qed simp

lemma scan_esc: "scan a e (Some CHR 0x22) (esc v @ CHR 0x22 # rest) = scan a e None rest"
  by (induction v) auto

lemma scan_param_value: "ends_quote True True None (param_value v) = None"
proof (cases v rule: param_value_cases)
  case plain
  then have "CHR 0x22 \<notin> set v" "CHR 0x27 \<notin> set v" by auto
  then show ?thesis using plain(1) no_quote_closed by simp
next
  case quot
  then show ?thesis using scan_esc[of False True v "[]"] by (simp add: quoted_esc is_whitespace_def code_def)
qed

definition written_item :: "string \<Rightarrow> string \<Rightarrow> string \<Rightarrow> string" where
  "written_item lead k v = lead @ k @ ''='' @ param_value v"

lemma written_marks:
  assumes "key_name k" "list_all is_whitespace lead"
  shows "item_marks (written_item lead k v) = [Eq (length lead + length k)]"
  using assms marks_from_key[of k True "length lead" "param_value v"] marks_param_value[of "length lead + length k + 1" v]
  by (simp add: written_item_def marks_blank key_name_def)

lemma written_neutral:
  assumes "key_name k" "list_all is_whitespace lead"
  shows "neutral (written_item lead k v)"
proof -
  have "closed_item (written_item lead k v)"
    using assms scan_key[of k True "param_value v"] scan_param_value[of v]
    by (simp add: closed_item_def written_item_def scan_blank key_name_def)
  then show ?thesis by (simp add: neutral_def one_item_def written_marks[OF assms] Cons_eq_append_conv)
qed

lemma written_read:
  assumes "key_name k" "list_all is_whitespace lead"
  shows "read_item (written_item lead k v) = Some \<lparr>f_text = k @ ''='' @ v, f_param = Some (k, v)\<rparr>"
proof -
  let ?t = "k @ ''='' @ param_value v"
  have k: "k \<noteq> []" "\<not> is_whitespace (hd k)" "\<not> is_whitespace (last k)" "hd k \<notin> {CHR 0x22, CHR 0x27}"
    using assms(1) key_char unfolding key_name_def list_all_iff
    by (metis hd_in_set last_in_set insertCI)+
  have t: "trim ?t = ?t" using k param_value_ends[of v] by (intro trim_id) auto
  have blank: "trim (lead @ y) = trim y" for y
    using assms(2) by (simp add: trim_def trim_start_def list_all_iff dropWhile_append2)
  have "wholly_quoted ?t = None" using k by (intro wholly_quoted_plain) auto
  moreover have "trim (param_value v) = param_value v" using param_value_ends by (intro trim_id) auto
  moreover have "trim k = k" using k by (intro trim_id) auto
  moreover have "wholly_quoted (param_value v) = None \<Longrightarrow> param_value v = v"
    using wholly_quoted_param_value[of v] by simp
  moreover have "item_eq (lead @ k @ CHR ''='' # param_value v) = Some (length lead + length k)"
    using written_marks[OF assms, of v] by (simp add: written_item_def)
  ultimately show ?thesis
    using k t wholly_quoted_param_value[of v]
    by (cases "wholly_quoted (param_value v)") (auto simp: read_field_def Let_def written_item_def blank)
qed

end
