(* ===== verification/Rurge_Policy_Def.thy ===== *)
theory Rurge_Policy_Def
  imports Rurge_Rule Rurge_Items
begin

text \<open>
  The lines of \<open>[Proxy]\<close> and \<open>[Proxy Group]\<close> (\<^verbatim>\<open>rurge-config/src/policy.rs\<close>): the kinds of policies and
  groups, the parameters of a line (\<open>ParamMap\<close> of \<^verbatim>\<open>value.rs\<close>), its reading, and \<open>with_params\<close>, which
  puts parameters of the user in place of those of a downloaded line. Of \<^verbatim>\<open>redact.rs\<close>, which keys
  hold a secret: a message about a line with such a name does not quote its type.

  Of a span its file and its line are kept. Full-width characters, which \<open>is_name\<close> refuses too,
  and zero-width ones, which count as blanks in \<^verbatim>\<open>redact.rs\<close>, are outside the characters of the model.
\<close>

section \<open>Kinds\<close>

datatype policy_kind =
    KHttp | KHttps | KH2Connect | KSocks5 | KSocks5Tls | KShadowsocks | KSnell | KVmess | KTrojan
  | KTuic | KTuicV5 | KHysteria2 | KMasque | KAnyTls | KTrustTunnel | KSsh | KWireGuard | KTailscale
  | KExternal | KDirect | KReject | KRejectDrop | KRejectNoDrop | KRejectTinyGif

definition POLICY_KEYWORDS :: "(string \<times> policy_kind) list" where
  "POLICY_KEYWORDS =
     [(''http'', KHttp), (''https'', KHttps), (''h2-connect'', KH2Connect), (''socks5'', KSocks5),
      (''socks5-tls'', KSocks5Tls), (''ss'', KShadowsocks), (''custom'', KShadowsocks),
      (''snell'', KSnell), (''vmess'', KVmess), (''trojan'', KTrojan), (''tuic'', KTuic),
      (''tuic-v5'', KTuicV5), (''hysteria2'', KHysteria2), (''masque'', KMasque), (''anytls'', KAnyTls),
      (''trust-tunnel'', KTrustTunnel), (''ssh'', KSsh), (''wireguard'', KWireGuard),
      (''tailscale'', KTailscale), (''external'', KExternal), (''direct'', KDirect),
      (''reject'', KReject), (''reject-drop'', KRejectDrop), (''reject-no-drop'', KRejectNoDrop),
      (''reject-tinygif'', KRejectTinyGif)]"

definition policy_kind_parse :: "string \<Rightarrow> policy_kind option" where
  "policy_kind_parse keyword =
     map_option snd (List.find (\<lambda>(k, _). k = to_ascii_lowercase (trim keyword)) POLICY_KEYWORDS)"

definition policy_keyword :: "policy_kind \<Rightarrow> string" where
  "policy_keyword kind =
     (case List.find (\<lambda>(_, v). v = kind) POLICY_KEYWORDS of Some (k, _) \<Rightarrow> k | None \<Rightarrow> ''unknown'')"

definition is_builtin_alias :: "policy_kind \<Rightarrow> bool" where
  "is_builtin_alias kind = (kind \<in> {KDirect, KReject, KRejectDrop, KRejectNoDrop, KRejectTinyGif})"

definition takes_server :: "policy_kind \<Rightarrow> bool" where
  "takes_server kind = (\<not> is_builtin_alias kind \<and> kind \<notin> {KWireGuard, KTailscale, KExternal})"

datatype group_kind = GkSelect | GkUrlTest | GkFallback | GkLoadBalance | GkSmart | GkSubnet

text \<open>The kind, and whether the legacy keyword was used.\<close>

definition group_kind_parse :: "string \<Rightarrow> (group_kind \<times> bool) option" where
  "group_kind_parse keyword =
     map_of [(''select'', (GkSelect, False)), (''url-test'', (GkUrlTest, False)),
             (''fallback'', (GkFallback, False)), (''load-balance'', (GkLoadBalance, False)),
             (''smart'', (GkSmart, False)), (''subnet'', (GkSubnet, False)), (''ssid'', (GkSubnet, True))]
       (to_ascii_lowercase (trim keyword))"

fun group_keyword :: "group_kind \<Rightarrow> string" where
  "group_keyword GkSelect = ''select''"
| "group_keyword GkUrlTest = ''url-test''"
| "group_keyword GkFallback = ''fallback''"
| "group_keyword GkLoadBalance = ''load-balance''"
| "group_keyword GkSmart = ''smart''"
| "group_keyword GkSubnet = ''subnet''"

section \<open>Keys that hold a secret\<close>

definition SECRET_KEYS :: "string list" where
  "SECRET_KEYS = [''password'', ''ca-passphrase'', ''ca-p12'', ''private-key'', ''psk'', ''pre-shared-key'',
     ''preshared-key'', ''token'', ''auth-key'', ''proxy-test-url'', ''internet-test-url'',
     ''geoip-maxmind-url'', ''secret'', ''passphrase'']"

definition CONTROLLER_KEYS :: "string list" where
  "CONTROLLER_KEYS = [''http-api'', ''external-controller-access'']"

definition LISTENER_KEYS :: "string list" where
  "LISTENER_KEYS = [''http-listen'', ''socks5-listen'']"

definition DNS_KEYS :: "string list" where
  "DNS_KEYS = [''dns-server'', ''encrypted-dns-server'', ''doh-server'']"

datatype key_kind = SecretKey | WifiKey | ControllerKey | ListenerKey | DnsKey

definition plain_key :: "string \<Rightarrow> string" where
  "plain_key key = map to_ascii_lowercase_char (filter (\<lambda>c. c \<noteq> CHR ''-'' \<and> c \<noteq> CHR ''_'') key)"

definition is_key :: "string list \<Rightarrow> string \<Rightarrow> bool" where
  "is_key names key = list_ex (\<lambda>name. plain_key name = plain_key (trim key)) names"

definition is_name_boundary :: "char \<Rightarrow> bool" where
  "is_name_boundary c \<longleftrightarrow> is_ascii_whitespace c \<or>
     c \<in> set [CHR '','', CHR ''('', CHR 0x22, CHR 0x27] \<or> 128 \<le> code c"

definition is_name_char :: "char \<Rightarrow> bool" where
  "is_name_char c \<longleftrightarrow> is_ascii_alphanumeric c \<or> c = CHR ''-'' \<or> c = CHR ''_''"

definition listed_key :: "string \<Rightarrow> (key_kind \<times> bool) option" where
  "listed_key text =
     (let key = trim_end text;
          key = (if key \<noteq> [] \<and> (last key = CHR 0x22 \<or> last key = CHR 0x27) then butlast key else key);
          key = trim_end key;
          front = drop_end_while is_name_char key;
          name = drop (length front) key
      in if name = [] \<or> front \<noteq> [] \<and> \<not> is_name_boundary (last front) then None
         else map_option (\<lambda>kind. (kind, trim text = name))
           (if is_key SECRET_KEYS name then Some SecretKey
            else if is_key [''wifi-access-http-auth''] name then Some WifiKey
            else if is_key CONTROLLER_KEYS name then Some ControllerKey
            else if is_key LISTENER_KEYS name then Some ListenerKey
            else if is_key DNS_KEYS name then Some DnsKey
            else None))"

definition is_secret_key :: "string \<Rightarrow> bool" where
  "is_secret_key key = (case listed_key key of Some (kind, _) \<Rightarrow> kind \<noteq> DnsKey | None \<Rightarrow> False)"

section \<open>What a message may quote\<close>

definition looks_like_keyword :: "string \<Rightarrow> bool" where
  "looks_like_keyword s \<longleftrightarrow> s \<noteq> [] \<and> length s \<le> 32 \<and> list_all is_name_char s"

definition unknown_type :: "string \<Rightarrow> string \<Rightarrow> string" where
  "unknown_type name type_kw =
     (if looks_like_keyword type_kw \<and> \<not> is_secret_key name then ''unknown type `'' @ type_kw @ ''`''
      else ''unknown type'')"

definition is_name :: "string \<Rightarrow> bool" where
  "is_name name \<longleftrightarrow> \<not> str_contains ''://'' name \<and> CHR ''='' \<notin> set name"

definition named_as :: "string \<Rightarrow> string \<Rightarrow> string" where
  "named_as what name = (if is_name name then what @ '' `'' @ name @ ''`'' else what)"

definition quoted_name :: "string \<Rightarrow> string" where
  "quoted_name name = (if is_name name then ''`'' @ name @ ''`'' else ''a link'')"

definition shown_members :: "string list \<Rightarrow> string list" where
  "shown_members = map (\<lambda>m. if is_name m then m else ''***'')"

section \<open>Parameters\<close>

type_synonym param_map = "(string \<times> string) list"

definition param_insert :: "string \<Rightarrow> string \<Rightarrow> param_map \<Rightarrow> param_map" where
  "param_insert key val ps = ps @ [(to_ascii_lowercase (trim key), val)]"

definition param_get :: "param_map \<Rightarrow> string \<Rightarrow> string option" where
  "param_get ps key = map_option snd (List.find (\<lambda>(k, _). k = to_ascii_lowercase key) ps)"

definition param_get_all :: "param_map \<Rightarrow> string \<Rightarrow> string list" where
  "param_get_all ps key = map snd (filter (\<lambda>(k, _). k = to_ascii_lowercase key) ps)"

definition parse_bool :: "string \<Rightarrow> bool option" where
  "parse_bool s =
     map_of [(''true'', True), (''1'', True), (''yes'', True), (''false'', False), (''0'', False), (''no'', False)]
       (to_ascii_lowercase (trim s))"

definition param_bool :: "param_map \<Rightarrow> string \<Rightarrow> bool option" where
  "param_bool ps key = Option.bind (param_get ps key) parse_bool"

definition param_u16 :: "param_map \<Rightarrow> string \<Rightarrow> u16 option" where
  "param_u16 ps key = Option.bind (param_get ps key) parse_u16"

definition param_u32 :: "param_map \<Rightarrow> string \<Rightarrow> u32 option" where
  "param_u32 ps key = Option.bind (param_get ps key) parse_u32"

definition field_step :: "field \<Rightarrow> param_map \<times> string list \<Rightarrow> param_map \<times> string list" where
  "field_step f acc =
     (case f_param f of
        Some (k, v) \<Rightarrow> (param_insert k v (fst acc), snd acc)
      | None \<Rightarrow> (fst acc, snd acc @ [f_text f]))"

definition from_fields :: "field list \<Rightarrow> param_map \<times> string list" where
  "from_fields fs = fold field_step fs ([], [])"

section \<open>A policy\<close>

abbreviation E_UNKNOWN_POLICY_TYPE :: string where "E_UNKNOWN_POLICY_TYPE \<equiv> ''E0004''"

record proxy_policy =
  pp_name :: string
  pp_kind :: policy_kind
  pp_server :: "host_name option"
  pp_port :: "u16 option"
  pp_positional :: "string list"
  pp_params :: param_map
  pp_definition :: string
  pp_span :: "string \<times> nat"
  pp_legacy_custom :: bool

definition missing_server :: "string \<Rightarrow> policy_kind \<Rightarrow> parse_error" where
  "missing_server name kind =
     parse_error_new E_SYNTAX
       (named_as ''policy'' name @ '': expected `'' @ policy_keyword kind @ '', <server>, <port>`'')"

definition invalid_port :: "string \<Rightarrow> string \<Rightarrow> parse_error" where
  "invalid_port name port_str =
     parse_error_new E_SYNTAX
       (named_as ''policy'' name @ '': invalid port'' @
        (if port_str \<noteq> [] \<and> length port_str \<le> 10 \<and> list_all is_ascii_digit port_str
         then '' `'' @ port_str @ ''`'' else []))"

definition server_and_port :: "string \<Rightarrow> policy_kind \<Rightarrow> field list \<Rightarrow>
    parse_error + host_name option \<times> u16 option \<times> field list" where
  "server_and_port name kind line =
     (if takes_server kind then
        (case line of
           _ # server # port # rest \<Rightarrow>
             (case parse_u16 (f_text port) of
                Some p \<Rightarrow> Inr (Some (host_name_parse (f_text server)), Some p, rest)
              | None \<Rightarrow> Inl (invalid_port name (f_text port)))
         | _ \<Rightarrow> Inl (missing_server name kind))
      else Inr (None, None, drop 1 line))"

definition parse_policy :: "string \<Rightarrow> string \<Rightarrow> string \<times> nat \<Rightarrow> parse_error + proxy_policy" where
  "parse_policy name def span =
     (case split_fields def of
        [] \<Rightarrow> Inl (parse_error_new E_SYNTAX (named_as ''policy'' name @ '': missing type''))
      | f # fs \<Rightarrow>
          (case policy_kind_parse (f_text f) of
             None \<Rightarrow> Inl (parse_error_new E_UNKNOWN_POLICY_TYPE
                 (named_as ''policy'' name @ '': '' @ unknown_type name (f_text f)))
           | Some kind \<Rightarrow>
               map_sum id (\<lambda>(server, port, rest).
                   \<lparr>pp_name = name, pp_kind = kind, pp_server = server, pp_port = port,
                    pp_positional = snd (from_fields rest), pp_params = fst (from_fields rest),
                    pp_definition = trim def, pp_span = span,
                    pp_legacy_custom = eq_ignore_ascii_case (trim (f_text f)) ''custom''\<rparr>)
                 (server_and_port name kind (f # fs))))"

section \<open>A line with parameters in place\<close>

text \<open>How many fields the parser reads before the parameters.\<close>

definition head_fields :: "string list \<Rightarrow> nat" where
  "head_fields items =
     (case List.find (\<lambda>item. split_list item \<noteq> []) items of
        None \<Rightarrow> 1
      | Some item \<Rightarrow>
          (case policy_kind_parse (last (split_list item)) of
             None \<Rightarrow> 1
           | Some kind \<Rightarrow> if takes_server kind then 3 else 1))"

text \<open>
  The loop: what is written, the keys that are, and whether the last item was kept and leaves a
  quote open.
\<close>

fun with_loop :: "(string \<times> string) list \<Rightarrow> string list \<Rightarrow> nat \<Rightarrow> string set \<Rightarrow> string list \<times> string set \<times> bool" where
  "with_loop overrides [] head written = ([], written, False)"
| "with_loop overrides (item # items) head written =
     (let got = split_fields item;
          (key, head1) = (if got = [] then (None, head)
                          else if head > 0 then (None, head - 1)
                          else (map_option (\<lambda>(k, _). to_ascii_lowercase k) (f_param (last got)), head));
          found = Option.bind key (\<lambda>k. List.find (\<lambda>(o', _). eq_ignore_ascii_case o' k) overrides)
      in case found of
           Some (k, v) \<Rightarrow>
             (let (out, written1, open_tail) =
                    with_loop overrides items head1 (insert (to_ascii_lowercase k) written);
                  lead = take (length item - length (trim_start item)) item
              in (if to_ascii_lowercase k \<in> written then out else (lead @ k @ ''='' @ param_value v) # out,
                  written1, open_tail))
         | None \<Rightarrow>
             (let (out, written1, open_tail) = with_loop overrides items head1 written
              in (item # out, written1, if items = [] then leaves_open item else open_tail)))"

fun appended :: "(string \<times> string) list \<Rightarrow> string set \<Rightarrow> string list" where
  "appended [] written = []"
| "appended ((k, v) # overrides) written =
     (if to_ascii_lowercase k \<in> written then appended overrides written
      else ('' '' @ k @ ''='' @ param_value v) # appended overrides (insert (to_ascii_lowercase k) written))"

definition with_params :: "string \<Rightarrow> (string \<times> string) list \<Rightarrow> string" where
  "with_params def overrides =
     (let items = split_items def;
          (out, written, open_tail) = with_loop overrides items (head_fields items) {};
          at_end = length out - (if open_tail then 1 else 0)
      in join_with (CHR '','') (take at_end out @ appended overrides written @ drop at_end out))"

section \<open>A group\<close>

record policy_group =
  pg_name :: string
  pg_kind :: group_kind
  pg_members :: "string list"
  pg_params :: param_map
  pg_conditions :: "(subnet_expr \<times> string) list"
  pg_legacy_keyword :: bool
  pg_definition :: string
  pg_span :: "string \<times> nat"

definition GROUP_PARAMS :: "string list" where
  "GROUP_PARAMS =
     [''default'', ''cellular'', ''hidden'', ''icon-url'', ''category'', ''no-alert'', ''url'', ''underlying-proxy'',
      ''policy-path'', ''update-interval'', ''policy-regex-filter'', ''external-policy-name-prefix'',
      ''external-policy-modifier'', ''include-all-proxies'', ''include-other-group'', ''interval'', ''tolerance'',
      ''timeout'', ''evaluate-before-use'', ''persistent'', ''policy-priority'']"

fun group_items :: "group_kind \<Rightarrow> field list \<Rightarrow> policy_group \<Rightarrow> parse_error + policy_group" where
  "group_items kind [] g = Inr g"
| "group_items kind (f # fs) g =
     (case f_param f of
        None \<Rightarrow> group_items kind fs (g\<lparr>pg_members := pg_members g @ [f_text f]\<rparr>)
      | Some (k, v) \<Rightarrow>
          if kind = GkSubnet \<and> to_ascii_lowercase k \<notin> set GROUP_PARAMS then
            (case subnet_parse k of
               Inl e \<Rightarrow> Inl e
             | Inr expr \<Rightarrow> group_items kind fs (g\<lparr>pg_conditions := pg_conditions g @ [(expr, v)]\<rparr>))
          else group_items kind fs (g\<lparr>pg_params := param_insert k v (pg_params g)\<rparr>))"

definition parse_group :: "string \<Rightarrow> string \<Rightarrow> string \<times> nat \<Rightarrow> parse_error + policy_group" where
  "parse_group name def span =
     (case split_fields def of
        [] \<Rightarrow> Inl (parse_error_new E_SYNTAX (named_as ''policy group'' name @ '': missing type''))
      | f # fs \<Rightarrow>
          (case group_kind_parse (f_text f) of
             None \<Rightarrow> Inl (parse_error_new E_UNKNOWN_POLICY_TYPE
                 (named_as ''policy group'' name @ '': '' @ unknown_type name (f_text f)))
           | Some (kind, legacy) \<Rightarrow>
               group_items kind fs
                 \<lparr>pg_name = name, pg_kind = kind, pg_members = [], pg_params = [], pg_conditions = [],
                  pg_legacy_keyword = legacy, pg_definition = trim def, pg_span = span\<rparr>))"

section \<open>What may be shown of a condition\<close>

fun is_quotable :: "subnet_expr \<Rightarrow> bool" where
  "is_quotable (Ssid g) = quotable (g_source g)"
| "is_quotable (Bssid g) = quotable (g_source g)"
| "is_quotable (Mccmnc text) = quotable text"
| "is_quotable (Bare text) = quotable text"
| "is_quotable (Router _) = True"
| "is_quotable (NetTypeIs _) = True"

end
