(* ===== verification/Rurge_Auto.thy ===== *)
theory Rurge_Auto
  imports Rurge_Smart Rurge_Policy_Def
begin

text \<open>
  Groups of policies (\<^verbatim>\<open>rurge-config/src/spec/group.rs\<close>), the live choices of \<open>select\<close>
  groups (\<^verbatim>\<open>rurge-policy/src/selections.rs\<close>), and the automatic groups (\<^verbatim>\<open>auto.rs\<close>): how each picks
  from its members' test results and what they keep across configurations. A lock guards each
  operation of \<open>AutoGroups\<close>, so each is one step here; the channel that asks for rounds is the list
  of what was sent on it. The clock is an argument.
\<close>

section \<open>Groups\<close>

record test_opts =
  to_interval :: duration
  to_tolerance :: duration
  to_timeout :: "duration option"
  to_evaluate_before_use :: bool
  to_persistent :: bool

definition test_opts_default :: test_opts where
  "test_opts_default =
     \<lparr>to_interval = secs 600, to_tolerance = from_millis 100, to_timeout = None,
      to_evaluate_before_use = False, to_persistent = False\<rparr>"

datatype policy_path = PathUrl string | PathFile string

record import_opts =
  io_policy_path :: "policy_path option"
  io_update_interval :: "nat option"
  io_regex_filter :: "pattern option"
  io_name_prefix :: "string option"
  io_modifier :: "(string \<times> string) list"
  io_include_all_proxies :: bool
  io_include_other_groups :: "string list"

definition import_opts_default :: import_opts where
  "import_opts_default =
     \<lparr>io_policy_path = None, io_update_interval = None, io_regex_filter = None, io_name_prefix = None,
      io_modifier = [], io_include_all_proxies = False, io_include_other_groups = []\<rparr>"

text \<open>\<open>ImportOpts::admits\<close>: a match that errors lets no name in.\<close>

definition import_admits :: "ext \<Rightarrow> import_opts \<Rightarrow> string \<Rightarrow> bool" where
  "import_admits e opts name =
     (case io_regex_filter opts of None \<Rightarrow> True | Some p \<Rightarrow> ext_regex_is_match e p name = Some True)"

record subnet_spec =
  ss_conditions :: "(subnet_expr \<times> string) list"
  ss_default :: string

record group_spec =
  gs_name :: string
  gs_kind :: group_kind
  gs_members :: "string list"
  gs_import :: import_opts
  gs_underlying_proxy :: "string option"
  gs_test :: test_opts
  gs_priority :: "(pattern \<times> f64) list"
  gs_hidden :: bool
  gs_subnet :: "subnet_spec option"
  gs_span :: "string \<times> nat"

section \<open>The choices of \<open>select\<close> groups\<close>

type_synonym selections = "string \<rightharpoonup> string"

definition selection_get :: "selections \<Rightarrow> string \<Rightarrow> string option" where
  "selection_get t grp = t grp"

definition selection_set :: "string \<Rightarrow> string \<Rightarrow> selections \<Rightarrow> selections" where
  "selection_set grp member t = t(grp \<mapsto> member)"

section \<open>Picking by test results\<close>

datatype standing = Passed duration | NotPassed | NotTested

fun standing_passes :: "test_opts \<Rightarrow> standing \<Rightarrow> duration option" where
  "standing_passes opts (Passed score) =
     (case to_timeout opts of
        None \<Rightarrow> Some score
      | Some t \<Rightarrow> if score < t then Some score else None)"
| "standing_passes opts _ = None"

definition best_step :: "test_opts \<Rightarrow> string \<times> standing \<Rightarrow> (string \<times> duration) option \<Rightarrow> (string \<times> duration) option" where
  "best_step opts m best =
     (case standing_passes opts (snd m) of
        Some score \<Rightarrow>
          (case best of
             None \<Rightarrow> Some (fst m, score)
           | Some (_, b) \<Rightarrow> if score < b then Some (fst m, score) else best)
      | None \<Rightarrow> best)"

definition url_test :: "(string \<times> standing) list \<Rightarrow> string option \<Rightarrow> test_opts \<Rightarrow> string option" where
  "url_test members current opts =
     (case fold (best_step opts) members None of
        None \<Rightarrow> (case members of [] \<Rightarrow> None | (name, _) # _ \<Rightarrow> Some name)
      | Some (best, best_score) \<Rightarrow>
          (let held = Option.bind current (\<lambda>c.
                 Option.bind (List.find (\<lambda>(name, _). name = c) members) (\<lambda>(name, st).
                   map_option (\<lambda>score. (name, score)) (standing_passes opts st)))
           in case held of
                Some (name, score) \<Rightarrow> if score - best_score \<le> to_tolerance opts then Some name else Some best
              | None \<Rightarrow> Some best))"

definition fallback :: "(string \<times> standing) list \<Rightarrow> test_opts \<Rightarrow> string option" where
  "fallback members opts =
     (case List.find (\<lambda>(_, st). standing_passes opts st \<noteq> None) members of
        Some (name, _) \<Rightarrow> Some name
      | None \<Rightarrow> (case members of [] \<Rightarrow> None | (name, _) # _ \<Rightarrow> Some name))"

text \<open>The hash of a host by the fixed hasher, and the number drawn when there is none, are arguments.\<close>

definition load_balance :: "(string \<Rightarrow> nat) \<Rightarrow> nat \<Rightarrow> (string \<times> standing) list \<Rightarrow> test_opts \<Rightarrow>
    string option \<Rightarrow> string option" where
  "load_balance hash draw members opts host =
     (let passing = map fst (filter (\<lambda>(_, st). standing_passes opts st \<noteq> None) members);
          candidates = (if passing = [] then map fst members else passing)
      in if candidates = [] then None
         else (let number = (case host of Some h \<Rightarrow> if to_persistent opts then hash h else draw | None \<Rightarrow> draw)
               in Some (candidates ! (number mod length candidates))))"

section \<open>What the automatic groups keep\<close>

record override =
  ov_member :: string
  ov_spec :: group_spec
  ov_warned :: bool

record auto_groups =
  ag_tests :: test_book
  ag_smart :: smart_book
  ag_overrides :: "string \<rightharpoonup> override"
  ag_picks :: "string \<rightharpoonup> string"
  ag_rounds :: "string \<rightharpoonup> instant"
  ag_requested :: "string set"
  ag_epoch :: nat
  ag_cleared :: "string \<rightharpoonup> nat"
  ag_wake :: "string list option"
  ag_ended :: nat

definition without_span :: "group_spec \<Rightarrow> group_spec" where
  "without_span g = g\<lparr>gs_span := ('''', 0)\<rparr>"

definition auto_new :: "test_book \<Rightarrow> auto_groups" where
  "auto_new tests =
     \<lparr>ag_tests = tests, ag_smart = smart_book_new, ag_overrides = Map.empty, ag_picks = Map.empty,
      ag_rounds = Map.empty, ag_requested = {}, ag_epoch = 0, ag_cleared = Map.empty, ag_wake = None,
      ag_ended = 0\<rparr>"

text \<open>\<open>walk\<close> is the order in which the set is walked.\<close>

definition auto_connect :: "(string set \<Rightarrow> string list) \<Rightarrow> auto_groups \<Rightarrow> auto_groups" where
  "auto_connect walk a = a\<lparr>ag_wake := Some (walk (ag_requested a))\<rparr>"

definition auto_wake :: "string \<Rightarrow> auto_groups \<Rightarrow> auto_groups" where
  "auto_wake grp a =
     (if grp \<in> ag_requested a then a
      else a\<lparr>ag_requested := insert grp (ag_requested a),
             ag_wake := map_option (\<lambda>q. q @ [grp]) (ag_wake a)\<rparr>)"

definition auto_requested :: "auto_groups \<Rightarrow> string list" where
  "auto_requested a = sorted_list_of_set (ag_requested a)"

definition round_ended_one :: "nat \<Rightarrow> instant \<Rightarrow> string \<Rightarrow> auto_groups \<Rightarrow> auto_groups" where
  "round_ended_one began now grp a =
     (let a1 = (if (case ag_cleared a grp of None \<Rightarrow> True | Some c \<Rightarrow> c \<le> began)
                then a\<lparr>ag_rounds := (ag_rounds a)(grp \<mapsto> now)\<rparr> else a)
      in a1\<lparr>ag_requested := ag_requested a1 - {grp}\<rparr>)"

definition round_ended :: "string list \<Rightarrow> nat \<Rightarrow> instant \<Rightarrow> auto_groups \<Rightarrow> auto_groups" where
  "round_ended groups began now a =
     (let a1 = fold (round_ended_one began now) groups a in a1\<lparr>ag_ended := ag_ended a1 + 1\<rparr>)"

definition last_round :: "auto_groups \<Rightarrow> string \<Rightarrow> instant option" where
  "last_round a grp = ag_rounds a grp"

definition set_override :: "group_spec \<Rightarrow> string \<Rightarrow> auto_groups \<Rightarrow> auto_groups" where
  "set_override spec member a =
     a\<lparr>ag_overrides := (ag_overrides a)(gs_name spec \<mapsto>
         \<lparr>ov_member = member, ov_spec = without_span spec, ov_warned = False\<rparr>)\<rparr>"

definition clear_override :: "string \<Rightarrow> auto_groups \<Rightarrow> bool \<times> auto_groups" where
  "clear_override grp a = (ag_overrides a grp \<noteq> None, a\<lparr>ag_overrides := (ag_overrides a)(grp := None)\<rparr>)"

definition override_of :: "string \<Rightarrow> string list \<Rightarrow> auto_groups \<Rightarrow> string option \<times> auto_groups" where
  "override_of grp members a =
     (case ag_overrides a grp of
        None \<Rightarrow> (None, a)
      | Some ov \<Rightarrow>
          if ov_member ov \<in> set members then (Some (ov_member ov), a)
          else if ov_warned ov then (None, a)
          else (None, a\<lparr>ag_overrides := (ag_overrides a)(grp \<mapsto> ov\<lparr>ov_warned := True\<rparr>)\<rparr>))"

definition auto_pick :: "auto_groups \<Rightarrow> string \<Rightarrow> string option" where
  "auto_pick a grp = ag_picks a grp"

definition set_pick :: "string \<Rightarrow> string \<Rightarrow> auto_groups \<Rightarrow> auto_groups" where
  "set_pick grp member a =
     (if ag_picks a grp \<noteq> Some member then a\<lparr>ag_picks := (ag_picks a)(grp \<mapsto> member)\<rparr> else a)"

definition auto_retain :: "group_spec list \<Rightarrow> auto_groups \<Rightarrow> auto_groups" where
  "auto_retain groups a =
     (let by_name = map_of (rev (map (\<lambda>g. (gs_name g, without_span g)) groups));
          known = (\<lambda>grp. by_name grp \<noteq> None)
      in a\<lparr>ag_overrides := (\<lambda>grp. case ag_overrides a grp of
                 Some ov \<Rightarrow> if by_name grp = Some (ov_spec ov) then Some ov else None | None \<Rightarrow> None),
           ag_picks := (\<lambda>grp. if known grp then ag_picks a grp else None),
           ag_rounds := (\<lambda>grp. if known grp then ag_rounds a grp else None),
           ag_cleared := (\<lambda>grp. if known grp then ag_cleared a grp else None)\<rparr>)"

definition network_changed_one :: "nat \<Rightarrow> group_spec \<Rightarrow> auto_groups \<Rightarrow> auto_groups" where
  "network_changed_one epoch g a =
     (case gs_kind g of
        GkSubnet \<Rightarrow> a\<lparr>ag_overrides := (ag_overrides a)(gs_name g := None)\<rparr>
      | GkSelect \<Rightarrow> a
      | GkSmart \<Rightarrow> a
      | _ \<Rightarrow> a\<lparr>ag_rounds := (ag_rounds a)(gs_name g := None),
               ag_cleared := (ag_cleared a)(gs_name g \<mapsto> epoch)\<rparr>)"

definition auto_network_changed :: "group_spec list \<Rightarrow> auto_groups \<Rightarrow> auto_groups" where
  "auto_network_changed groups a =
     (let epoch = ag_epoch a + 1
      in fold (network_changed_one epoch) groups (a\<lparr>ag_epoch := epoch\<rparr>))"

text \<open>
  A test that ended: the book keeps its result or not, and tells the scores of what it keeps.
  \<^const>\<open>None\<close> is the panic of a score.
\<close>

definition auto_test_ended :: "(f64 \<Rightarrow> f64) \<Rightarrow> test_case \<Rightarrow> nat \<Rightarrow> test_result \<Rightarrow> auto_groups \<Rightarrow> auto_groups option" where
  "auto_test_ended ex c tx r a =
     (let b = test_run_end (ag_tests a) c tx r;
          a1 = a\<lparr>ag_tests := b\<rparr>
      in if tb_sunk b = tb_sunk (ag_tests a) then Some a1
         else map_option (\<lambda>s. a1\<lparr>ag_smart := s\<rparr>) (book_tested ex c r (ag_smart a)))"

end
