(* ===== verification/Rurge_Smart_Facts.thy ===== *)
theory Rurge_Smart_Facts
  imports Rurge_Smart
begin

text \<open>
  That a ranking always names everybody once and prefers who works, that a site that is down
  costs one penalty, and that the health of a policy is always a duration.
\<close>

section \<open>Ranking\<close>

definition f64_ok :: "f64 \<Rightarrow> bool" where
  "f64_ok x \<longleftrightarrow> f64_value x \<and> Fin 0 \<le> x"

lemma f64_round_ok: "0 \<le> q \<Longrightarrow> f64_ok (f64_round q)"
proof -
  assume q: "0 \<le> q"
  have "f64_value (Fin 0)" by (auto simp: f64_value_def intro!: exI[of _ 0])
  then show ?thesis using q by (simp add: f64_ok_def f64_round_value f64_round_ge)
qed

lemma f64_ok_Inf [simp]: "f64_ok Inf"
  by (simp add: f64_ok_def f64_value_def)

lemma f64_ok_mul: "Fin 0 \<le> a \<Longrightarrow> Fin 0 \<le> b \<Longrightarrow> f64_ok (f64_mul a b)"
  by (cases a; cases b) (simp_all add: f64_round_ok)

lemma f64_ok_add: "Fin 0 \<le> a \<Longrightarrow> Fin 0 \<le> b \<Longrightarrow> f64_ok (f64_add a b)"
  by (cases a; cases b) (simp_all add: f64_round_ok)

lemma as_secs_nonneg: "Fin 0 \<le> as_secs_f64 d"
proof -
  have "Fin 0 \<le> f64_round (of_nat (d div 1000000000))"
    "Fin 0 \<le> f64_div (f64_round (of_nat (d mod 1000000000))) (Fin 1000000000)"
    using f64_round_ok[of "of_nat (d div 1000000000)"] f64_round_ok[of "of_nat (d mod 1000000000)"]
    by (auto simp: f64_ok_def, cases "f64_round (of_nat (d mod 1000000000))")
      (auto simp: f64_round_ok[unfolded f64_ok_def])
  then show ?thesis using f64_ok_add by (simp add: as_secs_f64_def f64_ok_def)
qed

lemma preferred_above: "f64_ok x \<Longrightarrow> x \<le> f64_mul x PREFERRED"
proof -
  assume x: "f64_ok x"
  have "f64_value (Fin 1)"
    unfolding f64_value_def f64_units_def f64.case by (rule exI[of _ 1], rule exI[of _ 1074]) simp
  then have "Fin 1 \<le> PREFERRED" unfolding PREFERRED_def by (rule f64_round_ge) simp
  then show ?thesis using x by (intro f64_mul_ge) (auto simp: f64_ok_def)
qed

fun is_Healthy :: "health \<Rightarrow> bool" where
  "is_Healthy (Healthy _) = True"
| "is_Healthy _ = False"

fun is_Unknown :: "health \<Rightarrow> bool" where
  "is_Unknown (Unknown _) = True"
| "is_Unknown _ = False"

lemma health_kinds: "is_Healthy h \<or> is_Unknown h \<or> is_failed h"
  by (cases h) auto

lemma health_case:
  "((case h of Healthy s \<Rightarrow> Some (f s) | _ \<Rightarrow> None) \<noteq> None) = is_Healthy h"
  "((case h of Unknown s \<Rightarrow> Some (g s) | _ \<Rightarrow> None) \<noteq> None) = is_Unknown h"
  "((case h of Failed s \<Rightarrow> Some (k s) | _ \<Rightarrow> None) \<noteq> None) = is_failed h"
  by (cases h; simp)+

lemma map_filter_set: "set (List.map_filter f xs) = {y. \<exists>x\<in>set xs. f x = Some y}"
  by (force simp: List.map_filter_def)

lemma find_in: "List.find P xs = Some x \<Longrightarrow> x \<in> set xs \<and> P x"
  by (induction xs) (auto split: if_splits)

lemma sorted_wrt_all: "(\<And>x y. x \<in> set xs \<Longrightarrow> y \<in> set xs \<Longrightarrow> R x y) \<Longrightarrow> sorted_wrt R xs"
  by (induction xs) auto

lemma map_filter_enumerate:
  assumes "\<And>i c y. f (i, c) = Some y \<Longrightarrow> fst y = i"
  shows "map fst (List.map_filter f (List.enumerate 0 cs)) = filter (\<lambda>i. f (i, cs ! i) \<noteq> None) [0..<length cs]"
proof (induction cs rule: rev_induct)
  case (snoc x xs)
  have "filter (\<lambda>i. f (i, (xs @ [x]) ! i) \<noteq> None) [0..<length xs] =
      filter (\<lambda>i. f (i, xs ! i) \<noteq> None) [0..<length xs]"
    by (rule filter_cong) (auto simp: nth_append)
  then show ?case
    using snoc assms by (auto simp: enumerate_append_eq List.map_filter_def)
qed (simp add: List.map_filter_def)

lemma mset_map_fst_sort: "mset (map fst (sort_key k xs)) = mset (map fst xs)"
  by (metis mset_map mset_sort)

lemma mset_filter3:
  assumes "\<And>x. x \<in> set xs \<Longrightarrow> P x \<or> Q x \<or> R x"
    "\<And>x. \<not> (P x \<and> Q x)" "\<And>x. \<not> (P x \<and> R x)" "\<And>x. \<not> (Q x \<and> R x)"
  shows "mset (filter P xs) + mset (filter Q xs) + mset (filter R xs) = mset xs"
  using assms(1) by (induction xs) (use assms(2-) in auto)

lemma mset_line_of: "mset (line_of cs) = mset [0..<length cs]"
proof -
  have "map fst (List.map_filter (\<lambda>(i, c). case cd_health c of
            Healthy score \<Rightarrow> Some (i, f64_mul (as_secs_f64 score) (cd_factor c)) | _ \<Rightarrow> None)
          (List.enumerate 0 cs)) = filter (\<lambda>i. is_Healthy (cd_health (cs ! i))) [0..<length cs]"
    by (rule trans[OF map_filter_enumerate]) ((auto split: health.splits)[1], simp add: health_case del: not_None_eq)
  moreover have "map fst (List.map_filter (\<lambda>(i, c). case cd_health c of
            Unknown failures \<Rightarrow> Some (i, failures) | _ \<Rightarrow> None)
          (List.enumerate 0 cs)) = filter (\<lambda>i. is_Unknown (cd_health (cs ! i))) [0..<length cs]"
    by (rule trans[OF map_filter_enumerate]) ((auto split: health.splits)[1], simp add: health_case del: not_None_eq)
  moreover have "map fst (List.map_filter (\<lambda>(i, c). case cd_health c of Failed score \<Rightarrow> Some (i, score) | _ \<Rightarrow> None)
          (List.enumerate 0 cs)) = filter (\<lambda>i. is_failed (cd_health (cs ! i))) [0..<length cs]"
    by (rule trans[OF map_filter_enumerate]) ((auto split: health.splits)[1], simp add: health_case del: not_None_eq)
  ultimately show ?thesis
    unfolding line_of_def healthy_of_def unknown_of_def failed_of_def mset_append mset_map_fst_sort
    by (simp only: add.assoc[symmetric], intro mset_filter3)
      (auto elim!: is_Healthy.elims is_Unknown.elims is_failed.elims simp: health_kinds)
qed

lemma mset_order_of: "mset (order_of cs mem) = mset [0..<length cs]"
  unfolding order_of_def mset_append mset_filter mset_line_of by (metis multiset_partition add.commute)

lemma order_of_set: "set (order_of cs mem) = {..<length cs}"
  using mset_eq_setD[OF mset_order_of] by auto

lemma order_of_distinct: "distinct (order_of cs mem)"
  using mset_order_of[of cs mem] by (metis distinct_upt mset_eq_imp_distinct_iff)

text \<open>The score of a candidate, as the ranking compares it.\<close>

definition score_of :: "candidate \<Rightarrow> f64" where
  "score_of c = (case cd_health c of Healthy s \<Rightarrow> f64_mul (as_secs_f64 s) (cd_factor c) | _ \<Rightarrow> Inf)"

lemma healthy_case:
  "(case h of Healthy d \<Rightarrow> Some (f d) | _ \<Rightarrow> None) = Some y \<longleftrightarrow> (\<exists>d. h = Healthy d \<and> y = f d)"
  by (cases h) auto

lemma is_Healthy_iff: "is_Healthy h \<longleftrightarrow> (\<exists>d. h = Healthy d)"
  by (cases h) auto

lemma healthy_of_iff:
  "(i, s) \<in> set (healthy_of cs) \<longleftrightarrow>
     i < length cs \<and> is_Healthy (cd_health (cs ! i)) \<and> s = score_of (cs ! i)"
  unfolding healthy_of_def set_sort map_filter_set
  by (auto simp: in_set_enumerate_eq Bex_def healthy_case is_Healthy_iff score_of_def)

lemma usable_of_iff:
  "(i, s) \<in> set (usable_of cs mem) \<longleftrightarrow> i < length cs \<and> is_Healthy (cd_health (cs ! i)) \<and>
     cd_name (cs ! i) \<notin> set (sm_failed mem) \<and> s = score_of (cs ! i)"
  by (auto simp: usable_of_def healthy_of_iff named_in_def)

lemma healthy_of_sorted: "sorted (map snd (healthy_of cs))"
proof -
  have "sorted (map (\<lambda>(i, s). (s, i)) (healthy_of cs))"
    unfolding healthy_of_def by (rule sorted_sort_key)
  then have "sorted_wrt (\<lambda>x y. snd x \<le> snd y) (healthy_of cs)"
    unfolding sorted_map by (rule sorted_wrt_mono_rel[rotated]) (auto simp: less_eq_prod_def)
  then show ?thesis by (simp add: sorted_map)
qed

lemma usable_of_sorted: "sorted (map snd (usable_of cs mem))"
  unfolding usable_of_def by (rule sorted_filter, rule healthy_of_sorted)

lemma score_of_ok: "Fin 0 \<le> cd_factor c \<Longrightarrow> f64_ok (score_of c)"
  by (auto simp: score_of_def as_secs_nonneg intro: f64_ok_mul split: health.split)

lemma preferred_of_some:
  assumes "\<And>c. c \<in> set cs \<Longrightarrow> Fin 0 \<le> cd_factor c" "usable_of cs mem \<noteq> []"
  shows "preferred_of cs mem \<noteq> []"
proof -
  obtain i rest where u: "usable_of cs mem = (i, score_of (cs ! i)) # rest" and i: "i < length cs"
    using assms(2) usable_of_iff[of _ _ cs mem] by (cases "usable_of cs mem") auto
  have "score_of (cs ! i) \<le> f64_mul (score_of (cs ! i)) PREFERRED"
    using assms(1) i by (intro preferred_above score_of_ok) simp
  then show ?thesis by (simp add: preferred_of_def u)
qed

text \<open>What makes a healthy member a good choice for the site of a session.\<close>

definition good_choice :: "candidate list \<Rightarrow> site_memory \<Rightarrow> nat \<Rightarrow> bool" where
  "good_choice cs mem i \<longleftrightarrow>
     i < length cs \<and> is_Healthy (cd_health (cs ! i)) \<and> cd_name (cs ! i) \<notin> set (sm_failed mem) \<and>
     (cd_name (cs ! i) \<in> set (sm_worked mem) \<and>
        (\<exists>k<length cs. (\<forall>j<length cs. is_Healthy (cd_health (cs ! j)) \<longrightarrow> score_of (cs ! k) \<le> score_of (cs ! j)) \<and>
                       score_of (cs ! i) \<le> f64_mul (score_of (cs ! k)) SITE_PREFERRED) \<or>
      (\<exists>k<length cs. (\<forall>j<length cs. is_Healthy (cd_health (cs ! j)) \<and> cd_name (cs ! j) \<notin> set (sm_failed mem) \<longrightarrow>
                            score_of (cs ! k) \<le> score_of (cs ! j)) \<and>
                     score_of (cs ! i) \<le> f64_mul (score_of (cs ! k)) PREFERRED))"

lemma sorted_head: "sorted (map snd ((i, b) # xs)) \<Longrightarrow> (j, s) \<in> set ((i, b) # xs) \<Longrightarrow> b \<le> s"
  by force

lemma known_good: "known_of cs mem = Some i \<Longrightarrow> good_choice cs mem i"
proof -
  assume k: "known_of cs mem = Some i"
  then obtain b0 best rest where h: "healthy_of cs = (b0, best) # rest"
    by (auto simp: known_of_def split: list.splits)
  obtain s where s: "(i, s) \<in> set (usable_of cs mem)" "cd_name (cs ! i) \<in> set (sm_worked mem)"
      "s \<le> f64_mul best SITE_PREFERRED"
    using k by (auto simp: known_of_def h named_in_def dest!: find_in)
  have b: "b0 < length cs" "best = score_of (cs ! b0)" using healthy_of_iff[of b0 best cs] by (auto simp: h)
  have "score_of (cs ! b0) \<le> score_of (cs ! j)" if "j < length cs" "is_Healthy (cd_health (cs ! j))" for j
    using sorted_head[of b0 best rest j "score_of (cs ! j)"] healthy_of_sorted[of cs] that
      healthy_of_iff[of j "score_of (cs ! j)" cs] b(2) unfolding h by blast
  then show ?thesis using s b unfolding good_choice_def usable_of_iff by blast
qed

lemma preferred_good: "i \<in> set (preferred_of cs mem) \<Longrightarrow> good_choice cs mem i"
proof -
  assume i: "i \<in> set (preferred_of cs mem)"
  then obtain b0 best rest where u: "usable_of cs mem = (b0, best) # rest"
    by (cases "usable_of cs mem") (auto simp: preferred_of_def)
  have "preferred_of cs mem = map fst (takeWhile (\<lambda>(_, score). score \<le> f64_mul best PREFERRED) (usable_of cs mem))"
    by (simp add: preferred_of_def u)
  then obtain s where s: "(i, s) \<in> set (usable_of cs mem)" "s \<le> f64_mul best PREFERRED"
    using i by (auto dest: set_takeWhileD)
  have b: "b0 < length cs" "best = score_of (cs ! b0)"
    using usable_of_iff[of b0 best cs mem] by (auto simp: u)
  have "score_of (cs ! b0) \<le> score_of (cs ! j)"
    if "j < length cs" "is_Healthy (cd_health (cs ! j)) \<and> cd_name (cs ! j) \<notin> set (sm_failed mem)" for j
    using sorted_head[of b0 best rest j "score_of (cs ! j)"] usable_of_sorted[of cs mem] that
      usable_of_iff[of j "score_of (cs ! j)" cs mem] b(2) unfolding u by blast
  then show ?thesis using s b unfolding good_choice_def usable_of_iff by blast
qed

lemma pick_of_cases:
  assumes "\<And>c. c \<in> set cs \<Longrightarrow> Fin 0 \<le> cd_factor c"
  obtains (nobody) "cs = []" "pick_of cs mem pick_at = Some None"
  | (good) i where "pick_of cs mem pick_at = Some (Some i)" "good_choice cs mem i"
  | (first) i rest where "pick_of cs mem pick_at = Some (Some i)" "order_of cs mem = i # rest"
      "usable_of cs mem = []"
proof (cases "known_of cs mem")
  case (Some i)
  then show thesis using good known_good by (simp add: pick_of_def)
next
  case None
  show thesis
  proof (cases "usable_of cs mem = []")
    case False
    let ?n = "length (preferred_of cs mem)"
    have n: "preferred_of cs mem \<noteq> []" using assms False by (rule preferred_of_some)
    then have "preferred_of cs mem ! min (pick_at ?n) (?n - 1) \<in> set (preferred_of cs mem)"
      by (intro nth_mem) (simp add: min.strict_coboundedI2)
    then show thesis using good preferred_good None False n by (simp add: pick_of_def Let_def)
  next
    case True
    show thesis
    proof (cases "order_of cs mem")
      case Nil
      then have "cs = []" using order_of_set[of cs mem] by auto
      then show thesis using nobody None True Nil by (simp add: pick_of_def)
    qed (use first None True in \<open>simp add: pick_of_def\<close>)
  qed
qed

lemma order_failed_last:
  "sorted_wrt (\<lambda>a b. named_in cs (sm_failed mem) a \<longrightarrow> named_in cs (sm_failed mem) b) (order_of cs mem)"
  by (auto simp: order_of_def sorted_wrt_append intro: sorted_wrt_all)

lemma mset_cons_filter: "distinct xs \<Longrightarrow> x \<in> set xs \<Longrightarrow> mset (x # filter (\<lambda>y. y \<noteq> x) xs) = mset xs"
proof (induction xs)
  case (Cons y ys)
  have "filter (\<lambda>z. z \<noteq> y) ys = ys" using Cons.prems by (auto simp: filter_id_conv)
  then show ?case using Cons by (auto simp flip: mset_filter)
qed simp

lemma pick_of_in_order: "pick_of cs mem pick_at = Some (Some i) \<Longrightarrow> i \<in> set (order_of cs mem)"
proof -
  assume p: "pick_of cs mem pick_at = Some (Some i)"
  have "i < length cs" if "known_of cs mem = Some i" using known_good[OF that] by (simp add: good_choice_def)
  moreover have "i < length cs" if "i \<in> set (preferred_of cs mem)"
    using preferred_good[OF that] by (simp add: good_choice_def)
  moreover have "preferred_of cs mem ! min k (length (preferred_of cs mem) - 1) \<in> set (preferred_of cs mem)"
    if "preferred_of cs mem \<noteq> []" for k
    using that by (intro nth_mem) (simp add: min.strict_coboundedI2)
  ultimately show ?thesis
    using p by (auto simp: pick_of_def Let_def order_of_set split: option.splits if_splits list.splits)
      (metis list.set_intros(1) lessThan_iff order_of_set)
qed

lemma rank_names:
  assumes "rank cs mem pick_at = Some (Some r)"
  shows "mset (rk_pick r # rk_retry r) = mset (map cd_name cs)"
proof -
  obtain i where i: "pick_of cs mem pick_at = Some (Some i)" "rk_pick r = cd_name (cs ! i)"
    "rk_retry r = map (\<lambda>i. cd_name (cs ! i)) (filter (\<lambda>j. j \<noteq> i) (order_of cs mem))"
    using assms by (auto simp: rank_def)
  have "mset (i # filter (\<lambda>j. j \<noteq> i) (order_of cs mem)) = mset (order_of cs mem)"
    using order_of_distinct pick_of_in_order[OF i(1)] by (rule mset_cons_filter)
  then have "mset (map (\<lambda>i. cd_name (cs ! i)) (i # filter (\<lambda>j. j \<noteq> i) (order_of cs mem))) =
      mset (map (\<lambda>i. cd_name (cs ! i)) [0..<length cs])" by (simp only: mset_map mset_order_of)
  then show ?thesis
    by (simp add: i map_nth flip: map_map[of cd_name "(!) cs", unfolded comp_def])
qed

lemma rank_pick_named: "rank cs mem pick_at = Some (Some r) \<Longrightarrow> rk_pick r \<in> cd_name ` set cs"
  using mset_eq_setD[OF rank_names[of cs mem pick_at r]] by auto

lemma rank_returns:
  assumes "\<And>c. c \<in> set cs \<Longrightarrow> Fin 0 \<le> cd_factor c"
  shows "\<exists>r. rank cs mem pick_at = Some r"
  using assms by (rule pick_of_cases[of cs mem pick_at]) (auto simp: rank_def)

text \<open>
  C22. Ranking the members of a \<open>smart\<close> group never panics, whatever number the dial draws. It names
  every member once, the one to use and the others to try after it; those that failed at the
  site lately come last. When a healthy member did not fail there, the one to use is such a
  member, and either worked there and is within a factor of two of the best, or is within a
  factor of 1.2 of the best of those.
\<close>

theorem rank_correct:
  assumes "\<forall>c\<in>set cs. Fin 0 \<le> cd_factor c"
  shows "cs = [] \<and> rank cs mem pick_at = Some None \<or>
    (\<exists>r i. rank cs mem pick_at = Some (Some r) \<and> i < length cs \<and> rk_pick r = cd_name (cs ! i) \<and>
       mset (rk_pick r # rk_retry r) = mset (map cd_name cs) \<and>
       sorted_wrt (\<lambda>a b. a \<in> set (sm_failed mem) \<longrightarrow> b \<in> set (sm_failed mem)) (rk_retry r) \<and>
       (good_choice cs mem i \<or>
        (\<forall>c\<in>set cs. is_Healthy (cd_health c) \<longrightarrow> cd_name c \<in> set (sm_failed mem))))"
proof (rule pick_of_cases[of cs mem pick_at])
  show "c \<in> set cs \<Longrightarrow> Fin 0 \<le> cd_factor c" for c using assms by blast
next
  assume "cs = []" "pick_of cs mem pick_at = Some None"
  then show ?thesis by (simp add: rank_def)
next
  have found: ?thesis if p: "pick_of cs mem pick_at = Some (Some i)"
      and c: "good_choice cs mem i \<or> usable_of cs mem = []" for i
  proof -
    let ?r = "\<lparr>rk_pick = cd_name (cs ! i),
      rk_retry = map (\<lambda>i. cd_name (cs ! i)) (filter (\<lambda>j. j \<noteq> i) (order_of cs mem))\<rparr>"
    have r: "rank cs mem pick_at = Some (Some ?r)" using p by (simp add: rank_def)
    have "sorted_wrt (\<lambda>a b. a \<in> set (sm_failed mem) \<longrightarrow> b \<in> set (sm_failed mem)) (rk_retry ?r)"
      using order_failed_last[of cs mem] unfolding ranking.simps sorted_wrt_map named_in_def
      by (rule sorted_wrt_filter)
    moreover have "i < length cs" using pick_of_in_order[OF p] by (simp add: order_of_set)
    moreover have "\<forall>c\<in>set cs. is_Healthy (cd_health c) \<longrightarrow> cd_name c \<in> set (sm_failed mem)"
      if "usable_of cs mem = []"
      using that usable_of_iff[of _ "score_of (cs ! _)" cs mem] by (metis in_set_conv_nth list.set(1) empty_iff)
    ultimately show ?thesis using rank_names[OF r] r c by auto
  qed
  show ?thesis if "pick_of cs mem pick_at = Some (Some i)" "good_choice cs mem i" for i
    using found that by blast
  show ?thesis if "pick_of cs mem pick_at = Some (Some i)" "usable_of cs mem = []" for i
    using found that by blast
qed

section \<open>Sites\<close>

text \<open>What a site remembers last is the outcome that came last.\<close>

lemma tl_append_last:
  assumes "P \<longrightarrow> xs \<noteq> []"
  shows "last (if P then tl (xs @ [y]) else xs @ [y]) = y" "(if P then tl (xs @ [y]) else xs @ [y]) \<noteq> []"
  using assms by (cases xs; cases P; simp)+

lemma remember_last:
  assumes "sites_remember s host policy worked now = (f, s')"
  obtains v where "map_of (si_hosts s') host = Some v" "st_policies v \<noteq> []"
    "last (st_policies v) = (policy, worked, now)"
proof -
  obtain vs where v: "map_of (si_hosts s') host = Some \<lparr>st_used = si_clock s + 1,
      st_policies = (if POLICIES_PER_SITE < length (vs @ [(policy, worked, now)])
        then tl (vs @ [(policy, worked, now)]) else vs @ [(policy, worked, now)])\<rparr>"
    using assms by (auto simp: sites_remember_def Let_def update_conv')
  have "POLICIES_PER_SITE < length (vs @ [(policy, worked, now)]) \<longrightarrow> vs \<noteq> []"
    by (auto simp: POLICIES_PER_SITE_def)
  note tl_append_last[of "POLICIES_PER_SITE < length (vs @ [(policy, worked, now)])" vs
      "(policy, worked, now)", OF this]
  then show thesis by (intro that[OF v]) (simp_all only: site.simps not_False_eq_True)
qed

lemma remember_failed_here:
  assumes "map_of (si_hosts s) host = Some v" "(p, False, t0) \<in> set (st_policies v)" "fresh_at now t0"
  shows "fst (sites_remember s host policy worked now)"
  using assms by (force simp: sites_remember_def Let_def list_ex_iff)

text \<open>The failures reported at one host, one after the other.\<close>

fun report_failures :: "(f64 \<Rightarrow> f64) \<Rightarrow> string \<Rightarrow> (string \<times> outbound \<times> instant) list \<Rightarrow> smart_book \<Rightarrow> smart_book option" where
  "report_failures ex host [] b = Some b"
| "report_failures ex host ((policy, o', now) # fs) b =
     (case report_failure ex policy o' (Some host) now b of
        None \<Rightarrow> None
      | Some b1 \<Rightarrow> report_failures ex host fs b1)"

text \<open>Each came less than \<open>SITE_MEMORY\<close> after the one before it.\<close>

fun close_calls :: "instant \<Rightarrow> (string \<times> outbound \<times> instant) list \<Rightarrow> bool" where
  "close_calls t0 [] = True"
| "close_calls t0 ((_, _, now) # fs) \<longleftrightarrow> fresh_at now t0 \<and> close_calls now fs"

definition failed_last :: "string \<Rightarrow> instant \<Rightarrow> smart_book \<Rightarrow> bool" where
  "failed_last host t0 b \<longleftrightarrow>
     (\<exists>v p. map_of (si_hosts (sb_sites b)) host = Some v \<and> (p, False, t0) \<in> set (st_policies v))"

lemma report_failure_remembers:
  assumes "report_failure ex policy o' (Some host) now b = Some b1"
  shows "failed_last host now b1"
proof -
  obtain f s' where r: "sites_remember (sb_sites b) host policy False now = (f, s')" by fastforce
  then have "sb_sites b1 = s'"
    using assms by (auto simp: report_failure_def book_change_def Let_def split: if_splits option.splits)
  then show ?thesis
    using remember_last[OF r] unfolding failed_last_def by (metis last_in_set)
qed

lemma report_failure_excused:
  assumes "failed_last host t0 b" "fresh_at now t0"
  shows "\<exists>b1. report_failure ex policy o' (Some host) now b = Some b1 \<and> sb_records b1 = sb_records b"
proof -
  have "fst (sites_remember (sb_sites b) host policy False now)"
    using assms remember_failed_here unfolding failed_last_def by blast
  then show ?thesis by (auto simp: report_failure_def split: prod.split)
qed

lemma report_failures_excused:
  "failed_last host t0 b \<Longrightarrow> close_calls t0 fs \<Longrightarrow>
     \<exists>b1. report_failures ex host fs b = Some b1 \<and> sb_records b1 = sb_records b"
proof (induction fs arbitrary: t0 b)
  case (Cons f fs)
  obtain p o' now where f: "f = (p, o', now)" by (cases f)
  obtain b1 where b1: "report_failure ex p o' (Some host) now b = Some b1" "sb_records b1 = sb_records b"
    using report_failure_excused Cons.prems by (fastforce simp: f)
  then show ?case
    using Cons.IH[OF report_failure_remembers[OF b1(1)]] Cons.prems by (simp add: f)
qed simp

text \<open>
  C23. A site that is down costs one penalty: of failures reported there one after the other, each
  within the hour of the one before, whichever policies they are of, only the first can change
  the record of a policy.
\<close>

theorem site_down_one_penalty:
  assumes "report_failure ex policy o' (Some host) now b = Some b1" "close_calls now fs"
  shows "\<exists>b2. report_failures ex host ((policy, o', now) # fs) b = Some b2 \<and> sb_records b2 = sb_records b1"
  using report_failures_excused[OF report_failure_remembers[OF assms(1)] assms(2)] by (simp add: assms(1))


section \<open>Scores stay within what a duration holds\<close>

text \<open>What is relied on of \<open>exp2\<close> at a number that is not positive.\<close>

definition exp2_ok :: "(f64 \<Rightarrow> f64) \<Rightarrow> bool" where
  "exp2_ok ex \<longleftrightarrow> (\<forall>x. Fin 0 \<le> ex x \<and> ex x \<le> Fin 1)"

text \<open>A number from zero to a bound.\<close>

definition bounded :: "nat \<Rightarrow> f64 \<Rightarrow> bool" where
  "bounded n x \<longleftrightarrow> Fin 0 \<le> x \<and> x \<le> Fin (of_nat n)"

lemma boundedE: "bounded n x \<Longrightarrow> (\<And>q. x = Fin q \<Longrightarrow> 0 \<le> q \<Longrightarrow> q \<le> of_nat n \<Longrightarrow> P) \<Longrightarrow> P"
  by (cases x) (auto simp: bounded_def)

lemma bounded_zero [simp]: "bounded n (Fin 0)"
  by (simp add: bounded_def)

lemma bounded_round: "0 \<le> q \<Longrightarrow> q \<le> of_nat n \<Longrightarrow> n \<le> 2 ^ 53 \<Longrightarrow> bounded n (f64_round q)"
  using f64_round_ok[of q] f64_round_le[of q n] by (simp add: bounded_def f64_ok_def)

lemma bounded_mono: "bounded n x \<Longrightarrow> n \<le> m \<Longrightarrow> bounded m x"
  by (erule boundedE) (simp add: bounded_def order_trans[of _ "of_nat n" "of_nat m"])

lemma bounded_add: "bounded n x \<Longrightarrow> bounded m y \<Longrightarrow> n + m \<le> 2 ^ 53 \<Longrightarrow> bounded (n + m) (f64_add x y)"
  by (elim boundedE) (simp add: bounded_round add_mono)

lemma bounded_mul: "bounded n x \<Longrightarrow> bounded m y \<Longrightarrow> n * m \<le> 2 ^ 53 \<Longrightarrow> bounded (n * m) (f64_mul x y)"
  by (elim boundedE) (simp add: bounded_round mult_mono)

lemma bounded_div:
  assumes "bounded n x" "bounded m w" "Fin 1 \<le> w" "n \<le> 2 ^ 53"
  shows "bounded n (f64_div x w)"
proof -
  obtain a b where "x = Fin a" "0 \<le> a" "a \<le> of_nat n" "w = Fin b" "1 \<le> b"
    using assms by (elim boundedE) simp
  moreover from this have "a / b \<le> of_nat n"
    by (intro order_trans[OF divide_left_mono[of 1 b a]]) simp_all
  ultimately show ?thesis using assms(4) by (simp add: bounded_round)
qed

lemma bounded_fade: "exp2_ok ex \<Longrightarrow> bounded 1 (fade ex since now)"
  by (simp add: exp2_ok_def fade_def bounded_def)

lemma bounded_millis:
  assumes "d < secs n" "n < 2 ^ 31"
  shows "bounded (n * 1000) (millis d)"
proof -
  have "d div 1000000000 \<le> n - 1" "0 < n" using assms(1) by (auto simp: less_mult_imp_div_less)
  then have "bounded (n - 1) (f64_round (of_nat (d div 1000000000)))"
    using assms(2) by (intro bounded_round) simp_all
  moreover have "bounded 1 (f64_div (f64_round (of_nat (d mod 1000000000))) (Fin 1000000000))"
  proof -
    have "bounded 1000000000 (f64_round (of_nat (d mod 1000000000)))"
      by (intro bounded_round) (simp_all add: less_imp_le)
    then show ?thesis by (elim boundedE) (simp add: bounded_round)
  qed
  ultimately have "bounded (n - 1 + 1) (as_secs_f64 d)"
    unfolding as_secs_f64_def using assms(2) by (intro bounded_add) simp_all
  then show ?thesis
    unfolding millis_def using assms(2) \<open>0 < n\<close>
    by (intro bounded_mul) (simp_all add: bounded_def)
qed

text \<open>What is known of a policy after \<open>n\<close> reports, none of a time of 2048 seconds or more.\<close>

definition record_ok :: "nat \<Rightarrow> smart_record \<Rightarrow> bool" where
  "record_ok n r \<longleftrightarrow>
     bounded (n * 2 ^ 21) (sr_sum r) \<and> bounded (n * 2 ^ 10) (sr_penalty r) \<and>
     (sr_weight r = Fin 0 \<or> Fin 1 \<le> sr_weight r) \<and> bounded n (sr_weight r)"

lemma record_ok_mono: "record_ok n r \<Longrightarrow> n \<le> m \<Longrightarrow> record_ok m r"
  unfolding record_ok_def by (auto elim: bounded_mono)

lemma record_new_ok: "record_ok n (record_new o')"
  by (simp add: record_ok_def record_new_def bounded_def)

lemma f64_value_one: "f64_value (Fin 1)"
  unfolding f64_value_def f64_units_def f64.case by (rule exI[of _ 1], rule exI[of _ 1074]) simp

lemma add_one_ge: "Fin 0 \<le> w \<Longrightarrow> Fin 1 \<le> f64_add w (Fin 1)"
  by (cases w) (simp_all add: f64_round_ge f64_value_one)

lemma bounded_faded: "exp2_ok ex \<Longrightarrow> bounded n x \<Longrightarrow> n \<le> 2 ^ 53 \<Longrightarrow> bounded n (f64_mul x (fade ex since now))"
  using bounded_mul[of n x 1 "fade ex since now"] bounded_fade[of ex since now] by simp

lemma record_sample_ok:
  assumes "exp2_ok ex" "record_ok n r" "n < 2 ^ 31" "latency < secs 2048"
  shows "record_ok (n + 1) (record_sample ex (millis latency) now r)"
proof -
  obtain s w where sw: "(case sr_sampled r of
        Some t0 \<Rightarrow> (let f = fade ex t0 now in (f64_mul (sr_sum r) f, f64_mul (sr_weight r) f))
      | None \<Rightarrow> (sr_sum r, sr_weight r)) = (s, w)" by fastforce
  have s: "bounded (n * 2 ^ 21) s" and w: "bounded n w"
    using sw assms(1-3) by (auto simp: record_ok_def Let_def bounded_faded split: option.splits)
  have "bounded (2048 * 1000) (millis latency)" using assms(4) by (intro bounded_millis) simp_all
  then have "bounded (n * 2 ^ 21 + 2 ^ 21) (f64_add s (millis latency))"
    using s assms(3) by (intro bounded_add) (auto elim: bounded_mono)
  moreover have "bounded (n + 1) (f64_add w (Fin 1))"
    using w assms(3) by (intro bounded_add) (simp_all add: bounded_def)
  moreover have "Fin 1 \<le> f64_add w (Fin 1)" using w by (intro add_one_ge) (simp add: bounded_def)
  moreover have "bounded ((n + 1) * 2 ^ 10) (sr_penalty r)"
    using assms(2) unfolding record_ok_def by (auto elim: bounded_mono)
  ultimately show ?thesis by (simp add: record_ok_def record_sample_def sw add.commute)
qed

lemma penalty_bounded:
  assumes "exp2_ok ex" "record_ok n r" "n \<le> 2 ^ 31"
  shows "bounded (n * 2 ^ 10) (penalty_at ex r now)"
  using assms by (auto simp: penalty_at_def record_ok_def bounded_faded split: option.split)

lemma record_failure_ok:
  assumes "exp2_ok ex" "record_ok n r" "n < 2 ^ 31"
  shows "record_ok (n + 1) (record_failure ex now r)"
proof -
  have "bounded (1 * 1000) (millis PENALTY)" by (intro bounded_millis) (simp_all add: PENALTY_def)
  then have "bounded (n * 2 ^ 10 + 2 ^ 10) (f64_add (penalty_at ex r now) (millis PENALTY))"
    using penalty_bounded[of ex n r now] assms by (intro bounded_add) (auto elim: bounded_mono)
  then show ?thesis
    using assms(2) by (auto simp: record_ok_def record_failure_def add.commute elim: bounded_mono)
qed

lemma record_health_returns:
  assumes "exp2_ok ex" "record_ok n r" "n \<le> 2 ^ 31"
  shows "\<exists>h. record_health ex now r = Some h"
proof (cases "Fin 0 < sr_weight r")
  case True
  then have w: "Fin 1 \<le> sr_weight r" "bounded n (sr_weight r)" "bounded (n * 2 ^ 21) (sr_sum r)"
    using assms(2) by (auto simp: record_ok_def)
  then have "bounded (n * 2 ^ 21) (f64_div (sr_sum r) (sr_weight r))"
    using assms(3) by (intro bounded_div) simp_all
  then have "bounded (n * 2 ^ 21 + n * 2 ^ 10) (f64_add (f64_div (sr_sum r) (sr_weight r)) (penalty_at ex r now))"
    using penalty_bounded[OF assms] assms(3) by (intro bounded_add) simp_all
  then have "bounded (2 ^ 53) (f64_add (f64_div (sr_sum r) (sr_weight r)) (penalty_at ex r now))"
    using assms(3) by (auto elim: bounded_mono)
  then have "bounded (2 ^ 53) (f64_div (f64_add (f64_div (sr_sum r) (sr_weight r)) (penalty_at ex r now)) (Fin 1000))"
    by (intro bounded_div[of _ _ 1000]) (simp_all add: bounded_def)
  then obtain q where q: "f64_div (f64_add (f64_div (sr_sum r) (sr_weight r)) (penalty_at ex r now)) (Fin 1000) = Fin q"
    "q \<le> 2 ^ 53" by (elim boundedE) simp
  then have "round_even (q * 1000000000) \<le> 2 ^ 53 * 1000000000" by (intro round_even_le) simp
  then have "from_secs_f64 (Fin q) \<noteq> None" by (simp add: Let_def nat_less_iff)
  then show ?thesis using True q(1) by (auto simp: record_health_def Let_def)
qed (simp add: record_health_def Let_def)

section \<open>The book never panics\<close>

text \<open>Everything that is told to a book or asked of it, and that changes it.\<close>

datatype smart_event =
    EvSample string outbound duration instant
  | EvFailure string outbound instant
  | EvReportSuccess string outbound "string option" duration instant
  | EvReportFailure string outbound "string option" instant
  | EvTested test_case test_result
  | EvSite string instant
  | EvUsed string string instant
  | EvRetain "string \<Rightarrow> bool"

fun book_step :: "(f64 \<Rightarrow> f64) \<Rightarrow> smart_event \<Rightarrow> smart_book \<Rightarrow> smart_book option" where
  "book_step ex (EvSample p o' d now) b = book_sample ex p o' d now b"
| "book_step ex (EvFailure p o' now) b = book_failure ex p o' now b"
| "book_step ex (EvReportSuccess p o' h d now) b = report_success ex p o' h d now b"
| "book_step ex (EvReportFailure p o' h now) b = report_failure ex p o' h now b"
| "book_step ex (EvTested c r) b = book_tested ex c r b"
| "book_step ex (EvSite h now) b = Some (snd (book_site h now b))"
| "book_step ex (EvUsed g m now) b = Some (book_used g m now b)"
| "book_step ex (EvRetain keep) b = Some (book_retain keep b)"

fun book_run :: "(f64 \<Rightarrow> f64) \<Rightarrow> smart_event list \<Rightarrow> smart_book \<Rightarrow> smart_book option" where
  "book_run ex [] b = Some b"
| "book_run ex (e # es) b = Option.bind (book_step ex e b) (book_run ex es)"

text \<open>No time that is reported comes to 2048 seconds.\<close>

fun event_ok :: "smart_event \<Rightarrow> bool" where
  "event_ok (EvSample _ _ d _) = (d < secs 2048)"
| "event_ok (EvReportSuccess _ _ _ d _) = (d < secs 2048)"
| "event_ok (EvTested _ r) = (case tr_outcome r of Inr d \<Rightarrow> d < secs 2048 | Inl _ \<Rightarrow> True)"
| "event_ok _ = True"

definition book_ok :: "nat \<Rightarrow> smart_book \<Rightarrow> bool" where
  "book_ok n b \<longleftrightarrow> (\<forall>p r. sb_records b p = Some r \<longrightarrow> record_ok n r)"

lemma book_ok_records: "book_ok n b \<Longrightarrow> sb_records b' = sb_records b \<Longrightarrow> book_ok n b'"
  by (simp add: book_ok_def)

lemma book_ok_Suc: "book_ok n b \<Longrightarrow> book_ok (n + 1) b"
  unfolding book_ok_def using record_ok_mono[of n _ "n + 1"] by simp

lemma record_of_ok: "book_ok n b \<Longrightarrow> record_ok n (record_of (sb_records b) p o')"
  by (auto simp: record_of_def book_ok_def record_new_ok split: option.split)

lemma book_change_ok:
  assumes "exp2_ok ex" "book_ok n b" "n < 2 ^ 31" "\<And>r. record_ok n r \<Longrightarrow> record_ok (n + 1) (ch r)"
  shows "\<exists>x b'. book_change ex p o' now by_session ch b = Some (x, b') \<and> book_ok (n + 1) b' \<and>
    sb_sites b' = sb_sites b"
proof -
  define r where "r = (record_of (sb_records b) p o')\<lparr>sr_reported :=
    (sr_reported (record_of (sb_records b) p o') \<or> by_session)\<rparr>"
  have "record_ok n r" using record_of_ok[OF assms(2)] by (simp add: record_ok_def r_def)
  then have r: "record_ok n r" "record_ok (n + 1) (ch r)" using assms(4) by blast+
  obtain h h' where "record_health ex now r = Some h" "record_health ex now (ch r) = Some h'"
    using record_health_returns[OF assms(1) r(1)] record_health_returns[OF assms(1) r(2)] assms(3) by fastforce
  moreover have "book_ok (n + 1) (b\<lparr>sb_records := (sb_records b)(p \<mapsto> ch r)\<rparr>)"
    using r(2) book_ok_Suc[OF assms(2)] by (auto simp: book_ok_def)
  ultimately show ?thesis by (simp add: book_change_def Let_def r_def[symmetric])
qed

lemma book_sample_ok:
  assumes "exp2_ok ex" "book_ok n b" "n < 2 ^ 31" "d < secs 2048"
  shows "\<exists>b'. book_sample ex p o' d now b = Some b' \<and> book_ok (n + 1) b'"
  using book_change_ok[OF assms(1-3) record_sample_ok[OF assms(1) _ assms(3,4)]]
  by (fastforce simp: book_sample_def)

lemma book_failure_ok:
  assumes "exp2_ok ex" "book_ok n b" "n < 2 ^ 31"
  shows "\<exists>b'. book_failure ex p o' now b = Some b' \<and> book_ok (n + 1) b'"
  using book_change_ok[OF assms record_failure_ok[OF assms(1) _ assms(3)]]
  by (fastforce simp: book_failure_def)

lemma report_success_ok:
  assumes "exp2_ok ex" "book_ok n b" "n < 2 ^ 31" "d < secs 2048"
  shows "\<exists>b'. report_success ex p o' h d now b = Some b' \<and> book_ok (n + 1) b'"
proof -
  obtain x b1 where "book_change ex p o' now True (record_sample ex (millis d) now) b = Some (x, b1)"
    "book_ok (n + 1) b1"
    using book_change_ok[OF assms(1-3), of "record_sample ex (millis d) now" p o' now True]
      record_sample_ok[OF assms(1) _ assms(3,4), of _ now] by blast
  then show ?thesis
    by (auto simp: report_success_def split: option.split intro: book_ok_records)
qed

lemma report_failure_ok:
  assumes "exp2_ok ex" "book_ok n b" "n < 2 ^ 31"
  shows "\<exists>b'. report_failure ex p o' h now b = Some b' \<and> book_ok (n + 1) b'"
proof -
  obtain e b1 where es: "(case h of Some h \<Rightarrow>
        (let (e, s) = sites_remember (sb_sites b) h p False now in (e, b\<lparr>sb_sites := s\<rparr>))
      | None \<Rightarrow> (False, b)) = (e, b1)" by fastforce
  then have "sb_records b1 = sb_records b" by (auto split: option.splits prod.splits)
  then have ok: "book_ok n b1" by (rule book_ok_records[OF assms(2)])
  obtain x b2 where "book_change ex p o' now True (record_failure ex now) b1 = Some (x, b2)"
    "book_ok (n + 1) b2"
    using book_change_ok[OF assms(1) ok assms(3), of "record_failure ex now" p o' now True]
      record_failure_ok[OF assms(1) _ assms(3), of _ now] by blast
  then show ?thesis using book_ok_Suc[OF ok] by (simp add: report_failure_def es)
qed

lemma book_step_ok:
  assumes "exp2_ok ex" "book_ok n b" "n < 2 ^ 31" "event_ok e"
  shows "\<exists>b'. book_step ex e b = Some b' \<and> book_ok (n + 1) b'"
proof (cases e)
  case (EvTested c r)
  then show ?thesis
    using assms book_sample_ok book_failure_ok by (auto simp: book_tested_def split: sum.splits)
next
  case (EvSite h now)
  then show ?thesis
    using book_ok_Suc[OF assms(2)] by (auto simp: book_site_def book_ok_def split: prod.split)
next
  case (EvRetain keep)
  then show ?thesis
    using book_ok_Suc[OF assms(2)] by (auto simp: book_retain_def book_ok_def)
next
  case (EvUsed g m now)
  then show ?thesis using book_ok_Suc[OF assms(2)] by (simp add: book_used_def book_ok_def)
qed (use assms book_sample_ok book_failure_ok report_success_ok report_failure_ok in simp_all)

lemma book_run_ok:
  "exp2_ok ex \<Longrightarrow> book_ok n b \<Longrightarrow> n + length es \<le> 2 ^ 31 \<Longrightarrow> list_all event_ok es \<Longrightarrow>
     \<exists>b'. book_run ex es b = Some b' \<and> book_ok (n + length es) b'"
proof (induction es arbitrary: n b)
  case (Cons e es)
  obtain b1 where "book_step ex e b = Some b1" "book_ok (n + 1) b1"
    using book_step_ok[of ex n b e] Cons.prems by auto
  then show ?case using Cons.IH[of "n + 1" b1] Cons.prems by simp
qed simp

text \<open>
  C24. However the reports, the tests, the dials and the reloads follow one another, up to two to
  the 31st of them, each with a latency or a test result below 2048 seconds, the book takes them all in:
  the score it computes in floating point is always one a duration holds, and it has an answer for
  the health of every policy at any moment.
\<close>

theorem smart_book_returns:
  assumes "exp2_ok ex" "list_all event_ok es" "length es \<le> 2 ^ 31"
  shows "\<exists>b. book_run ex es smart_book_new = Some b \<and>
    (\<forall>policy o' now. \<exists>h. book_health ex b policy o' now = Some h)"
proof -
  have "book_ok 0 smart_book_new" by (simp add: book_ok_def smart_book_new_def)
  then obtain b where b: "book_run ex es smart_book_new = Some b" "book_ok (length es) b"
    using book_run_ok[of ex 0 smart_book_new es] assms by auto
  have "\<exists>h. book_health ex b policy o' now = Some h" for policy o' now
    using b(2) record_health_returns[OF assms(1) _ assms(3)]
    by (auto simp: book_health_def book_ok_def split: option.split)
  then show ?thesis using b(1) by blast
qed

section \<open>An example\<close>

text \<open>Two members with a score and one without; the last failed at the site.\<close>

definition example_members :: "candidate list" where
  "example_members =
     [\<lparr>cd_name = ''A'', cd_health = Healthy (from_millis 50), cd_factor = Fin 1\<rparr>,
      \<lparr>cd_name = ''B'', cd_health = Healthy (from_millis 200), cd_factor = Fin 1\<rparr>,
      \<lparr>cd_name = ''C'', cd_health = Unknown 0, cd_factor = Fin 1\<rparr>]"

definition example_site :: site_memory where
  "example_site = site_memory_default\<lparr>sm_failed := [''C'']\<rparr>"

theorem rank_correct_witness:
  "\<exists>r i. rank example_members example_site (\<lambda>_. 0) = Some (Some r) \<and> rk_pick r = cd_name (example_members ! i) \<and>
     mset (rk_pick r # rk_retry r) = mset [''A'', ''B'', ''C''] \<and> good_choice example_members example_site i"
proof -
  have p: "\<forall>c\<in>set example_members. Fin 0 \<le> cd_factor c" by (simp add: example_members_def)
  have n: "map cd_name example_members = [''A'', ''B'', ''C'']" by (simp add: example_members_def)
  have h: "\<not> (\<forall>c\<in>set example_members. is_Healthy (cd_health c) \<longrightarrow> cd_name c \<in> set (sm_failed example_site))"
    by (simp add: example_members_def example_site_def)
  show ?thesis using rank_correct[OF p, of example_site "\<lambda>_. 0"] h unfolding n by auto
qed

lemma example_exp2_ok: "exp2_ok (\<lambda>_. Fin 1)"
  by (simp add: exp2_ok_def)

theorem site_down_one_penalty_witness:
  "\<exists>b1 b2. report_failure (\<lambda>_. Fin 1) ''A'' 7 (Some ''a.test'') 1000 smart_book_new = Some b1 \<and>
     report_failures (\<lambda>_. Fin 1) ''a.test'' [(''A'', 7, 1000), (''B'', 8, 2000)] smart_book_new = Some b2 \<and>
     sb_records b2 = sb_records b1"
proof -
  have "book_ok 0 smart_book_new" by (simp add: book_ok_def smart_book_new_def)
  then obtain b1 where b1: "report_failure (\<lambda>_. Fin 1) ''A'' 7 (Some ''a.test'') 1000 smart_book_new = Some b1"
    using report_failure_ok[OF example_exp2_ok] by fastforce
  have "close_calls 1000 [(''B'', 8, 2000)]" by (simp add: fresh_at_def SITE_MEMORY_def)
  then show ?thesis using site_down_one_penalty[OF b1] b1 by blast
qed

theorem smart_book_returns_witness:
  "\<exists>b. book_run (\<lambda>_. Fin 1) [EvSample ''A'' 7 (from_millis 50) 1000, EvReportFailure ''A'' 7 (Some ''a.test'') 2000]
     smart_book_new = Some b \<and> (\<exists>h. book_health (\<lambda>_. Fin 1) b ''A'' 7 3000 = Some h)"
  using smart_book_returns[OF example_exp2_ok,
      of "[EvSample ''A'' 7 (from_millis 50) 1000, EvReportFailure ''A'' 7 (Some ''a.test'') 2000]"]
  by auto

end
