(* ===== verification/Rurge_Auto_Facts.thy ===== *)
theory Rurge_Auto_Facts
  imports Rurge_Auto Rurge_Smart_Facts
begin

text \<open>
  What the automatic groups promise: the pick of \<open>url-test\<close> is as fast as its tolerance says, and a
  round of tests that began on an old network never counts as one of the new.
\<close>

section \<open>Picks\<close>

lemma group_kind_keyword: "group_kind_parse (group_keyword k) = Some (k, False)"
  by (cases k; hypsubst; code_simp)

definition passes_in :: "(string \<times> standing) list \<Rightarrow> test_opts \<Rightarrow> string \<Rightarrow> duration \<Rightarrow> bool" where
  "passes_in members opts name score \<longleftrightarrow>
     (\<exists>st. (name, st) \<in> set members \<and> standing_passes opts st = Some score)"

lemma passes_in_snoc:
  "passes_in (ms @ [(n, st)]) opts name score \<longleftrightarrow>
     passes_in ms opts name score \<or> name = n \<and> standing_passes opts st = Some score"
  by (auto simp: passes_in_def)

lemma best_fold:
  "case fold (best_step opts) ms None of
     None \<Rightarrow> (\<forall>name score. \<not> passes_in ms opts name score)
   | Some (b, best) \<Rightarrow> passes_in ms opts b best \<and> (\<forall>name score. passes_in ms opts name score \<longrightarrow> best \<le> score)"
proof (induction ms rule: rev_induct)
  case (snoc m ms)
  obtain n st where m: "m = (n, st)" by (cases m)
  show ?case
    using snoc by (cases "standing_passes opts st")
      (fastforce simp: m best_step_def passes_in_snoc split: option.splits prod.splits if_splits)+
qed (simp add: passes_in_def)

lemma find_member:
  "distinct (map fst ms) \<Longrightarrow> (n, st) \<in> set ms \<Longrightarrow> List.find (\<lambda>(name, _). name = n) ms = Some (n, st)"
  by (induction ms) (auto simp: image_iff)

lemma passes_in_unique:
  "distinct (map fst ms) \<Longrightarrow> passes_in ms opts n a \<Longrightarrow> passes_in ms opts n b \<Longrightarrow> a = b"
  unfolding passes_in_def by (metis eq_key_imp_eq_value option.inject)

lemma held_eq:
  assumes "distinct (map fst ms)"
  shows "Option.bind current (\<lambda>c. Option.bind (List.find (\<lambda>(name, _). name = c) ms) (\<lambda>(name, st).
           map_option (\<lambda>score. (name, score)) (standing_passes opts st))) = Some (n, score)
    \<longleftrightarrow> current = Some n \<and> passes_in ms opts n score"
proof -
  have "List.find (\<lambda>(name, _). name = n) ms = Some (m, st) \<longleftrightarrow> m = n \<and> (n, st) \<in> set ms" for n m st
    using find_member[OF assms] find_in[of "\<lambda>(name, _). name = n" ms "(m, st)"] by auto
  then show ?thesis by (fastforce simp: bind_eq_Some_conv passes_in_def)
qed

text \<open>
  C26. The pick of a \<open>url-test\<close> group is a member; with a member that passes its test it is one that
  passes, the fastest or the member the group holds. The member it holds stays exactly while it
  passes and the fastest is not quicker by more than the tolerance. With none that passes it is
  the first.
\<close>

theorem url_test_correct:
  assumes "distinct (map fst members)"
  shows "case url_test members current opts of
      None \<Rightarrow> members = []
    | Some m \<Rightarrow>
        (\<forall>name score. \<not> passes_in members opts name score) \<and> members \<noteq> [] \<and> m = fst (hd members) \<or>
        (\<exists>b best score. passes_in members opts b best \<and>
           (\<forall>name s. passes_in members opts name s \<longrightarrow> best \<le> s) \<and> passes_in members opts m score \<and>
           (if \<exists>c s. current = Some c \<and> passes_in members opts c s \<and> s - best \<le> to_tolerance opts
            then current = Some m else score = best))"
proof (cases "fold (best_step opts) members None")
  case None
  then show ?thesis
    using best_fold[of members opts] by (auto simp: url_test_def split: list.splits)
next
  case (Some bb)
  obtain b best where bb: "bb = (b, best)" by (cases bb)
  have best: "passes_in members opts b best" "\<forall>name s. passes_in members opts name s \<longrightarrow> best \<le> s"
    using best_fold[of members opts] by (simp_all add: Some bb)
  define held where "held = Option.bind current (\<lambda>c.
     Option.bind (List.find (\<lambda>(name, _). name = c) members) (\<lambda>(name, st).
       map_option (\<lambda>score. (name, score)) (standing_passes opts st)))"
  note held = held_eq[OF assms, of current opts, folded held_def]
  have u: "url_test members current opts = (case held of
      Some (name, score) \<Rightarrow> if score - best \<le> to_tolerance opts then Some name else Some b
    | None \<Rightarrow> Some b)"
    by (simp add: url_test_def Some bb held_def[symmetric])
  show ?thesis
  proof (cases "\<exists>c s. current = Some c \<and> passes_in members opts c s \<and> s - best \<le> to_tolerance opts")
    case True
    then obtain c s where c: "current = Some c" "passes_in members opts c s" "s - best \<le> to_tolerance opts"
      by blast
    then have "held = Some (c, s)" by (simp add: held)
    then have "url_test members current opts = Some c" using c(3) by (simp add: u)
    moreover have "\<exists>b best score. passes_in members opts b best \<and>
        (\<forall>name s. passes_in members opts name s \<longrightarrow> best \<le> s) \<and> passes_in members opts c score \<and>
        (if \<exists>c s. current = Some c \<and> passes_in members opts c s \<and> s - best \<le> to_tolerance opts
         then current = Some c else score = best)"
      by (rule exI[of _ b], rule exI[of _ best], rule exI[of _ s]) (use True best c in simp)
    ultimately show ?thesis by (simp only: option.case) blast
  next
    case False
    then have "url_test members current opts = Some b"
      using held by (auto simp: u split: option.split)
    moreover have "\<exists>b' best' score. passes_in members opts b' best' \<and>
        (\<forall>name s. passes_in members opts name s \<longrightarrow> best' \<le> s) \<and> passes_in members opts b score \<and>
        (if \<exists>c s. current = Some c \<and> passes_in members opts c s \<and> s - best' \<le> to_tolerance opts
         then current = Some b else score = best')"
      by (rule exI[of _ b], rule exI[of _ best], rule exI[of _ best]) (use False best in auto)
    ultimately show ?thesis by (simp only: option.case) blast
  qed
qed

section \<open>Rounds of tests and the network\<close>

datatype auto_event =
    AeConnect
  | AeWake string
  | AeRoundEnded "string list" nat instant
  | AeSetOverride group_spec string
  | AeClearOverride string
  | AeOverrideOf string "string list"
  | AeSetPick string string
  | AeRetain "group_spec list"
  | AeNetworkChanged "group_spec list"
  | AeTestEnded test_case nat test_result

fun auto_apply :: "(string set \<Rightarrow> string list) \<Rightarrow> (f64 \<Rightarrow> f64) \<Rightarrow> auto_event \<Rightarrow> auto_groups \<Rightarrow> auto_groups option" where
  "auto_apply walk ex AeConnect a = Some (auto_connect walk a)"
| "auto_apply walk ex (AeWake g) a = Some (auto_wake g a)"
| "auto_apply walk ex (AeRoundEnded gs began now) a = Some (round_ended gs began now a)"
| "auto_apply walk ex (AeSetOverride s m) a = Some (set_override s m a)"
| "auto_apply walk ex (AeClearOverride g) a = Some (snd (clear_override g a))"
| "auto_apply walk ex (AeOverrideOf g ms) a = Some (snd (override_of g ms a))"
| "auto_apply walk ex (AeSetPick g m) a = Some (set_pick g m a)"
| "auto_apply walk ex (AeRetain gs) a = Some (auto_retain gs a)"
| "auto_apply walk ex (AeNetworkChanged gs) a = Some (auto_network_changed gs a)"
| "auto_apply walk ex (AeTestEnded c tx r) a = auto_test_ended ex c tx r a"

fun auto_run :: "(string set \<Rightarrow> string list) \<Rightarrow> (f64 \<Rightarrow> f64) \<Rightarrow> auto_event list \<Rightarrow> auto_groups \<Rightarrow> auto_groups option" where
  "auto_run walk ex [] a = Some a"
| "auto_run walk ex (e # es) a = Option.bind (auto_apply walk ex e a) (auto_run walk ex es)"

text \<open>An event of a profile that still has the group, no round of it begun after \<open>epoch\<close>.\<close>

fun event_of_old :: "string \<Rightarrow> nat \<Rightarrow> auto_event \<Rightarrow> bool" where
  "event_of_old g epoch (AeRoundEnded gs began _) \<longleftrightarrow> (g \<in> set gs \<longrightarrow> began < epoch)"
| "event_of_old g epoch (AeRetain gs) \<longleftrightarrow> g \<in> gs_name ` set gs"
| "event_of_old g epoch _ \<longleftrightarrow> True"

definition untested_since :: "string \<Rightarrow> nat \<Rightarrow> auto_groups \<Rightarrow> bool" where
  "untested_since g epoch a \<longleftrightarrow>
     ag_rounds a g = None \<and> (\<exists>c. ag_cleared a g = Some c \<and> epoch \<le> c \<and> c \<le> ag_epoch a)"

fun tests_members :: "group_kind \<Rightarrow> bool" where
  "tests_members GkUrlTest = True"
| "tests_members GkFallback = True"
| "tests_members GkLoadBalance = True"
| "tests_members _ = False"

lemma network_one_frame:
  "ag_epoch (network_changed_one e s a) = ag_epoch a"
  "ag_rounds (network_changed_one e s a) g =
     (if tests_members (gs_kind s) \<and> gs_name s = g then None else ag_rounds a g)"
  "ag_cleared (network_changed_one e s a) g =
     (if tests_members (gs_kind s) \<and> gs_name s = g then Some e else ag_cleared a g)"
  by (cases "gs_kind s"; simp add: network_changed_one_def)+

lemma network_fold:
  "ag_epoch (fold (network_changed_one e) gs a) = ag_epoch a"
  "ag_rounds (fold (network_changed_one e) gs a) g =
     (if \<exists>s\<in>set gs. tests_members (gs_kind s) \<and> gs_name s = g then None else ag_rounds a g)"
  "ag_cleared (fold (network_changed_one e) gs a) g =
     (if \<exists>s\<in>set gs. tests_members (gs_kind s) \<and> gs_name s = g then Some e else ag_cleared a g)"
  by (induction gs arbitrary: a) (auto simp: network_one_frame)

lemma untested_network: "untested_since g epoch a \<Longrightarrow> untested_since g epoch (auto_network_changed gs a)"
  by (auto simp: untested_since_def auto_network_changed_def Let_def network_fold)

lemma round_one_frame:
  "ag_epoch (round_ended_one began now h a) = ag_epoch a"
  "ag_cleared (round_ended_one began now h a) = ag_cleared a"
  "ag_rounds (round_ended_one began now h a) g =
     (if h = g \<and> (\<forall>c. ag_cleared a g = Some c \<longrightarrow> c \<le> began) then Some now else ag_rounds a g)"
  by (auto simp: round_ended_one_def Let_def split: option.splits)

lemma round_fold:
  "ag_epoch (fold (round_ended_one began now) gs a) = ag_epoch a"
  "ag_cleared (fold (round_ended_one began now) gs a) = ag_cleared a"
  "ag_rounds (fold (round_ended_one began now) gs a) g =
     (if g \<in> set gs \<and> (\<forall>c. ag_cleared a g = Some c \<longrightarrow> c \<le> began) then Some now else ag_rounds a g)"
  by (induction gs arbitrary: a) (auto simp: round_one_frame)

lemma untested_event:
  assumes "untested_since g epoch a" "event_of_old g epoch e" "auto_apply walk ex e a = Some a'"
  shows "untested_since g epoch a'"
proof (cases e)
  case (AeRetain gs)
  then have "map_of (rev (map (\<lambda>s. (gs_name s, without_span s)) gs)) g \<noteq> None"
    using assms(2) by (auto simp: map_of_eq_None_iff image_image)
  then show ?thesis using assms AeRetain by (auto simp: auto_retain_def Let_def untested_since_def)
next
  case (AeRoundEnded gs began now)
  then show ?thesis
    using assms by (auto simp: round_ended_def Let_def untested_since_def round_fold)
next
  case (AeNetworkChanged gs)
  then show ?thesis using assms untested_network by auto
qed (use assms in \<open>auto simp: untested_since_def auto_connect_def auto_wake_def set_override_def
      clear_override_def override_of_def set_pick_def auto_test_ended_def Let_def split: option.splits if_splits\<close>)

lemma untested_run:
  "untested_since g epoch a \<Longrightarrow> list_all (event_of_old g epoch) es \<Longrightarrow> auto_run walk ex es a = Some a' \<Longrightarrow>
     untested_since g epoch a'"
  by (induction es arbitrary: a) (auto simp: bind_eq_Some_conv dest: untested_event)

text \<open>
  C27. After the network has changed, a group that picks by its tests counts as not tested, whatever
  happens, until a round of it ends that began after the change; such a round counts as soon as it
  ends.
\<close>

theorem old_rounds_ignored:
  assumes "s \<in> set groups" "tests_members (gs_kind s)"
    "a0 = auto_network_changed groups a" "list_all (event_of_old (gs_name s) (ag_epoch a0)) es"
    "auto_run walk ex es a0 = Some a1"
  shows "last_round a1 (gs_name s) = None \<and>
    (gs_name s \<in> set gs \<longrightarrow> last_round (round_ended gs (ag_epoch a1) now a1) (gs_name s) = Some now)"
proof -
  have "untested_since (gs_name s) (ag_epoch a0) a0"
    using assms(1,2) by (auto simp: assms(3) untested_since_def auto_network_changed_def Let_def network_fold)
  then have "untested_since (gs_name s) (ag_epoch a0) a1" using assms(4,5) by (rule untested_run)
  then show ?thesis by (auto simp: untested_since_def last_round_def round_ended_def Let_def round_fold)
qed

section \<open>An example\<close>

definition example_standings :: "(string \<times> standing) list" where
  "example_standings = [(''A'', Passed (from_millis 120)), (''B'', Passed (from_millis 50))]"

definition example_url_test :: group_spec where
  "example_url_test =
     \<lparr>gs_name = ''Auto'', gs_kind = GkUrlTest, gs_members = [''A'', ''B''], gs_import = import_opts_default,
      gs_underlying_proxy = None, gs_test = test_opts_default, gs_priority = [], gs_hidden = False,
      gs_subnet = None, gs_span = (''p.conf'', 1)\<rparr>"

theorem url_test_correct_witness:
  "\<exists>m score. url_test example_standings (Some ''A'') test_opts_default = Some m \<and>
     passes_in example_standings test_opts_default m score"
proof -
  have "distinct (map fst example_standings)" "example_standings \<noteq> []"
    "passes_in example_standings test_opts_default ''A'' (from_millis 120)"
    by (auto simp: example_standings_def passes_in_def test_opts_default_def)
  then show ?thesis
    using url_test_correct[of example_standings test_opts_default "Some ''A''"]
    by (cases "url_test example_standings (Some ''A'') test_opts_default") auto
qed

theorem old_rounds_ignored_witness:
  "\<exists>a1. auto_run (\<lambda>_. []) (\<lambda>_. Fin 1) [AeWake ''Auto'', AeRoundEnded [''Auto''] 0 5]
       (auto_network_changed [example_url_test] (auto_new test_book_new)) = Some a1 \<and>
     last_round a1 ''Auto'' = None \<and> last_round (round_ended [''Auto''] (ag_epoch a1) 9 a1) ''Auto'' = Some 9"
proof -
  let ?a0 = "auto_network_changed [example_url_test] (auto_new test_book_new)"
  have s: "example_url_test \<in> set [example_url_test]" "tests_members (gs_kind example_url_test)"
    "gs_name example_url_test = ''Auto''" by (simp_all add: example_url_test_def)
  have e: "list_all (event_of_old (gs_name example_url_test) (ag_epoch ?a0)) [AeWake ''Auto'', AeRoundEnded [''Auto''] 0 5]"
    by (simp add: auto_network_changed_def Let_def network_one_frame auto_new_def)
  obtain a1 where r: "auto_run (\<lambda>_. []) (\<lambda>_. Fin 1) [AeWake ''Auto'', AeRoundEnded [''Auto''] 0 5] ?a0 = Some a1"
    by simp
  show ?thesis using old_rounds_ignored[OF s(1,2) refl e r, of "[''Auto'']" 9] r unfolding s(3) by auto
qed

end
