(* ===== verification/Rurge_Group_Spec.thy ===== *)
theory Rurge_Group_Spec
  imports Rurge_Auto
begin

text \<open>
  The typed view of a group's parameters (\<open>to_group_spec\<close> of \<^verbatim>\<open>rurge-config/src/spec/group.rs\<close>), with the
  diagnostics it gives (\<^verbatim>\<open>diagnostic.rs\<close>) and what \<^verbatim>\<open>spec/reader.rs\<close> says of a value or a key.

  The reader keeps which parameters were read and the diagnostics; each operation takes it and gives
  it back after its result. The crate \<open>url\<close>, the names of the profile, the directory and the reach of
  the text are the record \<open>group_env\<close>; regular expressions are those of \<open>ext\<close>.
\<close>

section \<open>Diagnostics\<close>

datatype severity = SevInfo | SevWarning | SevError

record diagnostic =
  dg_severity :: severity
  dg_code :: string
  dg_message :: string
  dg_span :: "(string \<times> nat) option"
  dg_hint :: "string option"

definition default_hint :: "string \<Rightarrow> string option" where
  "default_hint =
     map_of
     [(''E0001'', ''compare the line with the syntax the Surge manual gives for this section''),
      (''E0002'', ''check that the file named after `#!include` exists and can be read as text; a relative path starts at the main profile's directory''),
      (''E0003'', ''write the condition as the Surge manual does, for example `#!REQUIREMENT CORE_VERSION>=22`''),
      (''E0004'', ''use a type the Surge manual lists for this section, and check its spelling''),
      (''E0005'', ''pick another name, or remove the line to keep the built-in policy''),
      (''E0006'', ''give every policy and policy group a name of its own''),
      (''E0007'', ''define the policy in `[Proxy]` or `[Proxy Group]`, or correct the name''),
      (''E0008'', ''define the missing policy or group in `[Proxy]` or `[Proxy Group]`, or correct the name''),
      (''E0010'', ''add `FINAL,DIRECT` as the last rule''),
      (''E0011'', ''check the value against what the Surge manual allows for it''),
      (''E0012'', ''check the rule type's spelling against the Surge manual''),
      (''E0013'', ''write an IP address with an optional port: `127.0.0.1` listens on this machine only, `0.0.0.0` on every interface''),
      (''E0015'', ''rewrite the logical rule with fewer levels''),
      (''E0016'', ''simplify the `#!include` lines: a file cannot include itself, directly or through other files, and both the nesting and the number of files are limited''),
      (''E0018'', ''check the parameter against the Surge manual's page for this policy or group type''),
      (''E0019'', ''remove or change one of the `underlying-proxy` parameters on the loop''),
      (''E0020'', ''name a `[Keystore]` item that exists and is of the kind this parameter needs''),
      (''E0021'', ''encode the file as standard Base64 on a single line''),
      (''E0024'', ''use the resource as one kind of set only; when both kinds are needed, keep a separate copy for each''),
      (''W0032'', ''use the resource as one kind of set only; when both kinds are needed, keep a separate copy for each''),
      (''W0001'', ''check the spelling against the Surge manual, or remove it''),
      (''W0002'', ''check the section name's spelling against the Surge manual''),
      (''W0003'', ''check the parameter's spelling and its value against the Surge manual''),
      (''W0005'', ''correct or remove the entry''),
      (''W0006'', ''remove it''),
      (''W0014'', ''check the directive's spelling against the Surge manual''),
      (''W0015'', ''move the line under a `[Section]` header''),
      (''W0017'', ''move the `#!include` line to a section the file has, or add that section to the file''),
      (''W0019'', ''move `FINAL` to the end of `[Rule]`''),
      (''W0020'', ''remove one of the two sections, or give it another name''),
      (''W0021'', ''keep a single `FINAL` rule''),
      (''W0025'', ''remove the reference to this set from the set that nests it, or flatten the sets''),
      (''W0030'', ''remove one of the group references on the loop''),
      (''W0035'', ''use `ipv6-vif = auto` to turn IPv6 on only where the network has it''),
      (''W0036'', ''include only the addresses that have to go through rurge''),
      (''W0037'', ''exclude only addresses outside 198.18.0.0/15 and fd00:6152::/64''),
      (''W0038'', ''use `server:system` to keep real addresses while the enhanced mode is on''),
      (''W0040'', ''configure a usable MITM CA, or turn http-api-tls off'')]"

definition diag_new :: "severity \<Rightarrow> string \<Rightarrow> string \<Rightarrow> diagnostic" where
  "diag_new severity c message =
     \<lparr>dg_severity = severity, dg_code = c, dg_message = message, dg_span = None, dg_hint = default_hint c\<rparr>"

definition diag_error :: "string \<Rightarrow> string \<Rightarrow> diagnostic" where
  "diag_error = diag_new SevError"

definition diag_warning :: "string \<Rightarrow> string \<Rightarrow> diagnostic" where
  "diag_warning = diag_new SevWarning"

definition diag_at :: "string \<times> nat \<Rightarrow> diagnostic \<Rightarrow> diagnostic" where
  "diag_at place d = d\<lparr>dg_span := Some place\<rparr>"

definition diag_with_hint :: "string \<Rightarrow> diagnostic \<Rightarrow> diagnostic" where
  "diag_with_hint hint d = d\<lparr>dg_hint := Some hint\<rparr>"

abbreviation E_UNKNOWN_POLICY_REF :: string where "E_UNKNOWN_POLICY_REF \<equiv> ''E0007''"
abbreviation E_UNKNOWN_GROUP_MEMBER :: string where "E_UNKNOWN_GROUP_MEMBER \<equiv> ''E0008''"
abbreviation E_INVALID_POLICY_PARAM :: string where "E_INVALID_POLICY_PARAM \<equiv> ''E0018''"
abbreviation W_UNKNOWN_KEY :: string where "W_UNKNOWN_KEY \<equiv> ''W0001''"
abbreviation W_VANISHED_KEY :: string where "W_VANISHED_KEY \<equiv> ''W0006''"
abbreviation W_PARAM_NOT_APPLICABLE :: string where "W_PARAM_NOT_APPLICABLE \<equiv> ''W0028''"

section \<open>What is said of a value and of a key\<close>

definition invalid_value :: "string \<Rightarrow> string \<Rightarrow> string \<Rightarrow> string" where
  "invalid_value key value expected =
     (if quotable value then ''invalid value `'' @ value @ ''` for `'' @ key @ ''` (expected '' @ expected @ '')''
      else ''invalid value for `'' @ key @ ''` (expected '' @ expected @ '')'')"

definition unknown_reference :: "string \<Rightarrow> string \<Rightarrow> string \<Rightarrow> string" where
  "unknown_reference key what name =
     (if quotable name \<and> is_name name then ''`'' @ key @ ''` references unknown '' @ what @ '' `'' @ name @ ''`''
      else ''`'' @ key @ ''` references unknown '' @ what)"

definition is_plain_name :: "string \<Rightarrow> bool" where
  "is_plain_name text \<longleftrightarrow> 1 \<le> length text \<and> length text \<le> 32 \<and>
     list_all (\<lambda>c. is_ascii_lower c \<or> is_ascii_digit c \<or> c = CHR ''-'' \<or> c = CHR ''_'') text"

definition parse_key_value :: "string \<Rightarrow> (string \<times> string) option" where
  "parse_key_value field =
     (case split_once (CHR ''='') field of
        None \<Rightarrow> None
      | Some (name, rest) \<Rightarrow> if trim name = [] then None else Some (trim name, trim rest))"

definition written_as_name :: "string \<Rightarrow> string \<Rightarrow> bool" where
  "written_as_name def key \<longleftrightarrow> is_plain_name key \<and>
     list_all (\<lambda>item.
       let fields = split_list item;
           reads_as_key = (fields \<noteq> [] \<and>
             (case parse_key_value (last fields) of Some (name, _) \<Rightarrow> eq_ignore_ascii_case name key | None \<Rightarrow> False));
           written = trim (takeWhile (\<lambda>c. c \<noteq> CHR ''='') item)
       in \<not> reads_as_key \<or> is_plain_name written) (split_items def)"

section \<open>The reader\<close>

record group_reader =
  gr_used :: "string set"
  gr_diags :: "diagnostic list"

definition gr_touch :: "string \<Rightarrow> group_reader \<Rightarrow> group_reader" where
  "gr_touch key r = r\<lparr>gr_used := insert key (gr_used r)\<rparr>"

definition gr_push :: "diagnostic \<Rightarrow> group_reader \<Rightarrow> group_reader" where
  "gr_push d r = r\<lparr>gr_diags := gr_diags r @ [d]\<rparr>"

definition gr_has :: "policy_group \<Rightarrow> string \<Rightarrow> bool" where
  "gr_has g key \<longleftrightarrow> param_get (pg_params g) key \<noteq> None"

definition gr_str :: "policy_group \<Rightarrow> string \<Rightarrow> group_reader \<Rightarrow> string option \<times> group_reader" where
  "gr_str g key r = (param_get (pg_params g) key, gr_touch key r)"

definition group_message :: "policy_group \<Rightarrow> string \<Rightarrow> string" where
  "group_message g message = named_as ''policy group'' (pg_name g) @ '': '' @ message"

definition gr_failure :: "policy_group \<Rightarrow> string \<Rightarrow> string \<Rightarrow> diagnostic" where
  "gr_failure g c message = diag_at (pg_span g) (diag_error c (group_message g message))"

definition gr_error :: "policy_group \<Rightarrow> string \<Rightarrow> string \<Rightarrow> group_reader \<Rightarrow> group_reader" where
  "gr_error g c message = gr_push (gr_failure g c message)"

definition gr_error_with_hint :: "policy_group \<Rightarrow> string \<Rightarrow> string \<Rightarrow> string \<Rightarrow> group_reader \<Rightarrow> group_reader" where
  "gr_error_with_hint g c message hint = gr_push (diag_with_hint hint (gr_failure g c message))"

definition gr_invalid :: "policy_group \<Rightarrow> string \<Rightarrow> string \<Rightarrow> string \<Rightarrow> group_reader \<Rightarrow> group_reader" where
  "gr_invalid g key value expected = gr_error g E_INVALID_POLICY_PARAM (invalid_value key value expected)"

definition gr_warning :: "policy_group \<Rightarrow> string \<Rightarrow> string \<Rightarrow> diagnostic" where
  "gr_warning g c message = diag_at (pg_span g) (diag_warning c (group_message g message))"

definition gr_warn :: "policy_group \<Rightarrow> string \<Rightarrow> string \<Rightarrow> group_reader \<Rightarrow> group_reader" where
  "gr_warn g c message = gr_push (gr_warning g c message)"

definition gr_warn_with_hint :: "policy_group \<Rightarrow> string \<Rightarrow> string \<Rightarrow> string \<Rightarrow> group_reader \<Rightarrow> group_reader" where
  "gr_warn_with_hint g c message hint =
     gr_push (diag_at (pg_span g) (diag_with_hint hint (diag_warning c (group_message g message))))"

definition gr_bool :: "policy_group \<Rightarrow> string \<Rightarrow> group_reader \<Rightarrow> bool option \<times> group_reader" where
  "gr_bool g key r =
     (case gr_str g key r of
        (None, r1) \<Rightarrow> (None, r1)
      | (Some value, r1) \<Rightarrow>
          (case parse_bool value of
             None \<Rightarrow> (None, gr_invalid g key value ''true or false'' r1)
           | Some b \<Rightarrow> (Some b, r1)))"

definition gr_number :: "policy_group \<Rightarrow> string \<Rightarrow> bool \<Rightarrow> string \<Rightarrow> group_reader \<Rightarrow> nat option \<times> group_reader" where
  "gr_number g key positive expected r =
     (case gr_str g key r of
        (None, r1) \<Rightarrow> (None, r1)
      | (Some value, r1) \<Rightarrow>
          (case parse_uint (2 ^ 64) (trim value) of
             Some n \<Rightarrow> if n > 0 \<or> \<not> positive then (Some n, r1) else (None, gr_invalid g key value expected r1)
           | None \<Rightarrow> (None, gr_invalid g key value expected r1)))"

definition not_applicable_message :: "policy_group \<Rightarrow> string \<Rightarrow> string" where
  "not_applicable_message g key =
     ''`'' @ key @ ''` has no effect on a `'' @ group_keyword (pg_kind g) @ ''` group; ignored''"

definition gr_not_applicable :: "policy_group \<Rightarrow> string \<Rightarrow> group_reader \<Rightarrow> group_reader" where
  "gr_not_applicable g key r =
     (if gr_has g key then gr_warn g W_PARAM_NOT_APPLICABLE (not_applicable_message g key) (gr_touch key r) else r)"

definition gr_has_errors :: "group_reader \<Rightarrow> bool" where
  "gr_has_errors r = list_ex (\<lambda>d. dg_severity d = SevError) (gr_diags r)"

definition unknown_message :: "policy_group \<Rightarrow> string \<Rightarrow> string" where
  "unknown_message g key =
     (if written_as_name (pg_definition g) key then ''unknown parameter `'' @ key @ ''` ignored''
      else ''unknown parameter ignored'')"

fun gr_finish_loop :: "policy_group \<Rightarrow> param_map \<Rightarrow> string set \<Rightarrow> group_reader \<Rightarrow> group_reader" where
  "gr_finish_loop g [] reported r = r"
| "gr_finish_loop g ((key, _) # ps) reported r =
     (if key \<notin> gr_used r \<and> key \<notin> reported then
        gr_finish_loop g ps (insert key reported) (gr_warn g W_UNKNOWN_KEY (unknown_message g key) r)
      else gr_finish_loop g ps reported r)"

definition gr_finish :: "policy_group \<Rightarrow> group_reader \<Rightarrow> diagnostic list" where
  "gr_finish g r = gr_diags (gr_finish_loop g (pg_params g) {} r)"

section \<open>The members\<close>

datatype name_kind = NkPolicy policy_kind | NkGroup | NkBuiltin builtin

text \<open>\<open>ge_url\<close>: the scheme and the text of a URL that parses; the reading of \<open>Url::parse\<close>.\<close>

record group_env =
  ge_base_dir :: string
  ge_reach :: reach
  ge_lookup :: "string \<Rightarrow> name_kind option"
  ge_url :: "string \<Rightarrow> (string \<times> string) option"
  ge_ext :: ext

fun policy_path_refusal :: "reach \<Rightarrow> refusal option" where
  "policy_path_refusal Anywhere = None"
| "policy_path_refusal ManagedCopy = Some
     \<lparr>rf_message = ''the downloaded copy of a managed profile cannot name a local file as `policy-path`; the parameter is ignored'',
      rf_hint = ''give `policy-path` a URL instead''\<rparr>"
| "policy_path_refusal Nowhere = Some
     \<lparr>rf_message = ''a downloaded file cannot name a local file as `policy-path`; the parameter is ignored'',
      rf_hint = ''define the group in the local profile to import policies from a local file''\<rparr>"

definition read_policy_path :: "group_env \<Rightarrow> policy_group \<Rightarrow> string \<Rightarrow> group_reader \<Rightarrow> policy_path option \<times> group_reader" where
  "read_policy_path env g value0 r =
     (let value = trim value0 in
      if value = [] then (None, gr_error g E_INVALID_POLICY_PARAM ''`policy-path` is empty'' r)
      else if str_contains ''://'' value then
        (case ge_url env value of
           Some (scheme, url) \<Rightarrow>
             if scheme \<in> {''http'', ''https''} then (Some (PathUrl url), r)
             else (None, gr_error g E_INVALID_POLICY_PARAM ''`policy-path` is not a valid http:// or https:// URL'' r)
         | None \<Rightarrow> (None, gr_error g E_INVALID_POLICY_PARAM ''`policy-path` is not a valid http:// or https:// URL'' r))
      else
        (case policy_path_refusal (ge_reach env) of
           Some refusal \<Rightarrow> (None, gr_warn_with_hint g W_REMOTE_LOCAL_ACCESS (rf_message refusal) (rf_hint refusal) r)
         | None \<Rightarrow> (Some (PathFile (if starts_with ''/'' value then value else path_join (ge_base_dir env) value)), r)))"

definition modifier_pairs :: "string \<Rightarrow> (string \<times> string) list option" where
  "modifier_pairs value =
     (let fields = split_fields value in
      if fields = [] then None
      else those (map (\<lambda>f. map_option (\<lambda>(key, v). (to_ascii_lowercase key, v)) (f_param f)) fields))"

definition read_regex_filter :: "group_env \<Rightarrow> policy_group \<Rightarrow> string \<Rightarrow> group_reader \<Rightarrow> pattern option \<times> group_reader" where
  "read_regex_filter env g value r =
     (case ext_regex_new (ge_ext env) value of
        None \<Rightarrow> (Some value, r)
      | Some e \<Rightarrow>
          (None, gr_error g E_INVALID_POLICY_PARAM
             (if quotable value then ''invalid `policy-regex-filter` `'' @ value @ ''`: '' @ e
              else ''invalid `policy-regex-filter`: '' @ e) r))"

definition read_name_prefix :: "policy_group \<Rightarrow> string \<Rightarrow> group_reader \<Rightarrow> string option \<times> group_reader" where
  "read_name_prefix g value r =
     (if CHR ''='' \<in> set value then
        (None, gr_invalid g ''external-policy-name-prefix'' value ''a prefix without `=`'' r)
      else (Some value, r))"

definition read_modifier :: "policy_group \<Rightarrow> string \<Rightarrow> group_reader \<Rightarrow> (string \<times> string) list \<times> group_reader" where
  "read_modifier g value r =
     (case modifier_pairs value of
        Some ps \<Rightarrow> (ps, r)
      | None \<Rightarrow> ([], gr_error g E_INVALID_POLICY_PARAM
          ''invalid `external-policy-modifier` (expected a quoted list of key=value pairs)'' r))"

definition unknown_group_hint :: string where
  "unknown_group_hint = ''give `include-other-group` the names of groups defined in `[Proxy Group]`, and list a single policy as a member of the group instead''"

fun other_groups_loop :: "group_env \<Rightarrow> policy_group \<Rightarrow> string list \<Rightarrow> group_reader \<Rightarrow> group_reader" where
  "other_groups_loop env g [] r = r"
| "other_groups_loop env g (name # names) r =
     other_groups_loop env g names
       (if ge_lookup env name \<noteq> Some NkGroup then
          gr_error_with_hint g E_UNKNOWN_GROUP_MEMBER (unknown_reference ''include-other-group'' ''policy group'' name)
            unknown_group_hint r
        else r)"

definition read_other_groups :: "group_env \<Rightarrow> policy_group \<Rightarrow> string \<Rightarrow> group_reader \<Rightarrow> string list \<times> group_reader" where
  "read_other_groups env g value r =
     (let names = split_list value in
      (names, other_groups_loop env g names
         (if names = [] then gr_invalid g ''include-other-group'' value ''a list of policy group names'' r else r)))"

text \<open>\<open>if let Some(value) = r.str(key)\<close>, with what the field is otherwise.\<close>

definition when_written :: "policy_group \<Rightarrow> string \<Rightarrow> 'a \<Rightarrow> (string \<Rightarrow> group_reader \<Rightarrow> 'a \<times> group_reader) \<Rightarrow>
    group_reader \<Rightarrow> 'a \<times> group_reader" where
  "when_written g key absent step r =
     (case gr_str g key r of (None, r1) \<Rightarrow> (absent, r1) | (Some value, r1) \<Rightarrow> step value r1)"

definition read_import :: "group_env \<Rightarrow> policy_group \<Rightarrow> group_reader \<Rightarrow> import_opts \<times> group_reader" where
  "read_import env g r0 =
     (let (path, r1) = when_written g ''policy-path'' None (read_policy_path env g) r0;
          (update, r2) = gr_number g ''update-interval'' True ''a positive number of seconds'' r1;
          (regex, r3) = when_written g ''policy-regex-filter'' None (read_regex_filter env g) r2;
          (name_prefix, r4) = when_written g ''external-policy-name-prefix'' None (read_name_prefix g) r3;
          (modifier, r5) = when_written g ''external-policy-modifier'' [] (read_modifier g) r4;
          (all, r6) = gr_bool g ''include-all-proxies'' r5;
          (others, r7) = when_written g ''include-other-group'' [] (read_other_groups env g) r6
      in (\<lparr>io_policy_path = path, io_update_interval = update, io_regex_filter = regex, io_name_prefix = name_prefix,
           io_modifier = modifier, io_include_all_proxies = (all = Some True), io_include_other_groups = others\<rparr>, r7))"

definition read_underlying_name :: "group_env \<Rightarrow> policy_group \<Rightarrow> string \<Rightarrow> group_reader \<Rightarrow> string option \<times> group_reader" where
  "read_underlying_name env g value r =
     (let name = trim value in
      case ge_lookup env name of
        None \<Rightarrow> (None, gr_error g E_UNKNOWN_POLICY_REF (unknown_reference ''underlying-proxy'' ''policy'' name) r)
      | Some (NkBuiltin Direct) \<Rightarrow> (None, r)
      | Some (NkBuiltin _) \<Rightarrow> (None, gr_invalid g ''underlying-proxy'' name ''a proxy policy or a policy group'' r)
      | Some _ \<Rightarrow> (Some name, r))"

definition read_underlying :: "group_env \<Rightarrow> policy_group \<Rightarrow> group_reader \<Rightarrow> string option \<times> group_reader" where
  "read_underlying env g = when_written g ''underlying-proxy'' None (read_underlying_name env g)"

section \<open>The tests\<close>

definition read_test :: "policy_group \<Rightarrow> group_kind \<Rightarrow> group_reader \<Rightarrow> test_opts \<times> group_reader" where
  "read_test g kind r0 =
     (let tests = (kind \<noteq> GkSelect \<and> kind \<noteq> GkSubnet);
          (interval, r1) = (if tests \<and> kind \<noteq> GkSmart
             then gr_number g ''interval'' True ''a positive number of seconds'' r0
             else (None, gr_not_applicable g ''interval'' r0));
          (tolerance, r2) = (if kind = GkUrlTest
             then gr_number g ''tolerance'' False ''a number of milliseconds'' r1
             else (None, gr_not_applicable g ''tolerance'' r1));
          (timeout, r3) = (if tests then gr_number g ''timeout'' False ''a number of seconds'' r2
             else (None, gr_not_applicable g ''timeout'' r2));
          (before, r4) = (if tests then gr_bool g ''evaluate-before-use'' r3
             else (None, gr_not_applicable g ''evaluate-before-use'' r3));
          (persistent, r5) = (if kind = GkLoadBalance then gr_bool g ''persistent'' r4
             else (None, gr_not_applicable g ''persistent'' r4))
      in (\<lparr>to_interval = (case interval of Some n \<Rightarrow> secs n | None \<Rightarrow> to_interval test_opts_default),
           to_tolerance = (case tolerance of Some n \<Rightarrow> from_millis n | None \<Rightarrow> to_tolerance test_opts_default),
           to_timeout = map_option (\<lambda>n. secs n) timeout, to_evaluate_before_use = (before = Some True),
           to_persistent = (persistent = Some True)\<rparr>, r5))"

text \<open>
  A factor: \<open>str::parse\<close> of an \<open>f64\<close> that is finite and above 0. Digits with at most one point and at
  least one digit, an exponent, a sign in front; the names of infinities and of NaN give what is refused, as
  does a minus.
\<close>

definition decimal_mantissa :: "string \<Rightarrow> rat option" where
  "decimal_mantissa s =
     (let (whole, part) = (case split_once (CHR ''.'') s of None \<Rightarrow> (s, []) | Some p \<Rightarrow> p) in
      if whole = [] \<and> part = [] then None
      else map_option (\<lambda>n. of_nat n / 10 ^ length part) (digits_value 0 (whole @ part)))"

definition decimal_exponent :: "string \<Rightarrow> int option" where
  "decimal_exponent s =
     (case s of
        [] \<Rightarrow> None
      | c # cs \<Rightarrow>
          if c = CHR ''-'' then (if cs = [] then None else map_option (\<lambda>n. - int n) (digits_value 0 cs))
          else if c = CHR ''+'' then (if cs = [] then None else map_option int (digits_value 0 cs))
          else map_option int (digits_value 0 s))"

definition parse_decimal :: "string \<Rightarrow> rat option" where
  "parse_decimal s =
     (let not_exp = (\<lambda>c. c \<noteq> CHR ''e'' \<and> c \<noteq> CHR ''E'');
          (mantissa, rest) = (takeWhile not_exp s, dropWhile not_exp s) in
      case decimal_mantissa mantissa of
        None \<Rightarrow> None
      | Some q \<Rightarrow>
          (case rest of
             [] \<Rightarrow> Some q
           | _ # digits \<Rightarrow> map_option (\<lambda>e. q * (if 0 \<le> e then 10 ^ nat e else 1 / 10 ^ nat (- e))) (decimal_exponent digits)))"

definition parse_factor :: "string \<Rightarrow> f64 option" where
  "parse_factor s =
     (case parse_decimal (if starts_with ''+'' s then drop 1 s else s) of
        None \<Rightarrow> None
      | Some q \<Rightarrow>
          (case f64_round q of
             Inf \<Rightarrow> None
           | Fin f \<Rightarrow> if 0 < f then Some (Fin f) else None))"

definition parse_priority :: "ext \<Rightarrow> string \<Rightarrow> (pattern \<times> f64) option" where
  "parse_priority e item =
     (case rsplit_once (CHR '':'') item of
        None \<Rightarrow> None
      | Some (source, factor) \<Rightarrow>
          (case parse_factor (trim factor) of
             None \<Rightarrow> None
           | Some f \<Rightarrow> if ext_regex_new e source = None then Some (source, f) else None))"

definition read_priority_pairs :: "group_env \<Rightarrow> policy_group \<Rightarrow> string \<Rightarrow> group_reader \<Rightarrow> (pattern \<times> f64) list \<times> group_reader" where
  "read_priority_pairs env g value r =
     (let items = filter (\<lambda>item. item \<noteq> []) (map trim (split_on (CHR '';'') value)) in
      case those (map (parse_priority (ge_ext env)) items) of
        Some (p # ps) \<Rightarrow> (p # ps, r)
      | _ \<Rightarrow> ([], gr_invalid g ''policy-priority'' value ''`regex:factor` pairs separated by `;`, every factor above 0'' r))"

definition read_priority :: "group_env \<Rightarrow> policy_group \<Rightarrow> group_reader \<Rightarrow> (pattern \<times> f64) list \<times> group_reader" where
  "read_priority env g = when_written g ''policy-priority'' [] (read_priority_pairs env g)"

section \<open>The group\<close>

definition read_subnet :: "policy_group \<Rightarrow> group_reader \<Rightarrow> subnet_spec option \<times> group_reader" where
  "read_subnet g r =
     (case param_get (pg_params g) ''default'' of
        Some (c # cs) \<Rightarrow> (Some \<lparr>ss_conditions = pg_conditions g, ss_default = c # cs\<rparr>, r)
      | _ \<Rightarrow>
          (None, gr_push (diag_at (pg_span g) (diag_with_hint
             ''add `default = <policy>`, the policy to use on a network none of the conditions matches''
             (diag_error E_INVALID_POLICY_PARAM (named_as ''subnet group'' (pg_name g) @ '' needs `default`'')))) r))"

fun each_once :: "string list \<Rightarrow> string list \<Rightarrow> string list" where
  "each_once members [] = members"
| "each_once members (p # ps) = each_once (if p \<in> set members then members else members @ [p]) ps"

definition subnet_members :: "subnet_spec \<Rightarrow> string list" where
  "subnet_members s = each_once [] (map snd (ss_conditions s) @ [ss_default s])"

definition IMPORT_PARAMS :: "string list" where
  "IMPORT_PARAMS =
     [''policy-path'', ''update-interval'', ''policy-regex-filter'', ''external-policy-name-prefix'',
      ''external-policy-modifier'', ''include-all-proxies'', ''include-other-group'', ''underlying-proxy'']"

definition read_members :: "group_env \<Rightarrow> policy_group \<Rightarrow> group_reader \<Rightarrow>
    (string list \<times> import_opts \<times> string option \<times> subnet_spec option) \<times> group_reader" where
  "read_members env g r =
     (if pg_kind g = GkSubnet then
        (let r1 = fold gr_touch [''default'', ''cellular''] r;
             r2 = fold (gr_not_applicable g) IMPORT_PARAMS r1;
             (subnet, r3) = read_subnet g r2
         in ((case subnet of Some s \<Rightarrow> subnet_members s | None \<Rightarrow> [], import_opts_default, None, subnet), r3))
      else
        (let (import, r1) = read_import env g r;
             (underlying, r2) = read_underlying env g r1
         in ((pg_members g, import, underlying, None), r2)))"

definition to_group_spec :: "group_env \<Rightarrow> policy_group \<Rightarrow> group_spec option \<times> diagnostic list" where
  "to_group_spec env g =
     (let r0 = fold gr_touch [''no-alert'', ''icon-url'', ''category''] \<lparr>gr_used = {}, gr_diags = []\<rparr>;
          (hidden, r1) = gr_bool g ''hidden'' r0;
          r2 = (if gr_has g ''url'' then
                  gr_warn g W_VANISHED_KEY
                    ''`url` has no effect in current versions; use the policy's `test-url` or `proxy-test-url`''
                    (gr_touch ''url'' r1)
                else r1);
          ((members, import, underlying, subnet), r3) = read_members env g r2;
          (test, r4) = read_test g (pg_kind g) r3;
          (priority, r5) = (if pg_kind g = GkSmart then read_priority env g r4
                            else ([], gr_not_applicable g ''policy-priority'' r4))
      in (if gr_has_errors r5 then None
          else Some \<lparr>gs_name = pg_name g, gs_kind = pg_kind g, gs_members = members, gs_import = import,
            gs_underlying_proxy = underlying, gs_test = test, gs_priority = priority, gs_hidden = (hidden = Some True),
            gs_subnet = subnet, gs_span = pg_span g\<rparr>,
          gr_finish g r5))"

end
