(* ===== verification/Rurge_Group_Spec_Facts.thy ===== *)
theory Rurge_Group_Spec_Facts
  imports Rurge_Group_Spec
begin

text \<open>
  What the typed view of a group promises: every parameter of the line is read, called ignored, or
  called unknown, and a group that is built is one the registry can rely on.
\<close>

section \<open>A step of the reader\<close>

text \<open>
  A step reads the parameters \<open>K\<close> and reports those of \<open>N\<close> that are written as without effect; what else
  it says is of the group's line and calls nothing unknown.
\<close>

definition said_of :: "policy_group \<Rightarrow> diagnostic \<Rightarrow> bool" where
  "said_of g d \<longleftrightarrow> dg_span d = Some (pg_span g) \<and> dg_code d \<noteq> W_UNKNOWN_KEY"

definition not_applicable_warning :: "policy_group \<Rightarrow> string \<Rightarrow> diagnostic" where
  "not_applicable_warning g key = gr_warning g W_PARAM_NOT_APPLICABLE (not_applicable_message g key)"

definition gr_step :: "policy_group \<Rightarrow> string set \<Rightarrow> string list \<Rightarrow> group_reader \<Rightarrow> group_reader \<Rightarrow> bool" where
  "gr_step g K N r r' \<longleftrightarrow>
     (\<forall>k. gr_has g k \<longrightarrow> (k \<in> gr_used r' \<longleftrightarrow> k \<in> gr_used r \<or> k \<in> K)) \<and>
     (\<exists>ds. gr_diags r' = gr_diags r @ ds \<and> list_all (said_of g) ds \<and>
        filter (\<lambda>d. dg_code d = W_PARAM_NOT_APPLICABLE) ds = map (not_applicable_warning g) (filter (gr_has g) N))"

named_theorems steps

lemma step_refl: "gr_step g {} [] r r"
  by (simp add: gr_step_def)

lemma step_trans:
  assumes "gr_step g K N r r'" "gr_step g K' N' r' r''"
  shows "gr_step g (K \<union> K') (N @ N') r r''"
proof -
  obtain ds where "gr_diags r' = gr_diags r @ ds" "list_all (said_of g) ds"
      "filter (\<lambda>d. dg_code d = W_PARAM_NOT_APPLICABLE) ds = map (not_applicable_warning g) (filter (gr_has g) N)"
    using assms(1) by (auto simp: gr_step_def)
  moreover obtain ds' where "gr_diags r'' = gr_diags r' @ ds'" "list_all (said_of g) ds'"
      "filter (\<lambda>d. dg_code d = W_PARAM_NOT_APPLICABLE) ds' = map (not_applicable_warning g) (filter (gr_has g) N')"
    using assms(2) by (auto simp: gr_step_def)
  ultimately have "gr_diags r'' = gr_diags r @ (ds @ ds') \<and> list_all (said_of g) (ds @ ds') \<and>
     filter (\<lambda>d. dg_code d = W_PARAM_NOT_APPLICABLE) (ds @ ds') =
       map (not_applicable_warning g) (filter (gr_has g) (N @ N'))" by simp
  moreover have "\<forall>k. gr_has g k \<longrightarrow> (k \<in> gr_used r'' \<longleftrightarrow> k \<in> gr_used r \<or> k \<in> K \<union> K')"
    using assms by (auto simp: gr_step_def)
  ultimately show ?thesis unfolding gr_step_def by blast
qed

lemma step_errors: "gr_step g K N r r' \<Longrightarrow> gr_has_errors r \<Longrightarrow> gr_has_errors r'"
  by (auto simp: gr_step_def gr_has_errors_def)

lemma step_touch [steps]: "gr_step g {k} [] r (gr_touch k r)"
  by (auto simp: gr_step_def gr_touch_def)

lemma step_push: "said_of g d \<Longrightarrow> dg_code d \<noteq> W_PARAM_NOT_APPLICABLE \<Longrightarrow> gr_step g {} [] r (gr_push d r)"
  by (simp add: gr_step_def gr_push_def)

lemmas diag_defs = diag_error_def diag_warning_def diag_new_def diag_at_def diag_with_hint_def

lemma step_error [steps]: "c \<notin> {W_UNKNOWN_KEY, W_PARAM_NOT_APPLICABLE} \<Longrightarrow> gr_step g {} [] r (gr_error g c m r)"
  by (simp add: gr_error_def step_push said_of_def gr_failure_def diag_defs)

lemma step_error_with_hint [steps]:
  "c \<notin> {W_UNKNOWN_KEY, W_PARAM_NOT_APPLICABLE} \<Longrightarrow> gr_step g {} [] r (gr_error_with_hint g c m h r)"
  by (simp add: gr_error_with_hint_def step_push said_of_def gr_failure_def diag_defs)

lemma step_invalid [steps]: "gr_step g {} [] r (gr_invalid g k v e r)"
  by (simp add: gr_invalid_def step_error)

lemma step_warn [steps]: "c \<notin> {W_UNKNOWN_KEY, W_PARAM_NOT_APPLICABLE} \<Longrightarrow> gr_step g {} [] r (gr_warn g c m r)"
  by (simp add: gr_warn_def step_push said_of_def gr_warning_def diag_defs)

lemma step_warn_with_hint [steps]:
  "c \<notin> {W_UNKNOWN_KEY, W_PARAM_NOT_APPLICABLE} \<Longrightarrow> gr_step g {} [] r (gr_warn_with_hint g c m h r)"
  by (simp add: gr_warn_with_hint_def step_push said_of_def diag_defs)

lemma step_then: "gr_step g K [] r r1 \<Longrightarrow> gr_step g {} [] r1 r2 \<Longrightarrow> gr_step g K [] r r2"
  using step_trans[of g K "[]" r r1 "{}" "[]" r2] by simp

lemma step_not_applicable [steps]: "gr_step g {k} [k] r (gr_not_applicable g k r)"
proof (cases "gr_has g k")
  case True
  then have "gr_diags (gr_not_applicable g k r) = gr_diags r @ [not_applicable_warning g k]"
    by (simp add: gr_not_applicable_def gr_warn_def gr_push_def gr_touch_def not_applicable_warning_def)
  moreover have "said_of g (not_applicable_warning g k)" "dg_code (not_applicable_warning g k) = W_PARAM_NOT_APPLICABLE"
    by (simp_all add: said_of_def not_applicable_warning_def gr_warning_def diag_defs)
  moreover have "gr_used (gr_not_applicable g k r) = insert k (gr_used r)"
    using True by (simp add: gr_not_applicable_def gr_warn_def gr_push_def gr_touch_def)
  ultimately show ?thesis using True unfolding gr_step_def by auto
next
  case False
  then show ?thesis by (auto simp: gr_step_def gr_not_applicable_def)
qed

lemma step_fold_touch: "gr_step g (set ks) [] r (fold gr_touch ks r)"
proof (induction ks arbitrary: r)
  case (Cons k ks)
  then show ?case using step_trans[OF step_touch[of g k r] Cons] by simp
qed (simp add: step_refl)

lemma step_fold_not_applicable: "gr_step g (set ks) ks r (fold (gr_not_applicable g) ks r)"
proof (induction ks arbitrary: r)
  case (Cons k ks)
  then show ?case using step_trans[OF step_not_applicable[of g k r] Cons] by simp
qed (simp add: step_refl)

lemma step_str [steps]: "gr_step g {k} [] r (snd (gr_str g k r))"
  by (simp add: gr_str_def step_touch)

lemma step_bool [steps]: "gr_step g {k} [] r (snd (gr_bool g k r))"
  using step_then[OF step_touch step_invalid] step_touch
  by (auto simp: gr_bool_def gr_str_def split: option.split)

lemma step_number [steps]: "gr_step g {k} [] r (snd (gr_number g k pos e r))"
  using step_then[OF step_touch step_invalid] step_touch
  by (auto simp: gr_number_def gr_str_def split: option.split)

lemma step_when_written:
  "(\<And>v r. gr_step g {} [] r (snd (step v r))) \<Longrightarrow> gr_step g {k} [] r (snd (when_written g k a step r))"
  using step_then[OF step_touch] step_touch
  by (auto simp: when_written_def gr_str_def split: option.split)

lemma step_policy_path: "gr_step g {} [] r (snd (read_policy_path env g v r))"
  by (auto simp: read_policy_path_def Let_def step_refl steps split: option.split prod.split)

lemma step_regex_filter: "gr_step g {} [] r (snd (read_regex_filter env g v r))"
  by (auto simp: read_regex_filter_def step_refl steps split: option.split)

lemma step_name_prefix: "gr_step g {} [] r (snd (read_name_prefix g v r))"
  by (simp add: read_name_prefix_def step_refl steps)

lemma step_modifier: "gr_step g {} [] r (snd (read_modifier g v r))"
  by (auto simp: read_modifier_def step_refl steps split: option.split)

lemma step_other_loop: "gr_step g {} [] r (other_groups_loop env g names r)"
proof (induction names arbitrary: r)
  case (Cons n names)
  then show ?case using step_then[OF step_error_with_hint[of E_UNKNOWN_GROUP_MEMBER] Cons] by simp
qed (simp add: step_refl)

lemma step_other_groups: "gr_step g {} [] r (snd (read_other_groups env g v r))"
  using step_then[OF step_invalid step_other_loop] step_other_loop step_invalid
  by (simp add: read_other_groups_def Let_def)

lemma step_underlying_name: "gr_step g {} [] r (snd (read_underlying_name env g v r))"
  by (auto simp: read_underlying_name_def Let_def step_refl steps
      split: option.split name_kind.split builtin.split)

lemma step_priority_pairs: "gr_step g {} [] r (snd (read_priority_pairs env g v r))"
  by (auto simp: read_priority_pairs_def Let_def step_refl steps split: option.split list.split)

lemma step_underlying: "gr_step g {''underlying-proxy''} [] r (snd (read_underlying env g r))"
  unfolding read_underlying_def by (rule step_when_written) (rule step_underlying_name)

lemma step_priority: "gr_step g {''policy-priority''} [] r (snd (read_priority env g r))"
  unfolding read_priority_def by (rule step_when_written) (rule step_priority_pairs)

lemma step_subnet: "gr_step g {} [] r (snd (read_subnet g r))"
  by (auto simp: read_subnet_def step_refl said_of_def diag_defs intro!: step_push split: option.split list.split)

lemma step_import: "gr_step g (set IMPORT_PARAMS - {''underlying-proxy''}) [] r (snd (read_import env g r))"
proof -
  obtain a r1 where 1: "when_written g ''policy-path'' None (read_policy_path env g) r = (a, r1)" by fastforce
  obtain b r2 where 2: "gr_number g ''update-interval'' True ''a positive number of seconds'' r1 = (b, r2)" by fastforce
  obtain c r3 where 3: "when_written g ''policy-regex-filter'' None (read_regex_filter env g) r2 = (c, r3)" by fastforce
  obtain d r4 where 4: "when_written g ''external-policy-name-prefix'' None (read_name_prefix g) r3 = (d, r4)" by fastforce
  obtain e r5 where 5: "when_written g ''external-policy-modifier'' [] (read_modifier g) r4 = (e, r5)" by fastforce
  obtain f r6 where 6: "gr_bool g ''include-all-proxies'' r5 = (f, r6)" by fastforce
  obtain h r7 where 7: "when_written g ''include-other-group'' [] (read_other_groups env g) r6 = (h, r7)" by fastforce
  have s: "gr_step g {''policy-path''} [] r r1" "gr_step g {''update-interval''} [] r1 r2"
    "gr_step g {''policy-regex-filter''} [] r2 r3" "gr_step g {''external-policy-name-prefix''} [] r3 r4"
    "gr_step g {''external-policy-modifier''} [] r4 r5" "gr_step g {''include-all-proxies''} [] r5 r6"
    "gr_step g {''include-other-group''} [] r6 r7"
    using step_when_written[of g "read_policy_path env g" "''policy-path''" r None, OF step_policy_path] 1
      step_number[of g "''update-interval''" r1 True "''a positive number of seconds''"] 2
      step_when_written[of g "read_regex_filter env g" "''policy-regex-filter''" r2 None, OF step_regex_filter] 3
      step_when_written[of g "read_name_prefix g" "''external-policy-name-prefix''" r3 None, OF step_name_prefix] 4
      step_when_written[of g "read_modifier g" "''external-policy-modifier''" r4 "[]", OF step_modifier] 5
      step_bool[of g "''include-all-proxies''" r5] 6
      step_when_written[of g "read_other_groups env g" "''include-other-group''" r6 "[]", OF step_other_groups] 7
    by simp_all
  have "snd (read_import env g r) = r7" by (simp add: read_import_def 1 2 3 4 5 6 7)
  moreover have "set IMPORT_PARAMS - {''underlying-proxy''} =
      {''policy-path''} \<union> ({''update-interval''} \<union> ({''policy-regex-filter''} \<union> ({''external-policy-name-prefix''} \<union>
        ({''external-policy-modifier''} \<union> ({''include-all-proxies''} \<union> {''include-other-group''})))))"
    by (auto simp: IMPORT_PARAMS_def)
  ultimately show ?thesis
    using step_trans[OF s(1) step_trans[OF s(2) step_trans[OF s(3) step_trans[OF s(4) step_trans[OF s(5)
      step_trans[OF s(6) s(7)]]]]]] by simp
qed

text \<open>The parameters of the tests, and those that have no effect on a kind.\<close>

definition TEST_PARAMS :: "string list" where
  "TEST_PARAMS = [''interval'', ''tolerance'', ''timeout'', ''evaluate-before-use'', ''persistent'']"

definition ignored_tests :: "group_kind \<Rightarrow> string list" where
  "ignored_tests kind =
     (case kind of
        GkSelect \<Rightarrow> TEST_PARAMS
      | GkSubnet \<Rightarrow> TEST_PARAMS
      | GkSmart \<Rightarrow> [''interval'', ''tolerance'', ''persistent'']
      | GkUrlTest \<Rightarrow> [''persistent'']
      | GkFallback \<Rightarrow> [''tolerance'', ''persistent'']
      | GkLoadBalance \<Rightarrow> [''tolerance''])"

lemma step_if:
  assumes "gr_step g {k} [] r (snd (f r))"
  shows "gr_step g {k} (if b then [] else [k]) r (snd (if b then f r else (None, gr_not_applicable g k r)))"
  using assms step_not_applicable by simp

lemma step_test: "gr_step g (set TEST_PARAMS) (ignored_tests kind) r (snd (read_test g kind r))"
proof -
  let ?tests = "kind \<noteq> GkSelect \<and> kind \<noteq> GkSubnet"
  obtain a r1 where 1: "(if ?tests \<and> kind \<noteq> GkSmart
      then gr_number g ''interval'' True ''a positive number of seconds'' r
      else (None, gr_not_applicable g ''interval'' r)) = (a, r1)" by fastforce
  obtain b r2 where 2: "(if kind = GkUrlTest then gr_number g ''tolerance'' False ''a number of milliseconds'' r1
      else (None, gr_not_applicable g ''tolerance'' r1)) = (b, r2)" by fastforce
  obtain c r3 where 3: "(if ?tests then gr_number g ''timeout'' False ''a number of seconds'' r2
      else (None, gr_not_applicable g ''timeout'' r2)) = (c, r3)" by fastforce
  obtain d r4 where 4: "(if ?tests then gr_bool g ''evaluate-before-use'' r3
      else (None, gr_not_applicable g ''evaluate-before-use'' r3)) = (d, r4)" by fastforce
  obtain e r5 where 5: "(if kind = GkLoadBalance then gr_bool g ''persistent'' r4
      else (None, gr_not_applicable g ''persistent'' r4)) = (e, r5)" by fastforce
  have s: "gr_step g {''interval''} (if ?tests \<and> kind \<noteq> GkSmart then [] else [''interval'']) r r1"
    "gr_step g {''tolerance''} (if kind = GkUrlTest then [] else [''tolerance'']) r1 r2"
    "gr_step g {''timeout''} (if ?tests then [] else [''timeout'']) r2 r3"
    "gr_step g {''evaluate-before-use''} (if ?tests then [] else [''evaluate-before-use'']) r3 r4"
    "gr_step g {''persistent''} (if kind = GkLoadBalance then [] else [''persistent'']) r4 r5"
    using step_if[of g "''interval''" r "gr_number g ''interval'' True ''a positive number of seconds''" "?tests \<and> kind \<noteq> GkSmart", OF step_number]
      step_if[of g "''tolerance''" r1 "gr_number g ''tolerance'' False ''a number of milliseconds''" "kind = GkUrlTest", OF step_number]
      step_if[of g "''timeout''" r2 "gr_number g ''timeout'' False ''a number of seconds''" ?tests, OF step_number]
      step_if[of g "''evaluate-before-use''" r3 "gr_bool g ''evaluate-before-use''" ?tests, OF step_bool]
      step_if[of g "''persistent''" r4 "gr_bool g ''persistent''" "kind = GkLoadBalance", OF step_bool]
    unfolding 1 2 3 4 5 by simp_all
  have "snd (read_test g kind r) = r5" unfolding read_test_def Let_def 1 2 3 4 5 prod.case by (simp add: 1 2 3 4 5)
  moreover have "ignored_tests kind =
      (if ?tests \<and> kind \<noteq> GkSmart then [] else [''interval'']) @ (if kind = GkUrlTest then [] else [''tolerance'']) @
      (if ?tests then [] else [''timeout'']) @ (if ?tests then [] else [''evaluate-before-use'']) @
      (if kind = GkLoadBalance then [] else [''persistent''])"
    by (cases kind) (simp_all add: ignored_tests_def TEST_PARAMS_def)
  moreover have "set TEST_PARAMS = {''interval''} \<union> ({''tolerance''} \<union> ({''timeout''} \<union> ({''evaluate-before-use''} \<union> {''persistent''})))"
    by (auto simp: TEST_PARAMS_def)
  ultimately show ?thesis
    using step_trans[OF s(1) step_trans[OF s(2) step_trans[OF s(3) step_trans[OF s(4) s(5)]]]] by simp
qed

lemma step_members:
  "gr_step g (set IMPORT_PARAMS \<union> (if pg_kind g = GkSubnet then {''default'', ''cellular''} else {}))
     (if pg_kind g = GkSubnet then IMPORT_PARAMS else []) r (snd (read_members env g r))"
proof (cases "pg_kind g = GkSubnet")
  case True
  let ?r1 = "fold gr_touch [''default'', ''cellular''] r"
  let ?r2 = "fold (gr_not_applicable g) IMPORT_PARAMS ?r1"
  have "snd (read_members env g r) = snd (read_subnet g ?r2)"
    using True by (simp add: read_members_def Let_def split: prod.split)
  moreover have "set IMPORT_PARAMS \<union> {''default'', ''cellular''} = set [''default'', ''cellular''] \<union> (set IMPORT_PARAMS \<union> {})"
    by auto
  ultimately show ?thesis
    using step_trans[OF step_fold_touch[of g "[''default'', ''cellular'']" r]
        step_trans[OF step_fold_not_applicable[of g IMPORT_PARAMS ?r1] step_subnet[of g ?r2]]] True by simp
next
  case False
  obtain import r1 where 1: "read_import env g r = (import, r1)" by fastforce
  have "snd (read_members env g r) = snd (read_underlying env g r1)"
    using False 1 by (simp add: read_members_def split: prod.split)
  moreover have "set IMPORT_PARAMS = (set IMPORT_PARAMS - {''underlying-proxy''}) \<union> {''underlying-proxy''}"
    by (auto simp: IMPORT_PARAMS_def)
  ultimately show ?thesis
    using step_trans[OF step_import[of g r env] step_underlying[of g "snd (read_import env g r)" env]] False 1 by simp
qed

section \<open>The whole line\<close>

definition known_params :: "group_kind \<Rightarrow> string set" where
  "known_params kind =
     {''no-alert'', ''icon-url'', ''category'', ''hidden'', ''url'', ''policy-priority''} \<union> set IMPORT_PARAMS \<union>
     set TEST_PARAMS \<union> (if kind = GkSubnet then {''default'', ''cellular''} else {})"

definition ignored_params :: "group_kind \<Rightarrow> string list" where
  "ignored_params kind =
     (if kind = GkSubnet then IMPORT_PARAMS else []) @ ignored_tests kind @
     (if kind = GkSmart then [] else [''policy-priority''])"

definition unknown_warning :: "policy_group \<Rightarrow> string \<Rightarrow> diagnostic" where
  "unknown_warning g key = gr_warning g W_UNKNOWN_KEY (unknown_message g key)"

lemma finish_loop:
  "\<exists>keys. distinct keys \<and> set keys = fst ` set ps - gr_used r - reported \<and>
     gr_diags (gr_finish_loop g ps reported r) = gr_diags r @ map (unknown_warning g) keys"
proof (induction g ps reported r rule: gr_finish_loop.induct)
  case (2 g key v ps reported r)
  show ?case
  proof (cases "key \<notin> gr_used r \<and> key \<notin> reported")
    case True
    then obtain keys where k: "distinct keys" "set keys = fst ` set ps - gr_used r - insert key reported"
      "gr_diags (gr_finish_loop g ps (insert key reported) (gr_warn g W_UNKNOWN_KEY (unknown_message g key) r)) =
         gr_diags r @ unknown_warning g key # map (unknown_warning g) keys"
      using "2.IH"(1) by (auto simp: gr_warn_def gr_push_def unknown_warning_def)
    then show ?thesis using True by (intro exI[of _ "key # keys"]) auto
  next
    case False
    then have "fst ` set ((key, v) # ps) - gr_used r - reported = fst ` set ps - gr_used r - reported" by auto
    then show ?thesis using "2.IH"(2)[OF False] by (simp only: gr_finish_loop.simps False if_False)
  qed
qed simp

text \<open>The reader before the last warnings.\<close>

lemma to_group_spec_steps:
  obtains r where "gr_step g (known_params (pg_kind g)) (ignored_params (pg_kind g)) \<lparr>gr_used = {}, gr_diags = []\<rparr> r"
    "fst (to_group_spec env g) = None \<longleftrightarrow> gr_has_errors r" "snd (to_group_spec env g) = gr_finish g r"
proof -
  let ?start = "\<lparr>gr_used = {}, gr_diags = []\<rparr>"
  define r0 where "r0 = fold gr_touch [''no-alert'', ''icon-url'', ''category''] ?start"
  obtain hidden r1 where 1: "gr_bool g ''hidden'' r0 = (hidden, r1)" by fastforce
  define r2 where "r2 = (if gr_has g ''url'' then
       gr_warn g W_VANISHED_KEY ''`url` has no effect in current versions; use the policy's `test-url` or `proxy-test-url`''
         (gr_touch ''url'' r1) else r1)"
  obtain members import underlying subnet r3 where 3: "read_members env g r2 = ((members, import, underlying, subnet), r3)"
    using prod_cases3 by (metis prod.exhaust)
  obtain test r4 where 4: "read_test g (pg_kind g) r3 = (test, r4)" by fastforce
  obtain priority r5 where 5: "(if pg_kind g = GkSmart then read_priority env g r4
      else ([], gr_not_applicable g ''policy-priority'' r4)) = (priority, r5)" by fastforce
  have "gr_step g (set [''no-alert'', ''icon-url'', ''category'']) [] ?start r0"
    unfolding r0_def by (rule step_fold_touch)
  moreover have "gr_step g {''hidden''} [] r0 r1" using step_bool[of g "''hidden''" r0] 1 by simp
  moreover have "gr_step g {''url''} [] r1 r2"
    using step_then[OF step_touch step_warn] by (auto simp: r2_def gr_step_def)
  moreover have "gr_step g (set IMPORT_PARAMS \<union> (if pg_kind g = GkSubnet then {''default'', ''cellular''} else {}))
     (if pg_kind g = GkSubnet then IMPORT_PARAMS else []) r2 r3"
    using step_members[of g r2 env] 3 by simp
  moreover have "gr_step g (set TEST_PARAMS) (ignored_tests (pg_kind g)) r3 r4"
    using step_test[of g "pg_kind g" r3] 4 by simp
  moreover have "gr_step g {''policy-priority''} (if pg_kind g = GkSmart then [] else [''policy-priority'']) r4 r5"
    using step_priority[of g r4 env] step_not_applicable[of g "''policy-priority''" r4] 5 by (auto split: if_splits)
  ultimately have "gr_step g (set [''no-alert'', ''icon-url'', ''category''] \<union> ({''hidden''} \<union> ({''url''} \<union>
      ((set IMPORT_PARAMS \<union> (if pg_kind g = GkSubnet then {''default'', ''cellular''} else {})) \<union>
       (set TEST_PARAMS \<union> {''policy-priority''})))))
     ([] @ [] @ [] @ (if pg_kind g = GkSubnet then IMPORT_PARAMS else []) @ ignored_tests (pg_kind g) @
      (if pg_kind g = GkSmart then [] else [''policy-priority''])) ?start r5"
    by (blast intro: step_trans)
  moreover have "set [''no-alert'', ''icon-url'', ''category''] \<union> ({''hidden''} \<union> ({''url''} \<union>
      ((set IMPORT_PARAMS \<union> (if pg_kind g = GkSubnet then {''default'', ''cellular''} else {})) \<union>
       (set TEST_PARAMS \<union> {''policy-priority''})))) = known_params (pg_kind g)"
    unfolding known_params_def by auto
  ultimately have "gr_step g (known_params (pg_kind g)) (ignored_params (pg_kind g)) ?start r5"
    by (simp add: ignored_params_def)
  moreover have "to_group_spec env g =
      (if gr_has_errors r5 then None
       else Some \<lparr>gs_name = pg_name g, gs_kind = pg_kind g, gs_members = members, gs_import = import,
            gs_underlying_proxy = underlying, gs_test = test, gs_priority = priority, gs_hidden = (hidden = Some True),
            gs_subnet = subnet, gs_span = pg_span g\<rparr>, gr_finish g r5)"
    unfolding to_group_spec_def r0_def[symmetric] Let_def 1 prod.case r2_def[symmetric] 3 4 5 by simp
  ultimately show thesis using that[of r5] by simp
qed

text \<open>The group of a line: its keys are in lower case.\<close>

lemma group_items_keeps:
  "group_items kind fs g = Inr g' \<Longrightarrow> list_all (\<lambda>(k, _). to_ascii_lowercase k = k) (pg_params g) \<Longrightarrow>
     list_all (\<lambda>(k, _). to_ascii_lowercase k = k) (pg_params g') \<and> pg_span g' = pg_span g \<and> pg_kind g' = pg_kind g"
  by (induction kind fs g rule: group_items.induct)
    (auto simp: param_insert_def split: option.splits if_splits sum.splits prod.splits)

lemma parse_group_keys:
  assumes "parse_group name def place = Inr g"
  shows "list_all (\<lambda>(k, _). to_ascii_lowercase k = k) (pg_params g)" "pg_span g = place"
  using assms group_items_keeps by (fastforce simp: parse_group_def split: list.splits option.splits prod.splits)+

lemma has_iff:
  assumes "list_all (\<lambda>(k, _). to_ascii_lowercase k = k) (pg_params g)" "to_ascii_lowercase key = key"
  shows "gr_has g key \<longleftrightarrow> key \<in> fst ` set (pg_params g)"
  using assms by (force simp: gr_has_def param_get_def find_None_iff list_all_iff)

lemma ignored_lower: "list_all (\<lambda>k. to_ascii_lowercase k = k) (ignored_params kind)"
  by (cases kind; hypsubst; code_simp)

text \<open>
  Nothing on a group's line is passed over in silence: each parameter is one the kind knows, or is called
  unknown, once; of those it knows, the ones without effect on the kind are each reported; every
  message is at the line, and the group is left out exactly when one of them is an error.
\<close>

theorem group_line_accounted:
  assumes "parse_group name def place = Inr g" "to_group_spec env g = (spec, ds)"
  shows "(spec = None \<longleftrightarrow> (\<exists>d\<in>set ds. dg_severity d = SevError)) \<and>
    (\<forall>d\<in>set ds. dg_span d = Some place) \<and>
    (\<exists>keys. distinct keys \<and> set keys = fst ` set (pg_params g) - known_params (pg_kind g) \<and>
       filter (\<lambda>d. dg_code d = W_UNKNOWN_KEY) ds = map (unknown_warning g) keys) \<and>
    filter (\<lambda>d. dg_code d = W_PARAM_NOT_APPLICABLE) ds =
      map (not_applicable_warning g) (filter (\<lambda>k. k \<in> fst ` set (pg_params g)) (ignored_params (pg_kind g)))"
proof -
  note keys = parse_group_keys[OF assms(1)]
  obtain r where r: "gr_step g (known_params (pg_kind g)) (ignored_params (pg_kind g)) \<lparr>gr_used = {}, gr_diags = []\<rparr> r"
    "spec = None \<longleftrightarrow> gr_has_errors r" "ds = gr_finish g r"
    using to_group_spec_steps[of g env] assms(2) by auto
  then obtain ds0 where d: "gr_diags r = ds0" "list_all (said_of g) ds0"
      "filter (\<lambda>d. dg_code d = W_PARAM_NOT_APPLICABLE) ds0 =
         map (not_applicable_warning g) (filter (gr_has g) (ignored_params (pg_kind g)))"
    and used: "\<And>k. gr_has g k \<Longrightarrow> k \<in> gr_used r \<longleftrightarrow> k \<in> known_params (pg_kind g)"
    by (auto simp: gr_step_def)
  obtain ks where k: "distinct ks" "set ks = fst ` set (pg_params g) - gr_used r - {}"
      "ds = ds0 @ map (unknown_warning g) ks"
    using finish_loop[of "pg_params g" r "{}" g] r(3) d(1) by (auto simp: gr_finish_def)
  have has: "gr_has g key \<longleftrightarrow> key \<in> fst ` set (pg_params g)" if "to_ascii_lowercase key = key" for key
    using has_iff[OF keys(1) that] .
  have "\<And>key. key \<in> fst ` set (pg_params g) \<Longrightarrow> to_ascii_lowercase key = key"
    using keys(1) by (auto simp: list_all_iff)
  then have "set ks = fst ` set (pg_params g) - known_params (pg_kind g)"
    using k(2) used has by blast
  moreover have u: "dg_severity (unknown_warning g key) = SevWarning" "dg_span (unknown_warning g key) = Some (pg_span g)"
    "dg_code (unknown_warning g key) = W_UNKNOWN_KEY" for key
    by (simp_all add: unknown_warning_def gr_warning_def diag_defs)
  moreover have "filter (\<lambda>d. dg_code d = W_UNKNOWN_KEY) ds0 = []"
    using d(2) by (auto simp: filter_empty_conv list_all_iff said_of_def)
  moreover have "filter (gr_has g) (ignored_params (pg_kind g)) =
      filter (\<lambda>k. k \<in> fst ` set (pg_params g)) (ignored_params (pg_kind g))"
    using ignored_lower[of "pg_kind g"] has by (intro filter_cong) (auto simp: list_all_iff)
  moreover have "spec = None \<longleftrightarrow> (\<exists>d\<in>set ds. dg_severity d = SevError)"
    using r(2) d(1) k(3) u(1) by (auto simp: gr_has_errors_def list_ex_iff)
  moreover have "\<forall>d\<in>set ds. dg_span d = Some place"
    using d(2) k(3) u(2) keys(2) by (auto simp: list_all_iff said_of_def)
  moreover have "filter (\<lambda>d. dg_code d = W_UNKNOWN_KEY) ds = map (unknown_warning g) ks"
    using calculation(5) k(3) u(3) by (auto simp: filter_map comp_def)
  moreover have "filter (\<lambda>d. dg_code d = W_PARAM_NOT_APPLICABLE) ds =
      map (not_applicable_warning g) (filter (gr_has g) (ignored_params (pg_kind g)))"
    using d(3) k(3) u(3) by (auto simp: filter_map comp_def)
  ultimately show ?thesis using k(1) by metis
qed

lemma group_line_accounted_witness:
  "\<exists>g. parse_group ''Home'' ''select, A, interval=5, colour=red'' (''p'', 3) = Inr g \<and>
     (\<forall>env. let ds = snd (to_group_spec env g) in
        filter (\<lambda>d. dg_code d = W_UNKNOWN_KEY) ds = [unknown_warning g ''colour''] \<and>
        filter (\<lambda>d. dg_code d = W_PARAM_NOT_APPLICABLE) ds = [not_applicable_warning g ''interval''])"
proof -
  let ?line = "''select, A, interval=5, colour=red''"
  let ?g = "\<lparr>pg_name = ''Home'', pg_kind = GkSelect, pg_members = [''A''],
     pg_params = [(''interval'', ''5''), (''colour'', ''red'')], pg_conditions = [], pg_legacy_keyword = False,
     pg_definition = ?line, pg_span = (''p'', 3)\<rparr>"
  have g: "parse_group ''Home'' ?line (''p'', 3) = Inr ?g" by code_simp
  have known: "fst ` set (pg_params ?g) - known_params (pg_kind ?g) = {''colour''}"
    by (auto simp: known_params_def IMPORT_PARAMS_def TEST_PARAMS_def)
  have ignored: "filter (\<lambda>k. k \<in> fst ` set (pg_params ?g)) (ignored_params (pg_kind ?g)) = [''interval'']"
    by (simp add: ignored_params_def ignored_tests_def TEST_PARAMS_def)
  have "filter (\<lambda>d. dg_code d = W_UNKNOWN_KEY) (snd (to_group_spec env ?g)) = [unknown_warning ?g ''colour''] \<and>
     filter (\<lambda>d. dg_code d = W_PARAM_NOT_APPLICABLE) (snd (to_group_spec env ?g)) = [not_applicable_warning ?g ''interval'']" for env
  proof -
    have a: "(\<exists>keys. distinct keys \<and> set keys = {''colour''} \<and>
        filter (\<lambda>d. dg_code d = W_UNKNOWN_KEY) (snd (to_group_spec env ?g)) = map (unknown_warning ?g) keys) \<and>
      filter (\<lambda>d. dg_code d = W_PARAM_NOT_APPLICABLE) (snd (to_group_spec env ?g)) = map (not_applicable_warning ?g) [''interval'']"
      using group_line_accounted[OF g surjective_pairing, THEN conjunct2, THEN conjunct2, of env]
      unfolding known ignored .
    have one: "keys = [''colour'']" if "distinct keys \<and> set keys = {''colour''}" for keys :: "string list"
      using that by (cases keys) (auto simp: subset_singleton_iff insert_eq_iff)
    from a obtain keys where k: "distinct keys \<and> set keys = {''colour''}"
      "filter (\<lambda>d. dg_code d = W_UNKNOWN_KEY) (snd (to_group_spec env ?g)) = map (unknown_warning ?g) keys"
      "filter (\<lambda>d. dg_code d = W_PARAM_NOT_APPLICABLE) (snd (to_group_spec env ?g)) = map (not_applicable_warning ?g) [''interval'']"
      by (elim exE conjE) (rule that, rule conjI)
    show ?thesis using k(2,3) unfolding one[OF k(1)] list.map by (rule conjI)
  qed
  then show ?thesis unfolding Let_def using g by (intro exI[of _ ?g] conjI allI) simp_all
qed

section \<open>The group that is built\<close>

definition import_ok :: "group_env \<Rightarrow> import_opts \<Rightarrow> bool" where
  "import_ok env io \<longleftrightarrow>
     (\<forall>p. io_policy_path io = Some (PathFile p) \<longrightarrow> ge_reach env = Anywhere) \<and>
     (\<forall>n. io_update_interval io = Some n \<longrightarrow> 0 < n) \<and>
     (\<forall>p. io_regex_filter io = Some p \<longrightarrow> ext_regex_new (ge_ext env) p = None) \<and>
     (\<forall>p. io_name_prefix io = Some p \<longrightarrow> CHR ''='' \<notin> set p) \<and>
     (\<forall>(k, _)\<in>set (io_modifier io). to_ascii_lowercase k = k) \<and>
     (\<forall>n\<in>set (io_include_other_groups io). ge_lookup env n = Some NkGroup)"

definition test_ok :: "group_kind \<Rightarrow> test_opts \<Rightarrow> bool" where
  "test_ok kind t \<longleftrightarrow> 0 < to_interval t \<and>
     (kind \<notin> {GkUrlTest, GkFallback, GkLoadBalance} \<longrightarrow> to_interval t = secs 600) \<and>
     (kind \<noteq> GkUrlTest \<longrightarrow> to_tolerance t = from_millis 100) \<and>
     (kind \<in> {GkSelect, GkSubnet} \<longrightarrow> to_timeout t = None \<and> \<not> to_evaluate_before_use t) \<and>
     (to_persistent t \<longrightarrow> kind = GkLoadBalance)"

lemma when_written_cases:
  assumes "when_written g k a step r = (x, r')"
  obtains "x = a" | v r1 where "step v r1 = (x, r')"
  using assms by (auto simp: when_written_def split: prod.splits option.splits)

lemma number_positive: "gr_number g k True e r = (Some n, r') \<Longrightarrow> 0 < n"
  by (auto simp: gr_number_def split: prod.splits option.splits if_splits)

lemma policy_path_reach: "read_policy_path env g v r = (Some (PathFile p), r') \<Longrightarrow> ge_reach env = Anywhere"
  by (cases "ge_reach env") (auto simp: read_policy_path_def Let_def split: if_splits option.splits prod.splits)

lemma those_Some: "those xs = Some ys \<Longrightarrow> map Some ys = xs"
  by (induction xs arbitrary: ys) (auto split: option.splits)

lemma those_mem: "those (map f xs) = Some ys \<Longrightarrow> y \<in> set ys \<Longrightarrow> \<exists>x\<in>set xs. f x = Some y"
  using those_Some[of "map f xs" ys] by (metis (no_types, lifting) image_iff list.set_map)

lemma modifier_lower: "modifier_pairs v = Some ps \<Longrightarrow> \<forall>(k, _)\<in>set ps. to_ascii_lowercase k = k"
  by (fastforce simp: modifier_pairs_def Let_def dest: those_mem split: if_splits)

lemma other_loop_errors:
  "n \<in> set names \<Longrightarrow> ge_lookup env n \<noteq> Some NkGroup \<Longrightarrow> gr_has_errors (other_groups_loop env g names r)"
proof (induction names arbitrary: r)
  case (Cons m names)
  show ?case
  proof (cases "ge_lookup env m = Some NkGroup")
    case True
    then show ?thesis using Cons by auto
  next
    case False
    have "gr_has_errors (gr_error_with_hint g E_UNKNOWN_GROUP_MEMBER t h r)" for t h
      by (simp add: gr_has_errors_def gr_error_with_hint_def gr_push_def gr_failure_def diag_defs)
    then show ?thesis using False step_errors[OF step_other_loop] by simp
  qed
qed simp

lemma import_sound:
  assumes "read_import env g r = (import, r')" "\<not> gr_has_errors r'"
  shows "import_ok env import"
proof -
  obtain a r1 where 1: "when_written g ''policy-path'' None (read_policy_path env g) r = (a, r1)" by fastforce
  obtain b r2 where 2: "gr_number g ''update-interval'' True ''a positive number of seconds'' r1 = (b, r2)" by fastforce
  obtain c r3 where 3: "when_written g ''policy-regex-filter'' None (read_regex_filter env g) r2 = (c, r3)" by fastforce
  obtain d r4 where 4: "when_written g ''external-policy-name-prefix'' None (read_name_prefix g) r3 = (d, r4)" by fastforce
  obtain e r5 where 5: "when_written g ''external-policy-modifier'' [] (read_modifier g) r4 = (e, r5)" by fastforce
  obtain f r6 where 6: "gr_bool g ''include-all-proxies'' r5 = (f, r6)" by fastforce
  obtain h r7 where 7: "when_written g ''include-other-group'' [] (read_other_groups env g) r6 = (h, r7)" by fastforce
  have i: "import = \<lparr>io_policy_path = a, io_update_interval = b, io_regex_filter = c, io_name_prefix = d,
      io_modifier = e, io_include_all_proxies = (f = Some True), io_include_other_groups = h\<rparr>" "r' = r7"
    using assms(1) by (simp_all add: read_import_def 1 2 3 4 5 6 7)
  have "\<forall>p. a = Some (PathFile p) \<longrightarrow> ge_reach env = Anywhere"
    using 1 by (cases rule: when_written_cases) (auto dest: policy_path_reach)
  moreover have "\<forall>n. b = Some n \<longrightarrow> 0 < n" using 2 number_positive by blast
  moreover have "\<forall>p. c = Some p \<longrightarrow> ext_regex_new (ge_ext env) p = None"
    using 3 by (cases rule: when_written_cases) (auto simp: read_regex_filter_def split: option.splits)
  moreover have "\<forall>p. d = Some p \<longrightarrow> CHR ''='' \<notin> set p"
    using 4 by (cases rule: when_written_cases) (auto simp: read_name_prefix_def split: if_splits)
  moreover have "\<forall>(k, _)\<in>set e. to_ascii_lowercase k = k"
    using 5
  proof (cases rule: when_written_cases)
    case (2 v r)
    then show ?thesis using modifier_lower by (auto simp: read_modifier_def split: option.splits)
  qed simp
  moreover have "\<forall>n\<in>set h. ge_lookup env n = Some NkGroup"
    using 7
  proof (cases rule: when_written_cases)
    case (2 v r)
    then obtain r0 where "h = split_list v" "r7 = other_groups_loop env g h r0"
      by (auto simp: read_other_groups_def Let_def)
    then show ?thesis using other_loop_errors assms(2) i(2) by metis
  qed simp
  ultimately show ?thesis by (simp add: import_ok_def i(1))
qed

lemma underlying_sound:
  assumes "read_underlying env g r = (Some n, r')"
  shows "(\<exists>k. ge_lookup env n = Some (NkPolicy k)) \<or> ge_lookup env n = Some NkGroup"
  using assms[unfolded read_underlying_def]
proof (cases rule: when_written_cases)
  case (2 v r)
  then show ?thesis
    by (auto simp: read_underlying_name_def Let_def split: option.splits name_kind.splits builtin.splits)
qed simp

lemma test_sound: "read_test g kind r = (t, r') \<Longrightarrow> test_ok kind t"
  by (cases kind)
    (auto simp: read_test_def Let_def test_ok_def test_opts_default_def split: prod.splits option.splits
      dest!: number_positive)

lemma factor_positive: "parse_factor s = Some f \<Longrightarrow> \<exists>q>0. f = Fin q"
  by (auto simp: parse_factor_def split: option.splits f64.splits if_splits)

lemma priority_sound:
  assumes "read_priority env g r = (ps, r')" "(p, f) \<in> set ps"
  shows "ext_regex_new (ge_ext env) p = None \<and> (\<exists>q>0. f = Fin q)"
  using assms(1)[unfolded read_priority_def]
proof (cases rule: when_written_cases)
  case 1
  then show ?thesis using assms(2) by simp
next
  case (2 v r)
  then obtain xs where "those (map (parse_priority (ge_ext env)) xs) = Some ps"
    using assms(2) by (auto simp: read_priority_pairs_def Let_def split: option.splits list.splits)
  then obtain x where "parse_priority (ge_ext env) x = Some (p, f)" using assms(2) those_mem by metis
  then show ?thesis
    by (auto simp: parse_priority_def split: option.splits prod.splits if_splits dest: factor_positive)
qed

lemma each_once_set: "distinct ms \<Longrightarrow> distinct (each_once ms ps) \<and> set (each_once ms ps) = set ms \<union> set ps"
  by (induction ms ps rule: each_once.induct) auto

lemma members_sound:
  assumes "read_members env g r = ((members, import, underlying, subnet), r')" "\<not> gr_has_errors r'"
  shows "if pg_kind g = GkSubnet
    then import = import_opts_default \<and> underlying = None \<and>
      (\<exists>s. subnet = Some s \<and> ss_conditions s = pg_conditions g \<and> param_get (pg_params g) ''default'' = Some (ss_default s) \<and>
         ss_default s \<noteq> [] \<and> distinct members \<and> set members = insert (ss_default s) (snd ` set (pg_conditions g)))
    else members = pg_members g \<and> subnet = None \<and> import_ok env import \<and>
      (\<forall>n. underlying = Some n \<longrightarrow> (\<exists>k. ge_lookup env n = Some (NkPolicy k)) \<or> ge_lookup env n = Some NkGroup)"
proof (cases "pg_kind g = GkSubnet")
  case True
  define r2 where "r2 = fold (gr_not_applicable g) IMPORT_PARAMS (fold gr_touch [''default'', ''cellular''] r)"
  have s: "read_subnet g r2 = (subnet, r')" "import = import_opts_default" "underlying = None"
      "members = (case subnet of Some s \<Rightarrow> subnet_members s | None \<Rightarrow> [])"
    using assms(1) True by (simp_all add: read_members_def Let_def r2_def split: prod.splits)
  have e: "gr_has_errors (gr_push d r2)" if "dg_severity d = SevError" for d
    using that by (simp add: gr_has_errors_def gr_push_def)
  obtain c cs where d: "param_get (pg_params g) ''default'' = Some (c # cs)"
      "subnet = Some \<lparr>ss_conditions = pg_conditions g, ss_default = c # cs\<rparr>"
    using s(1) assms(2) by (auto simp: read_subnet_def e diag_defs split: option.splits list.splits)
  define s' where "s' = \<lparr>ss_conditions = pg_conditions g, ss_default = c # cs\<rparr>"
  have s': "subnet = Some s'" "ss_conditions s' = pg_conditions g" "ss_default s' \<noteq> []"
      "param_get (pg_params g) ''default'' = Some (ss_default s')" using d by (simp_all add: s'_def)
  have "distinct members \<and> set members = insert (ss_default s') (snd ` set (pg_conditions g))"
    using each_once_set[of "[]" "map snd (ss_conditions s') @ [ss_default s']"] s(4) s'(1,2) by (simp add: subnet_members_def)
  then show ?thesis using True s s' by simp
next
  case False
  obtain r1 where 1: "read_import env g r = (import, r1)" "read_underlying env g r1 = (underlying, r')"
      "members = pg_members g" "subnet = None"
    using assms(1) False by (auto simp: read_members_def split: prod.splits)
  have "\<not> gr_has_errors r1" using step_errors[OF step_underlying[of g r1 env]] 1(2) assms(2) by auto
  moreover have "(\<exists>k. ge_lookup env n = Some (NkPolicy k)) \<or> ge_lookup env n = Some NkGroup" if "underlying = Some n" for n
    using underlying_sound[of env g r1 n r'] 1(2) that by simp
  ultimately show ?thesis using False 1(3,4) import_sound[OF 1(1)] by auto
qed

text \<open>
  A group that is built is one the rest can rely on. It keeps its line's name and kind. Downloaded text
  gives it no local file to read; what it includes are groups, what it is chained through is a policy or a
  group, its patterns compile, its factors are finite and above 0, its interval is above 0. What has no
  effect on its kind has its default. A \<open>subnet\<close> group has a \<open>default\<close>, and as members what its
  conditions and the default name, each once.
\<close>

theorem group_spec_sound:
  assumes "to_group_spec env g = (Some gs, ds)"
  shows "gs_name gs = pg_name g \<and> gs_kind gs = pg_kind g \<and> gs_span gs = pg_span g \<and>
    test_ok (gs_kind gs) (gs_test gs) \<and>
    (\<forall>(p, f)\<in>set (gs_priority gs). gs_kind gs = GkSmart \<and> ext_regex_new (ge_ext env) p = None \<and> (\<exists>q>0. f = Fin q)) \<and>
    (if gs_kind gs = GkSubnet
     then gs_import gs = import_opts_default \<and> gs_underlying_proxy gs = None \<and>
       (\<exists>s. gs_subnet gs = Some s \<and> ss_conditions s = pg_conditions g \<and>
          param_get (pg_params g) ''default'' = Some (ss_default s) \<and> ss_default s \<noteq> [] \<and>
          distinct (gs_members gs) \<and> set (gs_members gs) = insert (ss_default s) (snd ` set (pg_conditions g)))
     else gs_members gs = pg_members g \<and> gs_subnet gs = None \<and> import_ok env (gs_import gs) \<and>
       (\<forall>n. gs_underlying_proxy gs = Some n \<longrightarrow>
          (\<exists>k. ge_lookup env n = Some (NkPolicy k)) \<or> ge_lookup env n = Some NkGroup))"
proof -
  obtain r2 members import underlying subnet r3 test r4 priority r5 hidden where
    3: "read_members env g r2 = ((members, import, underlying, subnet), r3)" and
    4: "read_test g (pg_kind g) r3 = (test, r4)" and
    5: "(if pg_kind g = GkSmart then read_priority env g r4
         else ([], gr_not_applicable g ''policy-priority'' r4)) = (priority, r5)" and
    gs: "gs = \<lparr>gs_name = pg_name g, gs_kind = pg_kind g, gs_members = members, gs_import = import,
            gs_underlying_proxy = underlying, gs_test = test, gs_priority = priority, gs_hidden = hidden,
            gs_subnet = subnet, gs_span = pg_span g\<rparr>" "\<not> gr_has_errors r5"
    using assms by (fastforce simp: to_group_spec_def Let_def split: prod.splits if_splits)
  have "\<not> gr_has_errors r4"
    using gs(2) 5 step_errors[OF step_priority[of g r4 env]] step_errors[OF step_not_applicable[of g "''policy-priority''" r4]]
    by (auto split: if_splits)
  then have "\<not> gr_has_errors r3" using step_errors[OF step_test[of g "pg_kind g" r3]] 4 by auto
  moreover have "\<forall>(p, f)\<in>set priority. pg_kind g = GkSmart \<and> ext_regex_new (ge_ext env) p = None \<and> (\<exists>q>0. f = Fin q)"
    using 5 priority_sound by (fastforce split: if_splits)
  ultimately show ?thesis using members_sound[OF 3] test_sound[OF 4] gs(1) by simp
qed

end
