(* ===== verification/Rurge_Registry.thy ===== *)
theory Rurge_Registry
  imports Rurge_Auto
begin

text \<open>
  From a policy's name to an outbound (\<^verbatim>\<open>rurge-policy/src/registry.rs\<close>): the table a configuration is
  built into, the member a group points at, what the tests say of a policy, and the walk of a
  resolution.

  The recursions of the code are bounded by a depth that counts up to \<open>MAX_DEPTH\<close>; here each is by
  the levels that are left. The state of the automatic groups is passed along, since a choice may
  move the member \<open>url-test\<close> holds, ask for a round, note that an override is gone or read a site.
  The outer option is a panic. One resolution reads the clock once; the numbers it draws, and the
  hash of a host, are fields of \<open>dial\<close>. What an outbound was built from is left out of its entry.
\<close>

definition MAX_DEPTH :: nat where
  "MAX_DEPTH = 16"

datatype reject_kind = RkReject | RkDrop | RkNoDrop | RkTinyGif

fun reject_from_builtin :: "builtin \<Rightarrow> reject_kind option" where
  "reject_from_builtin Reject = Some RkReject"
| "reject_from_builtin RejectDrop = Some RkDrop"
| "reject_from_builtin RejectNoDrop = Some RkNoDrop"
| "reject_from_builtin RejectTinyGif = Some RkTinyGif"
| "reject_from_builtin _ = None"

fun reject_name :: "reject_kind \<Rightarrow> string" where
  "reject_name RkReject = ''REJECT''"
| "reject_name RkDrop = ''REJECT-DROP''"
| "reject_name RkNoDrop = ''REJECT-NO-DROP''"
| "reject_name RkTinyGif = ''REJECT-TINYGIF''"

section \<open>The table\<close>

datatype terminal_kind = TkDirect | TkReject | TkProxy

datatype res_note = NUnsupported string | NGroupCycle string | NEmptyGroup bool

datatype empty_group = EgDirect | EgReject

datatype terminal = TDirect | TReject reject_kind

datatype policy_entry =
    EAlias terminal
  | EOutbound outbound bool
  | EUnsupported policy_kind string
  | EGroup group_spec "string list" "string option" "f64 list"

record test_spec =
  ts_mode :: "test_mode option"
  ts_timeout :: duration
  ts_key :: u64

record registry =
  rg_entries :: "string \<rightharpoonup> policy_entry"
  rg_order :: "string list"
  rg_direct :: outbound
  rg_rejects :: "reject_kind \<Rightarrow> outbound"
  rg_selections :: selections
  rg_empty :: empty_group
  rg_tests :: "string \<rightharpoonup> test_spec"
  rg_network :: network_facts
  rg_wifi_always_match :: bool

record smart_pick =
  sp_group :: string
  sp_member :: string
  sp_retry :: "string list"

record resolution =
  rs_chain :: "string list"
  rs_outbound :: outbound
  rs_terminal :: terminal_kind
  rs_note :: "res_note option"
  rs_pending :: "string option"
  rs_smart :: "smart_pick option"

record choice =
  ch_member :: string
  ch_pending :: bool
  ch_retry :: "string list option"

definition choice_plain :: "string \<Rightarrow> choice" where
  "choice_plain m = \<lparr>ch_member = m, ch_pending = False, ch_retry = None\<rparr>"

text \<open>What a resolution takes from outside.\<close>

record dial =
  dl_now :: instant
  dl_hash :: "string \<Rightarrow> nat"
  dl_draw :: "string \<Rightarrow> nat"
  dl_exp2 :: "f64 \<Rightarrow> f64"

definition random_below :: "nat \<Rightarrow> nat \<Rightarrow> nat" where
  "random_below draw n = draw mod max n 1"

definition alias_terminal :: "policy_kind \<Rightarrow> terminal option" where
  "alias_terminal kind =
     (case kind of
        KDirect \<Rightarrow> Some TDirect
      | KReject \<Rightarrow> Some (TReject RkReject)
      | KRejectDrop \<Rightarrow> Some (TReject RkDrop)
      | KRejectNoDrop \<Rightarrow> Some (TReject RkNoDrop)
      | KRejectTinyGif \<Rightarrow> Some (TReject RkTinyGif)
      | _ \<Rightarrow> None)"

definition is_group :: "registry \<Rightarrow> string \<Rightarrow> bool" where
  "is_group reg name = (case rg_entries reg name of Some (EGroup _ _ _ _) \<Rightarrow> True | _ \<Rightarrow> False)"

definition policy_names :: "registry \<Rightarrow> string list" where
  "policy_names reg = filter (\<lambda>n. \<not> is_group reg n) (rg_order reg)"

definition group_names :: "registry \<Rightarrow> string list" where
  "group_names reg = filter (is_group reg) (rg_order reg)"

definition group_spec_of :: "registry \<Rightarrow> string \<Rightarrow> group_spec option" where
  "group_spec_of reg name = (case rg_entries reg name of Some (EGroup spec _ _ _) \<Rightarrow> Some spec | _ \<Rightarrow> None)"

text \<open>The members a \<open>smart\<close> group keeps, with the factor of each.\<close>

definition smart_members :: "ext \<Rightarrow> group_spec \<Rightarrow> string list \<Rightarrow> (string \<rightharpoonup> policy_entry) \<Rightarrow> string list \<times> f64 list" where
  "smart_members e spec members entries =
     (let kept = filter (\<lambda>m. case entries m of
                            Some (EOutbound _ proxy) \<Rightarrow> proxy
                          | Some (EUnsupported _ _) \<Rightarrow> True
                          | _ \<Rightarrow> False) members;
          factor = (\<lambda>m. case List.find (\<lambda>(p, _). ext_regex_is_match e p m = Some True) (gs_priority spec) of
                          Some (_, f) \<Rightarrow> f
                        | None \<Rightarrow> Fin 1)
      in (kept, map factor kept))"

section \<open>What the tests say\<close>

definition test_slot :: "registry \<Rightarrow> string \<Rightarrow> (string \<times> test_spec) option" where
  "test_slot reg name =
     (let policy = (case rg_entries reg name of
                      Some (EAlias TDirect) \<Rightarrow> Some name
                    | Some (EOutbound _ _) \<Rightarrow> Some name
                    | Some _ \<Rightarrow> None
                    | None \<Rightarrow>
                        (case policy_ref_parse name of
                           PBuiltin b \<Rightarrow> if reject_from_builtin b = None then Some ''DIRECT'' else None
                         | _ \<Rightarrow> None))
      in case policy of
           None \<Rightarrow> None
         | Some p \<Rightarrow>
             (case rg_tests reg p of
                None \<Rightarrow> None
              | Some test \<Rightarrow> if ts_mode test = None then None else Some (p, test)))"

definition registry_test_case :: "registry \<Rightarrow> string \<Rightarrow> test_case option" where
  "registry_test_case reg name =
     (case test_slot reg name of
        None \<Rightarrow> None
      | Some (policy, test) \<Rightarrow>
          map_option (\<lambda>mode.
              \<lparr>tc_policy = policy,
               tc_outbound = (case rg_entries reg policy of Some (EOutbound o' _) \<Rightarrow> o' | _ \<Rightarrow> rg_direct reg),
               tc_mode = mode, tc_timeout = ts_timeout test, tc_key = ts_key test\<rparr>)
            (ts_mode test))"

definition registry_test_result :: "registry \<Rightarrow> auto_groups \<Rightarrow> string \<Rightarrow> test_result option" where
  "registry_test_result reg a name =
     (case test_slot reg name of
        None \<Rightarrow> None
      | Some (policy, test) \<Rightarrow> test_result_of (ag_tests a) policy (ts_key test))"

definition tested_at :: "registry \<Rightarrow> auto_groups \<Rightarrow> string \<Rightarrow> instant option" where
  "tested_at reg a name = map_option tr_at (registry_test_result reg a name)"

definition smart_health :: "registry \<Rightarrow> dial \<Rightarrow> auto_groups \<Rightarrow> string \<Rightarrow> health option" where
  "smart_health reg dl a member =
     (case rg_entries reg member of
        Some (EOutbound o' _) \<Rightarrow> book_health (dl_exp2 dl) (ag_smart a) member o' (dl_now dl)
      | _ \<Rightarrow> Some (Failed None))"

section \<open>The member a group points at\<close>

text \<open>What is known of each of some names, one after the other.\<close>

fun standings_of :: "(string \<Rightarrow> auto_groups \<Rightarrow> (standing \<times> auto_groups) option) \<Rightarrow> string list \<Rightarrow> auto_groups \<Rightarrow>
    ((string \<times> standing) list \<times> auto_groups) option" where
  "standings_of st [] a = Some ([], a)"
| "standings_of st (m # ms) a =
     (case st m a of
        None \<Rightarrow> None
      | Some (s, a1) \<Rightarrow>
          (case standings_of st ms a1 of
             None \<Rightarrow> None
           | Some (rest, a2) \<Rightarrow> Some ((m, s) # rest, a2)))"

fun candidates_of :: "registry \<Rightarrow> dial \<Rightarrow> auto_groups \<Rightarrow> (string \<times> f64) list \<Rightarrow> candidate list option" where
  "candidates_of reg dl a [] = Some []"
| "candidates_of reg dl a ((m, factor) # rest) =
     (case rg_entries reg m of
        Some (EOutbound o' _) \<Rightarrow>
          (case book_health (dl_exp2 dl) (ag_smart a) m o' (dl_now dl) of
             None \<Rightarrow> None
           | Some h \<Rightarrow>
               map_option (\<lambda>cs. \<lparr>cd_name = m, cd_health = h, cd_factor = factor\<rparr> # cs)
                 (candidates_of reg dl a rest))
      | _ \<Rightarrow> candidates_of reg dl a rest)"

definition choose_select :: "registry \<Rightarrow> string \<Rightarrow> string list \<Rightarrow> choice option" where
  "choose_select reg grp members =
     (case selection_get (rg_selections reg) grp of
        Some m \<Rightarrow> if m \<in> set members then Some (choice_plain m)
                  else (case members of [] \<Rightarrow> None | m' # _ \<Rightarrow> Some (choice_plain m'))
      | None \<Rightarrow> (case members of [] \<Rightarrow> None | m # _ \<Rightarrow> Some (choice_plain m)))"

text \<open>By tests, no override standing; \<open>st\<close> is the standing of a member one level down.\<close>

definition choose_tested :: "registry \<Rightarrow> dial \<Rightarrow> (string \<Rightarrow> auto_groups \<Rightarrow> (standing \<times> auto_groups) option) \<Rightarrow>
    string \<Rightarrow> group_spec \<Rightarrow> string list \<Rightarrow> string option \<Rightarrow> bool \<Rightarrow> auto_groups \<Rightarrow> (choice option \<times> auto_groups) option" where
  "choose_tested reg dl st grp spec members host live a =
     (let last_r = last_round a grp;
          pending = (live \<and> to_evaluate_before_use (gs_test spec) \<and> last_r = None)
      in case standings_of st members a of
           None \<Rightarrow> None
         | Some (standings, a1) \<Rightarrow>
             (let untested = list_ex (\<lambda>(m, s). s = NotTested \<and> \<not> is_group reg m) standings;
                  due = (case last_r of None \<Rightarrow> True | Some t \<Rightarrow> to_interval (gs_test spec) \<le> dl_now dl - t);
                  a2 = (if live \<and> (untested \<or> due) then auto_wake grp a1 else a1);
                  member = (case gs_kind spec of
                      GkUrlTest \<Rightarrow> url_test standings (auto_pick a2 grp) (gs_test spec)
                    | GkFallback \<Rightarrow> fallback standings (gs_test spec)
                    | _ \<Rightarrow> if live then load_balance (dl_hash dl) (dl_draw dl grp) standings (gs_test spec) host
                           else fallback standings (gs_test spec));
                  a3 = (case member of
                          Some pick \<Rightarrow> if live \<and> gs_kind spec = GkUrlTest then set_pick grp pick a2 else a2
                        | None \<Rightarrow> a2)
              in Some (map_option (\<lambda>m. \<lparr>ch_member = m, ch_pending = pending, ch_retry = None\<rparr>) member, a3)))"

text \<open>A \<open>smart\<close> group in three parts: what the control plane sees, what happened at the site, a dial.\<close>

definition smart_view :: "registry \<Rightarrow> dial \<Rightarrow> string \<Rightarrow> string list \<Rightarrow> candidate list \<Rightarrow> auto_groups \<Rightarrow> choice option option" where
  "smart_view reg dl grp members candidates a =
     (case most_used (ag_smart a) grp members (dl_now dl) of
        m # _ \<Rightarrow> Some (Some (choice_plain m))
      | [] \<Rightarrow> map_option (map_option (\<lambda>r. choice_plain (rk_pick r)))
                (rank candidates site_memory_default (\<lambda>_. 0)))"

definition smart_site :: "dial \<Rightarrow> string option \<Rightarrow> auto_groups \<Rightarrow> site_memory \<times> auto_groups" where
  "smart_site dl host a =
     (case host of
        None \<Rightarrow> (site_memory_default, a)
      | Some h \<Rightarrow> (let (mem, b) = book_site h (dl_now dl) (ag_smart a) in (mem, a\<lparr>ag_smart := b\<rparr>)))"

definition smart_wake :: "registry \<Rightarrow> dial \<Rightarrow> string \<Rightarrow> candidate list \<Rightarrow> auto_groups \<Rightarrow> auto_groups" where
  "smart_wake reg dl grp candidates a =
     (let unknown = list_ex (\<lambda>c. (case cd_health c of Unknown _ \<Rightarrow> True | _ \<Rightarrow> False) \<and>
                                 test_slot reg (cd_name c) \<noteq> None) candidates;
          due = (case last_round a grp of None \<Rightarrow> True | Some t \<Rightarrow> ROUND_INTERVAL \<le> dl_now dl - t)
      in if unknown \<or> due then auto_wake grp a else a)"

definition choose_smart :: "registry \<Rightarrow> dial \<Rightarrow> string \<Rightarrow> group_spec \<Rightarrow> string list \<Rightarrow> f64 list \<Rightarrow> string option \<Rightarrow>
    bool \<Rightarrow> auto_groups \<Rightarrow> (choice option \<times> auto_groups) option" where
  "choose_smart reg dl grp spec members factors host live a =
     (case candidates_of reg dl a (zip members factors) of
        None \<Rightarrow> None
      | Some candidates \<Rightarrow>
          if candidates = [] then
            Some (case members of [] \<Rightarrow> None | m # _ \<Rightarrow> Some (choice_plain m), a)
          else if \<not> live then map_option (\<lambda>c. (c, a)) (smart_view reg dl grp members candidates a)
          else
            (let (mem, a1) = smart_site dl host (smart_wake reg dl grp candidates a)
             in map_option (\<lambda>r. (map_option (\<lambda>r.
                    \<lparr>ch_member = rk_pick r,
                     ch_pending = (to_evaluate_before_use (gs_test spec) \<and> last_round a grp = None),
                     ch_retry = Some (rk_retry r)\<rparr>) r, a1))
                  (rank candidates mem (random_below (dl_draw dl grp)))))"

definition choose_subnet :: "registry \<Rightarrow> group_spec \<Rightarrow> string list \<Rightarrow> choice option" where
  "choose_subnet reg spec members =
     (if members = [] then None else
      case gs_subnet spec of
        None \<Rightarrow> None
      | Some subnet \<Rightarrow>
          Some (choice_plain
            (case List.find (\<lambda>(e, policy). policy \<in> set members \<and>
                               subnet_matches e (rg_network reg) (rg_wifi_always_match reg)) (ss_conditions subnet) of
               Some (_, policy) \<Rightarrow> policy
             | None \<Rightarrow> ss_default subnet)))"

definition group_choose :: "registry \<Rightarrow> dial \<Rightarrow> (string \<Rightarrow> auto_groups \<Rightarrow> (standing \<times> auto_groups) option) \<Rightarrow>
    string \<Rightarrow> string option \<Rightarrow> bool \<Rightarrow> auto_groups \<Rightarrow> (choice option \<times> auto_groups) option" where
  "group_choose reg dl st grp host live a =
     (case rg_entries reg grp of
        Some (EGroup spec members _ factors) \<Rightarrow>
          if gs_kind spec = GkSelect then Some (choose_select reg grp members, a)
          else (case override_of grp members a of
                  (Some m, a1) \<Rightarrow> Some (Some (choice_plain m), a1)
                | (None, a1) \<Rightarrow>
                    (case gs_kind spec of
                       GkSmart \<Rightarrow> choose_smart reg dl grp spec members factors host live a1
                     | GkSubnet \<Rightarrow> Some (choose_subnet reg spec members, a1)
                     | _ \<Rightarrow> choose_tested reg dl st grp spec members host live a1))
      | _ \<Rightarrow> Some (None, a))"

section \<open>Standings\<close>

definition leaf_standing :: "registry \<Rightarrow> auto_groups \<Rightarrow> string \<Rightarrow> standing" where
  "leaf_standing reg a name =
     (case test_slot reg name of
        None \<Rightarrow> NotPassed
      | Some (policy, test) \<Rightarrow>
          (case test_outcome (ag_tests a) policy (ts_key test) of
             Some (Inr score) \<Rightarrow> Passed score
           | Some (Inl _) \<Rightarrow> NotPassed
           | None \<Rightarrow> NotTested))"

text \<open>The average of those that pass; it panics on a sum no duration holds.\<close>

definition average_standing :: "test_opts \<Rightarrow> standing list \<Rightarrow> standing option" where
  "average_standing opts sts =
     (let passing = List.map_filter (standing_passes opts) sts; n = length passing mod 2 ^ 32
      in if passing = [] then Some (if list_all (\<lambda>s. s = NotTested) sts then NotTested else NotPassed)
         else if secs (2 ^ 64) \<le> sum_list passing \<or> n = 0 then None
         else Some (Passed (sum_list passing div n)))"

text \<open>The standing of a name, by the levels that are left.\<close>

primrec standing_at :: "nat \<Rightarrow> registry \<Rightarrow> dial \<Rightarrow> string \<Rightarrow> auto_groups \<Rightarrow> (standing \<times> auto_groups) option" where
  "standing_at 0 reg dl name a = Some (NotPassed, a)"
| "standing_at (Suc r) reg dl name a =
     (case policy_ref_parse name of
        PNamed n \<Rightarrow>
          (case rg_entries reg n of
             Some (EGroup spec members cycle _) \<Rightarrow>
               if cycle \<noteq> None then Some (NotPassed, a)
               else if gs_kind spec = GkLoadBalance then
                 (case standings_of (standing_at r reg dl) members a of
                    None \<Rightarrow> None
                  | Some (sts, a1) \<Rightarrow> map_option (\<lambda>s. (s, a1)) (average_standing (gs_test spec) (map snd sts)))
               else
                 (case group_choose reg dl (standing_at r reg dl) n None False a of
                    None \<Rightarrow> None
                  | Some (Some c, a1) \<Rightarrow> standing_at r reg dl (ch_member c) a1
                  | Some (None, a1) \<Rightarrow> Some (NotTested, a1))
           | _ \<Rightarrow> Some (leaf_standing reg a name, a))
      | _ \<Rightarrow> Some (leaf_standing reg a name, a))"

definition standing_of :: "registry \<Rightarrow> dial \<Rightarrow> string \<Rightarrow> nat \<Rightarrow> auto_groups \<Rightarrow> (standing \<times> auto_groups) option" where
  "standing_of reg dl name depth a = standing_at (MAX_DEPTH + 1 - depth) reg dl name a"

text \<open>What the control plane shows: the member a group points at.\<close>

definition current_member :: "registry \<Rightarrow> dial \<Rightarrow> string \<Rightarrow> auto_groups \<Rightarrow> (string option \<times> auto_groups) option" where
  "current_member reg dl grp a =
     map_option (\<lambda>(c, a1). (map_option ch_member c, a1))
       (group_choose reg dl (\<lambda>m. standing_of reg dl m 1) grp None False a)"

section \<open>Resolution\<close>

definition resolution_done :: "string list \<Rightarrow> outbound \<Rightarrow> terminal_kind \<Rightarrow> res_note option \<Rightarrow> resolution" where
  "resolution_done chain o' terminal n =
     \<lparr>rs_chain = chain, rs_outbound = o', rs_terminal = terminal, rs_note = n, rs_pending = None,
      rs_smart = None\<rparr>"

definition rejected :: "registry \<Rightarrow> string list \<Rightarrow> res_note option \<Rightarrow> resolution" where
  "rejected reg chain n =
     resolution_done (chain @ [reject_name RkReject]) (rg_rejects reg RkReject) TkReject n"

definition resolve_device :: "registry \<Rightarrow> string \<Rightarrow> string list \<Rightarrow> resolution" where
  "resolve_device reg name chain = rejected reg (chain @ [''DEVICE:'' @ name]) (Some (NUnsupported ''DEVICE''))"

definition resolve_builtin :: "registry \<Rightarrow> builtin \<Rightarrow> string list \<Rightarrow> resolution" where
  "resolve_builtin reg b chain =
     (let chain1 = chain @ [builtin_name b]
      in if b = Direct then resolution_done chain1 (rg_direct reg) TkDirect None
         else (case reject_from_builtin b of
                 Some kind \<Rightarrow> resolution_done chain1 (rg_rejects reg kind) TkReject None
               | None \<Rightarrow> resolution_done (chain1 @ [''DIRECT'']) (rg_direct reg) TkDirect None))"

definition resolve_empty :: "registry \<Rightarrow> string list \<Rightarrow> empty_group \<Rightarrow> resolution" where
  "resolve_empty reg chain e =
     (case e of
        EgDirect \<Rightarrow> resolution_done (chain @ [''DIRECT'']) (rg_direct reg) TkDirect (Some (NEmptyGroup True))
      | EgReject \<Rightarrow> rejected reg chain (Some (NEmptyGroup False)))"

definition with_choice :: "string \<Rightarrow> choice \<Rightarrow> resolution \<Rightarrow> resolution" where
  "with_choice name c res =
     (let res1 = (if ch_pending c then res\<lparr>rs_pending := Some name\<rparr> else res)
      in case ch_retry c of
           Some retry \<Rightarrow> res1\<lparr>rs_smart := Some \<lparr>sp_group = name, sp_member = ch_member c, sp_retry = retry\<rparr>\<rparr>
         | None \<Rightarrow> res1)"

primrec named_at :: "nat \<Rightarrow> registry \<Rightarrow> dial \<Rightarrow> string \<Rightarrow> string list \<Rightarrow> empty_group \<Rightarrow> string option \<Rightarrow> bool \<Rightarrow>
    auto_groups \<Rightarrow> (resolution \<times> auto_groups) option" where
  "named_at 0 reg dl name chain e host live a = Some (rejected reg (chain @ [name]) None, a)"
| "named_at (Suc r) reg dl name chain0 e host live a =
     (let chain = chain0 @ [name]
      in case rg_entries reg name of
           None \<Rightarrow> Some (rejected reg chain None, a)
         | Some (EAlias TDirect) \<Rightarrow> Some (resolution_done (chain @ [''DIRECT'']) (rg_direct reg) TkDirect None, a)
         | Some (EAlias (TReject kind)) \<Rightarrow>
             Some (resolution_done (chain @ [reject_name kind]) (rg_rejects reg kind) TkReject None, a)
         | Some (EOutbound o' proxy) \<Rightarrow>
             Some (if proxy then resolution_done chain o' TkProxy None
                   else resolution_done (chain @ [''DIRECT'']) o' TkDirect None, a)
         | Some (EUnsupported kind what) \<Rightarrow>
             Some (rejected reg (chain @ [''!unsupported:'' @ policy_keyword kind]) (Some (NUnsupported what)), a)
         | Some (EGroup spec members cycle factors) \<Rightarrow>
             (case cycle of
                Some text \<Rightarrow> Some (rejected reg chain (Some (NGroupCycle text)), a)
              | None \<Rightarrow>
                  (case group_choose reg dl (standing_at r reg dl) name host live a of
                     None \<Rightarrow> None
                   | Some (None, a1) \<Rightarrow> Some (resolve_empty reg chain e, a1)
                   | Some (Some c, a1) \<Rightarrow>
                       map_option (\<lambda>(res, a2). (with_choice name c res, a2))
                         (case policy_ref_parse (ch_member c) of
                            PBuiltin b \<Rightarrow> Some (resolve_builtin reg b chain, a1)
                          | PDevice d \<Rightarrow> Some (resolve_device reg d chain, a1)
                          | PNamed n \<Rightarrow> named_at r reg dl n chain e host live a1))))"

definition named_policy :: "registry \<Rightarrow> dial \<Rightarrow> string \<Rightarrow> empty_group \<Rightarrow> string option \<Rightarrow> bool \<Rightarrow> auto_groups \<Rightarrow>
    (resolution \<times> auto_groups) option" where
  "named_policy reg dl name e host live a = named_at (MAX_DEPTH + 1) reg dl name [] e host live a"

definition resolve_with :: "registry \<Rightarrow> dial \<Rightarrow> policy_ref \<Rightarrow> string option \<Rightarrow> auto_groups \<Rightarrow>
    (resolution \<times> auto_groups) option" where
  "resolve_with reg dl policy host a =
     (case policy of
        PBuiltin b \<Rightarrow> Some (resolve_builtin reg b [], a)
      | PDevice d \<Rightarrow> Some (resolve_device reg d [], a)
      | PNamed n \<Rightarrow> named_policy reg dl n (rg_empty reg) host True a)"

definition resolve_relay :: "registry \<Rightarrow> dial \<Rightarrow> string \<Rightarrow> auto_groups \<Rightarrow> (resolution \<times> auto_groups) option" where
  "resolve_relay reg dl name a = named_policy reg dl name EgReject None True a"

definition relay_now :: "registry \<Rightarrow> dial \<Rightarrow> string \<Rightarrow> auto_groups \<Rightarrow> (resolution \<times> auto_groups) option" where
  "relay_now reg dl name a = named_policy reg dl name EgReject None False a"

definition resolve_member :: "registry \<Rightarrow> dial \<Rightarrow> string \<Rightarrow> auto_groups \<Rightarrow> (resolution \<times> auto_groups) option" where
  "resolve_member reg dl member a = named_policy reg dl member (rg_empty reg) None True a"

section \<open>Rounds of tests\<close>

text \<open>The groups a round covers and the policies it tests, by the levels that are left.\<close>

primrec gather_at :: "nat \<Rightarrow> registry \<Rightarrow> string \<Rightarrow> string list \<times> string list \<Rightarrow> string list \<times> string list" where
  "gather_at 0 reg grp acc = acc"
| "gather_at (Suc r) reg grp acc =
     (if grp \<in> set (fst acc) then acc else
      case rg_entries reg grp of
        Some (EGroup _ members cycle _) \<Rightarrow>
          (let acc1 = (fst acc @ [grp], snd acc)
           in if cycle \<noteq> None then acc1
              else fold (\<lambda>m acc. if is_group reg m then gather_at r reg m acc
                                 else if m \<in> set (snd acc) then acc
                                 else (fst acc, snd acc @ [m])) members acc1)
      | _ \<Rightarrow> acc)"

definition gather :: "registry \<Rightarrow> string \<Rightarrow> string list \<times> string list" where
  "gather reg grp = gather_at (MAX_DEPTH + 1) reg grp ([], [])"

definition sample_of :: "registry \<Rightarrow> auto_groups \<Rightarrow> string \<Rightarrow> instant \<Rightarrow> string list option" where
  "sample_of reg a grp now =
     (case rg_entries reg grp of
        Some (EGroup spec members _ _) \<Rightarrow>
          if gs_kind spec \<noteq> GkSmart then None
          else (let testable = filter (\<lambda>m. test_slot reg m \<noteq> None) members
                in if length testable \<le> ROUND_SAMPLE then None
                   else Some (round_sample testable (most_used (ag_smart a) grp testable now) (tested_at reg a)))
      | _ \<Rightarrow> None)"

text \<open>\<open>Duration::MAX\<close> is where \<open>saturating_mul\<close> stops.\<close>

definition DURATION_MAX :: duration where
  "DURATION_MAX = secs (2 ^ 64) - 1"

definition round_timeout :: "registry \<Rightarrow> auto_groups \<Rightarrow> string \<Rightarrow> instant \<Rightarrow> duration" where
  "round_timeout reg a grp now =
     (let policies = (case sample_of reg a grp now of Some ps \<Rightarrow> ps | None \<Rightarrow> snd (gather reg grp));
          timeouts = List.map_filter (\<lambda>p. map_option (\<lambda>(_, test). ts_timeout test) (test_slot reg p)) policies;
          longest = fold max timeouts 0;
          rounds = ((length timeouts + (MAX_CONCURRENT_TESTS - 1)) div MAX_CONCURRENT_TESTS) mod 2 ^ 32
      in min (longest * rounds) DURATION_MAX)"

fun smart_available :: "registry \<Rightarrow> dial \<Rightarrow> auto_groups \<Rightarrow> string list \<Rightarrow> string list option" where
  "smart_available reg dl a [] = Some []"
| "smart_available reg dl a (m # ms) =
     (case (smart_health reg dl a m, smart_available reg dl a ms) of
        (Some h, Some rest) \<Rightarrow> Some (case h of Healthy _ \<Rightarrow> m # rest | _ \<Rightarrow> rest)
      | _ \<Rightarrow> None)"

definition available :: "registry \<Rightarrow> dial \<Rightarrow> string \<Rightarrow> auto_groups \<Rightarrow> (string list \<times> auto_groups) option" where
  "available reg dl grp a =
     (case rg_entries reg grp of
        Some (EGroup spec members _ _) \<Rightarrow>
          if gs_kind spec = GkSmart then map_option (\<lambda>ms. (ms, a)) (smart_available reg dl a members)
          else map_option (\<lambda>(sts, a1). (map fst (filter (\<lambda>(_, s). standing_passes (gs_test spec) s \<noteq> None) sts), a1))
                 (standings_of (\<lambda>m. standing_of reg dl m 1) members a)
      | _ \<Rightarrow> Some ([], a))"

text \<open>
  The tests of a round, as the book is asked for them, in the order they were spawned; what the
  round does when they have all ended.
\<close>

definition round_cases :: "registry \<Rightarrow> string list \<Rightarrow> test_case list" where
  "round_cases reg policies = List.map_filter (registry_test_case reg) policies"

definition round_groups :: "string \<Rightarrow> string list \<Rightarrow> string list" where
  "round_groups grp groups = (if groups = [] then [grp] else groups)"

definition round_finish :: "registry \<Rightarrow> dial \<Rightarrow> string \<Rightarrow> string list \<Rightarrow> nat \<Rightarrow> auto_groups \<Rightarrow>
    (string list \<times> auto_groups) option" where
  "round_finish reg dl grp groups began a =
     available reg dl grp (round_ended (round_groups grp groups) began (dl_now dl) a)"

definition round_plan :: "registry \<Rightarrow> auto_groups \<Rightarrow> string \<Rightarrow> instant \<Rightarrow> string list \<times> string list" where
  "round_plan reg a grp now =
     (case sample_of reg a grp now of Some policies \<Rightarrow> ([grp], policies) | None \<Rightarrow> gather reg grp)"

text \<open>The network has changed: the outbounds that are told, in order, and the groups.\<close>

definition registry_network_changed :: "registry \<Rightarrow> auto_groups \<Rightarrow> outbound list \<times> auto_groups" where
  "registry_network_changed reg a =
     (List.map_filter (\<lambda>n. case rg_entries reg n of Some (EOutbound o' _) \<Rightarrow> Some o' | _ \<Rightarrow> None) (rg_order reg),
      auto_network_changed (List.map_filter (group_spec_of reg) (group_names reg)) a)"

end
