(* ===== verification/Rurge_Registry_Facts.thy ===== *)
theory Rurge_Registry_Facts
  imports Rurge_Registry Rurge_Auto_Facts
begin

text \<open>
  What holds of a resolution: it always ends in an outbound, and where it ends is written in the
  profile; a relay never becomes a direct connection for want of members; asking changes nothing.
\<close>

section \<open>The choice of a group is one of its members\<close>

lemma policy_keyword_parse: "policy_kind_parse (policy_keyword k) = Some k"
  by (cases k; hypsubst; code_simp)

lemma standings_of_names: "standings_of st ms a = Some (sts, a') \<Longrightarrow> map fst sts = ms"
  by (induction ms arbitrary: a sts) (auto split: option.splits prod.splits)

lemma fst_in: "(n, s) \<in> X \<Longrightarrow> n \<in> fst ` X"
  by force

lemma url_test_member: "url_test ms current opts = Some m \<Longrightarrow> m \<in> set (map fst ms)"
proof -
  assume u: "url_test ms current opts = Some m"
  consider "fold (best_step opts) ms None = None"
    | b best where "fold (best_step opts) ms None = Some (b, best)" by fastforce
  then show ?thesis
  proof cases
    case 1
    then show ?thesis using u by (auto simp: url_test_def split: list.splits)
  next
    case (2 b best)
    then have "b \<in> set (map fst ms)"
      using best_fold[of ms opts] by (auto simp: passes_in_def intro: fst_in)
    then show ?thesis
      using u 2 by (auto simp: url_test_def bind_eq_Some_conv dest!: find_in split: option.splits if_splits)
        (force)+
  qed
qed

lemma fallback_member: "fallback ms opts = Some m \<Longrightarrow> m \<in> set (map fst ms)"
  by (auto simp: fallback_def dest!: find_in split: option.splits list.splits intro: fst_in)

lemma load_balance_member: "load_balance hash draw ms opts host = Some m \<Longrightarrow> m \<in> set (map fst ms)"
proof -
  assume l: "load_balance hash draw ms opts host = Some m"
  obtain cands n where c: "cands \<noteq> []" "set cands \<subseteq> set (map fst ms)" "m = cands ! (n mod length cands)"
  proof -
    let ?p = "map fst (filter (\<lambda>(_, st). standing_passes opts st \<noteq> None) ms)"
    let ?c = "if ?p = [] then map fst ms else ?p"
    have "?c \<noteq> []" "\<exists>n. m = ?c ! (n mod length ?c)"
      using l by (auto simp: load_balance_def Let_def split: if_splits)
    moreover have "set ?c \<subseteq> set (map fst ms)" by auto
    ultimately show thesis using that by blast
  qed
  then show ?thesis using nth_mem[of "n mod length cands" cands] by auto
qed

lemma candidates_cases:
  assumes "candidates_of reg dl a (x # rest) = Some cs"
  obtains (skipped) "candidates_of reg dl a rest = Some cs" "\<And>o' p. rg_entries reg (fst x) \<noteq> Some (EOutbound o' p)"
  | (taken) h tail o' p where "candidates_of reg dl a rest = Some tail"
      "rg_entries reg (fst x) = Some (EOutbound o' p)"
      "cs = \<lparr>cd_name = fst x, cd_health = h, cd_factor = snd x\<rparr> # tail"
proof (cases "rg_entries reg (fst x)")
  case None
  then show thesis using assms skipped by (cases x) simp
next
  case (Some e)
  show thesis
  proof (cases e)
    case (EOutbound o' p)
    then show thesis
      using Some assms by (cases x) (auto split: option.splits intro: taken)
  qed (use Some assms skipped in \<open>cases x; simp\<close>)+
qed

lemma candidates_names:
  "candidates_of reg dl a mfs = Some cs \<Longrightarrow> cd_name ` set cs \<subseteq> fst ` set mfs"
proof (induction mfs arbitrary: cs)
  case (Cons x mfs)
  from Cons.prems show ?case by (cases rule: candidates_cases) (use Cons.IH in \<open>auto simp: fst_in\<close>)
qed simp

lemma candidates_factors:
  "candidates_of reg dl a mfs = Some cs \<Longrightarrow> cd_factor ` set cs \<subseteq> snd ` set mfs"
proof (induction mfs arbitrary: cs)
  case (Cons x mfs)
  from Cons.prems show ?case by (cases rule: candidates_cases) (use Cons.IH in \<open>auto simp: fst_in\<close>)
qed simp

lemma most_used_member: "m \<in> set (most_used b grp members now) \<Longrightarrow> m \<in> set members"
  by (auto simp: most_used_def in_set_enumerate_eq split: option.splits)

text \<open>
  What a table that was built has: a \<open>subnet\<close> group's default among its members, a factor for each
  member of a \<open>smart\<close> group, none below zero, and fewer than \<open>2 ^ 32\<close> members in a group.
\<close>

definition group_ok :: "group_spec \<Rightarrow> string list \<Rightarrow> f64 list \<Rightarrow> bool" where
  "group_ok spec members factors \<longleftrightarrow>
     (gs_kind spec = GkSubnet \<longrightarrow> members \<noteq> [] \<longrightarrow>
        (case gs_subnet spec of Some s \<Rightarrow> ss_default s \<in> set members | None \<Rightarrow> True)) \<and>
     (gs_kind spec = GkSmart \<longrightarrow> length factors = length members) \<and>
     (\<forall>f\<in>set factors. Fin 0 \<le> f) \<and> length members < 2 ^ 32"

definition registry_ok :: "registry \<Rightarrow> bool" where
  "registry_ok reg \<longleftrightarrow>
     (\<forall>n spec members cycle factors. rg_entries reg n = Some (EGroup spec members cycle factors) \<longrightarrow>
        group_ok spec members factors)"

lemma choose_select_member: "Some c = choose_select reg grp members \<Longrightarrow> ch_member c \<in> set members"
  by (auto simp: choose_select_def choice_plain_def split: option.splits if_splits list.splits)

lemma choose_tested_member:
  assumes "choose_tested reg dl st grp spec members host live a = Some (Some c, a')"
  shows "ch_member c \<in> set members"
proof -
  obtain sts a1 where s: "standings_of st members a = Some (sts, a1)"
    using assms by (auto simp: choose_tested_def Let_def split: option.splits)
  have "ch_member c \<in> set (map fst sts)"
    using assms s by (auto simp: choose_tested_def Let_def simp del: set_map split: group_kind.splits if_splits
        dest!: url_test_member fallback_member load_balance_member)
  then show ?thesis using standings_of_names[OF s] by simp
qed

text \<open>What a dial leaves as it was: the results of the tests, the scores, the rounds, the network.\<close>

definition dialled :: "auto_groups \<Rightarrow> auto_groups \<Rightarrow> bool" where
  "dialled a a' \<longleftrightarrow> ag_tests a' = ag_tests a \<and> sb_records (ag_smart a') = sb_records (ag_smart a) \<and>
     ag_rounds a' = ag_rounds a \<and> ag_epoch a' = ag_epoch a \<and> ag_cleared a' = ag_cleared a"

lemma dialled_refl [simp]: "dialled a a"
  by (simp add: dialled_def)

lemma dialled_trans: "dialled a b \<Longrightarrow> dialled b c \<Longrightarrow> dialled a c"
  by (simp add: dialled_def)

lemma dialled_wake [simp]: "dialled a (auto_wake grp a)"
  by (simp add: dialled_def auto_wake_def)

lemma dialled_override: "override_of grp members a = (m, a') \<Longrightarrow> dialled a a'"
  by (auto simp: dialled_def override_of_def split: option.splits if_splits)

lemma dialled_pick [simp]: "dialled a (set_pick grp m a)"
  by (simp add: dialled_def set_pick_def)

lemma dialled_site: "smart_site dl host a = (mem, a') \<Longrightarrow> dialled a a'"
  by (auto simp: dialled_def smart_site_def book_site_def split: option.splits prod.splits)

lemma dialled_smart_wake [simp]: "dialled a (smart_wake reg dl grp cs a)"
  by (simp add: smart_wake_def Let_def)

lemma choose_smart_cases:
  assumes "choose_smart reg dl grp spec members factors host live a = Some (c, a')"
  obtains (nobody) "candidates_of reg dl a (zip members factors) = Some []"
      "c = (case members of [] \<Rightarrow> None | m # _ \<Rightarrow> Some (choice_plain m))" "a' = a"
  | (used) m where "\<not> live" "c = Some (choice_plain m)" "m \<in> set members" "a' = a"
  | (ranked) cs mem pick_at r where "candidates_of reg dl a (zip members factors) = Some cs"
      "cs \<noteq> []" "rank cs mem pick_at = Some r" "map_option ch_member c = map_option rk_pick r"
      "Option.bind c ch_retry = (if live then map_option rk_retry r else None)" "dialled a a'" "\<not> live \<Longrightarrow> a' = a"
proof -
  obtain cs where cs: "candidates_of reg dl a (zip members factors) = Some cs"
    using assms by (cases "candidates_of reg dl a (zip members factors)") (simp_all add: choose_smart_def)
  consider (none) "cs = []" | (view) "cs \<noteq> []" "\<not> live" | (dial) "cs \<noteq> []" live by blast
  then show thesis
  proof cases
    case none
    have "choose_smart reg dl grp spec members factors host live a =
        Some (case members of [] \<Rightarrow> None | m # _ \<Rightarrow> Some (choice_plain m), a)"
      by (simp add: choose_smart_def cs none)
    then show thesis using assms by (intro nobody) (simp_all add: cs none)
  next
    case view
    then have v: "smart_view reg dl grp members cs a = Some c" "a' = a"
      using assms cs by (auto simp: choose_smart_def)
    show thesis
    proof (cases "most_used (ag_smart a) grp members (dl_now dl)")
      case Nil
      then obtain r where r: "rank cs site_memory_default (\<lambda>_. 0) = Some r"
          "c = map_option (\<lambda>r. choice_plain (rk_pick r)) r" using v(1) by (auto simp: smart_view_def)
      show thesis
        by (rule ranked[OF cs view(1) r(1)]) (use view v r(2) in \<open>cases r; simp add: choice_plain_def\<close>)+
    next
      case (Cons m ms)
      then have "m \<in> set members" using most_used_member[of m "ag_smart a" grp members "dl_now dl"] by simp
      then show thesis using used[of m] view v Cons by (simp add: smart_view_def)
    qed
  next
    case dial
    obtain mem a1 where m: "smart_site dl host (smart_wake reg dl grp cs a) = (mem, a1)" by fastforce
    have e: "choose_smart reg dl grp spec members factors host live a = map_option (\<lambda>r. (map_option (\<lambda>r.
        \<lparr>ch_member = rk_pick r, ch_pending = (to_evaluate_before_use (gs_test spec) \<and> last_round a grp = None),
         ch_retry = Some (rk_retry r)\<rparr>) r, a1)) (rank cs mem (random_below (dl_draw dl grp)))"
      using dial by (simp add: choose_smart_def cs m)
    then obtain r where r: "rank cs mem (random_below (dl_draw dl grp)) = Some r" "a' = a1"
        "map_option ch_member c = map_option rk_pick r" "Option.bind c ch_retry = map_option rk_retry r"
      using assms by (auto simp: option.map_comp comp_def map_option_case split: option.splits)
    have "dialled a a1" using dialled_trans[OF dialled_smart_wake dialled_site[OF m]] .
    then show thesis using r dial by (intro ranked[OF cs]) simp_all
  qed
qed

lemma choose_smart_member:
  assumes "choose_smart reg dl grp spec members factors host live a = Some (Some c, a')"
  shows "ch_member c \<in> set members"
  using assms
proof (cases rule: choose_smart_cases)
  case nobody
  then show ?thesis by (auto simp: choice_plain_def split: list.splits)
next
  case (used m)
  then show ?thesis by (simp add: choice_plain_def)
next
  case (ranked cs mem pick_at r)
  obtain r' where "r = Some r'" "ch_member c = rk_pick r'" using ranked(4) by (cases r) auto
  then have "ch_member c \<in> cd_name ` set cs" using rank_pick_named[of cs mem pick_at r'] ranked(3) by simp
  then show ?thesis using candidates_names[OF ranked(1)] by (auto dest!: in_set_zipE set_zip_leftD)
qed

lemma choose_subnet_member:
  assumes "choose_subnet reg spec members = Some c" "group_ok spec members factors" "gs_kind spec = GkSubnet"
  shows "ch_member c \<in> set members"
  using assms by (auto simp: choose_subnet_def group_ok_def choice_plain_def dest!: find_in split: option.splits if_splits)

lemma override_member: "override_of grp members a = (Some m, a') \<Longrightarrow> m \<in> set members"
  by (auto simp: override_of_def split: option.splits if_splits)

lemma group_choose_cases:
  assumes "group_choose reg dl st grp host live a = Some (c, a')"
  obtains (no_group) "\<not> is_group reg grp" "c = None" "a' = a"
  | (select) spec members cycle factors where "rg_entries reg grp = Some (EGroup spec members cycle factors)"
      "c = choose_select reg grp members" "a' = a"
  | (overridden) spec members cycle factors m where "rg_entries reg grp = Some (EGroup spec members cycle factors)"
      "override_of grp members a = (Some m, a')" "c = Some (choice_plain m)"
  | (smart) spec members cycle factors a1 where "rg_entries reg grp = Some (EGroup spec members cycle factors)"
      "gs_kind spec = GkSmart" "override_of grp members a = (None, a1)" "choose_smart reg dl grp spec members factors host live a1 = Some (c, a')"
  | (subnet) spec members cycle factors where "rg_entries reg grp = Some (EGroup spec members cycle factors)"
      "override_of grp members a = (None, a')" "c = choose_subnet reg spec members" "gs_kind spec = GkSubnet"
  | (tested) spec members cycle factors a1 where "rg_entries reg grp = Some (EGroup spec members cycle factors)"
      "override_of grp members a = (None, a1)" "choose_tested reg dl st grp spec members host live a1 = Some (c, a')"
  using assms unfolding group_choose_def is_group_def
  by (auto split: option.splits policy_entry.splits if_splits prod.splits group_kind.splits)

lemma group_choose_member:
  assumes "group_choose reg dl st grp host live a = Some (Some c, a')" "registry_ok reg"
  shows "\<exists>spec members cycle factors. rg_entries reg grp = Some (EGroup spec members cycle factors) \<and>
    ch_member c \<in> set members"
  using assms(1)
proof (cases rule: group_choose_cases)
  case (subnet spec members cycle factors)
  then have "group_ok spec members factors" using assms(2) by (simp add: registry_ok_def)
  then show ?thesis using subnet choose_subnet_member[of reg spec members c factors] by simp
next
  case (overridden spec members cycle factors m)
  then show ?thesis using override_member by (fastforce simp: choice_plain_def)
qed (auto dest: choose_select_member choose_tested_member choose_smart_member)

section \<open>Asking changes nothing\<close>

text \<open>Between two states, at most it was noted that an override is gone.\<close>

definition unwarned :: "override \<Rightarrow> override" where
  "unwarned ov = ov\<lparr>ov_warned := False\<rparr>"

definition asked :: "auto_groups \<Rightarrow> auto_groups \<Rightarrow> bool" where
  "asked a a' \<longleftrightarrow> a' = a\<lparr>ag_overrides := ag_overrides a'\<rparr> \<and>
     (\<forall>grp. map_option unwarned (ag_overrides a' grp) = map_option unwarned (ag_overrides a grp))"

lemma asked_refl [simp]: "asked a a"
  by (simp add: asked_def)

lemma asked_trans: "asked a b \<Longrightarrow> asked b c \<Longrightarrow> asked a c"
  unfolding asked_def by (metis (no_types, lifting) auto_groups.update_convs(3) auto_groups.surjective)

lemma asked_override: "override_of grp members a = (m, a') \<Longrightarrow> asked a a'"
  by (auto simp: asked_def override_of_def unwarned_def split: option.splits if_splits)

lemma asked_dialled: "asked a a' \<Longrightarrow> dialled a a'"
  unfolding asked_def dialled_def by (metis auto_groups.select_convs(1,2,5,7,8) auto_groups.surjective auto_groups.update_convs(3))

definition quiet :: "(string \<Rightarrow> auto_groups \<Rightarrow> (standing \<times> auto_groups) option) \<Rightarrow> bool" where
  "quiet st \<longleftrightarrow> (\<forall>m a s a'. st m a = Some (s, a') \<longrightarrow> asked a a')"

lemma standings_of_asked:
  assumes "quiet st" "standings_of st ms a = Some (sts, a')"
  shows "asked a a'"
  using assms(2)
proof (induction ms arbitrary: a sts)
  case (Cons m ms)
  then obtain s a1 rest where "st m a = Some (s, a1)" "standings_of st ms a1 = Some (rest, a')"
    by (auto split: option.splits prod.splits)
  then show ?case using Cons.IH assms(1) asked_trans unfolding quiet_def by blast
qed simp

lemma choose_tested_asked:
  assumes "quiet st"
    "choose_tested reg dl st grp spec members host False a = Some (c, a')"
  shows "asked a a'"
proof -
  obtain sts a1 where s: "standings_of st members a = Some (sts, a1)"
    using assms(2) by (cases "standings_of st members a") (auto simp: choose_tested_def Let_def)
  then have "a' = a1"
    using assms(2) by (auto simp: choose_tested_def Let_def split: option.splits)
  then show ?thesis using standings_of_asked[OF assms(1) s] by blast
qed

lemma choose_smart_asked:
  "choose_smart reg dl grp spec members factors host False a = Some (c, a') \<Longrightarrow> a' = a"
  by (erule choose_smart_cases) simp_all

lemma group_choose_asked:
  assumes "quiet st"
    "group_choose reg dl st grp host False a = Some (c, a')"
  shows "asked a a'"
  using assms(2)
proof (cases rule: group_choose_cases)
  case (smart spec members cycle factors a1)
  then show ?thesis using choose_smart_asked asked_override by blast
next
  case (tested spec members cycle factors a1)
  then show ?thesis
    using choose_tested_asked[OF assms(1) tested(3)] asked_trans asked_override by blast
qed (auto intro: asked_override)

lemma standing_at_asked: "standing_at r reg dl name a = Some (s, a') \<Longrightarrow> asked a a'"
proof (induction r arbitrary: name a s a')
  case (Suc r)
  have st: "quiet (standing_at r reg dl)" using Suc.IH unfolding quiet_def by blast
  show ?case
  proof (cases "\<exists>n spec members cycle factors. policy_ref_parse name = PNamed n \<and>
      rg_entries reg n = Some (EGroup spec members cycle factors)")
    case False
    then have "a' = a" using Suc.prems by (auto split: policy_ref.splits option.splits policy_entry.splits)
    then show ?thesis by simp
  next
    case True
    then obtain n spec members cycle factors where n: "policy_ref_parse name = PNamed n"
      "rg_entries reg n = Some (EGroup spec members cycle factors)" by blast
    consider (cyclic) "cycle \<noteq> None" | (balanced) "cycle = None" "gs_kind spec = GkLoadBalance"
      | (chosen) "cycle = None" "gs_kind spec \<noteq> GkLoadBalance" by blast
    then show ?thesis
    proof cases
      case cyclic
      then show ?thesis using Suc.prems n by auto
    next
      case balanced
      then obtain sts where "standings_of (standing_at r reg dl) members a = Some (sts, a')"
        using Suc.prems n by (auto split: option.splits)
      then show ?thesis using standings_of_asked st by blast
    next
      case chosen
      then obtain c a1 where c: "group_choose reg dl (standing_at r reg dl) n None False a = Some (c, a1)"
        using Suc.prems n by (cases "group_choose reg dl (standing_at r reg dl) n None False a") auto
      then have "asked a1 a'" using Suc.prems n chosen Suc.IH by (cases c) auto
      moreover have "asked a a1" using group_choose_asked[OF st c] .
      ultimately show ?thesis by (rule asked_trans[rotated])
    qed
  qed
qed simp

lemma standing_at_quiet: "quiet (standing_at r reg dl)"
  unfolding quiet_def using standing_at_asked by blast

section \<open>A dial returns\<close>

text \<open>
  What the books hold when a dial is made: a health for every policy, and no test that took \<open>2 ^ 32\<close>
  seconds.
\<close>

definition books_ok :: "dial \<Rightarrow> auto_groups \<Rightarrow> bool" where
  "books_ok dl a \<longleftrightarrow>
     (\<forall>m o'. \<exists>h. book_health (dl_exp2 dl) (ag_smart a) m o' (dl_now dl) = Some h) \<and>
     (\<forall>p k d. test_outcome (ag_tests a) p k = Some (Inr d) \<longrightarrow> d < secs (2 ^ 32))"

lemma books_ok_dialled: "dialled a a' \<Longrightarrow> books_ok dl a \<Longrightarrow> books_ok dl a'"
  by (simp add: books_ok_def dialled_def book_health_def)

definition short :: "standing \<Rightarrow> bool" where
  "short s \<longleftrightarrow> (\<forall>d. s = Passed d \<longrightarrow> d < secs (2 ^ 32))"

definition answers :: "dial \<Rightarrow> (string \<Rightarrow> auto_groups \<Rightarrow> (standing \<times> auto_groups) option) \<Rightarrow> bool" where
  "answers dl st \<longleftrightarrow> (\<forall>m a. books_ok dl a \<longrightarrow> (\<exists>s a'. st m a = Some (s, a') \<and> short s))"

lemma leaf_short: "books_ok dl a \<Longrightarrow> short (leaf_standing reg a name)"
  by (auto simp: short_def leaf_standing_def books_ok_def split: option.splits sum.splits)

lemma standings_of_returns:
  assumes "quiet st" "answers dl st" "books_ok dl a"
  shows "\<exists>sts a'. standings_of st ms a = Some (sts, a') \<and> (\<forall>s\<in>set (map snd sts). short s)"
  using assms(3)
proof (induction ms arbitrary: a)
  case (Cons m ms)
  obtain s a1 where s: "st m a = Some (s, a1)" "short s" using assms(2) Cons.prems unfolding answers_def by blast
  then have "books_ok dl a1"
    using assms(1) asked_dialled books_ok_dialled Cons.prems unfolding quiet_def by blast
  then obtain rest a2 where "standings_of st ms a1 = Some (rest, a2)" "\<forall>s\<in>set (map snd rest). short s"
    using Cons.IH by blast
  then show ?case using s by simp
qed simp

lemma average_returns:
  assumes "\<forall>s\<in>set sts. short s" "length sts < 2 ^ 32"
  shows "\<exists>s. average_standing opts sts = Some s \<and> short s"
proof -
  define ps where "ps = List.map_filter (standing_passes opts) sts"
  have p: "d < secs (2 ^ 32)" if "d \<in> set ps" for d
    using that assms(1) by (auto simp: ps_def map_filter_set short_def elim!: standing_passes.elims split: option.splits if_splits)
  have len: "length ps < 2 ^ 32"
    using assms(2) unfolding ps_def List.map_filter_def length_map by (rule le_less_trans[OF length_filter_le])
  have sum: "sum_list ps \<le> length ps * (secs (2 ^ 32) - 1)"
    using sum_list_mono2[of ps "replicate (length ps) (secs (2 ^ 32) - 1)"] p
    by (auto simp: sum_list_replicate less_Suc_eq_le[symmetric])
  show ?thesis
  proof (cases "ps = []")
    case True
    then show ?thesis by (auto simp: average_standing_def Let_def ps_def[symmetric] short_def)
  next
    case False
    then have n: "0 < length ps" "length ps mod 2 ^ 32 = length ps" using len by auto
    have "sum_list ps < secs (2 ^ 64)" using sum len by (auto intro: le_less_trans[OF _ mult_strict_mono'] simp: )
    moreover have "sum_list ps div length ps < secs (2 ^ 32)"
      using sum n by (auto simp: div_less_iff_less_mult mult.commute intro: le_less_trans)
    ultimately show ?thesis
      using False n by (simp add: average_standing_def Let_def ps_def[symmetric] short_def)
  qed
qed

lemma choose_tested_returns:
  assumes "quiet st" "answers dl st" "books_ok dl a"
  shows "\<exists>c a'. choose_tested reg dl st grp spec members host live a = Some (c, a')"
  using standings_of_returns[OF assms, of members] by (auto simp: choose_tested_def Let_def)

lemma choose_tested_dialled:
  assumes "quiet st" "choose_tested reg dl st grp spec members host live a = Some (c, a')"
  shows "dialled a a'"
proof -
  obtain sts a1 where s: "standings_of st members a = Some (sts, a1)"
    using assms(2) by (cases "standings_of st members a") (auto simp: choose_tested_def Let_def)
  have "dialled a1 a'"
    using assms(2) s dialled_trans[OF dialled_wake dialled_pick]
    by (auto simp: choose_tested_def Let_def split: option.splits if_splits)
  then show ?thesis using dialled_trans[OF asked_dialled[OF standings_of_asked[OF assms(1) s]]] by blast
qed

lemma candidates_returns: "books_ok dl a \<Longrightarrow> \<exists>cs. candidates_of reg dl a mfs = Some cs"
proof (induction mfs)
  case (Cons x mfs)
  obtain cs where "candidates_of reg dl a mfs = Some cs" using Cons by blast
  moreover obtain h where "book_health (dl_exp2 dl) (ag_smart a) (fst x) o' (dl_now dl) = Some (h o')" for o'
    using Cons.prems unfolding books_ok_def by metis
  ultimately show ?case by (cases x) (simp split: option.split policy_entry.split)
qed simp

lemma choose_smart_returns:
  assumes "books_ok dl a" "\<forall>f\<in>set factors. Fin 0 \<le> f"
  shows "\<exists>c a'. choose_smart reg dl grp spec members factors host live a = Some (c, a')"
proof -
  obtain cs where cs: "candidates_of reg dl a (zip members factors) = Some cs"
    using candidates_returns[OF assms(1)] by blast
  have f: "Fin 0 \<le> cd_factor c" if "c \<in> set cs" for c
    using candidates_factors[OF cs] that assms(2) by (force dest: set_zip_rightD)
  have r: "\<exists>r. rank cs mem pick_at = Some r" for mem pick_at by (rule rank_returns) (rule f)
  obtain r0 where "rank cs site_memory_default (\<lambda>_. 0) = Some r0" using r by blast
  then have "\<exists>c. smart_view reg dl grp members cs a = Some c"
    by (simp add: smart_view_def split: list.split)
  moreover obtain mem a1 where "smart_site dl host (smart_wake reg dl grp cs a) = (mem, a1)" by fastforce
  moreover obtain r1 where "rank cs mem (random_below (dl_draw dl grp)) = Some r1" using r by blast
  ultimately show ?thesis by (auto simp: choose_smart_def cs)
qed

lemma group_choose_dialled:
  assumes "quiet st" "group_choose reg dl st grp host live a = Some (c, a')"
  shows "dialled a a'"
  using assms(2)
proof (cases rule: group_choose_cases)
  case (smart spec members cycle factors a1)
  have "dialled a1 a'" using smart(4) by (cases rule: choose_smart_cases) simp_all
  then show ?thesis using dialled_override[OF smart(3)] dialled_trans by blast
next
  case (tested spec members cycle factors a1)
  then show ?thesis using choose_tested_dialled[OF assms(1)] dialled_override dialled_trans by blast
qed (auto intro: dialled_override)

lemma group_choose_returns:
  assumes "registry_ok reg" "quiet st" "answers dl st" "books_ok dl a"
  shows "\<exists>c a'. group_choose reg dl st grp host live a = Some (c, a')"
proof (cases "\<exists>spec members cycle factors. rg_entries reg grp = Some (EGroup spec members cycle factors)")
  case False
  then show ?thesis by (auto simp: group_choose_def split: option.split policy_entry.split)
next
  case True
  then obtain spec members cycle factors where e: "rg_entries reg grp = Some (EGroup spec members cycle factors)"
    by blast
  obtain m a1 where ov: "override_of grp members a = (m, a1)" by fastforce
  have b: "books_ok dl a1" using books_ok_dialled[OF dialled_override[OF ov] assms(4)] .
  have "\<forall>f\<in>set factors. Fin 0 \<le> f" using assms(1) e unfolding registry_ok_def group_ok_def by blast
  then show ?thesis
    using choose_smart_returns[OF b, of factors reg grp spec members host live]
      choose_tested_returns[OF assms(2,3) b, of reg grp spec members host live]
    by (cases m; cases "gs_kind spec") (simp_all add: group_choose_def e ov)
qed

lemma standing_at_answers:
  assumes "registry_ok reg"
  shows "answers dl (standing_at r reg dl)"
proof (induction r)
  case 0
  show ?case by (simp add: answers_def short_def)
next
  case (Suc r)
  show ?case unfolding answers_def
  proof (intro allI impI)
    fix name a assume b: "books_ok dl a"
    show "\<exists>s a'. standing_at (Suc r) reg dl name a = Some (s, a') \<and> short s"
    proof (cases "\<exists>n spec members cycle factors. policy_ref_parse name = PNamed n \<and>
        rg_entries reg n = Some (EGroup spec members cycle factors)")
      case False
      then show ?thesis
        using leaf_short[OF b] by (auto split: policy_ref.split option.split policy_entry.split)
    next
      case True
      then obtain n spec members cycle factors where n: "policy_ref_parse name = PNamed n"
        "rg_entries reg n = Some (EGroup spec members cycle factors)" by blast
      then have len: "length members < 2 ^ 32" using assms unfolding registry_ok_def group_ok_def by blast
      obtain sts a1 where sts: "standings_of (standing_at r reg dl) members a = Some (sts, a1)"
        "\<forall>s\<in>set (map snd sts). short s"
        using standings_of_returns[OF standing_at_quiet Suc.IH b] by blast
      obtain s1 where s1: "average_standing (gs_test spec) (map snd sts) = Some s1" "short s1"
        using average_returns[OF sts(2), of "gs_test spec"] len standings_of_names[OF sts(1)]
        by (metis length_map)
      obtain c a2 where c: "group_choose reg dl (standing_at r reg dl) n None False a = Some (c, a2)"
        using group_choose_returns[OF assms standing_at_quiet Suc.IH b] by blast
      have "books_ok dl a2" using books_ok_dialled[OF group_choose_dialled[OF standing_at_quiet c] b] .
      then obtain s2 a3 where
        s2: "standing_at r reg dl (ch_member (the c)) a2 = Some (s2, a3)" "short s2"
        using Suc.IH unfolding answers_def by blast
      show ?thesis using n sts(1) s1 c s2 by (cases c) (auto simp: short_def)
    qed
  qed
qed

lemma named_at_returns:
  assumes "registry_ok reg"
  shows "books_ok dl a \<Longrightarrow> \<exists>res a'. named_at r reg dl name chain e host live a = Some (res, a')"
proof (induction r arbitrary: name chain a)
  case (Suc r)
  obtain c a1 where c: "group_choose reg dl (standing_at r reg dl) name host live a = Some (c, a1)"
    using group_choose_returns[OF assms standing_at_quiet standing_at_answers[OF assms] Suc.prems] by blast
  have "books_ok dl a1" using books_ok_dialled[OF group_choose_dialled[OF standing_at_quiet c] Suc.prems] .
  then have IH: "\<exists>a' res. named_at r reg dl n ch e host live a1 = Some (res, a')" for n ch
    using Suc.IH by blast
  show ?case
    using c IH by (cases c) (auto simp: Let_def split: option.split policy_entry.split terminal.split policy_ref.split)
qed simp

section \<open>Where a resolution ends\<close>

text \<open>Where the members of groups lead from a name.\<close>

inductive leads :: "registry \<Rightarrow> string \<Rightarrow> policy_ref \<Rightarrow> bool" for reg where
  itself: "leads reg n (PNamed n)"
| through: "leads reg n (PNamed g) \<Longrightarrow> rg_entries reg g = Some (EGroup spec members None factors) \<Longrightarrow>
     m \<in> set members \<Longrightarrow> leads reg n (policy_ref_parse m)"

lemma leads_trans: "leads reg m p \<Longrightarrow> leads reg n (PNamed m) \<Longrightarrow> leads reg n p"
  by (induction rule: leads.induct) (auto intro: leads.intros)

text \<open>A policy that the profile writes as a direct connection.\<close>

fun direct_ref :: "registry \<Rightarrow> policy_ref \<Rightarrow> bool" where
  "direct_ref reg (PBuiltin b) \<longleftrightarrow> \<not> is_reject b"
| "direct_ref reg (PDevice _) \<longleftrightarrow> False"
| "direct_ref reg (PNamed n) \<longleftrightarrow>
     rg_entries reg n = Some (EAlias TDirect) \<or> (\<exists>o'. rg_entries reg n = Some (EOutbound o' False))"

text \<open>Why a resolution of \<open>name\<close> ended as it did, \<open>e\<close> standing in for a group without members.\<close>

definition explained :: "registry \<Rightarrow> empty_group \<Rightarrow> string \<Rightarrow> resolution \<Rightarrow> bool" where
  "explained reg e name res \<longleftrightarrow>
     (case rs_terminal res of
        TkProxy \<Rightarrow> \<exists>n. leads reg name (PNamed n) \<and> rg_entries reg n = Some (EOutbound (rs_outbound res) True)
      | TkDirect \<Rightarrow> (\<exists>p. leads reg name p \<and> direct_ref reg p) \<or>
                    e = EgDirect \<and> rs_note res = Some (NEmptyGroup True)
      | TkReject \<Rightarrow> \<exists>kind. rs_outbound res = rg_rejects reg kind)"

lemma explained_rejected [simp]: "explained reg e name (rejected reg chain n)"
  by (auto simp: explained_def rejected_def resolution_done_def)

lemma with_choice_frame [simp]:
  "rs_terminal (with_choice g c res) = rs_terminal res" "rs_outbound (with_choice g c res) = rs_outbound res"
  "rs_note (with_choice g c res) = rs_note res" "rs_chain (with_choice g c res) = rs_chain res"
  by (simp_all add: with_choice_def Let_def split: option.split)

lemma explained_with_choice [simp]: "explained reg e name (with_choice g c res) = explained reg e name res"
  unfolding explained_def with_choice_frame by (rule refl)

lemma explained_trans:
  "explained reg e m res \<Longrightarrow> leads reg name (PNamed m) \<Longrightarrow> explained reg e name res"
  unfolding explained_def by (auto split: terminal_kind.splits intro: leads_trans)

lemma builtin_kinds: "reject_from_builtin b = None \<longleftrightarrow> \<not> is_reject b"
  by (cases b) simp_all

lemma explained_builtin: "leads reg name (PBuiltin b) \<Longrightarrow> explained reg e name (resolve_builtin reg b chain)"
  using builtin_kinds[of b]
  by (auto simp: explained_def resolve_builtin_def resolution_done_def Let_def split: option.split)

lemma explained_empty: "explained reg e name (resolve_empty reg chain e)"
  by (cases e) (simp_all add: resolve_empty_def explained_def resolution_done_def rejected_def, blast)

lemma named_at_explained:
  assumes "registry_ok reg"
  shows "named_at r reg dl name chain e host live a = Some (res, a') \<Longrightarrow> explained reg e name res"
proof (induction r arbitrary: name chain a res)
  case (Suc r)
  show ?case
  proof (cases "\<exists>spec members factors. rg_entries reg name = Some (EGroup spec members None factors)")
    case False
    then show ?thesis
      using Suc.prems leads.itself[of reg name]
      by (auto simp: Let_def split: option.splits policy_entry.splits terminal.splits if_splits)
        (auto simp: explained_def resolution_done_def)
  next
    case True
    then obtain spec members factors where g: "rg_entries reg name = Some (EGroup spec members None factors)"
      by blast
    obtain c a1 where c: "group_choose reg dl (standing_at r reg dl) name host live a = Some (c, a1)"
      using Suc.prems g by (cases "group_choose reg dl (standing_at r reg dl) name host live a") auto
    show ?thesis
    proof (cases c)
      case None
      then show ?thesis using Suc.prems g c explained_empty by (auto simp: Let_def)
    next
      case (Some ch)
      then have l: "leads reg name (policy_ref_parse (ch_member ch))"
        using group_choose_member[OF c[unfolded Some] assms] leads.through[OF leads.itself g] g by auto
      show ?thesis
      proof (cases "policy_ref_parse (ch_member ch)")
        case (PBuiltin b)
        then show ?thesis using Suc.prems g c Some l explained_builtin by (auto simp: Let_def)
      next
        case (PDevice d)
        then show ?thesis using Suc.prems g c Some by (auto simp: Let_def resolve_device_def)
      next
        case (PNamed n)
        then obtain res1 where "named_at r reg dl n (chain @ [name]) e host live a1 = Some (res1, a')"
          "res = with_choice name ch res1" using Suc.prems g c Some by (auto simp: Let_def)
        then show ?thesis using Suc.IH explained_trans l PNamed by fastforce
      qed
    qed
  qed
qed auto

section \<open>The chain, and the members a \<open>smart\<close> group leaves to try\<close>

lemma leaf_chains:
  "length (rs_chain (rejected reg chain n)) = length chain + 1"
  "length (rs_chain (resolve_builtin reg b chain)) \<le> length chain + 2"
  "length (rs_chain (resolve_device reg d chain)) = length chain + 2"
  "length (rs_chain (resolve_empty reg chain e)) = length chain + 1"
  by (auto simp: rejected_def resolution_done_def resolve_builtin_def resolve_device_def resolve_empty_def Let_def
      split: option.split empty_group.split)

lemma named_at_frame:
  assumes "named_at r reg dl name chain e host live a = Some (res, a')"
  shows "length (rs_chain res) \<le> length chain + r + 3 \<and> dialled a a' \<and> (\<not> live \<longrightarrow> asked a a')"
  using assms
proof (induction r arbitrary: name chain a res)
  case 0
  then show ?case by (auto simp: leaf_chains)
next
  case (Suc r)
  show ?case
  proof (cases "\<exists>spec members factors. rg_entries reg name = Some (EGroup spec members None factors)")
    case False
    then show ?thesis
      using Suc.prems by (auto simp: Let_def leaf_chains resolution_done_def
          split: option.splits policy_entry.splits terminal.splits if_splits)
  next
    case True
    then obtain spec members factors where g: "rg_entries reg name = Some (EGroup spec members None factors)"
      by blast
    obtain c a1 where c: "group_choose reg dl (standing_at r reg dl) name host live a = Some (c, a1)"
      using Suc.prems g by (cases "group_choose reg dl (standing_at r reg dl) name host live a") auto
    have d: "dialled a a1" using group_choose_dialled[OF standing_at_quiet c] .
    have q: "asked a a1" if "\<not> live" using group_choose_asked[OF standing_at_quiet, of reg dl r reg dl] c that by simp
    show ?thesis
    proof (cases "\<exists>ch n. c = Some ch \<and> policy_ref_parse (ch_member ch) = PNamed n")
      case True
      then obtain ch n where n: "c = Some ch" "policy_ref_parse (ch_member ch) = PNamed n" by blast
      then obtain res1 where "named_at r reg dl n (chain @ [name]) e host live a1 = Some (res1, a')"
        "res = with_choice name ch res1" using Suc.prems g c by (auto simp: Let_def)
      then show ?thesis using Suc.IH d q dialled_trans asked_trans by fastforce
    next
      case False
      then have "a' = a1 \<and> length (rs_chain res) \<le> length chain + 3"
        using Suc.prems g c leaf_chains(2)[of reg _ "chain @ [name]"]
        by (auto simp: Let_def leaf_chains numeral_3_eq_3 split: option.splits policy_ref.splits)
      then show ?thesis using d q by auto
    qed
  qed
qed

definition has_outbound :: "registry \<Rightarrow> string \<Rightarrow> bool" where
  "has_outbound reg m = (case rg_entries reg m of Some (EOutbound _ _) \<Rightarrow> True | _ \<Rightarrow> False)"

lemma candidates_all:
  "candidates_of reg dl a mfs = Some cs \<Longrightarrow> map cd_name cs = filter (has_outbound reg) (map fst mfs)"
proof (induction mfs arbitrary: cs)
  case (Cons x mfs)
  from Cons.prems show ?case
  proof (cases rule: candidates_cases)
    case skipped
    then have "\<not> has_outbound reg (fst x)" by (auto simp: has_outbound_def split: option.split policy_entry.split)
    then show ?thesis using Cons.IH skipped by simp
  next
    case (taken h tail o' p)
    then show ?thesis using Cons.IH by (simp add: has_outbound_def)
  qed
qed simp

text \<open>A pick of a \<open>smart\<close> group and the members to try next are its members that have an outbound.\<close>

definition covers_group :: "registry \<Rightarrow> smart_pick \<Rightarrow> bool" where
  "covers_group reg sp \<longleftrightarrow>
     (\<exists>spec members factors. rg_entries reg (sp_group sp) = Some (EGroup spec members None factors) \<and>
        gs_kind spec = GkSmart \<and>
        mset (sp_member sp # sp_retry sp) = mset (filter (has_outbound reg) members))"

lemma group_choose_retry:
  assumes "group_choose reg dl st grp host live a = Some (Some c, a')" "ch_retry c = Some retry"
    "rg_entries reg grp = Some (EGroup spec members None factors)" "registry_ok reg"
  shows "gs_kind spec = GkSmart \<and> mset (ch_member c # retry) = mset (filter (has_outbound reg) members)"
  using assms(1)
proof (cases rule: group_choose_cases)
  case (smart spec' members' cycle factors' a1)
  then have e: "spec' = spec" "members' = members" "factors' = factors" using assms(3) by auto
  have len: "length factors = length members"
    using assms(3,4) smart(2) e(1) unfolding registry_ok_def group_ok_def by blast
  from smart(4) show ?thesis
  proof (cases rule: choose_smart_cases)
    case (ranked cs mem pick_at r)
    then obtain r' where r': "r = Some r'" "ch_member c = rk_pick r'" "retry = rk_retry r'"
      using assms(2) by (cases r) (auto split: if_splits)
    have "map cd_name cs = filter (has_outbound reg) members"
      using candidates_all[OF ranked(1)] len e by simp
    then show ?thesis using rank_names ranked(3) r' smart(2) e(1) by metis
  qed (use assms(2) in \<open>auto simp: choice_plain_def split: list.splits\<close>)
qed (use assms(2) in \<open>auto simp: choose_select_def choose_subnet_def choice_plain_def choose_tested_def Let_def
    split: option.splits if_splits list.splits\<close>)

lemma with_choice_smart:
  "rs_smart (with_choice g c res) =
     (case ch_retry c of
        Some retry \<Rightarrow> Some \<lparr>sp_group = g, sp_member = ch_member c, sp_retry = retry\<rparr>
      | None \<Rightarrow> rs_smart res)"
  by (simp add: with_choice_def Let_def split: option.split)

lemma leaf_smart [simp]:
  "rs_smart (resolution_done chain o' t n) = None" "rs_smart (rejected reg chain n) = None"
  "rs_smart (resolve_builtin reg b chain) = None" "rs_smart (resolve_device reg d chain) = None"
  "rs_smart (resolve_empty reg chain e) = None"
  by (simp_all add: resolution_done_def rejected_def resolve_builtin_def resolve_device_def resolve_empty_def Let_def
      split: option.split empty_group.split)

lemma named_at_covers:
  assumes "registry_ok reg"
  shows "named_at r reg dl name chain e host live a = Some (res, a') \<Longrightarrow> rs_smart res = Some sp \<Longrightarrow>
    covers_group reg sp"
proof (induction r arbitrary: name chain a res)
  case (Suc r)
  show ?case
  proof (cases "\<exists>spec members factors. rg_entries reg name = Some (EGroup spec members None factors)")
    case False
    then show ?thesis
      using Suc.prems by (auto simp: Let_def split: option.splits policy_entry.splits terminal.splits if_splits)
  next
    case True
    then obtain spec members factors where g: "rg_entries reg name = Some (EGroup spec members None factors)"
      by blast
    obtain c a1 where c: "group_choose reg dl (standing_at r reg dl) name host live a = Some (c, a1)"
      using Suc.prems g by (cases "group_choose reg dl (standing_at r reg dl) name host live a") auto
    obtain ch where ch: "c = Some ch" using Suc.prems g c by (cases c) (auto simp: Let_def)
    obtain res1 where res: "res = with_choice name ch res1"
        "rs_smart res1 = None \<or> (\<exists>n. named_at r reg dl n (chain @ [name]) e host live a1 = Some (res1, a'))"
      using Suc.prems g c ch by (auto simp: Let_def split: policy_ref.splits)
    show ?thesis
    proof (cases "ch_retry ch")
      case None
      then have "rs_smart res1 = Some sp" using Suc.prems(2) by (simp add: res(1) with_choice_smart)
      then show ?thesis using res(2) Suc.IH by auto
    next
      case (Some retry)
      then show ?thesis
        using group_choose_retry[OF c[unfolded ch] Some g assms] Suc.prems(2) g
        by (auto simp: res(1) with_choice_smart covers_group_def)
    qed
  qed
qed auto

section \<open>Properties\<close>

text \<open>
  C10. A dial always resolves: whatever the groups hold and however they nest, in cycles too, the
  walk of a policy ends in an outbound without a panic, its chain has at most twenty names, and it
  leaves the results of the tests, the scores and the times of the rounds as they were.
\<close>

theorem resolve_total:
  assumes "registry_ok reg" "books_ok dl a"
  shows "\<exists>res a'. resolve_with reg dl policy host a = Some (res, a') \<and>
    length (rs_chain res) \<le> MAX_DEPTH + 4 \<and> dialled a a'"
proof (cases policy)
  case (PBuiltin b)
  then show ?thesis
    using leaf_chains(2)[of reg b "[]"] by (simp add: resolve_with_def MAX_DEPTH_def)
next
  case (PDevice d)
  then show ?thesis by (simp add: resolve_with_def leaf_chains MAX_DEPTH_def)
next
  case (PNamed n)
  obtain res a' where r: "named_policy reg dl n (rg_empty reg) host True a = Some (res, a')"
    unfolding named_policy_def using named_at_returns[OF assms] by blast
  then show ?thesis
    using named_at_frame[OF r[unfolded named_policy_def]] PNamed by (simp add: resolve_with_def)
qed

text \<open>
  C9. Where a resolution ends is written in the profile: a proxy, or a direct connection, is what the
  members of the groups lead to from the name that was asked for. Only for a group dialled for
  itself can DIRECT stand in, when it has no members and the profile lets it, and that is noted;
  for a relay it never does.
\<close>

theorem resolution_explained:
  assumes "registry_ok reg" "named_policy reg dl name e host live a = Some (res, a')"
  shows "case rs_terminal res of
      TkProxy \<Rightarrow> \<exists>n. leads reg name (PNamed n) \<and> rg_entries reg n = Some (EOutbound (rs_outbound res) True)
    | TkDirect \<Rightarrow> (\<exists>p. leads reg name p \<and> direct_ref reg p) \<or>
                  e = EgDirect \<and> rs_note res = Some (NEmptyGroup True)
    | TkReject \<Rightarrow> \<exists>kind. rs_outbound res = rg_rejects reg kind"
  using named_at_explained[OF assms(1) assms(2)[unfolded named_policy_def]] unfolding explained_def .

text \<open>
  Asking changes nothing: where a relay leads now, and which member a group points at, are found
  without asking for a test and without moving the member \<open>url-test\<close> holds; at most it is noted, once,
  that the member of an override is gone.
\<close>

theorem asking_changes_nothing:
  assumes "relay_now reg dl name a = Some (res, a1)" "current_member reg dl grp a1 = Some (m, a2)"
  shows "asked a a1 \<and> asked a1 a2"
proof -
  have "asked a a1"
    using named_at_frame[of _ reg dl name _ _ _ False] assms(1) unfolding relay_now_def named_policy_def by blast
  moreover have "quiet (\<lambda>m. standing_of reg dl m 1)"
    using standing_at_quiet[of "MAX_DEPTH + 1 - 1" reg dl] by (simp add: standing_of_def[abs_def] quiet_def)
  then have "asked a1 a2" using group_choose_asked assms(2) by (fastforce simp: current_member_def)
  ultimately show ?thesis ..
qed

text \<open>
  C21. When a dial goes through a \<open>smart\<close> group, the member it picked and those it tries next are
  the members of the group that have an outbound, each once.
\<close>

theorem smart_dial_covers:
  assumes "registry_ok reg" "resolve_with reg dl (PNamed name) host a = Some (res, a')" "rs_smart res = Some sp"
  shows "\<exists>spec members factors. rg_entries reg (sp_group sp) = Some (EGroup spec members None factors) \<and>
    gs_kind spec = GkSmart \<and> mset (sp_member sp # sp_retry sp) = mset (filter (has_outbound reg) members)"
proof -
  have "named_at (MAX_DEPTH + 1) reg dl name [] (rg_empty reg) host True a = Some (res, a')"
    using assms(2) unfolding resolve_with_def named_policy_def by (simp only: policy_ref.case)
  then show ?thesis using named_at_covers[OF assms(1) _ assms(3)] unfolding covers_group_def by blast
qed

section \<open>An example\<close>

text \<open>A \<open>select\<close> group over a \<open>smart\<close> group over two proxies, and a relay group without members.\<close>

definition example_group :: "group_kind \<Rightarrow> string \<Rightarrow> group_spec" where
  "example_group kind name =
     \<lparr>gs_name = name, gs_kind = kind, gs_members = [], gs_import = import_opts_default,
      gs_underlying_proxy = None, gs_test = test_opts_default, gs_priority = [], gs_hidden = False,
      gs_subnet = None, gs_span = (''p.conf'', 1)\<rparr>"

definition example_registry :: registry where
  "example_registry =
     \<lparr>rg_entries = map_of
        [(''Proxy'', EGroup (example_group GkSelect ''Proxy'') [''Fast'', ''DIRECT''] None []),
         (''Fast'', EGroup (example_group GkSmart ''Fast'') [''A'', ''B''] None [Fin 1, Fin 1]),
         (''Relay'', EGroup (example_group GkFallback ''Relay'') [] None []),
         (''A'', EOutbound 7 True), (''B'', EOutbound 8 True)],
      rg_order = [''A'', ''B'', ''Proxy'', ''Fast'', ''Relay''], rg_direct = 0,
      rg_rejects = (\<lambda>k. case k of RkReject \<Rightarrow> 1 | RkDrop \<Rightarrow> 2 | RkNoDrop \<Rightarrow> 3 | RkTinyGif \<Rightarrow> 4),
      rg_selections = Map.empty, rg_empty = EgDirect, rg_tests = Map.empty,
      rg_network = network_facts_default, rg_wifi_always_match = False\<rparr>"

definition example_dial :: dial where
  "example_dial = \<lparr>dl_now = 1000, dl_hash = length, dl_draw = (\<lambda>_. 0), dl_exp2 = (\<lambda>_. Fin 1)\<rparr>"

abbreviation example_auto :: auto_groups where
  "example_auto \<equiv> auto_new test_book_new"

lemma example_registry_ok: "registry_ok example_registry"
  by (auto simp: registry_ok_def group_ok_def example_registry_def example_group_def split: if_splits)

lemma example_books_ok: "books_ok example_dial example_auto"
  by (simp add: books_ok_def auto_new_def smart_book_new_def book_health_def test_outcome_def test_book_new_def)

lemma example_parse: "policy_ref_parse ''Fast'' = PNamed ''Fast''" "policy_ref_parse ''A'' = PNamed ''A''"
  by code_simp+

lemma example_candidates:
  "candidates_of example_registry example_dial example_auto [(''A'', Fin 1), (''B'', Fin 1)] =
     Some [\<lparr>cd_name = ''A'', cd_health = Unknown 0, cd_factor = Fin 1\<rparr>, \<lparr>cd_name = ''B'', cd_health = Unknown 0, cd_factor = Fin 1\<rparr>]"
  by (simp add: example_registry_def example_group_def book_health_def auto_new_def smart_book_new_def)

lemma example_rank:
  "rank [\<lparr>cd_name = ''A'', cd_health = Unknown 0, cd_factor = Fin 1\<rparr>, \<lparr>cd_name = ''B'', cd_health = Unknown 0, cd_factor = Fin 1\<rparr>]
    site_memory_default p = Some (Some \<lparr>rk_pick = ''A'', rk_retry = [''B'']\<rparr>)"
  by (simp add: rank_def pick_of_def known_of_def usable_of_def order_of_def line_of_def healthy_of_def unknown_of_def
     failed_of_def named_in_def site_memory_default_def List.map_filter_def insort_key.simps sort_key_def)

lemma example_entries:
  "rg_entries example_registry ''Proxy'' = Some (EGroup (example_group GkSelect ''Proxy'') [''Fast'', ''DIRECT''] None [])"
  "rg_entries example_registry ''Fast'' = Some (EGroup (example_group GkSmart ''Fast'') [''A'', ''B''] None [Fin 1, Fin 1])"
  "rg_entries example_registry ''A'' = Some (EOutbound 7 True)"
  by (simp_all add: example_registry_def)

lemma example_fast:
  "\<exists>a1. group_choose example_registry example_dial st ''Fast'' None True example_auto =
     Some (Some \<lparr>ch_member = ''A'', ch_pending = to_evaluate_before_use test_opts_default, ch_retry = Some [''B'']\<rparr>, a1)"
proof -
  have "override_of ''Fast'' [''A'', ''B''] example_auto = (None, example_auto)" "last_round example_auto ''Fast'' = None"
    by (simp_all add: override_of_def last_round_def auto_new_def)
  then show ?thesis using example_candidates example_rank
    by (simp add: group_choose_def choose_smart_def smart_site_def example_entries example_group_def
        del: candidates_of.simps)
qed

lemma example_smart:
  "\<exists>res a'. resolve_with example_registry example_dial (PNamed ''Proxy'') None example_auto = Some (res, a') \<and>
     rs_smart res = Some \<lparr>sp_group = ''Fast'', sp_member = ''A'', sp_retry = [''B'']\<rparr>"
proof -
  have g1: "group_choose example_registry example_dial st ''Proxy'' None True example_auto =
      Some (Some (choice_plain ''Fast''), example_auto)" for st
    by (simp add: group_choose_def choose_select_def selection_get_def example_entries example_group_def)
      (simp add: example_registry_def)
  obtain d where d: "MAX_DEPTH + 1 = Suc (Suc (Suc d))" by (simp add: MAX_DEPTH_def)
  obtain a1 where g2: "group_choose example_registry example_dial (standing_at (Suc d) example_registry example_dial)
      ''Fast'' None True example_auto =
     Some (Some \<lparr>ch_member = ''A'', ch_pending = to_evaluate_before_use test_opts_default, ch_retry = Some [''B'']\<rparr>, a1)"
    using example_fast by blast
  show ?thesis
    by (simp add: resolve_with_def named_policy_def d g1 g2 example_parse example_entries with_choice_def resolution_done_def
        choice_plain_def Let_def
        del: Suc_eq_plus1 One_nat_def add_Suc_right)
qed

lemma example_relay:
  "\<exists>res a'. named_policy example_registry example_dial ''Relay'' EgReject None True example_auto = Some (res, a')"
  unfolding named_policy_def using named_at_returns[OF example_registry_ok example_books_ok] by blast

theorem resolve_total_witness:
  "registry_ok example_registry \<and> books_ok example_dial example_auto \<and>
   (\<exists>res a'. resolve_with example_registry example_dial (PNamed ''Proxy'') None example_auto = Some (res, a') \<and>
      length (rs_chain res) \<le> MAX_DEPTH + 4 \<and> dialled example_auto a')"
  using resolve_total[OF example_registry_ok example_books_ok, of "PNamed ''Proxy''" None]
    example_registry_ok example_books_ok by simp

theorem resolution_explained_witness:
  "\<exists>res a'. named_policy example_registry example_dial ''Relay'' EgReject None True example_auto = Some (res, a') \<and>
     (case rs_terminal res of
        TkProxy \<Rightarrow> \<exists>n. leads example_registry ''Relay'' (PNamed n) \<and>
                     rg_entries example_registry n = Some (EOutbound (rs_outbound res) True)
      | TkDirect \<Rightarrow> (\<exists>p. leads example_registry ''Relay'' p \<and> direct_ref example_registry p) \<or>
                    EgReject = EgDirect \<and> rs_note res = Some (NEmptyGroup True)
      | TkReject \<Rightarrow> \<exists>kind. rs_outbound res = rg_rejects example_registry kind)"
  using example_relay resolution_explained[OF example_registry_ok] by meson

theorem smart_dial_covers_witness:
  "\<exists>spec members factors. rg_entries example_registry ''Fast'' = Some (EGroup spec members None factors) \<and>
     gs_kind spec = GkSmart \<and> mset [''A'', ''B''] = mset (filter (has_outbound example_registry) members)"
  using example_smart smart_dial_covers[OF example_registry_ok] by fastforce

end
