(* ===== verification/Rurge_Policy_Def_Facts.thy ===== *)
theory Rurge_Policy_Def_Facts
  imports Rurge_Policy_Def
begin

text \<open>
  What \<open>with_params\<close> promises: the line reads as it did alone, the overrides in place. It is shown
  first of the items of the line, then of its fields, then of the policy that is read from them.
\<close>

section \<open>The fields of the new line\<close>

definition override_for :: "(string \<times> string) list \<Rightarrow> string \<Rightarrow> (string \<times> string) option" where
  "override_for overrides key = List.find (\<lambda>(k, _). to_ascii_lowercase k = to_ascii_lowercase key) overrides"

definition override_of_field :: "(string \<times> string) list \<Rightarrow> field \<Rightarrow> (string \<times> string) option" where
  "override_of_field overrides f = Option.bind (f_param f) (\<lambda>(k, _). override_for overrides k)"

abbreviation param_field :: "string \<times> string \<Rightarrow> field" where
  "param_field p \<equiv> \<lparr>f_text = fst p @ ''='' @ snd p, f_param = Some p\<rparr>"

fun over_fields :: "(string \<times> string) list \<Rightarrow> field list \<Rightarrow> nat \<Rightarrow> string set \<Rightarrow> field list \<times> string set" where
  "over_fields overrides [] h w = ([], w)"
| "over_fields overrides (f # fs) (Suc h) w = (let (out, w1) = over_fields overrides fs h w in (f # out, w1))"
| "over_fields overrides (f # fs) 0 w =
     (case override_of_field overrides f of
        Some p \<Rightarrow>
          (let (out, w1) = over_fields overrides fs 0 (insert (to_ascii_lowercase (fst p)) w)
           in (if to_ascii_lowercase (fst p) \<in> w then out else param_field p # out, w1))
      | None \<Rightarrow> (let (out, w1) = over_fields overrides fs 0 w in (f # out, w1)))"

fun add_fields :: "(string \<times> string) list \<Rightarrow> string set \<Rightarrow> field list" where
  "add_fields [] w = []"
| "add_fields (p # ps) w =
     (if to_ascii_lowercase (fst p) \<in> w then add_fields ps w
      else param_field p # add_fields ps (insert (to_ascii_lowercase (fst p)) w))"

lemma lower_lower [simp]: "to_ascii_lowercase (to_ascii_lowercase s) = to_ascii_lowercase s"
  by (auto simp: to_ascii_lowercase_def to_ascii_lowercase_char_def is_ascii_upper_def code_def)

lemma map_filter_Cons:
  "List.map_filter f (x # xs) = (case f x of None \<Rightarrow> List.map_filter f xs | Some y \<Rightarrow> y # List.map_filter f xs)"
  by (simp add: List.map_filter_def split: option.split)

lemma map_filter_append: "List.map_filter f (xs @ ys) = List.map_filter f xs @ List.map_filter f ys"
  by (simp add: List.map_filter_def)

lemma lead_blank: "list_all is_whitespace (take (length x - length (trim_start x)) x)"
proof -
  have "x = takeWhile is_whitespace x @ trim_start x" by (simp add: trim_start_def)
  then have "take (length x - length (trim_start x)) x = takeWhile is_whitespace x"
    by (metis add_diff_cancel_right' append_eq_conv_conj length_append)
  then show ?thesis by (auto simp: list_all_iff dest: set_takeWhileD)
qed

lemma override_for_mem: "override_for overrides key = Some p \<Longrightarrow> p \<in> set overrides \<and> to_ascii_lowercase (fst p) = to_ascii_lowercase key"
  by (induction overrides) (auto simp: override_for_def split: if_splits)

abbreviation keys_ok :: "(string \<times> string) list \<Rightarrow> bool" where
  "keys_ok overrides \<equiv> list_all (\<lambda>(k, _). key_name k) overrides"

text \<open>One step of the loop: the item is written anew, dropped, or kept.\<close>

lemma with_loop_Cons:
  assumes "one_item x" "keys_ok overrides"
  obtains (put) p lead out w1 t where "override_of_field overrides (the (read_item x)) = Some p" "read_item x \<noteq> None"
      "h = 0" "p \<in> set overrides" "list_all is_whitespace lead"
      "with_loop overrides xs 0 (insert (to_ascii_lowercase (fst p)) w) = (out, w1, t)"
      "with_loop overrides (x # xs) h w =
         (if to_ascii_lowercase (fst p) \<in> w then out else written_item lead (fst p) (snd p) # out, w1, t)"
  | (keep) out w1 t where
      "read_item x = None \<or> 0 < h \<or> override_of_field overrides (the (read_item x)) = None"
      "with_loop overrides xs (if read_item x = None then h else h - 1) w = (out, w1, t)"
      "with_loop overrides (x # xs) h w = (x # out, w1, if xs = [] then leaves_open x else t)"
proof -
  have f: "split_fields x = (case read_item x of None \<Rightarrow> [] | Some f \<Rightarrow> [f])" by (rule one_item_fields[OF assms(1)])
  have o: "Option.bind (map_option (\<lambda>(k, _). to_ascii_lowercase k) (f_param f))
      (\<lambda>k. List.find (\<lambda>(o', _). eq_ignore_ascii_case o' k) overrides) = override_of_field overrides f" for f
    by (cases "f_param f") (auto simp: override_of_field_def override_for_def eq_ignore_ascii_case_def)
  show thesis
  proof (cases "read_item x = None \<or> 0 < h \<or> override_of_field overrides (the (read_item x)) = None")
    case True
    obtain out w1 t where r: "with_loop overrides xs (if read_item x = None then h else h - 1) w = (out, w1, t)"
      using prod_cases3 by blast
    have "with_loop overrides (x # xs) h w = (x # out, w1, if xs = [] then leaves_open x else t)"
      using True r by (cases "read_item x") (auto simp: f o)
    then show thesis using keep True r by blast
  next
    case False
    then obtain g p where g: "read_item x = Some g" "h = 0" "override_of_field overrides g = Some p" by auto
    obtain out w1 t where r: "with_loop overrides xs 0 (insert (to_ascii_lowercase (fst p)) w) = (out, w1, t)"
      using prod_cases3 by blast
    have "p \<in> set overrides"
      using g(3) override_for_mem[of overrides _ p] by (auto simp: override_of_field_def bind_eq_Some_conv)
    moreover have "with_loop overrides (x # xs) h w =
       (if to_ascii_lowercase (fst p) \<in> w then out
        else written_item (take (length x - length (trim_start x)) x) (fst p) (snd p) # out, w1, t)"
      using g r by (cases p) (simp add: f o written_item_def)
    ultimately show thesis using g r
      by (intro put[of p "take (length x - length (trim_start x)) x" out w1 t] lead_blank) (simp_all del: with_loop.simps)
  qed
qed

declare with_loop.simps(2) [simp del]

lemma with_loop_fields:
  "list_all one_item xs \<Longrightarrow> keys_ok overrides \<Longrightarrow> with_loop overrides xs h w = (out, w1, t) \<Longrightarrow>
     over_fields overrides (List.map_filter read_item xs) h w = (List.map_filter read_item out, w1)"
proof (induction xs arbitrary: h w out w1 t)
  case Nil
  then show ?case by (simp add: List.map_filter_def)
next
  case (Cons x xs)
  have x: "one_item x" "list_all one_item xs" using Cons.prems(1) by simp_all
  from x(1) Cons.prems(2) show ?case
  proof (cases rule: with_loop_Cons[where h = h and w = w and xs = xs])
    case (put p lead out' w1' t')
    then obtain g where g: "read_item x = Some g" by auto
    have IH: "over_fields overrides (List.map_filter read_item xs) 0 (insert (to_ascii_lowercase (fst p)) w) =
        (List.map_filter read_item out', w1')"
      using Cons.IH[OF x(2) Cons.prems(2) put(6)] .
    have "key_name (fst p)" using put(4) Cons.prems(2) by (auto simp: list_all_iff)
    then have "read_item (written_item lead (fst p) (snd p)) = Some (param_field p)"
      using written_read put(5) by simp
    then show ?thesis using put IH g Cons.prems(3) by (auto simp: map_filter_Cons)
  next
    case (keep out' w1' t')
    have IH: "over_fields overrides (List.map_filter read_item xs) (if read_item x = None then h else h - 1) w =
        (List.map_filter read_item out', w1')"
      using Cons.IH[OF x(2) Cons.prems(2) keep(2)] .
    show ?thesis
    proof (cases "read_item x")
      case None
      then show ?thesis using keep IH Cons.prems(3) by (auto simp: map_filter_Cons)
    next
      case (Some g)
      then show ?thesis using keep IH Cons.prems(3) by (cases h) (auto simp: map_filter_Cons)
    qed
  qed
qed

lemma appended_fields:
  "keys_ok overrides \<Longrightarrow> List.map_filter read_item (appended overrides w) = add_fields overrides w"
proof (induction overrides w rule: appended.induct)
  case (2 k v overrides w)
  have "read_item (written_item '' '' k v) = Some (param_field (k, v))"
    using 2 by (simp add: written_read is_whitespace_def code_def)
  then show ?case using 2 by (simp add: map_filter_Cons written_item_def)
qed (simp add: List.map_filter_def)

lemma appended_neutral: "keys_ok overrides \<Longrightarrow> list_all neutral (appended overrides w)"
proof (induction overrides w rule: appended.induct)
  case (2 k v overrides w)
  have "neutral (written_item '' '' k v)" using 2 by (simp add: written_neutral is_whitespace_def code_def)
  then show ?case using 2 by (simp add: written_item_def)
qed simp

text \<open>The new items stay apart, and only the last can be open.\<close>

lemma apart_neutral: "neutral x \<Longrightarrow> apart x y" "neutral y \<Longrightarrow> apart x y"
  by (simp_all add: apart_def neutral_def)

lemma sorted_apart: "\<forall>y\<in>set ys. neutral y \<Longrightarrow> sorted_wrt apart ys"
  by (induction ys) (auto simp: apart_neutral(1))

definition tail_ok :: "string list \<Rightarrow> bool \<Rightarrow> bool" where
  "tail_ok out t \<longleftrightarrow> (if t then out \<noteq> [] \<and> list_all closed_item (butlast out) \<and> \<not> closed_item (last out)
                      else list_all closed_item out)"

lemma tail_open: "tail_ok out t \<Longrightarrow> t \<Longrightarrow> \<not> closed_item (last out)"
  by (simp add: tail_ok_def)

lemma tail_ok_Cons: "closed_item x \<Longrightarrow> tail_ok out t \<Longrightarrow> tail_ok (x # out) t"
  by (auto simp: tail_ok_def)

lemma with_loop_items:
  "list_all one_item xs \<Longrightarrow> list_all closed_item (butlast xs) \<Longrightarrow> sorted_wrt apart xs \<Longrightarrow> keys_ok overrides \<Longrightarrow>
     with_loop overrides xs h w = (out, w1, t) \<Longrightarrow>
     tail_ok out t \<and> sorted_wrt apart out \<and> (\<forall>y\<in>set out. y \<in> set xs \<or> neutral y) \<and>
     (t \<longrightarrow> last out = last xs)"
proof (induction xs arbitrary: h w out w1 t)
  case Nil
  then show ?case by (simp add: tail_ok_def)
next
  case (Cons x xs)
  have x: "one_item x" "list_all one_item xs" "list_all closed_item (butlast xs)" "sorted_wrt apart xs"
    using Cons.prems by (auto split: if_splits)
  from x(1) Cons.prems(4) show ?case
  proof (cases rule: with_loop_Cons[where h = h and w = w and xs = xs])
    case (put p lead out' w1' t')
    note IH = Cons.IH[OF x(2-4) Cons.prems(4) put(6)]
    have "key_name (fst p)" using put(4) Cons.prems(4) by (auto simp: list_all_iff)
    then have n: "neutral (written_item lead (fst p) (snd p))" using put(5) by (rule written_neutral)
    have t: "t' \<longrightarrow> xs \<noteq> []" using put(6) by (cases xs) auto
    have o: "out = (if to_ascii_lowercase (fst p) \<in> w then out' else written_item lead (fst p) (snd p) # out')" "t = t'"
      using put(7) Cons.prems(5) by simp_all
    have "tail_ok out t" using IH o tail_ok_Cons[of _ out' t'] n by (auto simp: neutral_def)
    moreover have "t \<longrightarrow> last out = last (x # xs)" using IH t o by (auto simp: tail_ok_def)
    moreover have "sorted_wrt apart out" using IH o apart_neutral(1)[OF n] by simp
    moreover have "\<forall>y\<in>set out. y \<in> set (x # xs) \<or> neutral y" using IH o n by auto
    ultimately show ?thesis by blast
  next
    case (keep out' w1' t')
    note IH = Cons.IH[OF x(2-4) Cons.prems(4) keep(2)]
    have o: "out = x # out'" "t = (if xs = [] then leaves_open x else t')" using keep(3) Cons.prems(5) by simp_all
    have a: "\<forall>y\<in>set out'. apart x y" using IH Cons.prems(3) apart_neutral by fastforce
    show ?thesis
    proof (cases "xs = []")
      case True
      then have "out' = []" "t' = False" using keep(2) by simp_all
      then show ?thesis using True o leaves_open_iff[OF x(1)] by (auto simp: tail_ok_def)
    next
      case False
      then have "closed_item x" using Cons.prems(2) by simp
      then show ?thesis using IH o a False tail_ok_Cons[of x out' t'] by (auto simp: tail_ok_def)
    qed
  qed
qed

lemma with_loop_nonempty:
  assumes "xs \<noteq> []" "list_all one_item xs" "keys_ok overrides" "with_loop overrides xs h {} = (out, w1, t)"
  shows "out \<noteq> []"
proof -
  obtain x ys where xs: "xs = x # ys" "one_item x" using assms(1,2) by (cases xs) auto
  show ?thesis
    using xs(2) assms(3) by (cases rule: with_loop_Cons[where h = h and w = "{}" and xs = ys]) (use assms(4) xs(1) in auto)
qed

lemma splice_end:
  "out \<noteq> [] \<Longrightarrow> take (length out - (if t then 1 else 0)) out @ app @ drop (length out - (if t then 1 else 0)) out =
     (if t then butlast out @ app @ [last out] else out @ app)"
  by (cases out rule: rev_cases) auto

lemma last_read:
  "out \<noteq> [] \<Longrightarrow> read_item (last out) = Some g \<Longrightarrow>
     List.map_filter read_item out = List.map_filter read_item (butlast out) @ [g]"
  by (cases out rule: rev_cases) (simp_all add: map_filter_append map_filter_Cons)

lemma with_params_fields:
  assumes "keys_ok overrides"
  obtains fs w1 t where "over_fields overrides (split_fields def) (head_fields (split_items def)) {} = (fs, w1)"
    "split_fields (with_params def overrides) =
       (if t then butlast fs @ add_fields overrides w1 @ [last fs] else fs @ add_fields overrides w1)"
    "t \<Longrightarrow> fs \<noteq> [] \<and> (CHR 0x22 \<in> set (f_text (last fs)) \<or> CHR 0x27 \<in> set (f_text (last fs)))"
proof -
  let ?xs = "split_items def"
  have xs: "?xs \<noteq> []" "list_all one_item ?xs" "list_all closed_item (butlast ?xs)" "sorted_wrt apart ?xs"
    using split_items_ok[of def] by (simp_all add: items_ok_def)
  obtain out w1 t where r: "with_loop overrides ?xs (head_fields ?xs) {} = (out, w1, t)" using prod_cases3 by blast
  let ?app = "appended overrides w1"
  let ?F = "if t then butlast out @ ?app @ [last out] else out @ ?app"
  note f = with_loop_fields[OF xs(2) assms r]
  note i = with_loop_items[OF xs(2-4) assms r]
  have ne: "out \<noteq> []" by (rule with_loop_nonempty[OF xs(1,2) assms r])
  have app: "\<forall>y\<in>set ?app. neutral y" using appended_neutral[OF assms] by (simp add: list_all_iff)
  have one: "\<forall>y\<in>set out. one_item y" using i xs(2) by (auto simp: list_all_iff neutral_def)
  have lastin: "last out \<in> set out" "set (butlast out) \<subseteq> set out" using ne by (auto dest: in_set_butlastD)
  have sorted: "sorted_wrt apart (butlast out @ [last out])" using i ne by simp
  have "list_all one_item ?F" using one app lastin by (auto simp: list_all_iff neutral_def)
  moreover have "list_all closed_item (butlast ?F)"
  proof (cases t)
    case True
    then have "?F = (butlast out @ ?app) @ [last out]" by simp
    then have "butlast ?F = butlast out @ ?app" by (metis butlast_snoc)
    then show ?thesis using i app True by (simp add: tail_ok_def list_all_iff neutral_def ball_Un)
  next
    case False
    then have "list_all closed_item ?F" using i app by (auto simp: tail_ok_def list_all_iff neutral_def)
    then show ?thesis unfolding list_all_iff by (meson in_set_butlastD)
  qed
  moreover have "sorted_wrt apart ?app" using app by (rule sorted_apart)
  then have "sorted_wrt apart ?F"
    using i sorted app apart_neutral by (auto simp: sorted_wrt_append)
  ultimately have F: "items_ok ?F" using ne by (auto simp: items_ok_def)
  have w: "with_params def overrides = joined ?F"
    using r splice_end[OF ne, of t ?app] by (simp add: with_params_def Let_def)
  have s: "split_fields (with_params def overrides) = List.map_filter read_item ?F" unfolding w by (rule items_read(2)[OF F])
  have q: "\<exists>g. List.map_filter read_item out = List.map_filter read_item (butlast out) @ [g] \<and>
      (CHR 0x22 \<in> set (f_text g) \<or> CHR 0x27 \<in> set (f_text g)) \<and> read_item (last out) = Some g" if t
  proof -
    have "\<not> closed_item (last out)" using i tail_open that by blast
    then obtain g where g: "read_item (last out) = Some g" "CHR 0x22 \<in> set (f_text g) \<or> CHR 0x27 \<in> set (f_text g)"
      using open_item_read by metis
    then show ?thesis using last_read[OF ne g(1)] by blast
  qed
  show thesis
  proof (rule that[of "List.map_filter read_item out" w1 t])
    show "over_fields overrides (split_fields def) (head_fields ?xs) {} = (List.map_filter read_item out, w1)"
      using f by (simp add: split_fields_items)
    show "split_fields (with_params def overrides) =
       (if t then butlast (List.map_filter read_item out) @ add_fields overrides w1 @ [last (List.map_filter read_item out)]
        else List.map_filter read_item out @ add_fields overrides w1)"
      using q by (cases t) (auto simp: s map_filter_append map_filter_Cons appended_fields[OF assms])
  next
    assume t
    then show "List.map_filter read_item out \<noteq> [] \<and> (CHR 0x22 \<in> set (f_text (last (List.map_filter read_item out))) \<or>
        CHR 0x27 \<in> set (f_text (last (List.map_filter read_item out))))"
      using q by auto
  qed
qed

section \<open>What the parser reads from the fields\<close>

definition head_of :: "field list \<Rightarrow> nat" where
  "head_of fs =
     (case fs of [] \<Rightarrow> 1
      | f # _ \<Rightarrow> (case policy_kind_parse (f_text f) of None \<Rightarrow> 1 | Some kind \<Rightarrow> if takes_server kind then 3 else 1))"

lemma head_fields_of:
  "list_all one_item xs \<Longrightarrow> head_fields xs = head_of (List.map_filter read_item xs)"
proof (induction xs)
  case (Cons x xs)
  then have "split_list x = (case read_item x of None \<Rightarrow> [] | Some f \<Rightarrow> [f_text f])"
    using one_item_fields[of x] by (simp add: split_list_def split: option.split)
  then show ?case using Cons
    by (cases "read_item x") (auto simp: head_fields_def head_of_def map_filter_Cons)
qed (simp add: head_fields_def head_of_def List.map_filter_def)

text \<open>The values under a key, and the fields that have none.\<close>

definition values_of :: "field list \<Rightarrow> string \<Rightarrow> string list" where
  "values_of fs key =
     List.map_filter (\<lambda>f. Option.bind (f_param f)
       (\<lambda>(k, v). if to_ascii_lowercase (trim k) = to_ascii_lowercase key then Some v else None)) fs"

definition plain_of :: "field list \<Rightarrow> string list" where
  "plain_of fs = map f_text (filter (\<lambda>f. f_param f = None) fs)"

lemma values_of_simps [simp]:
  "values_of [] key = []"
  "values_of (f # fs) key =
     (case f_param f of None \<Rightarrow> values_of fs key
      | Some (k, v) \<Rightarrow> (if to_ascii_lowercase (trim k) = to_ascii_lowercase key then [v] else []) @ values_of fs key)"
  "values_of (fs @ gs) key = values_of fs key @ values_of gs key"
  by (auto simp: values_of_def map_filter_Cons map_filter_append List.map_filter_def split: option.split)

lemma from_fields_parts:
  "fold field_step fs acc =
     (fst acc @ List.map_filter (\<lambda>f. map_option (\<lambda>(k, v). (to_ascii_lowercase (trim k), v)) (f_param f)) fs,
      snd acc @ plain_of fs)"
proof (induction fs arbitrary: acc)
  case (Cons f fs)
  then show ?case
    by (cases "f_param f") (auto simp: field_step_def param_insert_def map_filter_Cons plain_of_def)
qed (simp add: List.map_filter_def plain_of_def)

lemma from_fields_plain: "snd (from_fields fs) = plain_of fs"
  by (simp add: from_fields_def from_fields_parts)

lemma from_fields_values: "param_get_all (fst (from_fields fs)) key = values_of fs key"
proof (induction fs)
  case (Cons f fs)
  then show ?case
    by (cases "f_param f")
      (auto simp: from_fields_def from_fields_parts param_get_all_def map_filter_Cons field_step_def param_insert_def)
qed (simp add: from_fields_def from_fields_parts param_get_all_def List.map_filter_def)

text \<open>A key that was read has no blanks around it.\<close>

lemma dropWhile_idem: "dropWhile P (dropWhile P s) = dropWhile P s"
  by (simp add: dropWhile_eq_self_iff hd_dropWhile)

lemma trim_trim [simp]: "trim (trim s) = trim s"
proof (cases "trim s = []")
  case False
  let ?d = "dropWhile is_whitespace s"
  have t: "rev (trim s) = dropWhile is_whitespace (rev ?d)"
    by (simp add: trim_def trim_start_def trim_end_def drop_end_while_def)
  have "suffix (rev (trim s)) (rev ?d)" unfolding t by (rule suffix_dropWhile)
  then obtain zs where "?d = trim s @ zs" by (auto simp: suffix_to_prefix prefix_def simp del: dropWhile_eq_Nil_conv)
  then have "hd (trim s) = hd ?d" "?d \<noteq> []" using False by (simp_all del: dropWhile_eq_Nil_conv)
  moreover have "\<not> is_whitespace (last (trim s))"
    using t False by (metis hd_dropWhile hd_rev rev_is_Nil_conv)
  ultimately show ?thesis by (intro trim_id) (metis hd_dropWhile)
next
  case True
  then show ?thesis using trim_id[of "[]"] by simp
qed

definition trimmed_key :: "field \<Rightarrow> bool" where
  "trimmed_key f \<longleftrightarrow> (\<forall>k v. f_param f = Some (k, v) \<longrightarrow> trim k = k)"

lemma read_trimmed: "read_field x e = Some f \<Longrightarrow> trimmed_key f"
  by (auto simp: read_field_def trimmed_key_def Let_def split: if_splits option.splits)

lemma split_trimmed: "list_all trimmed_key (split_fields def)"
  by (auto simp: split_fields_def List.map_filter_def list_all_iff intro: read_trimmed)

lemma key_name_trim: "key_name k \<Longrightarrow> trim k = k"
  using key_char unfolding key_name_def list_all_iff by (intro trim_id) (metis hd_in_set last_in_set)

section \<open>What the overrides do to the parameters\<close>

lemma override_for_simps [simp]:
  "override_for [] key = None"
  "override_for (p # ps) key = (if to_ascii_lowercase (fst p) = to_ascii_lowercase key then Some p else override_for ps key)"
  by (auto simp: override_for_def)

lemma override_for_cong: "to_ascii_lowercase j = to_ascii_lowercase k \<Longrightarrow> override_for overrides j = override_for overrides k"
  by (simp add: override_for_def)

lemma override_named:
  assumes "override_for overrides key = Some p" "keys_ok overrides"
  shows "to_ascii_lowercase (fst p) = to_ascii_lowercase key" "trim (fst p) = fst p"
  using override_for_mem[OF assms(1)] assms(2) key_name_trim by (auto simp: list_all_iff)

lemma over_grows: "over_fields overrides fs 0 w = (out, w1) \<Longrightarrow> w \<subseteq> w1"
proof (induction fs arbitrary: w out w1)
  case (Cons f fs)
  then show ?case by (force split: option.splits prod.splits)
qed simp

lemma over_plain: "over_fields overrides fs 0 w = (out, w1) \<Longrightarrow> plain_of out = plain_of fs"
proof (induction fs arbitrary: w out w1)
  case (Cons f fs)
  then show ?case
    by (cases "override_of_field overrides f"; cases "f_param f")
      (auto simp: plain_of_def override_of_field_def split: prod.splits if_splits)
qed simp

text \<open>A key without an override keeps its values; one with an override has its value, once.\<close>

lemma over_values:
  "over_fields overrides fs 0 w = (out, w1) \<Longrightarrow> list_all trimmed_key fs \<Longrightarrow> keys_ok overrides \<Longrightarrow>
     values_of out key =
       (case override_for overrides key of
          None \<Rightarrow> values_of fs key
        | Some (_, v) \<Rightarrow> if to_ascii_lowercase key \<notin> w \<and> to_ascii_lowercase key \<in> w1 then [v] else [])"
proof (induction fs arbitrary: w out w1)
  case Nil
  then show ?case by (auto split: option.split)
next
  case (Cons f fs)
  have fs: "trimmed_key f" "list_all trimmed_key fs" using Cons.prems(2) by simp_all
  show ?case
  proof (cases "override_of_field overrides f")
    case None
    then obtain out' where o: "out = f # out'" "over_fields overrides fs 0 w = (out', w1)"
      using Cons.prems(1) by (auto split: prod.splits)
    note IH = Cons.IH[OF o(2) fs(2) Cons.prems(3)]
    have "values_of [f] key = []" if "override_for overrides key \<noteq> None"
    proof (cases "f_param f")
      case (Some kv)
      then have "override_for overrides (fst kv) = None" "trim (fst kv) = fst kv"
        using None fs(1) by (auto simp: override_of_field_def trimmed_key_def split: prod.splits)
      then have "to_ascii_lowercase (trim (fst kv)) \<noteq> to_ascii_lowercase key"
        using that override_for_cong[of "fst kv" key overrides] by auto
      then show ?thesis using Some by (auto split: prod.splits)
    qed simp
    moreover have "values_of out key = values_of [f] key @ values_of out' key"
      "values_of (f # fs) key = values_of [f] key @ values_of fs key"
      unfolding o(1) values_of_simps(3)[symmetric] by simp_all
    ultimately show ?thesis using IH by (auto split: option.splits)
  next
    case (Some p)
    then obtain k v where f: "f_param f = Some (k, v)" "override_for overrides k = Some p"
      by (auto simp: override_of_field_def bind_eq_Some_conv)
    note p = override_named[OF f(2) Cons.prems(3)]
    let ?K = "to_ascii_lowercase (fst p)"
    obtain out' where o: "over_fields overrides fs 0 (insert ?K w) = (out', w1)"
        "out = (if ?K \<in> w then out' else param_field p # out')"
      using Cons.prems(1) Some by (auto split: prod.splits)
    note IH = Cons.IH[OF o(1) fs(2) Cons.prems(3)]
    have k: "trim k = k" using fs(1) f(1) by (simp add: trimmed_key_def)
    have K: "?K \<in> w1" using over_grows[OF o(1)] by simp
    show ?thesis
    proof (cases "?K = to_ascii_lowercase key")
      case True
      then have "override_for overrides key = Some p" using f(2) p(1) override_for_cong[of k key overrides] by simp
      then show ?thesis using IH o(2) K True p(2) by (cases p) simp
    next
      case False
      then show ?thesis using IH o(2) f(1) k p by (cases p) (auto split: option.splits)
    qed
  qed
qed

lemma add_values:
  "keys_ok overrides \<Longrightarrow>
     values_of (add_fields overrides w) key =
       (case override_for overrides key of
          None \<Rightarrow> []
        | Some (_, v) \<Rightarrow> if to_ascii_lowercase key \<in> w then [] else [v])"
proof (induction overrides w rule: add_fields.induct)
  case (2 p ps w)
  have "trim (fst p) = fst p" using 2 by (cases p) (simp add: key_name_trim)
  then show ?case using 2 by (cases p) (auto split: option.splits)
qed simp

lemma add_plain: "plain_of (add_fields overrides w) = []"
  by (induction overrides w rule: add_fields.induct) (auto simp: plain_of_def)

section \<open>The policy that is read\<close>

definition quoteless :: "string \<Rightarrow> bool" where
  "quoteless s \<longleftrightarrow> CHR 0x22 \<notin> set s \<and> CHR 0x27 \<notin> set s"

lemma digits_value_quoteless: "digits_value acc cs = Some n \<Longrightarrow> quoteless cs"
  by (induction acc cs rule: digits_value.induct)
    (auto simp: quoteless_def is_ascii_digit_def code_def split: if_splits)

lemma parse_u16_quoteless: "parse_u16 s = Some p \<Longrightarrow> quoteless s"
  by (cases s)
    (auto simp: parse_u16_def parse_uint_def Let_def quoteless_def is_ascii_digit_def code_def
      split: if_splits option.splits dest!: digits_value_quoteless)

lemma find_mem: "List.find P xs = Some x \<Longrightarrow> x \<in> set xs \<and> P x"
  by (induction xs) (auto split: if_splits)

lemma POLICY_KEYWORDS_quoteless: "list_all (\<lambda>(k, _). quoteless k) POLICY_KEYWORDS"
  by (simp add: POLICY_KEYWORDS_def quoteless_def)

lemma policy_kind_quoteless:
  assumes "policy_kind_parse s = Some kind"
  shows "quoteless s"
proof -
  obtain k where k: "(k, kind) \<in> set POLICY_KEYWORDS" "k = to_ascii_lowercase (trim s)"
    using assms by (auto simp: policy_kind_parse_def dest!: find_mem)
  then have "quoteless (to_ascii_lowercase (trim s))" using POLICY_KEYWORDS_quoteless by (auto simp: list_all_iff)
  moreover obtain lead trail where "s = lead @ trim s @ trail" "list_all is_whitespace (lead @ trail)"
    using trim_parts by blast
  moreover have "c \<in> set (to_ascii_lowercase (trim s))" if "c \<in> set (trim s)" "c = CHR 0x22 \<or> c = CHR 0x27" for c
    using that by (force simp: to_ascii_lowercase_def to_ascii_lowercase_char_def is_ascii_upper_def code_def)
  ultimately show ?thesis
    unfolding quoteless_def list_all_iff using whitespace_plain by (metis Un_iff insertCI set_append)
qed

lemma over_fields_head:
  "over_fields overrides (heads @ rest) (length heads) w =
     (let (out, w1) = over_fields overrides rest 0 w in (heads @ out, w1))"
  by (induction heads) (auto simp: Let_def split: prod.splits)

text \<open>The reading depends on the first fields and on the rest apart.\<close>

lemma parse_policy_heads:
  assumes "parse_policy name def span = Inr p"
  obtains heads rest where "split_fields def = heads @ rest" "heads \<noteq> []"
    "length heads = head_of (split_fields def)" "quoteless (f_text (last heads))"
    "pp_positional p = snd (from_fields rest)" "pp_params p = fst (from_fields rest)"
    "\<And>d rest'. split_fields d = heads @ rest' \<Longrightarrow>
       parse_policy name d span = Inr (p\<lparr>pp_positional := snd (from_fields rest'),
         pp_params := fst (from_fields rest'), pp_definition := trim d\<rparr>)"
proof -
  obtain f fs kind where f: "split_fields def = f # fs" "policy_kind_parse (f_text f) = Some kind"
    using assms by (auto simp: parse_policy_def split: list.splits option.splits)
  show thesis
  proof (cases "takes_server kind")
    case True
    then obtain server port rest n where r: "fs = server # port # rest" "parse_u16 (f_text port) = Some n"
      using assms f by (auto simp: parse_policy_def server_and_port_def map_sum_def split: list.splits option.splits)
    show thesis
      using assms f r True parse_u16_quoteless[OF r(2)]
      by (intro that[of "[f, server, port]" rest]) (auto simp: parse_policy_def server_and_port_def head_of_def)
  next
    case False
    show thesis
      using assms f False policy_kind_quoteless[OF f(2)]
      by (intro that[of "[f]" fs]) (auto simp: parse_policy_def server_and_port_def head_of_def)
  qed
qed

text \<open>Where the overrides are put does not matter to what is read.\<close>

lemma placed_reads:
  assumes "over_fields overrides rest 0 {} = (pre @ post, w1)" "list_all trimmed_key rest" "keys_ok overrides"
  defines "F \<equiv> pre @ add_fields overrides w1 @ post"
  shows "snd (from_fields F) = snd (from_fields rest)"
    "param_get_all (fst (from_fields F)) key =
       (case override_for overrides key of Some (_, v) \<Rightarrow> [v] | None \<Rightarrow> param_get_all (fst (from_fields rest)) key)"
proof -
  show "snd (from_fields F) = snd (from_fields rest)"
    using over_plain[OF assms(1)] add_plain[of overrides w1] by (simp add: F_def from_fields_plain plain_of_def)
  show "param_get_all (fst (from_fields F)) key =
       (case override_for overrides key of Some (_, v) \<Rightarrow> [v] | None \<Rightarrow> param_get_all (fst (from_fields rest)) key)"
    using over_values[OF assms(1-3), of key] add_values[OF assms(3), of w1 key]
    by (auto simp: F_def from_fields_values split: option.splits if_splits)
qed

text \<open>
  C15. A line with parameters put in place reads as it did: the same policy, of the same kind, server and
  port, with the same positional fields; under a key that has an override its value alone, under any
  other key the values it had.
\<close>

theorem with_params_reads:
  assumes "parse_policy name def span = Inr p" "list_all (\<lambda>(k, _). key_name k) overrides"
  shows "\<exists>params. parse_policy name (with_params def overrides) span =
       Inr (p\<lparr>pp_params := params, pp_definition := trim (with_params def overrides)\<rparr>) \<and>
     (\<forall>key. param_get_all params key =
        (case override_for overrides key of Some (_, v) \<Rightarrow> [v] | None \<Rightarrow> param_get_all (pp_params p) key))"
proof -
  obtain heads rest where h: "split_fields def = heads @ rest" "heads \<noteq> []"
    "length heads = head_of (split_fields def)" "quoteless (f_text (last heads))"
    "pp_positional p = snd (from_fields rest)" "pp_params p = fst (from_fields rest)"
    "\<And>d rest'. split_fields d = heads @ rest' \<Longrightarrow>
       parse_policy name d span = Inr (p\<lparr>pp_positional := snd (from_fields rest'),
         pp_params := fst (from_fields rest'), pp_definition := trim d\<rparr>)"
    using parse_policy_heads[OF assms(1)] by blast
  obtain fs w1 t where w: "over_fields overrides (split_fields def) (head_fields (split_items def)) {} = (fs, w1)"
    "split_fields (with_params def overrides) =
       (if t then butlast fs @ add_fields overrides w1 @ [last fs] else fs @ add_fields overrides w1)"
    "t \<Longrightarrow> fs \<noteq> [] \<and> (CHR 0x22 \<in> set (f_text (last fs)) \<or> CHR 0x27 \<in> set (f_text (last fs)))"
    using with_params_fields[OF assms(2)] by blast
  have "head_fields (split_items def) = length heads"
    using head_fields_of[of "split_items def"] split_items_ok[of def] h(3) by (simp add: items_ok_def split_fields_items)
  then obtain out where o: "over_fields overrides rest 0 {} = (out, w1)" "fs = heads @ out"
    using w(1) h(1) over_fields_head[of overrides heads rest "{}"] by (auto split: prod.splits)
  have "t \<Longrightarrow> out \<noteq> []" using w(3) h(2,4) o(2) by (auto simp: quoteless_def)
  then obtain pre post where p: "out = pre @ post"
      "split_fields (with_params def overrides) = heads @ pre @ add_fields overrides w1 @ post"
    using w(2) o(2) that[of "butlast out" "[last out]"] that[of out "[]"] by (cases t) (auto simp: butlast_append)
  have r: "over_fields overrides rest 0 {} = (pre @ post, w1)" "list_all trimmed_key rest"
    using o(1) p(1) h(1) split_trimmed[of def] by simp_all
  let ?F = "pre @ add_fields overrides w1 @ post"
  have same: "p\<lparr>pp_positional := snd (from_fields rest)\<rparr> = p" using h(5) by simp
  show ?thesis
    unfolding h(6) using h(7)[OF p(2)] placed_reads[OF r assms(2)] same by (intro exI[of _ "fst (from_fields ?F)"]) simp
qed

lemma with_params_reads_witness:
  "\<exists>p params. parse_policy ''a'' ''ss, h, 1, tfo=no, TFO=1'' (''f'', 1) = Inr p \<and>
     param_get_all (pp_params p) ''tfo'' = [''no'', ''1''] \<and>
     parse_policy ''a'' (with_params ''ss, h, 1, tfo=no, TFO=1'' [(''tfo'', ''y,n'')]) (''f'', 1) =
       Inr (p\<lparr>pp_params := params, pp_definition := ''ss, h, 1, tfo=\"y,n\"''\<rparr>) \<and>
     param_get_all params ''tfo'' = [''y,n'']"
proof -
  let ?d = "''ss, h, 1, tfo=no, TFO=1''" and ?o = "[(''tfo'', ''y,n'')]"
  let ?fs = "[\<lparr>f_text = ''tfo=no'', f_param = Some (''tfo'', ''no'')\<rparr>, \<lparr>f_text = ''TFO=1'', f_param = Some (''TFO'', ''1'')\<rparr>]"
  have f: "split_fields ?d = \<lparr>f_text = ''ss'', f_param = None\<rparr> # \<lparr>f_text = ''h'', f_param = None\<rparr> #
      \<lparr>f_text = ''1'', f_param = None\<rparr> # ?fs" by code_simp
  have kind: "policy_kind_parse ''ss'' = Some KShadowsocks" "takes_server KShadowsocks" by code_simp+
  have port: "parse_u16 ''1'' = Some 1"
    by (simp add: parse_u16_def parse_uint_def Let_def is_ascii_digit_def code_def)
  obtain p where p: "parse_policy ''a'' ?d (''f'', 1) = Inr p" "pp_params p = fst (from_fields ?fs)"
    by (simp add: parse_policy_def f kind server_and_port_def port map_sum_def)
  have old: "param_get_all (fst (from_fields ?fs)) ''tfo'' = [''no'', ''1'']" by code_simp
  have d: "trim (with_params ?d ?o) = ''ss, h, 1, tfo=\"y,n\"''" by code_simp
  have k: "list_all (\<lambda>(k, _). key_name k) ?o" by code_simp
  obtain params where q: "parse_policy ''a'' (with_params ?d ?o) (''f'', 1) =
       Inr (p\<lparr>pp_params := params, pp_definition := ''ss, h, 1, tfo=\"y,n\"''\<rparr>)"
     "\<And>key. param_get_all params key =
        (case override_for ?o key of Some (_, v) \<Rightarrow> [v] | None \<Rightarrow> param_get_all (pp_params p) key)"
    using with_params_reads[OF p(1) k] unfolding d by blast
  have "param_get_all params ''tfo'' = [''y,n'']" unfolding q(2) by simp
  then show ?thesis using p q(1) old by metis
qed

end
