(* ===== verification/Spec2Isabelle.thy ===== *)
theory Spec2Isabelle
  imports Rurge_Engine_Run Rurge_Rule_Facts Rurge_Dns_Cache Rurge_Fake_Ip_Run Rurge_H3_Reader Rurge_Huffman_Facts Rurge_Qpack_Facts Rurge_Tun_Write_Ref Rurge_Auto_Facts Rurge_Group_Spec_Facts Rurge_Registry_Facts Rurge_Policy_Def_Facts
begin

text \<open>
  A verification development for rurge, a rule-based proxy that reads Surge profiles. Source
  paths are relative to the root of the repository.

  \<^bold>\<open>The program.\<close> A profile is a text of sections. The crate \<^verbatim>\<open>rurge-config\<close> cuts its lines and
  reads its rules; \<^verbatim>\<open>rurge-rules\<close> compiles them, with the rule sets they refer to, into a table of
  matchers and evaluates a session against the table, first match first. An evaluation may find
  that it needs the process that opened the session or the addresses of a name, and asks for
  each then. Rules flagged \<open>pre-matching\<close> are also asked before a connection exists, when a DNS
  query arrives, and when it is opened. The decision names a policy: a group of policies points
  at one of its members, by choice, by tests or by what sessions reported, and \<^verbatim>\<open>rurge-policy\<close> walks
  from the name to the outbound a connection is opened through.

  Around that decision stand the other parts modelled here. A TUN device hands the program IP
  packets: \<^verbatim>\<open>rurge-tun\<close> checks each, places it by its addresses and ports, and writes the answers
  as packets. \<^verbatim>\<open>rurge-dns\<close> answers queries of applications on the TUN with addresses of a pool
  that stand for names, so that a packet to such an address leads back to the name the rules
  are asked about; it also caches the answers of upstream servers. \<^verbatim>\<open>rurge-net\<close> reads and
  writes HTTP/3 streams for the outbound protocols that run over QUIC.

  \<^bold>\<open>The theories\<close>, in the order of their imports.

  \<^item> \<open>Rurge_Prelude\<close>: machine integers, characters, the string operations of the standard library.
  \<^item> \<open>Rurge_Glob\<close> (\<^verbatim>\<open>rurge-config/src/glob.rs\<close>): patterns; the backtracking loop decides their language.
  \<^item> \<open>Rurge_Value\<close> (\<^verbatim>\<open>value.rs\<close>, part of \<^verbatim>\<open>policy.rs\<close> and \<^verbatim>\<open>text/mod.rs\<close>): the cutting of a line into
    items and parameters; nothing is lost, and a written parameter reads back.
  \<^item> \<open>Rurge_Items\<close>: which commas cut a line, as one condition on its marks, and when a list of texts
    is the list of the items of the line they are joined to.
  \<^item> \<open>Rurge_Types\<close> (\<^verbatim>\<open>types.rs\<close>, \<^verbatim>\<open>session.rs\<close>, \<^verbatim>\<open>network.rs\<close>, part of \<^verbatim>\<open>policy.rs\<close>): hosts,
    sessions, the network, built-in policies, and the record \<open>ext\<close> of the third-party functions.
  \<^item> \<open>Rurge_Rule\<close>, \<open>Rurge_Rule_Facts\<close> (\<^verbatim>\<open>rule.rs\<close>): the parser of rules, one definition per
    function of the source, and what an accepted rule cannot be.
  \<^item> \<open>Rurge_Policy_Def\<close>, \<open>Rurge_Policy_Def_Facts\<close> (\<^verbatim>\<open>policy.rs\<close>, \<open>ParamMap\<close> of \<^verbatim>\<open>value.rs\<close>, part of
    \<^verbatim>\<open>redact.rs\<close>): the lines of policies and groups and their kinds, and the line with parameters of the
    user put in place, which the proof takes from its items to its fields to the policy read.
  \<^item> \<open>Rurge_Matcher\<close> (\<^verbatim>\<open>rurge-rules/src/matcher.rs\<close>): compiled matchers, the context of an
    evaluation, \<open>eval\<close>. The branches of the one Rust function \<open>Matcher::eval\<close> are separate
    definitions, and its calls of sets go through a parameter, as they go through the trait
    \<open>SetMatch\<close> in the code.
  \<^item> \<open>Rurge_Domain_Index\<close>, \<open>Rurge_Ip_Index\<close> (\<^verbatim>\<open>domain_index.rs\<close>, \<^verbatim>\<open>ip_index.rs\<close>): the two indexes, each
    proved equal to a scan of what was added. The locale \<open>prefix_trie\<close> states what the trie crate
    promises, \<open>ext_laws\<close> that both families have it; a concrete \<open>ext_ref\<close> satisfies it.
  \<^item> \<open>Rurge_Set_Format\<close>, \<open>Rurge_Set\<close> (\<^verbatim>\<open>set_format.rs\<close>, \<^verbatim>\<open>set.rs\<close>): set files, compiled sets, and the
    knot: sets refer to sets through handles, in cycles too after a hot reload.
  \<^item> \<open>Rurge_Eval_Facts\<close>: the contract of an evaluation, the end of nesting, and that a verdict
    reached before the connection is final. The locales \<open>set_contract\<close>, \<open>set_agreement\<close> and
    \<open>set_prophecy\<close> state what a matcher relies on of the sets it calls; each is interpreted on the
    compiled sets.
  \<^item> \<open>Rurge_Engine\<close>, \<open>Rurge_Engine_Facts\<close> (\<^verbatim>\<open>engine.rs\<close>, \<^verbatim>\<open>pre_matching.rs\<close>): the table, its
    building, an evaluation with its questions, counters, notes and trace, and pre-matching.
  \<^item> \<open>Rurge_Truth\<close>: what a rule means in plain logic, given the process and the addresses, and that the
    verdicts of \<open>eval\<close> are sound for it; verdicts do not depend on caches. The locales \<open>set_truth\<close> and
    \<open>set_steady\<close> carry both through the sets, and are interpreted on the compiled sets.
  \<^item> \<open>Rurge_Engine_Run\<close>: what a whole evaluation decides, in terms of that meaning.
  \<^item> \<open>Rurge_Float\<close>: the \<open>f64\<close> of the standard library as far as scores use it, every operation rounded
    to the nearest value of the format, and durations.
  \<^item> \<open>Rurge_Testbook\<close> (\<^verbatim>\<open>rurge-policy/src/testbook.rs\<close>): the tests of policies, those that run and the
    results that are kept, as a step relation over every order in which tests start and end.
  \<^item> \<open>Rurge_Smart\<close>, \<open>Rurge_Smart_Facts\<close> (\<^verbatim>\<open>smart.rs\<close>): the scores of policies, what is remembered of a
    site, the uses of members, and the ranking of a dial through a \<open>smart\<close> group.
  \<^item> \<open>Rurge_Auto\<close>, \<open>Rurge_Auto_Facts\<close> (\<^verbatim>\<open>auto.rs\<close>, \<^verbatim>\<open>selections.rs\<close>, part of
    \<^verbatim>\<open>spec/group.rs\<close>): groups, how each kind picks by tests, overrides, rounds of tests and changes
    of the network.
  \<^item> \<open>Rurge_Group_Spec\<close>, \<open>Rurge_Group_Spec_Facts\<close> (\<^verbatim>\<open>spec/group.rs\<close>, part of \<^verbatim>\<open>diagnostic.rs\<close> and of
    \<^verbatim>\<open>spec/reader.rs\<close>): the parameters of a group line, read into the group the registry takes, with the
    diagnostics on the way; the reader of the source is passed from step to step.
  \<^item> \<open>Rurge_Registry\<close>, \<open>Rurge_Registry_Facts\<close> (\<^verbatim>\<open>registry.rs\<close>, part of \<^verbatim>\<open>rurge-proto/src/outbound.rs\<close>):
    the table of policies and groups, the choice of a group, and the walk of a resolution.
  \<^item> \<open>Rurge_Lru\<close>, \<open>Rurge_Dns_Cache\<close> (\<^verbatim>\<open>rurge-dns/src/cache.rs\<close>): what the crate of the cache promises
    (locale \<open>lru_laws\<close>), and the cache of answers with its one refresh at a time.
  \<^item> \<open>Rurge_Fake_Ip\<close>, \<open>Rurge_Fake_Ip_Facts\<close>, \<open>Rurge_Fake_Ip_Run\<close> (\<^verbatim>\<open>rurge-dns/src/fakeip/mod.rs\<close>,
    \<^verbatim>\<open>file.rs\<close>): the pool of addresses that stand for names, its file, and its runs in any order of
    assignments, leases and restarts.
  \<^item> \<open>Rurge_H3_Frame\<close>, \<open>Rurge_H3_Reader\<close>, \<open>Rurge_Huffman\<close>, \<open>Rurge_Huffman_Tables\<close>,
    \<open>Rurge_Huffman_Facts\<close>, \<open>Rurge_Qpack\<close>, \<open>Rurge_Qpack_Facts\<close> (\<^verbatim>\<open>rurge-net/src/quic/h3/\<close>): frames,
    the reader of a stream, and the field sections of QPACK with its Huffman code.
  \<^item> \<open>Rurge_Tun_Limits\<close> (\<^verbatim>\<open>rurge-tun/src/limit.rs\<close>, \<^verbatim>\<open>bytes.rs\<close>, \<^verbatim>\<open>tcp/admission.rs\<close>, \<^verbatim>\<open>tcp/budget.rs\<close>):
    the rate limit, the bytes of a queue, the admission of connections and the memory budget. The
    locale \<open>token_counter\<close> is what three of them share.
  \<^item> \<open>Rurge_Tun_Packet\<close>, \<open>Rurge_Tun_Packet_Facts\<close> (\<^verbatim>\<open>space.rs\<close>, \<^verbatim>\<open>ip_rewrite.rs\<close>, \<^verbatim>\<open>packet.rs\<close>,
    \<^verbatim>\<open>stats.rs\<close>, \<^verbatim>\<open>dispatch.rs\<close>): the checks of a packet that came in, where it goes, and the counters.
  \<^item> \<open>Rurge_Tun_Write\<close>, \<open>Rurge_Tun_Write_Facts\<close>, \<open>Rurge_Tun_Write_Ref\<close> (\<^verbatim>\<open>fragment.rs\<close>, \<^verbatim>\<open>icmp.rs\<close>,
    \<^verbatim>\<open>context.rs\<close>, \<^verbatim>\<open>rewrite.rs\<close>, the rest of \<^verbatim>\<open>packet.rs\<close>): the packets that go out.

  \<^bold>\<open>What is shown.\<close> A refusal given to a DNS query is given in rule mode to the connections that follow
  it from the same client to the same name, with what the query showed of TLS server name, Host and
  process (C1), because a verdict reached without the connection is final for them (C2). Evaluation ends on
  cyclic sets (C3) and keeps its context (C4); what it says of a rule is true in the plain logic of the
  rule's parts (C16), and a run decides by the first rule that holds (C5), asking for each
  thing at most once (C6). One rule may be passed over though it holds: the one the name is looked up
  for, if only then it needs the process; \<open>process_not_asked_after_lookup\<close> is an instance. The
  table is the rules up to the first FINAL and then the last FINAL (C7). From the
  rules to the outbound: what DNS refused resolves to a rejection, for the connections of C1 (C8); a resolution ends at what
  the profile names, so that a relay never becomes a direct connection (C9), and it always ends
  (C10). The indexes are correct (C11, C12). Downloaded text names no local file (C13). Globs decide
  their language (C14), and a policy line with parameters put in place reads as it did, with them
  in place (C15). Beside these the theories
  prove that nothing on a group's line is passed over in silence and that a group that is built is one the
  registry can rely on, that cutting a line loses nothing, that what the parser accepts and what a set file yields
  is bounded, that flagged rules reject, and that an engine keeps its invariant.

  The pool of addresses gives a name one address and an address one name: a leased name keeps its
  address (C17), in every order of operations (C18, C19), and a pool opened on a file has the names of the
  table that was saved, or after a crash holds back their addresses (C20). A dial through a
  \<open>smart\<close> group has every member to try (C21), ranked with the best first (C22); a site that is down
  costs one penalty (C23), and scores of latencies below 2048 seconds never overflow a duration (C24). A superseded test keeps
  nothing (C25), \<open>url-test\<close> holds its member within the tolerance (C26), and rounds on an old network do
  not count (C27).

  What waits for a shard of the TUN is counted, and read as it was routed (C28); a packet that
  passes the checks has the shape the rest relies on (C29); what goes out in pieces is put together
  again to what was sent (C30), and a rewritten packet is answered at most once, a reflection with the
  bytes of its two addresses exchanged (C31). Packets to addresses of the pool go to the place of names (C32). Connections, buffers and messages stay
  within their limits (C33 to C35). The cache serves what was written last (C36). HTTP/3 frames (C37),
  Huffman code (C38) and field sections (C39) read back, and a sensitive value is never indexed (C40).

  \<^bold>\<open>Bounds.\<close> \<open>set_calls\<close> unfolds nested sets a fixed number of times; \<open>MAX_NESTING\<close> is enough, which
  is C3: more unfoldings change nothing. \<open>parse_kind\<close> and its companions are total by the depth
  limit of the code, \<open>MAX_LOGICAL_DEPTH\<close>. No other definition has fuel. \<open>usize\<close> has 64 bits. The pool
  is taken to have fewer than \<open>2^32\<close> leases of an address at once, which its counter needs; the
  budget to leave room in 64 bits for the least buffers of all its sockets; and the MTU to be the
  1280 or more that the configuration asks for. The walks of the registry recurse by the levels left
  of \<open>MAX_DEPTH\<close>, as the code counts them up. The book of scores is taken to see at most \<open>2^31\<close>
  reports of less than 2048 seconds each; the sum of a group's test results is taken to fit a duration,
  which results below \<open>2^32\<close> seconds and fewer than \<open>2^32\<close> members ensure.

  \<^bold>\<open>Parameters.\<close> The crates \<open>ipnet\<close>, \<open>prefix_trie\<close> and \<open>fancy_regex\<close> are the fields of \<open>ext\<close>; the
  resolver, the process finder and the geographic databases are arguments, as they are traits in
  the code. An evaluation returns the questions it asked them. The crates \<open>lru\<close> and \<open>bytes\<close> and
  \<open>smoltcp\<close>'s views of packets are records of functions (\<open>smol\<close>, \<open>smol_write\<close>) with what the code
  relies on in the locales \<open>lru_laws\<close>, \<open>buf_mut_laws\<close>, \<open>bytes_mut_laws\<close>, \<open>smol_laws\<close> and
  \<open>smol_write_laws\<close>, each interpreted on concrete functions. The scores use \<open>exp2\<close> of the
  platform, of which only that it stays between 0 and 1 below zero is relied on; it is an argument,
  as are the hash of a host and the numbers a dial draws. Clocks are arguments; the answers of
  files, of QUIC streams and of channels are arguments of the operations that wait for them.

  \<^bold>\<open>Not modelled.\<close> Characters beyond U+00FF, source spans and elapsed times; locks and atomics,
  which are read as the values they hold, so that an evaluation sees one state of each set.
  A resolution reads the clock once. Downloads and hot reload of sets, the other sections of a
  profile, and the crates that do network, system or cryptographic work. Of the policies, the building
  of the table from the groups and policies read, subscriptions and the probes themselves. Of the TUN, the TCP stack
  and the sessions over it; of HTTP/3, the connection.
\<close>

section \<open>From the rules to the outbound\<close>

lemma reject_policy_resolves:
  assumes "is_reject_policy p"
  shows "\<exists>res kind. resolve_with reg dl p host a = Some (res, a) \<and> rs_terminal res = TkReject \<and>
    rs_outbound res = rg_rejects reg kind"
proof -
  obtain b kind where "p = PBuiltin b" "reject_from_builtin b = Some kind"
    using assms builtin_kinds by (auto simp: is_reject_policy_def split: policy_ref.splits)
  then show ?thesis
    by (cases b) (auto simp: resolve_with_def resolve_builtin_def resolution_done_def)
qed

text \<open>
  C8. What DNS refused goes nowhere: when a pre-matching rule has refused the query for a name, the
  policy decided on in rule mode for a connection of \<^const>\<open>same_query\<close> (to the same host, from the same
  client address, with the server name, Host and process the query had) resolves to an outbound that
  rejects, in every registry, whatever is selected, tested or known of the groups, and the
  resolution changes nothing of them.
\<close>

theorem refused_query_never_dials:
  assumes "engine_ok e" and "same_query s s'" and "fst (pre_match env store e s Dns) \<noteq> None"
  shows "\<exists>p res kind. d_outcome (fst (run env store e s' ModeRule resolver process)) = OPolicy p \<and>
    resolve_with reg dl p host a = Some (res, a) \<and> rs_terminal res = TkReject \<and>
    rs_outbound res = rg_rejects reg kind"
proof -
  obtain pos sub where hit: "first_pre_hit env store e s' Syn = Some (pos, sub)"
    using dns_hit_foretold[OF assms(2,3)] by auto
  then have "is_reject_policy (cr_policy (eng_rules e ! pos))"
    using first_pre_loop_hit unfolding first_pre_hit_def by blast
  moreover have "d_outcome (fst (run env store e s' ModeRule resolver process)) = OPolicy (cr_policy (eng_rules e ! pos))"
    using run_cases(1)[OF assms(1) refl, where env = env and store = store and s = s' and resolver = resolver and process = process] hit
    by (simp add: pre_decision_def)
  ultimately show ?thesis using reject_policy_resolves by blast
qed

theorem refused_query_never_dials_witness:
  "engine_ok demo_engine \<and> same_query ads_query ads_connection \<and>
   (\<exists>p res kind. d_outcome (fst (run env_ref looping_store demo_engine ads_connection ModeRule no_resolve_resolver no_process)) = OPolicy p \<and>
      resolve_with example_registry example_dial p None example_auto = Some (res, example_auto) \<and>
      rs_terminal res = TkReject \<and> rs_outbound res = rg_rejects example_registry kind)"
proof -
  have q: "same_query ads_query ads_connection"
    by (simp add: same_query_def ads_query_def ads_connection_def session_udp_def session_tcp_def)
  show ?thesis using refused_query_never_dials[OF demo_engine_ok q demo_refused] demo_engine_ok q by blast
qed

end
